(* ===== verification/Bytes_Prelude.thy ===== *)
theory Bytes_Prelude
  imports Main "HOL-Library.Word"
begin

text \<open>
  Shared vocabulary of the development: bytes and machine words, the C sequencing idiom over an
  explicit state, big-endian numbers as byte lists, base-128 digits, byte arrays written in
  place, and the interface \<open>byte_codec\<close> that every encoder/decoder pair of the library is an
  instance of.

  Conventions. \<open>size_t\<close>, \<open>uint64_t\<close> and \<open>crypto_word_t\<close> are 64 bits wide
  (the LP64 targets of the applications). The length of an object in memory is a \<open>nat\<close>;
  wherever the C code computes with a \<open>size_t\<close> that may overflow, the reduction modulo
  \<open>2 ^ 64\<close> is written out by \<open>size_t\<close>. Words that the code shifts and masks keep
  their width.
\<close>

unbundle bit_operations_syntax

type_synonym byte = "8 word"

definition size_t :: "nat \<Rightarrow> nat" where
  "size_t n = n mod 2 ^ 64"

lemma size_t_id: "n < 2 ^ 64 \<Longrightarrow> size_t n = n"
  by (simp add: size_t_def)

lemma size_t_le: "size_t n \<le> n"
  by (simp add: size_t_def)

lemma size_t_less: "size_t n < 2 ^ 64"
  by (simp add: size_t_def)

subsection \<open>Sequencing of fallible steps\<close>

text \<open>
  A C function that updates \<open>*s\<close> and returns 0 or 1 is a function to a flag and the new
  state, whether it fails or not: a failing step may have changed the state. One that also
  sets an output parameter returns an option. \<open>and_also\<close> is \<open>p(s) && q(s)\<close>, and with
  it \<open>if (!p(s)) return 0; return q(s);\<close>.
\<close>

type_synonym 's step = "'s \<Rightarrow> bool \<times> 's"
type_synonym ('s, 'a) reader = "'s \<Rightarrow> 'a option \<times> 's"

definition and_also :: "'s step \<Rightarrow> 's step \<Rightarrow> 's step" where
  "and_also p q s = (case p s of (ok, s') \<Rightarrow> if ok then q s' else (False, s'))"

text \<open>The value and the rest, when the reader succeeds: the caller's view of a reader.\<close>

definition parsed :: "('s, 'a) reader \<Rightarrow> 's \<Rightarrow> ('a \<times> 's) option" where
  "parsed f s = (case f s of (None, _) \<Rightarrow> None | (Some v, s') \<Rightarrow> Some (v, s'))"

lemma parsed_Some_iff: "parsed f s = Some (v, s') \<longleftrightarrow> f s = (Some v, s')"
  by (auto simp: parsed_def split: prod.splits option.splits)

lemma parsed_None_iff: "parsed f s = None \<longleftrightarrow> fst (f s) = None"
  by (auto simp: parsed_def split: prod.splits option.splits)

lemma and_also_True_iff:
  "and_also p q s = (True, t) \<longleftrightarrow> (\<exists>u. p s = (True, u) \<and> q u = (True, t))"
  by (auto simp: and_also_def split: prod.splits if_splits)

lemma and_also_step: "p s = (True, u) \<Longrightarrow> and_also p q s = q u"
  by (simp add: and_also_def)

subsection \<open>Arrays of bytes written in place\<close>

text \<open>
  \<open>mem_write a i bs\<close> is the array \<open>a\<close> after \<open>memcpy(a + i, bs, length bs)\<close>; the
  callers keep \<open>i + length bs\<close> within the array.
\<close>

definition mem_write :: "'a list \<Rightarrow> nat \<Rightarrow> 'a list \<Rightarrow> 'a list" where
  "mem_write a i bs = take i a @ bs @ drop (i + length bs) a"

lemma length_mem_write [simp]: "i + length bs \<le> length a \<Longrightarrow> length (mem_write a i bs) = length a"
  by (simp add: mem_write_def)

lemma nth_mem_write:
  "i + length bs \<le> length a \<Longrightarrow> j < length a \<Longrightarrow>
   mem_write a i bs ! j = (if i \<le> j \<and> j < i + length bs then bs ! (j - i) else a ! j)"
  by (auto simp: mem_write_def nth_append min_def)

lemma take_mem_write_before [simp]: "n \<le> i \<Longrightarrow> i \<le> length a \<Longrightarrow> take n (mem_write a i bs) = take n a"
  by (simp add: mem_write_def min_def)

lemma take_mem_write_upto:
  "i \<le> length a \<Longrightarrow> take (i + length bs) (mem_write a i bs) = take i a @ bs"
  by (simp add: mem_write_def)

lemma drop_mem_write_after:
  "i + length bs \<le> n \<Longrightarrow> i + length bs \<le> length a \<Longrightarrow> drop n (mem_write a i bs) = drop n a"
  by (simp add: mem_write_def)

lemma mem_write_Nil [simp]: "mem_write a i [] = a"
  by (simp add: mem_write_def)

lemma mem_write_append:
  assumes "i + length xs + length ys \<le> length a"
  shows "mem_write (mem_write a i xs) (i + length xs) ys = mem_write a i (xs @ ys)"
proof -
  have "take (i + length xs) (mem_write a i xs) = take i a @ xs"
    using assms by (simp add: take_mem_write_upto)
  moreover have "drop (i + length xs + length ys) (mem_write a i xs) = drop (i + length xs + length ys) a"
    using assms by (simp add: drop_mem_write_after)
  ultimately show ?thesis
    by (simp add: mem_write_def [of "mem_write a i xs"] mem_write_def [of a i "xs @ ys"] add.assoc)
qed

lemma list_update_mem_write:
  assumes "i < length a"
  shows "a[i := x] = mem_write a i [x]"
  using assms by (simp add: mem_write_def upd_conv_take_nth_drop)

lemma xor_eq_zero_iff: "(a :: 'a :: len word) XOR b = 0 \<longleftrightarrow> a = b"
  by (auto simp: bit_eq_iff bit_xor_iff)

text \<open>The byte with a given value; unlike \<open>of_nat\<close> it is not taken apart by the simplifier.\<close>

definition byte_of :: "nat \<Rightarrow> byte" where
  "byte_of n = of_nat n"

lemma unat_byte_of: "n < 256 \<Longrightarrow> unat (byte_of n) = n"
  by (simp add: byte_of_def unat_of_nat take_bit_nat_eq_self)

lemma byte_of_unat [simp]: "byte_of (unat b) = b"
  by (simp add: byte_of_def)

lemma byte_of_eq: "unat b = n \<Longrightarrow> byte_of n = b"
  by (auto simp: byte_of_def)

subsection \<open>Big-endian numbers\<close>

text \<open>The number a byte string stands for, most significant byte first, and back.\<close>

fun be_value_acc :: "nat \<Rightarrow> byte list \<Rightarrow> nat" where
  "be_value_acc n [] = n"
| "be_value_acc n (b # bs) = be_value_acc (n * 256 + unat b) bs"

definition be_value :: "byte list \<Rightarrow> nat" where
  "be_value bs = be_value_acc 0 bs"

fun be_bytes :: "nat \<Rightarrow> nat \<Rightarrow> byte list" where
  "be_bytes 0 v = []"
| "be_bytes (Suc n) v = be_bytes n (v div 256) @ [of_nat (v mod 256)]"

lemma unat_byte_lt [simp]: "unat (b :: byte) < 256"
  using unsigned_less [of b, where ?'a = nat] by simp

lemma be_value_acc_append: "be_value_acc n (xs @ ys) = be_value_acc (be_value_acc n xs) ys"
  by (induction xs arbitrary: n) auto

lemma be_value_Nil [simp]: "be_value [] = 0"
  by (simp add: be_value_def)

lemma be_value_snoc [simp]: "be_value (xs @ [b]) = be_value xs * 256 + unat b"
  by (simp add: be_value_def be_value_acc_append)

lemma be_value_acc_shift: "be_value_acc n bs = n * 256 ^ length bs + be_value bs"
proof (induction bs rule: rev_induct)
  case Nil
  then show ?case by simp
next
  case (snoc b bs)
  then show ?case by (simp add: be_value_acc_append algebra_simps)
qed

lemma be_value_Cons: "be_value (b # bs) = unat b * 256 ^ length bs + be_value bs"
  by (simp add: be_value_def be_value_acc_shift [of "unat b"])

lemma be_value_singleton [simp]: "be_value [b] = unat b"
  by (simp add: be_value_def)

lemma be_value_bound: "be_value bs < 256 ^ length bs"
proof (induction bs rule: rev_induct)
  case Nil
  then show ?case by simp
next
  case (snoc b bs)
  have "unat b < 256" by simp
  with snoc have "be_value bs * 256 + unat b < (be_value bs + 1) * 256" by simp
  also have "\<dots> \<le> 256 ^ length bs * 256" using snoc by (intro mult_right_mono) auto
  finally show ?case by simp
qed

lemma length_be_bytes [simp]: "length (be_bytes n v) = n"
  by (induction n arbitrary: v) auto

lemma unat_of_nat_byte [simp]: "unat (of_nat n :: byte) = n mod 256"
  by (simp add: unat_of_nat)

lemma be_value_be_bytes [simp]: "be_value (be_bytes n v) = v mod 256 ^ n"
proof (induction n arbitrary: v)
  case 0
  then show ?case by simp
next
  case (Suc n)
  have "v mod 256 ^ Suc n = v mod (256 * 256 ^ n)" by simp
  also have "\<dots> = 256 * (v div 256 mod 256 ^ n) + v mod 256" by (rule mod_mult2_eq)
  finally show ?case by (simp add: Suc)
qed

lemma be_bytes_be_value [simp]: "be_bytes (length bs) (be_value bs) = bs"
proof (induction bs rule: rev_induct)
  case Nil
  then show ?case by simp
next
  case (snoc b bs)
  have "(be_value bs * 256 + unat b) div 256 = be_value bs"
    by simp
  moreover have "(be_value bs * 256 + unat b) mod 256 = unat b"
    by simp
  ultimately show ?case using snoc by simp
qed

lemma be_bytes_of_value: "length bs = n \<Longrightarrow> be_value bs = v \<Longrightarrow> be_bytes n v = bs"
  using be_bytes_be_value by blast

lemma be_value_inj: "length xs = length ys \<Longrightarrow> be_value xs = be_value ys \<Longrightarrow> xs = ys"
  by (metis be_bytes_be_value)

subsection \<open>Words built by shifting bytes in\<close>

text \<open>An OR of a multiple of \<open>2 ^ k\<close> and a number below \<open>2 ^ k\<close> is their sum.\<close>

lemma unat_or_disjoint:
  fixes x y :: "'a :: len word"
  assumes "2 ^ k dvd unat x" and "unat y < 2 ^ k"
  shows "unat (x OR y) = unat x + unat y"
proof -
  have "unat x AND unat y = 0"
  proof (rule bit_eqI)
    fix n
    obtain m where "unat x = push_bit k m"
      using assms(1) by (auto simp: push_bit_eq_mult dvd_def mult.commute)
    moreover have "\<not> bit (unat y) n" if "k \<le> n"
      using assms(2) that by (metis bit_take_bit_iff not_le take_bit_nat_eq_self)
    ultimately show "bit (unat x AND unat y) n \<longleftrightarrow> bit (0 :: nat) n"
      by (auto simp: bit_and_iff bit_push_bit_iff)
  qed
  then show ?thesis by (simp add: unsigned_or_eq disjunctive_add_eq_or)
qed

lemma unat_push_bit:
  fixes r :: "'a :: len word"
  assumes "unat r * 2 ^ k < 2 ^ LENGTH('a)"
  shows "unat (push_bit k r) = unat r * 2 ^ k"
  using assms by (subst unsigned_push_bit_eq) (simp add: take_bit_nat_eq_self push_bit_eq_mult)

lemma unat_shift_or:
  fixes r b :: "'a :: len word"
  assumes "unat r * 2 ^ k < 2 ^ LENGTH('a)" and "unat b < 2 ^ k"
  shows "unat (push_bit k r OR b) = unat r * 2 ^ k + unat b"
  using assms unat_or_disjoint [of k "push_bit k r" b] by (simp add: unat_push_bit)

lemma unat_shift_or_byte:
  fixes r :: "64 word"
  assumes "unat r < 2 ^ (64 - k)" and "k \<le> 64" and "unat (b :: 64 word) < 2 ^ k"
  shows "unat (push_bit k r OR b) = unat r * 2 ^ k + unat b"
proof -
  have "unat r * 2 ^ k < 2 ^ (64 - k) * 2 ^ k" using assms(1) by simp
  also have "\<dots> = (2 :: nat) ^ 64" using assms(2) by (simp flip: power_add)
  finally show ?thesis using assms(3) by (intro unat_shift_or) simp_all
qed

lemma unat_drop_bit: "unat (drop_bit n (w :: 'a :: len word)) = unat w div 2 ^ n"
  by (subst unsigned_drop_bit_eq) (simp add: drop_bit_eq_div take_bit_nat_eq_self)

lemma unat_and_not_mask: "unat ((w :: 'a :: len word) AND NOT (mask n)) = unat w div 2 ^ n * 2 ^ n"
proof -
  have "w AND NOT (mask n) = push_bit n (drop_bit n w)"
    by (rule bit_eqI) (auto simp: bit_simps dest: bit_imp_le_length)
  moreover have "unat (drop_bit n w) = unat w div 2 ^ n" by (rule unat_drop_bit)
  moreover have "unat w div 2 ^ n * 2 ^ n < 2 ^ LENGTH('a)"
    by (rule le_less_trans [OF div_times_less_eq_dividend unsigned_less])
  ultimately show ?thesis by (simp add: unat_push_bit)
qed

lemma unat_ucast_byte64 [simp]: "unat (ucast (b :: byte) :: 64 word) = unat b"
  by (simp add: unsigned_ucast_eq take_bit_nat_eq_self less_trans [OF unat_byte_lt])

subsection \<open>Words as numbers\<close>

lemma unat_ucast_byte32 [simp]: "unat (ucast (b :: byte) :: 32 word) = unat b"
proof -
  have "unat b < 2 ^ 32" using unat_byte_lt [of b] by (rule less_trans) simp
  then show ?thesis by (simp add: unsigned_ucast_eq take_bit_nat_eq_self)
qed

lemma unat_eqD: "unat (w :: 'a :: len word) = n \<Longrightarrow> w = of_nat n"
  by (drule sym) simp

lemma bit_unat_iff: "bit (w :: 'a :: len word) n \<longleftrightarrow> odd (unat w div 2 ^ n)"
proof -
  have "bit (unat w) n \<longleftrightarrow> bit w n"
    by (cases "n < LENGTH('a)") (auto simp: bit_unsigned_iff dest: bit_imp_le_length)
  then show ?thesis by (simp add: bit_iff_odd)
qed

lemma byte_high_bit: "(b :: byte) AND 0x80 = 0 \<longleftrightarrow> unat b < 128"
proof -
  have "b AND 2 ^ 7 = 0 \<longleftrightarrow> \<not> odd (unat b div 2 ^ 7)"
    by (simp only: and_exp_eq_0_iff_not_bit bit_unat_iff)
  also have "\<not> odd (unat b div 2 ^ 7) \<longleftrightarrow> unat b < 128"
  proof -
    have "unat b div 128 < 2" using unat_byte_lt [of b] by linarith
    then have "even (unat b div 128) \<longleftrightarrow> unat b div 128 = 0"
      by (cases "unat b div 128") auto
    then show ?thesis by (simp add: div_eq_0_iff)
  qed
  finally show ?thesis by simp
qed

lemma unat_and_mask: "unat ((w :: 'a :: len word) AND mask n) = unat w mod 2 ^ n"
  by (simp flip: take_bit_eq_mask take_bit_eq_mod add: unsigned_take_bit_eq)

lemma unat_byte_low7: "unat ((b :: byte) AND 0x7f) = unat b mod 128"
  using unat_and_mask [of b 7] by (simp add: mask_eq_exp_minus_1)

lemma unat_of_nat_lt: "n < 2 ^ LENGTH('a :: len) \<Longrightarrow> unat (of_nat n :: 'a word) = n"
  by (simp add: unat_of_nat take_bit_nat_eq_self)

lemma be_value_take_bound: "be_value (take n s) < 256 ^ n"
proof -
  have "be_value (take n s) < 256 ^ length (take n s)" by (rule be_value_bound)
  also have "\<dots> \<le> 256 ^ n" by (intro power_increasing) auto
  finally show ?thesis .
qed

subsection \<open>The interface of an encoder/decoder pair\<close>

text \<open>
  \<open>enc\<close> writes a value as a byte string and \<open>dec\<close> reads one value off the front of a
  byte string and returns it with the rest. \<open>valid\<close> is the set of values that have an
  encoding. The two laws say that reading gives back what was written whatever follows, and
  that everything that is read is what \<open>enc\<close> would have written: there is exactly one
  accepted encoding of every value.
\<close>

locale byte_codec =
  fixes enc :: "'a \<Rightarrow> byte list"
    and dec :: "byte list \<Rightarrow> ('a \<times> byte list) option"
    and valid :: "'a \<Rightarrow> bool"
  assumes dec_enc: "valid x \<Longrightarrow> dec (enc x @ r) = Some (x, r)"
    and enc_dec: "dec s = Some (x, r) \<Longrightarrow> valid x \<and> s = enc x @ r"
begin

lemma dec_iff: "dec s = Some (x, r) \<longleftrightarrow> valid x \<and> s = enc x @ r"
proof
  assume "dec s = Some (x, r)"
  then show "valid x \<and> s = enc x @ r" by (rule enc_dec)
next
  assume "valid x \<and> s = enc x @ r"
  then show "dec s = Some (x, r)" using dec_enc [of x r] by simp
qed

lemma dec_whole: "valid x \<Longrightarrow> dec (enc x) = Some (x, [])"
  using dec_enc [of x "[]"] by simp

lemma prefix_free:
  assumes "valid x" and "valid y" and "enc x @ r = enc y @ t"
  shows "x = y \<and> r = t"
proof -
  have "dec (enc x @ r) = Some (x, r)" using assms(1) by (rule dec_enc)
  moreover have "dec (enc y @ t) = Some (y, t)" using assms(2) by (rule dec_enc)
  ultimately have "Some (x, r) = Some (y, t)" by (simp only: assms(3))
  then show ?thesis by simp
qed

lemma enc_inj: "valid x \<Longrightarrow> valid y \<Longrightarrow> enc x = enc y \<Longrightarrow> x = y"
  by (metis append_Nil2 prefix_free)

lemma dec_shrinks: "dec s = Some (x, r) \<Longrightarrow> length r \<le> length s"
  by (auto dest: enc_dec)

lemma dec_None: "dec s = None \<longleftrightarrow> (\<nexists>x r. valid x \<and> s = enc x @ r)"
  by (metis dec_iff not_Some_eq prod.exhaust)

end

text \<open>A codec that never writes the empty string: lists of values can be written in a row.\<close>

locale nonempty_codec = byte_codec +
  assumes enc_nonempty: "valid x \<Longrightarrow> enc x \<noteq> []"
begin

lemma dec_strict: "dec s = Some (x, r) \<Longrightarrow> length r < length s"
  using enc_nonempty by (auto dest!: enc_dec)

lemma dec_Nil: "dec [] = None"
  using dec_strict [of "[]"] by (cases "dec []") force+

lemma concat_inj:
  "\<forall>x \<in> set xs. valid x \<Longrightarrow> \<forall>y \<in> set ys. valid y \<Longrightarrow>
   concat (map enc xs) = concat (map enc ys) \<Longrightarrow> xs = ys"
proof (induction xs arbitrary: ys)
  case Nil
  then show ?case by (cases ys) (auto dest: enc_nonempty)
next
  case (Cons x xs)
  have "enc x \<noteq> []" using Cons.prems(1) by (simp add: enc_nonempty)
  with Cons.prems(3) obtain y ys' where ys: "ys = y # ys'" by (cases ys) auto
  with Cons.prems have "x = y \<and> concat (map enc xs) = concat (map enc ys')"
    by (intro prefix_free) simp_all
  moreover from this Cons.prems ys have "xs = ys'"
    by (intro Cons.IH) simp_all
  ultimately show ?case using ys by simp
qed

end

subsection \<open>Four bytes as a word\<close>

lemma be_bytes_add: "be_bytes (m + n) v = be_bytes m (v div 256 ^ n) @ be_bytes n v"
  by (induction n arbitrary: v) (simp_all add: div_mult2_eq)

lemma be_bytes_4: "be_bytes 4 v = [of_nat (v div 16777216 mod 256), of_nat (v div 65536 mod 256), of_nat (v div 256 mod 256), of_nat (v mod 256)]"
proof -
  have "be_bytes (Suc (Suc (Suc (Suc 0)))) v = [of_nat (v div 256 div 256 div 256 mod 256), of_nat (v div 256 div 256 mod 256), of_nat (v div 256 mod 256), of_nat (v mod 256)]"
    by (simp only: be_bytes.simps append.simps)
  moreover have "v div 256 div 256 = v div 65536" "v div 65536 div 256 = v div 16777216" by (simp_all only: div_mult2_eq [symmetric]) simp_all
  moreover have "Suc (Suc (Suc (Suc 0))) = 4" by simp
  ultimately show ?thesis by metis
qed

lemma bit_load32:
  fixes bs :: "byte list"
  shows "i < length bs \<Longrightarrow> length bs \<le> 4 \<Longrightarrow> k < 8 \<Longrightarrow> bit (foldr (\<lambda>b w. push_bit 8 w OR ucast b) bs (0 :: 32 word)) (8 * i + k) \<longleftrightarrow> bit (bs ! i) k"
proof (induction bs arbitrary: i)
  case (Cons b bs)
  have b: "\<not> bit b (8 + n)" for n by (auto dest: bit_imp_le_length)
  show ?case
  proof (cases i)
    case (Suc j)
    have "8 * i + k = 8 + (8 * j + k)" using Suc by simp
    then show ?thesis using Cons Suc b [of "8 * j + k", unfolded add.assoc [symmetric]] by (simp add: bit_simps)
  qed (use Cons.prems in \<open>simp add: bit_simps\<close>)
qed simp

end
