(* ===== verification/Mem.thy ===== *)
theory Mem
  imports Bytes_Prelude
begin

text \<open>
  Model of \<open>crypto/mem.c\<close> and of the helpers of \<open>crypto/internal.h\<close> the other components
  call: the allocator wrappers, constant-time comparison, the FNV hash, the C string helpers
  and the byte swaps.

  An object in memory is the list of its bytes. A function that scans a C string returns an
  option: \<open>None\<close> stands for a read past the end of the object, which C leaves undefined.
  The C library's \<open>malloc\<close> is not under src/ and is a parameter: \<open>malloc n\<close> is
  \<open>None\<close> when the request fails and otherwise gives the indeterminate contents of the new
  block by index. No property of it is assumed.
\<close>

subsection \<open>Allocation\<close>

type_synonym allocator = "nat \<Rightarrow> (nat \<Rightarrow> byte) option"

definition OPENSSL_MALLOC_PREFIX :: nat where
  "OPENSSL_MALLOC_PREFIX = 8"

text \<open>
  The size of the block is stored in front of it; the caller sees the \<open>size\<close> bytes after the
  prefix. \<open>malloc_request\<close> is the argument of the call to \<open>malloc\<close>, which wraps.

  A size of \<open>2 ^ 64 - 8\<close> or more makes the request wrap to fewer than eight bytes. The C code
  then stores the size behind the block it was given, which is undefined; such a call is outside the
  model. A theorem whose allocator has to answer only requests of at least eight bytes
  (\<open>OPENSSL_malloc_answers\<close>) shows that the code makes no such call: the model's allocator may
  refuse it, and the theorem promises success all the same.
\<close>

definition malloc_request :: "nat \<Rightarrow> nat" where
  "malloc_request sz = size_t (sz + OPENSSL_MALLOC_PREFIX)"

definition OPENSSL_malloc :: "allocator \<Rightarrow> nat \<Rightarrow> byte list option" where
  "OPENSSL_malloc malloc sz = (case malloc (malloc_request sz) of
       None \<Rightarrow> None
     | Some p \<Rightarrow> Some (map (\<lambda>i. p (OPENSSL_MALLOC_PREFIX + i)) [0..<sz]))"

definition OPENSSL_cleanse :: "byte list \<Rightarrow> nat \<Rightarrow> byte list" where
  "OPENSSL_cleanse p len = mem_write p 0 (replicate len 0)"

text \<open>The bytes of the block (prefix included) at the moment it is handed back to \<open>free\<close>.\<close>

definition OPENSSL_free :: "byte list option \<Rightarrow> byte list option" where
  "OPENSSL_free orig = (case orig of None \<Rightarrow> None
     | Some b \<Rightarrow> Some (OPENSSL_cleanse (be_bytes 8 (length b) @ b) (length b + OPENSSL_MALLOC_PREFIX)))"

definition OPENSSL_realloc :: "allocator \<Rightarrow> byte list option \<Rightarrow> nat \<Rightarrow> byte list option" where
  "OPENSSL_realloc malloc orig new_size = (case orig of
       None \<Rightarrow> OPENSSL_malloc malloc new_size
     | Some old \<Rightarrow>
         (case OPENSSL_malloc malloc new_size of
            None \<Rightarrow> None
          | Some p \<Rightarrow>
              (let to_copy = (if length old < new_size then length old else new_size)
               in Some (mem_write p 0 (take to_copy old)))))"

definition OPENSSL_memdup :: "allocator \<Rightarrow> byte list \<Rightarrow> nat \<Rightarrow> byte list option" where
  "OPENSSL_memdup malloc data sz =
     (if sz = 0 then None
      else case OPENSSL_malloc malloc sz of
             None \<Rightarrow> None
           | Some p \<Rightarrow> Some (mem_write p 0 (take sz data)))"

subsection \<open>Comparison and hashing\<close>

definition CRYPTO_memcmp :: "byte list \<Rightarrow> byte list \<Rightarrow> nat \<Rightarrow> byte" where
  "CRYPTO_memcmp a b len = foldl (\<lambda>x i. x OR (a ! i XOR b ! i)) 0 [0..<len]"

definition OPENSSL_hash32 :: "byte list \<Rightarrow> 32 word" where
  "OPENSSL_hash32 s = foldl (\<lambda>h b. (h XOR ucast b) * 16777619) 2166136261 s"

text \<open>\<open>memchr(s, c, n) != NULL\<close> and \<open>memcmp\<close> of the C library, on blocks that hold the bytes.\<close>

definition OPENSSL_memchr :: "byte list \<Rightarrow> byte \<Rightarrow> nat \<Rightarrow> bool" where
  "OPENSSL_memchr s c n = (c \<in> set (take n s))"

fun OPENSSL_memcmp :: "byte list \<Rightarrow> byte list \<Rightarrow> nat \<Rightarrow> int" where
  "OPENSSL_memcmp (a # as) (b # bs) (Suc n) =
     (if a = b then OPENSSL_memcmp as bs n else if a < b then -1 else 1)"
| "OPENSSL_memcmp _ _ _ = 0"

subsection \<open>C strings\<close>

lemma OPENSSL_memcmp_code [code]:
  "OPENSSL_memcmp as bs n = (if n = 0 then 0 else case (as, bs) of
     (a # as', b # bs') \<Rightarrow> if a = b then OPENSSL_memcmp as' bs' (n - 1) else if a < b then - 1 else 1 | _ \<Rightarrow> 0)"
  by (cases as; cases bs; cases n) simp_all

fun c_strlen :: "byte list \<Rightarrow> nat option" where
  "c_strlen [] = None"
| "c_strlen (c # s) = (if c = 0 then Some 0 else map_option Suc (c_strlen s))"

fun OPENSSL_strnlen :: "byte list \<Rightarrow> nat \<Rightarrow> nat option" where
  "OPENSSL_strnlen s 0 = Some 0"
| "OPENSSL_strnlen [] (Suc n) = None"
| "OPENSSL_strnlen (c # s) (Suc n) = (if c = 0 then Some 0 else map_option Suc (OPENSSL_strnlen s n))"

definition OPENSSL_strdup :: "allocator \<Rightarrow> byte list \<Rightarrow> byte list option option" where
  "OPENSSL_strdup malloc s = (case c_strlen s of
       None \<Rightarrow> None
     | Some n \<Rightarrow>
         (let len = size_t (n + 1)
          in Some (case OPENSSL_malloc malloc len of
               None \<Rightarrow> None
             | Some p \<Rightarrow> Some (mem_write p 0 (take len s)))))"

definition OPENSSL_strndup :: "allocator \<Rightarrow> byte list \<Rightarrow> nat \<Rightarrow> byte list option option" where
  "OPENSSL_strndup malloc str sz = (case OPENSSL_strnlen str sz of
       None \<Rightarrow> None
     | Some n \<Rightarrow>
         (let alloc_size = size_t (n + 1)
          in if alloc_size < n then Some None
             else Some (case OPENSSL_malloc malloc alloc_size of
                 None \<Rightarrow> None
               | Some p \<Rightarrow> Some ((mem_write p 0 (take n str))[n := 0]))))"

definition OPENSSL_tolower :: "int \<Rightarrow> int" where
  "OPENSSL_tolower c = (if 65 \<le> c \<and> c \<le> 90 then c + (97 - 65) else c)"

text \<open>\<open>char\<close> is signed on the targets of the applications.\<close>

fun OPENSSL_strcasecmp :: "byte list \<Rightarrow> byte list \<Rightarrow> int option" where
  "OPENSSL_strcasecmp (a # as) (b # bs) =
     (let aa = OPENSSL_tolower (sint a); bb = OPENSSL_tolower (sint b)
      in if aa < bb then Some (-1)
         else if aa > bb then Some 1
         else if aa = 0 then Some 0
         else OPENSSL_strcasecmp as bs)"
| "OPENSSL_strcasecmp _ _ = None"

fun OPENSSL_strncasecmp :: "byte list \<Rightarrow> byte list \<Rightarrow> nat \<Rightarrow> int option" where
  "OPENSSL_strncasecmp _ _ 0 = Some 0"
| "OPENSSL_strncasecmp (a # as) (b # bs) (Suc n) =
     (let aa = OPENSSL_tolower (sint a); bb = OPENSSL_tolower (sint b)
      in if aa < bb then Some (-1)
         else if aa > bb then Some 1
         else if aa = 0 then Some 0
         else OPENSSL_strncasecmp as bs n)"
| "OPENSSL_strncasecmp _ _ (Suc n) = None"

text \<open>
  \<open>strlcpy_loop dst src dst_size i l\<close> is the loop of \<open>OPENSSL_strlcpy\<close>: \<open>i\<close> is the write
  position in the array \<open>dst\<close>. The result is the array, the return value, or \<open>None\<close>.
\<close>

fun strlcpy_loop :: "byte list \<Rightarrow> byte list \<Rightarrow> nat \<Rightarrow> nat \<Rightarrow> nat \<Rightarrow> (byte list \<times> nat) option" where
  "strlcpy_loop dst [] dst_size i l = None"
| "strlcpy_loop dst (c # src) dst_size i l =
     (if dst_size > 1 \<and> c \<noteq> 0 then strlcpy_loop (dst[i := c]) src (dst_size - 1) (i + 1) (l + 1)
      else
        let dst' = (if dst_size \<noteq> 0 then dst[i := 0] else dst)
        in map_option (\<lambda>n. (dst', l + n)) (c_strlen (c # src)))"

definition OPENSSL_strlcpy :: "byte list \<Rightarrow> byte list \<Rightarrow> nat \<Rightarrow> (byte list \<times> nat) option" where
  "OPENSSL_strlcpy dst src dst_size = strlcpy_loop dst src dst_size 0 0"

subsection \<open>Aliasing\<close>

text \<open>Positions in one memory; no object reaches around the end of the address space.\<close>

definition buffers_alias :: "nat \<Rightarrow> nat \<Rightarrow> nat \<Rightarrow> nat \<Rightarrow> bool" where
  "buffers_alias a a_len b b_len \<longleftrightarrow> a + a_len > b \<and> b + b_len > a"

subsection \<open>Byte swaps\<close>

definition CRYPTO_bswap2 :: "16 word \<Rightarrow> 16 word" where
  "CRYPTO_bswap2 x = (drop_bit 8 x) OR (push_bit 8 x)"

definition CRYPTO_bswap4 :: "32 word \<Rightarrow> 32 word" where
  "CRYPTO_bswap4 x =
     (let x = (drop_bit 16 x) OR (push_bit 16 x)
      in (drop_bit 8 (x AND 0xff00ff00)) OR (push_bit 8 (x AND 0x00ff00ff)))"

definition CRYPTO_bswap8 :: "64 word \<Rightarrow> 64 word" where
  "CRYPTO_bswap8 x = ucast (CRYPTO_bswap4 (ucast (drop_bit 32 x)))
     OR push_bit 32 (ucast (CRYPTO_bswap4 (ucast x)))"

subsection \<open>Allocation: what the callers rely on\<close>

lemma length_OPENSSL_malloc: "OPENSSL_malloc malloc n = Some p \<Longrightarrow> length p = n"
  by (auto simp: OPENSSL_malloc_def split: option.splits)

lemma OPENSSL_malloc_total: "(\<And>m. malloc m \<noteq> None) \<Longrightarrow> OPENSSL_malloc malloc n \<noteq> None"
  by (auto simp: OPENSSL_malloc_def split: option.splits)

lemma OPENSSL_malloc_answers:
  "(\<And>m. 8 \<le> m \<Longrightarrow> malloc m \<noteq> None) \<Longrightarrow> n < 2 ^ 64 - 8 \<Longrightarrow> OPENSSL_malloc malloc n \<noteq> None"
  by (auto simp: OPENSSL_malloc_def malloc_request_def OPENSSL_MALLOC_PREFIX_def size_t_def split: option.splits)

lemma OPENSSL_realloc_grow:
  assumes "OPENSSL_realloc malloc (Some old) n = Some p" and "length old \<le> n"
  shows "length p = n" and "take (length old) p = old"
proof -
  obtain q where q: "OPENSSL_malloc malloc n = Some q"
    and p: "p = mem_write q 0 old"
    using assms by (auto simp: OPENSSL_realloc_def Let_def split: option.splits if_splits)
  have "length q = n" using q by (rule length_OPENSSL_malloc)
  with assms(2) p show "length p = n" and "take (length old) p = old"
    by (simp_all add: mem_write_def)
qed

lemma OPENSSL_realloc_total:
  "(\<And>m. malloc m \<noteq> None) \<Longrightarrow> OPENSSL_realloc malloc (Some old) n \<noteq> None"
  using OPENSSL_malloc_total [of malloc n]
  by (auto simp: OPENSSL_realloc_def Let_def split: option.splits)

lemma OPENSSL_realloc_answers:
  "(\<And>m. 8 \<le> m \<Longrightarrow> malloc m \<noteq> None) \<Longrightarrow> n < 2 ^ 64 - 8 \<Longrightarrow> OPENSSL_realloc malloc (Some old) n \<noteq> None"
  using OPENSSL_malloc_answers [of malloc n]
  by (auto simp: OPENSSL_realloc_def Let_def split: option.splits)

lemma OPENSSL_memdup_Some:
  assumes "OPENSSL_memdup malloc data n = Some p" and "n \<le> length data"
  shows "p = take n data"
proof -
  obtain q where q: "OPENSSL_malloc malloc n = Some q" and p: "p = mem_write q 0 (take n data)"
    using assms by (auto simp: OPENSSL_memdup_def split: option.splits if_splits)
  have "length q = n" using q by (rule length_OPENSSL_malloc)
  with assms(2) p show ?thesis by (simp add: mem_write_def)
qed

subsection \<open>Comparison\<close>

lemma foldl_or_zero:
  "foldl (\<lambda>x i. x OR f i) z is = (0 :: byte) \<longleftrightarrow> z = 0 \<and> (\<forall>i \<in> set is. f i = 0)"
proof (induction "is" arbitrary: z)
  case Nil
  then show ?case by simp
next
  case (Cons i "is")
  have "z OR f i = 0 \<longleftrightarrow> z = 0 \<and> f i = 0"
    by (auto simp: bit_eq_iff bit_or_iff)
  with Cons show ?case by auto
qed

lemma CRYPTO_memcmp_zero_iff:
  assumes "n \<le> length a" and "n \<le> length b"
  shows "CRYPTO_memcmp a b n = 0 \<longleftrightarrow> take n a = take n b"
proof -
  have "CRYPTO_memcmp a b n = 0 \<longleftrightarrow> (\<forall>i < n. a ! i XOR b ! i = 0)"
    by (auto simp: CRYPTO_memcmp_def foldl_or_zero)
  also have "\<dots> \<longleftrightarrow> (\<forall>i < n. a ! i = b ! i)"
    by (simp add: xor_eq_zero_iff)
  also have "\<dots> \<longleftrightarrow> take n a = take n b"
    using assms by (auto simp: list_eq_iff_nth_eq)
  finally show ?thesis .
qed

end
