(* ===== verification/Cbs.thy ===== *)
theory Cbs
  imports Mem
begin

text \<open>
  Model of \<open>crypto/bytestring/cbs.c\<close>: the bounds-checked reader that the DER, X.509 and TLS
  code of BoringSSL is written over.

  A \<open>CBS\<close> (pointer and length) is the list of the bytes it still holds. A reader takes the
  CBS and returns the output, or \<open>None\<close> when the function returns 0, with the CBS it leaves
  behind: a function that fails half-way leaves a CBS that has moved. Output parameters are only
  defined when the function succeeds. The OID printer, which also writes to a CBB, is in theory
  \<open>Oid\<close>.
\<close>

subsection \<open>Moving through a byte string\<close>

type_synonym CBS = "byte list"

definition CBS_init :: "byte list \<Rightarrow> nat \<Rightarrow> CBS" where
  "CBS_init data len = take len data"

definition CBS_data :: "CBS \<Rightarrow> byte list" where
  "CBS_data cbs = cbs"

definition CBS_len :: "CBS \<Rightarrow> nat" where
  "CBS_len cbs = length cbs"

definition cbs_get :: "nat \<Rightarrow> (CBS, byte list) reader" where
  "cbs_get n cbs = (if CBS_len cbs < n then (None, cbs) else (Some (take n cbs), drop n cbs))"

definition CBS_skip :: "nat \<Rightarrow> CBS step" where
  "CBS_skip len cbs = (case cbs_get len cbs of (None, cbs') \<Rightarrow> (False, cbs') | (Some _, cbs') \<Rightarrow> (True, cbs'))"

text \<open>The result, \<open>*out_ptr\<close> and \<open>*out_len\<close>.\<close>

definition CBS_stow :: "allocator \<Rightarrow> CBS \<Rightarrow> bool \<times> byte list option \<times> nat" where
  "CBS_stow malloc cbs =
     (if CBS_len cbs = 0 then (True, None, 0)
      else case OPENSSL_memdup malloc (CBS_data cbs) (CBS_len cbs) of
             None \<Rightarrow> (False, None, 0)
           | Some p \<Rightarrow> (True, Some p, CBS_len cbs))"

definition CBS_strdup :: "allocator \<Rightarrow> CBS \<Rightarrow> byte list option option" where
  "CBS_strdup malloc cbs = OPENSSL_strndup malloc (CBS_data cbs) (CBS_len cbs)"

definition CBS_contains_zero_byte :: "CBS \<Rightarrow> bool" where
  "CBS_contains_zero_byte cbs = OPENSSL_memchr (CBS_data cbs) 0 (CBS_len cbs)"

definition CBS_mem_equal :: "CBS \<Rightarrow> byte list \<Rightarrow> nat \<Rightarrow> bool" where
  "CBS_mem_equal cbs data len =
     (if len \<noteq> CBS_len cbs then False else CRYPTO_memcmp (CBS_data cbs) data len = 0)"

subsection \<open>Integers\<close>

definition cbs_get_u :: "nat \<Rightarrow> (CBS, 64 word) reader" where
  "cbs_get_u len cbs = (case cbs_get len cbs of
       (None, cbs') \<Rightarrow> (None, cbs')
     | (Some data, cbs') \<Rightarrow> (Some (foldl (\<lambda>r b. push_bit 8 r OR ucast b) 0 data), cbs'))"

definition CBS_get_u8 :: "(CBS, byte) reader" where
  "CBS_get_u8 cbs = (case cbs_get 1 cbs of
       (None, cbs') \<Rightarrow> (None, cbs')
     | (Some v, cbs') \<Rightarrow> (Some (v ! 0), cbs'))"

definition CBS_get_u16 :: "(CBS, 16 word) reader" where
  "CBS_get_u16 cbs = (case cbs_get_u 2 cbs of
       (None, cbs') \<Rightarrow> (None, cbs') | (Some v, cbs') \<Rightarrow> (Some (ucast v), cbs'))"

definition CBS_get_u16le :: "(CBS, 16 word) reader" where
  "CBS_get_u16le cbs = (case CBS_get_u16 cbs of
       (None, cbs') \<Rightarrow> (None, cbs') | (Some v, cbs') \<Rightarrow> (Some (CRYPTO_bswap2 v), cbs'))"

definition CBS_get_u24 :: "(CBS, 32 word) reader" where
  "CBS_get_u24 cbs = (case cbs_get_u 3 cbs of
       (None, cbs') \<Rightarrow> (None, cbs') | (Some v, cbs') \<Rightarrow> (Some (ucast v), cbs'))"

definition CBS_get_u32 :: "(CBS, 32 word) reader" where
  "CBS_get_u32 cbs = (case cbs_get_u 4 cbs of
       (None, cbs') \<Rightarrow> (None, cbs') | (Some v, cbs') \<Rightarrow> (Some (ucast v), cbs'))"

definition CBS_get_u32le :: "(CBS, 32 word) reader" where
  "CBS_get_u32le cbs = (case CBS_get_u32 cbs of
       (None, cbs') \<Rightarrow> (None, cbs') | (Some v, cbs') \<Rightarrow> (Some (CRYPTO_bswap4 v), cbs'))"

definition CBS_get_u64 :: "(CBS, 64 word) reader" where
  "CBS_get_u64 cbs = cbs_get_u 8 cbs"

definition CBS_get_u64le :: "(CBS, 64 word) reader" where
  "CBS_get_u64le cbs = (case cbs_get_u 8 cbs of
       (None, cbs') \<Rightarrow> (None, cbs') | (Some v, cbs') \<Rightarrow> (Some (CRYPTO_bswap8 v), cbs'))"

definition CBS_get_last_u8 :: "(CBS, byte) reader" where
  "CBS_get_last_u8 cbs =
     (if CBS_len cbs = 0 then (None, cbs) else (Some (cbs ! (CBS_len cbs - 1)), take (CBS_len cbs - 1) cbs))"

definition CBS_get_bytes :: "nat \<Rightarrow> (CBS, CBS) reader" where
  "CBS_get_bytes len cbs = (case cbs_get len cbs of
       (None, cbs') \<Rightarrow> (None, cbs') | (Some v, cbs') \<Rightarrow> (Some (CBS_init v len), cbs'))"

definition CBS_copy_bytes :: "nat \<Rightarrow> (CBS, byte list) reader" where
  "CBS_copy_bytes len cbs = (case cbs_get len cbs of
       (None, cbs') \<Rightarrow> (None, cbs') | (Some v, cbs') \<Rightarrow> (Some (take len v), cbs'))"

definition cbs_get_length_prefixed :: "nat \<Rightarrow> (CBS, CBS) reader" where
  "cbs_get_length_prefixed len_len cbs = (case cbs_get_u len_len cbs of
       (None, cbs') \<Rightarrow> (None, cbs') | (Some len, cbs') \<Rightarrow> CBS_get_bytes (unat len) cbs')"

definition CBS_get_u8_length_prefixed :: "(CBS, CBS) reader" where
  "CBS_get_u8_length_prefixed cbs = cbs_get_length_prefixed 1 cbs"

definition CBS_get_u16_length_prefixed :: "(CBS, CBS) reader" where
  "CBS_get_u16_length_prefixed cbs = cbs_get_length_prefixed 2 cbs"

definition CBS_get_u24_length_prefixed :: "(CBS, CBS) reader" where
  "CBS_get_u24_length_prefixed cbs = cbs_get_length_prefixed 3 cbs"

subsection \<open>ASN.1 tags and lengths\<close>

text \<open>The \<open>CBS_ASN1_*\<close> constants of \<open>include/openssl/bytestring.h\<close>.\<close>

definition CBS_ASN1_TAG_SHIFT :: nat where
  "CBS_ASN1_TAG_SHIFT = 24"

definition CBS_ASN1_CONSTRUCTED :: "32 word" where
  "CBS_ASN1_CONSTRUCTED = push_bit CBS_ASN1_TAG_SHIFT 0x20"

definition CBS_ASN1_TAG_NUMBER_MASK :: "32 word" where
  "CBS_ASN1_TAG_NUMBER_MASK = push_bit (5 + CBS_ASN1_TAG_SHIFT) 1 - 1"

definition CBS_ASN1_BOOLEAN :: "32 word" where
  "CBS_ASN1_BOOLEAN = 1"

definition CBS_ASN1_INTEGER :: "32 word" where
  "CBS_ASN1_INTEGER = 2"

definition CBS_ASN1_OCTETSTRING :: "32 word" where
  "CBS_ASN1_OCTETSTRING = 4"

text \<open>
  The loop of \<open>parse_base128_integer\<close>: \<open>v\<close> is the value so far. Reading a byte fails
  exactly when the byte string is empty.
\<close>

fun parse_base128_loop :: "64 word \<Rightarrow> (CBS, 64 word) reader" where
  "parse_base128_loop v [] = (None, [])"
| "parse_base128_loop v (b # cbs) =
     (if drop_bit (64 - 7) v \<noteq> 0 then (None, cbs)
      else if v = 0 \<and> b = 0x80 then (None, cbs)
      else
        let v' = push_bit 7 v OR ucast (b AND 0x7f)
        in if b AND 0x80 \<noteq> 0 then parse_base128_loop v' cbs else (Some v', cbs))"

definition parse_base128_integer :: "(CBS, 64 word) reader" where
  "parse_base128_integer cbs = parse_base128_loop 0 cbs"

definition parse_asn1_tag :: "(CBS, 32 word) reader" where
  "parse_asn1_tag cbs = (case CBS_get_u8 cbs of
       (None, cbs1) \<Rightarrow> (None, cbs1)
     | (Some tag_byte, cbs1) \<Rightarrow>
         let tag = push_bit CBS_ASN1_TAG_SHIFT (ucast tag_byte AND 0xe0);
             tag_number = ucast tag_byte AND 0x1f
         in if tag_number = 0x1f
            then (case parse_base128_integer cbs1 of
                (None, cbs2) \<Rightarrow> (None, cbs2)
              | (Some v, cbs2) \<Rightarrow>
                  if v > ucast CBS_ASN1_TAG_NUMBER_MASK \<or> v < 0x1f then (None, cbs2)
                  else (Some (tag OR ucast v), cbs2))
            else (Some (tag OR tag_number), cbs1))"

text \<open>
  \<open>cbs_get_any_asn1_element ber_ok\<close> returns the element (header and contents), its tag and
  the length of its header. The header is parsed on a copy, so a failure leaves \<open>cbs\<close> alone.
\<close>

definition cbs_get_any_asn1_element :: "bool \<Rightarrow> (CBS, CBS \<times> 32 word \<times> nat) reader" where
  "cbs_get_any_asn1_element ber_ok cbs = (case parse_asn1_tag cbs of
       (None, _) \<Rightarrow> (None, cbs)
     | (Some tag, header1) \<Rightarrow>
         (case CBS_get_u8 header1 of
            (None, _) \<Rightarrow> (None, cbs)
          | (Some length_byte, header2) \<Rightarrow>
              let header_len = CBS_len cbs - CBS_len header2
              in if length_byte AND 0x80 = 0
                 then (case CBS_get_bytes (unat length_byte + header_len) cbs of
                     (None, cbs') \<Rightarrow> (None, cbs')
                   | (Some out, cbs') \<Rightarrow> (Some (out, tag, header_len), cbs'))
                 else
                   let num_bytes = unat (length_byte AND 0x7f)
                   in if ber_ok \<and> tag AND CBS_ASN1_CONSTRUCTED \<noteq> 0 \<and> num_bytes = 0
                      then (case CBS_get_bytes header_len cbs of
                          (None, cbs') \<Rightarrow> (None, cbs')
                        | (Some out, cbs') \<Rightarrow> (Some (out, tag, header_len), cbs'))
                      else if num_bytes = 0 \<or> num_bytes > 4 then (None, cbs)
                      else (case cbs_get_u num_bytes header2 of
                          (None, _) \<Rightarrow> (None, cbs)
                        | (Some len64, _) \<Rightarrow>
                            if len64 < 128 then (None, cbs)
                            else if drop_bit ((num_bytes - 1) * 8) len64 = 0 then (None, cbs)
                            else
                              let len = unat len64
                              in if size_t (len + header_len + num_bytes) < len then (None, cbs)
                                 else (case CBS_get_bytes (size_t (len + header_len + num_bytes)) cbs of
                                     (None, cbs') \<Rightarrow> (None, cbs')
                                   | (Some out, cbs') \<Rightarrow> (Some (out, tag, header_len + num_bytes), cbs')))))"

definition CBS_get_any_asn1_element :: "(CBS, CBS \<times> 32 word \<times> nat) reader" where
  "CBS_get_any_asn1_element cbs = cbs_get_any_asn1_element False cbs"

definition CBS_get_any_ber_asn1_element :: "(CBS, CBS \<times> 32 word \<times> nat) reader" where
  "CBS_get_any_ber_asn1_element cbs = cbs_get_any_asn1_element True cbs"

definition CBS_get_any_asn1 :: "(CBS, CBS \<times> 32 word) reader" where
  "CBS_get_any_asn1 cbs = (case CBS_get_any_asn1_element cbs of
       (None, cbs') \<Rightarrow> (None, cbs')
     | (Some (out, tag, header_len), cbs') \<Rightarrow>
         (case CBS_skip header_len out of
            (False, _) \<Rightarrow> (None, cbs')
          | (True, out') \<Rightarrow> (Some (out', tag), cbs')))"

definition cbs_get_asn1 :: "32 word \<Rightarrow> bool \<Rightarrow> (CBS, CBS) reader" where
  "cbs_get_asn1 tag_value skip_header cbs = (case CBS_get_any_asn1_element cbs of
       (None, cbs') \<Rightarrow> (None, cbs')
     | (Some (out, tag, header_len), cbs') \<Rightarrow>
         if tag \<noteq> tag_value then (None, cbs')
         else if skip_header
         then (case CBS_skip header_len out of
             (False, _) \<Rightarrow> (None, cbs')
           | (True, out') \<Rightarrow> (Some out', cbs'))
         else (Some out, cbs'))"

definition CBS_get_asn1 :: "32 word \<Rightarrow> (CBS, CBS) reader" where
  "CBS_get_asn1 tag_value cbs = cbs_get_asn1 tag_value True cbs"

definition CBS_get_asn1_element :: "32 word \<Rightarrow> (CBS, CBS) reader" where
  "CBS_get_asn1_element tag_value cbs = cbs_get_asn1 tag_value False cbs"

definition CBS_peek_asn1_tag :: "CBS \<Rightarrow> 32 word \<Rightarrow> bool" where
  "CBS_peek_asn1_tag cbs tag_value =
     (if CBS_len cbs < 1 then False
      else case parse_asn1_tag cbs of (None, _) \<Rightarrow> False | (Some actual_tag, _) \<Rightarrow> tag_value = actual_tag)"

subsection \<open>ASN.1 values\<close>

fun get_asn1_uint64_loop :: "64 word \<Rightarrow> byte list \<Rightarrow> 64 word option" where
  "get_asn1_uint64_loop out [] = Some out"
| "get_asn1_uint64_loop out (b # data) =
     (if drop_bit 56 out \<noteq> 0 then None
      else get_asn1_uint64_loop (push_bit 8 out OR ucast b) data)"

definition CBS_get_asn1_uint64 :: "(CBS, 64 word) reader" where
  "CBS_get_asn1_uint64 cbs = (case CBS_get_asn1 CBS_ASN1_INTEGER cbs of
       (None, cbs') \<Rightarrow> (None, cbs')
     | (Some data, cbs') \<Rightarrow>
         let len = CBS_len data
         in if len = 0 then (None, cbs')
            else if data ! 0 AND 0x80 \<noteq> 0 then (None, cbs')
            else if data ! 0 = 0 \<and> len > 1 \<and> data ! 1 AND 0x80 = 0 then (None, cbs')
            else (get_asn1_uint64_loop 0 data, cbs'))"

text \<open>
  The union of \<open>int64_t\<close> and 8 bytes, on a little-endian machine. The result is the two's
  complement representation of the value, \<open>sint\<close> reads it.
\<close>

definition int64_of_bytes :: "byte list \<Rightarrow> 64 word" where
  "int64_of_bytes bs = of_nat (be_value (rev bs))"

definition bytes_of_int64 :: "64 word \<Rightarrow> byte list" where
  "bytes_of_int64 v = rev (be_bytes 8 (unat v))"

definition CBS_get_asn1_int64 :: "(CBS, 64 word) reader" where
  "CBS_get_asn1_int64 cbs = (case CBS_get_asn1 CBS_ASN1_INTEGER cbs of
       (None, cbs') \<Rightarrow> (None, cbs')
     | (Some data, cbs') \<Rightarrow>
         let len = CBS_len data
         in if len = 0 \<or> len > 8 then (None, cbs')
            else if len > 1 \<and> data ! 0 = 0 \<and> data ! 1 AND 0x80 = 0 then (None, cbs')
            else if len > 1 \<and> data ! 0 = 0xff \<and> data ! 1 AND 0x80 \<noteq> 0 then (None, cbs')
            else
              let is_negative = (data ! 0 AND 0x80 \<noteq> 0);
                  u = replicate 8 (if is_negative then 0xff else 0);
                  u' = foldl (\<lambda>u i. u[i := data ! (len - i - 1)]) u [0..<len]
              in (Some (int64_of_bytes u'), cbs'))"

definition CBS_get_asn1_bool :: "(CBS, bool) reader" where
  "CBS_get_asn1_bool cbs = (case CBS_get_asn1 CBS_ASN1_BOOLEAN cbs of
       (None, cbs') \<Rightarrow> (None, cbs')
     | (Some bytes, cbs') \<Rightarrow>
         if CBS_len bytes \<noteq> 1 then (None, cbs')
         else if bytes ! 0 \<noteq> 0 \<and> bytes ! 0 \<noteq> 0xff then (None, cbs')
         else (Some (bytes ! 0 \<noteq> 0), cbs'))"

text \<open>The contents of the optional element: \<open>None\<close> inside the result is \<open>*out_present = 0\<close>.\<close>

definition CBS_get_optional_asn1 :: "32 word \<Rightarrow> (CBS, CBS option) reader" where
  "CBS_get_optional_asn1 tag cbs =
     (if CBS_peek_asn1_tag cbs tag
      then (case CBS_get_asn1 tag cbs of
          (None, cbs') \<Rightarrow> (None, cbs')
        | (Some out, cbs') \<Rightarrow> (Some (Some out), cbs'))
      else (Some None, cbs))"

definition CBS_get_optional_asn1_octet_string :: "32 word \<Rightarrow> (CBS, CBS \<times> bool) reader" where
  "CBS_get_optional_asn1_octet_string tag cbs = (case CBS_get_optional_asn1 tag cbs of
       (None, cbs') \<Rightarrow> (None, cbs')
     | (Some (Some child), cbs') \<Rightarrow>
         (case CBS_get_asn1 CBS_ASN1_OCTETSTRING child of
            (None, _) \<Rightarrow> (None, cbs')
          | (Some out, child') \<Rightarrow>
              if CBS_len child' \<noteq> 0 then (None, cbs') else (Some (out, True), cbs'))
     | (Some None, cbs') \<Rightarrow> (Some ([], False), cbs'))"

definition CBS_get_optional_asn1_uint64 :: "32 word \<Rightarrow> 64 word \<Rightarrow> (CBS, 64 word) reader" where
  "CBS_get_optional_asn1_uint64 tag default_value cbs = (case CBS_get_optional_asn1 tag cbs of
       (None, cbs') \<Rightarrow> (None, cbs')
     | (Some (Some child), cbs') \<Rightarrow>
         (case CBS_get_asn1_uint64 child of
            (None, _) \<Rightarrow> (None, cbs')
          | (Some out, child') \<Rightarrow> if CBS_len child' \<noteq> 0 then (None, cbs') else (Some out, cbs'))
     | (Some None, cbs') \<Rightarrow> (Some default_value, cbs'))"

text \<open>\<open>*out\<close> is an \<open>int\<close>, and the default is passed through unchanged.\<close>

definition CBS_get_optional_asn1_bool :: "32 word \<Rightarrow> int \<Rightarrow> (CBS, int) reader" where
  "CBS_get_optional_asn1_bool tag default_value cbs = (case CBS_get_optional_asn1 tag cbs of
       (None, cbs') \<Rightarrow> (None, cbs')
     | (Some (Some child), cbs') \<Rightarrow>
         (case CBS_get_asn1 CBS_ASN1_BOOLEAN child of
            (None, _) \<Rightarrow> (None, cbs')
          | (Some child2, child') \<Rightarrow>
              if CBS_len child2 \<noteq> 1 \<or> CBS_len child' \<noteq> 0 then (None, cbs')
              else if child2 ! 0 = 0 then (Some 0, cbs')
              else if child2 ! 0 = 0xff then (Some 1, cbs')
              else (None, cbs'))
     | (Some None, cbs') \<Rightarrow> (Some default_value, cbs'))"

definition CBS_is_valid_asn1_bitstring :: "CBS \<Rightarrow> bool" where
  "CBS_is_valid_asn1_bitstring cbs = (case CBS_get_u8 cbs of
       (None, _) \<Rightarrow> False
     | (Some num_unused_bits, rest) \<Rightarrow>
         if num_unused_bits > 7 then False
         else if num_unused_bits = 0 then True
         else (case CBS_get_last_u8 rest of
             (None, _) \<Rightarrow> False
           | (Some last_byte, _) \<Rightarrow>
               (ucast last_byte :: 32 word) AND (push_bit (unat num_unused_bits) 1 - 1) = 0))"

definition CBS_asn1_bitstring_has_bit :: "CBS \<Rightarrow> 32 word \<Rightarrow> bool" where
  "CBS_asn1_bitstring_has_bit cbs bit_index =
     (if \<not> CBS_is_valid_asn1_bitstring cbs then False
      else
        let byte_num = drop_bit 3 bit_index + 1;
            bit_num = 7 - (bit_index AND 7)
        in unat byte_num < CBS_len cbs
           \<and> (ucast (cbs ! unat byte_num) :: 32 word) AND push_bit (unat bit_num) 1 \<noteq> 0)"

subsection \<open>The integer and length-prefix readers\<close>

lemma cbs_get_u_eq:
  assumes "n \<le> 8"
  shows "cbs_get_u n s = (if length s < n then (None, s) else (Some (of_nat (be_value (take n s))), drop n s))"
proof -
  have fold: "length data \<le> 8 \<Longrightarrow>
      unat (foldl (\<lambda>r b. push_bit 8 r OR ucast b) (0 :: 64 word) data) = be_value data" for data
  proof (induction data rule: rev_induct)
    case Nil
    then show ?case by simp
  next
    case (snoc b data)
    have "be_value data < 256 ^ length data" by (rule be_value_bound)
    also have "\<dots> \<le> 256 ^ 7" using snoc.prems by (intro power_increasing) auto
    finally have "be_value data < 2 ^ (64 - 8)" by simp
    with snoc show ?case by (simp add: unat_shift_or_byte)
  qed
  have "foldl (\<lambda>r b. push_bit 8 r OR ucast b) (0 :: 64 word) data = of_nat (be_value data)"
    if "length data \<le> 8" for data
    using fold [OF that] by (rule unat_eqD)
  with assms show ?thesis by (simp add: cbs_get_u_def cbs_get_def CBS_len_def)
qed


text \<open>The fixed-width readers as one case distinction each.\<close>

lemma CBS_get_u8_eq: "CBS_get_u8 s = (case s of [] \<Rightarrow> (None, []) | b # r \<Rightarrow> (Some b, r))"
  by (cases s) (auto simp: CBS_get_u8_def cbs_get_def CBS_len_def)

lemma CBS_get_bytes_eq:
  "CBS_get_bytes n s = (if length s < n then (None, s) else (Some (take n s), drop n s))"
  by (auto simp: CBS_get_bytes_def cbs_get_def CBS_len_def CBS_init_def)

lemma CBS_skip_eq:
  "CBS_skip n s = (if length s < n then (False, s) else (True, drop n s))"
  by (auto simp: CBS_skip_def cbs_get_def CBS_len_def)

lemma CBS_get_u16_eq:
  "CBS_get_u16 s = (if length s < 2 then (None, s) else (Some (of_nat (be_value (take 2 s))), drop 2 s))"
  using be_value_take_bound [of 2 s]
  by (auto simp: CBS_get_u16_def cbs_get_u_eq word_unat_eq_iff unat_of_nat_lt unsigned_ucast_eq take_bit_nat_eq_self)

lemma CBS_get_u24_eq:
  "CBS_get_u24 s = (if length s < 3 then (None, s) else (Some (of_nat (be_value (take 3 s))), drop 3 s))"
  using be_value_take_bound [of 3 s]
  by (auto simp: CBS_get_u24_def cbs_get_u_eq word_unat_eq_iff unat_of_nat_lt unsigned_ucast_eq take_bit_nat_eq_self)

lemma CBS_get_u32_eq:
  "CBS_get_u32 s = (if length s < 4 then (None, s) else (Some (of_nat (be_value (take 4 s))), drop 4 s))"
  using be_value_take_bound [of 4 s]
  by (auto simp: CBS_get_u32_def cbs_get_u_eq word_unat_eq_iff unat_of_nat_lt unsigned_ucast_eq take_bit_nat_eq_self)

lemma CBS_get_u64_eq:
  "CBS_get_u64 s = (if length s < 8 then (None, s) else (Some (of_nat (be_value (take 8 s))), drop 8 s))"
  by (simp add: CBS_get_u64_def cbs_get_u_eq)

lemma cbs_get_length_prefixed_eq:
  assumes "k \<le> 3"
  shows "cbs_get_length_prefixed k s =
    (if length s < k then (None, s) else CBS_get_bytes (be_value (take k s)) (drop k s))"
proof -
  have "be_value (take k s) < 256 ^ k" by (rule be_value_take_bound)
  also have "\<dots> \<le> 256 ^ 3" using assms by (intro power_increasing) auto
  finally show ?thesis
    using assms by (simp add: cbs_get_length_prefixed_def cbs_get_u_eq unat_of_nat_lt)
qed

text \<open>A fixed-width big-endian integer and a length-prefixed string are codecs.\<close>

lemma fixed_width_codec:
  fixes f :: "(CBS, 'a :: len word) reader"
  assumes "\<And>s. f s = (if length s < n then (None, s) else (Some (of_nat (be_value (take n s))), drop n s))"
    and "(256 :: nat) ^ n \<le> 2 ^ LENGTH('a)"
  shows "byte_codec (\<lambda>v :: 'a word. be_bytes n (unat v)) (parsed f) (\<lambda>v. unat v < 256 ^ n)"
proof
  fix v :: "'a word" and r
  assume "unat v < 256 ^ n"
  then show "parsed f (be_bytes n (unat v) @ r) = Some (v, r)"
    by (simp add: parsed_Some_iff assms(1))
next
  fix s r and v :: "'a word"
  assume "parsed f s = Some (v, r)"
  then have "n \<le> length s" and v: "v = of_nat (be_value (take n s))" and r: "r = drop n s"
    by (auto simp: parsed_Some_iff assms(1) split: if_splits)
  have "be_value (take n s) < 256 ^ n" by (rule be_value_take_bound)
  with assms(2) have "unat v = be_value (take n s)"
    by (simp add: v unat_of_nat_lt)
  moreover have "be_bytes n (be_value (take n s)) = take n s"
    using \<open>n \<le> length s\<close> by (intro be_bytes_of_value) auto
  ultimately show "unat v < 256 ^ n \<and> s = be_bytes n (unat v) @ r"
    using r be_value_take_bound by simp
qed

lemma length_prefixed_codec:
  assumes "0 < k" and "k \<le> 3"
  shows "nonempty_codec (\<lambda>c. be_bytes k (length c) @ c) (parsed (cbs_get_length_prefixed k))
           (\<lambda>c. length c < 256 ^ k)"
proof
  fix c r :: "byte list"
  assume "length c < 256 ^ k"
  then show "parsed (cbs_get_length_prefixed k) ((be_bytes k (length c) @ c) @ r) = Some (c, r)"
    using assms by (simp add: parsed_Some_iff cbs_get_length_prefixed_eq CBS_get_bytes_eq)
next
  fix s r and c :: "byte list"
  assume "parsed (cbs_get_length_prefixed k) s = Some (c, r)"
  then have k: "k \<le> length s" and "be_value (take k s) \<le> length (drop k s)"
    and c: "c = take (be_value (take k s)) (drop k s)" and r: "r = drop (be_value (take k s)) (drop k s)"
    using assms by (auto simp: parsed_Some_iff cbs_get_length_prefixed_eq CBS_get_bytes_eq split: if_splits)
  then have len: "length c = be_value (take k s)" by simp
  with k have "be_bytes k (length c) = take k s"
    by (intro be_bytes_of_value) auto
  moreover have "take k s @ c @ r = s"
    unfolding c r by (simp only: append_take_drop_id)
  ultimately show "length c < 256 ^ k \<and> s = (be_bytes k (length c) @ c) @ r"
    using len be_value_take_bound by simp
next
  fix c :: "byte list"
  have "length (be_bytes k (length c)) = k" by simp
  with assms(1) show "be_bytes k (length c) @ c \<noteq> []" by (metis append_is_Nil_conv length_0_conv less_irrefl)
qed

interpretation u8: nonempty_codec "\<lambda>v. [v]" "parsed CBS_get_u8" "\<lambda>_. True"
  by unfold_locales (auto simp: parsed_Some_iff CBS_get_u8_eq split: list.splits)

interpretation u16: byte_codec "\<lambda>v :: 16 word. be_bytes 2 (unat v)" "parsed CBS_get_u16" "\<lambda>v. unat v < 256 ^ 2"
  by (rule fixed_width_codec [OF CBS_get_u16_eq]) simp

interpretation u24: byte_codec "\<lambda>v :: 32 word. be_bytes 3 (unat v)" "parsed CBS_get_u24" "\<lambda>v. unat v < 256 ^ 3"
  by (rule fixed_width_codec [OF CBS_get_u24_eq]) simp

interpretation u32: byte_codec "\<lambda>v :: 32 word. be_bytes 4 (unat v)" "parsed CBS_get_u32" "\<lambda>v. unat v < 256 ^ 4"
  by (rule fixed_width_codec [OF CBS_get_u32_eq]) simp

interpretation u64: byte_codec "\<lambda>v :: 64 word. be_bytes 8 (unat v)" "parsed CBS_get_u64" "\<lambda>v. unat v < 256 ^ 8"
  by (rule fixed_width_codec [OF CBS_get_u64_eq]) simp

interpretation u8_prefixed: nonempty_codec "\<lambda>c. be_bytes 1 (length c) @ c"
  "parsed CBS_get_u8_length_prefixed" "\<lambda>c. length c < 256 ^ 1"
  using length_prefixed_codec [of 1] by (simp add: CBS_get_u8_length_prefixed_def [abs_def])

interpretation u16_prefixed: nonempty_codec "\<lambda>c. be_bytes 2 (length c) @ c"
  "parsed CBS_get_u16_length_prefixed" "\<lambda>c. length c < 256 ^ 2"
  using length_prefixed_codec [of 2] by (simp add: CBS_get_u16_length_prefixed_def [abs_def])

interpretation u24_prefixed: nonempty_codec "\<lambda>c. be_bytes 3 (length c) @ c"
  "parsed CBS_get_u24_length_prefixed" "\<lambda>c. length c < 256 ^ 3"
  using length_prefixed_codec [of 3] by (simp add: CBS_get_u24_length_prefixed_def [abs_def])

end
