(* ===== verification/Der.thy ===== *)
theory Der
  imports Cbs
begin

text \<open>
  DER as \<open>cbs.c\<close> reads it. The first part of each section is the specification: which byte
  string stands for a base-128 integer (\<open>base128\<close>), a tag (\<open>der_tag\<close>), a length
  (\<open>der_len\<close>) and a whole element (\<open>der_element\<close>). The lemmas show that the readers of
  theory \<open>Cbs\<close> accept exactly these byte strings, each as an instance of
  \<open>byte_codec\<close>. The writers are shown to produce them in theory \<open>Cbb\<close>.
\<close>

subsection \<open>Base-128 integers\<close>

text \<open>
  Seven bits of the number per byte, most significant first; every byte but the last has its top
  bit set (\<open>more_byte\<close>). \<open>base128_high\<close> is the part before the last byte.
\<close>

definition more_byte :: "nat \<Rightarrow> byte" where
  "more_byte d = byte_of (d + 128)"

lemma unat_more_byte: "d < 128 \<Longrightarrow> unat (more_byte d) = d + 128"
  by (simp add: more_byte_def unat_byte_of)

lemma mod_128_high:
  assumes "128 \<le> x" and "x < 256"
  shows "x mod 128 + 128 = (x :: nat)"
proof -
  have "x mod 128 = (x - 128) mod 128" using assms(1) by (rule le_mod_geq)
  also have "\<dots> = x - 128" using assms by (intro mod_less) linarith
  finally show ?thesis using assms(1) by simp
qed

lemma more_byte_id: "128 \<le> unat b \<Longrightarrow> more_byte (unat b mod 128) = b"
  unfolding more_byte_def by (rule byte_of_eq) (simp add: mod_128_high)

function base128_high :: "nat \<Rightarrow> byte list" where
  "base128_high v = (if v = 0 then [] else base128_high (v div 128) @ [more_byte (v mod 128)])"
  by pat_completeness auto
termination by (relation "measure id") auto

declare base128_high.simps [simp del]

definition base128 :: "nat \<Rightarrow> byte list" where
  "base128 v = base128_high (v div 128) @ [of_nat (v mod 128)]"

lemma base128_high_0 [simp]: "base128_high 0 = []"
  by (simp add: base128_high.simps)

lemma base128_high_step:
  "v * 128 + d \<noteq> 0 \<Longrightarrow> d < 128 \<Longrightarrow> base128_high (v * 128 + d) = base128_high v @ [more_byte d]"
  by (subst base128_high.simps) simp

lemma base128_step: "d < 128 \<Longrightarrow> base128 (v * 128 + d) = base128_high v @ [of_nat d]"
  by (simp add: base128_def)

text \<open>One round of the loop appends seven bits to a value below \<open>2 ^ 57\<close>.\<close>

lemma base128_round:
  fixes v :: "64 word"
  assumes "drop_bit (64 - 7) v = 0"
  shows "unat v < 2 ^ 57" and "unat (push_bit 7 v OR ucast (b AND 0x7f :: byte)) = unat v * 128 + unat b mod 128"
proof -
  have "unat (drop_bit 57 v) = 0"
    using assms by simp
  then have "unat v div 2 ^ 57 = 0"
    by (simp only: unat_drop_bit)
  then show v: "unat v < 2 ^ 57"
    by (simp add: div_eq_0_iff)
  show "unat (push_bit 7 v OR ucast (b AND 0x7f :: byte)) = unat v * 128 + unat b mod 128"
    using v by (subst unat_shift_or_byte) (simp_all add: unat_byte_low7)
qed

lemma parse_base128_sound:
  "parse_base128_loop v s = (Some w, r) \<Longrightarrow>
   \<exists>mid. s = mid @ r \<and> base128_high (unat v) @ mid = base128 (unat w)"
proof (induction v s rule: parse_base128_loop.induct)
  case (1 v)
  then show ?case by simp
next
  case (2 v b cbs)
  let ?v = "push_bit 7 v OR ucast (b AND 0x7f)"
  from "2.prems" have small: "drop_bit (64 - 7) v = 0" and min: "\<not> (v = 0 \<and> b = 0x80)"
    by (auto split: if_splits)
  have v': "unat ?v = unat v * 128 + unat b mod 128"
    using small by (rule base128_round)
  show ?case
  proof (cases "b AND 0x80 = 0")
    case True
    then have "unat b < 128" by (simp add: byte_high_bit)
    moreover from this True "2.prems" small min have "w = ?v" "r = cbs" by (auto simp: Let_def split: if_splits)
    ultimately show ?thesis using v' by (intro exI [of _ "[b]"]) (simp add: base128_step)
  next
    case False
    with "2.prems" small min have "parse_base128_loop ?v cbs = (Some w, r)"
      by (auto simp: Let_def split: if_splits)
    with "2.IH" small min False obtain mid where
      mid: "cbs = mid @ r" "base128_high (unat ?v) @ mid = base128 (unat w)" by auto
    have b: "128 \<le> unat b" using False by (simp add: byte_high_bit)
    then have b': "more_byte (unat b mod 128) = b"
      by (rule more_byte_id)
    have "unat v * 128 + unat b mod 128 \<noteq> 0"
    proof
      assume "unat v * 128 + unat b mod 128 = 0"
      then have "unat v = 0" "unat b mod 128 = 0" by simp_all
      then have "v = 0" "b = 0x80" using b' by (simp_all add: unat_eq_0 more_byte_def byte_of_def)
      with min show False by simp
    qed
    then have "base128_high (unat ?v) = base128_high (unat v) @ [b]"
      by (simp add: v' base128_high_step b')
    with mid show ?thesis by (intro exI [of _ "b # mid"]) simp
  qed
qed


lemma parse_base128_high:
  "n < 2 ^ 64 \<Longrightarrow> parse_base128_loop 0 (base128_high n @ t) = parse_base128_loop (of_nat n) t"
proof (induction n arbitrary: t rule: less_induct)
  case (less n)
  show ?case
  proof (cases "n = 0")
    case True
    then show ?thesis by simp
  next
    case False
    let ?b = "more_byte (n mod 128)" and ?v = "of_nat (n div 128) :: 64 word"
    have hi: "base128_high n = base128_high (n div 128) @ [?b]"
      using False by (subst base128_high.simps) simp
    have v: "unat ?v = n div 128"
      using less.prems by (simp add: unat_of_nat_lt)
    have b: "unat ?b = n mod 128 + 128"
      by (simp add: unat_more_byte)
    have small: "drop_bit (64 - 7) ?v = 0"
      using less.prems v by (simp add: unat_drop_bit word_unat_eq_iff div_eq_0_iff)
    have min: "\<not> (?v = 0 \<and> ?b = 0x80)"
    proof
      assume z: "?v = 0 \<and> ?b = 0x80"
      then have "n div 128 = 0" "n mod 128 + 128 = 128"
        using v b by simp_all
      with False show False by simp
    qed
    have "unat (push_bit 7 ?v OR ucast (?b AND 0x7f)) = n"
      using base128_round(2) [OF small, of ?b] by (simp add: v b)
    then have step: "push_bit 7 ?v OR ucast (?b AND 0x7f) = of_nat n"
      by (rule unat_eqD)
    have hb: "?b AND 0x80 \<noteq> 0"
      by (simp only: byte_high_bit b)
    have "parse_base128_loop 0 (base128_high n @ t) = parse_base128_loop ?v (?b # t)"
      using less.IH [of "n div 128" "?b # t"] False less.prems by (simp add: hi)
    also have "\<dots> = parse_base128_loop (of_nat n) t"
      using small min hb step by (simp only: parse_base128_loop.simps Let_def if_False if_True simp_thms)
    finally show ?thesis .
  qed
qed

lemma parse_base128_complete:
  assumes "n < 2 ^ 64"
  shows "parse_base128_loop 0 (base128 n @ r) = (Some (of_nat n), r)"
proof -
  let ?b = "of_nat (n mod 128) :: byte" and ?v = "of_nat (n div 128) :: 64 word"
  have v: "unat ?v = n div 128" using assms by (simp add: unat_of_nat_lt)
  have b: "unat ?b = n mod 128" by simp
  have small: "drop_bit (64 - 7) ?v = 0"
    using assms v by (simp add: unat_drop_bit word_unat_eq_iff div_eq_0_iff)
  have "unat (push_bit 7 ?v OR ucast (?b AND 0x7f)) = n"
    using base128_round(2) [OF small, of ?b] by (simp add: v b)
  then have step: "push_bit 7 ?v OR ucast (?b AND 0x7f) = of_nat n"
    by (rule unat_eqD)
  have lb: "?b AND 0x80 = 0"
    by (simp only: byte_high_bit b)
  then have min: "\<not> (?v = 0 \<and> ?b = 0x80)" by auto
  have "parse_base128_loop 0 (base128 n @ r) = parse_base128_loop ?v (?b # r)"
    using parse_base128_high [of "n div 128" "?b # r"] assms by (simp add: base128_def)
  also have "\<dots> = (Some (of_nat n), r)"
    using small min lb step by (simp only: parse_base128_loop.simps Let_def if_False if_True simp_thms)
  finally show ?thesis .
qed

interpretation base128: nonempty_codec "\<lambda>v :: 64 word. base128 (unat v)" "parsed parse_base128_integer" "\<lambda>_. True"
proof
  fix v :: "64 word" and r
  have "unat v < 2 ^ 64" using unsigned_less [of v, where ?'a = nat] by simp
  then show "parsed parse_base128_integer (base128 (unat v) @ r) = Some (v, r)"
    by (simp add: parsed_Some_iff parse_base128_integer_def parse_base128_complete)
next
  fix s r and v :: "64 word"
  assume "parsed parse_base128_integer s = Some (v, r)"
  then show "True \<and> s = base128 (unat v) @ r"
    using parse_base128_sound [of 0 s v r] by (auto simp: parsed_Some_iff parse_base128_integer_def)
next
  show "base128 (unat v) \<noteq> []" for v :: "64 word" by (simp add: base128_def)
qed

subsection \<open>Tags\<close>

text \<open>
  The three top bits of the in-memory tag are the class and the constructed bit, the other 29
  are the tag number.
\<close>

definition der_tag :: "32 word \<Rightarrow> byte list" where
  "der_tag t =
     (let top = unat t div 2 ^ 29; num = unat t mod 2 ^ 29
      in if num < 31 then [byte_of (top * 32 + num)]
         else byte_of (top * 32 + 31) # base128 num)"

lemma unat_byte_mask_e0: "unat ((b :: byte) AND 0xe0) = unat b div 32 * 32"
proof -
  have "(0xe0 :: byte) = NOT (mask 5)" by (simp add: mask_eq_exp_minus_1)
  then have "b AND 0xe0 = b AND NOT (mask 5)" by (simp only:)
  then show ?thesis by (simp only: unat_and_not_mask) simp
qed

lemma unat_byte_low5: "unat ((b :: byte) AND 0x1f) = unat b mod 32"
  using unat_and_mask [of b 5] by (simp add: mask_eq_exp_minus_1)

lemma ucast_byte_and: "ucast ((b :: byte) AND 0xe0) = (ucast b AND 0xe0 :: 32 word)"
  "ucast (b AND 0x1f) = (ucast b AND 0x1f :: 32 word)"
  by (simp_all add: unsigned_and_eq)

definition tag_top :: "byte \<Rightarrow> 32 word" where
  "tag_top b = push_bit CBS_ASN1_TAG_SHIFT (ucast b AND 0xe0)"

lemma byte_top_lt: "unat (b :: byte) div 32 < 8"
  using unat_byte_lt [of b] by linarith

lemma unat_tag_top: "unat (tag_top b) = unat b div 32 * 2 ^ 29"
proof -
  have u: "unat (ucast b AND 0xe0 :: 32 word) = unat b div 32 * 32"
    by (simp flip: ucast_byte_and add: unat_byte_mask_e0)
  have "unat (push_bit 24 x) = unat x * 2 ^ 24" if "unat x < 256" for x :: "32 word"
    using that by (intro unat_push_bit) simp
  from this [of "ucast b AND 0xe0"] show ?thesis
    using byte_top_lt [of b] unfolding tag_top_def CBS_ASN1_TAG_SHIFT_def u by simp
qed

lemma unat_tag_or: "unat v < 2 ^ 29 \<Longrightarrow> unat (tag_top b OR v) = unat b div 32 * 2 ^ 29 + unat v"
  using unat_or_disjoint [of 29 "tag_top b" v] by (simp add: unat_tag_top)

lemma CBS_ASN1_TAG_NUMBER_MASK_eq: "CBS_ASN1_TAG_NUMBER_MASK = 0x1fffffff"
  by (simp add: CBS_ASN1_TAG_NUMBER_MASK_def CBS_ASN1_TAG_SHIFT_def)

lemma parse_asn1_tag_Nil: "parse_asn1_tag [] = (None, [])"
  by (simp add: parse_asn1_tag_def CBS_get_u8_eq)

text \<open>A tag built by the reader from its first byte and a tag number.\<close>

lemma der_tag_of_parts:
  assumes "unat v < 2 ^ 29"
  shows "der_tag (tag_top b OR v) =
    (if unat v < 31 then [byte_of (unat b div 32 * 32 + unat v)]
     else byte_of (unat b div 32 * 32 + 31) # base128 (unat v))"
proof -
  have "unat (tag_top b OR v) div 2 ^ 29 = unat b div 32" "unat (tag_top b OR v) mod 2 ^ 29 = unat v"
    using assms by (simp_all add: unat_tag_or)
  then show ?thesis by (simp add: der_tag_def Let_def)
qed

lemma parse_asn1_tag_Cons:
  "parse_asn1_tag (b # s) =
    (if unat b mod 32 = 31
     then (case parse_base128_integer s of
         (None, s') \<Rightarrow> (None, s')
       | (Some v, s') \<Rightarrow> if unat v < 31 \<or> 2 ^ 29 \<le> unat v then (None, s') else (Some (tag_top b OR ucast v), s'))
     else (Some (tag_top b OR of_nat (unat b mod 32)), s))"
proof -
  have n: "unat (ucast b AND 0x1f :: 32 word) = unat b mod 32"
    by (simp flip: ucast_byte_and add: unat_byte_low5)
  then have n': "ucast b AND 0x1f = (of_nat (unat b mod 32) :: 32 word)"
    by (rule unat_eqD)
  have "ucast b AND 0x1f = (0x1f :: 32 word) \<longleftrightarrow> unat b mod 32 = 31"
    using n by (simp add: word_unat_eq_iff)
  moreover have "(v > ucast CBS_ASN1_TAG_NUMBER_MASK \<or> v < 0x1f) \<longleftrightarrow> unat v < 31 \<or> 2 ^ 29 \<le> unat v" for v :: "64 word"
    by (auto simp: CBS_ASN1_TAG_NUMBER_MASK_eq word_less_nat_alt)
  ultimately show ?thesis
    by (simp add: parse_asn1_tag_def CBS_get_u8_eq Let_def n' tag_top_def split: prod.splits option.splits)
qed

lemma parse_asn1_tag_sound:
  assumes "parse_asn1_tag s = (Some t, r)"
  shows "s = der_tag t @ r"
proof (cases s)
  case Nil
  with assms show ?thesis by (simp add: parse_asn1_tag_Nil)
next
  case (Cons b s1)
  have split: "unat b div 32 * 32 + unat b mod 32 = unat b" by simp
  show ?thesis
  proof (cases "unat b mod 32 = 31")
    case True
    with assms Cons obtain v where v: "parse_base128_integer s1 = (Some v, r)"
      and t: "t = tag_top b OR ucast v" and b: "\<not> unat v < 31" "unat v < 2 ^ 29"
      by (auto simp: parse_asn1_tag_Cons split: prod.splits option.splits if_splits)
    have u: "unat (ucast v :: 32 word) = unat v"
      using b(2) by (simp add: unsigned_ucast_eq take_bit_nat_eq_self)
    have "s1 = base128 (unat v) @ r"
      using v base128.enc_dec [of s1 v r] by (simp add: parsed_Some_iff)
    moreover have "der_tag t = b # base128 (unat v)"
      unfolding t using b u split True by (subst der_tag_of_parts) simp_all
    ultimately show ?thesis using Cons by simp
  next
    case False
    have m: "unat b mod 32 < 31" using False by (simp add: order_le_neq_trans less_Suc_eq_le [symmetric])
    have u: "unat (of_nat (unat b mod 32) :: 32 word) = unat b mod 32"
      using m by (intro unat_of_nat_lt) simp
    from False assms Cons have "t = tag_top b OR of_nat (unat b mod 32)" and "r = s1"
      by (auto simp: parse_asn1_tag_Cons)
    then show ?thesis
      using Cons m u split by (simp add: der_tag_of_parts)
  qed
qed

lemma parse_asn1_tag_complete: "parse_asn1_tag (der_tag t @ r) = (Some t, r)"
proof -
  let ?top = "unat t div 2 ^ 29" and ?num = "unat t mod 2 ^ 29"
  have top: "?top < 8" using unsigned_less [of t, where ?'a = nat] by simp
  have whole: "?top * 2 ^ 29 + ?num = unat t" by simp
  have rebuild: "tag_top b OR v = t" if "unat b div 32 = ?top" "unat v = ?num" for b v
  proof -
    have "unat (tag_top b OR v) = unat t"
      using that whole by (subst unat_tag_or) simp_all
    then show ?thesis by (simp add: word_unat_eq_iff)
  qed
  show ?thesis
  proof (cases "?num < 31")
    case True
    let ?b = "byte_of (?top * 32 + ?num)"
    have b: "unat ?b = ?top * 32 + ?num" using top True by (intro unat_byte_of) simp
    have "unat ?b div 32 = ?top" "unat ?b mod 32 = ?num" using b True by simp_all
    moreover from this True have "tag_top ?b OR of_nat ?num = t"
      by (intro rebuild) (simp_all add: unat_of_nat_lt)
    ultimately show ?thesis
      using True by (simp add: der_tag_def Let_def parse_asn1_tag_Cons)
  next
    case False
    let ?b = "byte_of (?top * 32 + 31)" and ?v = "of_nat ?num :: 64 word"
    have b: "unat ?b = ?top * 32 + 31" using top by (intro unat_byte_of) simp
    then have parts: "unat ?b div 32 = ?top" "unat ?b mod 32 = 31" by simp_all
    have lt: "?num < 2 ^ 29" by simp
    have v: "unat ?v = ?num" using lt by (intro unat_of_nat_lt) simp
    have "parse_base128_integer (base128 ?num @ r) = (Some ?v, r)"
      using base128.dec_enc [of ?v r] by (simp only: v parsed_Some_iff simp_thms)
    moreover have "tag_top ?b OR ucast ?v = t"
      using parts(1) v lt by (intro rebuild) (simp_all add: unsigned_ucast_eq take_bit_nat_eq_self)
    ultimately show ?thesis
      using False parts v lt by (simp add: der_tag_def Let_def parse_asn1_tag_Cons)
  qed
qed

interpretation der_tag: nonempty_codec der_tag "parsed parse_asn1_tag" "\<lambda>_. True"
proof
  show "parsed parse_asn1_tag (der_tag t @ r) = Some (t, r)" for t r
    by (simp add: parsed_Some_iff parse_asn1_tag_complete)
  show "True \<and> s = der_tag t @ r" if "parsed parse_asn1_tag s = Some (t, r)" for s t r
    using that by (simp add: parsed_Some_iff parse_asn1_tag_sound)
  show "der_tag t \<noteq> []" for t
    by (simp add: der_tag_def Let_def)
qed

subsection \<open>Lengths\<close>

text \<open>
  One byte below 128; above, the number of length bytes with the top bit set and then the
  shortest big-endian form. The reader accepts at most four length bytes.
\<close>

definition der_len_len :: "nat \<Rightarrow> nat" where
  "der_len_len n = (if n < 0x80 then 0 else if n < 0x100 then 1 else if n < 0x10000 then 2
     else if n < 0x1000000 then 3 else 4)"

definition der_len :: "nat \<Rightarrow> byte list" where
  "der_len n = (if n < 0x80 then [byte_of n]
     else byte_of (0x80 + der_len_len n) # be_bytes (der_len_len n) n)"

definition der_header :: "32 word \<Rightarrow> nat \<Rightarrow> byte list" where
  "der_header tag n = der_tag tag @ der_len n"

definition der_element :: "32 word \<Rightarrow> byte list \<Rightarrow> byte list" where
  "der_element tag c = der_header tag (length c) @ c"

lemma length_der_len: "length (der_len n) = 1 + der_len_len n"
  by (auto simp: der_len_def der_len_len_def)

lemma der_len_len_bound: "0x80 \<le> n \<Longrightarrow> n < 2 ^ 32 \<Longrightarrow> n < 256 ^ der_len_len n"
  by (auto simp: der_len_len_def)

text \<open>The long form is minimal: one byte less would not do.\<close>

lemma der_len_len_minimal:
  assumes "0x80 \<le> n" and "n < 256 ^ k" and "256 ^ (k - 1) \<le> n" and "0 < k" and "k \<le> 4"
  shows "der_len_len n = k"
proof -
  have "k = 1 \<or> k = 2 \<or> k = 3 \<or> k = 4" using assms(4,5) by linarith
  then show ?thesis using assms(1-3) by (auto simp: der_len_len_def)
qed

text \<open>
  What the reader makes of a tag followed by anything: \<open>len_field s\<close> is the length and the
  number of bytes of the length field at the front of \<open>s\<close>.
\<close>

definition len_field :: "byte list \<Rightarrow> (nat \<times> nat) option" where
  "len_field s = (case s of [] \<Rightarrow> None
     | b # s' \<Rightarrow>
         if unat b < 128 then Some (unat b, 1)
         else
           let k = unat b - 128; n = be_value (take k s')
           in if k = 0 \<or> k > 4 \<or> length s' < k \<or> n < 128 \<or> n < 256 ^ (k - 1) then None else Some (n, 1 + k))"

lemma len_field_der_len:
  assumes "n < 2 ^ 32"
  shows "len_field (der_len n @ r) = Some (n, length (der_len n))"
proof (cases "n < 0x80")
  case True
  then have "unat (byte_of n) = n" by (intro unat_byte_of) simp
  with True show ?thesis by (simp add: len_field_def der_len_def)
next
  case False
  let ?k = "der_len_len n"
  have k: "0 < ?k" "?k \<le> 4" using False by (auto simp: der_len_len_def)
  have m: "256 ^ (?k - 1) \<le> n" using False by (auto simp: der_len_len_def)
  have u: "unat (byte_of (128 + ?k)) = 128 + ?k" using k by (intro unat_byte_of) simp
  have v: "be_value (be_bytes ?k n) = n"
    using der_len_len_bound [of n] assms False by simp
  show ?thesis
    using False k m u v by (simp add: len_field_def der_len_def Let_def)
qed

lemma len_field_sound:
  assumes "len_field s = Some (n, k)"
  shows "n < 2 ^ 32 \<and> k = length (der_len n) \<and> take k s = der_len n \<and> k \<le> length s"
proof -
  obtain b s' where s: "s = b # s'" using assms by (cases s) (auto simp: len_field_def)
  show ?thesis
  proof (cases "unat b < 128")
    case True
    with assms s show ?thesis by (auto simp: len_field_def der_len_def)
  next
    case False
    let ?j = "unat b - 128"
    have j: "0 < ?j" "?j \<le> 4" "?j \<le> length s'" and n: "n = be_value (take ?j s')" "128 \<le> n" "256 ^ (?j - 1) \<le> n"
      and k: "k = 1 + ?j"
      using assms s False by (auto simp: len_field_def Let_def not_less split: if_splits)
    have lt: "n < 256 ^ ?j" unfolding n(1) by (rule be_value_take_bound)
    have ll: "der_len_len n = ?j" using n(2) lt n(3) j(1,2) by (intro der_len_len_minimal) simp_all
    have "256 ^ ?j \<le> (256 :: nat) ^ 4" using j(2) by (intro power_increasing) auto
    with lt have "n < 2 ^ 32" by simp
    moreover have "be_bytes ?j n = take ?j s'" using j(3) n(1) by (intro be_bytes_of_value) auto
    moreover have "byte_of (128 + ?j) = b" using False by (intro byte_of_eq) simp
    ultimately show ?thesis
      using n(2) k ll s j(3) by (simp add: der_len_def length_der_len)
  qed
qed

subsection \<open>Elements\<close>

lemma length_base128_high: "length (base128_high n) \<le> n"
proof (induction n rule: less_induct)
  case (less n)
  show ?case
  proof (cases "n = 0")
    case False
    then have "length (base128_high (n div 128)) \<le> n div 128" by (intro less.IH) simp
    moreover have "n div 128 + 1 \<le> n" using False by linarith
    ultimately show ?thesis using False by (subst base128_high.simps) simp
  qed simp
qed

lemma length_der_tag: "length (der_tag t) < 2 ^ 30"
proof -
  have "length (base128_high (unat t mod 2 ^ 29 div 128)) \<le> unat t mod 2 ^ 29 div 128"
    by (rule length_base128_high)
  moreover have "unat t mod 2 ^ 29 div 128 < 2 ^ 29" by (rule le_less_trans [OF div_le_dividend]) simp
  ultimately show ?thesis by (simp add: der_tag_def Let_def base128_def)
qed

text \<open>
  \<open>cbs_get_any_asn1_element\<close> as one case distinction over the tag and the length field; with
  \<open>ber_ok\<close> a constructed element may also have the indefinite length byte \<open>0x80\<close>.
\<close>

definition indefinite :: "32 word \<Rightarrow> byte list \<Rightarrow> bool" where
  "indefinite tag h \<longleftrightarrow> tag AND CBS_ASN1_CONSTRUCTED \<noteq> 0 \<and> h \<noteq> [] \<and> hd h = 0x80"

lemma any_asn1_element_eq:
  "cbs_get_any_asn1_element ber_ok s = (case parse_asn1_tag s of
       (None, _) \<Rightarrow> (None, s)
     | (Some tag, h) \<Rightarrow>
         if ber_ok \<and> indefinite tag h
         then (Some (take (length s - length h + 1) s, tag, length s - length h + 1), tl h)
         else (case len_field h of
             None \<Rightarrow> (None, s)
           | Some (n, k) \<Rightarrow>
               (let hl = length s - length h + k
                in if length s < hl + n then (None, s)
                   else (Some (take (hl + n) s, tag, hl), drop (hl + n) s))))"
proof (cases "parse_asn1_tag s")
  case (Pair o_tag h)
  show ?thesis
  proof (cases o_tag)
    case None
    with Pair show ?thesis by (simp add: cbs_get_any_asn1_element_def)
  next
    case (Some tag)
    with Pair have s: "s = der_tag tag @ h" by (simp add: parse_asn1_tag_sound)
    show ?thesis
    proof (cases h)
      case Nil
      with Pair Some show ?thesis
        by (simp add: cbs_get_any_asn1_element_def CBS_get_u8_eq len_field_def indefinite_def)
    next
      case (Cons b h2)
      obtain hl where hl: "length (der_tag tag) + 1 = hl" by blast
      have hls: "length s - length h2 = hl" "length s - length h + 1 = hl" "length s - length h = length (der_tag tag)"
        using s Cons hl by simp_all
      have small: "hl \<le> 2 ^ 30" using length_der_tag [of tag] hl by simp
      have b80: "b = 0x80 \<longleftrightarrow> unat b = 128" by (simp add: word_unat_eq_iff)
      show ?thesis
      proof (cases "unat b < 128")
        case True
        then show ?thesis
          using Pair Some Cons hl hls
          by (auto simp: cbs_get_any_asn1_element_def CBS_get_u8_eq byte_high_bit CBS_get_bytes_eq
              len_field_def indefinite_def b80 CBS_len_def Let_def add.commute)
      next
        case False
        then obtain k where uk: "unat b = 128 + k" using le_Suc_ex by (auto simp: not_less)
        have k128: "k < 128" using unat_byte_lt [of b] uk by simp
        have u7: "unat (b AND 0x7f) = k" using k128 by (simp add: unat_byte_low7 uk)
        have hb: "b AND 0x80 \<noteq> 0" by (simp add: byte_high_bit uk)
        have k80: "b = 0x80 \<longleftrightarrow> k = 0" by (simp add: b80 uk)
        have unfolded: "cbs_get_any_asn1_element ber_ok s =
          (if ber_ok \<and> tag AND CBS_ASN1_CONSTRUCTED \<noteq> 0 \<and> k = 0
           then (case CBS_get_bytes hl s of (None, cbs') \<Rightarrow> (None, cbs') | (Some out, cbs') \<Rightarrow> (Some (out, tag, hl), cbs'))
           else if k = 0 \<or> k > 4 then (None, s)
           else (case cbs_get_u k h2 of
                (None, _) \<Rightarrow> (None, s)
              | (Some len64, _) \<Rightarrow>
                  if len64 < 128 then (None, s)
                  else if drop_bit ((k - 1) * 8) len64 = 0 then (None, s)
                  else if size_t (unat len64 + hl + k) < unat len64 then (None, s)
                  else (case CBS_get_bytes (size_t (unat len64 + hl + k)) s of
                      (None, cbs') \<Rightarrow> (None, cbs')
                    | (Some out, cbs') \<Rightarrow> (Some (out, tag, hl + k), cbs'))))"
          using Pair Some Cons hb
          by (simp add: cbs_get_any_asn1_element_def CBS_get_u8_eq CBS_len_def hls(1) u7 Let_def
              split: prod.split option.split)
        show ?thesis
        proof (cases "k = 0 \<or> k > 4")
          case True
          have rest: "drop hl s = h2" "\<not> length s < hl" by (simp_all add: s Cons flip: hl)
          have "len_field h = None" using True by (auto simp: len_field_def Cons Let_def uk)
          moreover have "indefinite tag h \<longleftrightarrow> tag AND CBS_ASN1_CONSTRUCTED \<noteq> 0 \<and> k = 0"
            by (simp add: indefinite_def Cons k80)
          ultimately show ?thesis
            using Pair Some Cons hls(2) rest True by (simp add: unfolded CBS_get_bytes_eq)
        next
          case in_range: False
          then have k: "0 < k" "k \<le> 4" by auto
          let ?n = "be_value (take k h2)"
          have "?n < 256 ^ k" by (rule be_value_take_bound)
          also have "\<dots> \<le> 256 ^ 4" using k by (intro power_increasing) auto
          finally have n: "?n < 2 ^ 32" by simp
          then have un: "unat (of_nat ?n :: 64 word) = ?n" by (intro unat_of_nat_lt) simp
          have shift: "drop_bit ((k - 1) * 8) (of_nat ?n :: 64 word) = 0 \<longleftrightarrow> ?n < 256 ^ (k - 1)"
          proof -
            have "drop_bit ((k - 1) * 8) (of_nat ?n :: 64 word) = 0 \<longleftrightarrow> ?n div 2 ^ ((k - 1) * 8) = 0"
              by (simp only: word_unat_eq_iff unat_drop_bit un unsigned_0)
            also have "(2 :: nat) ^ ((k - 1) * 8) = 256 ^ (k - 1)"
              using power_mult [of "2 :: nat" 8 "k - 1"] by (simp add: mult.commute)
            finally show ?thesis by (simp add: div_eq_0_iff)
          qed
          have no_overflow: "size_t (?n + hl + k) = ?n + hl + k"
            using n small k by (intro size_t_id) simp
          have lt128: "(of_nat ?n :: 64 word) < 128 \<longleftrightarrow> ?n < 128"
            by (simp add: word_less_nat_alt un)
          have "cbs_get_any_asn1_element ber_ok s =
            (if length h2 < k \<or> ?n < 128 \<or> ?n < 256 ^ (k - 1) \<or> length s < ?n + hl + k then (None, s)
             else (Some (take (?n + hl + k) s, tag, hl + k), drop (?n + hl + k) s))"
            using k by (simp add: unfolded cbs_get_u_eq lt128 shift [simplified] un no_overflow CBS_get_bytes_eq)
          moreover have "len_field h = (if length h2 < k \<or> ?n < 128 \<or> ?n < 256 ^ (k - 1) then None else Some (?n, 1 + k))"
            using k by (simp add: len_field_def Cons Let_def uk)
          moreover have "\<not> indefinite tag h" using k by (simp add: indefinite_def Cons k80)
          moreover have "length s - length h + (1 + k) = hl + k" using hls(2) by simp
          moreover have e: "Suc (k + (?n + (length s - length h))) = hl + (k + ?n)"
            using hls(2) by simp
          ultimately show ?thesis
            using Pair Some by (simp add: Let_def add_ac e hls(2) [simplified])
        qed
      qed
    qed
  qed
qed

text \<open>
  The DER reader: it succeeds exactly on the canonical header of some contents of less than
  \<open>2 ^ 32\<close> bytes that are all there, and otherwise leaves its argument alone.
\<close>

lemma get_any_asn1_element_complete:
  assumes "length c < 2 ^ 32"
  shows "CBS_get_any_asn1_element (der_element tag c @ r)
    = (Some (der_element tag c, tag, length (der_header tag (length c))), r)"
  using len_field_der_len [OF assms, of "c @ r"]
  by (simp add: CBS_get_any_asn1_element_def any_asn1_element_eq der_element_def der_header_def
      parse_asn1_tag_complete Let_def)

lemma get_any_asn1_element_sound:
  assumes "CBS_get_any_asn1_element s = (Some (el, tag, hl), r)"
  obtains c where "length c < 2 ^ 32" and "el = der_element tag c" and "s = el @ r"
    and "hl = length (der_header tag (length c))"
proof -
  from assms obtain h n k where h: "parse_asn1_tag s = (Some tag, h)" and nk: "len_field h = Some (n, k)"
    and hl: "hl = length s - length h + k" and enough: "hl + n \<le> length s"
    and el: "el = take (hl + n) s" and r: "r = drop (hl + n) s"
    by (auto simp: CBS_get_any_asn1_element_def any_asn1_element_eq Let_def not_less
        split: prod.splits option.splits if_splits)
  have s: "s = der_tag tag @ h" using h by (rule parse_asn1_tag_sound)
  have n: "n < 2 ^ 32" "k = length (der_len n)" "take k h = der_len n" "k \<le> length h"
    using len_field_sound [OF nk] by blast+
  obtain c where c: "c = take n (drop k h)" by blast
  have hl': "hl = length (der_header tag n)" using hl s n(2) by (simp add: der_header_def)
  have "hl + n \<le> length (der_tag tag) + length h" using enough s by simp
  then have len: "length c = n" using hl s n(4) by (simp add: c)
  have "take hl s = der_header tag n"
    using hl s n(3,4) by (simp add: der_header_def)
  moreover have "drop hl s = drop k h" using hl s by simp
  ultimately have "el = der_element tag c"
    by (simp add: el take_add der_element_def len c [symmetric])
  moreover have "s = el @ r" by (simp add: el r)
  ultimately show thesis
    using that [of c] n(1) len hl' by simp
qed

lemma get_any_asn1_element_fail:
  "CBS_get_any_asn1_element s = (None, s') \<Longrightarrow> s' = s"
  by (auto simp: CBS_get_any_asn1_element_def any_asn1_element_eq Let_def
      split: prod.splits option.splits if_splits)

lemma CBS_get_any_asn1_iff:
  "CBS_get_any_asn1 s = (Some (c, tag), r) \<longleftrightarrow> length c < 2 ^ 32 \<and> s = der_element tag c @ r"
proof
  assume "CBS_get_any_asn1 s = (Some (c, tag), r)"
  then obtain el hl where e: "CBS_get_any_asn1_element s = (Some (el, tag, hl), r)"
    and sk: "CBS_skip hl el = (True, c)"
    by (auto simp: CBS_get_any_asn1_def split: prod.splits option.splits bool.splits)
  obtain c' where "length c' < 2 ^ 32" "el = der_element tag c'" "s = el @ r"
    "hl = length (der_header tag (length c'))"
    using e by (rule get_any_asn1_element_sound)
  with sk show "length c < 2 ^ 32 \<and> s = der_element tag c @ r"
    by (auto simp: CBS_skip_eq der_element_def split: if_splits)
next
  assume "length c < 2 ^ 32 \<and> s = der_element tag c @ r"
  then show "CBS_get_any_asn1 s = (Some (c, tag), r)"
    by (simp add: CBS_get_any_asn1_def get_any_asn1_element_complete) (simp add: CBS_skip_eq der_element_def)
qed

lemma CBS_get_asn1_iff:
  "CBS_get_asn1 tag s = (Some c, r) \<longleftrightarrow> length c < 2 ^ 32 \<and> s = der_element tag c @ r"
proof -
  have "CBS_get_asn1 tag s = (Some c, r) \<longleftrightarrow> CBS_get_any_asn1 s = (Some (c, tag), r)"
    by (auto simp: CBS_get_asn1_def cbs_get_asn1_def CBS_get_any_asn1_def
        split: prod.splits option.splits bool.splits)
  then show ?thesis by (simp add: CBS_get_any_asn1_iff)
qed

lemma CBS_get_asn1_element_iff:
  "CBS_get_asn1_element tag s = (Some el, r) \<longleftrightarrow> (\<exists>c. length c < 2 ^ 32 \<and> el = der_element tag c \<and> s = el @ r)"
proof
  assume "CBS_get_asn1_element tag s = (Some el, r)"
  then obtain hl where "CBS_get_any_asn1_element s = (Some (el, tag, hl), r)"
    by (auto simp: CBS_get_asn1_element_def cbs_get_asn1_def split: prod.splits option.splits if_splits)
  then show "\<exists>c. length c < 2 ^ 32 \<and> el = der_element tag c \<and> s = el @ r"
    by (rule get_any_asn1_element_sound) blast
next
  assume "\<exists>c. length c < 2 ^ 32 \<and> el = der_element tag c \<and> s = el @ r"
  then show "CBS_get_asn1_element tag s = (Some el, r)"
    by (auto simp: CBS_get_asn1_element_def cbs_get_asn1_def get_any_asn1_element_complete)
qed

lemma CBS_peek_asn1_tag_iff: "CBS_peek_asn1_tag s tag \<longleftrightarrow> (\<exists>r. s = der_tag tag @ r)"
  by (auto simp: CBS_peek_asn1_tag_def CBS_len_def parse_asn1_tag_complete Suc_le_eq der_tag.enc_nonempty
      dest: parse_asn1_tag_sound split: prod.splits option.splits)

interpretation der_element: nonempty_codec "\<lambda>(c, tag). der_element tag c" "parsed CBS_get_any_asn1"
  "\<lambda>(c, tag). length c < 2 ^ 32"
proof
  show "parsed CBS_get_any_asn1 ((case x of (c, tag) \<Rightarrow> der_element tag c) @ r) = Some (x, r)"
    if "case x of (c, tag) \<Rightarrow> length c < 2 ^ 32" for x r
    using that by (cases x) (simp add: parsed_Some_iff CBS_get_any_asn1_iff)
  show "(case x of (c, tag) \<Rightarrow> length c < 2 ^ 32) \<and> s = (case x of (c, tag) \<Rightarrow> der_element tag c) @ r"
    if "parsed CBS_get_any_asn1 s = Some (x, r)" for s x r
    using that by (cases x) (simp add: parsed_Some_iff CBS_get_any_asn1_iff)
  show "(case x of (c, tag) \<Rightarrow> der_element tag c) \<noteq> []" for x :: "byte list \<times> 32 word"
    by (cases x) (simp add: der_element_def der_header_def der_tag.enc_nonempty)
qed

text \<open>The \<open>assert(0)\<close> of \<open>CBS_get_any_asn1\<close> and \<open>cbs_get_asn1\<close> is never reached.\<close>

lemma CBS_skip_header_ok:
  assumes "CBS_get_any_asn1_element s = (Some (el, tag, hl), r)"
  shows "fst (CBS_skip hl el)"
proof -
  obtain c where "el = der_element tag c" "hl = length (der_header tag (length c))"
    using assms by (rule get_any_asn1_element_sound)
  then show ?thesis by (simp add: CBS_skip_eq der_element_def)
qed

end
