(* ===== verification/Der_Int.thy ===== *)
theory Der_Int
  imports Der
begin

text \<open>
  INTEGER and BOOLEAN values. The specification of the contents of an INTEGER: the two's
  complement value of a byte string (\<open>tc_value\<close>), and the shortest byte string with a given
  value (\<open>der_int\<close>, for values of at most 72 bits, which covers \<open>uint64_t\<close> and
  \<open>int64_t\<close>). The lemmas show that \<open>CBS_get_asn1_uint64\<close>, \<open>CBS_get_asn1_int64\<close> and
  \<open>CBS_get_asn1_bool\<close> accept exactly those encodings.
\<close>

subsection \<open>Two's complement byte strings\<close>

definition negative :: "byte list \<Rightarrow> bool" where
  "negative bs \<longleftrightarrow> bs \<noteq> [] \<and> 128 \<le> unat (hd bs)"

definition tc_value :: "byte list \<Rightarrow> int" where
  "tc_value bs = int (be_value bs) - (if negative bs then 256 ^ length bs else 0)"

text \<open>The byte that may be put in front of a byte string without changing its value.\<close>

definition sign_byte :: "byte list \<Rightarrow> byte" where
  "sign_byte bs = (if negative bs then 0xff else 0)"

fun shortest :: "byte list \<Rightarrow> byte list" where
  "shortest (a # b # bs) = (if a = sign_byte (b # bs) then shortest (b # bs) else a # b # bs)"
| "shortest bs = bs"

definition is_shortest :: "byte list \<Rightarrow> bool" where
  "is_shortest bs \<longleftrightarrow> bs \<noteq> [] \<and> (length bs > 1 \<longrightarrow> hd bs \<noteq> sign_byte (tl bs))"

definition der_int :: "int \<Rightarrow> byte list" where
  "der_int i = shortest (be_bytes 9 (nat (i mod 256 ^ 9)))"

lemma negative_sign_Cons [simp]: "negative (sign_byte bs # bs) = negative bs"
  by (simp add: negative_def sign_byte_def)

lemma sign_byte_Cons [simp]: "sign_byte (sign_byte bs # bs) = sign_byte bs"
  by (simp add: sign_byte_def [of "sign_byte bs # bs"]) (simp add: sign_byte_def)

lemma tc_value_extend: "tc_value (sign_byte bs # bs) = tc_value bs"
  by (simp add: tc_value_def be_value_Cons) (simp add: sign_byte_def)

lemma shortest_extend: "bs \<noteq> [] \<Longrightarrow> shortest (sign_byte bs # bs) = shortest bs"
  by (cases bs) simp_all

lemma shortest_id: "is_shortest bs \<Longrightarrow> shortest bs = bs"
  by (cases bs rule: shortest.cases) (simp_all add: is_shortest_def)

lemma is_shortest_shortest: "bs \<noteq> [] \<Longrightarrow> is_shortest (shortest bs)"
  by (induction bs rule: shortest.induct) (simp_all add: is_shortest_def)

lemma tc_value_shortest: "tc_value (shortest bs) = tc_value bs"
proof (induction bs rule: shortest.induct)
  case (1 a b bs)
  then show ?case using tc_value_extend [of "b # bs"] by auto
qed simp_all

lemma length_shortest: "length (shortest bs) \<le> length bs"
  by (induction bs rule: shortest.induct) auto

definition sign_extend :: "nat \<Rightarrow> byte list \<Rightarrow> byte list" where
  "sign_extend k bs = replicate k (sign_byte bs) @ bs"

lemma sign_extend_Suc:
  assumes "bs \<noteq> []"
  shows "sign_extend (Suc k) bs = sign_byte (sign_extend k bs) # sign_extend k bs"
    and "sign_byte (sign_extend k bs) = sign_byte bs"
proof -
  show s: "sign_byte (sign_extend k bs) = sign_byte bs"
  proof (cases k)
    case 0
    then show ?thesis by (simp add: sign_extend_def)
  next
    case (Suc j)
    then show ?thesis
      by (simp add: sign_extend_def sign_byte_def [of "_ # _"] negative_def [of "_ # _"])
         (simp add: sign_byte_def)
  qed
  show "sign_extend (Suc k) bs = sign_byte (sign_extend k bs) # sign_extend k bs"
    unfolding s by (simp add: sign_extend_def)
qed

lemma tc_value_sign_extend: "bs \<noteq> [] \<Longrightarrow> tc_value (sign_extend k bs) = tc_value bs"
proof (induction k)
  case 0
  then show ?case by (simp add: sign_extend_def)
next
  case (Suc k)
  then show ?case using tc_value_extend [of "sign_extend k bs"] by (simp add: sign_extend_Suc(1))
qed

lemma shortest_sign_extend: "bs \<noteq> [] \<Longrightarrow> shortest (sign_extend k bs) = shortest bs"
proof (induction k)
  case 0
  then show ?case by (simp add: sign_extend_def)
next
  case (Suc k)
  then show ?case using shortest_extend [of "sign_extend k bs"]
    by (simp add: sign_extend_Suc(1)) (simp add: sign_extend_def)
qed

text \<open>A byte string is determined by its length and its value.\<close>

lemma be_value_tc: "int (be_value bs) = tc_value bs mod 256 ^ length bs"
proof -
  have b: "int (be_value bs) < 256 ^ length bs"
    using be_value_bound [of bs] by (metis of_nat_less_iff of_nat_numeral of_nat_power)
  have "tc_value bs mod 256 ^ length bs = int (be_value bs) mod 256 ^ length bs"
    by (cases "negative bs") (simp_all add: tc_value_def)
  then show ?thesis using b by simp
qed

lemma der_int_unique:
  assumes "is_shortest bs" and "length bs \<le> 9"
  shows "der_int (tc_value bs) = bs"
proof -
  have ne: "bs \<noteq> []" using assms(1) by (simp add: is_shortest_def)
  let ?e = "sign_extend (9 - length bs) bs"
  have l: "length ?e = 9" using assms(2) by (simp add: sign_extend_def)
  have "int (be_value ?e) = tc_value bs mod 256 ^ 9"
    using be_value_tc [of ?e] l ne by (simp add: tc_value_sign_extend)
  then have "nat (tc_value bs mod 256 ^ 9) = be_value ?e" by simp
  then have "be_bytes 9 (nat (tc_value bs mod 256 ^ 9)) = ?e"
    using l by (intro be_bytes_of_value) simp_all
  then show ?thesis using ne assms(1) by (simp add: der_int_def shortest_sign_extend shortest_id)
qed

lemma der_int_shortest: "is_shortest (der_int i)" "length (der_int i) \<le> 9"
proof -
  have l: "length (be_bytes 9 (nat (i mod 256 ^ 9))) = 9" by simp
  then have "be_bytes 9 (nat (i mod 256 ^ 9)) \<noteq> []" by (metis length_0_conv zero_neq_numeral)
  then show "is_shortest (der_int i)" unfolding der_int_def by (rule is_shortest_shortest)
  show "length (der_int i) \<le> 9" unfolding der_int_def using length_shortest l by metis
qed

lemma tc_value_range:
  assumes "length bs = Suc n"
  shows "- (128 * 256 ^ n) \<le> tc_value bs \<and> tc_value bs < 128 * 256 ^ n"
proof -
  obtain b cs where bs: "bs = b # cs" and l: "length cs = n" using assms by (cases bs) auto
  have c: "int (be_value cs) < 256 ^ n"
    using be_value_bound [of cs] l by (metis of_nat_less_iff of_nat_numeral of_nat_power)
  have v: "tc_value bs = int (unat b) * 256 ^ n - (if 128 \<le> unat b then 256 * 256 ^ n else 0) + int (be_value cs)"
    using l by (simp add: tc_value_def bs be_value_Cons negative_def)
  obtain m where m: "unat b = m" and m256: "m < 256" using unat_byte_lt [of b] by blast
  obtain x where xd: "x = int m - (if 128 \<le> m then 256 else 0)" by blast
  have x: "- 128 \<le> x" "x + 1 \<le> 128" using m256 by (auto simp: xd)
  obtain p where p: "p = (256 :: int) ^ n" by blast
  have v': "tc_value bs = x * p + int (be_value cs)" unfolding v m xd p by (simp add: left_diff_distrib)
  have "0 \<le> p" by (simp add: p)
  then have "(- 128) * p \<le> x * p" "(x + 1) * p \<le> 128 * p" using x by (auto intro: mult_right_mono simp del: mult_minus_left)
  moreover have "(x + 1) * p = x * p + p" by (simp add: distrib_right)
  ultimately show ?thesis using c unfolding v' p [symmetric] by linarith
qed

lemma tc_value_bytes:
  assumes "- (128 * 256 ^ n) \<le> i" and "i < 128 * 256 ^ n"
  shows "tc_value (be_bytes (Suc n) (nat (i mod 256 ^ Suc n))) = i"
proof -
  obtain m where m: "m = (256 :: int) ^ Suc n" by blast
  have m0: "0 < m" by (simp add: m)
  let ?e = "be_bytes (Suc n) (nat (i mod m))"
  have "int (be_value ?e) = int (nat (i mod m)) mod m" unfolding m be_value_be_bytes by (simp only: of_nat_mod of_nat_power of_nat_numeral)
  also have "\<dots> = i mod m" using m0 by simp
  finally have "tc_value ?e mod m = i mod m" using be_value_tc [of ?e] by (simp only: length_be_bytes m)
  then have "m dvd tc_value ?e - i" by (simp only: mod_eq_dvd_iff)
  then obtain k where k: "tc_value ?e - i = m * k" by (rule dvdE)
  have "- (128 * 256 ^ n) \<le> tc_value ?e" "tc_value ?e < 128 * 256 ^ n"
    using tc_value_range [of ?e n] by simp_all
  with assms have "\<bar>tc_value ?e - i\<bar> < m" by (simp add: abs_if m)
  then have "m * \<bar>k\<bar> < m * 1" unfolding k using m0 by (simp add: abs_mult)
  then have "k = 0" using m0 by (simp only: mult_less_cancel_left_pos)
  with k show ?thesis by (simp add: m)
qed

lemma tc_value_der_int:
  assumes "- (128 * 256 ^ 8) \<le> i" and "i < 128 * 256 ^ 8"
  shows "tc_value (der_int i) = i"
  using tc_value_bytes [of 8 i] assms by (simp add: der_int_def tc_value_shortest)

lemma der_int_eq:
  assumes "- (128 * 256 ^ n) \<le> i" and "i < 128 * 256 ^ n" and "n \<le> 8"
  shows "der_int i = shortest (be_bytes (Suc n) (nat (i mod 256 ^ Suc n)))"
proof -
  let ?bs = "be_bytes (Suc n) (nat (i mod 256 ^ Suc n))"
  have l: "length ?bs = Suc n" by simp
  then have "is_shortest (shortest ?bs)" by (intro is_shortest_shortest) (metis list.size(3) nat.distinct(1))
  moreover have "length (shortest ?bs) \<le> 9" using length_shortest [of ?bs] l assms(3) by simp
  ultimately have "der_int (tc_value (shortest ?bs)) = shortest ?bs" by (rule der_int_unique)
  then show ?thesis using tc_value_bytes [OF assms(1,2)] by (simp only: tc_value_shortest)
qed

lemma der_int_fits:
  assumes "- (128 * 256 ^ n) \<le> i" and "i < 128 * 256 ^ n" and "n \<le> 8"
  shows "length (der_int i) \<le> Suc n"
  using length_shortest [of "be_bytes (Suc n) (nat (i mod 256 ^ Suc n))"] der_int_eq [OF assms] by simp

subsection \<open>The INTEGER readers\<close>

lemma byte_consts: "(b :: byte) = 0 \<longleftrightarrow> unat b = 0" "b = 0xff \<longleftrightarrow> unat b = 255"
  by (simp_all add: word_unat_eq_iff)

text \<open>The tests of the two readers, on the first two bytes, say that the contents are shortest.\<close>

lemma is_shortest_iff:
  "is_shortest data \<longleftrightarrow> data \<noteq> [] \<and>
    \<not> (length data > 1 \<and> data ! 0 = 0 \<and> data ! 1 AND 0x80 = 0) \<and>
    \<not> (length data > 1 \<and> data ! 0 = 0xff \<and> data ! 1 AND 0x80 \<noteq> 0)"
  by (cases data rule: shortest.cases)
    (auto simp: is_shortest_def sign_byte_def negative_def byte_high_bit)

lemma negative_iff: "data \<noteq> [] \<Longrightarrow> negative data \<longleftrightarrow> data ! 0 AND 0x80 \<noteq> 0"
  by (cases data) (auto simp: negative_def byte_high_bit)

lemma be_value_acc_le: "n \<le> be_value_acc n bs"
proof (induction bs arbitrary: n)
  case (Cons b bs)
  have "n \<le> n * 256 + unat b" by simp
  also have "\<dots> \<le> be_value_acc (n * 256 + unat b) bs" by (rule Cons.IH)
  finally show ?case by simp
qed simp

lemma get_asn1_uint64_loop_eq:
  "get_asn1_uint64_loop out data =
    (if be_value_acc (unat out) data < 2 ^ 64 then Some (of_nat (be_value_acc (unat out) data)) else None)"
proof (induction out data rule: get_asn1_uint64_loop.induct)
  case (1 out)
  then show ?case using unsigned_less [of out, where ?'a = nat] by simp
next
  case (2 out b data)
  show ?case
  proof (cases "drop_bit 56 out = 0")
    case True
    then have "unat (drop_bit 56 out) = 0" by simp
    then have "unat out < 2 ^ (64 - 8)" by (simp add: unat_drop_bit div_eq_0_iff)
    then have "unat (push_bit 8 out OR ucast b) = unat out * 256 + unat b"
      by (simp add: unat_shift_or_byte)
    with 2 True show ?thesis by simp
  next
    case False
    then have "unat (drop_bit 56 out) \<noteq> 0" by (simp add: unat_eq_0)
    then have "2 ^ 56 \<le> unat out" by (simp add: unat_drop_bit div_eq_0_iff)
    then have "2 ^ 64 \<le> unat out * 256 + unat b" by simp
    also have "\<dots> \<le> be_value_acc (unat out * 256 + unat b) data" by (rule be_value_acc_le)
    finally show ?thesis using False by simp
  qed
qed

lemma tc_value_nonneg: "\<not> negative bs \<Longrightarrow> tc_value bs = int (be_value bs)"
  by (simp add: tc_value_def)

lemma tc_value_neg: "negative bs \<Longrightarrow> tc_value bs < 0"
proof -
  assume "negative bs"
  then have "tc_value bs = int (be_value bs) - 256 ^ length bs" by (simp add: tc_value_def)
  moreover have "int (be_value bs) < 256 ^ length bs"
    using be_value_bound [of bs] by (metis of_nat_less_iff of_nat_numeral of_nat_power)
  ultimately show ?thesis by simp
qed

lemma shortest_length_bound:
  assumes "is_shortest bs" and "\<not> negative bs" and "be_value bs < 128 * 256 ^ n"
  shows "length bs \<le> Suc n"
proof (rule ccontr)
  assume "\<not> length bs \<le> Suc n"
  then obtain a b cs where bs: "bs = a # b # cs" and l: "n \<le> length cs"
    by (cases bs rule: shortest.cases) auto
  have p: "(256 :: nat) ^ n \<le> 256 ^ length cs" using l by (intro power_increasing) simp_all
  have v: "be_value bs = unat a * 256 ^ Suc (length cs) + unat b * 256 ^ length cs + be_value cs"
    by (simp add: bs be_value_Cons)
  have "a \<noteq> 0 \<or> 128 \<le> unat b"
    using assms(1,2) by (auto simp: bs is_shortest_def sign_byte_def negative_def split: if_splits)
  then have "128 * 256 ^ length cs \<le> be_value bs"
  proof
    assume "a \<noteq> 0"
    then have "1 \<le> unat a" by (simp add: Suc_le_eq unat_gt_0 word_neq_0_conv)
    obtain q where q: "q = (256 :: nat) ^ length cs" by blast
    have "1 * (256 * q) \<le> unat a * (256 * q)" using \<open>1 \<le> unat a\<close> by (rule mult_right_mono) simp
    then show ?thesis unfolding v power_Suc q [symmetric] by linarith
  next
    assume "128 \<le> unat b"
    then have "128 * 256 ^ length cs \<le> unat b * 256 ^ length cs" by (rule mult_right_mono) simp
    then show ?thesis unfolding v by (rule trans_le_add1 [OF trans_le_add2])
  qed
  with p assms(3) show False by linarith
qed

lemma CBS_get_asn1_uint64_iff:
  "CBS_get_asn1_uint64 s = (Some v, r) \<longleftrightarrow> s = der_element CBS_ASN1_INTEGER (der_int (int (unat v))) @ r"
proof
  assume "CBS_get_asn1_uint64 s = (Some v, r)"
  then obtain data where data: "CBS_get_asn1 CBS_ASN1_INTEGER s = (Some data, r)"
    and tests: "data \<noteq> []" "data ! 0 AND 0x80 = 0" "\<not> (data ! 0 = 0 \<and> length data > 1 \<and> data ! 1 AND 0x80 = 0)"
    and v: "get_asn1_uint64_loop 0 data = Some v"
    by (auto simp: CBS_get_asn1_uint64_def CBS_len_def Let_def split: prod.splits option.splits if_splits)
  have nn: "\<not> negative data" using tests(1,2) by (simp add: negative_iff)
  have "data ! 0 \<noteq> 0xff" using tests(2) by (auto simp: byte_high_bit)
  with tests have sh: "is_shortest data" by (auto simp: is_shortest_iff)
  have lt: "be_value data < 2 ^ 64" and v': "v = of_nat (be_value data)"
    using v by (auto simp: get_asn1_uint64_loop_eq be_value_def split: if_splits)
  then have uv: "unat v = be_value data" by (simp add: unat_of_nat_lt)
  have "length data \<le> Suc 8" using sh nn by (rule shortest_length_bound) (use lt in simp)
  then have "der_int (int (unat v)) = data"
    using der_int_unique [OF sh] nn by (simp only: uv tc_value_nonneg [symmetric] eval_nat_numeral simp_thms)
  with data show "s = der_element CBS_ASN1_INTEGER (der_int (int (unat v))) @ r"
    by (simp add: CBS_get_asn1_iff)
next
  assume s: "s = der_element CBS_ASN1_INTEGER (der_int (int (unat v))) @ r"
  let ?data = "der_int (int (unat v))"
  have lt: "unat v < 2 ^ 64" using unsigned_less [of v, where ?'a = nat] by simp
  have tc: "tc_value ?data = int (unat v)" 
  proof (rule tc_value_der_int)
    show "- (128 * 256 ^ 8) \<le> int (unat v)" by (rule order_trans [of _ 0]) simp_all
    have "int (unat v) < 2 ^ 64" using lt by (metis of_nat_less_iff of_nat_numeral of_nat_power)
    then show "int (unat v) < 128 * 256 ^ 8" by (rule less_trans) simp
  qed
  then have nn: "\<not> negative ?data" using tc_value_neg [of ?data] by auto
  then have bv: "be_value ?data = unat v" using tc tc_value_nonneg [OF nn] by (metis of_nat_eq_iff)
  have "length ?data < 2 ^ 32" using der_int_shortest(2) [of "int (unat v)"] by simp
  then have "CBS_get_asn1 CBS_ASN1_INTEGER s = (Some ?data, r)" using s by (simp add: CBS_get_asn1_iff)
  moreover have "?data \<noteq> []" "?data ! 0 AND 0x80 = 0" "\<not> (length ?data > 1 \<and> ?data ! 0 = 0 \<and> ?data ! 1 AND 0x80 = 0)"
    using der_int_shortest(1) [of "int (unat v)"] nn by (auto simp: is_shortest_iff negative_iff)
  moreover have "get_asn1_uint64_loop 0 ?data = Some v"
    using bv lt by (simp add: get_asn1_uint64_loop_eq be_value_def)
  ultimately show "CBS_get_asn1_uint64 s = (Some v, r)"
    by (auto simp: CBS_get_asn1_uint64_def CBS_len_def Let_def)
qed

text \<open>The union of the \<open>int64_t\<close> reader holds the sign-extended contents, least significant byte first.\<close>

lemma foldl_store_reverse:
  "n \<le> length data \<Longrightarrow> length data \<le> length u \<Longrightarrow>
   foldl (\<lambda>u i. u[i := data ! (length data - i - 1)]) u [0..<n] = take n (rev data) @ drop n u"
proof (induction n)
  case 0
  then show ?case by simp
next
  case (Suc n)
  have "take (Suc n) (rev data) = take n (rev data) @ [data ! (length data - n - 1)]"
    using Suc.prems by (subst take_Suc_conv_app_nth) (simp_all add: rev_nth)
  with Suc show ?case by (simp add: list_update_append drop_update_swap Cons_nth_drop_Suc [symmetric] del: Cons_nth_drop_Suc)
qed

lemma sint_of_tc:
  assumes "length bs = 8"
  shows "sint (of_nat (be_value bs) :: 64 word) = tc_value bs"
proof -
  have "of_nat (be_value bs) = (word_of_int (tc_value bs) :: 64 word)"
  proof -
    have "of_nat (be_value bs) = (word_of_int (tc_value bs mod 2 ^ 64) :: 64 word)"
    proof -
      have "word_of_int (int (be_value bs)) = (word_of_int (tc_value bs mod 256 ^ 8) :: 64 word)"
        by (simp only: be_value_tc assms)
      then show ?thesis by simp
    qed
    then show ?thesis by (simp add: word_of_int_eq_iff take_bit_eq_mod)
  qed
  moreover have "- (2 ^ 63) \<le> tc_value bs \<and> tc_value bs < 2 ^ 63"
    using tc_value_range [of bs 7] assms by simp
  ultimately show ?thesis by (simp add: sint_sbintrunc' signed_take_bit_int_eq_self)
qed

lemma int64_sign_fill:
  assumes "data \<noteq> []" and "length data \<le> 8"
  shows "int64_of_bytes (foldl (\<lambda>u i. u[i := data ! (length data - i - 1)])
      (replicate 8 (if data ! 0 AND 0x80 \<noteq> 0 then 0xff else 0)) [0..<length data])
    = of_nat (be_value (sign_extend (8 - length data) data))"
proof -
  have "(if data ! 0 AND 0x80 \<noteq> 0 then 0xff else 0) = sign_byte data"
    using assms(1) by (simp add: sign_byte_def negative_iff)
  then show ?thesis
    using assms by (simp only: foldl_store_reverse length_replicate order_refl)
      (simp add: int64_of_bytes_def sign_extend_def)
qed

lemma CBS_get_asn1_int64_eq:
  "CBS_get_asn1_int64 s = (case CBS_get_asn1 CBS_ASN1_INTEGER s of
       (None, s') \<Rightarrow> (None, s')
     | (Some data, s') \<Rightarrow>
         (if is_shortest data \<and> length data \<le> 8
          then Some (of_nat (be_value (sign_extend (8 - length data) data))) else None, s'))"
proof (cases "CBS_get_asn1 CBS_ASN1_INTEGER s")
  case (Pair o_data s')
  show ?thesis
  proof (cases o_data)
    case None
    with Pair show ?thesis by (simp add: CBS_get_asn1_int64_def)
  next
    case (Some data)
    show ?thesis
    proof (cases "data \<noteq> [] \<and> length data \<le> 8")
      case True
      note fill = int64_sign_fill [OF conjunct1 [OF True] conjunct2 [OF True]]
      show ?thesis
        unfolding CBS_get_asn1_int64_def CBS_len_def Let_def Pair Some prod.case option.case fill
        using True by (auto simp: is_shortest_iff)
    next
      case False
      with Pair Some show ?thesis by (auto simp: CBS_get_asn1_int64_def CBS_len_def is_shortest_iff)
    qed
  qed
qed

lemma CBS_get_asn1_int64_iff:
  "CBS_get_asn1_int64 s = (Some v, r) \<longleftrightarrow> s = der_element CBS_ASN1_INTEGER (der_int (sint v)) @ r"
proof -
  have sext: "sint (of_nat (be_value (sign_extend (8 - length data) data)) :: 64 word) = tc_value data"
    if "data \<noteq> []" "length data \<le> 8" for data
    using that sint_of_tc [of "sign_extend (8 - length data) data"]
    by (simp add: tc_value_sign_extend) (simp add: sign_extend_def)
  show ?thesis
  proof
    assume "CBS_get_asn1_int64 s = (Some v, r)"
    then obtain data where data: "CBS_get_asn1 CBS_ASN1_INTEGER s = (Some data, r)"
      and sh: "is_shortest data" and len: "length data \<le> 8"
      and v: "v = of_nat (be_value (sign_extend (8 - length data) data))"
      by (auto simp: CBS_get_asn1_int64_eq split: prod.splits option.splits if_splits)
    have "data \<noteq> []" using sh by (simp add: is_shortest_def)
    then have "sint v = tc_value data" using len by (simp add: v sext)
    then have "der_int (sint v) = data" using der_int_unique [OF sh] len by simp
    with data show "s = der_element CBS_ASN1_INTEGER (der_int (sint v)) @ r" by (simp add: CBS_get_asn1_iff)
  next
    assume s: "s = der_element CBS_ASN1_INTEGER (der_int (sint v)) @ r"
    let ?data = "der_int (sint v)"
    have rng: "- (2 ^ 63) \<le> sint v" "sint v < 2 ^ 63"
      using sint_greater_eq [of v] sint_less [of v] by simp_all
    then have tc: "tc_value ?data = sint v" by (intro tc_value_der_int) simp_all
    have sh: "is_shortest ?data" by (rule der_int_shortest)
    then have ne: "?data \<noteq> []" by (simp add: is_shortest_def)
    have len: "length ?data \<le> 8"
      using der_int_fits [of 7 "sint v"] rng by simp
    have "length ?data < 2 ^ 32" using len by simp
    then have g: "CBS_get_asn1 CBS_ASN1_INTEGER s = (Some ?data, r)" using s by (simp add: CBS_get_asn1_iff)
    have "sint (of_nat (be_value (sign_extend (8 - length ?data) ?data)) :: 64 word) = sint v"
      using sext [OF ne len] tc by simp
    then have "of_nat (be_value (sign_extend (8 - length ?data) ?data)) = v" by (simp add: signed_word_eqI)
    with g sh len show "CBS_get_asn1_int64 s = (Some v, r)"
      by (simp add: CBS_get_asn1_int64_eq)
  qed
qed

lemma der_element_bound: "length c < 2 ^ 32 \<Longrightarrow> length (der_element tag c) < 2 ^ 33"
  using length_der_tag [of tag] by (simp add: der_element_def der_header_def length_der_len der_len_len_def)

interpretation der_uint64: nonempty_codec "\<lambda>v. der_element CBS_ASN1_INTEGER (der_int (int (unat v)))"
  "parsed CBS_get_asn1_uint64" "\<lambda>_. True"
  by unfold_locales
    (simp_all only: parsed_Some_iff CBS_get_asn1_uint64_iff simp_thms,
     simp add: der_element_def der_header_def der_tag.enc_nonempty)

interpretation der_int64: nonempty_codec "\<lambda>v. der_element CBS_ASN1_INTEGER (der_int (sint v))"
  "parsed CBS_get_asn1_int64" "\<lambda>_. True"
  by unfold_locales
    (simp_all only: parsed_Some_iff CBS_get_asn1_int64_iff simp_thms,
     simp add: der_element_def der_header_def der_tag.enc_nonempty)

lemma CBS_get_asn1_bool_iff:
  "CBS_get_asn1_bool s = (Some v, r) \<longleftrightarrow> s = der_element CBS_ASN1_BOOLEAN [if v then 0xff else 0] @ r"
proof
  assume "CBS_get_asn1_bool s = (Some v, r)"
  then obtain c where g: "CBS_get_asn1 CBS_ASN1_BOOLEAN s = (Some c, r)" and l: "length c = 1"
    and c: "c ! 0 = 0 \<or> c ! 0 = 0xff" and v: "v = (c ! 0 \<noteq> 0)"
    by (auto simp: CBS_get_asn1_bool_def CBS_len_def split: prod.splits option.splits if_splits)
  have "c = [if v then 0xff else 0]" using l c v by (cases c) auto
  with g show "s = der_element CBS_ASN1_BOOLEAN [if v then 0xff else 0] @ r" by (simp only: CBS_get_asn1_iff)
next
  assume "s = der_element CBS_ASN1_BOOLEAN [if v then 0xff else 0] @ r"
  then have "CBS_get_asn1 CBS_ASN1_BOOLEAN s = (Some [if v then 0xff else 0], r)" by (simp add: CBS_get_asn1_iff)
  then show "CBS_get_asn1_bool s = (Some v, r)" by (simp add: CBS_get_asn1_bool_def CBS_len_def)
qed

interpretation der_bool: nonempty_codec "\<lambda>v. der_element CBS_ASN1_BOOLEAN [if v then 0xff else 0]"
  "parsed CBS_get_asn1_bool" "\<lambda>_. True"
  by unfold_locales
    (simp_all only: parsed_Some_iff CBS_get_asn1_bool_iff simp_thms,
     simp add: der_element_def der_header_def der_tag.enc_nonempty)

end
