(* ===== verification/Cbb.thy ===== *)
theory Cbb
  imports Der
begin

text \<open>
  Model of \<open>crypto/bytestring/cbb.c\<close>: the growable writer with nested length-prefixed and
  ASN.1 children.

  All the \<open>CBB\<close> objects of one tree share a buffer, and every CBB has at most one open
  child. The model keeps the buffer (\<open>base\<close>) and the chain of open children, outermost first
  (\<open>children\<close>). A \<open>CBB *\<close> argument is the depth \<open>d\<close> of the object in the chain: 0 for
  the top-level CBB, \<open>d\<close> for the \<open>d\<close>-th child. Flushing a CBB sets \<open>child->base\<close> to NULL
  all the way down, so that every operation on a flushed child fails: here its depth is beyond
  the chain. \<open>base = None\<close> is \<open>cbb->base == NULL\<close>.

  The allocator is carried in the buffer. A buffer never asks twice for the same capacity (a
  reallocation is for more than the capacity it has), so a function of the size describes every
  sequence of answers of \<open>malloc\<close> to one buffer. Output pointers into the buffer are not
  kept: they are the length of the buffer before the call.
\<close>

subsection \<open>State\<close>

record cbb_buffer =
  base_buf :: "byte list"
  base_len :: nat
  base_cap :: nat
  base_can_resize :: bool
  base_error :: bool
  base_alloc :: allocator

record cbb_frame =
  frame_offset :: nat
  frame_pending_len_len :: nat
  frame_pending_is_asn1 :: bool

record CBB =
  base :: "cbb_buffer option"
  children :: "cbb_frame list"

definition CBB_zero :: CBB where
  "CBB_zero = \<lparr>base = None, children = []\<rparr>"

definition cbb_init :: "allocator \<Rightarrow> byte list \<Rightarrow> nat \<Rightarrow> bool \<times> CBB" where
  "cbb_init malloc p cap = (case OPENSSL_malloc malloc 32 of
       None \<Rightarrow> (False, CBB_zero)
     | Some _ \<Rightarrow> (True, \<lparr>base = Some \<lparr>base_buf = p, base_len = 0, base_cap = cap, base_can_resize = True,
          base_error = False, base_alloc = malloc\<rparr>, children = []\<rparr>))"

definition CBB_init :: "allocator \<Rightarrow> nat \<Rightarrow> bool \<times> CBB" where
  "CBB_init malloc initial_capacity =
     (let p = OPENSSL_malloc malloc initial_capacity
      in if initial_capacity > 0 \<and> p = None then (False, CBB_zero)
         else cbb_init malloc (case p of None \<Rightarrow> [] | Some p \<Rightarrow> p) initial_capacity)"

definition CBB_init_fixed :: "allocator \<Rightarrow> byte list \<Rightarrow> nat \<Rightarrow> bool \<times> CBB" where
  "CBB_init_fixed malloc p len = (case cbb_init malloc p len of
       (False, s) \<Rightarrow> (False, s)
     | (True, s) \<Rightarrow> (True, s\<lparr>base := map_option (\<lambda>b. b\<lparr>base_can_resize := False\<rparr>) (base s)\<rparr>))"

definition CBB_cleanup :: "nat \<Rightarrow> CBB \<Rightarrow> CBB" where
  "CBB_cleanup d s = (if d > 0 then s else s\<lparr>base := None, children := []\<rparr>)"

subsection \<open>The buffer\<close>

definition cbb_buffer_reserve :: "nat \<Rightarrow> cbb_buffer step" where
  "cbb_buffer_reserve n b =
     (let newlen = size_t (base_len b + n)
      in if newlen < base_len b then (False, b\<lparr>base_error := True\<rparr>)
         else if newlen > base_cap b then
           (let newcap = size_t (base_cap b * 2)
            in if \<not> base_can_resize b then (False, b\<lparr>base_error := True\<rparr>)
               else
                 let newcap' = (if newcap < base_cap b \<or> newcap < newlen then newlen else newcap)
                 in case OPENSSL_realloc (base_alloc b) (Some (base_buf b)) newcap' of
                      None \<Rightarrow> (False, b\<lparr>base_error := True\<rparr>)
                    | Some newbuf \<Rightarrow> (True, b\<lparr>base_buf := newbuf, base_cap := newcap'\<rparr>))
         else (True, b))"

definition cbb_buffer_add :: "nat \<Rightarrow> cbb_buffer step" where
  "cbb_buffer_add n b = (case cbb_buffer_reserve n b of
       (False, b') \<Rightarrow> (False, b')
     | (True, b') \<Rightarrow> (True, b'\<lparr>base_len := base_len b' + n\<rparr>))"

text \<open>
  The loop \<open>for (i = n - 1; i < n; i--) { buf[i] = v; v >>= 8; }\<close> at \<open>p\<close> in the array: the
  array and what is left of \<open>v\<close>.
\<close>

fun write_be :: "byte list \<Rightarrow> nat \<Rightarrow> nat \<Rightarrow> 64 word \<Rightarrow> byte list \<times> 64 word" where
  "write_be a p 0 v = (a, v)"
| "write_be a p (Suc i) v = write_be (a[p + i := ucast v]) p i (drop_bit 8 v)"

definition cbb_buffer_add_u :: "64 word \<Rightarrow> nat \<Rightarrow> cbb_buffer step" where
  "cbb_buffer_add_u v len_len b =
     (if len_len = 0 then (True, b)
      else case cbb_buffer_add len_len b of
             (False, b') \<Rightarrow> (False, b')
           | (True, b') \<Rightarrow>
               (case write_be (base_buf b') (base_len b) len_len v of
                  (a, v') \<Rightarrow>
                    if v' \<noteq> 0 then (False, b'\<lparr>base_buf := a, base_error := True\<rparr>)
                    else (True, b'\<lparr>base_buf := a\<rparr>)))"

subsection \<open>Flushing\<close>

text \<open>
  \<open>cbb_flush_chain\<close> is \<open>CBB_flush\<close> of a CBB whose open descendants are the second argument:
  the result, the buffer and the descendants that are still open.
\<close>

definition flush_error :: "cbb_buffer \<Rightarrow> cbb_buffer" where
  "flush_error b = b\<lparr>base_error := True\<rparr>"

definition flush_asn1_len :: "nat \<Rightarrow> (nat \<times> byte) option" where
  "flush_asn1_len len =
     (if len > 0xfffffffe then None
      else if len > 0xffffff then Some (5, 0x80 OR 4)
      else if len > 0xffff then Some (4, 0x80 OR 3)
      else if len > 0xff then Some (3, 0x80 OR 2)
      else if len > 0x7f then Some (2, 0x80 OR 1)
      else Some (1, of_nat len))"

text \<open>
  \<open>flush_child c len\<close> fills in the pending prefix of child \<open>c\<close>, whose contents are the last
  \<open>len\<close> bytes of the buffer; \<open>flush_prefix p n len\<close> is its last loop, which writes
  \<open>len\<close> as \<open>n\<close> bytes at \<open>p\<close>.
\<close>

definition flush_prefix :: "nat \<Rightarrow> nat \<Rightarrow> nat \<Rightarrow> cbb_buffer step" where
  "flush_prefix p n len b = (case write_be (base_buf b) p n (of_nat len) of
       (a, rest) \<Rightarrow>
         if rest \<noteq> 0 then (False, flush_error (b\<lparr>base_buf := a\<rparr>)) else (True, b\<lparr>base_buf := a\<rparr>))"

definition flush_child :: "cbb_frame \<Rightarrow> nat \<Rightarrow> cbb_buffer step" where
  "flush_child c len b =
     (if frame_pending_is_asn1 c then
        (case flush_asn1_len len of
           None \<Rightarrow> (False, flush_error b)
         | Some (len_len, initial_length_byte) \<Rightarrow>
             let child_start = frame_offset c + frame_pending_len_len c;
                 len' = (if len_len = 1 then 0 else len)
             in case (if len_len \<noteq> 1
                      then (case cbb_buffer_add (len_len - 1) b of
                          (False, b') \<Rightarrow> (False, b')
                        | (True, b') \<Rightarrow>
                            (True, b'\<lparr>base_buf := mem_write (base_buf b') (child_start + (len_len - 1))
                                      (take len (drop child_start (base_buf b')))\<rparr>))
                      else (True, b))
                of (False, b') \<Rightarrow> (False, flush_error b')
                 | (True, b') \<Rightarrow>
                     flush_prefix (frame_offset c + 1) (len_len - 1) len'
                       (b'\<lparr>base_buf := (base_buf b')[frame_offset c := initial_length_byte]\<rparr>))
      else flush_prefix (frame_offset c) (frame_pending_len_len c) len b)"

fun cbb_flush_chain :: "cbb_buffer \<Rightarrow> cbb_frame list \<Rightarrow> bool \<times> cbb_buffer \<times> cbb_frame list" where
  "cbb_flush_chain b [] = (\<not> base_error b, b, [])"
| "cbb_flush_chain b (c # cs) =
     (if base_error b then (False, b, c # cs)
      else if frame_pending_len_len c = 0 then (True, b, c # cs)
      else
        let child_start = size_t (frame_offset c + frame_pending_len_len c)
        in case cbb_flush_chain b cs of
             (ok, b1, cs1) \<Rightarrow>
               if \<not> ok \<or> child_start < frame_offset c \<or> base_len b1 < child_start
               then (False, flush_error b1, c # cs1)
               else (case flush_child c (base_len b1 - child_start) b1 of
                   (False, b2) \<Rightarrow> (False, b2, c # cs1)
                 | (True, b2) \<Rightarrow> (True, b2, [])))"

definition CBB_flush :: "nat \<Rightarrow> CBB step" where
  "CBB_flush d s = (case base s of
       None \<Rightarrow> (False, s)
     | Some b \<Rightarrow>
         if d > length (children s) then (False, s)
         else (case cbb_flush_chain b (drop d (children s)) of
             (ok, b', cs) \<Rightarrow> (ok, s\<lparr>base := Some b', children := take d (children s) @ cs\<rparr>)))"

text \<open>Run a buffer operation on \<open>cbb->base\<close>.\<close>

definition on_base :: "cbb_buffer step \<Rightarrow> CBB step" where
  "on_base f s = (case base s of
       None \<Rightarrow> (False, s)
     | Some b \<Rightarrow> (case f b of (ok, b') \<Rightarrow> (ok, s\<lparr>base := Some b'\<rparr>)))"

definition CBB_finish :: "bool \<Rightarrow> nat \<Rightarrow> (CBB, byte list) reader" where
  "CBB_finish has_out d s =
     (if d > 0 then (None, s)
      else case CBB_flush d s of
             (False, s') \<Rightarrow> (None, s')
           | (True, s') \<Rightarrow>
               (case base s' of
                  None \<Rightarrow> (None, s')
                | Some b \<Rightarrow>
                    if base_can_resize b \<and> \<not> has_out then (None, s')
                    else (Some (take (base_len b) (base_buf b)), CBB_cleanup d s')))"

text \<open>Where the contents of the CBB at depth \<open>d\<close> begin, and \<open>CBB_data\<close> and \<open>CBB_len\<close>.\<close>

definition CBB_start :: "nat \<Rightarrow> CBB \<Rightarrow> nat" where
  "CBB_start d s = (if d = 0 then 0
     else frame_offset (children s ! (d - 1)) + frame_pending_len_len (children s ! (d - 1)))"

definition CBB_len :: "nat \<Rightarrow> CBB \<Rightarrow> nat" where
  "CBB_len d s = (case base s of None \<Rightarrow> 0 | Some b \<Rightarrow> base_len b - CBB_start d s)"

definition CBB_data :: "nat \<Rightarrow> CBB \<Rightarrow> byte list" where
  "CBB_data d s = (case base s of None \<Rightarrow> [] | Some b \<Rightarrow> drop (CBB_start d s) (take (base_len b) (base_buf b)))"

subsection \<open>Adding data\<close>

definition cbb_open_child :: "nat \<Rightarrow> nat \<Rightarrow> nat \<Rightarrow> bool \<Rightarrow> CBB \<Rightarrow> CBB" where
  "cbb_open_child d off len_len is_asn1 s = s\<lparr>children := take d (children s) @
     [\<lparr>frame_offset = off, frame_pending_len_len = len_len, frame_pending_is_asn1 = is_asn1\<rparr>]\<rparr>"

definition cbb_base_len :: "CBB \<Rightarrow> nat" where
  "cbb_base_len s = (case base s of None \<Rightarrow> 0 | Some b \<Rightarrow> base_len b)"

text \<open>Add space for \<open>bs\<close> and store it there: \<open>cbb_buffer_add\<close> and \<open>memcpy\<close> or \<open>memset\<close>.\<close>

definition cbb_buffer_put :: "byte list \<Rightarrow> cbb_buffer step" where
  "cbb_buffer_put bs b = (case cbb_buffer_add (length bs) b of
       (False, b') \<Rightarrow> (False, b')
     | (True, b') \<Rightarrow> (True, b'\<lparr>base_buf := mem_write (base_buf b') (base_len b) bs\<rparr>))"

definition cbb_add_length_prefixed :: "nat \<Rightarrow> nat \<Rightarrow> CBB step" where
  "cbb_add_length_prefixed len_len d s = (case CBB_flush d s of
       (False, s') \<Rightarrow> (False, s')
     | (True, s') \<Rightarrow>
         (case on_base (cbb_buffer_put (replicate len_len 0)) s' of
            (False, s'') \<Rightarrow> (False, s'')
          | (True, s'') \<Rightarrow> (True, cbb_open_child d (cbb_base_len s') len_len False s'')))"

definition CBB_add_u8_length_prefixed :: "nat \<Rightarrow> CBB step" where
  "CBB_add_u8_length_prefixed d = cbb_add_length_prefixed 1 d"

definition CBB_add_u16_length_prefixed :: "nat \<Rightarrow> CBB step" where
  "CBB_add_u16_length_prefixed d = cbb_add_length_prefixed 2 d"

definition CBB_add_u24_length_prefixed :: "nat \<Rightarrow> CBB step" where
  "CBB_add_u24_length_prefixed d = cbb_add_length_prefixed 3 d"

definition CBB_add_bytes :: "byte list \<Rightarrow> nat \<Rightarrow> CBB step" where
  "CBB_add_bytes data d = and_also (CBB_flush d) (on_base (cbb_buffer_put data))"

definition CBB_add_space :: "nat \<Rightarrow> nat \<Rightarrow> CBB step" where
  "CBB_add_space n d = and_also (CBB_flush d) (on_base (cbb_buffer_add n))"

definition CBB_reserve :: "nat \<Rightarrow> nat \<Rightarrow> CBB step" where
  "CBB_reserve n d = and_also (CBB_flush d) (on_base (cbb_buffer_reserve n))"

definition CBB_did_write :: "nat \<Rightarrow> nat \<Rightarrow> CBB step" where
  "CBB_did_write n d s = (case base s of
       None \<Rightarrow> (False, s)
     | Some b \<Rightarrow>
         let newlen = size_t (base_len b + n)
         in if d < length (children s) \<or> newlen < base_len b \<or> newlen > base_cap b then (False, s)
            else (True, s\<lparr>base := Some (b\<lparr>base_len := newlen\<rparr>)\<rparr>))"

definition CBB_add_u8 :: "byte \<Rightarrow> nat \<Rightarrow> CBB step" where
  "CBB_add_u8 v d = and_also (CBB_flush d) (on_base (cbb_buffer_add_u (ucast v) 1))"

definition CBB_add_u16 :: "16 word \<Rightarrow> nat \<Rightarrow> CBB step" where
  "CBB_add_u16 v d = and_also (CBB_flush d) (on_base (cbb_buffer_add_u (ucast v) 2))"

definition CBB_add_u16le :: "16 word \<Rightarrow> nat \<Rightarrow> CBB step" where
  "CBB_add_u16le v d = CBB_add_u16 (CRYPTO_bswap2 v) d"

definition CBB_add_u24 :: "32 word \<Rightarrow> nat \<Rightarrow> CBB step" where
  "CBB_add_u24 v d = and_also (CBB_flush d) (on_base (cbb_buffer_add_u (ucast v) 3))"

definition CBB_add_u32 :: "32 word \<Rightarrow> nat \<Rightarrow> CBB step" where
  "CBB_add_u32 v d = and_also (CBB_flush d) (on_base (cbb_buffer_add_u (ucast v) 4))"

definition CBB_add_u32le :: "32 word \<Rightarrow> nat \<Rightarrow> CBB step" where
  "CBB_add_u32le v d = CBB_add_u32 (CRYPTO_bswap4 v) d"

definition CBB_add_u64 :: "64 word \<Rightarrow> nat \<Rightarrow> CBB step" where
  "CBB_add_u64 v d = and_also (CBB_flush d) (on_base (cbb_buffer_add_u v 8))"

definition CBB_add_u64le :: "64 word \<Rightarrow> nat \<Rightarrow> CBB step" where
  "CBB_add_u64le v d = CBB_add_u64 (CRYPTO_bswap8 v) d"

definition CBB_discard_child :: "nat \<Rightarrow> CBB \<Rightarrow> CBB" where
  "CBB_discard_child d s =
     (if length (children s) \<le> d then s
      else s\<lparr>base := map_option (\<lambda>b. b\<lparr>base_len := frame_offset (children s ! d)\<rparr>) (base s),
             children := take d (children s)\<rparr>)"

subsection \<open>The buffer as a byte string\<close>

definition buffer_contents :: "cbb_buffer \<Rightarrow> byte list" where
  "buffer_contents b = take (base_len b) (base_buf b)"

definition wf_buffer :: "cbb_buffer \<Rightarrow> bool" where
  "wf_buffer b \<longleftrightarrow> length (base_buf b) = base_cap b \<and> base_len b \<le> base_cap b \<and> base_cap b < 2 ^ 64"

text \<open>
  \<open>holds b cs b'\<close>: starting from \<open>b\<close>, the buffer is now \<open>b'\<close> and its contents are
  \<open>cs\<close>. \<open>can_hold b n\<close>: \<open>n\<close> bytes fit, or the buffer may grow and the allocator answers
  the requests that growing takes: all of them, or, up to \<open>2 ^ 63 - 4\<close> bytes, where doubling the
  capacity makes no request wrap, those of at least eight bytes.
\<close>

definition holds :: "cbb_buffer \<Rightarrow> byte list \<Rightarrow> cbb_buffer \<Rightarrow> bool" where
  "holds b cs b' \<longleftrightarrow> wf_buffer b' \<and> buffer_contents b' = cs \<and> base_can_resize b' = base_can_resize b
     \<and> base_alloc b' = base_alloc b \<and> base_error b' = base_error b \<and> base_cap b \<le> base_cap b'
     \<and> (base_can_resize b \<or> base_cap b' = base_cap b)"

definition can_hold :: "cbb_buffer \<Rightarrow> nat \<Rightarrow> bool" where
  "can_hold b n \<longleftrightarrow> n < 2 ^ 64 \<and> (n \<le> base_cap b \<or> base_can_resize b \<and>
     ((\<forall>m. base_alloc b m \<noteq> None) \<or> n \<le> 2 ^ 63 - 4 \<and> (\<forall>m\<ge>8. base_alloc b m \<noteq> None)))"

lemma length_buffer_contents: "wf_buffer b \<Longrightarrow> length (buffer_contents b) = base_len b"
  by (simp add: wf_buffer_def buffer_contents_def)

lemma holds_self: "wf_buffer b \<Longrightarrow> holds b (buffer_contents b) b"
  by (simp add: holds_def)

lemma holds_trans: "holds a cs b \<Longrightarrow> holds b ds c \<Longrightarrow> holds a ds c"
  by (auto simp: holds_def)

lemma can_hold_mono: "can_hold b n \<Longrightarrow> holds b cs b' \<Longrightarrow> m \<le> n \<Longrightarrow> can_hold b' m"
  by (auto simp: can_hold_def holds_def)

lemma holds_len: "holds b cs b' \<Longrightarrow> base_len b' = length cs"
  by (auto simp: holds_def length_buffer_contents)

text \<open>Reserving space keeps the contents; it fails only when the buffer cannot hold the bytes.\<close>

lemma cbb_buffer_reserve_ok:
  assumes "cbb_buffer_reserve n b = (True, b')" and "wf_buffer b" and "n < 2 ^ 64"
  shows "holds b (buffer_contents b) b'" and "base_len b' = base_len b" and "base_len b + n \<le> base_cap b'"
proof -
  have len: "base_len b < 2 ^ 64" using assms(2) by (simp add: wf_buffer_def)
  have sum: "base_len b \<le> size_t (base_len b + n) \<Longrightarrow> size_t (base_len b + n) = base_len b + n"
    using len assms(3) by (simp add: size_t_def mod_if split: if_splits)
  have "holds b (buffer_contents b) b' \<and> base_len b' = base_len b \<and> base_len b + n \<le> base_cap b'"
  proof (cases "size_t (base_len b + n) \<le> base_cap b")
    case True
    with assms sum show ?thesis
      by (auto simp: cbb_buffer_reserve_def Let_def holds_def split: if_splits)
  next
    case False
    obtain cap where cap: "cap = (if size_t (base_cap b * 2) < base_cap b \<or> size_t (base_cap b * 2) < size_t (base_len b + n)
        then size_t (base_len b + n) else size_t (base_cap b * 2))" by blast
    with False assms(1) obtain newbuf where nb: "OPENSSL_realloc (base_alloc b) (Some (base_buf b)) cap = Some newbuf"
      and b': "b' = b\<lparr>base_buf := newbuf, base_cap := cap\<rparr>" and ge: "base_len b \<le> size_t (base_len b + n)" and rs: "base_can_resize b"
      by (auto simp: cbb_buffer_reserve_def Let_def split: if_splits option.splits)
    have c: "size_t (base_len b + n) \<le> cap" "cap < 2 ^ 64" using size_t_less by (simp_all add: cap)
    then have old: "length (base_buf b) \<le> cap" using False assms(2) by (simp add: wf_buffer_def)
    have "length newbuf = cap" and keep: "take (length (base_buf b)) newbuf = base_buf b"
      using OPENSSL_realloc_grow [OF nb old] by simp_all
    moreover have "take (base_len b) newbuf = take (base_len b) (base_buf b)"
    proof -
      have "base_len b \<le> length (base_buf b)" using assms(2) by (simp add: wf_buffer_def)
      then show ?thesis using keep by (metis min.absorb1 take_take)
    qed
    ultimately show ?thesis
      using assms(2) c old rs sum [OF ge]
      by (simp add: holds_def wf_buffer_def buffer_contents_def b')
  qed
  then show "holds b (buffer_contents b) b'" and "base_len b' = base_len b" and "base_len b + n \<le> base_cap b'"
    by simp_all
qed

lemma cbb_buffer_reserve_fail:
  "cbb_buffer_reserve n b = (False, b') \<Longrightarrow> b' = b\<lparr>base_error := True\<rparr>"
  by (auto simp: cbb_buffer_reserve_def Let_def split: if_splits option.splits)

lemma cbb_buffer_reserve_total:
  assumes "can_hold b (base_len b + n)"
  shows "fst (cbb_buffer_reserve n b)"
proof (cases "base_len b + n \<le> base_cap b")
  case True
  then show ?thesis
    using assms by (simp add: can_hold_def size_t_id cbb_buffer_reserve_def)
next
  case False
  let ?newcap = "if size_t (base_cap b * 2) < base_cap b \<or> size_t (base_cap b * 2) < base_len b + n
    then base_len b + n else size_t (base_cap b * 2)"
  from False assms have "base_can_resize b" and n: "base_len b + n < 2 ^ 64"
    and answers: "(\<forall>m. base_alloc b m \<noteq> None) \<or> base_len b + n \<le> 2 ^ 63 - 4 \<and> (\<forall>m\<ge>8. base_alloc b m \<noteq> None)"
    by (simp_all add: can_hold_def)
  moreover from answers have "OPENSSL_realloc (base_alloc b) (Some (base_buf b)) ?newcap \<noteq> None"
  proof
    assume "\<forall>m. base_alloc b m \<noteq> None"
    then show ?thesis by (intro OPENSSL_realloc_total) simp
  next
    assume small: "base_len b + n \<le> 2 ^ 63 - 4 \<and> (\<forall>m\<ge>8. base_alloc b m \<noteq> None)"
    with False have "base_cap b * 2 < 2 ^ 64 - 8" by simp
    with small show ?thesis by (intro OPENSSL_realloc_answers) (simp_all add: size_t_id)
  qed
  ultimately show ?thesis
    using False by (auto simp: size_t_id cbb_buffer_reserve_def Let_def split: option.splits)
qed

lemma write_be_eq:
  "p + n \<le> length a \<Longrightarrow> write_be a p n v = (mem_write a p (be_bytes n (unat v)), drop_bit (8 * n) v)"
proof (induction n arbitrary: a v)
  case 0
  then show ?case by simp
next
  case (Suc n)
  let ?a = "a[p + n := ucast v]"
  have byte: "(ucast v :: byte) = of_nat (unat v mod 256)"
    by (simp add: word_unat_eq_iff unsigned_ucast_eq take_bit_eq_mod)
  have "write_be a p (Suc n) v = (mem_write ?a p (be_bytes n (unat (drop_bit 8 v))), drop_bit (8 * n) (drop_bit 8 v))"
    using Suc by simp
  moreover have "mem_write ?a p (be_bytes n (unat (drop_bit 8 v))) = mem_write a p (be_bytes (Suc n) (unat v))"
  proof -
    have "take p ?a = take p a" by simp
    moreover have "drop (p + n) ?a = ucast v # drop (p + Suc n) a"
      using Suc.prems by (simp add: drop_update_swap Cons_nth_drop_Suc [symmetric] del: Cons_nth_drop_Suc)
    ultimately show ?thesis
      by (simp add: mem_write_def unat_drop_bit byte)
  qed
  ultimately show ?case by (simp add: add.commute)
qed

lemma unat_drop_bits_zero:
  "drop_bit (8 * n) (v :: 64 word) = 0 \<longleftrightarrow> unat v < 256 ^ n"
proof -
  have "drop_bit (8 * n) v = 0 \<longleftrightarrow> unat v div 2 ^ (8 * n) = 0"
    by (simp only: word_unat_eq_iff unat_drop_bit unsigned_0)
  then show ?thesis by (simp add: div_eq_0_iff power_mult)
qed

text \<open>Storing at the end of the contents, and rewriting a part of them.\<close>

lemma holds_store:
  assumes "wf_buffer b" and "base_len b + length bs \<le> base_cap b"
  shows "holds b (buffer_contents b @ bs)
    (b\<lparr>base_len := base_len b + length bs, base_buf := mem_write (base_buf b) (base_len b) bs\<rparr>)"
  using assms by (simp add: holds_def wf_buffer_def buffer_contents_def take_mem_write_upto)

lemma take_mem_write_inside:
  "p + length bs \<le> n \<Longrightarrow> n \<le> length a \<Longrightarrow> take n (mem_write a p bs) = mem_write (take n a) p bs"
  by (simp add: mem_write_def drop_take)

lemma holds_rewrite:
  assumes "wf_buffer b" and "p + length bs \<le> base_len b"
  shows "holds b (mem_write (buffer_contents b) p bs) (b\<lparr>base_buf := mem_write (base_buf b) p bs\<rparr>)"
  using assms by (simp add: holds_def wf_buffer_def buffer_contents_def take_mem_write_inside)

lemma cbb_buffer_add_ok:
  assumes "cbb_buffer_add n b = (True, b')" and "wf_buffer b" and "n < 2 ^ 64"
  obtains b1 where "holds b (buffer_contents b) b1" and "base_len b1 = base_len b"
    and "base_len b + n \<le> base_cap b1" and "b' = b1\<lparr>base_len := base_len b + n\<rparr>"
proof -
  from assms(1) obtain b1 where b1: "cbb_buffer_reserve n b = (True, b1)"
    and b': "b' = b1\<lparr>base_len := base_len b1 + n\<rparr>"
    by (auto simp: cbb_buffer_add_def split: prod.splits bool.splits)
  show thesis
    using that [of b1] cbb_buffer_reserve_ok [OF b1 assms(2,3)] b' by simp
qed

lemma cbb_buffer_add_fail: "cbb_buffer_add n b = (False, b') \<Longrightarrow> b' = b\<lparr>base_error := True\<rparr>"
  by (auto simp: cbb_buffer_add_def dest: cbb_buffer_reserve_fail split: prod.splits bool.splits)

lemma cbb_buffer_add_total: "can_hold b (base_len b + n) \<Longrightarrow> fst (cbb_buffer_add n b)"
  using cbb_buffer_reserve_total [of b n] by (auto simp: cbb_buffer_add_def split: prod.splits bool.splits)

lemma cbb_buffer_put_ok:
  assumes "cbb_buffer_put bs b = (True, b')" and "wf_buffer b" and "length bs < 2 ^ 64"
  shows "holds b (buffer_contents b @ bs) b'"
proof -
  from assms(1) obtain b0 where b0: "cbb_buffer_add (length bs) b = (True, b0)"
    and b': "b' = b0\<lparr>base_buf := mem_write (base_buf b0) (base_len b) bs\<rparr>"
    by (auto simp: cbb_buffer_put_def split: prod.splits bool.splits)
  from b0 assms(2,3) obtain b1 where b1: "holds b (buffer_contents b) b1" "base_len b1 = base_len b"
    "base_len b + length bs \<le> base_cap b1" and b0': "b0 = b1\<lparr>base_len := base_len b + length bs\<rparr>"
    by (rule cbb_buffer_add_ok)
  have "holds b1 (buffer_contents b1 @ bs)
      (b1\<lparr>base_len := base_len b1 + length bs, base_buf := mem_write (base_buf b1) (base_len b1) bs\<rparr>)"
    using b1 by (intro holds_store) (simp_all add: holds_def)
  with b1 have "holds b (buffer_contents b @ bs)
      (b1\<lparr>base_len := base_len b1 + length bs, base_buf := mem_write (base_buf b1) (base_len b1) bs\<rparr>)"
    by (auto simp: holds_def)
  then show ?thesis by (simp add: b' b0' b1(2))
qed

lemma cbb_buffer_put_fail: "cbb_buffer_put bs b = (False, b') \<Longrightarrow> b' = b\<lparr>base_error := True\<rparr>"
  by (auto simp: cbb_buffer_put_def dest: cbb_buffer_add_fail split: prod.splits bool.splits)

lemma cbb_buffer_put_total: "can_hold b (base_len b + length bs) \<Longrightarrow> fst (cbb_buffer_put bs b)"
  using cbb_buffer_add_total [of b "length bs"] by (auto simp: cbb_buffer_put_def split: prod.splits bool.splits)

lemma cbb_buffer_add_u_put:
  assumes "wf_buffer b" and "unat v < 256 ^ n" and "n < 2 ^ 64"
  shows "cbb_buffer_add_u v n b = cbb_buffer_put (be_bytes n (unat v)) b"
proof (cases "cbb_buffer_add n b")
  case (Pair ok b0)
  show ?thesis
  proof (cases ok)
    case True
    with Pair assms obtain b1 where b1: "holds b (buffer_contents b) b1" "base_len b1 = base_len b"
      "base_len b + n \<le> base_cap b1" and b0': "b0 = b1\<lparr>base_len := base_len b + n\<rparr>"
      using cbb_buffer_add_ok [of n b b0 thesis] by auto
    have "base_len b + n \<le> length (base_buf b0)"
      using b1 by (simp add: b0' holds_def wf_buffer_def)
    then have w: "write_be (base_buf b0) (base_len b) n v
        = (mem_write (base_buf b0) (base_len b) (be_bytes n (unat v)), 0)"
      using assms(2) by (simp add: write_be_eq unat_drop_bits_zero)
    show ?thesis
    proof (cases "n = 0")
      case True
      then show ?thesis using assms(1)
        by (simp add: cbb_buffer_add_u_def cbb_buffer_put_def cbb_buffer_add_def cbb_buffer_reserve_def
            wf_buffer_def size_t_id Let_def)
    next
      case False
      with Pair True w show ?thesis by (simp add: cbb_buffer_add_u_def cbb_buffer_put_def)
    qed
  next
    case False
    have "fst (cbb_buffer_add 0 b)" using assms(1)
      by (intro cbb_buffer_add_total) (simp add: wf_buffer_def can_hold_def)
    with False Pair have "0 < n" by (cases n) auto
    with False Pair show ?thesis by (simp add: cbb_buffer_add_u_def cbb_buffer_put_def)
  qed
qed

text \<open>A value that needs more bytes is refused, and the buffer is poisoned.\<close>

lemma cbb_buffer_add_u_too_big:
  assumes "wf_buffer b" and "256 ^ n \<le> unat v" and "0 < n" and "n < 2 ^ 64"
  shows "fst (cbb_buffer_add_u v n b) = False" and "base_error (snd (cbb_buffer_add_u v n b))"
proof -
  have "fst (cbb_buffer_add_u v n b) = False \<and> base_error (snd (cbb_buffer_add_u v n b))"
  proof (cases "cbb_buffer_add n b")
    case (Pair ok b0)
    show ?thesis
    proof (cases ok)
      case True
      with Pair assms obtain b1 where b1: "holds b (buffer_contents b) b1" 
        "base_len b + n \<le> base_cap b1" and b0': "b0 = b1\<lparr>base_len := base_len b + n\<rparr>"
        using cbb_buffer_add_ok [of n b b0 thesis] by auto
      have "base_len b + n \<le> length (base_buf b0)"
        using b1 by (simp add: b0' holds_def wf_buffer_def)
      then have "snd (write_be (base_buf b0) (base_len b) n v) \<noteq> 0"
        using assms(2) by (simp add: write_be_eq unat_drop_bits_zero)
      with True Pair assms(3) show ?thesis
        by (cases "write_be (base_buf b0) (base_len b) n v") (simp add: cbb_buffer_add_u_def)
    next
      case False
      with Pair assms(3) cbb_buffer_add_fail [of n b b0] show ?thesis by (simp add: cbb_buffer_add_u_def)
    qed
  qed
  then show "fst (cbb_buffer_add_u v n b) = False" and "base_error (snd (cbb_buffer_add_u v n b))" by simp_all
qed

subsection \<open>Open children and what they become\<close>

text \<open>
  The bytes a child with contents \<open>c\<close> turns into when it is flushed: a fixed-width big-endian
  length or a DER length, then the contents. \<open>None\<close> is a child that is too long.
\<close>

definition wrap :: "cbb_frame \<Rightarrow> byte list \<Rightarrow> byte list option" where
  "wrap f c =
     (if frame_pending_is_asn1 f
      then (if length c \<le> 0xfffffffe then Some (der_len (length c) @ c) else None)
      else if length c < 256 ^ frame_pending_len_len f
      then Some (be_bytes (frame_pending_len_len f) (length c) @ c) else None)"

definition frame_end :: "cbb_frame \<Rightarrow> nat" where
  "frame_end f = frame_offset f + frame_pending_len_len f"

text \<open>
  \<open>closed cs start fs\<close>: the bytes of the buffer contents \<open>cs\<close> from \<open>start\<close> on, once the
  chain \<open>fs\<close> of open children is closed from the innermost outwards.
\<close>

fun closed :: "byte list \<Rightarrow> nat \<Rightarrow> cbb_frame list \<Rightarrow> byte list option" where
  "closed cs start [] = Some (drop start cs)"
| "closed cs start (f # fs) = (case closed cs (frame_end f) fs of
       None \<Rightarrow> None
     | Some body \<Rightarrow> map_option (\<lambda>w. take (frame_offset f - start) (drop start cs) @ w) (wrap f body))"

fun frames_ok :: "nat \<Rightarrow> cbb_frame list \<Rightarrow> nat \<Rightarrow> bool" where
  "frames_ok start [] len \<longleftrightarrow> start \<le> len"
| "frames_ok start (f # fs) len \<longleftrightarrow> start \<le> frame_offset f \<and> 1 \<le> frame_pending_len_len f
     \<and> frame_pending_len_len f \<le> 3 \<and> (frame_pending_is_asn1 f \<longrightarrow> frame_pending_len_len f = 1)
     \<and> frames_ok (frame_end f) fs len"

lemma frames_ok_le: "frames_ok start fs len \<Longrightarrow> start \<le> len"
  by (induction fs arbitrary: start) (force simp: frame_end_def)+

lemma hd_der_len: "der_len n = hd (der_len n) # be_bytes (der_len_len n) n"
  by (simp add: der_len_def der_len_len_def)

lemma flush_asn1_len_eq:
  "flush_asn1_len n = (if n \<le> 0xfffffffe then Some (1 + der_len_len n, hd (der_len n)) else None)"
  by (auto simp: flush_asn1_len_def der_len_def der_len_len_def byte_of_def)

lemma wrap_length:
  "wrap f c = Some w \<Longrightarrow> (frame_pending_is_asn1 f \<longrightarrow> frame_pending_len_len f = 1) \<Longrightarrow>
   frame_pending_len_len f + length c \<le> length w"
  by (auto simp: wrap_def length_der_len split: if_splits)

lemma flush_prefix_eq:
  assumes "p + n \<le> length (base_buf b)" and "len < 2 ^ 64"
  shows "flush_prefix p n len b =
    (if len < 256 ^ n then (True, b\<lparr>base_buf := mem_write (base_buf b) p (be_bytes n len)\<rparr>)
     else (False, flush_error (b\<lparr>base_buf := mem_write (base_buf b) p (be_bytes n len)\<rparr>)))"
proof -
  have u: "unat (of_nat len :: 64 word) = len" using assms(2) by (intro unat_of_nat_lt) simp
  then have "drop_bit (8 * n) (of_nat len :: 64 word) = 0 \<longleftrightarrow> len < 256 ^ n"
    by (simp only: unat_drop_bits_zero)
  with assms(1) u show ?thesis by (simp add: flush_prefix_def write_be_eq)
qed

text \<open>Closing one child, whose contents \<open>body\<close> are the end of the buffer.\<close>

lemma flush_child_fixed:
  assumes "wf_buffer b" and "buffer_contents b = pre @ pad @ body" and "frame_offset f = length pre"
    and "frame_pending_len_len f = length pad" and "\<not> frame_pending_is_asn1 f"
  shows "flush_child f (length body) b =
    (case wrap f body of
       None \<Rightarrow> (False, snd (flush_child f (length body) b))
     | Some w \<Rightarrow> (True, b\<lparr>base_buf := mem_write (base_buf b) (length pre) (be_bytes (length pad) (length body))\<rparr>))"
    and "wrap f body = Some w \<Longrightarrow>
      holds b (pre @ w) (b\<lparr>base_buf := mem_write (base_buf b) (length pre) (be_bytes (length pad) (length body))\<rparr>)"
proof -
  have len: "base_len b = length pre + length pad + length body"
    using length_buffer_contents [OF assms(1)] assms(2) by simp
  have "length pre + length pad \<le> length (base_buf b)" "length body < 2 ^ 64"
    using len assms(1) by (simp_all add: wf_buffer_def)
  note flush_prefix_eq [OF this]
  then show "flush_child f (length body) b =
    (case wrap f body of
       None \<Rightarrow> (False, snd (flush_child f (length body) b))
     | Some w \<Rightarrow> (True, b\<lparr>base_buf := mem_write (base_buf b) (length pre) (be_bytes (length pad) (length body))\<rparr>))"
    using assms(3-5) by (simp add: flush_child_def wrap_def)
  assume w: "wrap f body = Some w"
  have "holds b (mem_write (buffer_contents b) (length pre) (be_bytes (length pad) (length body)))
      (b\<lparr>base_buf := mem_write (base_buf b) (length pre) (be_bytes (length pad) (length body))\<rparr>)"
    using assms(1) len by (intro holds_rewrite) simp_all
  moreover have "mem_write (buffer_contents b) (length pre) (be_bytes (length pad) (length body)) = pre @ w"
    using w assms(2,4,5) by (simp add: mem_write_def wrap_def split: if_splits)
  ultimately show "holds b (pre @ w)
      (b\<lparr>base_buf := mem_write (base_buf b) (length pre) (be_bytes (length pad) (length body))\<rparr>)"
    by simp
qed

lemma take_mem_write_across:
  "i \<le> length a \<Longrightarrow> take (i + length xs + n) (mem_write a i xs) = take i a @ xs @ take n (drop (i + length xs) a)"
  by (simp add: mem_write_def)

text \<open>The array after the contents have been moved along by \<open>k\<close> bytes and the header written.\<close>

lemma asn1_header_array:
  assumes "length pre + 1 + k + length body \<le> length a" and "take (length pre) a = pre" and "length hs = k"
  shows "take (length pre + 1 + k + length body)
    (mem_write ((mem_write a (length pre + 1 + k) body)[length pre := h]) (length pre + 1) hs) = pre @ h # hs @ body"
proof -
  let ?a = "mem_write a (length pre + 1 + k) body"
  have l: "length ?a = length a" using assms(1) by simp
  have "mem_write (?a[length pre := h]) (length pre + 1) hs = mem_write ?a (length pre) (h # hs)"
    using assms(1,3) l by (simp add: list_update_mem_write mem_write_append [of "length pre" "[h]" hs, simplified])
  moreover have "take (length pre) ?a = pre"
    using assms(1,2) by simp
  moreover have "take (length body) (drop (length pre + 1 + k) ?a) = body"
    using assms(1) by (simp add: mem_write_def)
  moreover have "take (length pre + 1 + k + length body) (mem_write ?a (length pre) (h # hs))
      = take (length pre) ?a @ (h # hs) @ take (length body) (drop (length pre + 1 + k) ?a)"
    using take_mem_write_across [of "length pre" ?a "h # hs" "length body"] assms(1,3) l by simp
  ultimately show ?thesis by simp
qed

lemma flush_child_asn1_ok:
  assumes "wf_buffer b" and "buffer_contents b = pre @ pad @ body" and "frame_offset f = length pre"
    and "frame_pending_len_len f = length pad" and "length pad = 1" and "frame_pending_is_asn1 f"
    and "flush_child f (length body) b = (True, b')"
  shows "\<exists>w. wrap f body = Some w \<and> holds b (pre @ w) b'"
proof -
  let ?n = "length body" and ?k = "der_len_len (length body)" and ?h = "hd (der_len (length body))"
  have len: "base_len b = length pre + 1 + ?n"
    using length_buffer_contents [OF assms(1)] assms(2,5) by simp
  have n: "?n \<le> 0xfffffffe"
    using assms(6,7) by (auto simp: flush_child_def flush_asn1_len_eq split: if_splits)
  then have w: "wrap f body = Some (?h # be_bytes ?k ?n @ body)"
    using assms(6) hd_der_len [of ?n] by (simp add: wrap_def)
  have "holds b (pre @ ?h # be_bytes ?k ?n @ body) b'"
  proof (cases "?k = 0")
    case True
    have "b' = b\<lparr>base_buf := mem_write (base_buf b) (length pre) [?h]\<rparr>"
      using assms(1,3-7) n True len
      by (simp add: flush_child_def flush_asn1_len_eq flush_prefix_def list_update_mem_write wf_buffer_def)
    moreover have "holds b (mem_write (buffer_contents b) (length pre) [?h])
        (b\<lparr>base_buf := mem_write (base_buf b) (length pre) [?h]\<rparr>)"
      using assms(1) len by (intro holds_rewrite) simp_all
    moreover have "mem_write (buffer_contents b) (length pre) [?h] = pre @ ?h # be_bytes ?k ?n @ body"
      using assms(2,5) True by (simp add: mem_write_def)
    ultimately show ?thesis by simp
  next
    case False
    let ?cs = "length pre + 1"
    from assms(3-7) n False obtain b0 where b0: "cbb_buffer_add ?k b = (True, b0)"
      and b': "flush_prefix ?cs ?k ?n (b0\<lparr>base_buf :=
          (mem_write (base_buf b0) (?cs + ?k) (take ?n (drop ?cs (base_buf b0))))[length pre := ?h]\<rparr>) = (True, b')"
      by (auto simp: flush_child_def flush_asn1_len_eq split: prod.splits bool.splits if_splits)
    have k: "?k < 2 ^ 64" by (simp add: der_len_len_def)
    obtain b1 where b1: "holds b (buffer_contents b) b1" "base_len b1 = base_len b" "base_len b + ?k \<le> base_cap b1"
      and b0': "b0 = b1\<lparr>base_len := base_len b + ?k\<rparr>"
      using b0 assms(1) k by (rule cbb_buffer_add_ok)
    let ?a = "base_buf b1"
    have la: "length ?a = base_cap b1" and ca: "take (base_len b) ?a = pre @ pad @ body"
      using b1 assms(2) by (auto simp: holds_def wf_buffer_def buffer_contents_def)
    have room: "?cs + ?k + ?n \<le> length ?a" using b1(3) la len by simp
    have body: "take ?n (drop ?cs ?a) = body"
    proof -
      have "take ?n (drop ?cs ?a) = drop ?cs (take (base_len b) ?a)" by (simp add: len drop_take)
      then show ?thesis using ca assms(5) by simp
    qed
    have pre: "take (length pre) ?a = pre"
    proof -
      have "take (length pre) ?a = take (length pre) (take (base_len b) ?a)" by (simp add: len min_def)
      then show ?thesis using ca by simp
    qed
    let ?a' = "mem_write ((mem_write ?a (?cs + ?k) body)[length pre := ?h]) ?cs (be_bytes ?k ?n)"
    have "b' = b0\<lparr>base_buf := ?a'\<rparr>"
      using b' room n body by (simp add: b0' flush_prefix_eq split: if_splits)
    moreover have "take (?cs + ?k + ?n) ?a' = pre @ ?h # be_bytes ?k ?n @ body"
      using asn1_header_array [of pre ?k body ?a "be_bytes ?k ?n" ?h] room pre by simp
    moreover have "length ?a' = length ?a" using room by simp
    ultimately show ?thesis
      using b1 b0' la room len by (simp add: holds_def wf_buffer_def buffer_contents_def add_ac)
  qed
  with w show ?thesis by simp
qed

lemma flush_child_ok:
  assumes "wf_buffer b" and "buffer_contents b = pre @ pad @ body" and "frame_offset f = length pre"
    and "frame_pending_len_len f = length pad" and "frame_pending_is_asn1 f \<longrightarrow> length pad = 1"
    and "flush_child f (length body) b = (True, b')"
  shows "\<exists>w. wrap f body = Some w \<and> holds b (pre @ w) b'"
proof (cases "frame_pending_is_asn1 f")
  case True
  with assms show ?thesis by (intro flush_child_asn1_ok [of b pre pad]) simp_all
next
  case False
  note fc = flush_child_fixed [OF assms(1-4) False]
  show ?thesis
  proof (cases "wrap f body")
    case None
    with fc(1) assms(6) show ?thesis by simp
  next
    case (Some w)
    with fc assms(6) show ?thesis by simp
  qed
qed

lemma flush_child_total:
  assumes "wf_buffer b" and "buffer_contents b = pre @ pad @ body" and "frame_offset f = length pre"
    and "frame_pending_len_len f = length pad" and "frame_pending_is_asn1 f \<longrightarrow> length pad = 1"
    and "wrap f body = Some w" and "can_hold b (length pre + length w)"
  shows "fst (flush_child f (length body) b)"
proof (cases "frame_pending_is_asn1 f")
  case False
  with flush_child_fixed(1) [OF assms(1-4) False] assms(6) show ?thesis by simp
next
  case True
  let ?n = "length body" and ?k = "der_len_len (length body)"
  have len: "base_len b = length pre + 1 + ?n"
    using length_buffer_contents [OF assms(1)] assms(2,5) True by simp
  have n: "?n \<le> 0xfffffffe" and w: "length w = 1 + ?k + ?n"
    using assms(6) True by (auto simp: wrap_def length_der_len split: if_splits)
  show ?thesis
  proof (cases "?k = 0")
    case k0: True
    then show ?thesis using True n by (simp add: flush_child_def flush_asn1_len_eq flush_prefix_def)
  next
    case False
    have "fst (cbb_buffer_add ?k b)"
      using assms(7) w len by (intro cbb_buffer_add_total) (simp add: algebra_simps)
    then obtain b0 where b0: "cbb_buffer_add ?k b = (True, b0)" by (cases "cbb_buffer_add ?k b") auto
    have k: "?k < 2 ^ 64" by (simp add: der_len_len_def)
    obtain b1 where b1: "holds b (buffer_contents b) b1" "base_len b + ?k \<le> base_cap b1"
      and b0': "b0 = b1\<lparr>base_len := base_len b + ?k\<rparr>"
      using b0 assms(1) k by (rule cbb_buffer_add_ok)
    have "length (base_buf b0) = base_cap b1" using b1 b0' by (simp add: holds_def wf_buffer_def)
    then have room: "length pre + 1 + ?k + ?n \<le> length (base_buf b0)" using b1(2) len by simp
    have lt: "?n < 256 ^ ?k" using der_len_len_bound [of ?n] n False by (auto simp: der_len_len_def)
    let ?cs = "length pre + 1" and ?h = "hd (der_len ?n)"
    let ?bb = "b0\<lparr>base_buf := (mem_write (base_buf b0) (?cs + ?k) (take ?n (drop ?cs (base_buf b0))))[length pre := ?h]\<rparr>"
    have "fst (flush_prefix ?cs ?k ?n ?bb)"
      using room n lt by (subst flush_prefix_eq) simp_all
    then show ?thesis
      using True assms(3-5) n False b0 by (simp add: flush_child_def flush_asn1_len_eq)
  qed
qed

lemma flush_child_fail: "flush_child f n b = (False, b') \<Longrightarrow> base_error b'"
  by (auto simp: flush_child_def flush_prefix_def flush_error_def Let_def split: if_splits option.splits prod.splits bool.splits)

text \<open>
  Flushing: it succeeds exactly when every open child fits its prefix, and then the buffer holds
  what was there with the children closed; a failure poisons the buffer.
\<close>

lemma flush_chain_fail: "cbb_flush_chain b fs = (False, b', fs') \<Longrightarrow> base_error b'"
  by (induction b fs arbitrary: b' fs' rule: cbb_flush_chain.induct)
    (auto simp: Let_def flush_error_def dest: flush_child_fail split: if_splits prod.splits bool.splits)

lemma flush_chain_no_error: "cbb_flush_chain b fs = (True, b', fs') \<Longrightarrow> \<not> base_error b"
  by (cases fs) (auto split: if_splits)

lemma frames_ok_split:
  assumes "frames_ok start (f # fs) (length cs)"
  shows "take (frame_end f) cs = take (frame_offset f) cs @ take (frame_pending_len_len f) (drop (frame_offset f) cs)"
    and "length (take (frame_offset f) cs) = frame_offset f"
    and "length (take (frame_pending_len_len f) (drop (frame_offset f) cs)) = frame_pending_len_len f"
    and "take start cs @ take (frame_offset f - start) (drop start cs) = take (frame_offset f) cs"
  using assms frames_ok_le [of "frame_end f" fs "length cs"]
  by (simp_all add: frame_end_def take_add flip: take_add)

lemma flush_chain_ok:
  "cbb_flush_chain b fs = (True, b', fs') \<Longrightarrow> wf_buffer b \<Longrightarrow> frames_ok start fs (base_len b) \<Longrightarrow>
   fs' = [] \<and> (\<exists>w. closed (buffer_contents b) start fs = Some w \<and> holds b (take start (buffer_contents b) @ w) b')"
proof (induction fs arbitrary: start b' fs')
  case Nil
  then show ?case by (auto simp: holds_self)
next
  case (Cons f fs)
  let ?cs = "buffer_contents b" and ?e = "frame_end f"
  have lcs: "length ?cs = base_len b" using Cons.prems(2) by (rule length_buffer_contents)
  have fok: "frames_ok ?e fs (base_len b)" and pll: "1 \<le> frame_pending_len_len f"
    "frame_pending_is_asn1 f \<longrightarrow> frame_pending_len_len f = 1"
    using Cons.prems(3) by simp_all
  note sp = frames_ok_split [of start f fs ?cs, unfolded lcs, OF Cons.prems(3)]
  have "?e \<le> base_len b" using fok by (rule frames_ok_le)
  then have e: "size_t (frame_offset f + frame_pending_len_len f) = ?e"
    using Cons.prems(2) by (simp add: frame_end_def wf_buffer_def size_t_id)
  from Cons.prems(1) e pll obtain b1 fs1 where b1: "cbb_flush_chain b fs = (True, b1, fs1)"
    and le: "?e \<le> base_len b1"
    and b': "flush_child f (base_len b1 - ?e) b1 = (True, b')" and fs': "fs' = []"
    by (auto simp: Let_def not_less split: if_splits prod.splits bool.splits)
  from Cons.IH [OF b1 Cons.prems(2) fok] obtain body where
    body: "closed ?cs ?e fs = Some body" "holds b (take ?e ?cs @ body) b1" by blast
  have lb: "base_len b1 - ?e = length body"
    using holds_len [OF body(2)] \<open>?e \<le> base_len b\<close> lcs by simp
  have "\<exists>w. wrap f body = Some w \<and> holds b1 (take (frame_offset f) ?cs @ w) b'"
  proof (rule flush_child_ok)
    show "wf_buffer b1" using body(2) by (simp add: holds_def)
    show "buffer_contents b1 = take (frame_offset f) ?cs @ take (frame_pending_len_len f) (drop (frame_offset f) ?cs) @ body"
      using body(2) sp(1) by (simp add: holds_def)
  qed (use sp(2,3) pll b' lb in simp_all)
  then obtain w where w: "wrap f body = Some w" "holds b1 (take (frame_offset f) ?cs @ w) b'" by blast
  have "holds b (take (frame_offset f) ?cs @ w) b'"
    using body(2) w(2) by (rule holds_trans)
  then have "holds b (take start ?cs @ (take (frame_offset f - start) (drop start ?cs) @ w)) b'"
    using sp(4) by (simp flip: append_assoc)
  with body(1) w(1) fs' show ?case by simp
qed

lemma flush_chain_total:
  "\<not> base_error b \<Longrightarrow> wf_buffer b \<Longrightarrow> frames_ok start fs (base_len b) \<Longrightarrow>
   closed (buffer_contents b) start fs = Some w \<Longrightarrow> can_hold b (start + length w) \<Longrightarrow> fst (cbb_flush_chain b fs)"
proof (induction fs arbitrary: start w)
  case Nil
  then show ?case by simp
next
  case (Cons f fs)
  let ?cs = "buffer_contents b" and ?e = "frame_end f"
  have lcs: "length ?cs = base_len b" using Cons.prems(2) by (rule length_buffer_contents)
  have fok: "frames_ok ?e fs (base_len b)" and pll: "1 \<le> frame_pending_len_len f"
    "frame_pending_is_asn1 f \<longrightarrow> frame_pending_len_len f = 1" and so: "start \<le> frame_offset f"
    using Cons.prems(3) by simp_all
  note sp = frames_ok_split [of start f fs ?cs, unfolded lcs, OF Cons.prems(3)]
  have el: "?e \<le> base_len b" using fok by (rule frames_ok_le)
  then have e: "size_t (frame_offset f + frame_pending_len_len f) = ?e"
    using Cons.prems(2) by (simp add: frame_end_def wf_buffer_def size_t_id)
  from Cons.prems(4) obtain body v where body: "closed ?cs ?e fs = Some body" and v: "wrap f body = Some v"
    and w: "w = take (frame_offset f - start) (drop start ?cs) @ v"
    by (auto split: option.splits)
  have lw: "start + length w = frame_offset f + length v"
    using so sp(2) el lcs by (simp add: w frame_end_def)
  have "frame_pending_len_len f + length body \<le> length v"
    using v pll(2) by (rule wrap_length)
  then have "?e + length body \<le> start + length w" by (simp add: lw frame_end_def)
  then have ch: "can_hold b (?e + length body)"
    using Cons.prems(5) by (auto simp: can_hold_def)
  then obtain b1 fs1 where b1: "cbb_flush_chain b fs = (True, b1, fs1)"
    using Cons.IH [OF Cons.prems(1,2) fok body] by (cases "cbb_flush_chain b fs") auto
  have h: "holds b (take ?e ?cs @ body) b1"
    using flush_chain_ok [OF b1 Cons.prems(2) fok] body by auto
  have lb: "base_len b1 = ?e + length body"
    using holds_len [OF h] el lcs by simp
  have "fst (flush_child f (length body) b1)"
  proof (rule flush_child_total)
    show "wf_buffer b1" using h by (simp add: holds_def)
    show "buffer_contents b1 = take (frame_offset f) ?cs @ take (frame_pending_len_len f) (drop (frame_offset f) ?cs) @ body"
      using h sp(1) by (simp add: holds_def)
    show "can_hold b1 (length (take (frame_offset f) ?cs) + length v)"
      using can_hold_mono [OF Cons.prems(5) h] lw sp(2) by simp
  qed (use sp(2,3) pll v in simp_all)
  then obtain b2 where "flush_child f (base_len b1 - ?e) b1 = (True, b2)"
    using lb by (cases "flush_child f (length body) b1") auto
  then show ?case
    using Cons.prems(1) pll(1) e b1 lb by (simp add: frame_end_def)
qed

subsection \<open>What a writer appends\<close>

text \<open>
  \<open>writer_state d s b\<close>: the CBB at depth \<open>d\<close> of \<open>s\<close> is open and its buffer \<open>b\<close> is sound.
  \<open>flushed d s b\<close> is what the buffer holds once the children below \<open>d\<close> are closed.

  \<open>writes d op bs\<close> is the contract of a writing operation on the CBB at depth \<open>d\<close>: when it
  succeeds, it has closed the children below \<open>d\<close> and appended exactly \<open>bs\<close>; when it fails,
  the buffer is poisoned, and every later operation fails; and it does succeed if the children
  fit their prefixes and the buffer can hold the result.
\<close>

definition writer_state :: "nat \<Rightarrow> CBB \<Rightarrow> cbb_buffer \<Rightarrow> bool" where
  "writer_state d s b \<longleftrightarrow> base s = Some b \<and> wf_buffer b \<and> d \<le> length (children s)
     \<and> frames_ok 0 (children s) (base_len b)"

definition flushed :: "nat \<Rightarrow> CBB \<Rightarrow> cbb_buffer \<Rightarrow> byte list option" where
  "flushed d s b = map_option (\<lambda>w. take (CBB_start d s) (buffer_contents b) @ w)
     (closed (buffer_contents b) (CBB_start d s) (drop d (children s)))"

definition poisoned :: "CBB \<Rightarrow> bool" where
  "poisoned s \<longleftrightarrow> (\<exists>b. base s = Some b \<and> base_error b)"

definition after_write :: "nat \<Rightarrow> CBB \<Rightarrow> cbb_buffer \<Rightarrow> CBB" where
  "after_write d s b' = s\<lparr>base := Some b', children := take d (children s)\<rparr>"

definition writes :: "nat \<Rightarrow> CBB step \<Rightarrow> byte list \<Rightarrow> bool" where
  "writes d op bs \<longleftrightarrow> (\<forall>s b. writer_state d s b \<longrightarrow>
     (\<forall>s'. op s = (True, s') \<longrightarrow> \<not> base_error b \<and>
        (\<exists>cs b'. flushed d s b = Some cs \<and> s' = after_write d s b' \<and> holds b (cs @ bs) b')) \<and>
     (\<forall>s'. op s = (False, s') \<longrightarrow> poisoned s') \<and>
     (\<forall>cs. flushed d s b = Some cs \<longrightarrow> \<not> base_error b \<longrightarrow> can_hold b (length cs + length bs) \<longrightarrow> fst (op s)))"

lemma writes_ok:
  assumes "writes d op bs" and "op s = (True, s')" and "writer_state d s b"
  obtains cs b' where "flushed d s b = Some cs" and "s' = after_write d s b'" and "holds b (cs @ bs) b'"
    and "\<not> base_error b"
  using assms unfolding writes_def by blast

lemma writes_total:
  assumes "writes d op bs" and "writer_state d s b" and "flushed d s b = Some cs" and "\<not> base_error b"
    and "can_hold b (length cs + length bs)"
  shows "fst (op s)"
  using assms unfolding writes_def by blast

lemma writes_fail: "writes d op bs \<Longrightarrow> op s = (False, s') \<Longrightarrow> writer_state d s b \<Longrightarrow> poisoned s'"
  unfolding writes_def by blast

text \<open>A poisoned buffer stays poisoned: every writer fails on it.\<close>

lemma writes_latched:
  assumes "writes d op bs" and "writer_state d s b" and "base_error b"
  shows "\<not> fst (op s) \<and> poisoned (snd (op s))"
  using assms unfolding writes_def by (cases "op s") (cases "fst (op s)"; fastforce)

lemma frames_ok_append:
  "frames_ok start (xs @ ys) len \<longleftrightarrow> frames_ok start xs (if xs = [] then start else frame_end (last xs))
     \<and> frames_ok (if xs = [] then start else frame_end (last xs)) ys len"
  by (induction xs arbitrary: start) auto

lemma CBB_start_last: "d \<le> length (children s) \<Longrightarrow>
  CBB_start d s = (if take d (children s) = [] then 0 else frame_end (last (take d (children s))))"
  by (cases d) (auto simp: CBB_start_def frame_end_def last_conv_nth)

lemma writer_state_frames:
  assumes "writer_state d s b"
  shows "frames_ok 0 (take d (children s)) (CBB_start d s)"
    and "frames_ok (CBB_start d s) (drop d (children s)) (base_len b)"
proof -
  have d: "d \<le> length (children s)" and "frames_ok 0 (take d (children s) @ drop d (children s)) (base_len b)"
    using assms by (simp_all add: writer_state_def)
  then show "frames_ok 0 (take d (children s)) (CBB_start d s)"
    and "frames_ok (CBB_start d s) (drop d (children s)) (base_len b)"
    unfolding frames_ok_append CBB_start_last [OF d] by simp_all
qed

lemma CBB_start_after_write [simp]:
  assumes "d \<le> length (children s)"
  shows "CBB_start d (after_write d s b') = CBB_start d s"
  using assms by (auto simp: CBB_start_def after_write_def)

lemma frames_ok_mono: "frames_ok start fs len \<Longrightarrow> len \<le> len' \<Longrightarrow> frames_ok start fs len'"
  by (induction fs arbitrary: start) auto

lemma writer_state_start:
  assumes "writer_state d s b"
  shows "CBB_start d s \<le> length (buffer_contents b)"
  using frames_ok_le [OF writer_state_frames(2) [OF assms]] assms
  by (simp add: writer_state_def length_buffer_contents)

lemma flushed_start: "writer_state d s b \<Longrightarrow> flushed d s b = Some cs \<Longrightarrow> CBB_start d s \<le> length cs"
  using writer_state_start [of d s b] by (auto simp: flushed_def)

text \<open>After a write at depth \<open>d\<close> nothing is open below \<open>d\<close>.\<close>

lemma writer_state_after_write:
  assumes "writer_state d s b" and "holds b cs b'" and "CBB_start d s \<le> length cs"
  shows "writer_state d (after_write d s b') b'" and "flushed d (after_write d s b') b' = Some cs"
proof -
  have d: "d \<le> length (children s)" using assms(1) by (simp add: writer_state_def)
  have "frames_ok 0 (take d (children s)) (base_len b')"
    using writer_state_frames(1) [OF assms(1)] assms(3) holds_len [OF assms(2)] by (auto intro: frames_ok_mono)
  with d assms(2) show "writer_state d (after_write d s b') b'"
    by (simp add: writer_state_def after_write_def holds_def)
  show "flushed d (after_write d s b') b' = Some cs"
    using d assms(2) by (simp add: flushed_def) (simp add: after_write_def holds_def)
qed

lemma after_write_idem: "after_write d (after_write d s b1) b2 = after_write d s b2"
  by (simp add: after_write_def)

lemma writes_flush: "writes d (CBB_flush d) []"
  unfolding writes_def
proof (intro allI impI conjI)
  fix s b s' assume st: "writer_state d s b" and op: "CBB_flush d s = (True, s')"
  have wf: "wf_buffer b" and b: "base s = Some b" and d: "d \<le> length (children s)"
    using st by (simp_all add: writer_state_def)
  obtain b' fs' where ch: "cbb_flush_chain b (drop d (children s)) = (True, b', fs')"
    and s': "s' = s\<lparr>base := Some b', children := take d (children s) @ fs'\<rparr>"
    using op b d by (auto simp: CBB_flush_def not_less split: if_splits prod.splits)
  show "\<not> base_error b" using ch by (rule flush_chain_no_error)
  show "\<exists>cs b'. flushed d s b = Some cs \<and> s' = after_write d s b' \<and> holds b (cs @ []) b'"
    using flush_chain_ok [OF ch wf writer_state_frames(2) [OF st]] s'
    by (auto simp: flushed_def after_write_def)
next
  fix s b s' assume "writer_state d s b" and "CBB_flush d s = (False, s')"
  then show "poisoned s'"
    by (auto simp: writer_state_def poisoned_def CBB_flush_def dest: flush_chain_fail split: if_splits prod.splits)
next
  fix s b cs
  assume st: "writer_state d s b" and fl: "flushed d s b = Some cs" and "\<not> base_error b" and "can_hold b (length cs + length [])"
  moreover obtain w where "closed (buffer_contents b) (CBB_start d s) (drop d (children s)) = Some w"
    and cs: "cs = take (CBB_start d s) (buffer_contents b) @ w"
    using fl by (auto simp: flushed_def)
  moreover have "length cs = CBB_start d s + length w"
    using writer_state_start [OF st] by (simp add: cs)
  ultimately have "fst (cbb_flush_chain b (drop d (children s)))"
    using writer_state_frames(2) [OF st] by (intro flush_chain_total) (simp_all add: writer_state_def)
  then show "fst (CBB_flush d s)"
    using st by (auto simp: CBB_flush_def writer_state_def split: prod.splits)
qed

lemma writes_seq:
  assumes "writes d f xs" and "writes d g ys"
  shows "writes d (and_also f g) (xs @ ys)"
  unfolding writes_def
proof (intro allI impI conjI)
  fix s b s' assume st: "writer_state d s b" and "and_also f g s = (True, s')"
  then obtain u where u: "f s = (True, u)" and s': "g u = (True, s')" by (auto simp: and_also_True_iff)
  obtain cs b1 where 1: "flushed d s b = Some cs" "u = after_write d s b1" "holds b (cs @ xs) b1" "\<not> base_error b"
    using assms(1) u st by (rule writes_ok)
  have "CBB_start d s \<le> length (cs @ xs)" using flushed_start [OF st 1(1)] by simp
  note 2 = writer_state_after_write [OF st 1(3) this, folded 1(2)]
  obtain b2 where 3: "s' = after_write d u b2" "holds b1 ((cs @ xs) @ ys) b2"
    using assms(2) s' 2(1) by (rule writes_ok) (use 2(2) in auto)
  show "\<not> base_error b" by (rule 1(4))
  show "\<exists>cs b'. flushed d s b = Some cs \<and> s' = after_write d s b' \<and> holds b (cs @ xs @ ys) b'"
    using 1 3 holds_trans [OF 1(3) 3(2)] by (auto simp: after_write_idem)
next
  fix s b s' assume st: "writer_state d s b" and op: "and_also f g s = (False, s')"
  show "poisoned s'"
  proof (cases "f s")
    case (Pair ok u)
    show ?thesis
    proof (cases ok)
      case True
      with Pair op have u: "f s = (True, u)" and g: "g u = (False, s')" by (simp_all add: and_also_def)
      obtain cs b1 where 1: "flushed d s b = Some cs" "u = after_write d s b1" "holds b (cs @ xs) b1"
        using assms(1) u st by (rule writes_ok)
      have "CBB_start d s \<le> length (cs @ xs)" using flushed_start [OF st 1(1)] by simp
      note 2 = writer_state_after_write [OF st 1(3) this, folded 1(2)]
      show ?thesis using assms(2) g 2(1) by (rule writes_fail)
    next
      case False
      with Pair op have "f s = (False, s')" by (simp add: and_also_def)
      with assms(1) show ?thesis using st by (rule writes_fail)
    qed
  qed
next
  fix s b cs
  assume st: "writer_state d s b" and fl: "flushed d s b = Some cs" and ne: "\<not> base_error b"
    and ch: "can_hold b (length cs + length (xs @ ys))"
  have "fst (f s)" using assms(1) st fl ne ch by (rule_tac writes_total) (auto simp: can_hold_def)
  then obtain u where u: "f s = (True, u)" by (cases "f s") auto
  obtain b1 where 1: "u = after_write d s b1" "holds b (cs @ xs) b1"
    using assms(1) u st by (rule writes_ok) (simp add: fl)
  have "CBB_start d s \<le> length (cs @ xs)" using flushed_start [OF st fl] by simp
  note 2 = writer_state_after_write [OF st 1(2) this, folded 1(1)]
  have "fst (g u)"
    using assms(2) 2
  proof (rule writes_total)
    show "\<not> base_error b1" using ne 1(2) by (simp add: holds_def)
    show "can_hold b1 (length (cs @ xs) + length ys)" using ch 1(2) by (rule can_hold_mono) simp
  qed
  with u show "fst (and_also f g s)" by (simp add: and_also_step)
qed

text \<open>A buffer operation that appends bytes, on an already flushed CBB.\<close>

lemma writes_flush_then:
  assumes ok: "\<And>b b'. wf_buffer b \<Longrightarrow> f b = (True, b') \<Longrightarrow> holds b (buffer_contents b @ bs) b'"
    and fail: "\<And>b b'. wf_buffer b \<Longrightarrow> f b = (False, b') \<Longrightarrow> base_error b'"
    and total: "\<And>b. wf_buffer b \<Longrightarrow> can_hold b (base_len b + length bs) \<Longrightarrow> fst (f b)"
  shows "writes d (and_also (CBB_flush d) (on_base f)) bs"
  unfolding writes_def
proof (intro allI impI conjI)
  fix s b s' assume st: "writer_state d s b" and "and_also (CBB_flush d) (on_base f) s = (True, s')"
  then obtain u where u: "CBB_flush d s = (True, u)" and s': "on_base f u = (True, s')" by (auto simp: and_also_True_iff)
  obtain cs b1 where 1: "flushed d s b = Some cs" "u = after_write d s b1" "holds b (cs @ []) b1" "\<not> base_error b"
    using writes_flush u st by (rule writes_ok)
  from s' 1(2) obtain b' where b': "f b1 = (True, b')" "s' = after_write d s b'"
    by (auto simp: on_base_def after_write_def split: prod.splits)
  have "holds b1 (buffer_contents b1 @ bs) b'"
    using 1(3) b'(1) by (intro ok) (simp_all add: holds_def)
  with 1(3) have "holds b (cs @ bs) b'" by (auto simp: holds_def)
  with 1 b'(2) show "\<not> base_error b" "\<exists>cs b'. flushed d s b = Some cs \<and> s' = after_write d s b' \<and> holds b (cs @ bs) b'" by blast+
next
  fix s b s' assume st: "writer_state d s b" and op: "and_also (CBB_flush d) (on_base f) s = (False, s')"
  show "poisoned s'"
  proof (cases "CBB_flush d s")
    case (Pair fl u)
    show ?thesis
    proof (cases fl)
      case True
      with Pair have u: "CBB_flush d s = (True, u)" by simp
      obtain cs b1 where 1: "u = after_write d s b1" "holds b (cs @ []) b1"
        using writes_flush u st by (rule writes_ok)
      with op u obtain b' where "f b1 = (False, b')" "base s' = Some b'"
        by (auto simp: and_also_def on_base_def after_write_def split: prod.splits)
      then show ?thesis using fail [of b1 b'] 1(2) by (auto simp: poisoned_def holds_def)
    next
      case False
      with Pair op have "CBB_flush d s = (False, s')" by (simp add: and_also_def)
      with writes_flush show ?thesis using st by (rule writes_fail)
    qed
  qed
next
  fix s b cs
  assume st: "writer_state d s b" and fl: "flushed d s b = Some cs" and ne: "\<not> base_error b"
    and ch: "can_hold b (length cs + length bs)"
  have "fst (CBB_flush d s)"
    using writes_flush st fl ne by (rule writes_total) (use ch in \<open>auto simp: can_hold_def\<close>)
  then obtain u where u: "CBB_flush d s = (True, u)" by (cases "CBB_flush d s") auto
  obtain b1 where 1: "u = after_write d s b1" "holds b cs b1"
    using writes_flush u st by (rule writes_ok) (simp add: fl)
  have "fst (f b1)"
  proof (rule total)
    show "wf_buffer b1" using 1(2) by (simp add: holds_def)
    show "can_hold b1 (base_len b1 + length bs)"
      using can_hold_mono [OF ch 1(2)] holds_len [OF 1(2)] by simp
  qed
  with u 1(1) show "fst (and_also (CBB_flush d) (on_base f) s)"
    by (auto simp: and_also_step on_base_def after_write_def split: prod.splits)
qed

lemma writes_put:
  assumes "length bs < 2 ^ 64"
  shows "writes d (and_also (CBB_flush d) (on_base (cbb_buffer_put bs))) bs"
  using assms
  by (intro writes_flush_then) (auto simp: cbb_buffer_put_ok cbb_buffer_put_total dest: cbb_buffer_put_fail)

lemma writes_add_u:
  assumes "unat v < 256 ^ n" and "n < 2 ^ 64"
  shows "writes d (and_also (CBB_flush d) (on_base (cbb_buffer_add_u v n))) (be_bytes n (unat v))"
proof (rule writes_flush_then)
  fix b assume "wf_buffer b"
  note eq = cbb_buffer_add_u_put [OF this assms]
  show "cbb_buffer_add_u v n b = (True, b') \<Longrightarrow> holds b (buffer_contents b @ be_bytes n (unat v)) b'" for b'
    using \<open>wf_buffer b\<close> assms(2) eq by (simp add: cbb_buffer_put_ok)
  show "cbb_buffer_add_u v n b = (False, b') \<Longrightarrow> base_error b'" for b'
    using eq by (auto dest: cbb_buffer_put_fail)
  show "can_hold b (base_len b + length (be_bytes n (unat v))) \<Longrightarrow> fst (cbb_buffer_add_u v n b)"
    using eq by (simp add: cbb_buffer_put_total)
qed

lemma writes_CBB_add_bytes: "length bs < 2 ^ 64 \<Longrightarrow> writes d (CBB_add_bytes bs d) bs"
  by (simp add: CBB_add_bytes_def writes_put)

lemma unat_ucast_widen:
  "LENGTH('a) \<le> LENGTH('b) \<Longrightarrow> unat (ucast (v :: 'a :: len word) :: 'b :: len word) = unat v"
  using less_le_trans [OF unsigned_less [of v, where ?'a = nat], of "2 ^ LENGTH('b)"]
  by (simp add: unsigned_ucast_eq take_bit_nat_eq_self)

lemma writes_CBB_add_u8: "writes d (CBB_add_u8 v d) [v]"
  using writes_add_u [of "ucast v" 1 d] by (simp add: CBB_add_u8_def)

lemma writes_CBB_add_u16: "writes d (CBB_add_u16 v d) (be_bytes 2 (unat v))"
proof -
  have "unat v < 256 ^ 2" using unsigned_less [of v, where ?'a = nat] by simp
  then show ?thesis
    using writes_add_u [of "ucast v" 2 d] by (simp add: CBB_add_u16_def unat_ucast_widen)
qed

lemma writes_CBB_add_u24: "unat v < 256 ^ 3 \<Longrightarrow> writes d (CBB_add_u24 v d) (be_bytes 3 (unat v))"
  using writes_add_u [of "ucast v" 3 d] by (simp add: CBB_add_u24_def unat_ucast_widen)

lemma writes_CBB_add_u32: "writes d (CBB_add_u32 v d) (be_bytes 4 (unat v))"
proof -
  have "unat v < 256 ^ 4" using unsigned_less [of v, where ?'a = nat] by simp
  then show ?thesis
    using writes_add_u [of "ucast v" 4 d] by (simp add: CBB_add_u32_def unat_ucast_widen)
qed

lemma writes_CBB_add_u64: "writes d (CBB_add_u64 v d) (be_bytes 8 (unat v))"
proof -
  have "unat v < 256 ^ 8" using unsigned_less [of v, where ?'a = nat] by simp
  then show ?thesis
    using writes_add_u [of v 8 d] by (simp add: CBB_add_u64_def)
qed

subsection \<open>Children\<close>

text \<open>
  \<open>opens d op hdr n a\<close>: the operation writes \<open>hdr\<close> and opens a child of the CBB at depth
  \<open>d\<close> with a pending prefix of \<open>n\<close> bytes. \<open>child_frame\<close> is that child.
\<close>

definition child_frame :: "nat \<Rightarrow> nat \<Rightarrow> bool \<Rightarrow> cbb_frame" where
  "child_frame off n a = \<lparr>frame_offset = off, frame_pending_len_len = n, frame_pending_is_asn1 = a\<rparr>"

definition opens :: "nat \<Rightarrow> CBB step \<Rightarrow> byte list \<Rightarrow> nat \<Rightarrow> bool \<Rightarrow> bool" where
  "opens d op hdr n a \<longleftrightarrow> (\<forall>s b. writer_state d s b \<longrightarrow>
     (\<forall>s'. op s = (True, s') \<longrightarrow> \<not> base_error b \<and>
        (\<exists>cs b'. flushed d s b = Some cs \<and> holds b (cs @ hdr @ replicate n 0) b' \<and>
           s' = after_write d s b'\<lparr>children := take d (children s) @ [child_frame (length cs + length hdr) n a]\<rparr>)) \<and>
     (\<forall>s'. op s = (False, s') \<longrightarrow> poisoned s') \<and>
     (\<forall>cs. flushed d s b = Some cs \<longrightarrow> \<not> base_error b \<longrightarrow> can_hold b (length cs + length hdr + n) \<longrightarrow> fst (op s)))"

lemma opens_ok:
  assumes "opens d op hdr n a" and "op s = (True, s')" and "writer_state d s b"
  obtains cs b' where "flushed d s b = Some cs" and "holds b (cs @ hdr @ replicate n 0) b'"
    and "s' = after_write d s b'\<lparr>children := take d (children s) @ [child_frame (length cs + length hdr) n a]\<rparr>"
    and "\<not> base_error b"
  using assms unfolding opens_def by blast

lemma opens_intro:
  assumes f: "writes d f hdr" and g: "writes d g (replicate n 0)"
    and op: "\<And>s b. writer_state d s b \<Longrightarrow> op s = (case f s of (False, s1) \<Rightarrow> (False, s1)
      | (True, s1) \<Rightarrow> (case g s1 of (False, s2) \<Rightarrow> (False, s2)
         | (True, s2) \<Rightarrow> (True, cbb_open_child d (cbb_base_len s1) n a s2)))"
  shows "opens d op hdr n a"
  unfolding opens_def
proof (intro allI impI conjI)
  note fg = writes_seq [OF f g]
  fix s b s' assume st: "writer_state d s b" and "op s = (True, s')"
  then obtain s1 s2 where s1: "f s = (True, s1)" and s2: "g s1 = (True, s2)"
    and s': "s' = cbb_open_child d (cbb_base_len s1) n a s2"
    by (auto simp: op [OF st] split: prod.splits bool.splits)
  obtain cs b1 where 1: "flushed d s b = Some cs" "s1 = after_write d s b1" "holds b (cs @ hdr) b1" "\<not> base_error b"
    using f s1 st by (rule writes_ok)
  have "and_also f g s = (True, s2)" using s1 s2 by (simp add: and_also_step)
  with fg obtain b2 where 2: "s2 = after_write d s b2" "holds b (cs @ hdr @ replicate n 0) b2"
    using st by (rule writes_ok) (use 1(1) in auto)
  have "cbb_base_len s1 = length cs + length hdr"
    using holds_len [OF 1(3)] by (simp add: 1(2) cbb_base_len_def after_write_def)
  then have "s' = after_write d s b2\<lparr>children := take d (children s) @ [child_frame (length cs + length hdr) n a]\<rparr>"
    by (simp add: s' 2(1) cbb_open_child_def child_frame_def after_write_def)
  with 1 2 show "\<not> base_error b" "\<exists>cs b'. flushed d s b = Some cs \<and> holds b (cs @ hdr @ replicate n 0) b' \<and>
      s' = after_write d s b'\<lparr>children := take d (children s) @ [child_frame (length cs + length hdr) n a]\<rparr>"
    by blast+
next
  note fg = writes_seq [OF f g]
  fix s b s' assume st: "writer_state d s b" and "op s = (False, s')"
  then have "and_also f g s = (False, s')"
    by (auto simp: op [OF st] and_also_def split: prod.splits bool.splits)
  with fg show "poisoned s'" using st by (rule writes_fail)
next
  note fg = writes_seq [OF f g]
  fix s b cs
  assume st: "writer_state d s b" and "flushed d s b = Some cs" "\<not> base_error b"
    and "can_hold b (length cs + length hdr + n)"
  with fg have "fst (and_also f g s)" by (intro writes_total) (auto simp: add.assoc)
  then show "fst (op s)" by (auto simp: op [OF st] and_also_def split: prod.splits bool.splits if_splits)
qed

text \<open>The state inside a freshly opened child.\<close>

lemma writer_state_child:
  assumes st: "writer_state d s b" and h: "holds b (cs @ hdr @ replicate n 0) b'"
    and cs: "flushed d s b = Some cs" and n: "1 \<le> n" "n \<le> 3" "a \<longrightarrow> n = 1"
    and t: "t = after_write d s b'\<lparr>children := take d (children s) @ [child_frame (length cs + length hdr) n a]\<rparr>"
  shows "writer_state (d + 1) t b'" and "flushed (d + 1) t b' = Some (cs @ hdr @ replicate n 0)"
    and "CBB_start (d + 1) t = length cs + length hdr + n"
    and "holds b (cs @ hdr @ replicate n 0 @ body) b2 \<Longrightarrow> writer_state d (after_write (d + 1) t b2) b2"
    and "holds b (cs @ hdr @ replicate n 0 @ body) b2 \<Longrightarrow> wrap (child_frame 0 n a) body = w \<Longrightarrow>
      flushed d (after_write (d + 1) t b2) b2 = map_option (\<lambda>w. cs @ hdr @ w) w"
proof -
  let ?f = "child_frame (length cs + length hdr) n a"
  have d: "d \<le> length (children s)" using st by (simp add: writer_state_def)
  have ch: "children t = take d (children s) @ [?f]" by (simp add: t)
  have lt: "length (take d (children s)) = d" using d by simp
  have sc: "CBB_start d s \<le> length cs" using st cs by (rule flushed_start)
  have f0: "frames_ok 0 (take d (children s)) (CBB_start d s)" using st by (rule writer_state_frames)
  have dn: "take d (children s) = [] \<longleftrightarrow> d = 0" using d by auto
  have fok: "frames_ok 0 (take d (children s) @ [?f]) len" if "length cs + length hdr + n \<le> len" for len
    using f0 sc n that unfolding frames_ok_append CBB_start_last [OF d]
    by (auto simp: child_frame_def frame_end_def)
  have fe: "frame_end ?f = length cs + length hdr + n" by (simp add: frame_end_def child_frame_def)
  show st1: "CBB_start (d + 1) t = length cs + length hdr + n"
    using lt by (simp add: CBB_start_def ch nth_append child_frame_def)
  have dt: "CBB_start d t = CBB_start d s"
    using lt by (auto simp: CBB_start_def ch nth_append)
  have bt: "base t = Some b'" by (simp add: t after_write_def)
  show "writer_state (d + 1) t b'"
    using h d bt holds_len [OF h] fok [of "base_len b'"] by (simp add: writer_state_def ch holds_def)
  show "flushed (d + 1) t b' = Some (cs @ hdr @ replicate n 0)"
    unfolding flushed_def st1 using h lt by (simp add: ch holds_def)
  assume h2: "holds b (cs @ hdr @ replicate n 0 @ body) b2"
  let ?t2 = "after_write (d + 1) t b2"
  have t2: "base ?t2 = Some b2" "children ?t2 = take d (children s) @ [?f]"
    using lt by (simp_all add: after_write_def ch)
  show "writer_state d ?t2 b2"
    using h2 d holds_len [OF h2] fok [of "base_len b2"] by (simp add: writer_state_def t2 [simplified] holds_def)
  have st2: "CBB_start d ?t2 = CBB_start d s"
    using lt by (auto simp: CBB_start_def t2 [simplified] nth_append)
  have "take (CBB_start d s) cs @ take (length cs + length hdr - CBB_start d s) (drop (CBB_start d s) cs @ hdr @ x)
      = cs @ hdr" for x
    using sc by simp
  moreover assume "wrap (child_frame 0 n a) body = w"
  then have "wrap ?f body = w" by (simp only: wrap_def child_frame_def cbb_frame.simps)
  moreover have "buffer_contents b2 = cs @ hdr @ replicate n 0 @ body" using h2 by (simp add: holds_def)
  ultimately show "flushed d ?t2 b2 = map_option (\<lambda>w. cs @ hdr @ w) w"
    unfolding flushed_def st2 using lt sc
    by (cases w) (simp_all add: t2 [simplified] fe, simp add: child_frame_def)
qed

text \<open>Open a child, write its contents, close it.\<close>

lemma writes_child:
  assumes op: "opens d op hdr n a" and body: "writes (d + 1) g body"
    and n: "1 \<le> n" "n \<le> 3" "a \<longrightarrow> n = 1" and w: "wrap (child_frame 0 n a) body = Some w"
  shows "writes d (and_also op (and_also g (CBB_flush d))) (hdr @ w)"
  unfolding writes_def
proof (intro allI impI conjI)
  fix s b s' assume st: "writer_state d s b" and "and_also op (and_also g (CBB_flush d)) s = (True, s')"
  then obtain s1 s2 where s1: "op s = (True, s1)" and s2: "g s1 = (True, s2)" and s': "CBB_flush d s2 = (True, s')"
    by (auto simp: and_also_True_iff)
  obtain cs b1 where 1: "flushed d s b = Some cs" "holds b (cs @ hdr @ replicate n 0) b1"
    "s1 = after_write d s b1\<lparr>children := take d (children s) @ [child_frame (length cs + length hdr) n a]\<rparr>"
    "\<not> base_error b"
    using op s1 st by (rule opens_ok)
  note c = writer_state_child [OF st 1(2,1) n 1(3)]
  obtain b2 where 2: "s2 = after_write (d + 1) s1 b2" "holds b1 ((cs @ hdr @ replicate n 0) @ body) b2"
    using body s2 c(1) by (rule writes_ok) (use c(2) in auto)
  have h2: "holds b (cs @ hdr @ replicate n 0 @ body) b2" using holds_trans [OF 1(2) 2(2)] by simp
  obtain b3 where 3: "s' = after_write d s2 b3" "holds b2 (cs @ hdr @ w) b3"
    using writes_flush s' c(4) [OF h2, folded 2(1)] by (rule writes_ok) (use c(5) [OF h2 w] 2(1) in auto)
  have "s' = after_write d s b3"
    using st by (simp add: 3(1) 2(1) 1(3) after_write_def writer_state_def)
  with 1(1,4) holds_trans [OF h2 3(2)]
  show "\<not> base_error b" "\<exists>cs b'. flushed d s b = Some cs \<and> s' = after_write d s b' \<and> holds b (cs @ hdr @ w) b'" by blast+
next
  fix s b s' assume st: "writer_state d s b" and op': "and_also op (and_also g (CBB_flush d)) s = (False, s')"
  show "poisoned s'"
  proof (cases "fst (op s)")
    case False
    with op' have "op s = (False, s')" by (cases "op s") (simp add: and_also_def)
    then show ?thesis using op st by (auto simp: opens_def)
  next
    case True
    then obtain s1 where s1: "op s = (True, s1)" by (cases "op s") auto
    obtain cs b1 where 1: "flushed d s b = Some cs" "holds b (cs @ hdr @ replicate n 0) b1"
      "s1 = after_write d s b1\<lparr>children := take d (children s) @ [child_frame (length cs + length hdr) n a]\<rparr>"
      using op s1 st by (rule opens_ok)
    note c = writer_state_child [OF st 1(2,1) n 1(3)]
    show ?thesis
    proof (cases "fst (g s1)")
      case False
      with op' s1 have "g s1 = (False, s')" by (cases "g s1") (simp add: and_also_def)
      with body show ?thesis using c(1) by (rule writes_fail)
    next
      case True
      then obtain s2 where s2: "g s1 = (True, s2)" by (cases "g s1") auto
      obtain b2 where 2: "s2 = after_write (d + 1) s1 b2" "holds b1 ((cs @ hdr @ replicate n 0) @ body) b2"
        using body s2 c(1) by (rule writes_ok) (use c(2) in auto)
      have h2: "holds b (cs @ hdr @ replicate n 0 @ body) b2" using holds_trans [OF 1(2) 2(2)] by simp
      have "CBB_flush d s2 = (False, s')" using op' s1 s2 by (simp add: and_also_step)
      with writes_flush show ?thesis using c(4) [OF h2, folded 2(1)] by (rule writes_fail)
    qed
  qed
next
  fix s b cs
  assume st: "writer_state d s b" and fl: "flushed d s b = Some cs" and ne: "\<not> base_error b"
    and ch: "can_hold b (length cs + length (hdr @ w))"
  have lw: "n + length body \<le> length w"
    using wrap_length [OF w] n(3) by (simp add: child_frame_def)
  have "can_hold b (length cs + length hdr + n)" using ch lw by (auto simp: can_hold_def)
  then obtain s1 where s1: "op s = (True, s1)"
    using op st fl ne unfolding opens_def by (cases "op s") fastforce
  obtain b1 where 1: "holds b (cs @ hdr @ replicate n 0) b1"
    "s1 = after_write d s b1\<lparr>children := take d (children s) @ [child_frame (length cs + length hdr) n a]\<rparr>"
    using op s1 st by (rule opens_ok) (use fl in auto)
  note c = writer_state_child [OF st 1(1) fl n 1(2)]
  have "fst (g s1)"
    using body c(1,2)
  proof (rule writes_total)
    show "\<not> base_error b1" using ne 1(1) by (simp add: holds_def)
    show "can_hold b1 (length (cs @ hdr @ replicate n 0) + length body)"
      using ch 1(1) by (rule can_hold_mono) (use lw in simp)
  qed
  then obtain s2 where s2: "g s1 = (True, s2)" by (cases "g s1") auto
  obtain b2 where 2: "s2 = after_write (d + 1) s1 b2" "holds b1 ((cs @ hdr @ replicate n 0) @ body) b2"
    using body s2 c(1) by (rule writes_ok) (use c(2) in auto)
  have h2: "holds b (cs @ hdr @ replicate n 0 @ body) b2" using holds_trans [OF 1(1) 2(2)] by simp
  have "fst (CBB_flush d s2)"
    using writes_flush c(4) [OF h2, folded 2(1)]
  proof (rule writes_total)
    show "flushed d s2 b2 = Some (cs @ hdr @ w)" using c(5) [OF h2 w] by (simp add: 2(1))
    show "\<not> base_error b2" using ne h2 by (simp add: holds_def)
    show "can_hold b2 (length (cs @ hdr @ w) + length [])" using ch h2 by (rule can_hold_mono) simp
  qed
  with s1 s2 show "fst (and_also op (and_also g (CBB_flush d)) s)" by (simp add: and_also_step)
qed

text \<open>A child that is too long for its prefix is refused when it is closed.\<close>

lemma child_too_long:
  assumes op: "opens d op hdr n a" and body: "writes (d + 1) g body"
    and n: "1 \<le> n" "n \<le> 3" "a \<longrightarrow> n = 1" and w: "wrap (child_frame 0 n a) body = None"
    and st: "writer_state d s b"
  shows "\<not> fst (and_also op (and_also g (CBB_flush d)) s)"
proof
  assume "fst (and_also op (and_also g (CBB_flush d)) s)"
  then obtain s' where "and_also op (and_also g (CBB_flush d)) s = (True, s')"
    by (cases "and_also op (and_also g (CBB_flush d)) s") auto
  then obtain s1 s2 where s1: "op s = (True, s1)" and s2: "g s1 = (True, s2)" and s': "CBB_flush d s2 = (True, s')"
    by (auto simp: and_also_True_iff)
  obtain cs b1 where 1: "flushed d s b = Some cs" "holds b (cs @ hdr @ replicate n 0) b1"
    "s1 = after_write d s b1\<lparr>children := take d (children s) @ [child_frame (length cs + length hdr) n a]\<rparr>"
    using op s1 st by (rule opens_ok)
  note c = writer_state_child [OF st 1(2,1) n 1(3)]
  obtain b2 where 2: "s2 = after_write (d + 1) s1 b2" "holds b1 ((cs @ hdr @ replicate n 0) @ body) b2"
    using body s2 c(1) by (rule writes_ok) (use c(2) in auto)
  have h2: "holds b (cs @ hdr @ replicate n 0 @ body) b2" using holds_trans [OF 1(2) 2(2)] by simp
  obtain cs' where "flushed d s2 b2 = Some cs'"
    using writes_flush s' c(4) [OF h2, folded 2(1)] by (rule writes_ok)
  with c(5) [OF h2 w] show False by (simp add: 2(1))
qed

lemma CBB_flush_closed:
  assumes "holds b cs b'" and "\<not> base_error b" and "d \<le> length (children s)"
  shows "CBB_flush d (after_write d s b') = (True, after_write d s b')"
  using assms by (simp add: CBB_flush_def after_write_def holds_def)

lemma opens_length_prefixed:
  assumes "n < 2 ^ 64"
  shows "opens d (cbb_add_length_prefixed n d) [] n False"
proof (rule opens_intro [OF writes_flush writes_put])
  show "length (replicate n (0 :: byte)) < 2 ^ 64" using assms by simp
  fix s b assume st: "writer_state d s b"
  have "and_also (CBB_flush d) (on_base f) s' = on_base f s'" if flush: "CBB_flush d s = (True, s')" for s' f
  proof -
    obtain cs b' where "s' = after_write d s b'" and "holds b (cs @ []) b'" and "\<not> base_error b"
      using writes_flush flush st by (rule writes_ok)
    then show ?thesis
      using CBB_flush_closed st by (auto simp: and_also_def writer_state_def)
  qed
  then show "cbb_add_length_prefixed n d s = (case CBB_flush d s of (False, s1) \<Rightarrow> (False, s1)
      | (True, s1) \<Rightarrow> (case and_also (CBB_flush d) (on_base (cbb_buffer_put (replicate n 0))) s1 of
            (False, s2) \<Rightarrow> (False, s2)
         | (True, s2) \<Rightarrow> (True, cbb_open_child d (cbb_base_len s1) n False s2)))"
    by (auto simp: cbb_add_length_prefixed_def split: prod.split bool.split)
qed

lemma wrap_fixed: "length body < 256 ^ n \<Longrightarrow> wrap (child_frame 0 n False) body = Some (be_bytes n (length body) @ body)"
  by (simp add: wrap_def child_frame_def)

lemma wrap_asn1: "length body \<le> 0xfffffffe \<Longrightarrow> wrap (child_frame 0 1 True) body = Some (der_len (length body) @ body)"
  by (simp add: wrap_def child_frame_def)

lemma writes_length_prefixed:
  assumes "writes (d + 1) g body" and "1 \<le> n" and "n \<le> 3" and "length body < 256 ^ n"
  shows "writes d (and_also (cbb_add_length_prefixed n d) (and_also g (CBB_flush d)))
    (be_bytes n (length body) @ body)"
  using writes_child [OF opens_length_prefixed assms(1-3) _ wrap_fixed [OF assms(4)]] assms(3) by simp

subsection \<open>From an empty CBB to the finished string\<close>

lemma CBB_init_state:
  assumes "CBB_init malloc cap = (True, s)" and "cap < 2 ^ 64"
  obtains b where "writer_state 0 s b" and "flushed 0 s b = Some []" and "\<not> base_error b"
    and "base_can_resize b" and "base_alloc b = malloc"
proof -
  obtain p where p: "length p = cap" and s: "s = \<lparr>base = Some \<lparr>base_buf = p, base_len = 0, base_cap = cap,
      base_can_resize = True, base_error = False, base_alloc = malloc\<rparr>, children = []\<rparr>"
    using assms(1) by (auto simp: CBB_init_def cbb_init_def Let_def dest: length_OPENSSL_malloc split: if_splits option.splits)
  show thesis
    using that [of "the (base s)"] assms(2) p
    by (simp add: s writer_state_def wf_buffer_def flushed_def CBB_start_def buffer_contents_def)
qed

lemma CBB_init_fixed_state:
  assumes "CBB_init_fixed malloc p (length p) = (True, s)" and "length p < 2 ^ 64"
  obtains b where "writer_state 0 s b" and "flushed 0 s b = Some []" and "\<not> base_error b"
    and "\<not> base_can_resize b" and "base_cap b = length p"
proof -
  have s: "s = \<lparr>base = Some \<lparr>base_buf = p, base_len = 0, base_cap = length p,
      base_can_resize = False, base_error = False, base_alloc = malloc\<rparr>, children = []\<rparr>"
    using assms(1) by (auto simp: CBB_init_fixed_def cbb_init_def Let_def split: if_splits option.splits bool.splits)
  show thesis
    using that [of "the (base s)"] assms(2)
    by (simp add: s writer_state_def wf_buffer_def flushed_def CBB_start_def buffer_contents_def)
qed

lemma CBB_init_total: "(\<And>m. malloc m \<noteq> None) \<Longrightarrow> fst (CBB_init malloc cap)"
  using OPENSSL_malloc_total [of malloc] by (auto simp: CBB_init_def cbb_init_def Let_def split: option.split)

lemma CBB_init_answers:
  assumes "\<And>m. 8 \<le> m \<Longrightarrow> malloc m \<noteq> None" and "cap < 2 ^ 64 - 8"
  shows "fst (CBB_init malloc cap)"
  using OPENSSL_malloc_answers [of malloc cap, OF assms(1)] OPENSSL_malloc_answers [of malloc 32, OF assms(1)] assms(2)
  by (auto simp: CBB_init_def cbb_init_def Let_def split: option.split)

lemma CBB_finish_eq:
  assumes "writer_state 0 s b" and "flushed 0 s b = Some cs" and "\<not> base_error b" and "can_hold b (length cs)"
  shows "fst (CBB_finish True 0 s) = Some cs"
proof -
  have "fst (CBB_flush 0 s)"
    using writes_flush assms(1-3) by (rule writes_total) (use assms(4) in simp)
  then obtain s' where s': "CBB_flush 0 s = (True, s')" by (cases "CBB_flush 0 s") auto
  obtain b' where "s' = after_write 0 s b'" "holds b cs b'"
    using writes_flush s' assms(1) by (rule writes_ok) (use assms(2) in auto)
  with s' show ?thesis by (simp add: CBB_finish_def after_write_def holds_def buffer_contents_def)
qed

text \<open>
  The way callers use a CBB: initialise, write, finish. \<open>cbb_build\<close> grows its buffer,
  \<open>cbb_build_fixed\<close> writes into the caller's array \<open>p\<close>.
\<close>

definition cbb_run :: "bool \<times> CBB \<Rightarrow> CBB step \<Rightarrow> byte list option" where
  "cbb_run start op = (case start of
       (False, _) \<Rightarrow> None
     | (True, s) \<Rightarrow> (case op s of (False, _) \<Rightarrow> None | (True, s') \<Rightarrow> fst (CBB_finish True 0 s')))"

definition cbb_build :: "allocator \<Rightarrow> nat \<Rightarrow> CBB step \<Rightarrow> byte list option" where
  "cbb_build malloc cap op = cbb_run (CBB_init malloc cap) op"

definition cbb_build_fixed :: "allocator \<Rightarrow> byte list \<Rightarrow> CBB step \<Rightarrow> byte list option" where
  "cbb_build_fixed malloc p op = cbb_run (CBB_init_fixed malloc p (length p)) op"

lemma cbb_run_writes:
  assumes "writes 0 op bs" and "writer_state 0 s b" and "flushed 0 s b = Some []" and "\<not> base_error b"
  shows "cbb_run (True, s) op = (if fst (op s) then Some bs else None)"
    and "can_hold b (length bs) \<Longrightarrow> fst (op s)"
    and "fst (op s) \<Longrightarrow> \<not> base_can_resize b \<Longrightarrow> length bs \<le> base_cap b"
proof -
  show "can_hold b (length bs) \<Longrightarrow> fst (op s)"
    using assms(1) assms(2-4) by (rule writes_total) simp
  have ok: "fst (CBB_finish True 0 s') = Some bs \<and> (\<not> base_can_resize b \<longrightarrow> length bs \<le> base_cap b)"
    if op: "op s = (True, s')" for s'
  proof -
    obtain b' where b': "s' = after_write 0 s b'" "holds b bs b'"
      using assms(1) op assms(2) by (rule writes_ok) (use assms(3) in auto)
    note w = writer_state_after_write [OF assms(2) b'(2), folded b'(1)]
    have "\<not> base_error b'" using assms(4) b'(2) by (simp add: holds_def)
    moreover have len: "length bs \<le> base_cap b'" "base_cap b' < 2 ^ 64"
      using holds_len [OF b'(2)] b'(2) by (simp_all add: holds_def wf_buffer_def)
    then have "can_hold b' (length bs)" by (simp add: can_hold_def)
    ultimately have "fst (CBB_finish True 0 s') = Some bs"
      using w by (intro CBB_finish_eq) (simp_all add: CBB_start_def)
    with len(1) b'(2) show ?thesis by (auto simp: holds_def)
  qed
  show "cbb_run (True, s) op = (if fst (op s) then Some bs else None)"
    using ok by (auto simp: cbb_run_def split: prod.splits bool.splits)
  show "fst (op s) \<Longrightarrow> \<not> base_can_resize b \<Longrightarrow> length bs \<le> base_cap b"
    using ok by (cases "op s") auto
qed

lemma cbb_build_sound:
  assumes "writes 0 op bs" and "cap < 2 ^ 64" and "cbb_build malloc cap op = Some out"
  shows "out = bs"
proof -
  obtain s where s: "CBB_init malloc cap = (True, s)" and run: "cbb_run (True, s) op = Some out"
    using assms(3) by (cases "CBB_init malloc cap") (auto simp: cbb_build_def cbb_run_def split: bool.splits)
  obtain b where "writer_state 0 s b" "flushed 0 s b = Some []" "\<not> base_error b"
    using s assms(2) by (rule CBB_init_state)
  with cbb_run_writes(1) [OF assms(1)] run show ?thesis by (auto split: if_splits)
qed

lemma cbb_build_total:
  assumes "writes 0 op bs" and "cap < 2 ^ 64" and "\<And>m. malloc m \<noteq> None" and "length bs < 2 ^ 64"
  shows "cbb_build malloc cap op = Some bs"
proof -
  have "fst (CBB_init malloc cap)" using assms(3) by (rule CBB_init_total)
  then obtain s where s: "CBB_init malloc cap = (True, s)" by (cases "CBB_init malloc cap") auto
  obtain b where b: "writer_state 0 s b" "flushed 0 s b = Some []" "\<not> base_error b"
    and c: "base_can_resize b" "base_alloc b = malloc"
    using s assms(2) by (rule CBB_init_state)
  have "can_hold b (length bs)" using c assms(3,4) by (simp add: can_hold_def)
  with cbb_run_writes(1,2) [OF assms(1) b] show ?thesis by (simp add: cbb_build_def s)
qed

text \<open>
  The same with an allocator that may refuse requests of fewer than eight bytes, the ones
  \<open>OPENSSL_malloc\<close> makes when its size has wrapped: none is made for sizes of objects in memory.
\<close>

lemma cbb_build_answers:
  assumes "writes 0 op bs" and "cap < 2 ^ 64 - 8" and "\<And>m. 8 \<le> m \<Longrightarrow> malloc m \<noteq> None"
    and "length bs \<le> 2 ^ 63 - 4"
  shows "cbb_build malloc cap op = Some bs"
proof -
  have cap: "cap < 2 ^ 64" using assms(2) by simp
  have "fst (CBB_init malloc cap)" using assms(3,2) by (rule CBB_init_answers)
  then obtain s where s: "CBB_init malloc cap = (True, s)" by (cases "CBB_init malloc cap") auto
  obtain b where b: "writer_state 0 s b" "flushed 0 s b = Some []" "\<not> base_error b"
    and c: "base_can_resize b" "base_alloc b = malloc"
    using s cap by (rule CBB_init_state)
  have "can_hold b (length bs)" using c assms(3,4) by (simp add: can_hold_def)
  with cbb_run_writes(1,2) [OF assms(1) b] show ?thesis by (simp add: cbb_build_def s)
qed

lemma cbb_build_fixed_eq:
  assumes "writes 0 op bs" and "length p < 2 ^ 64" and "malloc 40 \<noteq> None"
  shows "cbb_build_fixed malloc p op = (if length bs \<le> length p then Some bs else None)"
proof -
  have "fst (CBB_init_fixed malloc p (length p))"
    using assms(3) by (auto simp: CBB_init_fixed_def cbb_init_def OPENSSL_malloc_def malloc_request_def
        OPENSSL_MALLOC_PREFIX_def size_t_def split: option.splits)
  then obtain s where s: "CBB_init_fixed malloc p (length p) = (True, s)"
    by (cases "CBB_init_fixed malloc p (length p)") auto
  obtain b where b: "writer_state 0 s b" "flushed 0 s b = Some []" "\<not> base_error b"
    and c: "\<not> base_can_resize b" "base_cap b = length p"
    using s assms(2) by (rule CBB_init_fixed_state)
  have "fst (op s) \<longleftrightarrow> length bs \<le> length p"
    using cbb_run_writes(2,3) [OF assms(1) b] c assms(2) by (auto simp: can_hold_def)
  with cbb_run_writes(1) [OF assms(1) b] show ?thesis by (simp add: cbb_build_fixed_def s)
qed

subsection \<open>The interface between writers and readers\<close>

text \<open>
  \<open>add x\<close> writes \<open>enc x\<close>, and \<open>dec\<close> reads it. A client that relies on this interface gets
  the round trips below, whatever the format.
\<close>

fun add_all :: "('a \<Rightarrow> nat \<Rightarrow> CBB step) \<Rightarrow> 'a list \<Rightarrow> nat \<Rightarrow> CBB step" where
  "add_all add [] d = CBB_flush d"
| "add_all add (x # xs) d = and_also (add x d) (add_all add xs d)"

fun dec_n :: "(byte list \<Rightarrow> ('a \<times> byte list) option) \<Rightarrow> nat \<Rightarrow> byte list \<Rightarrow> ('a list \<times> byte list) option" where
  "dec_n dec 0 s = Some ([], s)"
| "dec_n dec (Suc n) s = (case dec s of None \<Rightarrow> None
     | Some (x, r) \<Rightarrow> map_option (\<lambda>(xs, t). (x # xs, t)) (dec_n dec n r))"

locale cbb_codec = byte_codec enc dec valid
  for enc :: "'a \<Rightarrow> byte list"
    and dec :: "byte list \<Rightarrow> ('a \<times> byte list) option"
    and valid :: "'a \<Rightarrow> bool" +
  fixes add :: "'a \<Rightarrow> nat \<Rightarrow> CBB step"
    and writable :: "'a \<Rightarrow> bool"
  assumes add_writes: "writable x \<Longrightarrow> writes d (add x d) (enc x)"
    and writable_valid: "writable x \<Longrightarrow> valid x"
    and enc_bound: "writable x \<Longrightarrow> length (enc x) < 2 ^ 64"
begin

lemma add_all_writes: "\<forall>x \<in> set xs. writable x \<Longrightarrow> writes d (add_all add xs d) (concat (map enc xs))"
proof (induction xs)
  case Nil
  then show ?case by (simp add: writes_flush)
next
  case (Cons x xs)
  then show ?case by (auto intro: writes_seq add_writes)
qed

lemma dec_n_concat: "\<forall>x \<in> set xs. writable x \<Longrightarrow> dec_n dec (length xs) (concat (map enc xs) @ r) = Some (xs, r)"
  by (induction xs) (simp_all add: dec_enc writable_valid)

text \<open>What is written in a row reads back in a row, and the fixed buffer overflows exactly when it must.\<close>

lemma build_all:
  assumes "\<forall>x \<in> set xs. writable x" and "cap < 2 ^ 64" and "cbb_build malloc cap (add_all add xs 0) = Some out"
  shows "dec_n dec (length xs) out = Some (xs, [])"
  using cbb_build_sound [OF add_all_writes [OF assms(1)] assms(2,3)] dec_n_concat [OF assms(1), of "[]"] by simp

lemma build_one:
  assumes "writable x" and "cap < 2 ^ 64" and "cbb_build malloc cap (add x 0) = Some out"
  shows "dec out = Some (x, [])"
  using cbb_build_sound [OF add_writes [OF assms(1)] assms(2,3)] dec_whole [of x] assms(1) by (simp add: writable_valid)

lemma build_one_total:
  assumes "writable x" and "cap < 2 ^ 64" and "\<And>m. malloc m \<noteq> None"
  shows "\<exists>out. cbb_build malloc cap (add x 0) = Some out \<and> dec out = Some (x, [])"
  using cbb_build_total [OF add_writes [OF assms(1)] assms(2,3)] enc_bound [OF assms(1)] dec_whole [of x] assms(1)
  by (simp add: writable_valid)

lemma build_fixed:
  assumes "writable x" and "length p < 2 ^ 64" and "malloc 40 \<noteq> None"
  shows "cbb_build_fixed malloc p (add x 0) = (if length (enc x) \<le> length p then Some (enc x) else None)"
  using add_writes [OF assms(1)] assms(2,3) by (rule cbb_build_fixed_eq)

end

text \<open>A child of the CBB is any writer one level down.\<close>

definition add_length_prefixed :: "nat \<Rightarrow> (nat \<Rightarrow> CBB step) \<Rightarrow> nat \<Rightarrow> CBB step" where
  "add_length_prefixed n g d = and_also (cbb_add_length_prefixed n d) (and_also (g (d + 1)) (CBB_flush d))"

lemma length_prefixed_cbb_codec:
  assumes "0 < k" and "k \<le> 3"
  shows "cbb_codec (\<lambda>c. be_bytes k (length c) @ c) (parsed (cbs_get_length_prefixed k)) (\<lambda>c. length c < 256 ^ k)
    (\<lambda>c. add_length_prefixed k (CBB_add_bytes c)) (\<lambda>c. length c < 256 ^ k)"
proof (rule cbb_codec.intro)
  show "byte_codec (\<lambda>c. be_bytes k (length c) @ c) (parsed (cbs_get_length_prefixed k)) (\<lambda>c. length c < 256 ^ k)"
    using assms by (intro nonempty_codec.axioms(1) length_prefixed_codec)
  have small: "length c < 2 ^ 24" if "length c < 256 ^ k" for c :: "byte list"
  proof -
    have "256 ^ k \<le> (256 :: nat) ^ 3" using assms(2) by (intro power_increasing) auto
    with that show ?thesis by simp
  qed
  show "cbb_codec_axioms (\<lambda>c. be_bytes k (length c) @ c) (\<lambda>c. length c < 256 ^ k)
      (\<lambda>c. add_length_prefixed k (CBB_add_bytes c)) (\<lambda>c. length c < 256 ^ k)"
  proof
    fix c :: "byte list" assume c: "length c < 256 ^ k"
    with small have "length c < 2 ^ 24" by blast
    then show "writes d (add_length_prefixed k (CBB_add_bytes c) d) (be_bytes k (length c) @ c)" for d
      unfolding add_length_prefixed_def using assms c
      by (intro writes_length_prefixed writes_CBB_add_bytes) simp_all
    show "length (be_bytes k (length c) @ c) < 2 ^ 64"
      using \<open>length c < 2 ^ 24\<close> assms(2) by simp
  qed
qed

interpretation w_u8: cbb_codec "\<lambda>v. [v]" "parsed CBS_get_u8" "\<lambda>_. True" CBB_add_u8 "\<lambda>_. True"
  by unfold_locales (simp_all add: writes_CBB_add_u8)

interpretation w_u16: cbb_codec "\<lambda>v :: 16 word. be_bytes 2 (unat v)" "parsed CBS_get_u16" "\<lambda>v. unat v < 256 ^ 2"
  CBB_add_u16 "\<lambda>v. unat v < 256 ^ 2"
  by unfold_locales (simp_all add: writes_CBB_add_u16)

interpretation w_u24: cbb_codec "\<lambda>v :: 32 word. be_bytes 3 (unat v)" "parsed CBS_get_u24" "\<lambda>v. unat v < 256 ^ 3"
  CBB_add_u24 "\<lambda>v. unat v < 256 ^ 3"
  by unfold_locales (simp_all add: writes_CBB_add_u24)

interpretation w_u32: cbb_codec "\<lambda>v :: 32 word. be_bytes 4 (unat v)" "parsed CBS_get_u32" "\<lambda>v. unat v < 256 ^ 4"
  CBB_add_u32 "\<lambda>v. unat v < 256 ^ 4"
  by unfold_locales (simp_all add: writes_CBB_add_u32)

interpretation w_u64: cbb_codec "\<lambda>v :: 64 word. be_bytes 8 (unat v)" "parsed CBS_get_u64" "\<lambda>v. unat v < 256 ^ 8"
  CBB_add_u64 "\<lambda>v. unat v < 256 ^ 8"
  by unfold_locales (simp_all add: writes_CBB_add_u64)

interpretation w_u8_prefixed: cbb_codec "\<lambda>c. be_bytes 1 (length c) @ c" "parsed CBS_get_u8_length_prefixed"
  "\<lambda>c. length c < 256 ^ 1" "\<lambda>c d. and_also (CBB_add_u8_length_prefixed d) (and_also (CBB_add_bytes c (d + 1)) (CBB_flush d))"
  "\<lambda>c. length c < 256 ^ 1"
  using length_prefixed_cbb_codec [of 1]
  by (simp add: CBS_get_u8_length_prefixed_def [abs_def] CBB_add_u8_length_prefixed_def [abs_def] add_length_prefixed_def [abs_def])

interpretation w_u16_prefixed: cbb_codec "\<lambda>c. be_bytes 2 (length c) @ c" "parsed CBS_get_u16_length_prefixed"
  "\<lambda>c. length c < 256 ^ 2" "\<lambda>c d. and_also (CBB_add_u16_length_prefixed d) (and_also (CBB_add_bytes c (d + 1)) (CBB_flush d))"
  "\<lambda>c. length c < 256 ^ 2"
  using length_prefixed_cbb_codec [of 2]
  by (simp add: CBS_get_u16_length_prefixed_def [abs_def] CBB_add_u16_length_prefixed_def [abs_def] add_length_prefixed_def [abs_def])

interpretation w_u24_prefixed: cbb_codec "\<lambda>c. be_bytes 3 (length c) @ c" "parsed CBS_get_u24_length_prefixed"
  "\<lambda>c. length c < 256 ^ 3" "\<lambda>c d. and_also (CBB_add_u24_length_prefixed d) (and_also (CBB_add_bytes c (d + 1)) (CBB_flush d))"
  "\<lambda>c. length c < 256 ^ 3"
  using length_prefixed_cbb_codec [of 3]
  by (simp add: CBS_get_u24_length_prefixed_def [abs_def] CBB_add_u24_length_prefixed_def [abs_def] add_length_prefixed_def [abs_def])

end
