(* ===== verification/Qsort.thy ===== *)
theory Qsort
  imports Main "HOL-Library.Multiset"
begin

text \<open>
  \<open>qsort\<close> of the C library and its contract with the comparison function, which both the DER
  builder (a SET OF) and the stack rely on. The C standard leaves the order of elements that
  compare equal open; the model is the stable insertion sort.
\<close>

fun qsort_insert :: "('a \<Rightarrow> 'a \<Rightarrow> int) \<Rightarrow> 'a \<Rightarrow> 'a list \<Rightarrow> 'a list" where
  "qsort_insert cmp x [] = [x]"
| "qsort_insert cmp x (y # ys) = (if cmp x y \<le> 0 then x # y # ys else y # qsort_insert cmp x ys)"

definition qsort :: "('a \<Rightarrow> 'a \<Rightarrow> int) \<Rightarrow> 'a list \<Rightarrow> 'a list" where
  "qsort cmp xs = foldr (qsort_insert cmp) xs []"

lemma mset_qsort_insert: "mset (qsort_insert cmp x ys) = add_mset x (mset ys)"
  by (induction ys) auto

lemma mset_qsort: "mset (qsort cmp xs) = mset xs"
  unfolding qsort_def by (induction xs) (simp_all add: mset_qsort_insert)

lemma length_qsort [simp]: "length (qsort cmp xs) = length xs"
  using mset_qsort by (rule mset_eq_length)

lemma set_qsort [simp]: "set (qsort cmp xs) = set xs"
  using mset_qsort by (rule mset_eq_setD)

text \<open>What a caller promises of its comparison function: a total preorder.\<close>

locale comparison =
  fixes cmp :: "'a \<Rightarrow> 'a \<Rightarrow> int"
  assumes antisym: "cmp a b < 0 \<longleftrightarrow> 0 < cmp b a"
    and trans: "cmp a b \<le> 0 \<Longrightarrow> cmp b c \<le> 0 \<Longrightarrow> cmp a c \<le> 0"
begin

lemma equal_sym: "cmp a b = 0 \<longleftrightarrow> cmp b a = 0"
  using antisym [of a b] antisym [of b a] by linarith

lemma le_total: "cmp a b \<le> 0 \<or> cmp b a \<le> 0"
  using antisym [of b a] by linarith

lemma above: "cmp p a < 0 \<Longrightarrow> cmp a b \<le> 0 \<Longrightarrow> cmp p b < 0"
  using antisym [of p a] antisym [of p b] trans [of a b p] by linarith

lemma below: "0 < cmp p b \<Longrightarrow> cmp a b \<le> 0 \<Longrightarrow> 0 < cmp p a"
  using antisym [of a p] antisym [of b p] trans [of p a b] by linarith

lemma insert_sorted: "sorted_wrt (\<lambda>a b. cmp a b \<le> 0) ys \<Longrightarrow> sorted_wrt (\<lambda>a b. cmp a b \<le> 0) (qsort_insert cmp x ys)"
proof (induction ys)
  case (Cons y ys)
  have "cmp x z \<le> 0" if "cmp x y \<le> 0" "z \<in> set ys" for z using that Cons.prems trans by auto
  moreover have "set (qsort_insert cmp x ys) = insert x (set ys)"
    using arg_cong [OF mset_qsort_insert, of set_mset cmp x ys] by simp
  ultimately show ?case using Cons le_total [of x y] by auto
qed simp

lemma qsort_sorted: "sorted_wrt (\<lambda>a b. cmp a b \<le> 0) (qsort cmp xs)"
  unfolding qsort_def by (induction xs) (simp_all add: insert_sorted)

end

end
