(* ===== verification/Cbb_Asn1.thy ===== *)
theory Cbb_Asn1
  imports Cbb Der_Int Qsort "HOL-Library.List_Lexorder"
begin

text \<open>
  The ASN.1 half of \<open>crypto/bytestring/cbb.c\<close>: elements, integers, strings, booleans and
  the sorting of a SET OF.
\<close>

subsection \<open>ASN.1\<close>

function base128_count :: "64 word \<Rightarrow> nat" where
  "base128_count copy = (if copy > 0 then Suc (base128_count (drop_bit 7 copy)) else 0)"
  by pat_completeness auto
termination
proof (relation "measure unat")
  show "(drop_bit 7 copy, copy) \<in> measure unat" if "copy > 0" for copy :: "64 word"
    using that by (auto simp: unat_drop_bit unat_gt_0 word_neq_0_conv intro!: div_less_dividend)
qed simp

fun add_base128_loop :: "64 word \<Rightarrow> nat \<Rightarrow> nat \<Rightarrow> CBB step" where
  "add_base128_loop v 0 d s = (True, s)"
| "add_base128_loop v (Suc i) d s =
     and_also
       (CBB_add_u8 (let b = ucast (drop_bit (7 * i) v) AND 0x7f in if i \<noteq> 0 then b OR 0x80 else b) d)
       (add_base128_loop v i d) s"

definition add_base128_integer :: "64 word \<Rightarrow> nat \<Rightarrow> CBB step" where
  "add_base128_integer v d =
     (let len_len = base128_count v; len_len' = (if len_len = 0 then 1 else len_len)
      in add_base128_loop v len_len' d)"

definition CBB_add_asn1 :: "32 word \<Rightarrow> nat \<Rightarrow> CBB step" where
  "CBB_add_asn1 tag d s = (case CBB_flush d s of
       (False, s') \<Rightarrow> (False, s')
     | (True, s') \<Rightarrow>
         let tag_bits = ucast (drop_bit CBS_ASN1_TAG_SHIFT tag) AND (0xe0 :: byte);
             tag_number = tag AND CBS_ASN1_TAG_NUMBER_MASK
         in case (if tag_number \<ge> 0x1f
                  then and_also (CBB_add_u8 (tag_bits OR 0x1f) d) (add_base128_integer (ucast tag_number) d) s'
                  else CBB_add_u8 (tag_bits OR ucast tag_number) d s')
            of (False, s1) \<Rightarrow> (False, s1)
             | (True, s1) \<Rightarrow>
                 (case CBB_add_u8 0 d s1 of
                    (False, s2) \<Rightarrow> (False, s2)
                  | (True, s2) \<Rightarrow> (True, cbb_open_child d (cbb_base_len s1) 1 True s2)))"

text \<open>
  The loop over the eight bytes of the value, most significant first: \<open>k\<close> bytes are left, the
  result also says whether a byte has been written.
\<close>

fun add_asn1_uint64_loop :: "64 word \<Rightarrow> nat \<Rightarrow> bool \<Rightarrow> nat \<Rightarrow> CBB \<Rightarrow> bool \<times> bool \<times> CBB" where
  "add_asn1_uint64_loop v 0 started d s = (True, started, s)"
| "add_asn1_uint64_loop v (Suc k) started d s =
     (let b = ucast (drop_bit (8 * k) v) AND (0xff :: byte)
      in if \<not> started \<and> b = 0 then add_asn1_uint64_loop v k started d s
         else case (if \<not> started \<and> b AND 0x80 \<noteq> 0 then CBB_add_u8 0 d s else (True, s)) of
                (False, s') \<Rightarrow> (False, started, s')
              | (True, s') \<Rightarrow>
                  (case CBB_add_u8 b d s' of
                     (False, s'') \<Rightarrow> (False, True, s'')
                   | (True, s'') \<Rightarrow> add_asn1_uint64_loop v k True d s''))"

definition CBB_add_asn1_uint64 :: "64 word \<Rightarrow> nat \<Rightarrow> CBB step" where
  "CBB_add_asn1_uint64 v d s = (case CBB_add_asn1 CBS_ASN1_INTEGER d s of
       (False, s1) \<Rightarrow> (False, s1)
     | (True, s1) \<Rightarrow>
         (case add_asn1_uint64_loop v 8 False (d + 1) s1 of
            (False, _, s2) \<Rightarrow> (False, s2)
          | (True, started, s2) \<Rightarrow>
              (case (if \<not> started then CBB_add_u8 0 (d + 1) s2 else (True, s2)) of
                 (False, s3) \<Rightarrow> (False, s3)
               | (True, s3) \<Rightarrow> CBB_flush d s3)))"

fun int64_start :: "byte list \<Rightarrow> nat \<Rightarrow> nat" where
  "int64_start u 0 = 0"
| "int64_start u (Suc start) =
     (if u ! Suc start = 0xff \<and> u ! start AND 0x80 \<noteq> 0 then int64_start u start else Suc start)"

fun add_int64_loop :: "byte list \<Rightarrow> nat \<Rightarrow> nat \<Rightarrow> CBB step" where
  "add_int64_loop u 0 d s = (True, s)"
| "add_int64_loop u (Suc i) d s = and_also (CBB_add_u8 (u ! i) d) (add_int64_loop u i d) s"

definition CBB_add_asn1_int64 :: "64 word \<Rightarrow> nat \<Rightarrow> CBB step" where
  "CBB_add_asn1_int64 v d s =
     (if 0 \<le> sint v then CBB_add_asn1_uint64 v d s
      else
        let u = bytes_of_int64 v; start = int64_start u 7
        in case CBB_add_asn1 CBS_ASN1_INTEGER d s of
             (False, s1) \<Rightarrow> (False, s1)
           | (True, s1) \<Rightarrow> and_also (add_int64_loop u (start + 1) (d + 1)) (CBB_flush d) s1)"

definition CBB_add_asn1_octet_string :: "byte list \<Rightarrow> nat \<Rightarrow> CBB step" where
  "CBB_add_asn1_octet_string data d =
     and_also (CBB_add_asn1 CBS_ASN1_OCTETSTRING d)
       (and_also (CBB_add_bytes data (d + 1)) (CBB_flush d))"

definition CBB_add_asn1_bool :: "bool \<Rightarrow> nat \<Rightarrow> CBB step" where
  "CBB_add_asn1_bool v d =
     and_also (CBB_add_asn1 CBS_ASN1_BOOLEAN d)
       (and_also (CBB_add_u8 (if v then 0xff else 0) (d + 1)) (CBB_flush d))"

subsection \<open>Sorting a SET OF\<close>

definition compare_set_of_element :: "CBS \<Rightarrow> CBS \<Rightarrow> int" where
  "compare_set_of_element a b =
     (let min_len = (if CBS_len a < CBS_len b then CBS_len a else CBS_len b);
          ret = OPENSSL_memcmp (CBS_data a) (CBS_data b) min_len
      in if ret \<noteq> 0 then ret
         else if CBS_len a = CBS_len b then 0
         else if CBS_len a < CBS_len b then -1 else 1)"

text \<open>
  All the elements of a byte string, or \<open>None\<close> where the parser rejects one: the two loops
  that count the children and then parse them. The first argument bounds the number of rounds;
  every element takes at least one byte.
\<close>

fun set_of_children :: "nat \<Rightarrow> CBS \<Rightarrow> CBS list option" where
  "set_of_children fuel [] = Some []"
| "set_of_children 0 (b # cbs) = None"
| "set_of_children (Suc fuel) (b # cbs) = (case CBS_get_any_asn1_element (b # cbs) of
       (None, _) \<Rightarrow> None
     | (Some (el, _, _), cbs') \<Rightarrow>
         (case set_of_children fuel cbs' of None \<Rightarrow> None | Some els \<Rightarrow> Some (el # els)))"

fun add_children :: "CBS list \<Rightarrow> nat \<Rightarrow> CBB step" where
  "add_children [] d s = (True, s)"
| "add_children (c # cs) d s = and_also (CBB_add_bytes c d) (add_children cs d) s"

text \<open>\<open>sizeof(CBS)\<close> is 16. \<open>malloc\<close> is the allocator of the two temporary arrays.\<close>

definition CBB_flush_asn1_set_of :: "allocator \<Rightarrow> nat \<Rightarrow> CBB step" where
  "CBB_flush_asn1_set_of malloc d s = (case CBB_flush d s of
       (False, s1) \<Rightarrow> (False, s1)
     | (True, s1) \<Rightarrow>
         (case set_of_children (CBB_len d s1) (CBB_data d s1) of
            None \<Rightarrow> (False, s1)
          | Some els \<Rightarrow>
              let num_children = length els
              in if num_children < 2 then (True, s1)
                 else if num_children > (2 ^ 64 - 1) div 16 then (False, s1)
                 else if OPENSSL_memdup malloc (CBB_data d s1) (CBB_len d s1) = None
                         \<or> OPENSSL_malloc malloc (num_children * 16) = None then (False, s1)
                 else
                   let sorted = qsort compare_set_of_element els;
                       s2 = s1\<lparr>base := map_option (\<lambda>b. b\<lparr>base_len := CBB_start d s1\<rparr>) (base s1)\<rparr>
                   in add_children sorted d s2))"

subsection \<open>Writing a list of bytes one at a time\<close>

fun add_u8s :: "byte list \<Rightarrow> nat \<Rightarrow> CBB step" where
  "add_u8s [] d s = (True, s)"
| "add_u8s (b # bs) d s = and_also (CBB_add_u8 b d) (add_u8s bs d) s"

lemma writes_add_u8s: "bs \<noteq> [] \<Longrightarrow> writes d (add_u8s bs d) bs"
proof (induction bs)
  case (Cons b bs)
  have e: "add_u8s (b # bs) d = and_also (CBB_add_u8 b d) (add_u8s bs d)" by (rule ext) simp
  show ?case
  proof (cases "bs = []")
    case True
    have "add_u8s [b] d = CBB_add_u8 b d" by (rule ext) (simp add: and_also_def split: prod.split)
    then show ?thesis using True writes_CBB_add_u8 [of d b] by simp
  next
    case False
    then show ?thesis using writes_seq [OF writes_CBB_add_u8 Cons.IH] e by simp
  qed
qed simp

lemma writes_cong: "writes d f bs \<Longrightarrow> (\<And>s. f s = g s) \<Longrightarrow> writes d g bs"
  by (metis ext)

subsection \<open>Base-128 integers and tags\<close>

lemma base128_count_0 [simp]: "base128_count 0 = 0"
  by (subst base128_count.simps) simp

lemma base128_count_pos: "v \<noteq> 0 \<Longrightarrow> base128_count v = Suc (base128_count (drop_bit 7 v))"
  by (subst base128_count.simps) (simp add: word_gt_0)

declare base128_count.simps [simp del]

text \<open>The digits of weight \<open>128 ^ n\<close> and below, as the loop emits them.\<close>

fun base128_digits :: "nat \<Rightarrow> nat \<Rightarrow> byte list" where
  "base128_digits v 0 = [of_nat (v mod 128)]"
| "base128_digits v (Suc n) = more_byte (v div 128 ^ Suc n mod 128) # base128_digits v n"

lemma base128_digits_snoc: "base128_digits v n = map more_byte (map (\<lambda>i. v div 128 ^ Suc i mod 128) (rev [0..<n])) @ [of_nat (v mod 128)]"
  by (induction n) simp_all

lemma base128_high_count:
  "base128_high (unat v) = map more_byte (map (\<lambda>i. unat v div 128 ^ i mod 128) (rev [0..<base128_count v]))"
proof (induction v rule: base128_count.induct)
  case (1 v)
  show ?case
  proof (cases "v = 0")
    case False
    let ?c = "base128_count (drop_bit 7 v)"
    have "base128_high (unat v) = base128_high (unat v div 128) @ [more_byte (unat v mod 128)]"
      using False by (subst base128_high.simps) (simp add: unat_eq_0)
    also have "unat v div 128 = unat (drop_bit 7 v)" by (simp add: unat_drop_bit)
    also have "base128_high (unat (drop_bit 7 v)) = map more_byte (map (\<lambda>i. unat (drop_bit 7 v) div 128 ^ i mod 128) (rev [0..<?c]))"
      using False by (intro 1) (simp add: word_gt_0)
    also have "map (\<lambda>i. unat (drop_bit 7 v) div 128 ^ i mod 128) (rev [0..<?c]) = map (\<lambda>i. unat v div 128 ^ i mod 128) (rev [1..<Suc ?c])"
      by (simp add: unat_drop_bit div_mult2_eq [symmetric] map_Suc_upt [symmetric] rev_map del: upt_Suc map_Suc_upt)
    also have "map more_byte (map (\<lambda>i. unat v div 128 ^ i mod 128) (rev [1..<Suc ?c])) @ [more_byte (unat v mod 128)]
        = map more_byte (map (\<lambda>i. unat v div 128 ^ i mod 128) (rev [0..<Suc ?c]))"
      by (simp add: upt_conv_Cons [of 0] del: upt_Suc)
    finally show ?thesis using False by (simp add: base128_count_pos del: upt_Suc)
  qed simp
qed

lemma base128_as_digits: "base128 (unat v) = base128_digits (unat v) (base128_count v - 1)"
proof (cases "v = 0")
  case False
  then show ?thesis
    using base128_high_count [of "drop_bit 7 v"]
    by (simp add: base128_def base128_digits_snoc base128_count_pos unat_drop_bit div_mult2_eq)
qed (simp add: base128_def)

lemma byte_or_80: "unat (b :: byte) < 128 \<Longrightarrow> b OR 0x80 = more_byte (unat b)"
proof -
  assume b: "unat b < 128"
  have "unat (0x80 OR b) = unat (0x80 :: byte) + unat b"
    using b by (intro unat_or_disjoint [of 7]) simp_all
  then have "unat (b OR 0x80) = unat b + 128" by (simp add: or.commute)
  then show ?thesis using b by (simp add: word_unat_eq_iff unat_more_byte)
qed

lemma base128_digit:
  "unat (ucast (drop_bit (7 * i) v) AND 0x7f :: byte) = unat (v :: 64 word) div 128 ^ i mod 128"
proof -
  have "unat (ucast (drop_bit (7 * i) v) AND 0x7f :: byte) = unat v div 2 ^ (7 * i) mod 256 mod 128"
    by (simp only: unat_byte_low7) (simp add: unsigned_ucast_eq take_bit_eq_mod unat_drop_bit)
  also have "\<dots> = unat v div 2 ^ (7 * i) mod 128" by (simp add: mod_mod_cancel)
  finally show ?thesis by (simp add: power_mult)
qed

lemma add_base128_loop_eq: "add_base128_loop v (Suc n) d s = add_u8s (base128_digits (unat v) n) d s"
proof (induction n arbitrary: s)
  case 0
  have "(ucast v AND 0x7f :: byte) = of_nat (unat v mod 128)"
    using base128_digit [of 0 v] by (simp add: word_unat_eq_iff)
  then show ?case by (simp add: and_also_def split: prod.split)
next
  case (Suc n)
  have "ucast (drop_bit (7 * Suc n) v) AND 0x7f OR 0x80 = more_byte (unat v div 128 ^ Suc n mod 128)"
    using byte_or_80 [of "ucast (drop_bit (7 * Suc n) v) AND 0x7f"] unfolding base128_digit by simp
  then show ?case
    using Suc by (subst add_base128_loop.simps) (simp add: and_also_def Let_def split: prod.split del: add_base128_loop.simps)
qed

lemma writes_base128: "writes d (add_base128_integer v d) (base128 (unat v))"
proof (rule writes_cong)
  show "writes d (add_u8s (base128 (unat v)) d) (base128 (unat v))"
    by (rule writes_add_u8s) (rule base128.enc_nonempty, simp)
  have n: "(if base128_count v = 0 then 1 else base128_count v) = Suc (base128_count v - 1)" by simp
  show "add_u8s (base128 (unat v)) d s = add_base128_integer v d s" for s
    unfolding add_base128_integer_def Let_def n base128_as_digits by (rule add_base128_loop_eq [symmetric])
qed

lemma unat_or_low5:
  assumes "unat (a :: byte) = k * 32" and "unat b < 32"
  shows "unat (a OR b) = k * 32 + unat b"
  using unat_or_disjoint [of 5 a b] assms by simp

lemma tag_top_byte:
  "unat (ucast (drop_bit CBS_ASN1_TAG_SHIFT tag) AND 0xe0 :: byte) = unat (tag :: 32 word) div 2 ^ 29 * 32"
proof -
  have "unat tag div 2 ^ 24 < 256" using unsigned_less [of tag, where ?'a = nat] by (simp add: div_less_iff_less_mult)
  then have "unat (ucast (drop_bit CBS_ASN1_TAG_SHIFT tag) :: byte) = unat tag div 2 ^ 24"
    by (simp add: unsigned_ucast_eq take_bit_nat_eq_self unat_drop_bit CBS_ASN1_TAG_SHIFT_def)
  then show ?thesis by (simp add: unat_byte_mask_e0 flip: div_mult2_eq)
qed

lemma tag_number_nat: "unat (tag AND CBS_ASN1_TAG_NUMBER_MASK) = unat tag mod 2 ^ 29"
  using unat_and_mask [of tag 29] by (simp add: CBS_ASN1_TAG_NUMBER_MASK_eq mask_eq_exp_minus_1)

text \<open>The identifier octets.\<close>

definition add_tag :: "32 word \<Rightarrow> nat \<Rightarrow> CBB step" where
  "add_tag tag d =
     (let tag_bits = ucast (drop_bit CBS_ASN1_TAG_SHIFT tag) AND (0xe0 :: byte);
          tag_number = tag AND CBS_ASN1_TAG_NUMBER_MASK
      in if tag_number \<ge> 0x1f
         then and_also (CBB_add_u8 (tag_bits OR 0x1f) d) (add_base128_integer (ucast tag_number) d)
         else CBB_add_u8 (tag_bits OR ucast tag_number) d)"

lemma writes_add_tag: "writes d (add_tag tag d) (der_tag tag)"
proof -
  let ?num = "tag AND CBS_ASN1_TAG_NUMBER_MASK" and ?bits = "ucast (drop_bit CBS_ASN1_TAG_SHIFT tag) AND (0xe0 :: byte)"
  let ?top = "unat tag div 2 ^ 29"
  have ge: "?num \<ge> 0x1f \<longleftrightarrow> 31 \<le> unat tag mod 2 ^ 29" by (simp add: word_le_nat_alt tag_number_nat)
  show ?thesis
  proof (cases "31 \<le> unat tag mod 2 ^ 29")
    case True
    have "unat (?bits OR 0x1f) = ?top * 32 + 31"
      using unat_or_low5 [OF tag_top_byte, of "0x1f" tag] by simp
    then have "?bits OR 0x1f = byte_of (?top * 32 + 31)" by (rule byte_of_eq [symmetric])
    moreover have "unat (ucast ?num :: 64 word) = unat tag mod 2 ^ 29"
      by (simp add: unat_ucast_widen tag_number_nat)
    ultimately have "der_tag tag = [?bits OR 0x1f] @ base128 (unat (ucast ?num :: 64 word))"
      using True by (simp add: der_tag_def Let_def)
    moreover have "writes d (add_tag tag d) ([?bits OR 0x1f] @ base128 (unat (ucast ?num :: 64 word)))"
      using True writes_seq [OF writes_CBB_add_u8 writes_base128] by (simp only: add_tag_def Let_def ge if_True)
    ultimately show ?thesis by simp
  next
    case False
    have n: "unat (ucast ?num :: byte) = unat tag mod 2 ^ 29"
      using False by (simp add: unsigned_ucast_eq take_bit_nat_eq_self tag_number_nat)
    have "unat (?bits OR ucast ?num) = ?top * 32 + unat tag mod 2 ^ 29"
      using unat_or_low5 [OF tag_top_byte, of "ucast ?num" tag] False n by simp
    then have "byte_of (?top * 32 + unat tag mod 2 ^ 29) = ?bits OR ucast ?num" by (rule byte_of_eq)
    then have "der_tag tag = [?bits OR ucast ?num]"
      using False by (simp add: der_tag_def Let_def)
    then show ?thesis
      using False writes_CBB_add_u8 by (simp only: add_tag_def Let_def ge if_False)
  qed
qed

lemma opens_CBB_add_asn1: "opens d (CBB_add_asn1 tag d) (der_tag tag) 1 True"
proof (rule opens_intro)
  show "writes d (and_also (CBB_flush d) (add_tag tag d)) (der_tag tag)"
    using writes_seq [OF writes_flush writes_add_tag] by simp
  show "writes d (CBB_add_u8 0 d) (replicate 1 0)" using writes_CBB_add_u8 [of d 0] by simp
  show "CBB_add_asn1 tag d s = (case and_also (CBB_flush d) (add_tag tag d) s of (False, s1) \<Rightarrow> (False, s1)
      | (True, s1) \<Rightarrow> (case CBB_add_u8 0 d s1 of (False, s2) \<Rightarrow> (False, s2)
         | (True, s2) \<Rightarrow> (True, cbb_open_child d (cbb_base_len s1) 1 True s2)))" for s
    by (cases "CBB_flush d s") (simp add: CBB_add_asn1_def and_also_def add_tag_def Let_def)
qed

subsection \<open>Elements\<close>

text \<open>Add an element with the given tag and let \<open>g\<close> write its contents.\<close>

definition add_element :: "32 word \<Rightarrow> (nat \<Rightarrow> CBB step) \<Rightarrow> nat \<Rightarrow> CBB step" where
  "add_element tag g d = and_also (CBB_add_asn1 tag d) (and_also (g (d + 1)) (CBB_flush d))"

lemma writes_element:
  assumes "writes (d + 1) (g (d + 1)) body" and "length body \<le> 0xfffffffe"
  shows "writes d (add_element tag g d) (der_element tag body)"
  using writes_child [OF opens_CBB_add_asn1 assms(1) _ _ _ wrap_asn1 [OF assms(2)]]
  by (simp add: add_element_def der_element_def der_header_def)

lemma element_too_long:
  assumes "writes (d + 1) (g (d + 1)) body" and "0xfffffffe < length body" and "writer_state d s b"
  shows "\<not> fst (add_element tag g d s)"
  unfolding add_element_def
  using opens_CBB_add_asn1 assms(1)
proof (rule child_too_long)
  show "wrap (child_frame 0 1 True) body = None" using assms(2) by (simp add: wrap_def child_frame_def)
qed (use assms(3) in simp_all)

interpretation w_element: cbb_codec "\<lambda>(c, tag). der_element tag c" "parsed CBS_get_any_asn1" "\<lambda>(c, tag). length c < 2 ^ 32"
  "\<lambda>(c, tag). add_element tag (CBB_add_bytes c)" "\<lambda>(c, tag). length c \<le> 0xfffffffe"
proof
  fix x :: "byte list \<times> 32 word"
  assume "case x of (c, tag) \<Rightarrow> length c \<le> 0xfffffffe"
  then show "writes d ((case x of (c, tag) \<Rightarrow> add_element tag (CBB_add_bytes c)) d) (case x of (c, tag) \<Rightarrow> der_element tag c)"
    "case x of (c, tag) \<Rightarrow> length c < 2 ^ 32" "length (case x of (c, tag) \<Rightarrow> der_element tag c) < 2 ^ 64" for d
    using der_element_bound [of "fst x" "snd x"]
    by (auto intro!: writes_element writes_CBB_add_bytes split: prod.splits)
qed

lemma CBB_add_asn1_octet_string_eq: "CBB_add_asn1_octet_string c = add_element CBS_ASN1_OCTETSTRING (CBB_add_bytes c)"
  by (intro ext) (simp add: CBB_add_asn1_octet_string_def add_element_def)

lemma CBB_add_asn1_bool_eq: "CBB_add_asn1_bool v = add_element CBS_ASN1_BOOLEAN (CBB_add_u8 (if v then 0xff else 0))"
  by (intro ext) (simp add: CBB_add_asn1_bool_def add_element_def)

lemma der_octet_string_codec:
  "nonempty_codec (der_element tag) (parsed (CBS_get_asn1 tag)) (\<lambda>c. length c < 2 ^ 32)"
  by unfold_locales (simp_all add: parsed_Some_iff CBS_get_asn1_iff, simp add: der_element_def der_header_def der_tag.enc_nonempty)

interpretation w_octet_string: cbb_codec "der_element CBS_ASN1_OCTETSTRING" "parsed (CBS_get_asn1 CBS_ASN1_OCTETSTRING)"
  "\<lambda>c. length c < 2 ^ 32" CBB_add_asn1_octet_string "\<lambda>c. length c \<le> 0xfffffffe"
proof (rule cbb_codec.intro [OF nonempty_codec.axioms(1) [OF der_octet_string_codec]], unfold_locales)
  fix c :: "byte list" and d
  assume c: "length c \<le> 0xfffffffe"
  then show "writes d (CBB_add_asn1_octet_string c d) (der_element CBS_ASN1_OCTETSTRING c)"
    unfolding CBB_add_asn1_octet_string_eq by (intro writes_element writes_CBB_add_bytes) simp_all
  show "length c < 2 ^ 32" using c by simp
  then show "length (der_element CBS_ASN1_OCTETSTRING c) < 2 ^ 64"
    using der_element_bound [of c CBS_ASN1_OCTETSTRING] by simp
qed

interpretation w_bool: cbb_codec "\<lambda>v. der_element CBS_ASN1_BOOLEAN [if v then 0xff else 0]" "parsed CBS_get_asn1_bool"
  "\<lambda>_. True" CBB_add_asn1_bool "\<lambda>_. True"
proof
  fix v d
  show "writes d (CBB_add_asn1_bool v d) (der_element CBS_ASN1_BOOLEAN [if v then 0xff else 0])"
    unfolding CBB_add_asn1_bool_eq by (intro writes_element writes_CBB_add_u8) simp
  show "length (der_element CBS_ASN1_BOOLEAN [if v then 0xff else 0]) < 2 ^ 64"
    using der_element_bound [of "[if v then 0xff else 0]" CBS_ASN1_BOOLEAN] by simp
qed simp

subsection \<open>Integers\<close>

text \<open>The contents that the loop over the bytes of an unsigned value emits.\<close>

definition pad :: "byte list \<Rightarrow> byte list" where
  "pad bs = (if bs \<noteq> [] \<and> hd bs AND 0x80 \<noteq> 0 then 0 # bs else bs)"

lemma be_bytes_Cons: "be_bytes (Suc k) v = byte_of (v div 256 ^ k) # be_bytes k v"
proof (induction k arbitrary: v)
  case 0
  have "(of_nat (v mod 256) :: byte) = of_nat v" by (simp add: word_unat_eq_iff)
  then show ?case by (simp add: byte_of_def)
next
  case (Suc k)
  have "be_bytes (Suc (Suc k)) v = be_bytes (Suc k) (v div 256) @ [of_nat (v mod 256)]" by simp
  also have "\<dots> = byte_of (v div 256 div 256 ^ k) # be_bytes k (v div 256) @ [of_nat (v mod 256)]"
    by (simp only: Suc.IH append_Cons)
  finally show ?case by (simp add: div_mult2_eq)
qed

lemma be_bytes_mod: "be_bytes k (v mod 256 ^ k) = be_bytes k v"
  by (rule be_value_inj) simp_all

lemma uint64_byte: "ucast (drop_bit (8 * k) v) AND (0xff :: byte) = byte_of (unat (v :: 64 word) div 256 ^ k)"
proof -
  have "unat (w AND mask 8) = unat (w :: byte)" for w by (simp only: unat_and_mask) simp
  then have "w AND 0xff = w" for w :: byte by (simp add: word_unat_eq_iff mask_eq_exp_minus_1)
  then have "ucast (drop_bit (8 * k) v) AND (0xff :: byte) = ucast (drop_bit (8 * k) v)" .
  also have "\<dots> = byte_of (unat v div 256 ^ k)"
    by (simp add: byte_of_def word_unat_eq_iff unsigned_ucast_eq take_bit_eq_mod unat_drop_bit power_mult)
  finally show ?thesis .
qed

definition drop_started :: "bool \<times> bool \<times> CBB \<Rightarrow> bool \<times> CBB" where
  "drop_started r = (case r of (ok, _, s) \<Rightarrow> (ok, s))"

lemma uint64_loop_started:
  "add_asn1_uint64_loop v k True d s = (case add_u8s (be_bytes k (unat v)) d s of (ok, s') \<Rightarrow> (ok, True, s'))"
  by (induction k arbitrary: s)
    (simp_all add: uint64_byte be_bytes_Cons and_also_def Let_def split: prod.split bool.split del: be_bytes.simps(2))

lemma uint64_loop_not_started:
  "drop_started (add_asn1_uint64_loop v k False d s) = add_u8s (pad (dropWhile ((=) 0) (be_bytes k (unat v)))) d s \<and>
   (fst (add_asn1_uint64_loop v k False d s) \<longrightarrow>
     (fst (snd (add_asn1_uint64_loop v k False d s)) \<longleftrightarrow> dropWhile ((=) 0) (be_bytes k (unat v)) \<noteq> []))"
proof (induction k)
  case 0
  then show ?case by (simp add: pad_def drop_started_def)
next
  case (Suc k)
  let ?b = "byte_of (unat v div 256 ^ k)"
  show ?case
  proof (cases "?b = 0")
    case True
    with Suc show ?thesis by (simp add: uint64_byte be_bytes_Cons Let_def del: be_bytes.simps(2))
  next
    case False
    then show ?thesis
      by (simp add: uint64_byte be_bytes_Cons Let_def drop_started_def uint64_loop_started pad_def and_also_def
          split: prod.split bool.split del: be_bytes.simps(2))
  qed
qed

lemma shortest_leading_zero:
  "shortest (0 # bs) = (let r = dropWhile ((=) 0) bs in if r = [] then [0] else pad r)"
proof (induction bs)
  case Nil
  then show ?case by simp
next
  case (Cons b bs)
  have s: "sign_byte (b # bs) = 0 \<longleftrightarrow> b AND 0x80 = 0"
    by (simp add: sign_byte_def negative_def byte_high_bit)
  show ?case
  proof (cases "b = 0")
    case True
    with s have "shortest (0 # b # bs) = shortest (0 # bs)" by simp
    with Cons True show ?thesis by simp
  next
    case False
    have "shortest (b # bs) = b # bs" if "b AND 0x80 = 0"
    proof -
      have "b \<noteq> 0xff" using that by (auto simp: byte_high_bit)
      with False show ?thesis by (cases bs) (auto simp: sign_byte_def)
    qed
    with False s show ?thesis by (auto simp: Let_def pad_def)
  qed
qed

lemma der_int_uint64: "der_int (int (unat (v :: 64 word))) = shortest (0 # be_bytes 8 (unat v))"
proof -
  have lt: "unat v < 2 ^ 64" using unsigned_less [of v, where ?'a = nat] by simp
  have "int (unat v) mod 256 ^ 9 = int (unat v mod 256 ^ 9)" by (simp only: of_nat_mod of_nat_power of_nat_numeral)
  also have "unat v mod 256 ^ 9 = unat v" using lt by simp
  finally have "nat (int (unat v) mod 256 ^ 9) = unat v" by (simp only: nat_int)
  moreover have "be_bytes (Suc 8) (unat v) = 0 # be_bytes 8 (unat v)"
    using lt by (simp only: be_bytes_Cons) (simp add: byte_of_def)
  then have "be_bytes 9 (unat v) = 0 # be_bytes 8 (unat v)" by simp
  ultimately show ?thesis by (simp only: der_int_def)
qed

lemma CBB_add_asn1_uint64_eq:
  "CBB_add_asn1_uint64 v = add_element CBS_ASN1_INTEGER (add_u8s (der_int (int (unat v))))"
proof (intro ext)
  fix d s
  let ?r = "dropWhile ((=) 0) (be_bytes 8 (unat v))"
  have body: "(case add_asn1_uint64_loop v 8 False (d + 1) s1 of
          (False, _, s2) \<Rightarrow> (False, s2)
        | (True, started, s2) \<Rightarrow>
            (case (if \<not> started then CBB_add_u8 0 (d + 1) s2 else (True, s2)) of
               (False, s3) \<Rightarrow> (False, s3)
             | (True, s3) \<Rightarrow> CBB_flush d s3))
     = and_also (add_u8s (der_int (int (unat v))) (d + 1)) (CBB_flush d) s1" for s1
  proof -
    obtain ok st s2 where l: "add_asn1_uint64_loop v 8 False (d + 1) s1 = (ok, st, s2)" by (rule prod_cases3)
    then have u: "add_u8s (pad ?r) (d + 1) s1 = (ok, s2)" and st: "ok \<longrightarrow> (st \<longleftrightarrow> ?r \<noteq> [])"
      using uint64_loop_not_started [of v 8 "d + 1" s1] by (simp_all add: drop_started_def)
    have c: "der_int (int (unat v)) = (if ?r = [] then [0] else pad ?r)"
      by (simp only: der_int_uint64 shortest_leading_zero Let_def)
    show ?thesis
    proof (cases "?r = []")
      case True
      with u st have "ok" "s2 = s1" "\<not> st" by (simp_all add: pad_def)
      with True show ?thesis unfolding c l by (simp add: and_also_def split: prod.split bool.split)
    next
      case False
      with u st show ?thesis unfolding c l by (auto simp add: and_also_def split: prod.split bool.split)
    qed
  qed
  show "CBB_add_asn1_uint64 v d s = add_element CBS_ASN1_INTEGER (add_u8s (der_int (int (unat v)))) d s"
    unfolding CBB_add_asn1_uint64_def add_element_def body
    by (simp add: and_also_def split: prod.split bool.split)
qed

lemma der_int_ne: "der_int i \<noteq> []"
  using der_int_shortest(1) [of i] by (simp add: is_shortest_def)

lemma writes_der_int: "writes d (add_element CBS_ASN1_INTEGER (add_u8s (der_int i)) d) (der_element CBS_ASN1_INTEGER (der_int i))"
proof (rule writes_element)
  show "writes (d + 1) (add_u8s (der_int i) (d + 1)) (der_int i)" using der_int_ne by (rule writes_add_u8s)
  show "length (der_int i) \<le> 0xfffffffe" using der_int_shortest(2) [of i] by simp
qed

lemma der_int_element_bound: "length (der_element CBS_ASN1_INTEGER (der_int i)) < 2 ^ 64"
proof -
  have "length (der_int i) < 2 ^ 32" using der_int_shortest(2) [of i] by simp
  then show ?thesis using der_element_bound [of "der_int i" CBS_ASN1_INTEGER] by simp
qed

interpretation w_uint64: cbb_codec "\<lambda>v. der_element CBS_ASN1_INTEGER (der_int (int (unat v)))" "parsed CBS_get_asn1_uint64"
  "\<lambda>_. True" CBB_add_asn1_uint64 "\<lambda>_. True"
  by unfold_locales (simp_all only: CBB_add_asn1_uint64_eq writes_der_int der_int_element_bound)

text \<open>Negative values: the loop drops the leading \<open>0xff\<close> bytes that repeat the sign.\<close>

lemma add_int64_loop_eq: "n \<le> length u \<Longrightarrow> add_int64_loop u n d s = add_u8s (rev (take n u)) d s"
  by (induction n arbitrary: s) (simp_all add: take_Suc_conv_app_nth and_also_def split: prod.split)

lemma int64_start_bound: "int64_start u n \<le> n"
  by (induction n) (auto simp: le_SucI)

lemma int64_start_shortest:
  assumes "n < length u" and "u ! n AND 0x80 \<noteq> 0"
  shows "rev (take (Suc (int64_start u n)) u) = shortest (rev (take (Suc n) u))"
  using assms
proof (induction n)
  case 0
  then show ?case by (simp add: take_Suc_conv_app_nth)
next
  case (Suc n)
  have r: "rev (take (Suc (Suc n)) u) = u ! Suc n # u ! n # rev (take n u)"
    using Suc.prems(1) by (simp add: take_Suc_conv_app_nth)
  have r': "rev (take (Suc n) u) = u ! n # rev (take n u)"
    using Suc.prems(1) by (simp add: take_Suc_conv_app_nth)
  have sg: "sign_byte (u ! n # rev (take n u)) = (if u ! n AND 0x80 \<noteq> 0 then 0xff else 0)"
    by (simp add: sign_byte_def negative_def byte_high_bit)
  show ?case
  proof (cases "u ! Suc n = 0xff \<and> u ! n AND 0x80 \<noteq> 0")
    case True
    with Suc sg show ?thesis by (simp add: r r' del: take_Suc)
  next
    case False
    have "u ! Suc n \<noteq> 0" using Suc.prems(2) by auto
    with False sg have "u ! Suc n \<noteq> sign_byte (u ! n # rev (take n u))" by auto
    then have "shortest (rev (take (Suc (Suc n)) u)) = rev (take (Suc (Suc n)) u)" by (simp add: r)
    moreover have "int64_start u (Suc n) = Suc n" using False by auto
    ultimately show ?thesis by simp
  qed
qed

lemma der_int_int64:
  assumes "sint (v :: 64 word) < 0"
  shows "der_int (sint v) = rev (take (int64_start (bytes_of_int64 v) 7 + 1) (bytes_of_int64 v))"
proof -
  have rng: "- (2 ^ 63) \<le> sint v" "sint v < 2 ^ 63"
    using sint_greater_eq [of v] sint_less [of v] by simp_all
  have "(sint v) mod 2 ^ 64 = uint v" by (simp add: uint_sint take_bit_eq_mod)
  then have n: "nat (sint v mod 256 ^ 8) = unat v" by simp
  have d: "der_int (sint v) = shortest (be_bytes 8 (unat v))"
    using der_int_eq [of 7 "sint v"] rng n by (simp del: be_bytes.simps)
  have tc: "tc_value (be_bytes 8 (unat v)) = sint v"
    using tc_value_bytes [of 7 "sint v"] rng n by (simp del: be_bytes.simps)
  have "negative (be_bytes 8 (unat v))"
    using tc assms tc_value_nonneg [of "be_bytes 8 (unat v)"] by (metis of_nat_less_0_iff)
  then have ne: "be_bytes 8 (unat v) \<noteq> []" and "hd (be_bytes 8 (unat v)) AND 0x80 \<noteq> 0"
    by (simp_all add: negative_def byte_high_bit)
  moreover have "hd (be_bytes 8 (unat v)) = bytes_of_int64 v ! 7"
    using ne by (simp add: bytes_of_int64_def rev_nth hd_conv_nth del: be_bytes.simps)
  moreover have "rev (take (Suc 7) (bytes_of_int64 v)) = be_bytes 8 (unat v)"
    by (simp add: bytes_of_int64_def del: be_bytes.simps)
  moreover have "7 < length (bytes_of_int64 v)" by (simp add: bytes_of_int64_def del: be_bytes.simps)
  ultimately show ?thesis
    using int64_start_shortest [of 7 "bytes_of_int64 v"] d by (simp only: Suc_eq_plus1 [symmetric] simp_thms)
qed

lemma CBB_add_asn1_int64_eq:
  "CBB_add_asn1_int64 v = add_element CBS_ASN1_INTEGER (add_u8s (der_int (sint v)))"
proof (intro ext)
  fix d s
  show "CBB_add_asn1_int64 v d s = add_element CBS_ASN1_INTEGER (add_u8s (der_int (sint v))) d s"
  proof (cases "0 \<le> sint v")
    case True
    then have "sint v = int (unat v)" using sint_less [of v] by (simp add: uint_sint take_bit_int_eq_self)
    with True show ?thesis by (simp only: CBB_add_asn1_int64_def CBB_add_asn1_uint64_eq if_True)
  next
    case False
    let ?u = "bytes_of_int64 v"
    have "int64_start ?u 7 + 1 \<le> length ?u"
      using int64_start_bound [of ?u 7] by (simp add: bytes_of_int64_def del: be_bytes.simps)
    then have "add_int64_loop ?u (int64_start ?u 7 + 1) = add_u8s (der_int (sint v))"
      using False by (intro ext) (simp only: add_int64_loop_eq der_int_int64 not_le)
    with False show ?thesis
      by (simp add: CBB_add_asn1_int64_def add_element_def Let_def and_also_def split: prod.split bool.split del: int64_start.simps add_int64_loop.simps)
  qed
qed

interpretation w_int64: cbb_codec "\<lambda>v. der_element CBS_ASN1_INTEGER (der_int (sint v))" "parsed CBS_get_asn1_int64"
  "\<lambda>_. True" CBB_add_asn1_int64 "\<lambda>_. True"
  by unfold_locales (simp_all only: CBB_add_asn1_int64_eq writes_der_int der_int_element_bound)

subsection \<open>SET OF\<close>

text \<open>The comparison function is the lexicographic order of byte strings, and the sort sorts by it.\<close>

lemma OPENSSL_memcmp_less:
  "compare_set_of_element (a # as) (b # bs) = (if a = b then compare_set_of_element as bs else if a < b then -1 else 1)"
  by (auto simp: compare_set_of_element_def Let_def CBS_len_def CBS_data_def)

lemma compare_set_of_element_le: "compare_set_of_element a b \<le> 0 \<longleftrightarrow> a \<le> b"
proof (induction a arbitrary: b)
  case Nil
  then show ?case by (auto simp: compare_set_of_element_def Let_def CBS_len_def CBS_data_def)
next
  case (Cons x a)
  show ?case
  proof (cases b)
    case Nil
    then show ?thesis by (simp add: compare_set_of_element_def Let_def CBS_len_def CBS_data_def)
  next
    case (Cons y b')
    then show ?thesis using Cons.IH [of b'] by (auto simp: OPENSSL_memcmp_less)
  qed
qed

lemma compare_set_of_element_Nil: "compare_set_of_element [] b = (if b = [] then 0 else -1)"
  by (simp add: compare_set_of_element_def Let_def CBS_len_def CBS_data_def)

lemma compare_set_of_element_zero: "compare_set_of_element a b = 0 \<longleftrightarrow> a = b"
proof (induction a arbitrary: b)
  case (Cons x a)
  show ?case
  proof (cases b)
    case Nil
    then show ?thesis by (simp add: compare_set_of_element_def Let_def CBS_len_def CBS_data_def)
  next
    case (Cons y b')
    then show ?thesis using Cons.IH [of b'] by (simp add: OPENSSL_memcmp_less)
  qed
qed (auto simp: compare_set_of_element_Nil)

lemma compare_set_of_element_less: "compare_set_of_element a b < 0 \<longleftrightarrow> a < b"
  using compare_set_of_element_le [of a b] compare_set_of_element_zero [of a b] by (auto simp: order.strict_iff_order)

interpretation set_of_order: comparison compare_set_of_element
proof
  fix a b c
  show "compare_set_of_element a b < 0 \<longleftrightarrow> 0 < compare_set_of_element b a"
    by (metis compare_set_of_element_le compare_set_of_element_less linorder_not_less)
  show "compare_set_of_element a b \<le> 0 \<Longrightarrow> compare_set_of_element b c \<le> 0 \<Longrightarrow> compare_set_of_element a c \<le> 0"
    by (simp only: compare_set_of_element_le)
qed

lemma qsort_insert_eq: "qsort_insert compare_set_of_element x xs = insort x xs"
  by (induction xs) (simp_all add: compare_set_of_element_le)

lemma qsort_eq_sort: "qsort compare_set_of_element xs = sort xs"
  unfolding qsort_def by (induction xs) (simp_all add: qsort_insert_eq)

definition is_der_element :: "byte list \<Rightarrow> bool" where
  "is_der_element e \<longleftrightarrow> (\<exists>tag c. length c < 2 ^ 32 \<and> e = der_element tag c)"

lemma set_of_children_sound:
  "set_of_children fuel s = Some els \<Longrightarrow> s = concat els \<and> (\<forall>e \<in> set els. is_der_element e)"
proof (induction fuel s arbitrary: els rule: set_of_children.induct)
  case (3 fuel b cbs)
  then obtain el tag hl cbs' els' where e: "CBS_get_any_asn1_element (b # cbs) = (Some (el, tag, hl), cbs')"
    and r: "set_of_children fuel cbs' = Some els'" and els: "els = el # els'"
    by (auto split: prod.splits option.splits)
  obtain c where "length c < 2 ^ 32" "el = der_element tag c" "b # cbs = el @ cbs'"
    using e by (rule get_any_asn1_element_sound)
  with "3.IH" [OF e [symmetric] refl refl refl r] els show ?case by (auto simp: is_der_element_def)
qed simp_all

lemma set_of_children_complete:
  "\<forall>e \<in> set els. is_der_element e \<Longrightarrow> length (concat els) \<le> fuel \<Longrightarrow> set_of_children fuel (concat els) = Some els"
proof (induction els arbitrary: fuel)
  case Nil
  then show ?case by (cases fuel) simp_all
next
  case (Cons e els)
  then obtain tag c where c: "length c < 2 ^ 32" "e = der_element tag c" by (auto simp: is_der_element_def)
  have "e \<noteq> []" using der_element.enc_nonempty [of "(c, tag)"] c by simp
  then obtain b e' where e: "e = b # e'" by (cases e) auto
  with Cons.prems obtain f where f: "fuel = Suc f" "length (concat els) \<le> f" by (cases fuel) auto
  have "CBS_get_any_asn1_element (b # e' @ concat els) = (Some (e, tag, length (der_header tag (length c))), concat els)"
    using get_any_asn1_element_complete [OF c(1), of tag "concat els"] unfolding c(2) [symmetric] e by simp
  with Cons f e show ?case by simp
qed

lemma writes_add_children:
  "els \<noteq> [] \<Longrightarrow> \<forall>e \<in> set els. length e < 2 ^ 64 \<Longrightarrow> writes d (add_children els d) (concat els)"
proof (induction els)
  case (Cons e els)
  show ?case
  proof (cases "els = []")
    case True
    have "add_children [e] d = CBB_add_bytes e d" by (rule ext) (simp add: and_also_def split: prod.split)
    with True Cons.prems show ?thesis by (simp add: writes_CBB_add_bytes)
  next
    case False
    have "add_children (e # els) d = and_also (CBB_add_bytes e d) (add_children els d)" by (rule ext) simp
    with False Cons show ?thesis by (simp add: writes_seq writes_CBB_add_bytes)
  qed
qed simp

lemma is_der_element_length: "is_der_element e \<Longrightarrow> length e < 2 ^ 64"
proof -
  assume "is_der_element e"
  then obtain tag c where "length c < 2 ^ 32" and e: "e = der_element tag c" by (auto simp: is_der_element_def)
  then have "length (der_element tag c) < 2 ^ 33" by (intro der_element_bound)
  then show ?thesis by (simp add: e)
qed

lemma flush_set_of_ok:
  assumes "CBB_flush_asn1_set_of malloc d s = (True, s')" and st: "writer_state d s b"
  obtains cs els b' where "flushed d s b = Some cs" and "drop (CBB_start d s) cs = concat els"
    and "\<forall>e \<in> set els. is_der_element e" and "s' = after_write d s b'"
    and "holds b (take (CBB_start d s) cs @ concat (sort els)) b'"
proof -
  from assms(1) obtain s1 els where s1: "CBB_flush d s = (True, s1)"
    and els: "set_of_children (CBB_len d s1) (CBB_data d s1) = Some els"
    by (auto simp: CBB_flush_asn1_set_of_def split: prod.splits bool.splits option.splits)
  obtain cs b1 where 1: "flushed d s b = Some cs" "s1 = after_write d s b1" "holds b (cs @ []) b1"
    using writes_flush s1 st by (rule writes_ok)
  have d: "d \<le> length (children s)" using st by (simp add: writer_state_def)
  have start: "CBB_start d s1 = CBB_start d s" using d by (simp add: 1(2))
  have le: "CBB_start d s \<le> length cs" using st 1(1) by (rule flushed_start)
  have data: "CBB_data d s1 = drop (CBB_start d s) cs"
    using 1 start by (simp add: CBB_data_def) (simp add: after_write_def holds_def buffer_contents_def)
  with set_of_children_sound [OF els] have cc: "drop (CBB_start d s) cs = concat els" "\<forall>e \<in> set els. is_der_element e"
    by simp_all
  show thesis
  proof (cases "length els < 2")
    case True
    then have "sort els = els" by (cases els; cases "tl els") simp_all
    moreover have "s' = s1" using assms(1) s1 els True by (simp add: CBB_flush_asn1_set_of_def)
    ultimately show thesis
      using that [of cs els b1] 1 cc append_take_drop_id [of "CBB_start d s" cs] by simp
  next
    case False
    let ?b2 = "b1\<lparr>base_len := CBB_start d s\<rparr>"
    let ?s2 = "after_write d s ?b2"
    have s2: "s1\<lparr>base := map_option (\<lambda>b. b\<lparr>base_len := CBB_start d s1\<rparr>) (base s1)\<rparr> = ?s2"
      unfolding start by (cases s) (simp add: 1(2) after_write_def)
    from False assms(1) s1 els have add: "add_children (sort els) d ?s2 = (True, s')"
      by (simp add: CBB_flush_asn1_set_of_def Let_def qsort_eq_sort s2 [simplified] split: if_splits)
    have h2: "holds b (take (CBB_start d s) cs) ?b2"
    proof -
      have l: "base_len b1 = length cs" using holds_len [OF 1(3)] by simp
      have "take (CBB_start d s) (base_buf b1) = take (CBB_start d s) (take (length cs) (base_buf b1))"
        using le by (simp add: min_def)
      also have "take (length cs) (base_buf b1) = cs" using 1(3) l by (simp add: holds_def buffer_contents_def)
      finally show ?thesis using 1(3) le l by (simp add: holds_def wf_buffer_def buffer_contents_def)
    qed
    note w2 = writer_state_after_write [OF st h2]
    have "els \<noteq> []" using False by auto
    moreover from this have "sort els \<noteq> []" by (metis set_empty set_sort)
    moreover have "\<forall>e \<in> set (sort els). length e < 2 ^ 64" using cc(2) is_der_element_length by simp
    ultimately have "writes d (add_children (sort els) d) (concat (sort els))" by (intro writes_add_children)
    then obtain b' where "s' = after_write d ?s2 b'" "holds ?b2 (take (CBB_start d s) cs @ concat (sort els)) b'"
      using add w2(1) by (rule writes_ok) (use le w2(2) in auto)
    then show thesis
      using that [of cs els b'] 1(1) cc holds_trans [OF h2] by (simp add: after_write_idem)
  qed
qed

end
