(* ===== verification/Oid.thy ===== *)
theory Oid
  imports Cbb_Asn1
begin

text \<open>
  Object identifiers as text: \<open>CBB_add_asn1_oid_from_text\<close> of \<open>cbb.c\<close> and
  \<open>CBS_asn1_oid_to_text\<close> of \<open>cbs.c\<close>. The specification is a list of components with its
  dotted decimal form (\<open>oid_text\<close>) and its DER contents (\<open>oid_der\<close>); the lemmas show that
  the two functions convert exactly between the two forms.
\<close>

subsection \<open>The code\<close>

text \<open>
  The loop of \<open>parse_dotted_decimal\<close>: \<open>out\<close> is \<open>*out\<close>. The text is in ASCII: 46 is
  \<open>.\<close>, 48 is \<open>0\<close> and 57 is \<open>9\<close>.
\<close>

definition UINT64_MAX :: "64 word" where
  "UINT64_MAX = 0xffffffffffffffff"

fun dotted_decimal_loop :: "64 word \<Rightarrow> bool \<Rightarrow> (CBS, 64 word) reader" where
  "dotted_decimal_loop out seen_digit [] = (if seen_digit then Some out else None, [])"
| "dotted_decimal_loop out seen_digit (u # cbs) =
     (if u = 46 \<and> CBS_len cbs > 0 then (if seen_digit then Some out else None, cbs)
      else if u < 48 \<or> u > 57 \<or> (seen_digit \<and> out = 0) \<or> out > UINT64_MAX div 10
              \<or> out * 10 > UINT64_MAX - ucast (u - 48) then (None, cbs)
      else dotted_decimal_loop (out * 10 + ucast (u - 48)) True cbs)"

definition parse_dotted_decimal :: "(CBS, 64 word) reader" where
  "parse_dotted_decimal cbs = dotted_decimal_loop 0 False cbs"

lemma dotted_decimal_loop_shrinks:
  "dotted_decimal_loop out seen (u # cbs) = (v, cbs') \<Longrightarrow> length cbs' \<le> length cbs"
proof (induction cbs arbitrary: out seen u)
  case Nil
  then show ?case by (auto simp: CBS_len_def split: if_splits)
next
  case (Cons c cbs)
  then show ?case by (fastforce simp del: dotted_decimal_loop.simps(2) simp: dotted_decimal_loop.simps(2) [of _ _ u] split: if_splits)
qed

lemma parse_dotted_decimal_shrinks:
  "parse_dotted_decimal cbs = (v, cbs') \<Longrightarrow> cbs \<noteq> [] \<Longrightarrow> length cbs' < length cbs"
  using dotted_decimal_loop_shrinks [of 0 False "hd cbs" "tl cbs" v cbs']
  by (cases cbs) (simp_all add: parse_dotted_decimal_def less_Suc_eq_le del: dotted_decimal_loop.simps)

text \<open>The remaining components, encoded unmodified.\<close>

function add_oid_components :: "CBS \<Rightarrow> nat \<Rightarrow> CBB step" where
  "add_oid_components cbs d s =
     (if CBS_len cbs = 0 then (True, s)
      else case parse_dotted_decimal cbs of
             (None, _) \<Rightarrow> (False, s)
           | (Some a, cbs') \<Rightarrow>
               (case add_base128_integer a d s of
                  (False, s') \<Rightarrow> (False, s')
                | (True, s') \<Rightarrow> add_oid_components cbs' d s'))"
  by pat_completeness auto
termination
  by (relation "measure (\<lambda>(cbs, d, s). length cbs)")
    (auto simp: CBS_len_def dest: parse_dotted_decimal_shrinks [OF sym])

definition CBB_add_asn1_oid_from_text :: "byte list \<Rightarrow> nat \<Rightarrow> nat \<Rightarrow> CBB step" where
  "CBB_add_asn1_oid_from_text text len d s = (case CBB_flush d s of
       (False, s1) \<Rightarrow> (False, s1)
     | (True, s1) \<Rightarrow>
         (case parse_dotted_decimal (CBS_init text len) of
            (None, _) \<Rightarrow> (False, s1)
          | (Some a, cbs1) \<Rightarrow>
              (case parse_dotted_decimal cbs1 of
                 (None, _) \<Rightarrow> (False, s1)
               | (Some b, cbs2) \<Rightarrow>
                   if a > 2 \<or> (a < 2 \<and> b > 39) \<or> b > UINT64_MAX - 80 then (False, s1)
                   else (case add_base128_integer (40 * a + b) d s1 of
                       (False, s2) \<Rightarrow> (False, s2)
                     | (True, s2) \<Rightarrow> add_oid_components cbs2 d s2))))"

text \<open>\<open>BIO_snprintf\<close> with the conversion for an unsigned 64-bit integer.\<close>

function decimal :: "nat \<Rightarrow> byte list" where
  "decimal n = (if n < 10 then [byte_of (48 + n)] else decimal (n div 10) @ [byte_of (48 + n mod 10)])"
  by pat_completeness auto
termination by (relation "measure id") auto

declare decimal.simps [simp del]

definition add_decimal :: "64 word \<Rightarrow> nat \<Rightarrow> CBB step" where
  "add_decimal v d = CBB_add_bytes (decimal (unat v)) d"

text \<open>Reading a base-128 integer takes at least one byte, also when it fails.\<close>

lemma parse_base128_loop_shrinks: "parse_base128_loop v s = (w, r) \<Longrightarrow> length r \<le> length s - 1"
  by (induction v s arbitrary: w r rule: parse_base128_loop.induct) (force simp: Let_def split: if_splits)+

lemma parse_base128_shrinks:
  "parse_base128_integer s = (v, r) \<Longrightarrow> s \<noteq> [] \<Longrightarrow> length r < length s"
  using parse_base128_loop_shrinks [of 0 s v r] by (cases s) (simp_all add: parse_base128_integer_def less_Suc_eq_le)

function oid_to_text_loop :: "CBS \<Rightarrow> CBB step" where
  "oid_to_text_loop copy cbb =
     (if CBS_len copy = 0 then (True, cbb)
      else case parse_base128_integer copy of
             (None, _) \<Rightarrow> (False, cbb)
           | (Some v, copy') \<Rightarrow>
               (case and_also (CBB_add_u8 46 0) (add_decimal v 0) cbb of
                  (False, cbb') \<Rightarrow> (False, cbb')
                | (True, cbb') \<Rightarrow> oid_to_text_loop copy' cbb'))"
  by pat_completeness auto
termination
  by (relation "measure (\<lambda>(copy, cbb). length copy)")
    (auto simp: CBS_len_def dest: parse_base128_shrinks [OF sym])

declare add_oid_components.simps [simp del] oid_to_text_loop.simps [simp del]

definition oid_to_text_first :: "64 word \<Rightarrow> CBB step" where
  "oid_to_text_first v =
     (if v \<ge> 80 then and_also (CBB_add_bytes [50, 46] 0) (add_decimal (v - 80) 0)
      else and_also (add_decimal (v div 40) 0) (and_also (CBB_add_u8 46 0) (add_decimal (v mod 40) 0)))"

definition CBS_asn1_oid_to_text :: "allocator \<Rightarrow> CBS \<Rightarrow> byte list option" where
  "CBS_asn1_oid_to_text malloc cbs = (case CBB_init malloc 32 of
       (False, _) \<Rightarrow> None
     | (True, cbb) \<Rightarrow>
         (case parse_base128_integer cbs of
            (None, _) \<Rightarrow> None
          | (Some v, copy) \<Rightarrow>
              (case oid_to_text_first v cbb of
                 (False, _) \<Rightarrow> None
               | (True, cbb1) \<Rightarrow>
                   (case oid_to_text_loop copy cbb1 of
                      (False, _) \<Rightarrow> None
                    | (True, cbb2) \<Rightarrow>
                        (case CBB_add_u8 0 0 cbb2 of
                           (False, _) \<Rightarrow> None
                         | (True, cbb3) \<Rightarrow> fst (CBB_finish True 0 cbb3))))))"

subsection \<open>Decimal numbers\<close>

lemma decimal_small: "n < 10 \<Longrightarrow> decimal n = [byte_of (48 + n)]"
  by (subst decimal.simps) simp

lemma decimal_step: "m \<noteq> 0 \<Longrightarrow> d < 10 \<Longrightarrow> decimal (m * 10 + d) = decimal m @ [byte_of (48 + d)]"
  by (subst decimal.simps) simp

lemma decimal_nonempty: "decimal n \<noteq> []"
  by (subst decimal.simps) simp

lemma decimal_no_dot: "46 \<notin> set (decimal n)"
proof (induction n rule: less_induct)
  case (less n)
  have "byte_of (48 + d) \<noteq> 46" if "d < 10" for d
  proof
    assume "byte_of (48 + d) = 46"
    then have "unat (byte_of (48 + d)) = 46" by simp
    with that show False by (simp add: unat_byte_of)
  qed
  with less show ?case by (subst decimal.simps) auto
qed

lemma digit_facts:
  assumes "d < 10"
  shows "\<not> byte_of (48 + d) < 48" and "\<not> byte_of (48 + d) > 57" and "byte_of (48 + d) \<noteq> 46"
    and "unat (ucast (byte_of (48 + d) - 48) :: 64 word) = d"
proof -
  have u: "unat (byte_of (48 + d)) = 48 + d" using assms by (intro unat_byte_of) simp
  with assms show "\<not> byte_of (48 + d) < 48" "\<not> byte_of (48 + d) > 57" "byte_of (48 + d) \<noteq> 46"
    by (simp_all add: word_less_nat_alt word_unat_eq_iff)
  have "unat (byte_of (48 + d) - 48) = d" using u by (subst unat_sub) (simp_all add: word_le_nat_alt)
  then show "unat (ucast (byte_of (48 + d) - 48) :: 64 word) = d" by simp
qed

lemma digit_byte:
  assumes "\<not> u < 48" and "\<not> u > (57 :: byte)"
  obtains d where "d < 10" and "u = byte_of (48 + d)"
proof -
  have "48 \<le> unat u" "unat u \<le> 57" using assms by (simp_all add: word_less_nat_alt not_less)
  then show thesis by (intro that [of "unat u - 48"]) simp_all
qed

text \<open>The overflow tests are exact.\<close>

lemma decimal_overflow:
  assumes "unat (ucast (u - 48) :: 64 word) = d" and "d < 10"
  shows "(out > UINT64_MAX div 10 \<or> out * 10 > UINT64_MAX - ucast ((u :: byte) - 48)) \<longleftrightarrow> 2 ^ 64 \<le> unat out * 10 + d"
    and "unat out * 10 + d < 2 ^ 64 \<Longrightarrow> unat (out * 10 + ucast (u - 48) :: 64 word) = unat out * 10 + d"
proof -
  let ?d = "ucast (u - 48) :: 64 word"
  have max: "unat UINT64_MAX = 2 ^ 64 - 1" by (simp add: UINT64_MAX_def)
  have a: "out > UINT64_MAX div 10 \<longleftrightarrow> (2 ^ 64 - 1) div 10 < unat out"
    by (simp add: word_less_nat_alt unat_div max)
  have s: "unat (UINT64_MAX - ?d) = 2 ^ 64 - 1 - d"
    using assms max by (subst unat_sub) (simp_all add: word_le_nat_alt)
  have m: "unat (out * 10) = unat out * 10" if "unat out \<le> (2 ^ 64 - 1) div 10"
    using that by (subst unat_mult_lem [THEN iffD1]) simp_all
  show "(out > UINT64_MAX div 10 \<or> out * 10 > UINT64_MAX - ?d) \<longleftrightarrow> 2 ^ 64 \<le> unat out * 10 + d"
  proof (cases "unat out \<le> (2 ^ 64 - 1) div 10")
    case True
    then have "out * 10 > UINT64_MAX - ?d \<longleftrightarrow> 2 ^ 64 - 1 - d < unat out * 10"
      by (simp only: word_less_nat_alt s m)
    with True a assms(2) show ?thesis by simp linarith
  next
    case False
    with a show ?thesis by simp
  qed
  assume lt: "unat out * 10 + d < 2 ^ 64"
  then have "unat (out * 10) = unat out * 10" by (intro m) simp
  then show "unat (out * 10 + ?d) = unat out * 10 + d"
    using lt assms(1) by (subst unat_add_lem [THEN iffD1]) simp_all
qed

lemma dotted_decimal_loop_decimal:
  "n < 2 ^ 64 \<Longrightarrow> dotted_decimal_loop 0 False (decimal n @ t) = dotted_decimal_loop (of_nat n) True t"
proof (induction n arbitrary: t rule: less_induct)
  case (less n)
  show ?case
  proof (cases "n < 10")
    case True
    note d = digit_facts [OF True]
    have "of_nat n = (ucast (byte_of (48 + n) - 48) :: 64 word)"
      by (rule unat_eqD [OF d(4), symmetric])
    with True d decimal_overflow(1) [OF d(4) True, of 0] show ?thesis by (simp add: decimal_small)
  next
    case False
    let ?m = "n div 10" and ?d = "n mod 10"
    have d: "?d < 10" by simp
    note f = digit_facts [OF d]
    have m: "?m \<noteq> 0" "?m < n" "?m < 2 ^ 64" using False less.prems by auto
    have dec: "decimal n = decimal ?m @ [byte_of (48 + ?d)]" using decimal_step [OF m(1) d] by simp
    have um: "unat (of_nat ?m :: 64 word) = ?m" using m(3) by (intro unat_of_nat_lt) simp
    then have ne: "(of_nat ?m :: 64 word) \<noteq> 0" using m(1) by (metis unsigned_0)
    note o = decimal_overflow [OF f(4) d, of "of_nat ?m", unfolded um]
    have "unat (of_nat ?m * 10 + ucast (byte_of (48 + ?d) - 48) :: 64 word) = n" using o(2) less.prems by simp
    then have step: "of_nat ?m * 10 + ucast (byte_of (48 + ?d) - 48) = (of_nat n :: 64 word)" by (rule unat_eqD)
    have "dotted_decimal_loop 0 False (decimal n @ t) = dotted_decimal_loop (of_nat ?m) True (byte_of (48 + ?d) # t)"
      using less.IH [OF m(2,3), of "byte_of (48 + ?d) # t"] by (simp add: dec)
    also have "\<dots> = dotted_decimal_loop (of_nat n) True t"
      using f(1-3) ne o(1) less.prems step by (simp add: dec)
    finally show ?thesis .
  qed
qed

text \<open>What separates a component from the rest of the text.\<close>

definition dot_sep :: "byte list \<Rightarrow> byte list" where
  "dot_sep r = (if r = [] then [] else 46 # r)"

lemma parse_dotted_decimal_complete:
  "n < 2 ^ 64 \<Longrightarrow> parse_dotted_decimal (decimal n @ dot_sep r) = (Some (of_nat n), r)"
  by (simp add: parse_dotted_decimal_def dotted_decimal_loop_decimal dot_sep_def CBS_len_def)

lemma dotted_decimal_loop_sound:
  "dotted_decimal_loop out seen s = (Some v, r) \<Longrightarrow> (seen \<or> out = 0) \<Longrightarrow>
   \<exists>ds. s = ds @ dot_sep r \<and> (if seen then decimal (unat out) @ ds else ds) = decimal (unat v)"
proof (induction out seen s rule: dotted_decimal_loop.induct)
  case (1 out seen)
  then show ?case by (auto simp: dot_sep_def split: if_splits)
next
  case (2 out seen u cbs)
  show ?case
  proof (cases "u = 46 \<and> CBS_len cbs > 0")
    case True
    with 2 show ?thesis by (auto simp: dot_sep_def CBS_len_def split: if_splits)
  next
    case False
    with "2.prems" have ok: "\<not> (u < 48 \<or> u > 57 \<or> (seen \<and> out = 0) \<or> out > UINT64_MAX div 10
        \<or> out * 10 > UINT64_MAX - ucast (u - 48))"
      and rest: "dotted_decimal_loop (out * 10 + ucast (u - 48)) True cbs = (Some v, r)"
      by (auto split: if_splits)
    from ok obtain d where d: "d < 10" and u: "u = byte_of (48 + d)" using digit_byte [of u] by blast
    have ud: "unat (ucast (u - 48) :: 64 word) = d" using digit_facts(4) [OF d] by (simp add: u)
    have n: "unat (out * 10 + ucast (u - 48) :: 64 word) = unat out * 10 + d"
      using ok decimal_overflow [OF ud d, of out] by auto
    obtain ds where ds: "cbs = ds @ dot_sep r" "decimal (unat out * 10 + d) @ ds = decimal (unat v)"
      using "2.IH" [OF False ok rest] by (auto simp: n)
    have "decimal (unat out * 10 + d) = (if seen then decimal (unat out) @ [u] else [u])"
      using ok "2.prems"(2) d by (auto simp: u decimal_small decimal_step unat_eq_0)
    with ds show ?thesis by (intro exI [of _ "u # ds"]) auto
  qed
qed

lemma parse_dotted_decimal_sound:
  "parse_dotted_decimal s = (Some v, r) \<Longrightarrow> s = decimal (unat v) @ dot_sep r"
  using dotted_decimal_loop_sound [of 0 False s v r] by (auto simp: parse_dotted_decimal_def)

subsection \<open>Object identifiers\<close>

fun dotted :: "nat list \<Rightarrow> byte list" where
  "dotted [] = []"
| "dotted (a # as) = decimal a @ dot_sep (dotted as)"

definition oid_contents :: "nat list \<Rightarrow> byte list" where
  "oid_contents as = concat (map base128 as)"

text \<open>
  An object identifier: two first components, which share a number in DER, and the others.
\<close>

fun valid_oid :: "nat list \<Rightarrow> bool" where
  "valid_oid (a # b # as) \<longleftrightarrow> a \<le> 2 \<and> (a < 2 \<longrightarrow> b \<le> 39) \<and> b < 2 ^ 64 - 80 \<and> (\<forall>c \<in> set as. c < 2 ^ 64)"
| "valid_oid _ \<longleftrightarrow> False"

fun oid_der :: "nat list \<Rightarrow> byte list" where
  "oid_der (a # b # as) = oid_contents ((40 * a + b) # as)"
| "oid_der _ = []"

lemma dotted_eq_Nil [simp]: "dotted as = [] \<longleftrightarrow> as = []"
  by (cases as) (simp_all add: decimal_nonempty)

lemma add_oid_components_Nil: "add_oid_components [] d s = (True, s)"
  by (subst add_oid_components.simps) (simp add: CBS_len_def)

lemma add_oid_components_Cons:
  assumes "a < 2 ^ 64"
  shows "add_oid_components (dotted (a # as)) d s
    = and_also (add_base128_integer (of_nat a) d) (add_oid_components (dotted as) d) s"
proof -
  have "CBS_len (dotted (a # as)) \<noteq> 0" by (simp add: CBS_len_def decimal_nonempty)
  then show ?thesis
    using parse_dotted_decimal_complete [OF assms, of "dotted as"]
    by (subst add_oid_components.simps) (simp add: and_also_def split: prod.split bool.split)
qed

lemma writes_base128_nat: "n < 2 ^ 64 \<Longrightarrow> writes d (add_base128_integer (of_nat n) d) (base128 n)"
  using writes_base128 [of d "of_nat n"] by (simp add: unat_of_nat_lt)

lemma and_also_assoc: "and_also f (and_also g h) = and_also (and_also f g) h"
  by (rule ext) (simp add: and_also_def split: prod.split)

lemma writes_add_oid_components:
  "writes d f xs \<Longrightarrow> \<forall>c \<in> set as. c < 2 ^ 64 \<Longrightarrow>
   writes d (and_also f (add_oid_components (dotted as) d)) (xs @ oid_contents as)"
proof (induction as arbitrary: f xs)
  case Nil
  have "and_also f (add_oid_components (dotted []) d) = f"
    by (rule ext) (simp add: and_also_def add_oid_components_Nil split: prod.split)
  with Nil show ?case by (simp only: oid_contents_def) simp
next
  case (Cons a as)
  have "add_oid_components (dotted (a # as)) d = and_also (add_base128_integer (of_nat a) d) (add_oid_components (dotted as) d)"
    using Cons.prems(2) by (intro ext add_oid_components_Cons) simp
  moreover have "writes d (and_also f (add_base128_integer (of_nat a) d)) (xs @ base128 a)"
    using Cons.prems by (intro writes_seq writes_base128_nat) simp_all
  ultimately show ?case
    using Cons.IH [of "and_also f (add_base128_integer (of_nat a) d)" "xs @ base128 a"] Cons.prems(2)
    by (simp add: oid_contents_def and_also_assoc del: dotted.simps)
qed

lemma add_oid_components_sound:
  "add_oid_components cbs d s = (True, s') \<Longrightarrow> \<exists>as. cbs = dotted as \<and> (\<forall>c \<in> set as. c < 2 ^ 64)"
proof (induction cbs d s rule: add_oid_components.induct)
  case (1 cbs d s)
  show ?case
  proof (cases "CBS_len cbs = 0")
    case True
    then show ?thesis by (intro exI [of _ "[]"]) (simp add: CBS_len_def)
  next
    case False
    with "1.prems" obtain a cbs' s1 where p: "parse_dotted_decimal cbs = (Some a, cbs')"
      and w: "add_base128_integer a d s = (True, s1)" and r: "add_oid_components cbs' d s1 = (True, s')"
      by (subst (asm) add_oid_components.simps) (auto split: prod.splits option.splits bool.splits)
    obtain as where "cbs' = dotted as" "\<forall>c \<in> set as. c < 2 ^ 64"
      using "1.IH" [OF False p [symmetric] refl w [symmetric] refl r] by auto
    moreover have "cbs = decimal (unat a) @ dot_sep cbs'" using p by (rule parse_dotted_decimal_sound)
    moreover have "unat a < 2 ^ 64" using unsigned_less [of a, where ?'a = nat] by simp
    ultimately show ?thesis by (intro exI [of _ "unat a # as"]) simp
  qed
qed

text \<open>From text to DER.\<close>

lemma oid_first_component:
  assumes "a \<le> 2" and "b < 2 ^ 64 - 80"
  shows "unat (40 * of_nat a + of_nat b :: 64 word) = 40 * a + b"
proof -
  have "(40 * of_nat a + of_nat b :: 64 word) = of_nat (40 * a + b)" by simp
  also have "unat \<dots> = 40 * a + b" using assms by (intro unat_of_nat_lt) simp
  finally show ?thesis .
qed

lemma oid_range_test:
  assumes "unat (a :: 64 word) = na" and "unat (b :: 64 word) = nb"
  shows "(a > 2 \<or> (a < 2 \<and> b > 39) \<or> b > UINT64_MAX - 80) \<longleftrightarrow> \<not> (na \<le> 2 \<and> (na < 2 \<longrightarrow> nb \<le> 39) \<and> nb < 2 ^ 64 - 80)"
  using assms by (auto simp: word_less_nat_alt UINT64_MAX_def)

lemma CBB_add_asn1_oid_from_text_eq:
  assumes "valid_oid (a # b # as)" and "dotted (a # b # as) = text"
  shows "CBB_add_asn1_oid_from_text text (length text) d
    = and_also (and_also (CBB_flush d) (add_base128_integer (40 * of_nat a + of_nat b) d)) (add_oid_components (dotted as) d)"
proof (rule ext)
  fix s
  have a: "a < 2 ^ 64" "b < 2 ^ 64" using assms(1) by simp_all
  have p1: "parse_dotted_decimal (CBS_init text (length text)) = (Some (of_nat a), dotted (b # as))"
    using parse_dotted_decimal_complete [OF a(1), of "dotted (b # as)"] assms(2) by (simp add: CBS_init_def)
  have p2: "parse_dotted_decimal (dotted (b # as)) = (Some (of_nat b), dotted as)"
    using parse_dotted_decimal_complete [OF a(2), of "dotted as"] by simp
  have "\<not> ((of_nat a :: 64 word) > 2 \<or> ((of_nat a :: 64 word) < 2 \<and> (of_nat b :: 64 word) > 39) \<or> (of_nat b :: 64 word) > UINT64_MAX - 80)"
    using assms(1) by (subst oid_range_test [of _ a _ b]) (simp_all add: unat_of_nat_lt)
  then show "CBB_add_asn1_oid_from_text text (length text) d s
    = and_also (and_also (CBB_flush d) (add_base128_integer (40 * of_nat a + of_nat b) d)) (add_oid_components (dotted as) d) s"
    unfolding CBB_add_asn1_oid_from_text_def
    by (simp only: p1 p2 prod.case option.case if_False) (simp add: and_also_def split: prod.split bool.split)
qed

lemma writes_oid_from_text:
  assumes "valid_oid as" and "text = dotted as"
  shows "writes d (CBB_add_asn1_oid_from_text text (length text) d) (oid_der as)"
proof -
  from assms(1) obtain a b cs where as: "as = a # b # cs" by (cases as rule: valid_oid.cases) auto
  have "writes d (and_also (CBB_flush d) (add_base128_integer (40 * of_nat a + of_nat b) d)) (base128 (40 * a + b))"
    using writes_seq [OF writes_flush writes_base128, of d "40 * of_nat a + of_nat b"] assms(1)
    by (simp only: as valid_oid.simps oid_first_component append.simps)
  then show ?thesis
    using writes_add_oid_components [of d _ _ cs] assms CBB_add_asn1_oid_from_text_eq [of a b cs "text" d]
    by (simp only: as valid_oid.simps oid_der.simps) (simp add: oid_contents_def)
qed

lemma oid_from_text_sound:
  assumes "CBB_add_asn1_oid_from_text text len d s = (True, s')"
  shows "\<exists>as. valid_oid as \<and> take len text = dotted as"
proof -
  from assms obtain s1 a cbs1 b cbs2 s2 where p1: "parse_dotted_decimal (CBS_init text len) = (Some a, cbs1)"
    and p2: "parse_dotted_decimal cbs1 = (Some b, cbs2)"
    and ok: "\<not> (a > 2 \<or> (a < 2 \<and> b > 39) \<or> b > UINT64_MAX - 80)"
    and r: "add_oid_components cbs2 d s2 = (True, s')"
    unfolding CBB_add_asn1_oid_from_text_def
    by (auto split: prod.splits option.splits bool.splits if_splits)
  obtain as where as: "cbs2 = dotted as" "\<forall>c \<in> set as. c < 2 ^ 64"
    using add_oid_components_sound [OF r] by blast
  have "take len text = dotted (unat a # unat b # as)"
    using parse_dotted_decimal_sound [OF p1] parse_dotted_decimal_sound [OF p2] as(1) by (simp add: CBS_init_def)
  moreover have "valid_oid (unat a # unat b # as)"
    using ok as(2) oid_range_test [OF refl refl, of a b] by simp
  ultimately show ?thesis by blast
qed

text \<open>From DER to text.\<close>

lemma parse_base128_complete_nat: "n < 2 ^ 64 \<Longrightarrow> parse_base128_integer (base128 n @ r) = (Some (of_nat n), r)"
  by (simp add: parse_base128_integer_def parse_base128_complete)

definition oid_text_rest :: "nat list \<Rightarrow> byte list" where
  "oid_text_rest as = concat (map (\<lambda>a. 46 # decimal a) as)"

lemma dotted_Cons: "dotted (a # as) = decimal a @ oid_text_rest as"
  by (induction as arbitrary: a) (simp_all add: dot_sep_def oid_text_rest_def decimal_nonempty)

lemma length_decimal: "length (decimal n) \<le> Suc n"
proof (induction n rule: less_induct)
  case (less n)
  show ?case
  proof (cases "n < 10")
    case False
    then have "length (decimal (n div 10)) \<le> Suc (n div 10)" by (intro less.IH) simp
    moreover have "Suc (n div 10) \<le> n" using False by simp
    ultimately show ?thesis using False by (subst decimal.simps) simp
  qed (simp add: decimal_small)
qed

lemma length_decimal_bound: "n < 2 ^ 64 \<Longrightarrow> length (decimal n) \<le> 20"
proof -
  have "n < 10 ^ k \<Longrightarrow> length (decimal n) \<le> max 1 k" for k
  proof (induction k arbitrary: n)
    case 0
    then show ?case by (simp add: decimal_small)
  next
    case (Suc k)
    show ?case
    proof (cases "n < 10")
      case False
      have "length (decimal (n div 10)) \<le> max 1 k"
        using Suc.prems by (intro Suc.IH) (simp add: div_less_iff_less_mult mult.commute)
      moreover have "1 \<le> k" using False Suc.prems by (cases k) auto
      ultimately show ?thesis using False by (subst decimal.simps) simp
    qed (simp add: decimal_small)
  qed
  from this [of 20] show "n < 2 ^ 64 \<Longrightarrow> length (decimal n) \<le> 20" by simp
qed

lemma writes_add_decimal: "writes d (add_decimal v d) (decimal (unat v))"
  unfolding add_decimal_def
  using length_decimal_bound [of "unat v"] unsigned_less [of v, where ?'a = nat]
  by (intro writes_CBB_add_bytes) simp

lemma oid_to_text_loop_Nil: "oid_to_text_loop [] s = (True, s)"
  by (subst oid_to_text_loop.simps) (simp add: CBS_len_def)

lemma oid_to_text_loop_Cons:
  assumes "a < 2 ^ 64"
  shows "oid_to_text_loop (base128 a @ r) s
    = and_also (and_also (CBB_add_u8 46 0) (add_decimal (of_nat a) 0)) (oid_to_text_loop r) s"
proof -
  have "CBS_len (base128 a @ r) \<noteq> 0" by (simp add: CBS_len_def base128_def)
  then show ?thesis
    using parse_base128_complete_nat [OF assms, of r]
    by (subst oid_to_text_loop.simps) (simp add: and_also_def split: prod.split bool.split)
qed

lemma writes_oid_to_text_loop:
  "writes 0 f xs \<Longrightarrow> \<forall>c \<in> set as. c < 2 ^ 64 \<Longrightarrow>
   writes 0 (and_also f (oid_to_text_loop (oid_contents as))) (xs @ oid_text_rest as)"
proof (induction as arbitrary: f xs)
  case Nil
  have "and_also f (oid_to_text_loop (oid_contents [])) = f"
    by (rule ext) (simp add: and_also_def oid_to_text_loop_Nil oid_contents_def split: prod.split)
  with Nil show ?case by (simp only: oid_text_rest_def) simp
next
  case (Cons a as)
  let ?g = "and_also (CBB_add_u8 46 0) (add_decimal (of_nat a) 0)"
  have a: "unat (of_nat a :: 64 word) = a" using Cons.prems(2) by (simp add: unat_of_nat_lt)
  have "oid_to_text_loop (oid_contents (a # as)) = and_also ?g (oid_to_text_loop (oid_contents as))"
    using Cons.prems(2) oid_to_text_loop_Cons [of a "oid_contents as"] by (intro ext) (simp add: oid_contents_def)
  moreover have "writes 0 ?g ([46] @ decimal a)"
    using writes_seq [OF writes_CBB_add_u8 writes_add_decimal [of 0 "of_nat a"], of 46] by (simp only: a)
  then have "writes 0 (and_also f ?g) (xs @ [46] @ decimal a)"
    using Cons.prems(1) by (rule writes_seq [rotated])
  ultimately show ?case
    using Cons.IH [of "and_also f ?g" "xs @ [46] @ decimal a"] Cons.prems(2)
    by (simp add: oid_text_rest_def and_also_assoc)
qed

lemma oid_to_text_loop_sound:
  "oid_to_text_loop copy s = (True, s') \<Longrightarrow> \<exists>as. copy = oid_contents as \<and> (\<forall>c \<in> set as. c < 2 ^ 64)"
proof (induction copy s rule: oid_to_text_loop.induct)
  case (1 copy s)
  show ?case
  proof (cases "CBS_len copy = 0")
    case True
    then show ?thesis by (intro exI [of _ "[]"]) (simp add: CBS_len_def oid_contents_def)
  next
    case False
    with "1.prems" obtain v copy' s1 where p: "parse_base128_integer copy = (Some v, copy')"
      and w: "and_also (CBB_add_u8 46 0) (add_decimal v 0) s = (True, s1)" and r: "oid_to_text_loop copy' s1 = (True, s')"
      by (subst (asm) oid_to_text_loop.simps) (auto split: prod.splits option.splits bool.splits)
    obtain as where "copy' = oid_contents as" "\<forall>c \<in> set as. c < 2 ^ 64"
      using "1.IH" [OF False p [symmetric] refl w [symmetric] refl r] by auto
    moreover have "copy = base128 (unat v) @ copy'"
      using base128.enc_dec [of copy v copy'] p by (simp add: parsed_Some_iff)
    moreover have "unat v < 2 ^ 64" using unsigned_less [of v, where ?'a = nat] by simp
    ultimately show ?thesis by (intro exI [of _ "unat v # as"]) (simp add: oid_contents_def)
  qed
qed

text \<open>The two components that a first number stands for.\<close>

definition split_first :: "nat \<Rightarrow> nat list" where
  "split_first n = (if n < 80 then [n div 40, n mod 40] else [2, n - 80])"

lemma split_first_join: "a \<le> 2 \<Longrightarrow> a < 2 \<longrightarrow> b \<le> 39 \<Longrightarrow> split_first (40 * a + b) = [a, b]"
proof -
  assume a: "a \<le> 2" and b: "a < 2 \<longrightarrow> b \<le> 39"
  then consider "a = 0" | "a = 1" | "a = 2" by linarith
  then show ?thesis using b by cases (auto simp: split_first_def)
qed

lemma writes_oid_to_text_first:
  "writes 0 (oid_to_text_first v) (dotted (split_first (unat v)))"
proof (cases "v \<ge> 80")
  case True
  then have n: "80 \<le> unat v" by (simp add: word_le_nat_alt)
  then have "unat (v - 80) = unat v - 80" by (subst unat_sub) (simp_all add: word_le_nat_alt)
  moreover have "dotted (split_first (unat v)) = [50, 46] @ decimal (unat v - 80)"
    using n by (simp add: split_first_def dot_sep_def decimal_nonempty decimal_small) (simp add: byte_of_def)
  moreover have "writes 0 (and_also (CBB_add_bytes [50, 46] 0) (add_decimal (v - 80) 0)) ([50, 46] @ decimal (unat (v - 80)))"
    by (intro writes_seq writes_CBB_add_bytes writes_add_decimal) simp
  ultimately show ?thesis using True by (simp add: oid_to_text_first_def)
next
  case False
  then have n: "unat v < 80" by (simp add: word_le_nat_alt)
  have "writes 0 (and_also (add_decimal (v div 40) 0) (and_also (CBB_add_u8 46 0) (add_decimal (v mod 40) 0)))
      (decimal (unat (v div 40)) @ [46] @ decimal (unat (v mod 40)))"
    by (intro writes_seq writes_CBB_add_u8 writes_add_decimal)
  then show ?thesis
    using False n by (simp add: oid_to_text_first_def split_first_def dot_sep_def decimal_nonempty unat_div unat_mod)
qed

lemma CBS_asn1_oid_to_text_eq:
  "CBS_asn1_oid_to_text malloc cbs = (case parse_base128_integer cbs of
       (None, _) \<Rightarrow> None
     | (Some v, copy) \<Rightarrow> cbb_build malloc 32
         (and_also (and_also (oid_to_text_first v) (oid_to_text_loop copy)) (CBB_add_u8 0 0)))"
proof -
  have "(case oid_to_text_first v s of
       (False, _) \<Rightarrow> None
     | (True, s1) \<Rightarrow> (case oid_to_text_loop copy s1 of
          (False, _) \<Rightarrow> None
        | (True, s2) \<Rightarrow> (case CBB_add_u8 0 0 s2 of (False, _) \<Rightarrow> None | (True, s3) \<Rightarrow> fst (CBB_finish True 0 s3))))
    = (case and_also (and_also (oid_to_text_first v) (oid_to_text_loop copy)) (CBB_add_u8 0 0) s of
         (False, _) \<Rightarrow> None | (True, s') \<Rightarrow> fst (CBB_finish True 0 s'))" for v copy s
    by (cases "oid_to_text_first v s"; cases "fst (oid_to_text_first v s)";
        cases "oid_to_text_loop copy (snd (oid_to_text_first v s))";
        cases "fst (oid_to_text_loop copy (snd (oid_to_text_first v s)))") (simp_all add: and_also_def)
  then show ?thesis
    by (cases "CBB_init malloc 32"; cases "parse_base128_integer cbs")
      (simp add: CBS_asn1_oid_to_text_def cbb_build_def cbb_run_def split: option.split bool.split)
qed

lemma writes_oid_to_text:
  assumes "\<forall>c \<in> set as. c < 2 ^ 64"
  shows "writes 0 (and_also (and_also (oid_to_text_first v) (oid_to_text_loop (oid_contents as))) (CBB_add_u8 0 0))
    (dotted (split_first (unat v) @ as) @ [0])"
proof -
  have "dotted (split_first (unat v) @ as) = dotted (split_first (unat v)) @ oid_text_rest as"
    by (simp only: split_first_def split: if_split) (simp add: dotted_Cons oid_text_rest_def del: dotted.simps(2))
  then show ?thesis
    using writes_seq [OF writes_oid_to_text_loop [OF writes_oid_to_text_first assms, of v] writes_CBB_add_u8 [of 0 0]]
    by simp
qed

lemma split_first_valid:
  "n < 2 ^ 64 \<Longrightarrow> \<forall>c \<in> set as. c < 2 ^ 64 \<Longrightarrow> valid_oid (split_first n @ as) \<and> oid_der (split_first n @ as) = oid_contents (n # as)"
  by (auto simp: split_first_def div_less_iff_less_mult)

lemma oid_to_text_sound:
  assumes "CBS_asn1_oid_to_text malloc s = Some t"
  shows "\<exists>as. valid_oid as \<and> s = oid_der as \<and> t = dotted as @ [0]"
proof -
  from assms obtain v copy where p: "parse_base128_integer s = (Some v, copy)"
    and b: "cbb_build malloc 32 (and_also (and_also (oid_to_text_first v) (oid_to_text_loop copy)) (CBB_add_u8 0 0)) = Some t"
    by (auto simp: CBS_asn1_oid_to_text_eq split: prod.splits option.splits)
  from b obtain s1 s2 where "oid_to_text_loop copy s1 = (True, s2)"
    by (auto simp: cbb_build_def cbb_run_def and_also_def split: prod.splits bool.splits if_splits)
  then obtain as where as: "copy = oid_contents as" "\<forall>c \<in> set as. c < 2 ^ 64"
    using oid_to_text_loop_sound by blast
  have "t = dotted (split_first (unat v) @ as) @ [0]"
    using cbb_build_sound [OF writes_oid_to_text [OF as(2), of v], of 32 malloc t] b as(1) by simp
  moreover have "unat v < 2 ^ 64" using unsigned_less [of v, where ?'a = nat] by simp
  then have "valid_oid (split_first (unat v) @ as) \<and> oid_der (split_first (unat v) @ as) = oid_contents (unat v # as)"
    using as(2) by (rule split_first_valid)
  moreover have "s = oid_contents (unat v # as)"
    using base128.enc_dec [of s v copy] p as(1) by (simp add: parsed_Some_iff oid_contents_def)
  ultimately show ?thesis by (intro exI [of _ "split_first (unat v) @ as"]) simp
qed

lemma oid_to_text_complete:
  assumes "valid_oid as" and "\<And>m. malloc m \<noteq> None" and "length (dotted as) < 2 ^ 63"
  shows "CBS_asn1_oid_to_text malloc (oid_der as) = Some (dotted as @ [0])"
proof -
  from assms(1) obtain a b cs where as: "as = a # b # cs" by (cases as rule: valid_oid.cases) auto
  have n: "40 * a + b < 2 ^ 64" and c: "\<forall>c \<in> set cs. c < 2 ^ 64" and sp: "split_first (40 * a + b) = [a, b]"
    using assms(1) split_first_join by (auto simp: as)
  have p: "parse_base128_integer (oid_der as) = (Some (of_nat (40 * a + b)), oid_contents cs)"
    using parse_base128_complete_nat [OF n, of "oid_contents cs"] by (simp add: as oid_contents_def)
  have u: "unat (of_nat (40 * a + b) :: 64 word) = 40 * a + b" using n by (intro unat_of_nat_lt) simp
  have "writes 0 (and_also (and_also (oid_to_text_first (of_nat (40 * a + b))) (oid_to_text_loop (oid_contents cs))) (CBB_add_u8 0 0))
      (dotted as @ [0])"
    using writes_oid_to_text [OF c, of "of_nat (40 * a + b)"] unfolding u sp as by simp
  then show ?thesis
    unfolding CBS_asn1_oid_to_text_eq p prod.case option.case
    by (rule cbb_build_total) (use assms(2,3) in simp_all)
qed

end
