(* ===== verification/Cbb_Ops.thy ===== *)
theory Cbb_Ops
  imports Oid
begin

text \<open>
  Runs of the operations of \<open>crypto/bytestring/cbb.c\<close>. An operation is a datum, so that a run is a list of
  operations with the depths of the CBBs they are called on, whatever their results. Three facts hold for
  every run: an operation that fails sets the error flag (all but \<open>CBB_did_write\<close> and the parsers of OIDs and SETs),
  on a poisoned buffer nothing is added any more, and what an invariant of the primitive steps says of the
  buffer (locale \<open>cbb_invariant\<close>) holds all along. The two invariants are that the buffer stays poisoned
  and that a fixed buffer stays within the caller's array.
\<close>

subsection \<open>Operations and runs\<close>

datatype cbb_op =
    Op_flush
  | Op_bytes "byte list"
  | Op_space nat
  | Op_reserve nat
  | Op_did_write nat
  | Op_u8 byte
  | Op_u16 "16 word"
  | Op_u16le "16 word"
  | Op_u24 "32 word"
  | Op_u32 "32 word"
  | Op_u32le "32 word"
  | Op_u64 "64 word"
  | Op_u64le "64 word"
  | Op_u8_length_prefixed
  | Op_u16_length_prefixed
  | Op_u24_length_prefixed
  | Op_discard_child
  | Op_asn1 "32 word"
  | Op_asn1_uint64 "64 word"
  | Op_asn1_int64 "64 word"
  | Op_asn1_octet_string "byte list"
  | Op_asn1_bool bool
  | Op_asn1_oid_from_text "byte list" nat
  | Op_asn1_set_of allocator

fun run_op :: "cbb_op \<Rightarrow> nat \<Rightarrow> CBB step" where
  "run_op Op_flush d = CBB_flush d"
| "run_op (Op_bytes bs) d = CBB_add_bytes bs d"
| "run_op (Op_space n) d = CBB_add_space n d"
| "run_op (Op_reserve n) d = CBB_reserve n d"
| "run_op (Op_did_write n) d = CBB_did_write n d"
| "run_op (Op_u8 v) d = CBB_add_u8 v d"
| "run_op (Op_u16 v) d = CBB_add_u16 v d"
| "run_op (Op_u16le v) d = CBB_add_u16le v d"
| "run_op (Op_u24 v) d = CBB_add_u24 v d"
| "run_op (Op_u32 v) d = CBB_add_u32 v d"
| "run_op (Op_u32le v) d = CBB_add_u32le v d"
| "run_op (Op_u64 v) d = CBB_add_u64 v d"
| "run_op (Op_u64le v) d = CBB_add_u64le v d"
| "run_op Op_u8_length_prefixed d = CBB_add_u8_length_prefixed d"
| "run_op Op_u16_length_prefixed d = CBB_add_u16_length_prefixed d"
| "run_op Op_u24_length_prefixed d = CBB_add_u24_length_prefixed d"
| "run_op Op_discard_child d = (\<lambda>s. (True, CBB_discard_child d s))"
| "run_op (Op_asn1 tag) d = CBB_add_asn1 tag d"
| "run_op (Op_asn1_uint64 v) d = CBB_add_asn1_uint64 v d"
| "run_op (Op_asn1_int64 v) d = CBB_add_asn1_int64 v d"
| "run_op (Op_asn1_octet_string bs) d = CBB_add_asn1_octet_string bs d"
| "run_op (Op_asn1_bool v) d = CBB_add_asn1_bool v d"
| "run_op (Op_asn1_oid_from_text text len) d = CBB_add_asn1_oid_from_text text len d"
| "run_op (Op_asn1_set_of malloc) d = CBB_flush_asn1_set_of malloc d"

fun run_ops :: "(cbb_op \<times> nat) list \<Rightarrow> CBB \<Rightarrow> CBB" where
  "run_ops [] s = s"
| "run_ops ((op, d) # ops) s = run_ops ops (snd (run_op op d s))"

text \<open>
  The operations that add to the contents or close children, which is all of them but two; those among
  them that set the error flag whenever they fail; and the operations whose sizes fit a \<open>size_t\<close>.
\<close>

fun adds :: "cbb_op \<Rightarrow> bool" where
  "adds (Op_did_write n) = False"
| "adds Op_discard_child = False"
| "adds _ = True"

fun sets_error :: "cbb_op \<Rightarrow> bool" where
  "sets_error (Op_asn1_oid_from_text text len) = False"
| "sets_error (Op_asn1_set_of malloc) = False"
| "sets_error op = adds op"

fun op_size :: "cbb_op \<Rightarrow> nat" where
  "op_size (Op_bytes bs) = length bs"
| "op_size (Op_space n) = n"
| "op_size (Op_reserve n) = n"
| "op_size (Op_did_write n) = n"
| "op_size (Op_asn1_octet_string bs) = length bs"
| "op_size _ = 0"

subsection \<open>A failure sets the flag\<close>

text \<open>
  \<open>is_open d s\<close>: the CBB at depth \<open>d\<close> is open. \<open>settled d s\<close>: and it has just been flushed.
  \<open>outcome e r\<close>: the result \<open>r\<close> of an operation is a state in which the CBB at depth \<open>e\<close> has
  just been flushed, or a failure with the flag set.
\<close>

definition is_open :: "nat \<Rightarrow> CBB \<Rightarrow> bool" where
  "is_open d s \<longleftrightarrow> base s \<noteq> None \<and> d \<le> length (children s)"

definition settled :: "nat \<Rightarrow> CBB \<Rightarrow> bool" where
  "settled d s \<longleftrightarrow> is_open d s \<and> (\<forall>c cs. drop d (children s) = c # cs \<longrightarrow> frame_pending_len_len c = 0)"

definition outcome :: "nat \<Rightarrow> bool \<times> CBB \<Rightarrow> bool" where
  "outcome e r \<longleftrightarrow> (if fst r then settled e (snd r) else poisoned (snd r))"

lemma settled_open: "settled d s \<Longrightarrow> is_open d s"
  by (simp add: settled_def)

lemma outcome_and_also: "outcome e (f s) \<Longrightarrow> (\<And>s'. settled e s' \<Longrightarrow> outcome k (g s')) \<Longrightarrow> outcome k (and_also f g s)"
  by (cases "f s") (auto simp: outcome_def and_also_def)

lemma outcome_case:
  "outcome e r \<Longrightarrow> (\<And>s'. settled e s' \<Longrightarrow> outcome k (g s')) \<Longrightarrow>
   outcome k (case r of (True, s') \<Rightarrow> g s' | (False, s') \<Rightarrow> (False, s'))"
  by (cases r) (auto simp: outcome_def split: bool.splits)

lemma flush_chain_settles:
  "cbb_flush_chain b fs = (True, b', fs') \<Longrightarrow> fs' = c # cs \<Longrightarrow> frame_pending_len_len c = 0"
  by (cases fs) (auto simp: Let_def split: if_splits prod.splits bool.splits)

lemma outcome_flush: "is_open d s \<Longrightarrow> outcome d (CBB_flush d s)"
proof -
  assume "is_open d s"
  then obtain b where b: "base s = Some b" and d: "d \<le> length (children s)" by (auto simp: is_open_def)
  obtain ok b' fs' where ch: "cbb_flush_chain b (drop d (children s)) = (ok, b', fs')"
    by (cases "cbb_flush_chain b (drop d (children s))") auto
  have "CBB_flush d s = (ok, s\<lparr>base := Some b', children := take d (children s) @ fs'\<rparr>)"
    using b d by (simp add: CBB_flush_def ch)
  then show ?thesis
    using d ch flush_chain_settles [of b "drop d (children s)" b' fs'] flush_chain_fail [of b "drop d (children s)" b' fs']
    by (cases ok) (auto simp: outcome_def settled_def is_open_def poisoned_def)
qed

text \<open>What an operation does on \<open>cbb->base\<close> leaves the children alone.\<close>

lemma outcome_on_base:
  assumes "settled d s" and "\<And>b b'. f b = (False, b') \<Longrightarrow> base_error b'"
  shows "outcome d (on_base f s)"
  using assms by (auto simp: outcome_def settled_def is_open_def poisoned_def on_base_def split: prod.splits)

lemma cbb_buffer_add_u_fail: "cbb_buffer_add_u v n b = (False, b') \<Longrightarrow> base_error b'"
  by (auto simp: cbb_buffer_add_u_def dest: cbb_buffer_add_fail split: if_splits prod.splits bool.splits)

lemma outcome_flush_then:
  assumes "is_open d s" and "\<And>b b'. f b = (False, b') \<Longrightarrow> base_error b'"
  shows "outcome d (and_also (CBB_flush d) (on_base f) s)"
  by (rule outcome_and_also, rule outcome_flush [OF assms(1)], rule outcome_on_base) (use assms(2) in auto)

lemma outcome_put: "is_open d s \<Longrightarrow> outcome d (and_also (CBB_flush d) (on_base (cbb_buffer_put bs)) s)"
  by (rule outcome_flush_then) (auto dest: cbb_buffer_put_fail)

lemma outcome_add_u: "is_open d s \<Longrightarrow> outcome d (and_also (CBB_flush d) (on_base (cbb_buffer_add_u v n)) s)"
  by (rule outcome_flush_then) (auto dest: cbb_buffer_add_u_fail)

lemma outcome_u8: "is_open d s \<Longrightarrow> outcome d (CBB_add_u8 v d s)"
  unfolding CBB_add_u8_def by (rule outcome_add_u)

lemma settled_open_child: "settled d s \<Longrightarrow> settled (d + 1) (cbb_open_child d off n a s)"
  by (simp add: settled_def is_open_def cbb_open_child_def)

lemma outcome_length_prefixed: "is_open d s \<Longrightarrow> outcome (d + 1) (cbb_add_length_prefixed n d s)"
proof -
  assume "is_open d s"
  have "outcome (d + 1) (case on_base (cbb_buffer_put (replicate n 0)) s' of (False, s'') \<Rightarrow> (False, s'')
      | (True, s'') \<Rightarrow> (True, cbb_open_child d (cbb_base_len s') n False s''))" if "settled d s'" for s'
    by (rule outcome_case [OF outcome_on_base [OF that]])
      (auto simp: outcome_def settled_open_child [simplified] dest: cbb_buffer_put_fail)
  then show ?thesis
    unfolding cbb_add_length_prefixed_def by (intro outcome_case [OF outcome_flush [OF \<open>is_open d s\<close>]])
qed

lemma outcome_base128_loop: "settled d s \<Longrightarrow> outcome d (add_base128_loop v n d s)"
proof (induction n arbitrary: s)
  case 0
  then show ?case by (simp add: outcome_def)
next
  case (Suc n)
  then show ?case by (auto intro!: outcome_and_also outcome_u8 settled_open)
qed

lemma outcome_tag:
  "settled d s \<Longrightarrow> outcome d (if c then and_also (CBB_add_u8 t d) (add_base128_integer n d) s else CBB_add_u8 t' d s)"
  by (auto intro!: outcome_and_also outcome_u8 settled_open outcome_base128_loop simp: add_base128_integer_def Let_def)

lemma outcome_asn1: "is_open d s \<Longrightarrow> outcome (d + 1) (CBB_add_asn1 tag d s)"
proof -
  assume "is_open d s"
  have opened: "outcome (d + 1) (case CBB_add_u8 0 d s1 of (False, s2) \<Rightarrow> (False, s2)
      | (True, s2) \<Rightarrow> (True, cbb_open_child d (cbb_base_len s1) 1 True s2))" if "settled d s1" for s1
    by (rule outcome_case [OF outcome_u8 [OF settled_open [OF that]]]) (simp add: outcome_def settled_open_child [simplified])
  show ?thesis
    unfolding CBB_add_asn1_def Let_def
    by (rule outcome_case [OF outcome_flush [OF \<open>is_open d s\<close>]]) (rule outcome_case [OF outcome_tag opened])
qed

lemma outcome_asn1_flush: "settled (d + 1) s \<Longrightarrow> outcome d (CBB_flush d s)"
  by (rule outcome_flush) (simp add: settled_def is_open_def)

lemma outcome_uint64_loop:
  "settled d s \<Longrightarrow> add_asn1_uint64_loop v n started d s = (ok, started', s') \<Longrightarrow> outcome d (ok, s')"
proof (induction n arbitrary: s started)
  case 0
  then show ?case by (simp add: outcome_def)
next
  case (Suc n)
  let ?b = "ucast (drop_bit (8 * n) v) AND (0xff :: byte)"
  obtain ok1 s1 where r1: "(if \<not> started \<and> ?b AND 0x80 \<noteq> 0 then CBB_add_u8 0 d s else (True, s)) = (ok1, s1)" by (metis surj_pair)
  obtain ok2 s2 where r2: "CBB_add_u8 ?b d s1 = (ok2, s2)" by (metis surj_pair)
  have o1: "outcome d (ok1, s1)"
    using Suc.prems(1) outcome_u8 [of d s 0] r1 by (auto simp: outcome_def settled_open split: if_splits)
  then have o2: "ok1 \<Longrightarrow> outcome d (ok2, s2)"
    using outcome_u8 [of d s1 ?b] r2 by (auto simp: outcome_def settled_open)
  show ?case
  proof (cases "\<not> started \<and> ?b = 0")
    case True
    then show ?thesis using Suc by (simp add: Let_def)
  next
    case False
    have "add_asn1_uint64_loop v (Suc n) started d s =
        (case (ok1, s1) of (False, s') \<Rightarrow> (False, started, s')
         | (True, s') \<Rightarrow> (case CBB_add_u8 ?b d s' of (False, s'') \<Rightarrow> (False, True, s'')
             | (True, s'') \<Rightarrow> add_asn1_uint64_loop v n True d s''))"
      unfolding add_asn1_uint64_loop.simps(2) Let_def if_not_P [OF False] r1 by (rule refl)
    then show ?thesis
      using Suc.prems(2) o1 o2 r2 Suc.IH [of s2 True] by (cases ok1; cases ok2) (auto simp: outcome_def)
  qed
qed

lemma outcome_uint64: "is_open d s \<Longrightarrow> outcome d (CBB_add_asn1_uint64 v d s)"
proof -
  assume "is_open d s"
  have "outcome d (case add_asn1_uint64_loop v 8 False (d + 1) s1 of (False, _, s2) \<Rightarrow> (False, s2)
      | (True, started, s2) \<Rightarrow>
          (case (if \<not> started then CBB_add_u8 0 (d + 1) s2 else (True, s2)) of
             (False, s3) \<Rightarrow> (False, s3) | (True, s3) \<Rightarrow> CBB_flush d s3))" if s1: "settled (d + 1) s1" for s1
  proof -
    obtain ok started s2 where l: "add_asn1_uint64_loop v 8 False (d + 1) s1 = (ok, started, s2)" by (metis surj_pair)
    note o = outcome_uint64_loop [OF s1 l]
    have "outcome d (case (if \<not> started then CBB_add_u8 0 (d + 1) s2 else (True, s2)) of
        (False, s3) \<Rightarrow> (False, s3) | (True, s3) \<Rightarrow> CBB_flush d s3)" if "settled (d + 1) s2"
    proof (rule outcome_case)
      show "outcome (d + 1) (if \<not> started then CBB_add_u8 0 (d + 1) s2 else (True, s2))"
        using outcome_u8 [OF settled_open [OF that], of 0] that by (auto simp: outcome_def)
    qed (rule outcome_asn1_flush)
    then show ?thesis using o unfolding l by (cases ok) (simp_all add: outcome_def del: One_nat_def add_Suc_right)
  qed
  then show ?thesis
    unfolding CBB_add_asn1_uint64_def by (intro outcome_case [OF outcome_asn1 [OF \<open>is_open d s\<close>]])
qed

lemma outcome_int64_loop: "settled d s \<Longrightarrow> outcome d (add_int64_loop u n d s)"
  by (induction n arbitrary: s) (auto simp: outcome_def [of d "(True, s)" for s] intro!: outcome_and_also outcome_u8 settled_open)

lemma outcome_int64: "is_open d s \<Longrightarrow> outcome d (CBB_add_asn1_int64 v d s)"
proof -
  assume "is_open d s"
  then show ?thesis
    unfolding CBB_add_asn1_int64_def Let_def
    by (simp add: outcome_uint64 del: add_int64_loop.simps)
      (intro impI; rule outcome_case, erule outcome_asn1, rule outcome_and_also, erule outcome_int64_loop, erule outcome_asn1_flush)
qed

text \<open>Every operation that has a flag to set sets it when it fails on an open CBB.\<close>

lemma failure_sets_error:
  assumes "is_open d s" and "sets_error op" and "\<not> fst (run_op op d s)"
  shows "poisoned (snd (run_op op d s))"
proof -
  have "\<exists>e. outcome e (run_op op d s)"
  proof (cases op)
    case (Op_space n)
    have "outcome d (CBB_add_space n d s)"
      unfolding CBB_add_space_def using assms(1) by (rule outcome_flush_then) (auto dest: cbb_buffer_add_fail)
    then show ?thesis using Op_space by auto
  next
    case (Op_reserve n)
    have "outcome d (CBB_reserve n d s)"
      unfolding CBB_reserve_def using assms(1) by (rule outcome_flush_then) (auto dest: cbb_buffer_reserve_fail)
    then show ?thesis using Op_reserve by auto
  next
    case (Op_asn1_octet_string bs)
    have "outcome d (CBB_add_asn1_octet_string bs d s)"
      unfolding CBB_add_asn1_octet_string_def CBB_add_bytes_def
      by (rule outcome_and_also, rule outcome_asn1 [OF assms(1)], rule outcome_and_also, erule outcome_put [OF settled_open],
          erule outcome_asn1_flush)
    then show ?thesis using Op_asn1_octet_string by auto
  next
    case (Op_asn1_bool v)
    have "outcome d (CBB_add_asn1_bool v d s)"
      unfolding CBB_add_asn1_bool_def
      by (rule outcome_and_also, rule outcome_asn1 [OF assms(1)], rule outcome_and_also, erule outcome_u8 [OF settled_open],
          erule outcome_asn1_flush)
    then show ?thesis using Op_asn1_bool by auto
  next
    case (Op_asn1 tag)
    then show ?thesis using outcome_asn1 [OF assms(1)] by auto
  qed (use assms(1,2) in \<open>auto simp: CBB_add_bytes_def CBB_add_u8_def CBB_add_u16_def CBB_add_u16le_def CBB_add_u24_def
        CBB_add_u32_def CBB_add_u32le_def CBB_add_u64_def CBB_add_u64le_def CBB_add_u8_length_prefixed_def
        CBB_add_u16_length_prefixed_def CBB_add_u24_length_prefixed_def
        intro: outcome_flush outcome_put outcome_add_u outcome_length_prefixed outcome_uint64 outcome_int64\<close>)
  then show ?thesis using assms(3) by (auto simp: outcome_def)
qed

subsection \<open>On a poisoned buffer\<close>

lemma poisoned_flush: "poisoned s \<Longrightarrow> CBB_flush d s = (False, s)"
proof -
  assume "poisoned s"
  then obtain b where b: "base s = Some b" "base_error b" by (auto simp: poisoned_def)
  then have "cbb_flush_chain b fs = (False, b, fs)" for fs by (cases fs) simp_all
  with b show ?thesis by (cases s) (simp add: CBB_flush_def)
qed

lemma poisoned_refuses: "poisoned s \<Longrightarrow> adds op \<Longrightarrow> \<not> fst (run_op op d s)"
  by (cases op) (simp_all add: poisoned_flush and_also_def CBB_add_bytes_def CBB_add_space_def CBB_reserve_def CBB_add_u8_def
      CBB_add_u16_def CBB_add_u16le_def CBB_add_u24_def CBB_add_u32_def CBB_add_u32le_def CBB_add_u64_def CBB_add_u64le_def
      CBB_add_u8_length_prefixed_def CBB_add_u16_length_prefixed_def CBB_add_u24_length_prefixed_def
      cbb_add_length_prefixed_def CBB_add_asn1_def CBB_add_asn1_uint64_def CBB_add_asn1_int64_def Let_def
      CBB_add_asn1_octet_string_def CBB_add_asn1_bool_def CBB_add_asn1_oid_from_text_def CBB_flush_asn1_set_of_def)

lemma poisoned_finish: "poisoned s \<Longrightarrow> CBB_finish h d s = (None, s)"
  by (simp add: CBB_finish_def poisoned_flush)

subsection \<open>Invariants of runs\<close>

text \<open>How far the contents reach behind a step that has succeeded.\<close>

lemma flush_settles: "CBB_flush d s = (True, s') \<Longrightarrow> settled d s'"
proof -
  assume f: "CBB_flush d s = (True, s')"
  then have "is_open d s" by (auto simp: CBB_flush_def is_open_def split: option.splits if_splits)
  then show ?thesis using outcome_flush [of d s] by (simp add: outcome_def f)
qed

lemma settled_flush: "settled d s \<Longrightarrow> snd (CBB_flush d s) = s"
proof -
  assume st: "settled d s"
  then obtain b where b: "base s = Some b" "d \<le> length (children s)" by (auto simp: settled_def is_open_def)
  have "snd (cbb_flush_chain b (drop d (children s))) = (b, drop d (children s))"
    using st by (cases "drop d (children s)") (auto simp: settled_def)
  with b show ?thesis by (cases s) (auto simp: CBB_flush_def split: prod.splits)
qed

lemma put_base_len: "on_base (cbb_buffer_put bs) s = (True, s') \<Longrightarrow> \<exists>b. base s' = Some b \<and> base_len b = cbb_base_len s + length bs"
  by (auto simp: on_base_def cbb_buffer_put_def cbb_buffer_add_def cbb_buffer_reserve_def cbb_base_len_def Let_def
      split: option.splits prod.splits bool.splits if_splits)

lemma u8_base_len:
  assumes "settled d s" and "CBB_add_u8 v d s = (True, s')"
  shows "\<exists>b. base s' = Some b \<and> base_len b = cbb_base_len s + 1"
proof -
  obtain s1 where s1: "CBB_flush d s = (True, s1)" and u: "on_base (cbb_buffer_add_u (ucast v) 1) s1 = (True, s')"
    using assms(2) by (auto simp: CBB_add_u8_def and_also_True_iff)
  from s1 settled_flush [OF assms(1)] have "s1 = s" by simp
  with u show ?thesis
    by (auto simp: on_base_def cbb_buffer_add_u_def cbb_buffer_add_def cbb_buffer_reserve_def cbb_base_len_def Let_def
        split: option.splits prod.splits bool.splits if_splits)
qed

text \<open>
  What the primitive steps keep, every operation keeps: flushing, the operations of the buffer, opening a
  child behind contents that are there, and going back to the start of a CBB. \<open>fits\<close> is what is known of
  the sizes the caller passes.
\<close>

locale cbb_invariant =
  fixes P :: "CBB \<Rightarrow> bool" and fits :: "nat \<Rightarrow> bool"
  assumes fits_small: "n < 2 ^ 64 \<Longrightarrow> fits n"
    and P_flush: "P s \<Longrightarrow> P (snd (CBB_flush d s))"
    and P_put: "P s \<Longrightarrow> fits (length bs) \<Longrightarrow> P (snd (on_base (cbb_buffer_put bs) s))"
    and P_add: "P s \<Longrightarrow> fits n \<Longrightarrow> P (snd (on_base (cbb_buffer_add n) s))"
    and P_reserve: "P s \<Longrightarrow> fits n \<Longrightarrow> P (snd (on_base (cbb_buffer_reserve n) s))"
    and P_add_u: "P s \<Longrightarrow> n \<le> 8 \<Longrightarrow> P (snd (on_base (cbb_buffer_add_u v n) s))"
    and P_did_write: "P s \<Longrightarrow> fits n \<Longrightarrow> P (snd (CBB_did_write n d s))"
    and P_discard: "P s \<Longrightarrow> P (CBB_discard_child d s)"
    and P_rewind: "P s \<Longrightarrow> base s = Some b \<Longrightarrow> d \<le> length (children s) \<Longrightarrow> P (s\<lparr>base := Some (b\<lparr>base_len := CBB_start d s\<rparr>)\<rparr>)"
    and P_open: "P s \<Longrightarrow> base s = Some b \<Longrightarrow> off + n \<le> base_len b \<Longrightarrow> P (cbb_open_child d off n a s)"
begin

lemma P_and_also: "P (snd (f s)) \<Longrightarrow> (\<And>s'. P s' \<Longrightarrow> P (snd (g s'))) \<Longrightarrow> P (snd (and_also f g s))"
  by (cases "f s") (auto simp: and_also_def)

lemma P_case:
  "P (snd r) \<Longrightarrow> (\<And>s'. r = (True, s') \<Longrightarrow> P s' \<Longrightarrow> P (snd (g s'))) \<Longrightarrow>
   P (snd (case r of (True, s') \<Rightarrow> g s' | (False, s') \<Rightarrow> (False, s')))"
  by (cases r) (auto split: bool.splits)

lemma P_flush_then: "P s \<Longrightarrow> (\<And>s'. P s' \<Longrightarrow> P (snd (on_base f s'))) \<Longrightarrow> P (snd (and_also (CBB_flush d) (on_base f) s))"
  by (rule P_and_also) (simp_all add: P_flush)

lemma P_flush_put: "P s \<Longrightarrow> fits (length bs) \<Longrightarrow> P (snd (CBB_add_bytes bs d s))"
  unfolding CBB_add_bytes_def by (rule P_flush_then) (simp_all add: P_put)

lemma P_flush_add_u: "P s \<Longrightarrow> n \<le> 8 \<Longrightarrow> P (snd (and_also (CBB_flush d) (on_base (cbb_buffer_add_u v n)) s))"
  by (rule P_flush_then) (simp_all add: P_add_u)

lemma P_u8: "P s \<Longrightarrow> P (snd (CBB_add_u8 v d s))"
  unfolding CBB_add_u8_def by (rule P_flush_add_u) simp_all

lemma P_length_prefixed:
  assumes "P s" and "n \<le> 3"
  shows "P (snd (cbb_add_length_prefixed n d s))"
  unfolding cbb_add_length_prefixed_def
proof (rule P_case [OF P_flush [OF assms(1)]])
  fix s1 assume "P s1"
  then show "P (snd (case on_base (cbb_buffer_put (replicate n 0)) s1 of (True, s2) \<Rightarrow> (True, cbb_open_child d (cbb_base_len s1) n False s2)
      | (False, s2) \<Rightarrow> (False, s2)))"
  proof (rule P_case [OF P_put])
    show "fits (length (replicate n 0 :: byte list))" using assms(2) by (intro fits_small) simp
    fix s2 assume put: "on_base (cbb_buffer_put (replicate n 0)) s1 = (True, s2)" and "P s2"
    then obtain b where "base s2 = Some b" "base_len b = cbb_base_len s1 + n" using put_base_len [OF put] by auto
    with \<open>P s2\<close> show "P (snd (True, cbb_open_child d (cbb_base_len s1) n False s2))" by (auto intro: P_open)
  qed
qed

lemma P_base128_loop: "P s \<Longrightarrow> P (snd (add_base128_loop v n d s))"
  by (induction n arbitrary: s) (auto intro!: P_and_also P_u8)

lemma P_base128: "P s \<Longrightarrow> P (snd (add_base128_integer v d s))"
  by (simp add: add_base128_integer_def Let_def P_base128_loop)

lemma P_asn1:
  assumes "P s"
  shows "P (snd (CBB_add_asn1 tag d s))"
  unfolding CBB_add_asn1_def Let_def
proof (rule P_case [OF P_flush [OF assms]], rule P_case)
  fix s1 assume s1: "CBB_flush d s = (True, s1)" "P s1"
  let ?r = "if 31 \<le> tag AND CBS_ASN1_TAG_NUMBER_MASK
      then and_also (CBB_add_u8 (ucast (drop_bit CBS_ASN1_TAG_SHIFT tag) AND 224 OR 31) d)
             (add_base128_integer (ucast (tag AND CBS_ASN1_TAG_NUMBER_MASK)) d) s1
      else CBB_add_u8 (ucast (drop_bit CBS_ASN1_TAG_SHIFT tag) AND 224 OR ucast (tag AND CBS_ASN1_TAG_NUMBER_MASK)) d s1"
  show "P (snd ?r)" using s1(2) by (auto intro!: P_and_also P_u8 P_base128)
  fix s2 assume r: "?r = (True, s2)" and "P s2"
  have "outcome d ?r" using flush_settles [OF s1(1)] by (rule outcome_tag)
  then have "settled d s2" unfolding r by (simp add: outcome_def)
  show "P (snd (case CBB_add_u8 0 d s2 of (True, s3) \<Rightarrow> (True, cbb_open_child d (cbb_base_len s2) 1 True s3) | (False, s3) \<Rightarrow> (False, s3)))"
  proof (rule P_case [OF P_u8 [OF \<open>P s2\<close>]])
    fix s3 assume u8: "CBB_add_u8 0 d s2 = (True, s3)" and "P s3"
    obtain b where "base s3 = Some b" "base_len b = cbb_base_len s2 + 1" using u8_base_len [OF \<open>settled d s2\<close> u8] by blast
    with \<open>P s3\<close> show "P (snd (True, cbb_open_child d (cbb_base_len s2) 1 True s3))" by (auto intro: P_open)
  qed
qed

lemma P_uint64_loop: "P s \<Longrightarrow> add_asn1_uint64_loop v n started d s = (ok, started', s') \<Longrightarrow> P s'"
proof (induction n arbitrary: s started)
  case (Suc n)
  have u8: "CBB_add_u8 w d u = (ok', u') \<Longrightarrow> P u \<Longrightarrow> P u'" for w u ok' u' using P_u8 [of u w d] by simp
  show ?case using Suc.prems(2,1) by (auto simp: Let_def intro: Suc.IH u8 split: if_splits prod.splits bool.splits)
qed simp

lemma P_uint64: "P s \<Longrightarrow> P (snd (CBB_add_asn1_uint64 v d s))"
  unfolding CBB_add_asn1_uint64_def
proof (rule P_case [OF P_asn1])
  fix s1 assume "P s1"
  obtain ok started s2 where l: "add_asn1_uint64_loop v 8 False (d + 1) s1 = (ok, started, s2)" by (metis surj_pair)
  have "P s2" using \<open>P s1\<close> l by (rule P_uint64_loop)
  then have "P (snd (case (if \<not> started then CBB_add_u8 0 (d + 1) s2 else (True, s2)) of
      (True, s3) \<Rightarrow> CBB_flush d s3 | (False, s3) \<Rightarrow> (False, s3)))"
    by (intro P_case P_flush) (auto simp: P_u8)
  then show "P (snd (case add_asn1_uint64_loop v 8 False (d + 1) s1 of
      (True, started, s2) \<Rightarrow> (case (if \<not> started then CBB_add_u8 0 (d + 1) s2 else (True, s2)) of
         (True, s3) \<Rightarrow> CBB_flush d s3 | (False, s3) \<Rightarrow> (False, s3))
      | (False, _, s2) \<Rightarrow> (False, s2)))"
    using \<open>P s2\<close> unfolding l by (cases ok) simp_all
qed

lemma P_int64_loop: "P s \<Longrightarrow> P (snd (add_int64_loop u n d s))"
  by (induction n arbitrary: s) (auto intro!: P_and_also P_u8)

lemma P_int64: "P s \<Longrightarrow> P (snd (CBB_add_asn1_int64 v d s))"
  unfolding CBB_add_asn1_int64_def Let_def
  by (simp add: P_uint64 del: add_int64_loop.simps) (auto intro!: P_case P_asn1 P_and_also P_int64_loop P_flush)

lemma P_children: "P s \<Longrightarrow> \<forall>c \<in> set cs. fits (length c) \<Longrightarrow> P (snd (add_children cs d s))"
  by (induction cs arbitrary: s) (auto intro!: P_and_also P_flush_put)

lemma P_oid_components: "P s \<Longrightarrow> P (snd (add_oid_components cbs d s))"
proof (induction cbs d s rule: add_oid_components.induct)
  case (1 cbs d s)
  show ?case
  proof (cases "parse_dotted_decimal cbs")
    case (Pair a cbs')
    show ?thesis
      using 1 P_base128 [of s] by (subst add_oid_components.simps) (auto simp: Pair intro!: P_case split: option.splits)
  qed
qed

lemma P_oid_from_text: "P s \<Longrightarrow> P (snd (CBB_add_asn1_oid_from_text text len d s))"
  unfolding CBB_add_asn1_oid_from_text_def
proof (rule P_case [OF P_flush])
  fix s1 assume "P s1"
  moreover have "add_base128_integer v d s1 = (ok, s2) \<Longrightarrow> P s2" for v ok s2 using P_base128 [OF \<open>P s1\<close>, of v d] by simp
  ultimately show "P (snd (case parse_dotted_decimal (CBS_init text len) of (None, _) \<Rightarrow> (False, s1)
      | (Some a, cbs1) \<Rightarrow> (case parse_dotted_decimal cbs1 of (None, _) \<Rightarrow> (False, s1)
          | (Some b, cbs2) \<Rightarrow>
              if a > 2 \<or> (a < 2 \<and> b > 39) \<or> b > UINT64_MAX - 80 then (False, s1)
              else (case add_base128_integer (40 * a + b) d s1 of
                  (True, s2) \<Rightarrow> add_oid_components cbs2 d s2 | (False, s2) \<Rightarrow> (False, s2)))))"
    by (auto intro: P_oid_components split: option.splits prod.splits bool.splits)
qed

lemma P_set_of:
  assumes "P s"
  shows "P (snd (CBB_flush_asn1_set_of malloc d s))"
  unfolding CBB_flush_asn1_set_of_def
proof (rule P_case [OF P_flush [OF assms]])
  fix s1 assume s1: "CBB_flush d s = (True, s1)" "P s1"
  then have "is_open d s1" by (intro settled_open flush_settles)
  then obtain b where b: "base s1 = Some b" "d \<le> length (children s1)" by (auto simp: is_open_def)
  have els: "\<forall>e \<in> set (qsort compare_set_of_element els). fits (length e)"
    if "set_of_children (CBB_len d s1) (CBB_data d s1) = Some els" for els
    using set_of_children_sound [OF that] is_der_element_length by (auto intro: fits_small)
  show "P (snd (case set_of_children (CBB_len d s1) (CBB_data d s1) of None \<Rightarrow> (False, s1)
      | Some els \<Rightarrow> let num_children = length els
          in if num_children < 2 then (True, s1)
             else if num_children > (2 ^ 64 - 1) div 16 then (False, s1)
             else if OPENSSL_memdup malloc (CBB_data d s1) (CBB_len d s1) = None
                     \<or> OPENSSL_malloc malloc (num_children * 16) = None then (False, s1)
             else let sorted = qsort compare_set_of_element els;
                      s2 = s1\<lparr>base := map_option (\<lambda>b. b\<lparr>base_len := CBB_start d s1\<rparr>) (base s1)\<rparr>
                  in add_children sorted d s2))"
    using s1(2) els P_children [OF P_rewind [OF s1(2) b]] by (auto simp: Let_def b(1) split: option.splits)
qed

lemma P_run_op:
  assumes "P s" and "fits (op_size op)"
  shows "P (snd (run_op op d s))"
proof (cases op)
  case (Op_asn1_octet_string bs)
  then show ?thesis using assms by (auto simp: CBB_add_asn1_octet_string_def intro!: P_and_also P_asn1 P_flush_put P_flush)
next
  case (Op_asn1_bool v)
  then show ?thesis using assms by (auto simp: CBB_add_asn1_bool_def intro!: P_and_also P_asn1 P_u8 P_flush)
qed (use assms in \<open>auto simp: CBB_add_space_def CBB_reserve_def CBB_add_u16_def CBB_add_u16le_def CBB_add_u24_def
        CBB_add_u32_def CBB_add_u32le_def CBB_add_u64_def CBB_add_u64le_def CBB_add_u8_length_prefixed_def
        CBB_add_u16_length_prefixed_def CBB_add_u24_length_prefixed_def
        intro: P_flush P_flush_put P_flush_add_u P_u8 P_length_prefixed P_asn1 P_uint64 P_int64 P_oid_from_text P_set_of
          P_did_write P_discard P_flush_then P_add P_reserve\<close>)

lemma P_run_ops: "P s \<Longrightarrow> \<forall>(op, d) \<in> set ops. fits (op_size op) \<Longrightarrow> P (run_ops ops s)"
  by (induction ops s rule: run_ops.induct) (auto intro: P_run_op)

end

subsection \<open>The flag is never cleared\<close>

lemma on_base_poisoned: "poisoned s \<Longrightarrow> (\<And>b. base_error b \<Longrightarrow> base_error (snd (f b))) \<Longrightarrow> poisoned (snd (on_base f s))"
  by (auto simp: poisoned_def on_base_def split: prod.splits; metis snd_conv)

lemma reserve_keeps_error: "base_error b \<Longrightarrow> base_error (snd (cbb_buffer_reserve n b))"
  by (auto simp: cbb_buffer_reserve_def Let_def split: option.splits)

lemma add_keeps_error: "base_error b \<Longrightarrow> base_error (snd (cbb_buffer_add n b))"
  using reserve_keeps_error [of b n] by (auto simp: cbb_buffer_add_def split: prod.splits bool.splits)

lemma put_keeps_error: "base_error b \<Longrightarrow> base_error (snd (cbb_buffer_put bs b))"
  using add_keeps_error [of b "length bs"] by (auto simp: cbb_buffer_put_def split: prod.splits bool.splits)

lemma add_u_keeps_error: "base_error b \<Longrightarrow> base_error (snd (cbb_buffer_add_u v n b))"
  using add_keeps_error [of b n] by (auto simp: cbb_buffer_add_u_def split: prod.splits bool.splits)

interpretation latch: cbb_invariant poisoned "\<lambda>_. True"
proof
  show "poisoned s \<Longrightarrow> poisoned (snd (CBB_flush d s))" for s d by (simp add: poisoned_flush)
  show "poisoned s \<Longrightarrow> poisoned (snd (CBB_did_write n d s))" for s n d
    by (auto simp: poisoned_def CBB_did_write_def Let_def)
  show "poisoned s \<Longrightarrow> poisoned (CBB_discard_child d s)" for s d by (auto simp: poisoned_def CBB_discard_child_def)
qed (simp_all add: on_base_poisoned reserve_keeps_error add_keeps_error put_keeps_error add_u_keeps_error,
  simp_all add: poisoned_def cbb_open_child_def)

subsection \<open>A fixed buffer stays within its array\<close>

text \<open>
  The caller's array is the first \<open>cap\<close> bytes of a longer piece of memory; \<open>rest\<close> is what lies behind it.
  \<open>guarded\<close>: the writer has changed nothing of \<open>rest\<close>, and its contents are in the array.
\<close>

definition guarded :: "nat \<Rightarrow> byte list \<Rightarrow> cbb_buffer \<Rightarrow> bool" where
  "guarded cap rest b \<longleftrightarrow> \<not> base_can_resize b \<and> base_cap b = cap \<and> cap < 2 ^ 64 \<and> base_len b \<le> cap
     \<and> length (base_buf b) = cap + length rest \<and> drop cap (base_buf b) = rest"

definition within_array :: "nat \<Rightarrow> byte list \<Rightarrow> CBB \<Rightarrow> bool" where
  "within_array cap rest s \<longleftrightarrow> (\<exists>b. base s = Some b \<and> guarded cap rest b) \<and> (\<forall>f \<in> set (children s). frame_end f \<le> cap)"

lemma guarded_write:
  assumes "guarded cap rest b" and "p + length bs \<le> cap"
  shows "guarded cap rest (b\<lparr>base_buf := mem_write (base_buf b) p bs\<rparr>)"
  using assms by (auto simp: guarded_def drop_mem_write_after)

lemma guarded_len: "guarded cap rest b \<Longrightarrow> n \<le> cap \<Longrightarrow> guarded cap rest (b\<lparr>base_len := n\<rparr>)"
  by (simp add: guarded_def)

lemma guarded_error [simp]: "guarded cap rest (b\<lparr>base_error := e\<rparr>) \<longleftrightarrow> guarded cap rest b"
  by (simp add: guarded_def)

lemma guarded_reserve:
  assumes "guarded cap rest b" and "n < 2 ^ 64" and "cbb_buffer_reserve n b = (ok, b')"
  shows "guarded cap rest b'" and "ok \<Longrightarrow> b' = b \<and> base_len b + n \<le> cap"
proof -
  have "size_t (base_len b + n) = base_len b + n" if "base_len b \<le> size_t (base_len b + n)"
    using that assms(1,2) by (simp add: guarded_def size_t_def mod_if split: if_splits)
  then have "if ok then b' = b \<and> base_len b + n \<le> cap else b' = b\<lparr>base_error := True\<rparr>"
    using assms(1,3) by (auto simp: guarded_def cbb_buffer_reserve_def Let_def split: if_splits)
  then show "guarded cap rest b'" and "ok \<Longrightarrow> b' = b \<and> base_len b + n \<le> cap" using assms(1) by (auto split: if_splits)
qed

lemma guarded_add:
  assumes "guarded cap rest b" and "n < 2 ^ 64" and "cbb_buffer_add n b = (ok, b')"
  shows "guarded cap rest b'" and "ok \<Longrightarrow> b' = b\<lparr>base_len := base_len b + n\<rparr> \<and> base_len b + n \<le> cap"
proof -
  obtain ok1 b1 where b1: "cbb_buffer_reserve n b = (ok1, b1)" by (metis surj_pair)
  note reserve = guarded_reserve [OF assms(1,2) b1]
  show "guarded cap rest b'" using assms(3) reserve by (cases ok1) (auto simp: cbb_buffer_add_def b1 guarded_len)
  show "ok \<Longrightarrow> b' = b\<lparr>base_len := base_len b + n\<rparr> \<and> base_len b + n \<le> cap"
    using assms(3) reserve(2) by (cases ok1) (auto simp: cbb_buffer_add_def b1)
qed

lemma guarded_put:
  assumes "guarded cap rest b" and "length bs < 2 ^ 64"
  shows "guarded cap rest (snd (cbb_buffer_put bs b))"
proof -
  obtain ok b' where b': "cbb_buffer_add (length bs) b = (ok, b')" by (metis surj_pair)
  note add = guarded_add [OF assms b']
  show ?thesis
    using add guarded_write [OF add(1), of "base_len b" bs] by (cases ok) (simp_all add: cbb_buffer_put_def b')
qed

lemma guarded_write_be:
  assumes "guarded cap rest b" and "p + n \<le> cap"
  shows "guarded cap rest (b\<lparr>base_buf := fst (write_be (base_buf b) p n v)\<rparr>)"
proof -
  have "p + n \<le> length (base_buf b)" using assms by (simp add: guarded_def)
  then show ?thesis using guarded_write [OF assms(1), of p "be_bytes n (unat v)"] assms(2) by (simp add: write_be_eq)
qed

lemma guarded_add_u:
  assumes "guarded cap rest b" and "n \<le> 8"
  shows "guarded cap rest (snd (cbb_buffer_add_u v n b))"
proof -
  obtain ok b' where b': "cbb_buffer_add n b = (ok, b')" by (metis surj_pair)
  have "n < 2 ^ 64" using assms(2) by simp
  note add = guarded_add [OF assms(1) this b']
  show ?thesis
    using add assms(1) guarded_write_be [OF add(1), of "base_len b" n v]
    by (cases ok; cases "write_be (base_buf b') (base_len b) n v") (auto simp: cbb_buffer_add_u_def b')
qed

lemma guarded_flush_prefix:
  assumes "guarded cap rest b" and "p + n \<le> cap"
  shows "guarded cap rest (snd (flush_prefix p n len b))"
  using guarded_write_be [OF assms, of "of_nat len"]
  by (cases "write_be (base_buf b) p n (of_nat len)") (simp add: flush_prefix_def flush_error_def)

text \<open>
  Closing a child: the contents are moved only after the reservation has shown that they stay in the array.
\<close>

lemma guarded_flush_child:
  assumes "guarded cap rest b" and "frame_end f + len = base_len b" and "0 < frame_pending_len_len f"
  shows "guarded cap rest (snd (flush_child f len b))"
proof (cases "frame_pending_is_asn1 f")
  case False
  have "base_len b \<le> cap" using assms(1) by (simp add: guarded_def)
  then show ?thesis
    using False assms by (simp add: flush_child_def frame_end_def guarded_flush_prefix)
next
  case True
  have cap: "base_len b \<le> cap" using assms(1) by (simp add: guarded_def)
  show ?thesis
  proof (cases "flush_asn1_len len")
    case None
    then show ?thesis using True assms(1) by (simp add: flush_child_def flush_error_def)
  next
    case (Some hdr)
    then obtain k h where hdr: "flush_asn1_len len = Some (Suc k, h)" and k: "k \<le> 4"
      by (auto simp: flush_asn1_len_def split: if_splits)
    have store: "guarded cap rest (snd (flush_prefix (frame_offset f + 1) k l (b'\<lparr>base_buf := (base_buf b')[frame_offset f := h]\<rparr>)))"
      if g: "guarded cap rest b'" and room: "frame_end f + k \<le> cap" for b' l
    proof (rule guarded_flush_prefix)
      have "frame_offset f < length (base_buf b')" using g room assms(3) by (simp add: guarded_def frame_end_def)
      then show "guarded cap rest (b'\<lparr>base_buf := (base_buf b')[frame_offset f := h]\<rparr>)"
        using guarded_write [OF g, of "frame_offset f" "[h]"] room assms(3) by (simp add: list_update_mem_write frame_end_def)
      show "frame_offset f + 1 + k \<le> cap" using room assms(3) by (simp add: frame_end_def)
    qed
    show ?thesis
    proof (cases "k = 0")
      case True
      then show ?thesis
        using \<open>frame_pending_is_asn1 f\<close> store [OF assms(1)] assms(2) cap by (simp add: flush_child_def hdr)
    next
      case False
      obtain ok b1 where b1: "cbb_buffer_add k b = (ok, b1)" by (metis surj_pair)
      have "k < 2 ^ 64" using k by simp
      note add = guarded_add [OF assms(1) this b1]
      show ?thesis
      proof (cases ok)
        case nok: False
        then show ?thesis using \<open>frame_pending_is_asn1 f\<close> \<open>k \<noteq> 0\<close> add(1) b1 by (simp add: flush_child_def hdr flush_error_def)
      next
        case True
        let ?body = "take len (drop (frame_end f) (base_buf b1))"
        have "guarded cap rest (b1\<lparr>base_buf := mem_write (base_buf b1) (frame_end f + k) ?body\<rparr>)"
        proof (rule guarded_write [OF add(1)])
          have "length ?body \<le> len" by simp
          then show "frame_end f + k + length ?body \<le> cap" using add(2) True assms(2) by linarith
        qed
        from store [OF this] add(2) True assms(2) b1 \<open>k \<noteq> 0\<close> \<open>frame_pending_is_asn1 f\<close> show ?thesis
          by (simp add: flush_child_def hdr frame_end_def Let_def)
      qed
    qed
  qed
qed

lemma guarded_flush_chain:
  "guarded cap rest b \<Longrightarrow> \<forall>f \<in> set fs. frame_end f \<le> cap \<Longrightarrow> cbb_flush_chain b fs = (ok, b', fs') \<Longrightarrow>
   guarded cap rest b' \<and> set fs' \<subseteq> set fs"
proof (induction fs arbitrary: ok b' fs')
  case (Cons f fs)
  obtain ok1 b1 fs1 where b1: "cbb_flush_chain b fs = (ok1, b1, fs1)" by (metis surj_pair)
  have IH: "guarded cap rest b1" "set fs1 \<subseteq> set fs" using Cons.IH [OF Cons.prems(1) _ b1] Cons.prems(2) by auto
  have "frame_end f < 2 ^ 64" using Cons.prems(1,2) by (auto simp: guarded_def)
  then have start: "size_t (frame_offset f + frame_pending_len_len f) = frame_end f" by (simp add: frame_end_def size_t_id)
  have child: "guarded cap rest (snd (flush_child f (base_len b1 - frame_end f) b1))"
    if "frame_end f \<le> base_len b1" "frame_pending_len_len f \<noteq> 0"
    using that by (intro guarded_flush_child [OF IH(1)]) simp_all
  show ?case
    using Cons.prems(1,3) IH child
    by (auto simp: b1 start Let_def flush_error_def split: if_splits prod.splits bool.splits)
qed simp

lemma within_on_base:
  assumes "within_array cap rest s" and "\<And>b. guarded cap rest b \<Longrightarrow> guarded cap rest (snd (f b))"
  shows "within_array cap rest (snd (on_base f s))"
  using assms by (auto simp: within_array_def on_base_def split: prod.splits; metis snd_conv)

interpretation fixed: cbb_invariant "within_array cap rest" "\<lambda>n. n < 2 ^ 64" for cap rest
proof
  show "within_array cap rest (snd (CBB_flush d s))" if st: "within_array cap rest s" for s d
  proof -
    obtain b where b: "base s = Some b" "guarded cap rest b" "\<forall>f \<in> set (children s). frame_end f \<le> cap"
      using st by (auto simp: within_array_def)
    obtain ok b' fs' where ch: "cbb_flush_chain b (drop d (children s)) = (ok, b', fs')" by (metis surj_pair)
    have "guarded cap rest b' \<and> set fs' \<subseteq> set (drop d (children s))"
      using b by (intro guarded_flush_chain [OF _ _ ch]) (auto dest: in_set_dropD)
    with b st show ?thesis
      by (auto simp: CBB_flush_def ch within_array_def dest: in_set_takeD in_set_dropD)
  qed
  show "within_array cap rest (snd (on_base (cbb_buffer_put bs) s))" if "within_array cap rest s" "length bs < 2 ^ 64" for s bs
    using that by (intro within_on_base guarded_put)
  show "within_array cap rest (snd (on_base (cbb_buffer_add n) s))" if "within_array cap rest s" "n < 2 ^ 64" for s n
    by (rule within_on_base [OF that(1)], rule guarded_add(1) [OF _ that(2) prod.collapse [symmetric]])
  show "within_array cap rest (snd (on_base (cbb_buffer_reserve n) s))" if "within_array cap rest s" "n < 2 ^ 64" for s n
    by (rule within_on_base [OF that(1)], rule guarded_reserve(1) [OF _ that(2) prod.collapse [symmetric]])
  show "within_array cap rest (snd (on_base (cbb_buffer_add_u v n) s))" if "within_array cap rest s" "n \<le> 8" for s v n
    using that by (intro within_on_base guarded_add_u)
  show "within_array cap rest (snd (CBB_did_write n d s))" if "within_array cap rest s" for s n d
    using that by (auto simp: within_array_def CBB_did_write_def Let_def guarded_def split: if_splits)
  show "within_array cap rest (CBB_discard_child d s)" if st: "within_array cap rest s" for s d
  proof -
    have "frame_offset (children s ! d) \<le> cap" if l: "d < length (children s)"
    proof -
      have "frame_end (children s ! d) \<le> cap" using st nth_mem [OF l] unfolding within_array_def by blast
      then show ?thesis by (simp add: frame_end_def)
    qed
    then show ?thesis
      using st by (auto simp: within_array_def CBB_discard_child_def guarded_len dest: in_set_takeD)
  qed
  show "within_array cap rest (s\<lparr>base := Some (b\<lparr>base_len := CBB_start d s\<rparr>)\<rparr>)"
    if "within_array cap rest s" "base s = Some b" "d \<le> length (children s)" for s b d
  proof -
    have "CBB_start d s \<le> cap"
    proof (cases d)
      case (Suc k)
      then have "frame_end (children s ! k) \<le> cap" using that(1,3) nth_mem [of k "children s"] unfolding within_array_def by auto
      then show ?thesis by (simp add: Suc CBB_start_def frame_end_def)
    qed (simp add: CBB_start_def)
    then show ?thesis using that by (auto simp: within_array_def guarded_len)
  qed
  show "within_array cap rest (cbb_open_child d off n a s)"
    if "within_array cap rest s" "base s = Some b" "off + n \<le> base_len b" for s b off n a d
    using that by (auto simp: within_array_def cbb_open_child_def guarded_def frame_end_def dest: in_set_takeD)
qed

text \<open>A run on a fixed CBB, from its initialisation on.\<close>

lemma fixed_run_within:
  assumes "length p < 2 ^ 64" and "malloc 40 \<noteq> None" and "\<forall>(op, d) \<in> set ops. op_size op < 2 ^ 64"
  shows "\<exists>s b a. CBB_init_fixed malloc (p @ rest) (length p) = (True, s) \<and> base (run_ops ops s) = Some b
    \<and> base_buf b = a @ rest \<and> length a = length p"
proof -
  have "OPENSSL_malloc malloc 32 \<noteq> None"
    using assms(2) by (auto simp: OPENSSL_malloc_def malloc_request_def OPENSSL_MALLOC_PREFIX_def size_t_def)
  then obtain s where s: "CBB_init_fixed malloc (p @ rest) (length p) = (True, s)" and "within_array (length p) rest s"
    using assms(1) by (auto simp: CBB_init_fixed_def cbb_init_def within_array_def guarded_def)
  from fixed.P_run_ops [OF this(2) assms(3)] obtain b where b: "base (run_ops ops s) = Some b" "guarded (length p) rest b"
    by (auto simp: within_array_def)
  then have "base_buf b = take (length p) (base_buf b) @ rest" "length (take (length p) (base_buf b)) = length p"
    by (auto simp: guarded_def)
  with s b(1) show ?thesis by blast
qed

end
