(* ===== verification/Unicode.thy ===== *)
theory Unicode
  imports Cbb_Asn1
begin

text \<open>
  Model of \<open>crypto/bytestring/unicode.c\<close>: readers and writers of code points in UTF-8,
  Latin-1, UCS-2 and UTF-32, which the ASN.1 string types are converted with. Each pair is an
  instance of \<open>cbb_codec\<close>: the readers accept exactly the strings the writers produce, and in
  particular no over-long UTF-8 sequence, no surrogate and no non-character.
\<close>

subsection \<open>The code\<close>

definition is_valid_code_point :: "32 word \<Rightarrow> bool" where
  "is_valid_code_point v =
     (if v > 0x10ffff \<or> v AND 0xfffe = 0xfffe \<or> (v \<ge> 0xfdd0 \<and> v \<le> 0xfdef) \<or> (v \<ge> 0xd800 \<and> v \<le> 0xdfff)
      then False else True)"

definition BOTTOM_BITS :: "nat \<Rightarrow> byte" where
  "BOTTOM_BITS n = ucast (push_bit n (1 :: 32 word) - 1)"

definition TOP_BITS :: "nat \<Rightarrow> byte" where
  "TOP_BITS n = NOT (BOTTOM_BITS (8 - n))"

text \<open>The loop over the continuation bytes.\<close>

fun get_utf8_tail :: "nat \<Rightarrow> 32 word \<Rightarrow> (CBS, 32 word) reader" where
  "get_utf8_tail 0 v cbs = (Some v, cbs)"
| "get_utf8_tail (Suc n) v cbs = (case CBS_get_u8 cbs of
       (None, cbs') \<Rightarrow> (None, cbs')
     | (Some c, cbs') \<Rightarrow>
         if c AND TOP_BITS 2 \<noteq> TOP_BITS 1 then (None, cbs')
         else get_utf8_tail n (push_bit 6 v OR ucast (c AND BOTTOM_BITS 6)) cbs')"

text \<open>The first byte of a longer sequence: \<open>v\<close>, \<open>len\<close> and \<open>lower_bound\<close>.\<close>

definition get_utf8_lead :: "byte \<Rightarrow> (32 word \<times> nat \<times> 32 word) option" where
  "get_utf8_lead c =
     (if c AND TOP_BITS 3 = TOP_BITS 2 then Some (ucast (c AND BOTTOM_BITS 5), 1, 0x80)
      else if c AND TOP_BITS 4 = TOP_BITS 3 then Some (ucast (c AND BOTTOM_BITS 4), 2, 0x800)
      else if c AND TOP_BITS 5 = TOP_BITS 4 then Some (ucast (c AND BOTTOM_BITS 3), 3, 0x10000)
      else None)"

definition get_utf8_multibyte :: "32 word \<Rightarrow> nat \<Rightarrow> 32 word \<Rightarrow> (CBS, 32 word) reader" where
  "get_utf8_multibyte v0 len lower_bound cbs = (case get_utf8_tail len v0 cbs of
       (None, cbs') \<Rightarrow> (None, cbs')
     | (Some v, cbs') \<Rightarrow>
         if \<not> is_valid_code_point v \<or> v < lower_bound then (None, cbs') else (Some v, cbs'))"

definition cbs_get_utf8 :: "(CBS, 32 word) reader" where
  "cbs_get_utf8 cbs = (case CBS_get_u8 cbs of
       (None, cbs1) \<Rightarrow> (None, cbs1)
     | (Some c, cbs1) \<Rightarrow>
         if c \<le> 0x7f then (Some (ucast c), cbs1)
         else
           case get_utf8_lead c of
             None \<Rightarrow> (None, cbs1)
           | Some (v0, len, lower_bound) \<Rightarrow> get_utf8_multibyte v0 len lower_bound cbs1)"

definition cbs_get_latin1 :: "(CBS, 32 word) reader" where
  "cbs_get_latin1 cbs = (case CBS_get_u8 cbs of
       (None, cbs') \<Rightarrow> (None, cbs') | (Some c, cbs') \<Rightarrow> (Some (ucast c), cbs'))"

definition cbs_get_ucs2_be :: "(CBS, 32 word) reader" where
  "cbs_get_ucs2_be cbs = (case CBS_get_u16 cbs of
       (None, cbs') \<Rightarrow> (None, cbs')
     | (Some c, cbs') \<Rightarrow> if \<not> is_valid_code_point (ucast c) then (None, cbs') else (Some (ucast c), cbs'))"

definition cbs_get_utf32_be :: "(CBS, 32 word) reader" where
  "cbs_get_utf32_be cbs = (case CBS_get_u32 cbs of
       (None, cbs') \<Rightarrow> (None, cbs')
     | (Some c, cbs') \<Rightarrow> if is_valid_code_point c then (Some c, cbs') else (None, cbs'))"

definition cbb_get_utf8_len :: "32 word \<Rightarrow> nat" where
  "cbb_get_utf8_len u = (if u \<le> 0x7f then 1 else if u \<le> 0x7ff then 2 else if u \<le> 0xffff then 3 else 4)"

definition utf8_continuation :: "32 word \<Rightarrow> byte" where
  "utf8_continuation x = ucast (ucast (TOP_BITS 1) OR (x AND ucast (BOTTOM_BITS 6)))"

definition cbb_add_utf8 :: "32 word \<Rightarrow> nat \<Rightarrow> CBB step" where
  "cbb_add_utf8 u d s =
     (if \<not> is_valid_code_point u then (False, s)
      else if u \<le> 0x7f then CBB_add_u8 (ucast u) d s
      else if u \<le> 0x7ff then
        and_also (CBB_add_u8 (ucast (ucast (TOP_BITS 2) OR drop_bit 6 u)) d)
          (CBB_add_u8 (utf8_continuation u) d) s
      else if u \<le> 0xffff then
        and_also (CBB_add_u8 (ucast (ucast (TOP_BITS 3) OR drop_bit 12 u)) d)
          (and_also (CBB_add_u8 (utf8_continuation (drop_bit 6 u)) d)
            (CBB_add_u8 (utf8_continuation u) d)) s
      else if u \<le> 0x10ffff then
        and_also (CBB_add_u8 (ucast (ucast (TOP_BITS 4) OR drop_bit 18 u)) d)
          (and_also (CBB_add_u8 (utf8_continuation (drop_bit 12 u)) d)
            (and_also (CBB_add_u8 (utf8_continuation (drop_bit 6 u)) d)
              (CBB_add_u8 (utf8_continuation u) d))) s
      else (False, s))"

definition cbb_add_latin1 :: "32 word \<Rightarrow> nat \<Rightarrow> CBB step" where
  "cbb_add_latin1 u d s = (if u \<le> 0xff then CBB_add_u8 (ucast u) d s else (False, s))"

definition cbb_add_ucs2_be :: "32 word \<Rightarrow> nat \<Rightarrow> CBB step" where
  "cbb_add_ucs2_be u d s =
     (if u \<le> 0xffff \<and> is_valid_code_point u then CBB_add_u16 (ucast u) d s else (False, s))"

definition cbb_add_utf32_be :: "32 word \<Rightarrow> nat \<Rightarrow> CBB step" where
  "cbb_add_utf32_be u d s = (if is_valid_code_point u then CBB_add_u32 u d s else (False, s))"

subsection \<open>UTF-8\<close>

text \<open>The specification: the continuation bytes carry six bits each.\<close>

fun utf8_tail :: "nat \<Rightarrow> nat \<Rightarrow> byte list" where
  "utf8_tail 0 u = []"
| "utf8_tail (Suc n) u = byte_of (128 + u div 64 ^ n mod 64) # utf8_tail n u"

definition utf8 :: "nat \<Rightarrow> byte list" where
  "utf8 u = (if u < 0x80 then [byte_of u]
     else if u < 0x800 then byte_of (192 + u div 64) # utf8_tail 1 u
     else if u < 0x10000 then byte_of (224 + u div 64 ^ 2) # utf8_tail 2 u
     else byte_of (240 + u div 64 ^ 3) # utf8_tail 3 u)"

lemma bits_values:
  "BOTTOM_BITS 3 = 7" "BOTTOM_BITS 4 = 15" "BOTTOM_BITS 5 = 31" "BOTTOM_BITS 6 = 63"
  "TOP_BITS 1 = 0x80" "TOP_BITS 2 = 0xc0" "TOP_BITS 3 = 0xe0" "TOP_BITS 4 = 0xf0" "TOP_BITS 5 = 0xf8"
  by (simp_all add: BOTTOM_BITS_def TOP_BITS_def)

lemma unat_and_bottom:
  "unat ((c :: byte) AND BOTTOM_BITS 3) = unat c mod 8" "unat (c AND BOTTOM_BITS 4) = unat c mod 16"
  "unat (c AND BOTTOM_BITS 5) = unat c mod 32" "unat (c AND BOTTOM_BITS 6) = unat c mod 64"
  unfolding bits_values
  using unat_and_mask [of c 3] unat_and_mask [of c 4] unat_and_mask [of c 5] unat_and_mask [of c 6]
  by (simp_all add: mask_eq_exp_minus_1)

lemma unat_and_top:
  "unat ((c :: byte) AND 0xc0) = unat c div 64 * 64" "unat (c AND 0xe0) = unat c div 32 * 32"
  "unat (c AND 0xf0) = unat c div 16 * 16" "unat (c AND 0xf8) = unat c div 8 * 8"
proof -
  have "(0xc0 :: byte) = NOT (mask 6)" "(0xe0 :: byte) = NOT (mask 5)" "(0xf0 :: byte) = NOT (mask 4)"
    "(0xf8 :: byte) = NOT (mask 3)" by (simp_all add: mask_eq_exp_minus_1)
  then show "unat (c AND 0xc0) = unat c div 64 * 64" "unat (c AND 0xe0) = unat c div 32 * 32"
    "unat (c AND 0xf0) = unat c div 16 * 16" "unat (c AND 0xf8) = unat c div 8 * 8"
    by (simp_all only: unat_and_not_mask) simp_all
qed

lemma mult_numerals:
  "(a :: nat) * 64 = 128 \<longleftrightarrow> a = 2" "a * 32 = 192 \<longleftrightarrow> a = 6" "a * 16 = 224 \<longleftrightarrow> a = 14" "a * 8 = 240 \<longleftrightarrow> a = 30"
  by linarith+

lemma continuation_iff: "c AND TOP_BITS 2 = TOP_BITS 1 \<longleftrightarrow> unat c div 64 = 2"
  unfolding bits_values word_unat_eq_iff unat_and_top by (simp add: mult_numerals)

lemma lead_iff:
  "c AND TOP_BITS 3 = TOP_BITS 2 \<longleftrightarrow> unat c div 32 = 6"
  "c AND TOP_BITS 4 = TOP_BITS 3 \<longleftrightarrow> unat c div 16 = 14"
  "c AND TOP_BITS 5 = TOP_BITS 4 \<longleftrightarrow> unat c div 8 = 30"
  unfolding bits_values word_unat_eq_iff unat_and_top by (simp_all add: mult_numerals)

lemma byte_split:
  "unat (c :: byte) div 64 = 2 \<Longrightarrow> byte_of (128 + unat c mod 64) = c"
  "unat c div 32 = 6 \<Longrightarrow> byte_of (192 + unat c mod 32) = c"
  "unat c div 16 = 14 \<Longrightarrow> byte_of (224 + unat c mod 16) = c"
  "unat c div 8 = 30 \<Longrightarrow> byte_of (240 + unat c mod 8) = c"
  using div_mult_mod_eq [of "unat c" 64] div_mult_mod_eq [of "unat c" 32]
    div_mult_mod_eq [of "unat c" 16] div_mult_mod_eq [of "unat c" 8]
  by (auto intro!: byte_of_eq)

lemma tail_step:
  fixes v :: "32 word"
  assumes "(unat v + 1) * 64 ^ Suc n \<le> 2 ^ 32"
  shows "unat (push_bit 6 v OR ucast (c AND BOTTOM_BITS 6)) = unat v * 64 + unat c mod 64"
    and "(unat v * 64 + unat c mod 64 + 1) * 64 ^ n \<le> 2 ^ 32"
proof -
  obtain m where m: "m = (64 :: nat) ^ n" by blast
  have m1: "1 \<le> m" by (simp add: m)
  have a: "(unat v + 1) * (64 * m) \<le> 2 ^ 32" using assms by (simp only: m power_Suc)
  have "(unat v + 1) * (64 * 1) \<le> (unat v + 1) * (64 * m)" using m1 by (intro mult_left_mono) simp_all
  then have "(unat v + 1) * 64 \<le> 2 ^ 32" using a by linarith
  then have "unat v * 2 ^ 6 < 2 ^ LENGTH(32)" by simp
  moreover have "unat (ucast (c AND BOTTOM_BITS 6) :: 32 word) = unat c mod 64"
    by (simp add: unat_ucast_widen unat_and_bottom)
  ultimately show "unat (push_bit 6 v OR ucast (c AND BOTTOM_BITS 6)) = unat v * 64 + unat c mod 64"
    by (subst unat_shift_or) simp_all
  have "unat c mod 64 < 64" by simp
  then have "(unat v * 64 + unat c mod 64 + 1) * m \<le> ((unat v + 1) * 64) * m" by (intro mult_right_mono) simp_all
  also have "\<dots> = (unat v + 1) * (64 * m)" by (simp only: mult.assoc)
  finally show "(unat v * 64 + unat c mod 64 + 1) * 64 ^ n \<le> 2 ^ 32" using a unfolding m [symmetric] by linarith
qed

lemma get_utf8_tail_complete:
  "(unat v + 1) * 64 ^ n \<le> 2 ^ 32 \<Longrightarrow>
   get_utf8_tail n v (utf8_tail n u @ r) = (Some (of_nat (unat v * 64 ^ n + u mod 64 ^ n)), r)"
proof (induction n arbitrary: v)
  case 0
  then show ?case by simp
next
  case (Suc n)
  obtain q where q: "q = u div 64 ^ n mod 64" by blast
  let ?c = "byte_of (128 + q)"
  have ql: "q < 64" by (simp add: q)
  then have uc: "unat ?c = 128 + q" by (intro unat_byte_of) simp
  then have c: "unat ?c div 64 = 2" "unat ?c mod 64 = q"
    using ql mod_mult_self3 [of 2 64 q] by simp_all
  let ?v = "push_bit 6 v OR ucast (?c AND BOTTOM_BITS 6)"
  have v: "unat ?v = unat v * 64 + q" using tail_step(1) [OF Suc.prems, of ?c] c(2) by simp
  have dec: "u mod 64 ^ Suc n = q * 64 ^ n + u mod 64 ^ n"
    using mod_mult2_eq [of u "64 ^ n" 64] by (simp add: mult.commute q)
  have "get_utf8_tail n ?v (utf8_tail n u @ r) = (Some (of_nat (unat ?v * 64 ^ n + u mod 64 ^ n)), r)"
    using tail_step(2) [OF Suc.prems, of ?c] by (intro Suc.IH) (simp only: v c(2))
  moreover have "unat ?v * 64 ^ n + u mod 64 ^ n = unat v * 64 ^ Suc n + u mod 64 ^ Suc n"
    unfolding v dec by (simp add: distrib_right)
  ultimately show ?case
    using c(1) by (simp add: CBS_get_u8_eq continuation_iff [simplified] q [symmetric])
qed

lemma mod_power_div: "(u :: nat) mod 64 ^ Suc n div 64 ^ n = u div 64 ^ n mod 64"
proof -
  have "u mod (64 ^ n * 64) = 64 ^ n * (u div 64 ^ n mod 64) + u mod 64 ^ n" by (rule mod_mult2_eq)
  then have "u mod 64 ^ Suc n = u mod 64 ^ n + u div 64 ^ n mod 64 * 64 ^ n"
    by (simp only: power_Suc mult.commute add.commute)
  then show ?thesis by (simp only: div_mult_self1) simp
qed

lemma utf8_tail_cong:
  "u mod 64 ^ n = w mod 64 ^ n \<Longrightarrow> utf8_tail n u = utf8_tail n w"
proof (induction n)
  case 0
  then show ?case by simp
next
  case (Suc n)
  have "u div 64 ^ n mod 64 = u mod 64 ^ Suc n div 64 ^ n" by (rule mod_power_div [symmetric])
  also have "\<dots> = w mod 64 ^ Suc n div 64 ^ n" by (simp only: Suc.prems)
  also have "\<dots> = w div 64 ^ n mod 64" by (rule mod_power_div)
  finally have d: "u div 64 ^ n mod 64 = w div 64 ^ n mod 64" .
  have dvd: "(64 :: nat) ^ n dvd 64 ^ Suc n" by (rule le_imp_power_dvd) simp
  have "u mod 64 ^ n = u mod 64 ^ Suc n mod 64 ^ n" using dvd by (simp only: mod_mod_cancel)
  also have "\<dots> = w mod 64 ^ Suc n mod 64 ^ n" by (simp only: Suc.prems)
  also have "\<dots> = w mod 64 ^ n" using dvd by (simp only: mod_mod_cancel)
  finally have "utf8_tail n u = utf8_tail n w" by (rule Suc.IH)
  with d show ?case by simp
qed

lemma utf8_tail_mod: "utf8_tail n (x * 64 ^ n + u) = utf8_tail n u"
  by (rule utf8_tail_cong) simp

lemma get_utf8_tail_sound:
  "get_utf8_tail n v s = (Some w, r) \<Longrightarrow> (unat v + 1) * 64 ^ n \<le> 2 ^ 32 \<Longrightarrow>
   \<exists>u < 64 ^ n. s = utf8_tail n u @ r \<and> unat w = unat v * 64 ^ n + u"
proof (induction n arbitrary: v s)
  case 0
  then show ?case by simp
next
  case (Suc n)
  from Suc.prems(1) obtain c s' where s: "s = c # s'" and c: "unat c div 64 = 2"
    and rest: "get_utf8_tail n (push_bit 6 v OR ucast (c AND BOTTOM_BITS 6)) s' = (Some w, r)"
    by (cases s) (auto simp: CBS_get_u8_eq continuation_iff [simplified] split: if_splits)
  note st = tail_step [OF Suc.prems(2), of c]
  obtain u where u: "u < 64 ^ n" "s' = utf8_tail n u @ r"
    and w: "unat w = (unat v * 64 + unat c mod 64) * 64 ^ n + u"
    using Suc.IH [OF rest] st by auto
  let ?q = "unat c mod 64"
  let ?u = "?q * 64 ^ n + u"
  have "?u < (?q + 1) * 64 ^ n" using u(1) by simp
  also have "\<dots> \<le> 64 * 64 ^ n" by (intro mult_right_mono) simp_all
  finally have lt: "?u < 64 ^ Suc n" by simp
  have "?u div 64 ^ n = ?q" using u(1) by simp
  then have "utf8_tail (Suc n) ?u = c # utf8_tail n u"
    using c by (simp add: byte_split(1) utf8_tail_mod)
  with s u(2) w lt show ?case by (intro exI [of _ ?u]) (simp add: distrib_right)
qed

lemma byte_lead_lt: "unat (c :: byte) div 32 = 6 \<longleftrightarrow> 192 \<le> unat c \<and> unat c < 224"
  "unat c div 16 = 14 \<longleftrightarrow> 224 \<le> unat c \<and> unat c < 240"
  "unat c div 8 = 30 \<longleftrightarrow> 240 \<le> unat c \<and> unat c < 248"
  by linarith+

text \<open>The first byte as a number.\<close>

lemma get_utf8_lead_eq:
  "get_utf8_lead c =
    (if unat c div 32 = 6 then Some (of_nat (unat c mod 32), 1, 0x80)
     else if unat c div 16 = 14 then Some (of_nat (unat c mod 16), 2, 0x800)
     else if unat c div 8 = 30 then Some (of_nat (unat c mod 8), 3, 0x10000) else None)"
proof -
  have uc: "unat w = k \<Longrightarrow> (ucast w :: 32 word) = of_nat k" for w :: byte and k
    by (rule unat_eqD) (simp add: unat_ucast_widen)
  show ?thesis
    unfolding get_utf8_lead_def lead_iff unat_and_bottom [THEN uc] ..
qed

lemma cbs_get_utf8_Nil: "cbs_get_utf8 [] = (None, [])"
  by (simp add: cbs_get_utf8_def CBS_get_u8_eq)

lemma cbs_get_utf8_Cons:
  "cbs_get_utf8 (c # s) =
    (if unat c < 128 then (Some (ucast c), s)
     else case get_utf8_lead c of None \<Rightarrow> (None, s)
        | Some (v0, len, lower) \<Rightarrow> get_utf8_multibyte v0 len lower s)"
proof -
  have "c \<le> 0x7f \<longleftrightarrow> unat c < 128" by (simp add: word_le_nat_alt less_Suc_eq_le [symmetric])
  then show ?thesis by (simp add: cbs_get_utf8_def CBS_get_u8_eq)
qed

lemma small_shift_bound: "(v0 :: nat) < 32 \<Longrightarrow> n \<le> 3 \<Longrightarrow> (v0 + 1) * 64 ^ n \<le> 2 ^ 32"
proof -
  assume "v0 < 32" "n \<le> 3"
  then have "(v0 + 1) * 64 ^ n \<le> 32 * 64 ^ 3" by (intro mult_mono power_increasing) simp_all
  then show ?thesis by simp
qed

lemma get_utf8_multibyte_sound:
  assumes "get_utf8_multibyte (of_nat v0) n lower s = (Some v, r)" and "v0 < 32" and "n \<le> 3"
  shows "is_valid_code_point v" and "unat lower \<le> unat v" and "s = utf8_tail n (unat v) @ r"
    and "unat v div 64 ^ n = v0"
proof -
  have u: "unat (of_nat v0 :: 32 word) = v0" using assms(2) by (intro unat_of_nat_lt) simp
  from assms(1) have t: "get_utf8_tail n (of_nat v0) s = (Some v, r)" and v: "is_valid_code_point v" "\<not> v < lower"
    by (auto simp: get_utf8_multibyte_def split: prod.splits option.splits if_splits)
  obtain x where x: "x < 64 ^ n" "s = utf8_tail n x @ r" and vx: "unat v = v0 * 64 ^ n + x"
    using get_utf8_tail_sound [OF t] small_shift_bound [OF assms(2,3)] unfolding u by blast
  show "is_valid_code_point v" "unat lower \<le> unat v" using v by (simp_all add: word_less_nat_alt not_less)
  show "s = utf8_tail n (unat v) @ r" unfolding vx utf8_tail_mod by (rule x(2))
  show "unat v div 64 ^ n = v0" using x(1) by (simp add: vx)
qed

lemma get_utf8_multibyte_complete:
  assumes "is_valid_code_point v" and "unat lower \<le> unat v" and "unat v div 64 ^ n < 32" and "n \<le> 3"
  shows "get_utf8_multibyte (of_nat (unat v div 64 ^ n)) n lower (utf8_tail n (unat v) @ r) = (Some v, r)"
proof -
  have u: "unat (of_nat (unat v div 64 ^ n) :: 32 word) = unat v div 64 ^ n"
    using assms(3) by (intro unat_of_nat_lt) simp
  have "get_utf8_tail n (of_nat (unat v div 64 ^ n)) (utf8_tail n (unat v) @ r)
      = (Some (of_nat (unat v div 64 ^ n * 64 ^ n + unat v mod 64 ^ n)), r)"
    using get_utf8_tail_complete [of "of_nat (unat v div 64 ^ n)" n "unat v" r] small_shift_bound [OF assms(3,4)]
    unfolding u by blast
  also have "of_nat (unat v div 64 ^ n * 64 ^ n + unat v mod 64 ^ n) = v"
    by (simp only: div_mult_mod_eq) simp
  finally show ?thesis using assms(1,2) by (simp add: get_utf8_multibyte_def word_less_nat_alt not_less)
qed

lemma utf8_sound:
  assumes "cbs_get_utf8 s = (Some v, r)"
  shows "(unat v < 128 \<or> is_valid_code_point v) \<and> s = utf8 (unat v) @ r"
proof -
  obtain c s' where s: "s = c # s'" using assms by (cases s) (auto simp: cbs_get_utf8_Nil)
  show ?thesis
  proof (cases "unat c < 128")
    case True
    with assms s have "v = ucast c" "r = s'" by (auto simp: cbs_get_utf8_Cons)
    then have "unat v = unat c" "r = s'" by (simp_all add: unat_ucast_widen)
    with True s show ?thesis by (simp add: utf8_def)
  next
    case False
    then obtain v0 n lower where l: "get_utf8_lead c = Some (v0, n, lower)"
      and m: "get_utf8_multibyte v0 n lower s' = (Some v, r)"
      using assms s by (auto simp: cbs_get_utf8_Cons split: option.splits)
    consider (two) "unat c div 32 = 6" "v0 = of_nat (unat c mod 32)" "n = 1" "lower = 0x80"
      | (three) "unat c div 16 = 14" "v0 = of_nat (unat c mod 16)" "n = 2" "lower = 0x800"
      | (four) "unat c div 8 = 30" "v0 = of_nat (unat c mod 8)" "n = 3" "lower = 0x10000"
      using l by (auto simp: get_utf8_lead_eq split: if_splits)
    then show ?thesis
    proof cases
      case two
      have "unat c mod 32 < 32" by simp
      note f = get_utf8_multibyte_sound [OF m [unfolded two] this]
      have q: "unat v div 64 = unat c mod 32" using f(4) by simp
      have lo: "0x80 \<le> unat v" using f(2) by simp
      have "unat v < 32 * 64" using q \<open>unat c mod 32 < 32\<close> by (simp add: div_less_iff_less_mult [symmetric])
      with lo q f(1,3) s byte_split(2) [OF two(1)] show ?thesis by (simp add: utf8_def del: utf8_tail.simps)
    next
      case three
      have "unat c mod 16 < 16" by simp
      then have "unat c mod 16 < 32" by (rule less_trans) simp
      note f = get_utf8_multibyte_sound [OF m [unfolded three] this]
      have q: "unat v div 64 ^ 2 = unat c mod 16" using f(4) by simp
      have lo: "0x800 \<le> unat v" using f(2) by simp
      have "unat v < 16 * 64 ^ 2" using q \<open>unat c mod 16 < 16\<close> by (simp add: div_less_iff_less_mult [symmetric])
      with lo q f(1,3) s byte_split(3) [OF three(1)] show ?thesis by (simp add: utf8_def del: utf8_tail.simps)
    next
      case four
      have "unat c mod 8 < 8" by simp
      then have "unat c mod 8 < 32" by (rule less_trans) simp
      note f = get_utf8_multibyte_sound [OF m [unfolded four] this]
      have q: "unat v div 64 ^ 3 = unat c mod 8" using f(4) by simp
      have lo: "0x10000 \<le> unat v" using f(2) by simp
      with q f(1,3) s byte_split(4) [OF four(1)] show ?thesis by (simp add: utf8_def del: utf8_tail.simps)
    qed
  qed
qed

text \<open>The code points by their ranges: no surrogates, no noncharacters.\<close>

lemma is_valid_code_point_iff:
  "is_valid_code_point v \<longleftrightarrow> unat v \<le> 0x10ffff \<and> \<not> (0xd800 \<le> unat v \<and> unat v \<le> 0xdfff) \<and> \<not> (0xfdd0 \<le> unat v \<and> unat v \<le> 0xfdef)
    \<and> unat v mod 0x10000 < 0xfffe"
proof -
  have k: "(0xfffe :: 32 word) = push_bit 1 (mask 15)" by (simp add: mask_eq_exp_minus_1)
  have "v AND push_bit n (mask m) = push_bit n (take_bit m (drop_bit n v))" for n m
    by (rule bit_word_eqI) (auto simp: bit_simps)
  then have p: "v AND 0xfffe = push_bit 1 (take_bit 15 (drop_bit 1 v))" unfolding k .
  have w: "unat (take_bit 15 (drop_bit 1 v)) = unat v div 2 mod 32768"
  proof -
    have "unat (take_bit 15 u) = take_bit 15 (unat u)" for u :: "32 word" by (rule unsigned_take_bit_eq)
    then show ?thesis by (simp only: unat_drop_bit) (simp add: take_bit_eq_mod)
  qed
  have "unat v div 2 mod 32768 < 32768" by simp
  then have "unat (v AND 0xfffe) = 2 * (unat v div 2 mod 32768)"
  proof -
    assume "unat v div 2 mod 32768 < 32768"
    moreover have "unat (push_bit 1 u) = take_bit 32 (push_bit 1 (unat u))" for u :: "32 word" using unsigned_push_bit_eq [of 1 u] by simp
    ultimately show ?thesis unfolding p by (simp only: w) (simp add: take_bit_eq_mod push_bit_eq_mult)
  qed
  moreover have "v AND 0xfffe = 0xfffe \<longleftrightarrow> unat (v AND 0xfffe) = 0xfffe" by (simp add: word_unat_eq_iff)
  moreover have "2 * (n div 2 mod 32768) = 0xfffe \<longleftrightarrow> 0xfffe \<le> n mod 0x10000" for n :: nat
  proof -
    have "n mod 0x10000 = 2 * (n div 2 mod 32768) + n mod 2" using mod_mult2_eq [of n 2 32768] by simp
    moreover have "n mod 2 < 2" "n div 2 mod 32768 < 32768" by simp_all
    moreover have "y = 2 * x + r \<Longrightarrow> r < 2 \<Longrightarrow> x < 32768 \<Longrightarrow> 2 * x = 0xfffe \<longleftrightarrow> 0xfffe \<le> y" for x y r :: nat by presburger
    ultimately show ?thesis by blast
  qed
  ultimately have "v AND 0xfffe = 0xfffe \<longleftrightarrow> 0xfffe \<le> unat v mod 0x10000" by simp
  then show ?thesis by (auto simp: is_valid_code_point_def word_less_nat_alt word_le_nat_alt)
qed

lemma valid_code_point_bound: "is_valid_code_point v \<Longrightarrow> unat v < 0x110000"
  by (simp add: is_valid_code_point_iff)

lemma utf8_complete:
  assumes "unat v < 128 \<or> is_valid_code_point v"
  shows "cbs_get_utf8 (utf8 (unat v) @ r) = (Some v, r)"
proof -
  have lt: "unat v < 0x110000" using assms valid_code_point_bound by fastforce
  consider (one) "unat v < 0x80" | (two) "0x80 \<le> unat v" "unat v < 0x800"
    | (three) "0x800 \<le> unat v" "unat v < 0x10000" | (four) "0x10000 \<le> unat v" by linarith
  then show ?thesis
  proof cases
    case one
    then have "unat (byte_of (unat v)) = unat v" by (intro unat_byte_of) simp
    moreover from this have "ucast (byte_of (unat v)) = v" by (simp add: word_unat_eq_iff unat_ucast_widen)
    ultimately show ?thesis using one by (simp add: utf8_def cbs_get_utf8_Cons)
  next
    case two
    let ?q = "unat v div 64"
    have q: "?q < 32" using two by (simp add: div_less_iff_less_mult)
    then have c: "unat (byte_of (192 + ?q)) = 192 + ?q" by (intro unat_byte_of) simp
    have "get_utf8_lead (byte_of (192 + ?q)) = Some (of_nat ?q, 1, 0x80)"
      using q mod_mult_self3 [of 6 32 ?q] by (simp add: get_utf8_lead_eq c)
    moreover have "get_utf8_multibyte (of_nat ?q) 1 0x80 (utf8_tail 1 (unat v) @ r) = (Some v, r)"
      using get_utf8_multibyte_complete [of v "0x80" 1 r] two assms q by simp
    ultimately show ?thesis using two c by (simp add: utf8_def cbs_get_utf8_Cons del: utf8_tail.simps)
  next
    case three
    let ?q = "unat v div 64 ^ 2"
    have q: "?q < 16" using three by (simp add: div_less_iff_less_mult)
    then have c: "unat (byte_of (224 + ?q)) = 224 + ?q" by (intro unat_byte_of) simp
    have "get_utf8_lead (byte_of (224 + ?q)) = Some (of_nat ?q, 2, 0x800)"
      using q mod_mult_self3 [of 14 16 ?q] div_mult_self3 [of 32 7 ?q] unfolding get_utf8_lead_eq c by simp
    moreover have "get_utf8_multibyte (of_nat ?q) 2 0x800 (utf8_tail 2 (unat v) @ r) = (Some v, r)"
      using get_utf8_multibyte_complete [of v "0x800" 2 r] three assms q by simp
    ultimately show ?thesis using three c by (simp add: utf8_def cbs_get_utf8_Cons del: utf8_tail.simps)
  next
    case four
    let ?q = "unat v div 64 ^ 3"
    have q: "?q < 8" using lt by (simp add: div_less_iff_less_mult)
    then have c: "unat (byte_of (240 + ?q)) = 240 + ?q" by (intro unat_byte_of) simp
    have "get_utf8_lead (byte_of (240 + ?q)) = Some (of_nat ?q, 3, 0x10000)"
    proof -
      have "(240 + ?q) div 8 = 30" "(240 + ?q) div 16 = 15" "(240 + ?q) div 32 = 7"
        using q by (intro div_nat_eqI; simp)+
      then show ?thesis using q mod_mult_self3 [of 30 8 ?q] unfolding get_utf8_lead_eq c by simp
    qed
    moreover have "get_utf8_multibyte (of_nat ?q) 3 0x10000 (utf8_tail 3 (unat v) @ r) = (Some v, r)"
      using get_utf8_multibyte_complete [of v "0x10000" 3 r] four assms q by simp
    ultimately show ?thesis using four c by (simp add: utf8_def cbs_get_utf8_Cons del: utf8_tail.simps)
  qed
qed

interpretation utf8: nonempty_codec "\<lambda>u. utf8 (unat u)" "parsed cbs_get_utf8" "\<lambda>u. unat u < 128 \<or> is_valid_code_point u"
proof
  show "parsed cbs_get_utf8 (utf8 (unat u) @ r) = Some (u, r)" if "unat u < 128 \<or> is_valid_code_point u" for u r
    using that by (simp add: parsed_Some_iff utf8_complete)
  show "(unat u < 128 \<or> is_valid_code_point u) \<and> s = utf8 (unat u) @ r" if "parsed cbs_get_utf8 s = Some (u, r)" for s u r
    using that utf8_sound by (simp add: parsed_Some_iff)
  show "utf8 (unat u) \<noteq> []" for u by (simp add: utf8_def)
qed

lemma unat_utf8_continuation: "utf8_continuation x = byte_of (128 + unat x mod 64)"
proof -
  have "unat (x AND 63) = unat x mod 64" using unat_and_mask [of x 6] by (simp add: mask_eq_exp_minus_1)
  then have "unat (0x80 OR (x AND 63)) = 128 + unat x mod 64"
    using unat_or_disjoint [of 6 "0x80" "x AND 63"] by simp
  moreover have "ucast (TOP_BITS 1) OR (x AND ucast (BOTTOM_BITS 6)) = 0x80 OR (x AND 63)"
    unfolding bits_values by simp
  ultimately have "unat (utf8_continuation x) = 128 + unat x mod 64"
    unfolding utf8_continuation_def by (simp add: unsigned_ucast_eq take_bit_eq_mod)
  then show ?thesis by (rule byte_of_eq [symmetric])
qed

lemma utf8_lead_byte:
  assumes "unat (t :: 32 word) = 2 ^ k * j" and "unat x < 2 ^ k" and "unat t + unat x < 256"
  shows "(ucast (t OR x) :: byte) = byte_of (unat t + unat x)"
proof -
  have "unat (t OR x) = unat t + unat x"
    using unat_or_disjoint [of k t x] assms(1,2) by simp
  with assms(3) have "unat (ucast (t OR x) :: byte) = unat t + unat x"
    by (simp add: unsigned_ucast_eq take_bit_nat_eq_self)
  then show ?thesis by (rule byte_of_eq [symmetric])
qed

lemma utf8_tail_numerals:
  "utf8_tail 2 u = [byte_of (128 + u div 64 mod 64), byte_of (128 + u mod 64)]"
  "utf8_tail 3 u = [byte_of (128 + u div 4096 mod 64), byte_of (128 + u div 64 mod 64), byte_of (128 + u mod 64)]"
  by (simp_all only: numeral_2_eq_2 numeral_3_eq_3 utf8_tail.simps) simp_all

lemma writes_cbb_add_utf8:
  assumes "is_valid_code_point u"
  shows "writes d (cbb_add_utf8 u d) (utf8 (unat u))"
proof -
  have lt: "unat u < 0x110000" using assms by (rule valid_code_point_bound)
  have t: "(ucast (TOP_BITS 2) :: 32 word) = 192" "(ucast (TOP_BITS 3) :: 32 word) = 224" "(ucast (TOP_BITS 4) :: 32 word) = 240"
    unfolding bits_values by simp_all
  consider (one) "unat u < 0x80" | (two) "0x80 \<le> unat u" "unat u < 0x800"
    | (three) "0x800 \<le> unat u" "unat u < 0x10000" | (four) "0x10000 \<le> unat u" by linarith
  then show ?thesis
  proof cases
    case one
    then have "(ucast u :: byte) = byte_of (unat u)"
      by (intro byte_of_eq [symmetric]) (simp add: unsigned_ucast_eq take_bit_nat_eq_self)
    moreover from one have "cbb_add_utf8 u d = CBB_add_u8 (ucast u) d"
      using assms by (intro ext) (simp add: cbb_add_utf8_def word_le_nat_alt)
    ultimately show ?thesis using one writes_CBB_add_u8 by (simp add: utf8_def)
  next
    case two
    have q: "unat u div 64 < 32" using two by (simp add: div_less_iff_less_mult)
    have l: "ucast (ucast (TOP_BITS 2) OR drop_bit 6 u) = byte_of (192 + unat u div 64)"
      using utf8_lead_byte [of 192 6 3 "drop_bit 6 u"] q unfolding t by (simp add: unat_drop_bit)
    have "cbb_add_utf8 u d = and_also (CBB_add_u8 (ucast (ucast (TOP_BITS 2) OR drop_bit 6 u)) d) (CBB_add_u8 (utf8_continuation u) d)"
      using assms two by (intro ext) (simp add: cbb_add_utf8_def word_le_nat_alt)
    then show ?thesis
      using two writes_seq [OF writes_CBB_add_u8 writes_CBB_add_u8, of d "byte_of (192 + unat u div 64)" "utf8_continuation u"]
      unfolding l by (simp add: utf8_def unat_utf8_continuation)
  next
    case three
    have q: "unat u div 4096 < 16" using three by (simp add: div_less_iff_less_mult)
    have l: "ucast (ucast (TOP_BITS 3) OR drop_bit 12 u) = byte_of (224 + unat u div 4096)"
      using utf8_lead_byte [of 224 4 14 "drop_bit 12 u"] q unfolding t by (simp add: unat_drop_bit)
    have "cbb_add_utf8 u d = and_also (CBB_add_u8 (ucast (ucast (TOP_BITS 3) OR drop_bit 12 u)) d)
        (and_also (CBB_add_u8 (utf8_continuation (drop_bit 6 u)) d) (CBB_add_u8 (utf8_continuation u) d))"
      using assms three by (intro ext) (simp add: cbb_add_utf8_def word_le_nat_alt)
    then show ?thesis
      using three writes_seq [OF writes_CBB_add_u8 writes_seq [OF writes_CBB_add_u8 writes_CBB_add_u8],
          of d "byte_of (224 + unat u div 4096)" "utf8_continuation (drop_bit 6 u)" "utf8_continuation u"]
      unfolding l by (simp add: utf8_def unat_utf8_continuation unat_drop_bit utf8_tail_numerals del: utf8_tail.simps)
  next
    case four
    have q: "unat u div 262144 < 8" using lt by (simp add: div_less_iff_less_mult)
    have l: "ucast (ucast (TOP_BITS 4) OR drop_bit 18 u) = byte_of (240 + unat u div 262144)"
      using utf8_lead_byte [of 240 4 15 "drop_bit 18 u"] q unfolding t by (simp add: unat_drop_bit)
    have "cbb_add_utf8 u d = and_also (CBB_add_u8 (ucast (ucast (TOP_BITS 4) OR drop_bit 18 u)) d)
        (and_also (CBB_add_u8 (utf8_continuation (drop_bit 12 u)) d)
        (and_also (CBB_add_u8 (utf8_continuation (drop_bit 6 u)) d) (CBB_add_u8 (utf8_continuation u) d)))"
      using assms four lt by (intro ext) (simp add: cbb_add_utf8_def word_le_nat_alt)
    then show ?thesis
      using four writes_seq [OF writes_CBB_add_u8 writes_seq [OF writes_CBB_add_u8 writes_seq [OF writes_CBB_add_u8 writes_CBB_add_u8]],
          of d "byte_of (240 + unat u div 262144)" "utf8_continuation (drop_bit 12 u)" "utf8_continuation (drop_bit 6 u)" "utf8_continuation u"]
      unfolding l by (simp add: utf8_def unat_utf8_continuation unat_drop_bit utf8_tail_numerals del: utf8_tail.simps)
  qed
qed

lemma length_utf8: "length (utf8 (unat u)) = cbb_get_utf8_len u"
proof -
  have "length (utf8_tail n w) = n" for n w by (induction n) simp_all
  then show ?thesis by (auto simp: utf8_def cbb_get_utf8_len_def word_le_nat_alt simp del: utf8_tail.simps)
qed

interpretation w_utf8: cbb_codec "\<lambda>u. utf8 (unat u)" "parsed cbs_get_utf8" "\<lambda>u. unat u < 128 \<or> is_valid_code_point u"
  cbb_add_utf8 is_valid_code_point
proof
  show "writes d (cbb_add_utf8 u d) (utf8 (unat u))" if "is_valid_code_point u" for u d
    using that by (rule writes_cbb_add_utf8)
  show "length (utf8 (unat u)) < 2 ^ 64" for u :: "32 word" unfolding length_utf8 by (simp add: cbb_get_utf8_len_def)
qed simp

subsection \<open>Latin-1, UCS-2 and UTF-32\<close>

lemma latin1_codec: "nonempty_codec (\<lambda>u :: 32 word. [byte_of (unat u)]) (parsed cbs_get_latin1) (\<lambda>u. unat u < 256)"
proof
  show "parsed cbs_get_latin1 ([byte_of (unat u)] @ r) = Some (u, r)" if "unat u < 256" for u r
    using that by (simp add: parsed_Some_iff cbs_get_latin1_def CBS_get_u8_eq word_unat_eq_iff unat_ucast_widen unat_byte_of)
  show "unat u < 256 \<and> s = [byte_of (unat u)] @ r" if "parsed cbs_get_latin1 s = Some (u, r)" for s u r
    using that by (cases s) (auto simp: parsed_Some_iff cbs_get_latin1_def CBS_get_u8_eq unat_ucast_widen)
qed simp

lemma cbs_get_ucs2_be_eq:
  "parsed cbs_get_ucs2_be s = (case parsed CBS_get_u16 s of None \<Rightarrow> None
     | Some (c, r) \<Rightarrow> if is_valid_code_point (ucast c) then Some (ucast c, r) else None)"
  by (auto simp: parsed_def cbs_get_ucs2_be_def split: prod.splits option.splits)

lemma ucs2_codec: "byte_codec (\<lambda>u :: 32 word. be_bytes 2 (unat u)) (parsed cbs_get_ucs2_be) (\<lambda>u. unat u < 2 ^ 16 \<and> is_valid_code_point u)"
proof
  fix u :: "32 word" and r
  assume u: "unat u < 2 ^ 16 \<and> is_valid_code_point u"
  then have c: "unat (ucast u :: 16 word) = unat u" by (simp add: unsigned_ucast_eq take_bit_nat_eq_self)
  then have undo: "ucast (ucast u :: 16 word) = u" by (simp add: word_unat_eq_iff unat_ucast_widen)
  have "parsed CBS_get_u16 (be_bytes 2 (unat u) @ r) = Some (ucast u, r)"
    using u16.dec_enc [of "ucast u" r] u by (simp only: c) simp
  then show "parsed cbs_get_ucs2_be (be_bytes 2 (unat u) @ r) = Some (u, r)"
    using u undo by (simp add: cbs_get_ucs2_be_eq)
next
  fix s r and u :: "32 word"
  assume "parsed cbs_get_ucs2_be s = Some (u, r)"
  then obtain c where c: "parsed CBS_get_u16 s = Some (c, r)" and v: "is_valid_code_point u" and u: "u = ucast c"
    by (auto simp: cbs_get_ucs2_be_eq split: option.splits if_splits)
  have uu: "unat u = unat c" by (simp add: u unat_ucast_widen)
  have "unat c < 256 ^ 2 \<and> s = be_bytes 2 (unat c) @ r" using c by (rule u16.enc_dec)
  with v show "(unat u < 2 ^ 16 \<and> is_valid_code_point u) \<and> s = be_bytes 2 (unat u) @ r" unfolding uu by simp
qed

lemma cbs_get_utf32_be_eq:
  "parsed cbs_get_utf32_be s = (case parsed CBS_get_u32 s of None \<Rightarrow> None
     | Some (c, r) \<Rightarrow> if is_valid_code_point c then Some (c, r) else None)"
  by (auto simp: parsed_def cbs_get_utf32_be_def split: prod.splits option.splits)

lemma utf32_codec: "byte_codec (\<lambda>u :: 32 word. be_bytes 4 (unat u)) (parsed cbs_get_utf32_be) is_valid_code_point"
proof
  fix u :: "32 word" and r
  assume u: "is_valid_code_point u"
  have "unat u < 256 ^ 4" using unsigned_less [of u, where ?'a = nat] by simp
  then have "parsed CBS_get_u32 (be_bytes 4 (unat u) @ r) = Some (u, r)" by (rule u32.dec_enc)
  then show "parsed cbs_get_utf32_be (be_bytes 4 (unat u) @ r) = Some (u, r)"
    using u by (simp add: cbs_get_utf32_be_eq)
next
  fix s r and u :: "32 word"
  assume "parsed cbs_get_utf32_be s = Some (u, r)"
  then have "parsed CBS_get_u32 s = Some (u, r)" and "is_valid_code_point u"
    by (auto simp: cbs_get_utf32_be_eq split: option.splits if_splits)
  then show "is_valid_code_point u \<and> s = be_bytes 4 (unat u) @ r" using u32.enc_dec by blast
qed

interpretation w_latin1: cbb_codec "\<lambda>u. [byte_of (unat u)]" "parsed cbs_get_latin1" "\<lambda>u. unat u < 256"
  cbb_add_latin1 "\<lambda>u. unat u < 256"
proof (rule cbb_codec.intro [OF nonempty_codec.axioms(1) [OF latin1_codec]], unfold_locales)
  fix u :: "32 word" and d
  assume u: "unat u < 256"
  then have "cbb_add_latin1 u d = CBB_add_u8 (ucast u) d"
    by (intro ext) (simp add: cbb_add_latin1_def word_le_nat_alt)
  moreover have "(ucast u :: byte) = byte_of (unat u)"
    using u by (intro byte_of_eq [symmetric]) (simp add: unsigned_ucast_eq take_bit_nat_eq_self)
  ultimately show "writes d (cbb_add_latin1 u d) [byte_of (unat u)]" using writes_CBB_add_u8 by simp
qed simp_all

interpretation w_ucs2: cbb_codec "\<lambda>u. be_bytes 2 (unat u)" "parsed cbs_get_ucs2_be" "\<lambda>u. unat u < 2 ^ 16 \<and> is_valid_code_point u"
  cbb_add_ucs2_be "\<lambda>u. unat u < 2 ^ 16 \<and> is_valid_code_point u"
proof (rule cbb_codec.intro [OF ucs2_codec], unfold_locales)
  fix u :: "32 word" and d
  assume u: "unat u < 2 ^ 16 \<and> is_valid_code_point u"
  then have "cbb_add_ucs2_be u d = CBB_add_u16 (ucast u) d"
    by (intro ext) (simp add: cbb_add_ucs2_be_def word_le_nat_alt)
  moreover have "unat (ucast u :: 16 word) = unat u"
    using u by (simp add: unsigned_ucast_eq take_bit_nat_eq_self)
  ultimately show "writes d (cbb_add_ucs2_be u d) (be_bytes 2 (unat u))"
    using writes_CBB_add_u16 [of d "ucast u"] by simp
qed simp_all

interpretation w_utf32: cbb_codec "\<lambda>u. be_bytes 4 (unat u)" "parsed cbs_get_utf32_be" is_valid_code_point
  cbb_add_utf32_be is_valid_code_point
proof (rule cbb_codec.intro [OF utf32_codec], unfold_locales)
  fix u :: "32 word" and d
  assume "is_valid_code_point u"
  then have "cbb_add_utf32_be u d = CBB_add_u32 u d" by (intro ext) (simp add: cbb_add_utf32_be_def)
  then show "writes d (cbb_add_utf32_be u d) (be_bytes 4 (unat u))" using writes_CBB_add_u32 by simp
qed simp_all

end
