(* ===== verification/Ber.thy ===== *)
theory Ber
  imports Cbb_Asn1
begin

text \<open>
  Model of \<open>crypto/bytestring/ber.c\<close>: the conversion of BER (indefinite lengths, strings in
  pieces) to DER that PKCS#7 and PKCS#12 parsing starts with.

  \<open>cbs_convert_ber\<close> carries fuel. Every round of its loop and every recursive call works on a
  shorter byte string, so one unit per input byte and one more is enough: with at least that
  much the result does not depend on the fuel.
\<close>

subsection \<open>The code\<close>

definition kMaxDepth :: nat where
  "kMaxDepth = 2048"

text \<open>The tags of the string types (\<open>include/openssl/bytestring.h\<close>), in the order of the switch.\<close>

definition is_string_type :: "32 word \<Rightarrow> bool" where
  "is_string_type tag =
     (let t = tag AND NOT CBS_ASN1_CONSTRUCTED
      in t = 0x3 \<or> t = 0x4 \<or> t = 0xc \<or> t = 0x12 \<or> t = 0x13 \<or> t = 0x14 \<or> t = 0x15 \<or> t = 0x16
         \<or> t = 0x19 \<or> t = 0x1a \<or> t = 0x1b \<or> t = 0x1c \<or> t = 0x1e)"

text \<open>The test for an indefinite-length element, as both functions make it.\<close>

definition is_indefinite :: "nat \<Rightarrow> CBS \<Rightarrow> bool" where
  "is_indefinite header_len contents =
     (CBS_len contents = header_len \<and> header_len > 0 \<and> contents ! (header_len - 1) = 0x80)"

lemma any_ber_shrinks:
  assumes "CBS_get_any_ber_asn1_element s = (Some (contents, tag, hl), r)"
  shows "length r < length s" and "hl \<le> length contents" and "length contents - hl < length s"
proof -
  have "length r < length s \<and> hl \<le> length contents \<and> length contents - hl < length s"
  proof (cases "parse_asn1_tag s")
    case (Pair o_tag h)
    with assms obtain t where t: "o_tag = Some t"
      by (cases o_tag) (auto simp: CBS_get_any_ber_asn1_element_def any_asn1_element_eq)
    with Pair have s: "s = der_tag t @ h" by (simp add: parse_asn1_tag_sound)
    have tl: "0 < length (der_tag t)" using der_tag.enc_nonempty [of t] by simp
    show ?thesis
    proof (cases "indefinite t h")
      case True
      then obtain b h' where "h = b # h'" by (cases h) (auto simp: indefinite_def)
      with assms Pair t True s tl show ?thesis
        by (auto simp: CBS_get_any_ber_asn1_element_def any_asn1_element_eq)
    next
      case False
      with assms Pair t obtain n k where lf: "len_field h = Some (n, k)"
        by (auto simp: CBS_get_any_ber_asn1_element_def any_asn1_element_eq split: option.splits)
      have k: "0 < k" using len_field_sound [OF lf] by (simp add: length_der_len)
      from assms Pair t False lf s tl k show ?thesis
        by (auto simp: CBS_get_any_ber_asn1_element_def any_asn1_element_eq Let_def split: if_splits)
    qed
  qed
  then show "length r < length s" and "hl \<le> length contents" and "length contents - hl < length s"
    by simp_all
qed

text \<open>
  The loop of \<open>cbs_find_ber\<close> at a given depth; \<open>found\<close> is \<open>*ber_found\<close>. The result is
  \<open>None\<close> on error and otherwise the final \<open>*ber_found\<close>. A recursive call starts by setting
  \<open>*ber_found\<close> to 0.
\<close>

function find_ber_loop :: "nat \<Rightarrow> CBS \<Rightarrow> bool \<Rightarrow> bool option" where
  "find_ber_loop depth cbs found =
     (if CBS_len cbs = 0 then Some found
      else case CBS_get_any_ber_asn1_element cbs of
             (None, _) \<Rightarrow> None
           | (Some (contents, tag, header_len), cbs') \<Rightarrow>
               if is_indefinite header_len contents then Some True
               else if tag AND CBS_ASN1_CONSTRUCTED \<noteq> 0 then
                 (if is_string_type tag then Some True
                  else case CBS_skip header_len contents of
                         (False, _) \<Rightarrow> None
                       | (True, contents') \<Rightarrow>
                           if depth + 1 > kMaxDepth then None
                           else (case find_ber_loop (depth + 1) contents' False of
                               None \<Rightarrow> None
                             | Some found' \<Rightarrow> find_ber_loop depth cbs' found'))
               else find_ber_loop depth cbs' found)"
  by pat_completeness auto
termination
  by (relation "measure (\<lambda>(depth, cbs, found). length cbs)")
    (auto simp: CBS_skip_eq dest: any_ber_shrinks [OF sym] split: if_splits)

declare find_ber_loop.simps [simp del]

definition cbs_find_ber :: "CBS \<Rightarrow> nat \<Rightarrow> bool option" where
  "cbs_find_ber orig_in depth = (if depth > kMaxDepth then None else find_ber_loop depth orig_in False)"

definition is_eoc :: "nat \<Rightarrow> CBS \<Rightarrow> bool" where
  "is_eoc header_len contents =
     (header_len = 2 \<and> CBS_len contents = 2 \<and> OPENSSL_memcmp (CBS_data contents) [0, 0] 2 = 0)"

text \<open>
  Where the contents of an element go: the CBB \<open>out_contents\<close> (its depth) and
  \<open>child_string_tag\<close>.
\<close>

definition convert_ber_open :: "32 word \<Rightarrow> 32 word \<Rightarrow> nat \<Rightarrow> (CBB, nat \<times> 32 word) reader" where
  "convert_ber_open string_tag tag out s =
     (if string_tag \<noteq> 0 then
        (if tag AND NOT CBS_ASN1_CONSTRUCTED \<noteq> string_tag then (None, s) else (Some (out, string_tag), s))
      else
        let constructed_string = (tag AND CBS_ASN1_CONSTRUCTED \<noteq> 0 \<and> is_string_type tag);
            out_tag = (if constructed_string then tag AND NOT CBS_ASN1_CONSTRUCTED else tag);
            child_string_tag = (if constructed_string then out_tag else string_tag)
        in case CBB_add_asn1 out_tag out s of
             (False, s') \<Rightarrow> (None, s')
           | (True, s') \<Rightarrow> (Some (out + 1, child_string_tag), s'))"

fun cbs_convert_ber ::
  "nat \<Rightarrow> CBS \<Rightarrow> nat \<Rightarrow> 32 word \<Rightarrow> bool \<Rightarrow> nat \<Rightarrow> CBB \<Rightarrow> bool \<times> CBS \<times> CBB" where
  "cbs_convert_ber 0 cbs out string_tag looking_for_eoc depth s = (False, cbs, s)"
| "cbs_convert_ber (Suc fuel) cbs out string_tag looking_for_eoc depth s =
     (if depth > kMaxDepth then (False, cbs, s)
      else if CBS_len cbs = 0 then (\<not> looking_for_eoc, cbs, s)
      else case CBS_get_any_ber_asn1_element cbs of
             (None, cbs1) \<Rightarrow> (False, cbs1, s)
           | (Some (contents, tag, header_len), cbs1) \<Rightarrow>
               if is_eoc header_len contents then (looking_for_eoc, cbs1, s)
               else
                 (case convert_ber_open string_tag tag out s of
                    (None, s1) \<Rightarrow> (False, cbs1, s1)
                  | (Some (out_contents, child_string_tag), s1) \<Rightarrow>
                      (case (if is_indefinite header_len contents
                             then cbs_convert_ber fuel cbs1 out_contents child_string_tag True (depth + 1) s1
                             else
                               (case CBS_skip header_len contents of
                                  (False, _) \<Rightarrow> (False, cbs1, s1)
                                | (True, contents') \<Rightarrow>
                                    if tag AND CBS_ASN1_CONSTRUCTED \<noteq> 0
                                    then (case cbs_convert_ber fuel contents' out_contents child_string_tag False (depth + 1) s1 of
                                        (ok, _, s2) \<Rightarrow> (ok, cbs1, s2))
                                    else (case CBB_add_bytes contents' out_contents s1 of (ok, s2) \<Rightarrow> (ok, cbs1, s2))))
                       of (False, cbs2, s2) \<Rightarrow> (False, cbs2, s2)
                        | (True, cbs2, s2) \<Rightarrow>
                            (case CBB_flush out s2 of
                               (False, s3) \<Rightarrow> (False, cbs2, s3)
                             | (True, s3) \<Rightarrow> cbs_convert_ber fuel cbs2 out string_tag looking_for_eoc depth s3))))"

text \<open>
  The output and the allocated storage (\<open>None\<close> when the output points into the input).
\<close>

definition CBS_asn1_ber_to_der :: "allocator \<Rightarrow> (CBS, CBS \<times> byte list option) reader" where
  "CBS_asn1_ber_to_der malloc cbs = (case cbs_find_ber cbs 0 of
       None \<Rightarrow> (None, cbs)
     | Some False \<Rightarrow>
         (case CBS_get_any_asn1_element cbs of
            (None, cbs') \<Rightarrow> (None, cbs')
          | (Some (out, _, _), cbs') \<Rightarrow> (Some (out, None), cbs'))
     | Some True \<Rightarrow>
         (case CBB_init malloc (CBS_len cbs) of
            (False, _) \<Rightarrow> (None, cbs)
          | (True, cbb) \<Rightarrow>
              (case cbs_convert_ber (CBS_len cbs + 1) cbs 0 0 False 0 cbb of
                 (False, cbs', _) \<Rightarrow> (None, cbs')
               | (True, cbs', cbb') \<Rightarrow>
                   (case CBB_finish True 0 cbb' of
                      (None, _) \<Rightarrow> (None, cbs')
                    | (Some out, _) \<Rightarrow> (Some (out, Some out), cbs')))))"

lemma CBS_get_asn1_shrinks: "CBS_get_asn1 tag s = (Some c, r) \<Longrightarrow> length r < length s"
  using der_tag.enc_nonempty [of tag] by (auto simp: CBS_get_asn1_iff der_element_def der_header_def)

text \<open>The chunks of a constructed string.\<close>

function implicit_string_loop :: "32 word \<Rightarrow> CBS \<Rightarrow> CBB step" where
  "implicit_string_loop inner_tag child s =
     (if CBS_len child = 0 then (True, s)
      else case CBS_get_asn1 inner_tag child of
             (None, _) \<Rightarrow> (False, s)
           | (Some chunk, child') \<Rightarrow>
               (case CBB_add_bytes chunk 0 s of
                  (False, s') \<Rightarrow> (False, s')
                | (True, s') \<Rightarrow> implicit_string_loop inner_tag child' s'))"
  by pat_completeness auto
termination
  by (relation "measure (\<lambda>(tag, child, s). length child)") (auto dest: CBS_get_asn1_shrinks [OF sym])

declare implicit_string_loop.simps [simp del]

definition CBS_get_asn1_implicit_string :: "allocator \<Rightarrow> 32 word \<Rightarrow> 32 word \<Rightarrow> (CBS, CBS \<times> byte list option) reader" where
  "CBS_get_asn1_implicit_string malloc outer_tag inner_tag cbs =
     (if CBS_peek_asn1_tag cbs outer_tag
      then (case CBS_get_asn1 outer_tag cbs of
          (None, cbs') \<Rightarrow> (None, cbs')
        | (Some out, cbs') \<Rightarrow> (Some (out, None), cbs'))
      else (case CBB_init malloc (CBS_len cbs) of
          (False, _) \<Rightarrow> (None, cbs)
        | (True, result) \<Rightarrow>
            (case CBS_get_asn1 (outer_tag OR CBS_ASN1_CONSTRUCTED) cbs of
               (None, cbs') \<Rightarrow> (None, cbs')
             | (Some child, cbs') \<Rightarrow>
                 (case implicit_string_loop inner_tag child result of
                    (False, _) \<Rightarrow> (None, cbs')
                  | (True, result') \<Rightarrow>
                      (case CBB_finish True 0 result' of
                         (None, _) \<Rightarrow> (None, cbs')
                       | (Some data, _) \<Rightarrow> (Some (data, Some data), cbs'))))))"

subsection \<open>The fuel is enough\<close>

lemma convert_fuel_step:
  "length cbs < f \<Longrightarrow> length cbs < g \<Longrightarrow>
   cbs_convert_ber f cbs out st eoc depth s = cbs_convert_ber g cbs out st eoc depth s \<and>
   length (fst (snd (cbs_convert_ber f cbs out st eoc depth s))) \<le> length cbs"
proof (induction f arbitrary: g cbs out st eoc depth s)
  case 0
  then show ?case by simp
next
  case (Suc f)
  from Suc.prems(2) obtain g' where g: "g = Suc g'" by (cases g) auto
  show ?case
  proof (cases "depth > kMaxDepth \<or> CBS_len cbs = 0")
    case True
    then show ?thesis by (auto simp: g)
  next
    case False
    then have nd: "\<not> depth > kMaxDepth" "CBS_len cbs \<noteq> 0" by auto
    show ?thesis
    proof (cases "CBS_get_any_ber_asn1_element cbs")
      case (Pair el cbs1)
      show ?thesis
      proof (cases el)
        case None
        have "length cbs1 \<le> length cbs"
          using Pair None by (auto simp: CBS_get_any_ber_asn1_element_def any_asn1_element_eq Let_def
              split: prod.splits option.splits if_splits)
        with nd Pair None show ?thesis by (simp add: g)
      next
        case (Some p)
        obtain contents tag hl where p: "p = (contents, tag, hl)" by (cases p)
        note sh = any_ber_shrinks [OF Pair [unfolded Some p]]
        show ?thesis
        proof (cases "is_eoc hl contents")
          case True
          with nd Pair Some p sh(1) show ?thesis by (simp add: g)
        next
          case not_eoc: False
          show ?thesis
          proof (cases "convert_ber_open st tag out s")
            case op: (Pair o_out s1)
            show ?thesis
            proof (cases o_out)
              case None
              with nd Pair Some p not_eoc op sh(1) show ?thesis by (simp add: g)
            next
              case oc: (Some q)
              obtain oc cst where q: "q = (oc, cst)" by (cases q)
              obtain body where body: "body = (\<lambda>fu. if is_indefinite hl contents
                   then cbs_convert_ber fu cbs1 oc cst True (depth + 1) s1
                   else (case CBS_skip hl contents of
                        (False, _) \<Rightarrow> (False, cbs1, s1)
                      | (True, contents') \<Rightarrow>
                          if tag AND CBS_ASN1_CONSTRUCTED \<noteq> 0
                          then (case cbs_convert_ber fu contents' oc cst False (depth + 1) s1 of
                              (ok, _, s2) \<Rightarrow> (ok, cbs1, s2))
                          else (case CBB_add_bytes contents' oc s1 of (ok, s2) \<Rightarrow> (ok, cbs1, s2))))" by blast
              have l1: "length cbs1 < f" "length cbs1 < g'" using Suc.prems sh(1) g by simp_all
              have l2: "length (drop hl contents) < f" "length (drop hl contents) < g'" using Suc.prems sh(3) g by simp_all
              have bb: "body f = body g' \<and> length (fst (snd (body f))) \<le> length cbs1"
                using Suc.IH [OF l1, of oc cst True "depth + 1" s1] Suc.IH [OF l2, of oc cst False "depth + 1" s1] sh(2)
                by (auto simp: body CBS_skip_eq split: prod.splits)
              obtain ok cbs2 s2 where b2: "body f = (ok, cbs2, s2)" by (rule prod_cases3)
              with bb have b2': "body g' = (ok, cbs2, s2)" and l3: "length cbs2 \<le> length cbs1" by simp_all
              have unf: "cbs_convert_ber (Suc h) cbs out st eoc depth s = (case body h of
                    (False, cbs2, s2) \<Rightarrow> (False, cbs2, s2)
                  | (True, cbs2, s2) \<Rightarrow>
                      (case CBB_flush out s2 of
                         (False, s3) \<Rightarrow> (False, cbs2, s3)
                       | (True, s3) \<Rightarrow> cbs_convert_ber h cbs2 out st eoc depth s3))" for h
                using nd not_eoc unfolding body cbs_convert_ber.simps Pair Some p op oc q prod.case option.case by simp
              have l4: "length cbs2 < f" "length cbs2 < g'" using l1 l3 by simp_all
              obtain fl s3 where fl: "CBB_flush out s2 = (fl, s3)" by (cases "CBB_flush out s2")
              note ih = Suc.IH [OF l4, of out st eoc depth s3]
              have "length (fst (snd (cbs_convert_ber f cbs2 out st eoc depth s3))) \<le> length cbs"
                using conjunct2 [OF ih] l3 sh(1) by linarith
              with conjunct1 [OF ih] l3 sh(1) show ?thesis
                unfolding g unf b2 b2' prod.case fl by (cases ok; cases fl) simp_all
            qed
          qed
        qed
      qed
    qed
  qed
qed

subsection \<open>The output is DER\<close>

text \<open>
  The universal tag numbers of the string types: bit string, octet string, UTF8String, NumericString,
  PrintableString, T61String, VideotexString, IA5String, GraphicString, VisibleString, GeneralString,
  UniversalString and BMPString.
\<close>

definition universal_string :: "32 word \<Rightarrow> bool" where
  "universal_string tag \<longleftrightarrow> unat (tag AND NOT CBS_ASN1_CONSTRUCTED) \<in> {3, 4, 12, 18, 19, 20, 21, 22, 25, 26, 27, 28, 30}"

lemma is_string_type_iff: "is_string_type tag \<longleftrightarrow> universal_string tag"
proof -
  have n: "unat w = n \<longleftrightarrow> w = of_nat n" if "n < 2 ^ 32" for n and w :: "32 word"
    using that by (auto simp: unat_of_nat_lt)
  show ?thesis unfolding is_string_type_def universal_string_def Let_def by (simp add: n)
qed

text \<open>
  A row of definite-length elements with canonical headers: the contents of a constructed element
  are again such a row, and no string is constructed.
\<close>

inductive der_items :: "byte list \<Rightarrow> bool" where
  Nil: "der_items []"
| Element: "length c \<le> 0xfffffffe \<Longrightarrow>
    (tag AND CBS_ASN1_CONSTRUCTED \<noteq> 0 \<longrightarrow> \<not> universal_string tag \<and> der_items c) \<Longrightarrow>
    der_items r \<Longrightarrow> der_items (der_element tag c @ r)"

lemma der_items_append: "der_items a \<Longrightarrow> der_items b \<Longrightarrow> der_items (a @ b)"
  by (induction rule: der_items.induct) (auto intro: der_items.intros)

lemma der_items_element:
  "length c \<le> 0xfffffffe \<Longrightarrow> (tag AND CBS_ASN1_CONSTRUCTED \<noteq> 0 \<longrightarrow> \<not> universal_string tag \<and> der_items c) \<Longrightarrow>
   der_items (der_element tag c)"
  using der_items.Element [of c tag "[]"] der_items.Nil by simp

inductive_cases der_items_Cons: "der_items (b # s)"

lemma der_items_read:
  assumes "der_items s" and "s \<noteq> []"
  shows "\<exists>c tag r. CBS_get_any_asn1 s = (Some (c, tag), r) \<and> der_items r
    \<and> (tag AND CBS_ASN1_CONSTRUCTED \<noteq> 0 \<longrightarrow> \<not> universal_string tag \<and> der_items c)"
  using assms
proof cases
  case Nil
  with assms(2) show ?thesis by simp
next
  case (Element c tag r)
  moreover from this have "CBS_get_any_asn1 s = (Some (c, tag), r)" by (simp add: CBS_get_any_asn1_iff)
  ultimately show ?thesis by blast
qed

text \<open>\<open>innermost d s b\<close>: the CBB at depth \<open>d\<close> has no open child. \<open>added\<close>: only its contents grew.\<close>

definition innermost :: "nat \<Rightarrow> CBB \<Rightarrow> cbb_buffer \<Rightarrow> bool" where
  "innermost d s b \<longleftrightarrow> writer_state d s b \<and> length (children s) = d"

definition added :: "CBB \<Rightarrow> cbb_buffer \<Rightarrow> byte list \<Rightarrow> CBB \<Rightarrow> bool" where
  "added s b bs s' \<longleftrightarrow> (\<exists>b'. s' = s\<lparr>base := Some b'\<rparr> \<and> holds b (buffer_contents b @ bs) b')"

lemma innermost_flushed: "innermost d s b \<Longrightarrow> flushed d s b = Some (buffer_contents b)"
  by (simp add: innermost_def flushed_def)

lemma innermost_after_write: "innermost d s b \<Longrightarrow> after_write d s b' = s\<lparr>base := Some b'\<rparr>"
  by (cases s) (simp add: innermost_def after_write_def)

lemma innermost_flush: "innermost d s b \<Longrightarrow> CBB_flush d s = (True, s') \<Longrightarrow> s' = s"
  by (cases s) (auto simp: innermost_def writer_state_def CBB_flush_def)

lemma innermost_added: "innermost d s b \<Longrightarrow> holds b (buffer_contents b @ bs) b' \<Longrightarrow> innermost d (s\<lparr>base := Some b'\<rparr>) b'"
proof -
  assume st: "innermost d s b" and h: "holds b (buffer_contents b @ bs) b'"
  have "CBB_start d s \<le> length (buffer_contents b)"
    using st by (intro writer_state_start) (simp add: innermost_def)
  then have "CBB_start d s \<le> length (buffer_contents b @ bs)" by simp
  then have "writer_state d (after_write d s b') b'"
    using st by (intro writer_state_after_write(1) [OF _ h]) (simp_all add: innermost_def)
  then show ?thesis using st by (simp add: innermost_after_write) (simp add: innermost_def)
qed

lemma added_refl: "innermost d s b \<Longrightarrow> added s b [] s"
  by (cases s) (auto simp: added_def innermost_def writer_state_def holds_self)

lemma added_trans:
  assumes "added s b xs s1" and "base s1 = Some b1" and "added s1 b1 ys s2"
  shows "added s b (xs @ ys) s2"
proof -
  obtain b1' where 1: "s1 = s\<lparr>base := Some b1'\<rparr>" "holds b (buffer_contents b @ xs) b1'"
    using assms(1) by (auto simp: added_def)
  with assms(2) have b1: "b1 = b1'" by simp
  obtain b2 where 2: "s2 = s1\<lparr>base := Some b2\<rparr>" "holds b1 (buffer_contents b1 @ ys) b2"
    using assms(3) by (auto simp: added_def)
  have "buffer_contents b1 = buffer_contents b @ xs" using 1(2) by (simp add: b1 holds_def)
  then have "holds b (buffer_contents b @ xs @ ys) b2"
    using holds_trans [OF 1(2) 2(2) [unfolded b1]] by (simp add: b1)
  then show ?thesis using 1(1) 2(1) by (auto simp: added_def)
qed

lemma added_writes:
  assumes "writes d op bs" and "op s = (True, s')" and "innermost d s b"
  shows "added s b bs s'"
proof -
  have "writer_state d s b" using assms(3) by (simp add: innermost_def)
  with assms(1,2) obtain cs b' where "flushed d s b = Some cs" "s' = after_write d s b'" "holds b (cs @ bs) b'"
    by (rule writes_ok)
  then show ?thesis
    using innermost_flushed [OF assms(3)] innermost_after_write [OF assms(3)] by (auto simp: added_def)
qed

text \<open>One element: opened, filled by \<open>body\<close> in the child, flushed.\<close>

lemma innermost_child:
  assumes st: "innermost d s b" and op: "CBB_add_asn1 tag d s = (True, s1)"
  shows "\<exists>b1. innermost (d + 1) s1 b1"
proof -
  have ws: "writer_state d s b" and d: "length (children s) = d" using st by (simp_all add: innermost_def)
  obtain cs b1 where 1: "flushed d s b = Some cs" "holds b (cs @ der_tag tag @ replicate 1 0) b1"
    "s1 = after_write d s b1\<lparr>children := take d (children s) @ [child_frame (length cs + length (der_tag tag)) 1 True]\<rparr>"
    using opens_CBB_add_asn1 op ws by (rule opens_ok)
  have "length (children s1) = d + 1" using d by (simp add: 1(3) after_write_def)
  then show ?thesis using writer_state_child(1) [OF ws 1(2,1) _ _ _ 1(3)] by (auto simp: innermost_def)
qed

lemma innermost_unique: "innermost d s b \<Longrightarrow> innermost d s b' \<Longrightarrow> b = b'"
  by (simp add: innermost_def writer_state_def)

lemma added_element:
  assumes st: "innermost d s b" and op: "CBB_add_asn1 tag d s = (True, s1)" and in1: "innermost (d + 1) s1 bc"
    and body: "added s1 bc body s2" and fl: "CBB_flush d s2 = (True, s3)"
  shows "added s b (der_element tag body) s3" and "length body \<le> 0xfffffffe"
proof -
  have ws: "writer_state d s b" and d: "length (children s) = d" using st by (simp_all add: innermost_def)
  obtain cs b1 where 1: "flushed d s b = Some cs" "holds b (cs @ der_tag tag @ replicate 1 0) b1"
    "s1 = after_write d s b1\<lparr>children := take d (children s) @ [child_frame (length cs + length (der_tag tag)) 1 True]\<rparr>"
    using opens_CBB_add_asn1 op ws by (rule opens_ok)
  have cs: "cs = buffer_contents b" using 1(1) innermost_flushed [OF st] by simp
  note c = writer_state_child [OF ws 1(2,1) _ _ _ 1(3), simplified]
  have b1: "base s1 = Some b1" "length (children s1) = d + 1" using d by (simp_all add: 1(3) after_write_def)
  have "innermost (d + 1) s1 b1" using c(1) b1 by (simp add: innermost_def)
  with in1 have "bc = b1" by (rule innermost_unique)
  with body obtain b2 where 2: "s2 = s1\<lparr>base := Some b2\<rparr>" "holds b1 (buffer_contents b1 @ body) b2"
    by (auto simp: added_def)
  have aw: "s2 = after_write (d + 1) s1 b2" using b1(2) by (cases s1) (simp add: 2(1) after_write_def)
  have h2: "holds b (cs @ der_tag tag @ replicate 1 0 @ body) b2"
    using holds_trans [OF 1(2) 2(2)] 1(2) by (simp add: holds_def)
  have ws2: "writer_state d s2 b2" and fl2: "flushed d s2 b2 = map_option (\<lambda>w. cs @ der_tag tag @ w) (wrap (child_frame 0 1 True) body)"
    using writer_state_child(4,5) [OF ws 1(2,1) _ _ _ 1(3) h2] by (simp_all add: aw)
  obtain cs3 b3 where 3: "flushed d s2 b2 = Some cs3" "s3 = after_write d s2 b3" "holds b2 (cs3 @ []) b3"
    using writes_flush fl ws2 by (rule writes_ok)
  have w: "wrap (child_frame 0 1 True) body \<noteq> None"
  proof
    assume "wrap (child_frame 0 1 True) body = None"
    with fl2 3(1) show False by (simp only: option.map option.distinct)
  qed
  then show len: "length body \<le> 0xfffffffe" by (simp add: wrap_def child_frame_def split: if_splits)
  have cs3: "cs3 = buffer_contents b @ der_element tag body"
    using fl2 3(1) len wrap_asn1 [of body] by (simp add: cs der_element_def der_header_def)
  have "s3 = s\<lparr>base := Some b3\<rparr>"
    using d by (cases s) (simp add: 3(2) aw 1(3) after_write_def)
  then show "added s b (der_element tag body) s3"
    using holds_trans [OF h2 3(3)] by (auto simp: added_def cs3)
qed

lemma innermost_base: "innermost d s b \<Longrightarrow> added s b bs s' \<Longrightarrow> \<exists>b'. base s' = Some b' \<and> innermost d s' b'"
  using innermost_added by (fastforce simp: added_def)

lemma string_tag_nonzero: "is_string_type tag \<Longrightarrow> tag AND NOT CBS_ASN1_CONSTRUCTED \<noteq> 0"
  by (auto simp: is_string_type_def Let_def)

lemma string_tag_primitive: "(tag AND NOT CBS_ASN1_CONSTRUCTED) AND CBS_ASN1_CONSTRUCTED = 0"
  by (simp add: and.assoc)

lemma convert_ber_added:
  "cbs_convert_ber fuel cbs d st eoc depth s = (True, cbs', s') \<Longrightarrow> innermost d s b \<Longrightarrow>
   length cbs < fuel \<Longrightarrow> length cbs < 2 ^ 64 \<Longrightarrow>
   \<exists>bs. added s b bs s' \<and> (st = 0 \<longrightarrow> der_items bs)"
proof (induction fuel arbitrary: cbs d st eoc depth s cbs' s' b)
  case 0
  then show ?case by simp
next
  case (Suc fuel)
  show ?case
  proof (cases "CBS_len cbs = 0")
    case True
    with Suc.prems have "s' = s" by (auto split: if_splits)
    then show ?thesis using added_refl [OF Suc.prems(2)] der_items.Nil by blast
  next
    case False
    with Suc.prems(1) obtain contents tag hl cbs1 where
      el: "CBS_get_any_ber_asn1_element cbs = (Some (contents, tag, hl), cbs1)"
      by (auto split: if_splits prod.splits option.splits)
    show ?thesis
    proof (cases "is_eoc hl contents")
      case True
      with Suc.prems False el have "s' = s" by (auto split: if_splits)
      then show ?thesis using added_refl [OF Suc.prems(2)] der_items.Nil by blast
    next
      case not_eoc: False
      from Suc.prems(1) False el not_eoc obtain oc cst s1 where
        op: "convert_ber_open st tag d s = (Some (oc, cst), s1)"
        by (auto split: if_splits prod.splits option.splits)
      from Suc.prems(1) False el not_eoc op obtain cbs2 s2 s3 where
        body: "(if is_indefinite hl contents then cbs_convert_ber fuel cbs1 oc cst True (depth + 1) s1
            else (case CBS_skip hl contents of
              (False, _) \<Rightarrow> (False, cbs1, s1)
            | (True, contents') \<Rightarrow>
                if tag AND CBS_ASN1_CONSTRUCTED \<noteq> 0
                then (case cbs_convert_ber fuel contents' oc cst False (depth + 1) s1 of (ok, _, s2) \<Rightarrow> (ok, cbs1, s2))
                else (case CBB_add_bytes contents' oc s1 of (ok, s2) \<Rightarrow> (ok, cbs1, s2)))) = (True, cbs2, s2)"
        and fl: "CBB_flush d s2 = (True, s3)" and rest: "cbs_convert_ber fuel cbs2 d st eoc depth s3 = (True, cbs', s')"
        unfolding cbs_convert_ber.simps el prod.case option.case op
        by (auto split: if_splits prod.splits bool.splits)
      note sh = any_ber_shrinks [OF el]
      have f1: "length cbs1 < fuel" "length cbs1 < 2 ^ 64" using sh(1) Suc.prems(3,4) by simp_all
      have f2: "length contents' < fuel \<and> length contents' < 2 ^ 64" if "CBS_skip hl contents = (True, contents')" for contents'
        using that sh(2,3) Suc.prems(3,4) by (auto simp: CBS_skip_eq split: if_splits)
      have le2: "length cbs2 \<le> length cbs1"
        using body convert_fuel_step [OF f1(1) f1(1), of oc cst True "depth + 1" s1]
        by (auto split: if_splits prod.splits bool.splits)
      have inner: "\<exists>bs. added s1 b1 bs s2 \<and> (cst = 0 \<and> tag AND CBS_ASN1_CONSTRUCTED \<noteq> 0 \<longrightarrow> der_items bs)"
        if b1: "innermost oc s1 b1" for b1
      proof (cases "is_indefinite hl contents")
        case True
        with body have "cbs_convert_ber fuel cbs1 oc cst True (depth + 1) s1 = (True, cbs2, s2)" by simp
        then show ?thesis using Suc.IH [OF _ b1 f1] by blast
      next
        case False
        with body obtain contents' where sk: "CBS_skip hl contents = (True, contents')"
          by (auto split: prod.splits bool.splits)
        show ?thesis
        proof (cases "tag AND CBS_ASN1_CONSTRUCTED = 0")
          case True
          with body False sk have "CBB_add_bytes contents' oc s1 = (True, s2)"
            by (auto split: prod.splits)
          moreover have "length contents' < 2 ^ 64" using f2 [OF sk] by simp
          ultimately show ?thesis using added_writes [OF writes_CBB_add_bytes _ b1] True by blast
        next
          case cons: False
          with body False sk obtain u where "cbs_convert_ber fuel contents' oc cst False (depth + 1) s1 = (True, u, s2)"
            by (auto split: prod.splits)
          then show ?thesis using Suc.IH [OF _ b1] f2 [OF sk] by blast
        qed
      qed
      have step: "\<exists>bs. added s b bs s3 \<and> (st = 0 \<longrightarrow> der_items bs)"
      proof (cases "st = 0")
        case False
        with op have "oc = d" "s1 = s" by (auto simp: convert_ber_open_def split: if_splits)
        with inner [of b] Suc.prems(2) obtain bs where a: "added s b bs s2" by blast
        then obtain b2 where "innermost d s2 b2" using innermost_base [OF Suc.prems(2)] by blast
        then have "s3 = s2" using fl by (rule innermost_flush)
        with a False show ?thesis by blast
      next
        case True
        let ?str = "tag AND CBS_ASN1_CONSTRUCTED \<noteq> 0 \<and> is_string_type tag"
        let ?ot = "if ?str then tag AND NOT CBS_ASN1_CONSTRUCTED else tag"
        from op True have add: "CBB_add_asn1 ?ot d s = (True, s1)" and oc: "oc = d + 1"
          and cst: "cst = (if ?str then ?ot else 0)"
          by (auto simp: convert_ber_open_def Let_def split: if_splits prod.splits bool.splits)
        obtain b1 where b1: "innermost (d + 1) s1 b1" using innermost_child [OF Suc.prems(2) add] by blast
        then obtain bs where bs: "added s1 b1 bs s2" "cst = 0 \<and> tag AND CBS_ASN1_CONSTRUCTED \<noteq> 0 \<longrightarrow> der_items bs"
          using inner oc by blast
        note e = added_element [OF Suc.prems(2) add b1 bs(1) fl]
        have "der_items (der_element ?ot bs)"
          using e(2) bs(2) cst by (intro der_items_element) (auto simp: string_tag_primitive simp flip: is_string_type_iff)
        with e(1) show ?thesis by blast
      qed
      then obtain bs where bs: "added s b bs s3" "st = 0 \<longrightarrow> der_items bs" by blast
      obtain b3 where b3: "base s3 = Some b3" "innermost d s3 b3" using innermost_base [OF Suc.prems(2) bs(1)] by blast
      obtain bs' where bs': "added s3 b3 bs' s'" "st = 0 \<longrightarrow> der_items bs'" using Suc.IH [OF rest b3(2)] le2 f1 by auto
      have "added s b (bs @ bs') s'" using bs(1) b3(1) bs'(1) by (rule added_trans)
      with bs(2) bs'(2) show ?thesis by (blast intro: der_items_append)
    qed
  qed
qed

lemma convert_from_start:
  assumes "CBB_init malloc cap = (True, s)" and "cap < 2 ^ 64" and "cbs_convert_ber fuel cbs 0 0 eoc depth s = (True, cbs', s')"
    and "length cbs < fuel" and "length cbs < 2 ^ 64"
  obtains bs where "der_items bs" and "fst (CBB_finish True 0 s') = Some bs"
proof -
  obtain b where b: "writer_state 0 s b" "flushed 0 s b = Some []" "\<not> base_error b"
    using assms(1,2) by (rule CBB_init_state)
  have ch: "children s = []"
    using assms(1) by (auto simp: CBB_init_def cbb_init_def Let_def split: if_splits option.splits)
  then have inn: "innermost 0 s b" using b(1) by (simp add: innermost_def)
  obtain bs where bs: "added s b bs s'" "der_items bs"
    using convert_ber_added [OF assms(3) inn assms(4,5)] by auto
  obtain b' where b': "s' = s\<lparr>base := Some b'\<rparr>" "holds b bs b'"
    using bs(1) b(2) innermost_flushed [OF inn] by (auto simp: added_def)
  have i': "innermost 0 s' b'" using innermost_added [OF inn, of bs b'] b' b(2) innermost_flushed [OF inn] by simp
  have "fst (CBB_finish True 0 s') = Some bs"
  proof (rule CBB_finish_eq)
    show "writer_state 0 s' b'" using i' by (simp add: innermost_def)
    show "flushed 0 s' b' = Some bs" using innermost_flushed [OF i'] b'(2) by (simp add: holds_def)
    show "\<not> base_error b'" using b(3) b'(2) by (simp add: holds_def)
    show "can_hold b' (length bs)" using b'(2) holds_len [OF b'(2)] by (simp add: can_hold_def holds_def wf_buffer_def)
  qed
  with bs(2) show thesis by (rule that)
qed

lemma ber_to_der_converted:
  assumes "CBS_asn1_ber_to_der malloc s = (Some (out, Some st), r)" and "length s < 2 ^ 64"
  shows "der_items out"
proof -
  from assms(1) obtain cbb cbb' w where i: "CBB_init malloc (length s) = (True, cbb)"
    and c: "cbs_convert_ber (length s + 1) s 0 0 False 0 cbb = (True, r, cbb')"
    and f: "CBB_finish True 0 cbb' = (Some out, w)"
    by (auto simp: CBS_asn1_ber_to_der_def CBS_len_def split: option.splits bool.splits prod.splits)
  obtain bs where "der_items bs" "fst (CBB_finish True 0 cbb') = Some bs"
    using i assms(2) c by (rule convert_from_start) (use assms(2) in simp_all)
  with f show ?thesis by simp
qed

text \<open>
  The detector forgets what it found: the recursion into a later constructed sibling resets
  \<open>*ber_found\<close>, so the indefinite length in the first sibling of this input goes unseen.
\<close>

lemma ber_missed_inner:
  "cbs_find_ber [0x30, 4, 0x30, 0x80, 0, 0] 0 = Some True" "cbs_find_ber [0x30, 4, 0x30, 0x80, 0, 0, 0x30, 0] 0 = Some False"
  "cbs_find_ber [0x30, 8, 0x30, 4, 0x30, 0x80, 0, 0, 0x30, 0] 0 = Some False"
  by code_simp+

lemma ber_missed_input: "CBS_asn1_ber_to_der malloc [0x30, 8, 0x30, 4, 0x30, 0x80, 0, 0, 0x30, 0]
  = (Some ([0x30, 8, 0x30, 4, 0x30, 0x80, 0, 0, 0x30, 0], None), [])"
  using ber_missed_inner(3) by (simp add: CBS_asn1_ber_to_der_def) code_simp

end
