(* ===== verification/Constant_Time.thy ===== *)
theory Constant_Time
  imports Bytes_Prelude
begin

text \<open>
  The constant-time primitives of \<open>crypto/internal.h\<close>: branch-free comparisons that return a
  mask of ones or zeros, and the selections by such a mask. \<open>crypto_word_t\<close> is 64 bits wide;
  \<open>value_barrier_w\<close> is the identity. Each is shown equal to the branching version for all
  inputs.
\<close>

definition value_barrier_w :: "64 word \<Rightarrow> 64 word" where
  "value_barrier_w a = a"

definition constant_time_msb_w :: "64 word \<Rightarrow> 64 word" where
  "constant_time_msb_w a = 0 - drop_bit (8 * 8 - 1) a"

definition constant_time_lt_w :: "64 word \<Rightarrow> 64 word \<Rightarrow> 64 word" where
  "constant_time_lt_w a b = constant_time_msb_w (a XOR ((a XOR b) OR ((a - b) XOR a)))"

definition constant_time_lt_8 :: "64 word \<Rightarrow> 64 word \<Rightarrow> byte" where
  "constant_time_lt_8 a b = ucast (constant_time_lt_w a b)"

definition constant_time_ge_w :: "64 word \<Rightarrow> 64 word \<Rightarrow> 64 word" where
  "constant_time_ge_w a b = NOT (constant_time_lt_w a b)"

definition constant_time_ge_8 :: "64 word \<Rightarrow> 64 word \<Rightarrow> byte" where
  "constant_time_ge_8 a b = ucast (constant_time_ge_w a b)"

definition constant_time_is_zero_w :: "64 word \<Rightarrow> 64 word" where
  "constant_time_is_zero_w a = constant_time_msb_w (NOT a AND (a - 1))"

definition constant_time_is_zero_8 :: "64 word \<Rightarrow> byte" where
  "constant_time_is_zero_8 a = ucast (constant_time_is_zero_w a)"

definition constant_time_eq_w :: "64 word \<Rightarrow> 64 word \<Rightarrow> 64 word" where
  "constant_time_eq_w a b = constant_time_is_zero_w (a XOR b)"

definition constant_time_eq_8 :: "64 word \<Rightarrow> 64 word \<Rightarrow> byte" where
  "constant_time_eq_8 a b = ucast (constant_time_eq_w a b)"

text \<open>\<open>int\<close> arguments are sign-extended.\<close>

definition constant_time_eq_int :: "32 word \<Rightarrow> 32 word \<Rightarrow> 64 word" where
  "constant_time_eq_int a b = constant_time_eq_w (scast a) (scast b)"

definition constant_time_eq_int_8 :: "32 word \<Rightarrow> 32 word \<Rightarrow> byte" where
  "constant_time_eq_int_8 a b = constant_time_eq_8 (scast a) (scast b)"

definition constant_time_select_w :: "64 word \<Rightarrow> 64 word \<Rightarrow> 64 word \<Rightarrow> 64 word" where
  "constant_time_select_w m a b = (value_barrier_w m AND a) OR (value_barrier_w (NOT m) AND b)"

definition constant_time_select_8 :: "byte \<Rightarrow> byte \<Rightarrow> byte \<Rightarrow> byte" where
  "constant_time_select_8 m a b = ucast (constant_time_select_w (ucast m) (ucast a) (ucast b))"

definition constant_time_select_int :: "64 word \<Rightarrow> 32 word \<Rightarrow> 32 word \<Rightarrow> 32 word" where
  "constant_time_select_int m a b = ucast (constant_time_select_w m (scast a) (scast b))"

subsection \<open>The masks\<close>

definition mask_of :: "bool \<Rightarrow> 'a :: len word" where
  "mask_of p = (if p then - 1 else 0)"

lemma bit63_iff: "bit (a :: 64 word) 63 \<longleftrightarrow> 2 ^ 63 \<le> unat a"
proof -
  have a: "unat a < 2 * 2 ^ 63" using unsigned_less [of a, where ?'a = nat] by simp
  obtain p :: nat where p: "p = 2 ^ 63" "0 < p" by simp
  have "odd (unat a div p) \<longleftrightarrow> p \<le> unat a"
  proof (cases "p \<le> unat a")
    case True
    then have "unat a div p = 1" using a p by (intro div_nat_eqI) simp_all
    with True show ?thesis by simp
  qed simp
  then show ?thesis by (simp add: bit_unat_iff p)
qed

lemma constant_time_msb_w_eq: "constant_time_msb_w a = mask_of (bit a 63)"
proof -
  have "unat a div 2 ^ 63 < 2"
    using unsigned_less [of a, where ?'a = nat] by (simp add: div_less_iff_less_mult)
  then consider "unat (drop_bit 63 a) = 0" | "unat (drop_bit 63 a) = 1"
    by (auto simp: unat_drop_bit less_2_cases_iff)
  then show ?thesis
  proof cases
    case 1
    then have "unat a div 2 ^ 63 = 0" by (simp only: unat_drop_bit)
    then have "\<not> bit a 63" by (simp add: bit_unat_iff)
    moreover have "drop_bit 63 a = 0" using 1 by (simp only: unat_eq_0)
    ultimately show ?thesis by (simp add: constant_time_msb_w_def mask_of_def)
  next
    case 2
    then have "unat a div 2 ^ 63 = 1" by (simp only: unat_drop_bit)
    then have "bit a 63" by (simp add: bit_unat_iff)
    moreover have "drop_bit 63 a = 1" using 2 by (simp add: word_unat_eq_iff)
    ultimately show ?thesis by (simp add: constant_time_msb_w_def mask_of_def)
  qed
qed

lemma bit63_minus:
  assumes "bit a 63 = bit (b :: 64 word) 63"
  shows "bit (a - b) 63 \<longleftrightarrow> a < b"
proof (cases "a < b")
  case True
  have l: "unat a < unat b" "unat b < 2 ^ 64" using True unsigned_less [of b, where ?'a = nat] by (simp_all add: word_less_nat_alt)
  have "unat (a - b) = 2 ^ 64 - (unat b - unat a)"
    using True by (subst unat_sub_if') (simp add: word_le_nat_alt word_less_nat_alt)
  moreover have "unat b - unat a \<le> 2 ^ 63"
    using assms l by (auto simp: bit63_iff not_le)
  ultimately show ?thesis using True l by (simp add: bit63_iff)
next
  case False
  then have "unat (a - b) = unat a - unat b" by (intro unat_sub) (simp add: not_less)
  moreover have "unat a - unat b < 2 ^ 63"
    using assms unsigned_less [of a, where ?'a = nat] by (auto simp: bit63_iff not_le)
  ultimately show ?thesis using False by (simp add: bit63_iff)
qed

lemma constant_time_lt_w_eq: "constant_time_lt_w a b = mask_of (a < b)"
proof -
  have "bit (a XOR ((a XOR b) OR ((a - b) XOR a))) 63 \<longleftrightarrow> a < b"
  proof (cases "bit a 63 = bit b 63")
    case True
    then show ?thesis using bit63_minus [OF True] by (auto simp: bit_simps)
  next
    case False
    then show ?thesis by (auto simp: bit_simps) (auto simp: bit63_iff word_less_nat_alt)
  qed
  then show ?thesis by (simp add: constant_time_lt_w_def constant_time_msb_w_eq)
qed

lemma constant_time_is_zero_w_eq: "constant_time_is_zero_w a = mask_of (a = 0)"
proof -
  have "bit (NOT a AND (a - 1)) 63 \<longleftrightarrow> a = 0"
  proof (cases "a = 0")
    case False
    then have "unat (a - 1) = unat a - 1" by (intro unat_minus_one) simp
    then have "bit (a - 1) 63 \<Longrightarrow> bit a 63" by (simp add: bit63_iff)
    then show ?thesis using False by (auto simp: bit_simps)
  qed (simp add: bit_simps)
  then show ?thesis by (simp add: constant_time_is_zero_w_def constant_time_msb_w_eq)
qed

lemma constant_time_eq_w_eq: "constant_time_eq_w a b = mask_of (a = b)"
  by (simp add: constant_time_eq_w_def constant_time_is_zero_w_eq xor_eq_zero_iff)

lemma constant_time_ge_w_eq: "constant_time_ge_w a b = mask_of (b \<le> a)"
  by (simp add: constant_time_ge_w_def constant_time_lt_w_eq mask_of_def linorder_not_less [symmetric])

lemma ucast_mask_of: "LENGTH('b) \<le> LENGTH('a) \<Longrightarrow> (ucast (mask_of p :: 'a :: len word) :: 'b :: len word) = mask_of p"
  by (auto simp: mask_of_def intro!: bit_word_eqI simp: bit_simps)

lemma constant_time_8_eq:
  "constant_time_lt_8 a b = mask_of (a < b)" "constant_time_ge_8 a b = mask_of (b \<le> a)"
  "constant_time_is_zero_8 a = mask_of (a = 0)" "constant_time_eq_8 a b = mask_of (a = b)"
  by (simp_all add: constant_time_lt_8_def constant_time_ge_8_def constant_time_is_zero_8_def constant_time_eq_8_def
      constant_time_lt_w_eq constant_time_ge_w_eq constant_time_is_zero_w_eq constant_time_eq_w_eq ucast_mask_of)

lemma constant_time_select_w_eq: "constant_time_select_w (mask_of p) a b = (if p then a else b)"
  by (simp add: constant_time_select_w_def value_barrier_w_def mask_of_def)

lemma constant_time_select_8_eq: "constant_time_select_8 (mask_of p) a b = (if p then a else b)"
proof (cases p)
  case True
  have "ucast (ucast (- 1 :: byte) AND ucast a OR NOT (ucast (- 1 :: byte)) AND ucast b :: 64 word) = a"
    by (rule bit_word_eqI) (auto simp: bit_simps dest: bit_imp_le_length)
  with True show ?thesis by (simp add: constant_time_select_8_def constant_time_select_w_def value_barrier_w_def mask_of_def)
next
  case False
  have "ucast (ucast b :: 64 word) = b" by (rule bit_word_eqI) (auto simp: bit_simps dest: bit_imp_le_length)
  with False show ?thesis by (simp add: constant_time_select_8_def constant_time_select_w_def value_barrier_w_def mask_of_def)
qed

lemma constant_time_int_eq:
  "constant_time_eq_int a b = mask_of (a = b)" "constant_time_eq_int_8 a b = mask_of (a = b)"
  "constant_time_select_int (mask_of p) a b = (if p then a else b)"
proof -
  have inj: "(scast a :: 64 word) = scast b \<longleftrightarrow> a = b" for a b :: "32 word"
  proof -
    have "(ucast (scast x :: 64 word) :: 32 word) = x" for x :: "32 word"
      by (rule bit_word_eqI) (auto simp: bit_simps)
    then show ?thesis by metis
  qed
  show "constant_time_eq_int a b = mask_of (a = b)" "constant_time_eq_int_8 a b = mask_of (a = b)"
    by (simp_all add: constant_time_eq_int_def constant_time_eq_int_8_def constant_time_eq_w_eq constant_time_8_eq inj)
  show "constant_time_select_int (mask_of p) a b = (if p then a else b)"
  proof -
    have "(ucast (scast x :: 64 word) :: 32 word) = x" for x :: "32 word"
      by (rule bit_word_eqI) (auto simp: bit_simps)
    then show ?thesis by (simp add: constant_time_select_int_def constant_time_select_w_eq)
  qed
qed

end
