(* ===== verification/Base64.thy ===== *)
theory Base64
  imports Constant_Time
begin

record EVP_ENCODE_CTX =
  data_used :: nat
  data :: "byte list"
  eof_seen :: bool
  error_encountered :: bool

definition constant_time_lt_args_8 :: "byte \<Rightarrow> byte \<Rightarrow> byte" where
  "constant_time_lt_args_8 a b = ucast (constant_time_msb_w (ucast a - ucast b))"

definition constant_time_in_range_8 :: "byte \<Rightarrow> byte \<Rightarrow> byte \<Rightarrow> byte" where
  "constant_time_in_range_8 a lo hi = constant_time_lt_args_8 (a - lo) (hi - lo + 1)"

definition conv_bin2ascii :: "byte \<Rightarrow> byte" where
  "conv_bin2ascii a0 = (let a = a0 AND 0x3f;
     ret = constant_time_select_8 (constant_time_eq_8 (ucast a) 62) 0x2b 0x2f;
     ret = constant_time_select_8 (constant_time_lt_args_8 a 62) (a - 52 + 0x30) ret;
     ret = constant_time_select_8 (constant_time_lt_args_8 a 52) (a - 26 + 0x61) ret;
     ret = constant_time_select_8 (constant_time_lt_args_8 a 26) (a + 0x41) ret
   in ret)"

definition EVP_EncodedLength :: "nat \<Rightarrow> nat option" where
  "EVP_EncodedLength len =
    (if size_t (len + 2) < len then None
     else let n = size_t (len + 2) div 3 in
       if size_t (n * 4) div 4 \<noteq> n then None
       else let m = size_t (n * 4) in
         if size_t (m + 1) < m then None else Some (size_t (m + 1)))"

definition EVP_CTX_zero :: EVP_ENCODE_CTX where
  "EVP_CTX_zero = \<lparr>data_used = 0, data = replicate 48 0, eof_seen = False, error_encountered = False\<rparr>"

definition EVP_EncodeInit :: "EVP_ENCODE_CTX \<Rightarrow> EVP_ENCODE_CTX" where
  "EVP_EncodeInit ctx = EVP_CTX_zero"

definition encode_quad :: "32 word \<Rightarrow> byte list" where
  "encode_quad l = [conv_bin2ascii (ucast (drop_bit 18 l)), conv_bin2ascii (ucast (drop_bit 12 l)),
     conv_bin2ascii (ucast (drop_bit 6 l)), conv_bin2ascii (ucast l)]"

fun encode_block_loop :: "byte list \<Rightarrow> nat \<Rightarrow> byte list \<times> nat" where
  "encode_block_loop [] ret = ([], ret)"
| "encode_block_loop [a] ret =
    (let l = push_bit 16 (ucast a) :: 32 word
     in ([conv_bin2ascii (ucast (drop_bit 18 l)), conv_bin2ascii (ucast (drop_bit 12 l)), 0x3d, 0x3d], size_t (ret + 4)))"
| "encode_block_loop [a, b] ret =
    (let l = push_bit 16 (ucast a) OR push_bit 8 (ucast b) :: 32 word
     in ([conv_bin2ascii (ucast (drop_bit 18 l)), conv_bin2ascii (ucast (drop_bit 12 l)),
          conv_bin2ascii (ucast (drop_bit 6 l)), 0x3d], size_t (ret + 4)))"
| "encode_block_loop (a # b # c # src) ret =
    (let l = push_bit 16 (ucast a) OR push_bit 8 (ucast b) OR ucast c :: 32 word;
         (dst, ret') = encode_block_loop src (size_t (ret + 4))
     in (encode_quad l @ dst, ret'))"

definition EVP_EncodeBlock :: "byte list \<Rightarrow> nat \<Rightarrow> byte list \<times> nat" where
  "EVP_EncodeBlock src src_len = (let (dst, ret) = encode_block_loop (take src_len src) 0 in (dst @ [0], ret))"

definition base64_ascii_to_bin :: "byte \<Rightarrow> byte" where
  "base64_ascii_to_bin a = (let
     is_upper = constant_time_in_range_8 a 0x41 0x5a;
     is_lower = constant_time_in_range_8 a 0x61 0x7a;
     is_digit = constant_time_in_range_8 a 0x30 0x39;
     is_plus = constant_time_eq_8 (ucast a) 0x2b;
     is_slash = constant_time_eq_8 (ucast a) 0x2f;
     is_equals = constant_time_eq_8 (ucast a) 0x3d;
     ret = 0xff;
     ret = constant_time_select_8 is_upper (a - 0x41) ret;
     ret = constant_time_select_8 is_lower (a - 0x61 + 26) ret;
     ret = constant_time_select_8 is_digit (a - 0x30 + 52) ret;
     ret = constant_time_select_8 is_plus 62 ret;
     ret = constant_time_select_8 is_slash 63 ret;
     ret = constant_time_select_8 is_equals 0 ret
   in ret)"

definition base64_decode_quad :: "byte list \<Rightarrow> byte list option" where
  "base64_decode_quad s = (let
     a = base64_ascii_to_bin (s ! 0); b = base64_ascii_to_bin (s ! 1);
     c = base64_ascii_to_bin (s ! 2); d = base64_ascii_to_bin (s ! 3)
   in if a = 0xff \<or> b = 0xff \<or> c = 0xff \<or> d = 0xff then None
      else let v = push_bit 18 (ucast a) OR push_bit 12 (ucast b) OR push_bit 6 (ucast c) OR ucast d :: 32 word;
        padding_pattern = push_bit 3 (of_bool (s ! 0 = 0x3d)) OR push_bit 2 (of_bool (s ! 1 = 0x3d))
          OR push_bit 1 (of_bool (s ! 2 = 0x3d)) OR of_bool (s ! 3 = 0x3d) :: 32 word
      in if padding_pattern = 0 then Some [ucast (drop_bit 16 v), ucast (drop_bit 8 v), ucast v]
         else if padding_pattern = 1 then Some [ucast (drop_bit 16 v), ucast (drop_bit 8 v)]
         else if padding_pattern = 3 then Some [ucast (drop_bit 16 v)]
         else None)"

definition b64_char :: "nat \<Rightarrow> byte" where
  "b64_char n = (if n < 26 then byte_of (65 + n) else if n < 52 then byte_of (71 + n)
     else if n < 62 then byte_of (n - 4) else if n = 62 then 43 else 47)"


lemma byte_cases: "list_all (\<lambda>k. P (word_of_nat k)) [0..<256] \<Longrightarrow> P (c :: byte)"
proof -
  assume a: "list_all (\<lambda>k. P (word_of_nat k)) [0..<256]"
  have "unat c \<in> set [0..<256]" using unsigned_less [of c, where ?'a = nat] by simp
  with a have "P (word_of_nat (unat c))" unfolding list_all_iff by blast
  then show "P c" by simp
qed

lemma constant_time_lt_args_8_eq: "constant_time_lt_args_8 a b = mask_of (a < b)"
proof -
  have "\<not> bit (ucast x :: 64 word) 63" for x :: byte by (auto simp: bit_simps dest: bit_imp_le_length)
  then have "bit (ucast a - ucast b :: 64 word) 63 \<longleftrightarrow> (ucast a :: 64 word) < ucast b" by (intro bit63_minus) simp
  also have "\<dots> \<longleftrightarrow> a < b" by (simp add: word_less_nat_alt unsigned_ucast_eq)
  finally show ?thesis by (simp add: constant_time_lt_args_8_def constant_time_msb_w_eq ucast_mask_of)
qed

lemma constant_time_in_range_8_eq:
  "constant_time_in_range_8 a 0x41 0x5a = mask_of (0x41 \<le> a \<and> a \<le> 0x5a)"
  "constant_time_in_range_8 a 0x61 0x7a = mask_of (0x61 \<le> a \<and> a \<le> 0x7a)"
  "constant_time_in_range_8 a 0x30 0x39 = mask_of (0x30 \<le> a \<and> a \<le> 0x39)"
proof -
  have "(a - 0x41 < 0x1a \<longleftrightarrow> 0x41 \<le> a \<and> a \<le> 0x5a) \<and> (a - 0x61 < 0x1a \<longleftrightarrow> 0x61 \<le> a \<and> a \<le> 0x7a)
    \<and> (a - 0x30 < 0xa \<longleftrightarrow> 0x30 \<le> a \<and> a \<le> 0x39)"
    by (rule byte_cases) code_simp
  then show "constant_time_in_range_8 a 0x41 0x5a = mask_of (0x41 \<le> a \<and> a \<le> 0x5a)"
    "constant_time_in_range_8 a 0x61 0x7a = mask_of (0x61 \<le> a \<and> a \<le> 0x7a)"
    "constant_time_in_range_8 a 0x30 0x39 = mask_of (0x30 \<le> a \<and> a \<le> 0x39)"
    by (simp_all add: constant_time_in_range_8_def constant_time_lt_args_8_eq)
qed

lemma ucast_byte_eq_numeral: "(ucast (a :: byte) :: 64 word) = 0x2b \<longleftrightarrow> a = 0x2b"
  "(ucast (a :: byte) :: 64 word) = 0x2f \<longleftrightarrow> a = 0x2f" "(ucast (a :: byte) :: 64 word) = 0x3d \<longleftrightarrow> a = 0x3d"
  "(ucast (a :: byte) :: 64 word) = 62 \<longleftrightarrow> a = 62"
  by (simp_all add: word_unat_eq_iff unsigned_ucast_eq)

lemma conv_bin2ascii_branches:
  "conv_bin2ascii a = (let s = a AND 0x3f in
     if s < 26 then s + 0x41 else if s < 52 then s - 26 + 0x61 else if s < 62 then s - 52 + 0x30
     else if s = 62 then 0x2b else 0x2f)"
  by (simp add: conv_bin2ascii_def Let_def constant_time_lt_args_8_eq constant_time_8_eq constant_time_select_8_eq
      ucast_byte_eq_numeral)

lemma base64_ascii_to_bin_branches:
  "base64_ascii_to_bin c = (if c = 0x3d then 0 else if c = 0x2f then 63 else if c = 0x2b then 62
     else if 0x30 \<le> c \<and> c \<le> 0x39 then c - 0x30 + 52 else if 0x61 \<le> c \<and> c \<le> 0x7a then c - 0x61 + 26
     else if 0x41 \<le> c \<and> c \<le> 0x5a then c - 0x41 else 0xff)"
  by (simp add: base64_ascii_to_bin_def Let_def constant_time_in_range_8_eq constant_time_8_eq constant_time_select_8_eq
      ucast_byte_eq_numeral)

definition sextet_char :: "byte \<Rightarrow> byte" where
  "sextet_char s = (if s < 26 then s + 0x41 else if s < 52 then s - 26 + 0x61 else if s < 62 then s - 52 + 0x30
     else if s = 62 then 0x2b else 0x2f)"

definition char_sextet :: "byte \<Rightarrow> byte" where
  "char_sextet c = (if c = 0x3d then 0 else if c = 0x2f then 63 else if c = 0x2b then 62
     else if 0x30 \<le> c \<and> c \<le> 0x39 then c - 0x30 + 52 else if 0x61 \<le> c \<and> c \<le> 0x7a then c - 0x61 + 26
     else if 0x41 \<le> c \<and> c \<le> 0x5a then c - 0x41 else 0xff)"

lemma unat_and_3f: "unat ((a :: byte) AND 0x3f) = unat a mod 64"
  using unat_and_mask [of a 6] by (simp add: mask_eq_exp_minus_1)

lemma sextet_cases: "list_all (\<lambda>k. P (word_of_nat k)) [0..<64] \<Longrightarrow> P ((a :: byte) AND 0x3f)"
proof -
  assume a: "list_all (\<lambda>k. P (word_of_nat k)) [0..<64]"
  have "unat (a AND 0x3f) \<in> set [0..<64]" by (simp add: unat_and_3f)
  with a have "P (word_of_nat (unat (a AND 0x3f)))" unfolding list_all_iff by blast
  then show ?thesis by simp
qed

lemma ascii_to_bin_conv:
  "base64_ascii_to_bin (conv_bin2ascii a) = a AND 0x3f" "conv_bin2ascii a \<notin> {0x3d, 0x20, 0x09, 0x0d, 0x0a}"
proof -
  have "char_sextet (sextet_char (a AND 0x3f)) = a AND 0x3f"
    by (rule sextet_cases) code_simp
  moreover have "sextet_char (a AND 0x3f) \<notin> {0x3d, 0x20, 0x09, 0x0d, 0x0a}"
    by (rule sextet_cases) code_simp
  ultimately show "base64_ascii_to_bin (conv_bin2ascii a) = a AND 0x3f" "conv_bin2ascii a \<notin> {0x3d, 0x20, 0x09, 0x0d, 0x0a}"
    unfolding conv_bin2ascii_branches base64_ascii_to_bin_branches Let_def sextet_char_def [symmetric] char_sextet_def [symmetric] .
qed

lemma conv_ascii_to_bin:
  assumes "base64_ascii_to_bin c \<noteq> 0xff" and "c \<noteq> 0x3d"
  shows "base64_ascii_to_bin c < 64 \<and> conv_bin2ascii (base64_ascii_to_bin c) = c"
proof -
  have "char_sextet c = 0xff \<or> c = 0x3d \<or> char_sextet c < 64 \<and> sextet_char (char_sextet c AND 0x3f) = c"
    by (rule byte_cases) code_simp
  with assms show ?thesis
    unfolding conv_bin2ascii_branches base64_ascii_to_bin_branches Let_def sextet_char_def [symmetric] char_sextet_def [symmetric] by blast
qed
definition b64_digit :: "nat \<Rightarrow> byte" where
  "b64_digit n = (map word_of_nat [65..<91] @ map word_of_nat [97..<123] @ map word_of_nat [48..<58] @ [43, 47]) ! n"

fun b64 :: "byte list \<Rightarrow> byte list" where
  "b64 [] = []"
| "b64 [a] = (let n = be_value [a] * 2 ^ 4 in [b64_digit (n div 64), b64_digit (n mod 64), 0x3d, 0x3d])"
| "b64 [a, b] = (let n = be_value [a, b] * 2 ^ 2
     in [b64_digit (n div 64 ^ 2), b64_digit (n div 64 mod 64), b64_digit (n mod 64), 0x3d])"
| "b64 (a # b # c # s) = (let n = be_value [a, b, c]
     in [b64_digit (n div 64 ^ 3), b64_digit (n div 64 ^ 2 mod 64), b64_digit (n div 64 mod 64), b64_digit (n mod 64)] @ b64 s)"

lemma conv_bin2ascii_digit: "conv_bin2ascii x = b64_digit (unat x mod 64)"
proof -
  have "sextet_char (x AND 0x3f) = b64_digit (unat (x AND 0x3f))"
    by (rule sextet_cases) code_simp
  then show ?thesis unfolding conv_bin2ascii_branches Let_def sextet_char_def [symmetric] unat_and_3f .
qed

lemma unat_ucast_low6: "unat (ucast (w :: 32 word) :: byte) mod 64 = unat w mod 64"
proof -
  have "unat (ucast w :: byte) = unat w mod 256" by (simp add: unsigned_ucast_eq take_bit_eq_mod)
  moreover have "unat w mod 256 mod 64 = unat w mod 64" by (rule mod_mod_cancel) simp
  ultimately show ?thesis by simp
qed

lemma conv_digit: "conv_bin2ascii (ucast (drop_bit k (l :: 32 word))) = b64_digit (unat l div 2 ^ k mod 64)"
  "conv_bin2ascii (ucast l) = b64_digit (unat l mod 64)"
  by (simp_all add: conv_bin2ascii_digit unat_ucast_low6 unat_drop_bit)

lemma unat_byte_shift:
  assumes "k \<le> 24"
  shows "unat (push_bit k (ucast (b :: byte)) :: 32 word) = unat b * 2 ^ k"
    and "unat v < 2 ^ k \<Longrightarrow> unat (push_bit k (ucast b) OR (v :: 32 word)) = unat b * 2 ^ k + unat v"
proof -
  have "unat b * 2 ^ k < 256 * 2 ^ k" by simp
  also have "\<dots> \<le> 256 * 2 ^ 24" using assms by (intro mult_left_mono power_increasing) simp_all
  finally have "unat b * 2 ^ k < 2 ^ 32" by simp
  then show "unat (push_bit k (ucast b) :: 32 word) = unat b * 2 ^ k"
    and "unat v < 2 ^ k \<Longrightarrow> unat (push_bit k (ucast b) OR v) = unat b * 2 ^ k + unat v"
    by (simp_all add: unat_shift_or unat_push_bit)
qed

lemma unat_bytes3:
  "unat (push_bit 16 (ucast (a :: byte)) OR push_bit 8 (ucast (b :: byte)) OR ucast (c :: byte) :: 32 word) = be_value [a, b, c]"
  "unat (push_bit 16 (ucast a) OR push_bit 8 (ucast b) :: 32 word) = be_value [a, b] * 2 ^ 8"
  "unat (push_bit 16 (ucast a) :: 32 word) = be_value [a] * 2 ^ 16"
proof -
  obtain m n where m: "m = unat b" "m < 256" and n: "n = unat c" "n < 256" by simp
  have c: "unat (ucast c :: 32 word) < 2 ^ 8" by simp
  have mn: "m * 256 + n < 65536" using m(2) n(2) by simp
  have bc: "unat (push_bit 8 (ucast b) OR ucast c :: 32 word) = m * 256 + n"
    "unat (push_bit 8 (ucast b) :: 32 word) = m * 256"
    by (simp_all add: unat_byte_shift m n)
  show "unat (push_bit 16 (ucast a) OR push_bit 8 (ucast b) OR ucast c :: 32 word) = be_value [a, b, c]"
    unfolding or.assoc using mn by (subst unat_byte_shift(2)) (simp_all add: bc be_value_Cons m(1) n(1))
  show "unat (push_bit 16 (ucast a) OR push_bit 8 (ucast b) :: 32 word) = be_value [a, b] * 2 ^ 8"
    by (subst unat_byte_shift(2)) (use m n in \<open>simp_all add: bc be_value_Cons\<close>)
  show "unat (push_bit 16 (ucast a) :: 32 word) = be_value [a] * 2 ^ 16"
    by (simp add: unat_byte_shift)
qed

lemma digits3:
  fixes n :: nat
  assumes "n < 2 ^ 24"
  shows "n div 2 ^ 18 mod 64 = n div 64 ^ 3" "n div 2 ^ 12 mod 64 = n div 64 ^ 2 mod 64" "n div 2 ^ 6 mod 64 = n div 64 mod 64"
  using assms by (simp_all add: less_mult_imp_div_less)

lemma shift_div: "(n :: nat) * 2 ^ i div 2 ^ (i + j) = n div 2 ^ j" "(n :: nat) * 2 ^ (i + j) div 2 ^ i = n * 2 ^ j"
  by (simp_all add: power_add)

lemma encode_quad_eq: "encode_quad l = [b64_digit (unat l div 2 ^ 18 mod 64), b64_digit (unat l div 2 ^ 12 mod 64),
    b64_digit (unat l div 2 ^ 6 mod 64), b64_digit (unat l mod 64)]"
  by (simp only: encode_quad_def conv_digit(1) conv_digit(2) [of l])

lemma encode_block_loop_eq: "encode_block_loop s r = (b64 s, if s = [] then r else size_t (r + length (b64 s)))"
proof (induction s r rule: encode_block_loop.induct)
  case (2 a ret)
  have s4: "size_t (Suc (Suc (Suc (Suc ret)))) = size_t (ret + 4)" by (rule arg_cong [where f = size_t]) simp
  have "unat a div 2 ^ 2 mod 64 = unat a div 2 ^ 2" by (simp add: less_mult_imp_div_less)
  then have "be_value [a] * 2 ^ 16 div 2 ^ 18 mod 64 = be_value [a] * 2 ^ 4 div 64"
    "be_value [a] * 2 ^ 16 div 2 ^ 12 mod 64 = be_value [a] * 2 ^ 4 mod 64"
    using shift_div(1) [of "unat a" 16 2] shift_div(1) [of "unat a" 4 2] shift_div(2) [of "unat a" 12 4]
    by (simp_all add: mult.commute)
  then show ?case by (simp only: encode_block_loop.simps b64.simps Let_def conv_digit(1) unat_bytes3) (simp add: s4)
next
  case (3 a b ret)
  have s4: "size_t (Suc (Suc (Suc (Suc ret)))) = size_t (ret + 4)" by (rule arg_cong [where f = size_t]) simp
  obtain n where n: "n = be_value [a, b]" "n < 65536" using be_value_bound [of "[a, b]"] by auto
  have "n div 2 ^ 10 mod 64 = n div 2 ^ 10" using n(2) by (simp add: less_mult_imp_div_less)
  then have "n * 2 ^ 8 div 2 ^ 18 mod 64 = n * 2 ^ 2 div 64 ^ 2"
    "n * 2 ^ 8 div 2 ^ 12 mod 64 = n * 2 ^ 2 div 64 mod 64"
    "n * 2 ^ 8 div 2 ^ 6 mod 64 = n * 2 ^ 2 mod 64"
    using shift_div(1) [of n 8 10] shift_div(1) [of n 2 10] shift_div(1) [of n 8 4] shift_div(1) [of n 2 4] shift_div(2) [of n 6 2]
    by (simp_all add: mult.commute)
  then show ?case by (simp only: encode_block_loop.simps b64.simps Let_def conv_digit(1) unat_bytes3 n(1) [symmetric]) (simp add: s4)
next
  case (4 a b c src ret)
  obtain n where n: "n = be_value [a, b, c]" "n < 2 ^ 24" using be_value_bound [of "[a, b, c]"] by auto
  have "encode_block_loop (a # b # c # src) ret = ([b64_digit (n div 64 ^ 3), b64_digit (n div 64 ^ 2 mod 64),
      b64_digit (n div 64 mod 64), b64_digit (n mod 64)] @ fst (encode_block_loop src (size_t (ret + 4))),
      snd (encode_block_loop src (size_t (ret + 4))))"
    by (simp only: encode_block_loop.simps Let_def encode_quad_eq unat_bytes3 n(1) [symmetric] digits3 [OF n(2)])
      (simp add: case_prod_unfold)
  moreover have "size_t (size_t (ret + 4) + k) = size_t (ret + (4 + k))" for k by (simp add: size_t_def mod_add_left_eq add.assoc)
  moreover have "size_t (Suc (Suc (Suc (Suc x)))) = size_t (x + 4)" for x by (rule arg_cong [where f = size_t]) simp
  ultimately show ?case
    by (simp only: 4 b64.simps n(1) [symmetric] Let_def fst_conv snd_conv) (simp add: ac_simps)
qed simp

lemma EVP_EncodeBlock_eq:
  assumes "n \<le> length s" and "length (b64 (take n s)) < 2 ^ 64"
  shows "EVP_EncodeBlock s n = (b64 (take n s) @ [0], length (b64 (take n s)))"
  using assms(2) by (simp add: EVP_EncodeBlock_def encode_block_loop_eq size_t_id)

lemma length_b64: "length (b64 s) = 4 * ((length s + 2) div 3)"
proof (induction s rule: b64.induct)
  case (4 a b c s)
  have "(length (a # b # c # s) + 2) div 3 = (length s + 2) div 3 + 1" by simp
  with 4 show ?case by (simp add: Let_def)
qed (simp_all add: Let_def)

lemma EVP_EncodedLength_eq:
  assumes "len < 2 ^ 64"
  shows "EVP_EncodedLength len = (let n = 4 * ((len + 2) div 3) + 1 in if n < 2 ^ 64 then Some n else None)"
proof -
  obtain M :: nat where M: "M = 2 ^ 62" "4611686018427387904 = M" by simp
  have s: "size_t x = x mod (4 * M)" for x by (simp add: size_t_def M(1))
  obtain n where n: "n = (len + 2) div 3" by blast
  have e: "(2 :: nat) ^ 64 = 4 * M" by (simp add: M(1))
  have goal: "EVP_EncodedLength len = (if 4 * n + 1 < 4 * M then Some (4 * n + 1) else None)"
  proof (cases "len + 2 < 4 * M")
    case True
    then have s2: "size_t (len + 2) = len + 2" by (simp add: s)
    have d: "EVP_EncodedLength len = (if size_t (n * 4) div 4 \<noteq> n then None
         else if size_t (size_t (n * 4) + 1) < size_t (n * 4) then None else Some (size_t (size_t (n * 4) + 1)))"
      unfolding EVP_EncodedLength_def Let_def s2 n [symmetric] by (rule if_not_P) simp
    show ?thesis
    proof (cases "n < M")
      case True
      then have "size_t (n * 4) = n * 4" "size_t (n * 4 + 1) = n * 4 + 1" by (simp_all add: s)
      then show ?thesis using True unfolding d by simp
    next
      case False
      have "n * 4 mod (M * 4) = n mod M * 4" by (rule mod_mult_mult2)
      moreover have "n mod M < M" by (simp add: M(1))
      ultimately have "size_t (n * 4) div 4 \<noteq> n" using False by (simp add: s mult.commute)
      then show ?thesis using False unfolding d by simp
    qed
  next
    case False
    have l: "len < 4 * M" using assms unfolding e .
    have m2: "2 < 4 * M" by (simp add: M(1))
    have "size_t (len + 2) = len + 2 - 4 * M" unfolding s using False l m2 by (subst mod_if) (simp add: mod_less)
    then have "size_t (len + 2) < len" using l m2 False by simp
    moreover have "M \<le> n" unfolding n using False by linarith
    ultimately show ?thesis by (simp add: EVP_EncodedLength_def)
  qed
  then show ?thesis unfolding e Let_def n .
qed

lemma b64_append: "length a mod 3 = 0 \<Longrightarrow> b64 (a @ s) = b64 a @ b64 s"
  by (induction a rule: b64.induct) (simp_all add: Let_def mod_Suc split: if_splits)

lemma quad_value:
  assumes "unat (s0 :: byte) < 64" "unat (s1 :: byte) < 64" "unat (s2 :: byte) < 64" "unat (s3 :: byte) < 64"
  shows "unat (push_bit 18 (ucast s0) OR push_bit 12 (ucast s1) OR push_bit 6 (ucast s2) OR ucast s3 :: 32 word)
    = ((unat s0 * 64 + unat s1) * 64 + unat s2) * 64 + unat s3"
proof -
  have a: "unat (push_bit 6 (ucast s2) OR ucast s3 :: 32 word) = unat s2 * 64 + unat s3"
    using assms by (subst unat_byte_shift(2)) simp_all
  have b: "unat (push_bit 12 (ucast s1) OR (push_bit 6 (ucast s2) OR ucast s3) :: 32 word) = unat s1 * 64 ^ 2 + unat s2 * 64 + unat s3"
    using assms by (subst unat_byte_shift(2)) (simp_all add: a)
  show ?thesis unfolding or.assoc using assms by (subst unat_byte_shift(2)) (simp_all add: b)
qed

lemma quad_bytes:
  "(ucast (drop_bit k (v :: 32 word)) :: byte) = byte_of (unat v div 2 ^ k)"
  "(ucast v :: byte) = byte_of (unat v)"
  by (simp_all add: word_unat_eq_iff byte_of_def unsigned_ucast_eq take_bit_eq_mod unat_drop_bit)

lemma base64_decode_quad_eq:
  assumes "\<forall>c \<in> {s ! 0, s ! 1, s ! 2, s ! 3}. base64_ascii_to_bin c < 64"
  shows "base64_decode_quad s = (let v = ((unat (base64_ascii_to_bin (s ! 0)) * 64 + unat (base64_ascii_to_bin (s ! 1))) * 64
        + unat (base64_ascii_to_bin (s ! 2))) * 64 + unat (base64_ascii_to_bin (s ! 3));
      bs = [byte_of (v div 2 ^ 16), byte_of (v div 2 ^ 8), byte_of v]
    in if s ! 0 = 0x3d \<or> s ! 1 = 0x3d then None
       else if s ! 3 \<noteq> 0x3d then (if s ! 2 = 0x3d then None else Some bs)
       else Some (take (if s ! 2 = 0x3d then 1 else 2) bs))"
proof -
  have lt: "unat (base64_ascii_to_bin (s ! 0)) < 64" "unat (base64_ascii_to_bin (s ! 1)) < 64"
    "unat (base64_ascii_to_bin (s ! 2)) < 64" "unat (base64_ascii_to_bin (s ! 3)) < 64"
    using assms by (simp_all add: word_less_nat_alt)
  have ne: "base64_ascii_to_bin (s ! 0) \<noteq> 0xff" "base64_ascii_to_bin (s ! 1) \<noteq> 0xff"
    "base64_ascii_to_bin (s ! 2) \<noteq> 0xff" "base64_ascii_to_bin (s ! 3) \<noteq> 0xff"
    using assms by auto
  let ?p = "\<lambda>p q r t. push_bit 3 (of_bool p) OR push_bit 2 (of_bool q) OR push_bit 1 (of_bool r) OR of_bool t :: 32 word"
  have p: "?p p q r t = 0 \<longleftrightarrow> \<not> p \<and> \<not> q \<and> \<not> r \<and> \<not> t" "?p p q r t = 1 \<longleftrightarrow> \<not> p \<and> \<not> q \<and> \<not> r \<and> t"
    "?p p q r t = 3 \<longleftrightarrow> \<not> p \<and> \<not> q \<and> r \<and> t" for p q r t
    by (cases p; cases q; cases r; cases t; simp)+
  obtain v :: "32 word" where v: "v = push_bit 18 (ucast (base64_ascii_to_bin (s ! 0))) OR push_bit 12 (ucast (base64_ascii_to_bin (s ! 1)))
      OR push_bit 6 (ucast (base64_ascii_to_bin (s ! 2))) OR ucast (base64_ascii_to_bin (s ! 3))" by blast
  show ?thesis
    unfolding base64_decode_quad_def Let_def p v [symmetric] quad_bytes(1) quad_bytes(2) [of v] quad_value [OF lt, folded v, symmetric]
    using ne by auto
qed

lemma base64_decode_quad_invalid:
  "\<exists>c \<in> {s ! 0, s ! 1, s ! 2, s ! 3}. base64_ascii_to_bin c = 0xff \<Longrightarrow> base64_decode_quad s = None"
  by (auto simp: base64_decode_quad_def)

lemma ascii_to_bin_range: "base64_ascii_to_bin c = 0xff \<or> base64_ascii_to_bin c < 64"
proof (cases "c = 0x3d")
  case True
  then show ?thesis by (simp add: base64_ascii_to_bin_branches)
next
  case False
  then show ?thesis using conv_ascii_to_bin [of c] by blast
qed

lemma b64_digit_inv:
  assumes "n < 64"
  shows "unat (base64_ascii_to_bin (b64_digit n)) = n" "b64_digit n \<notin> {0x3d, 0x20, 0x09, 0x0d, 0x0a}"
proof -
  have "conv_bin2ascii (word_of_nat n) = b64_digit n"
    using assms by (simp add: conv_bin2ascii_digit unat_of_nat)
  with ascii_to_bin_conv [of "word_of_nat n"] show "unat (base64_ascii_to_bin (b64_digit n)) = n" "b64_digit n \<notin> {0x3d, 0x20, 0x09, 0x0d, 0x0a}"
    using assms by (simp_all add: unat_and_3f unat_of_nat)
qed

text \<open>
  \<open>EVP_EncodeUpdate\<close>. All stores through \<open>out\<close> are sequential and every store of the terminating NUL
  is overwritten by the next line, so the model carries the bytes stored so far without that NUL;
  the result has it at the end when anything was stored. The \<open>bool\<close> of the loop is False for the
  early return on a wrapped total.
\<close>

definition INT_MAX :: nat where
  "INT_MAX = 2 ^ 31 - 1"

function encode_update_loop :: "nat \<Rightarrow> byte list \<Rightarrow> byte list \<Rightarrow> bool \<times> nat \<times> byte list \<times> byte list" where
  "encode_update_loop tot out inp =
    (if length inp < 48 then (True, tot, out, inp)
     else let (dst, encoded) = EVP_EncodeBlock inp 48; out' = out @ take encoded dst @ [0x0a]
       in if size_t (tot + encoded + 1) < tot then (False, tot, out', drop 48 inp)
          else encode_update_loop (size_t (tot + encoded + 1)) out' (drop 48 inp))"
  by pat_completeness auto
termination
  by (relation "measure (\<lambda>(_, _, inp). length inp)") auto

declare encode_update_loop.simps [simp del]

definition EVP_EncodeUpdate :: "EVP_ENCODE_CTX \<Rightarrow> byte list \<Rightarrow> EVP_ENCODE_CTX \<times> byte list \<times> nat" where
  "EVP_EncodeUpdate ctx inp =
    (if inp = [] then (ctx, [], 0)
     else if 48 - data_used ctx > length inp then
       (ctx\<lparr>data := mem_write (data ctx) (data_used ctx) inp, data_used := (data_used ctx + length inp) mod 2 ^ 32\<rparr>, [], 0)
     else let
         todo = 48 - data_used ctx;
         (ctx1, inp1, out1, total1) =
           (if data_used ctx \<noteq> 0 then
              let d = mem_write (data ctx) (data_used ctx) (take todo inp); (dst, encoded) = EVP_EncodeBlock d 48
              in (ctx\<lparr>data := d, data_used := 0\<rparr>, drop todo inp, take encoded dst @ [0x0a], encoded + 1)
            else (ctx, inp, [], 0));
         (ok, tot, out, rest) = encode_update_loop total1 out1 inp1
       in if \<not> ok then (ctx1, out @ [0], 0)
          else (ctx1\<lparr>data := (if rest \<noteq> [] then mem_write (data ctx1) 0 rest else data ctx1),
                    data_used := length rest mod 2 ^ 32\<rparr>,
                out @ [0], if tot > INT_MAX then 0 else tot))"

definition EVP_EncodeFinal :: "EVP_ENCODE_CTX \<Rightarrow> EVP_ENCODE_CTX \<times> byte list \<times> nat" where
  "EVP_EncodeFinal ctx =
    (if data_used ctx = 0 then (ctx, [], 0)
     else let (dst, encoded) = EVP_EncodeBlock (data ctx) (data_used ctx)
       in (ctx\<lparr>data_used := 0\<rparr>, take encoded dst @ [0x0a, 0], encoded + 1))"

definition EVP_DecodedLength :: "nat \<Rightarrow> nat option" where
  "EVP_DecodedLength len = (if len mod 4 \<noteq> 0 then None else Some (len div 4 * 3))"

definition EVP_DecodeInit :: "EVP_ENCODE_CTX \<Rightarrow> EVP_ENCODE_CTX" where
  "EVP_DecodeInit ctx = EVP_CTX_zero"

definition is_space :: "byte \<Rightarrow> bool" where
  "is_space c = (c = 0x20 \<or> c = 0x09 \<or> c = 0x0d \<or> c = 0x0a)"

fun decode_update_loop :: "EVP_ENCODE_CTX \<Rightarrow> byte list \<Rightarrow> byte list \<Rightarrow> bool \<times> EVP_ENCODE_CTX \<times> byte list" where
  "decode_update_loop ctx out [] = (True, ctx, out)"
| "decode_update_loop ctx out (c # cs) =
    (if is_space c then decode_update_loop ctx out cs
     else if eof_seen ctx then (False, ctx\<lparr>error_encountered := True\<rparr>, out)
     else let ctx1 = ctx\<lparr>data := (data ctx)[data_used ctx := c], data_used := data_used ctx + 1\<rparr>
       in if data_used ctx1 = 4 then
            (case base64_decode_quad (data ctx1) of
               None \<Rightarrow> (False, ctx1\<lparr>error_encountered := True\<rparr>, out)
             | Some bs \<Rightarrow> decode_update_loop
                 (ctx1\<lparr>data_used := 0, eof_seen := eof_seen ctx1 \<or> length bs < 3\<rparr>) (out @ bs) cs)
          else decode_update_loop ctx1 out cs)"

definition EVP_DecodeUpdate :: "EVP_ENCODE_CTX \<Rightarrow> byte list \<Rightarrow> int \<times> EVP_ENCODE_CTX \<times> byte list \<times> nat" where
  "EVP_DecodeUpdate ctx inp =
    (if error_encountered ctx then (- 1, ctx, [], 0)
     else let (ok, ctx1, out) = decode_update_loop ctx [] inp
       in if \<not> ok then (- 1, ctx1, out, 0)
          else if size_t (length out) > INT_MAX then (- 1, ctx1\<lparr>error_encountered := True\<rparr>, out, 0)
          else (if eof_seen ctx1 then 0 else 1, ctx1, out, size_t (length out)))"

definition EVP_DecodeFinal :: "EVP_ENCODE_CTX \<Rightarrow> int \<times> nat" where
  "EVP_DecodeFinal ctx = (if error_encountered ctx \<or> data_used ctx \<noteq> 0 then (- 1, 0) else (1, 0))"

fun decode_base64_loop :: "byte list \<Rightarrow> byte list \<Rightarrow> byte list option" where
  "decode_base64_loop out (a # b # c # d # s) =
    (case base64_decode_quad [a, b, c, d] of
       None \<Rightarrow> None
     | Some bs \<Rightarrow> if length bs \<noteq> 3 \<and> s \<noteq> [] then None else decode_base64_loop (out @ bs) s)"
| "decode_base64_loop out [] = Some out"
| "decode_base64_loop out [a] = Some out"
| "decode_base64_loop out [a, b] = Some out"
| "decode_base64_loop out [a, b, c] = Some out"

definition EVP_DecodeBase64 :: "nat \<Rightarrow> byte list \<Rightarrow> byte list option" where
  "EVP_DecodeBase64 max_out inp =
    (if length inp mod 4 \<noteq> 0 then None
     else case EVP_DecodedLength (length inp) of
         None \<Rightarrow> None
       | Some max_len \<Rightarrow> if max_out < max_len then None else decode_base64_loop [] inp)"

definition EVP_DecodeBlock :: "byte list \<Rightarrow> byte list option" where
  "EVP_DecodeBlock src0 = (let
     src = rev (dropWhile is_space (rev (dropWhile (\<lambda>c. c = 0x20 \<or> c = 0x09) src0)))
   in case EVP_DecodedLength (length src) of
        None \<Rightarrow> None
      | Some dst_len \<Rightarrow>
          if dst_len > INT_MAX then None
          else map_option (\<lambda>dst. dst @ replicate (2 * length dst mod 3) 0) (EVP_DecodeBase64 dst_len src))"

subsection \<open>One-shot decoding\<close>

lemma decode_quad_prefix: "base64_decode_quad (a # b # c # d # s) = base64_decode_quad [a, b, c, d]"
  by (simp add: base64_decode_quad_def)

lemma digit_facts64:
  assumes "k < 64"
  shows "unat (base64_ascii_to_bin (b64_digit k)) = k" "b64_digit k \<noteq> 0x3d" "base64_ascii_to_bin (b64_digit k) < 64"
  using b64_digit_inv [OF assms] assms by (simp_all add: word_less_nat_alt)

lemma quad_digits:
  assumes "p < 64" "q < 64"
  shows "r < 64 \<Longrightarrow> u < 64 \<Longrightarrow> base64_decode_quad [b64_digit p, b64_digit q, b64_digit r, b64_digit u]
     = (let v = ((p * 64 + q) * 64 + r) * 64 + u in Some [byte_of (v div 2 ^ 16), byte_of (v div 2 ^ 8), byte_of v])"
    and "r < 64 \<Longrightarrow> base64_decode_quad [b64_digit p, b64_digit q, b64_digit r, 0x3d]
     = (let v = ((p * 64 + q) * 64 + r) * 64 in Some [byte_of (v div 2 ^ 16), byte_of (v div 2 ^ 8)])"
    and "base64_decode_quad [b64_digit p, b64_digit q, 0x3d, 0x3d]
     = (let v = (p * 64 + q) * 64 * 64 in Some [byte_of (v div 2 ^ 16)])"
proof -
  have e: "base64_ascii_to_bin 0x3d = 0" by (simp add: base64_ascii_to_bin_branches)
  show "r < 64 \<Longrightarrow> u < 64 \<Longrightarrow> base64_decode_quad [b64_digit p, b64_digit q, b64_digit r, b64_digit u]
     = (let v = ((p * 64 + q) * 64 + r) * 64 + u in Some [byte_of (v div 2 ^ 16), byte_of (v div 2 ^ 8), byte_of v])"
    "r < 64 \<Longrightarrow> base64_decode_quad [b64_digit p, b64_digit q, b64_digit r, 0x3d]
     = (let v = ((p * 64 + q) * 64 + r) * 64 in Some [byte_of (v div 2 ^ 16), byte_of (v div 2 ^ 8)])"
    "base64_decode_quad [b64_digit p, b64_digit q, 0x3d, 0x3d]
     = (let v = (p * 64 + q) * 64 * 64 in Some [byte_of (v div 2 ^ 16)])"
    using assms by (simp_all add: base64_decode_quad_eq digit_facts64 e)
qed

lemma byte_of_eqI: "n mod 256 = unat b \<Longrightarrow> byte_of n = b"
  by (simp add: byte_of_def word_unat_eq_iff)

lemma radix_split:
  "((n :: nat) div 64 ^ 2 * 64 + n div 64 mod 64) * 64 + n mod 64 = n"
  "((n div 64 ^ 3 * 64 + n div 64 ^ 2 mod 64) * 64 + n div 64 mod 64) * 64 + n mod 64 = n"
proof -
  have d: "n div 64 ^ 2 = n div 64 div 64" "n div 64 ^ 3 = n div 64 ^ 2 div 64" by (simp_all add: div_mult2_eq [symmetric])
  show "(n div 64 ^ 2 * 64 + n div 64 mod 64) * 64 + n mod 64 = n" unfolding d(1) by (simp only: div_mult_mod_eq)
  then show "((n div 64 ^ 3 * 64 + n div 64 ^ 2 mod 64) * 64 + n div 64 mod 64) * 64 + n mod 64 = n"
    unfolding d(2) by (simp only: div_mult_mod_eq)
qed

lemma quad_b64_1: "base64_decode_quad (b64 [a]) = Some [a]"
proof -
  obtain x where x: "x = unat a" "x < 256" by simp
  have p: "x * 16 div 64 < 64" using x(2) by (simp only: less_mult_imp_div_less) 
  have "base64_decode_quad (b64 [a]) = Some [byte_of ((x * 16 div 64 * 64 + x * 16 mod 64) * 64 * 64 div 2 ^ 16)]"
    using quad_digits(3) [OF p, of "x * 16 mod 64"] by (simp only: b64.simps Let_def be_value_singleton x(1) [symmetric]) simp
  also have "(x * 16 div 64 * 64 + x * 16 mod 64) * 64 * 64 div 2 ^ 16 = x"
    unfolding div_mult_mod_eq by simp
  finally show ?thesis by (simp add: x)
qed

lemma quad_b64_2: "base64_decode_quad (b64 [a, b]) = Some [a, b]"
proof -
  obtain n where n: "n = be_value [a, b]" "n < 65536" using be_value_bound [of "[a, b]"] by auto
  have p: "n * 4 div 64 ^ 2 < 64" using n(2) by (simp add: less_mult_imp_div_less)
  have "base64_decode_quad (b64 [a, b]) = Some [byte_of (n * 4 * 64 div 2 ^ 16), byte_of (n * 4 * 64 div 2 ^ 8)]"
    using quad_digits(2) [OF p, of "n * 4 div 64 mod 64" "n * 4 mod 64", unfolded radix_split]
    by (simp only: b64.simps Let_def n(1) [symmetric]) simp
  also have "n * 4 * 64 div 2 ^ 16 = n div 256" by simp
  also have "n * 4 * 64 div 2 ^ 8 = n" by simp
  finally show ?thesis by (simp add: n be_value_Cons byte_of_eqI)
qed

lemma byte_of_mod: "(of_nat (k mod 256) :: byte) = of_nat k"
  by (simp add: word_unat_eq_iff)

lemma quad_b64_3: "base64_decode_quad (take 4 (b64 (a # b # c # s))) = Some [a, b, c]"
proof -
  obtain n where n: "n = be_value [a, b, c]" "n < 2 ^ 24" using be_value_bound [of "[a, b, c]"] by auto
  have p: "n div 64 ^ 3 < 64" using n(2) by (simp add: less_mult_imp_div_less)
  have "base64_decode_quad (take 4 (b64 (a # b # c # s))) = Some [byte_of (n div 2 ^ 16), byte_of (n div 2 ^ 8), byte_of n]"
    using quad_digits(1) [OF p, of "n div 64 ^ 2 mod 64" "n div 64 mod 64" "n mod 64", unfolded radix_split]
    by (simp add: n(1) [symmetric] Let_def)
  also have "[byte_of (n div 2 ^ 16), byte_of (n div 2 ^ 8), byte_of n] = be_bytes 3 n"
    unfolding numeral_3_eq_3 be_bytes.simps byte_of_mod byte_of_def by (simp add: div_mult2_eq [symmetric])
  also have "be_bytes 3 n = [a, b, c]" using n(1) by (intro be_bytes_of_value) simp_all
  finally show ?thesis .
qed

lemma decode_base64_loop_b64: "decode_base64_loop out (b64 s) = Some (out @ s)"
proof (induction s arbitrary: out rule: b64.induct)
  case (2 a)
  show ?case using quad_b64_1 [of a] by (simp add: Let_def)
next
  case (3 a b)
  show ?case using quad_b64_2 [of a b] by (simp add: Let_def)
next
  case (4 a b c s)
  obtain w x y z where e: "b64 (a # b # c # s) = w # x # y # z # b64 s" by (simp add: Let_def)
  have "base64_decode_quad [w, x, y, z] = Some [a, b, c]" using quad_b64_3 [of a b c s] unfolding e by simp
  then show ?case unfolding e by (simp add: 4)
qed simp

lemma EVP_DecodeBase64_b64:
  assumes "length (b64 s) div 4 * 3 \<le> max_out"
  shows "EVP_DecodeBase64 max_out (b64 s) = Some s"
  using assms by (simp add: EVP_DecodeBase64_def EVP_DecodedLength_def length_b64 decode_base64_loop_b64)

lemma b64_no_space: "c \<in> set (b64 s) \<Longrightarrow> \<not> is_space c"
proof (induction s rule: b64.induct)
  case (2 a)
  have "unat a * 16 div 64 < 64" by (simp add: less_mult_imp_div_less)
  with 2 b64_digit_inv(2) [of "unat a * 16 div 64"] b64_digit_inv(2) [of "unat a * 16 mod 64"]
  show ?case by (auto simp: Let_def is_space_def)
next
  case (3 a b)
  have "be_value [a, b] * 4 div 64 ^ 2 < 64" using be_value_bound [of "[a, b]"] by (simp add: less_mult_imp_div_less)
  with 3 b64_digit_inv(2) [of "be_value [a, b] * 4 div 64 ^ 2"] b64_digit_inv(2) [of "be_value [a, b] * 4 div 64 mod 64"]
    b64_digit_inv(2) [of "be_value [a, b] * 4 mod 64"]
  show ?case by (auto simp: Let_def is_space_def)
next
  case (4 a b c s)
  have "be_value [a, b, c] div 64 ^ 3 < 64" using be_value_bound [of "[a, b, c]"] by (simp add: less_mult_imp_div_less)
  with 4 b64_digit_inv(2) [of "be_value [a, b, c] div 64 ^ 3"] b64_digit_inv(2) [of "be_value [a, b, c] div 64 ^ 2 mod 64"]
    b64_digit_inv(2) [of "be_value [a, b, c] div 64 mod 64"] b64_digit_inv(2) [of "be_value [a, b, c] mod 64"]
  show ?case by (auto simp: Let_def is_space_def)
qed simp

subsection \<open>Streaming decode\<close>

lemma decode_loop_filter: "decode_update_loop ctx out inp = decode_update_loop ctx out (filter (\<lambda>c. \<not> is_space c) inp)"
  by (induction ctx out inp rule: decode_update_loop.induct) (auto simp: Let_def split: option.splits)

lemma decode_loop_append:
  "decode_update_loop ctx out (x @ y) =
    (let (ok, ctx1, out1) = decode_update_loop ctx out x in if ok then decode_update_loop ctx1 out1 y else (False, ctx1, out1))"
  by (induction ctx out x rule: decode_update_loop.induct) (auto simp: Let_def split: option.splits prod.splits)

lemma decode_loop_out:
  "decode_update_loop ctx (o1 @ out) inp = (let (ok, ctx1, out1) = decode_update_loop ctx out inp in (ok, ctx1, o1 @ out1))"
  by (induction ctx out inp rule: decode_update_loop.induct) (auto simp: Let_def split: option.splits prod.splits)

lemma decode_quad_length: "base64_decode_quad s = Some bs \<Longrightarrow> length bs \<le> 3"
  by (auto simp: base64_decode_quad_def Let_def split: if_splits)

lemma decode_loop_bound:
  "decode_update_loop ctx out inp = (ok, ctx1, out1) \<Longrightarrow> length out1 \<le> length out + 3 * length inp
    \<and> (ok \<longrightarrow> error_encountered ctx1 = error_encountered ctx)"
proof (induction ctx out inp rule: decode_update_loop.induct)
  case (2 ctx out c cs)
  then show ?case by (auto simp: Let_def split: if_splits option.splits dest!: decode_quad_length) force+
qed simp

lemma decode_loop_quad:
  assumes "data_used ctx = 0" "\<not> eof_seen ctx" "4 \<le> length (data ctx)" "\<not> is_space a" "\<not> is_space b" "\<not> is_space c" "\<not> is_space d"
  shows "decode_update_loop ctx out (a # b # c # d # s) =
    (let ctx1 = ctx\<lparr>data := a # b # c # d # drop 4 (data ctx), data_used := 4\<rparr>
     in case base64_decode_quad [a, b, c, d] of
       None \<Rightarrow> (False, ctx1\<lparr>error_encountered := True\<rparr>, out)
     | Some bs \<Rightarrow> decode_update_loop (ctx1\<lparr>data_used := 0, eof_seen := length bs < 3\<rparr>) (out @ bs) s)"
proof -
  obtain w x y z ds where d: "data ctx = w # x # y # z # ds"
    using assms(3) by (auto simp: numeral_eq_Suc Suc_le_length_iff)
  have s4: "Suc (Suc (Suc (Suc 0))) = (4 :: nat)" by simp
  show ?thesis using assms by (simp add: Let_def d decode_quad_prefix [of a b c d ds] s4 split: option.split)
qed

lemma decode_loop_eof:
  "eof_seen ctx \<Longrightarrow> \<forall>c \<in> set s. \<not> is_space c \<Longrightarrow> s \<noteq> [] \<Longrightarrow> decode_update_loop ctx out s = (False, ctx\<lparr>error_encountered := True\<rparr>, out)"
  by (cases s) simp_all

lemma decode_loop_short:
  assumes "data_used ctx = 0" "\<not> eof_seen ctx" "length s < 4" "\<forall>c \<in> set s. \<not> is_space c"
  shows "\<exists>ctx'. decode_update_loop ctx out s = (True, ctx', out) \<and> data_used ctx' = length s"
  using assms by (cases s rule: remdups_adj.cases; cases "tl (tl s)"; cases "tl (tl (tl s))") (auto simp: Let_def)

lemma decode_loop_one_shot:
  assumes "data_used ctx = 0" "\<not> eof_seen ctx" "4 \<le> length (data ctx)" "\<forall>c \<in> set s. \<not> is_space c"
  shows "(let (ok, ctx1, out1) = decode_update_loop ctx out s in if ok \<and> data_used ctx1 = 0 then Some out1 else None)
    = (if length s mod 4 = 0 then decode_base64_loop out s else None)"
  using assms
proof (induction out s arbitrary: ctx rule: decode_base64_loop.induct)
  case (1 out a b c d s)
  have sp: "\<not> is_space a" "\<not> is_space b" "\<not> is_space c" "\<not> is_space d" using 1(5) by simp_all
  note q = decode_loop_quad [OF 1(2-4) sp, of out s]
  show ?case
  proof (cases "base64_decode_quad [a, b, c, d]")
    case None
    then show ?thesis unfolding q by (simp add: Let_def)
  next
    case (Some bs)
    obtain ctx2 where c2: "ctx2 = ctx\<lparr>data := a # b # c # d # drop 4 (data ctx), data_used := 0, eof_seen := length bs < 3\<rparr>" by blast
    have e: "decode_update_loop ctx out (a # b # c # d # s) = decode_update_loop ctx2 (out @ bs) s"
      unfolding q by (simp add: Let_def c2 Some)
    show ?thesis
    proof (cases "length bs = 3")
      case True
      then show ?thesis using 1(1) [OF Some, of ctx2] 1(2-) Some unfolding e by (simp add: c2)
    next
      case False
      then have l: "length bs < 3" using decode_quad_length [OF Some] by simp
      show ?thesis
      proof (cases "s = []")
        case True
        then show ?thesis using Some False unfolding e by (simp add: c2)
      next
        case s: False
        have "eof_seen ctx2" using l by (simp add: c2)
        then show ?thesis using decode_loop_eof [of ctx2 s "out @ bs"] 1(5) s Some False unfolding e by simp
      qed
    qed
  qed
next
  case (2 out)
  then show ?case by simp
next
  case (3 out v)
  then show ?case using decode_loop_short [of ctx "[v]" out] by auto
next
  case (4 out v w)
  then show ?case using decode_loop_short [of ctx "[v, w]" out] by auto
next
  case (5 out v w x)
  then show ?case using decode_loop_short [of ctx "[v, w, x]" out] by auto
qed

fun decode_stream :: "EVP_ENCODE_CTX \<Rightarrow> byte list list \<Rightarrow> byte list option" where
  "decode_stream ctx [] = (if fst (EVP_DecodeFinal ctx) = 1 then Some [] else None)"
| "decode_stream ctx (p # ps) =
    (case EVP_DecodeUpdate ctx p of (r, ctx1, out, n) \<Rightarrow>
       if r = - 1 then None else map_option (\<lambda>rest. take n out @ rest) (decode_stream ctx1 ps))"

lemma decode_stream_eq:
  assumes "\<not> error_encountered ctx" and "\<forall>p \<in> set ps. length p \<le> 2 ^ 29"
  shows "decode_stream ctx ps = (let (ok, ctx1, out) = decode_update_loop ctx [] (concat ps)
    in if ok \<and> data_used ctx1 = 0 then Some out else None)"
  using assms
proof (induction ps arbitrary: ctx)
  case Nil
  then show ?case by (simp add: EVP_DecodeFinal_def)
next
  case (Cons p ps)
  obtain ok ctx1 out where l: "decode_update_loop ctx [] p = (ok, ctx1, out)" by (metis prod_cases3)
  have b: "length out \<le> 3 * length p" "ok \<longrightarrow> \<not> error_encountered ctx1"
    using decode_loop_bound [OF l] Cons.prems(1) by auto
  then have s: "length out \<le> INT_MAX" "size_t (length out) = length out"
    using Cons.prems(2) by (simp_all add: INT_MAX_def size_t_id)
  show ?case
  proof (cases ok)
    case True
    have "decode_update_loop ctx [] (concat (p # ps))
      = (let (ok, ctx2, out2) = decode_update_loop ctx1 [] (concat ps) in (ok, ctx2, out @ out2))"
      using decode_loop_out [of ctx1 out "[]" "concat ps"] by (simp add: decode_loop_append l True)
    moreover have "decode_stream ctx (p # ps) = map_option (\<lambda>rest. out @ rest) (decode_stream ctx1 ps)"
      using Cons.prems(1) s True by (simp add: EVP_DecodeUpdate_def l)
    ultimately show ?thesis using Cons.IH [of ctx1] Cons.prems(2) b True by (simp add: Let_def split: prod.split)
  next
    case False
    then show ?thesis using Cons.prems(1) by (simp add: EVP_DecodeUpdate_def l decode_loop_append)
  qed
qed

lemma decode_stream_one_shot:
  assumes "\<forall>p \<in> set ps. length p \<le> 2 ^ 29"
  shows "decode_stream (EVP_DecodeInit ctx) ps =
    (let t = filter (\<lambda>c. \<not> is_space c) (concat ps) in EVP_DecodeBase64 (length t div 4 * 3) t)"
proof -
  obtain t where t: "t = filter (\<lambda>c. \<not> is_space c) (concat ps)" by blast
  have z: "data_used EVP_CTX_zero = 0" "\<not> eof_seen EVP_CTX_zero" "4 \<le> length (data EVP_CTX_zero)" "\<not> error_encountered EVP_CTX_zero"
    by (simp_all add: EVP_CTX_zero_def)
  show ?thesis
    unfolding EVP_DecodeInit_def decode_stream_eq [OF z(4) assms] decode_loop_filter [of EVP_CTX_zero "[]" "concat ps"] t [symmetric]
    using decode_loop_one_shot [OF z(1-3), of t "[]"]
    by (simp add: t EVP_DecodeBase64_def EVP_DecodedLength_def)
qed

subsection \<open>Streaming encode\<close>

function pem_lines :: "byte list \<Rightarrow> byte list" where
  "pem_lines s = (if s = [] then [] else b64 (take 48 s) @ 0x0a # pem_lines (drop 48 s))"
  by pat_completeness auto
termination
  by (relation "measure length") auto

declare pem_lines.simps [simp del]

lemma pem_lines_Nil [simp]: "pem_lines [] = []"
  by (simp add: pem_lines.simps)

definition whole_lines :: "byte list \<Rightarrow> nat" where
  "whole_lines s = length s div 48 * 48"

lemma whole_lines_short [simp]: "length s < 48 \<Longrightarrow> whole_lines s = 0"
  by (simp add: whole_lines_def)

lemma whole_lines_step: "48 \<le> length s \<Longrightarrow> whole_lines s = 48 + whole_lines (drop 48 s)"
  by (simp add: whole_lines_def le_div_geq)

lemma whole_lines_le: "whole_lines s \<le> length s"
  by (simp add: whole_lines_def)

lemma rest_short: "length (drop (whole_lines s) s) < 48"
  by (simp add: whole_lines_def minus_div_mult_eq_mod)

lemma pem_lines_step:
  assumes "48 \<le> length s"
  shows "pem_lines (take (whole_lines s) s) = b64 (take 48 s) @ 0x0a # pem_lines (take (whole_lines (drop 48 s)) (drop 48 s))"
  using assms by (subst pem_lines.simps) (auto simp: whole_lines_step min_def drop_take)

lemma pem_lines_split: "pem_lines s = pem_lines (take (whole_lines s) s) @ pem_lines (drop (whole_lines s) s)"
proof (induction s rule: pem_lines.induct)
  case (1 s)
  show ?case
  proof (cases "length s < 48")
    case False
    then have "s \<noteq> []" "48 \<le> length s" by auto
    with 1 show ?thesis
      using pem_lines_step [of s] whole_lines_step [of s] by (subst pem_lines.simps) (simp add: add.commute)
  qed simp
qed

lemma pem_lines_append: "length a mod 48 = 0 \<Longrightarrow> pem_lines (a @ s) = pem_lines a @ pem_lines s"
proof (induction a rule: pem_lines.induct)
  case (1 a)
  show ?case
  proof (cases "a = []")
    case False
    with 1(2) have l: "48 \<le> length a" by (metis length_0_conv mod_less not_le)
    with 1 False have "pem_lines (drop 48 a @ s) = pem_lines (drop 48 a) @ pem_lines s"
      by (simp add: le_mod_geq)
    then show ?thesis using l False by (subst (1 2) pem_lines.simps) simp
  qed simp
qed

lemma length_pem_lines: "length (pem_lines (take (whole_lines s) s)) = 65 * (length s div 48)"
proof (induction s rule: pem_lines.induct)
  case (1 s)
  show ?case
  proof (cases "length s < 48")
    case False
    then have "s \<noteq> []" "48 \<le> length s" by auto
    with 1 show ?thesis using pem_lines_step [of s] by (simp add: length_b64 le_div_geq)
  qed simp
qed

lemma encode_update_loop_eq:
  assumes "tot + 65 * (length inp div 48) < 2 ^ 64"
  shows "encode_update_loop tot out inp =
    (True, tot + 65 * (length inp div 48), out @ pem_lines (take (whole_lines inp) inp), drop (whole_lines inp) inp)"
  using assms
proof (induction tot out inp rule: encode_update_loop.induct)
  case (1 tot out inp)
  show ?case
  proof (cases "length inp < 48")
    case True
    then show ?thesis by (simp add: encode_update_loop.simps)
  next
    case False
    then have l: "48 \<le> length inp" by simp
    then have d: "length inp div 48 = Suc (length (drop 48 inp) div 48)" by (simp add: le_div_geq)
    have e: "EVP_EncodeBlock inp 48 = (b64 (take 48 inp) @ [0], 64)"
      using EVP_EncodeBlock_eq [of 48 inp] l by (simp add: length_b64)
    have s: "size_t (tot + 64 + 1) = tot + 65" using 1(2) d by (simp add: size_t_id)
    have "encode_update_loop tot out inp = encode_update_loop (tot + 65) (out @ b64 (take 48 inp) @ [0x0a]) (drop 48 inp)"
      using False s by (subst encode_update_loop.simps) (simp add: e length_b64 Let_def)
    also have "\<dots> = (True, tot + 65 * (length inp div 48), out @ pem_lines (take (whole_lines inp) inp), drop (whole_lines inp) inp)"
      using 1(1) [OF False e [symmetric] refl] 1(2) s l d unfolding pem_lines_step [OF l]
      by (simp add: length_b64 Let_def whole_lines_step add.commute)
    finally show ?thesis .
  qed
qed

definition encoding :: "EVP_ENCODE_CTX \<Rightarrow> byte list \<Rightarrow> bool" where
  "encoding ctx pend = (data_used ctx = length pend \<and> length pend < 48 \<and> length (data ctx) = 48
     \<and> take (length pend) (data ctx) = pend)"

lemma encoding_store:
  assumes "length a + length s < 48" "length d = 48" "take (length a) d = a"
  shows "encoding (ctx\<lparr>data := mem_write d (length a) s, data_used := length (a @ s)\<rparr>) (a @ s)"
  using assms by (simp add: encoding_def take_mem_write_upto)

lemma EVP_EncodeUpdate_ok:
  assumes "encoding ctx pend" and "length inp \<le> 2 ^ 30"
  obtains ctx' out n where "EVP_EncodeUpdate ctx inp = (ctx', out, n)"
    and "take n out = pem_lines (take (whole_lines (pend @ inp)) (pend @ inp))"
    and "encoding ctx' (drop (whole_lines (pend @ inp)) (pend @ inp))"
proof -
  have c: "data_used ctx = length pend" "length pend < 48" "length (data ctx) = 48" "take (length pend) (data ctx) = pend"
    using assms(1) by (simp_all add: encoding_def)
  consider (empty) "inp = []" | (short) "inp \<noteq> []" "length (pend @ inp) < 48" | (long) "inp \<noteq> []" "48 \<le> length (pend @ inp)"
    by fastforce
  then show thesis
  proof cases
    case empty
    then show thesis using that [of ctx "[]" 0] assms(1) c by (simp add: EVP_EncodeUpdate_def)
  next
    case short
    then have "EVP_EncodeUpdate ctx inp = (ctx\<lparr>data := mem_write (data ctx) (length pend) inp, data_used := length (pend @ inp)\<rparr>, [], 0)"
      using c less_diff_conv [of "length inp" 48 "length pend"] by (simp add: EVP_EncodeUpdate_def add.commute)
    then show thesis using that short encoding_store [of pend inp "data ctx" ctx] c by simp
  next
    case long
    obtain ctx1 inp1 out1 where first: "(if data_used ctx \<noteq> 0 then
          let d = mem_write (data ctx) (data_used ctx) (take (48 - data_used ctx) inp); (dst, encoded) = EVP_EncodeBlock d 48
          in (ctx\<lparr>data := d, data_used := 0\<rparr>, drop (48 - data_used ctx) inp, take encoded dst @ [0x0a], encoded + 1)
        else (ctx, inp, [], 0)) = (ctx1, inp1, out1, length out1)"
      and c1: "length (data ctx1) = 48" and len1: "length out1 \<le> 65" "length inp1 \<le> length inp"
      and lines: "out1 @ pem_lines (take (whole_lines inp1) inp1) = pem_lines (take (whole_lines (pend @ inp)) (pend @ inp))"
      and rest: "drop (whole_lines inp1) inp1 = drop (whole_lines (pend @ inp)) (pend @ inp)"
    proof (cases "pend = []")
      case True
      then show thesis using that [of ctx inp "[]"] c by simp
    next
      case False
      obtain d where d: "d = mem_write (data ctx) (length pend) (take (48 - length pend) inp)" by blast
      have dl: "length d = 48" using long c by (simp add: d)
      have "take (length pend + length (take (48 - length pend) inp)) d = pend @ take (48 - length pend) inp"
        unfolding d using long c by (subst take_mem_write_upto) simp_all
      then have dd: "d = take 48 (pend @ inp)" using long c dl by (simp add: min_def split: if_splits)
      have e: "EVP_EncodeBlock d 48 = (b64 d @ [0], 64)" using EVP_EncodeBlock_eq [of 48 d] dl by (simp add: length_b64)
      have dr: "drop (48 - length pend) inp = drop 48 (pend @ inp)" using c(2) by simp
      show thesis
      proof (rule that [of "ctx\<lparr>data := d, data_used := 0\<rparr>" "drop 48 (pend @ inp)" "b64 d @ [0x0a]"])
        show "(b64 d @ [0x0a]) @ pem_lines (take (whole_lines (drop 48 (pend @ inp))) (drop 48 (pend @ inp)))
          = pem_lines (take (whole_lines (pend @ inp)) (pend @ inp))"
          unfolding pem_lines_step [OF long(2)] dd by simp
        show "(if data_used ctx \<noteq> 0 then
            let d = mem_write (data ctx) (data_used ctx) (take (48 - data_used ctx) inp); (dst, encoded) = EVP_EncodeBlock d 48
            in (ctx\<lparr>data := d, data_used := 0\<rparr>, drop (48 - data_used ctx) inp, take encoded dst @ [0x0a], encoded + 1)
          else (ctx, inp, [], 0)) = (ctx\<lparr>data := d, data_used := 0\<rparr>, drop 48 (pend @ inp), b64 d @ [0x0a], length (b64 d @ [0x0a]))"
          unfolding c(1) d [symmetric] Let_def e case_prod_conv dr using False dl by (simp add: length_b64)
        show "drop (whole_lines (drop 48 (pend @ inp))) (drop 48 (pend @ inp)) = drop (whole_lines (pend @ inp)) (pend @ inp)"
          unfolding whole_lines_step [OF long(2)] drop_drop by (simp only: add.commute)
        show "length (data (ctx\<lparr>data := d, data_used := 0\<rparr>)) = 48" using dl by simp
        show "length (b64 d @ [0x0a]) \<le> 65" using dl by (simp add: length_b64)
        show "length (drop 48 (pend @ inp)) \<le> length inp" using c(2) by simp
      qed
    qed
    obtain lines' where l': "lines' = pem_lines (take (whole_lines (pend @ inp)) (pend @ inp))" by blast
    have "65 * (length inp1 div 48) + 65 \<le> INT_MAX" using len1 assms(2) by (simp add: INT_MAX_def)
    then have "length out1 + 65 * (length inp1 div 48) < 2 ^ 64" "\<not> INT_MAX < length out1 + 65 * (length inp1 div 48)"
      using len1 by (simp_all add: INT_MAX_def)
    note fits = this
    have ll: "length lines' = length out1 + 65 * (length inp1 div 48)"
      unfolding l' lines [symmetric] by (simp add: length_pem_lines)
    obtain r where r: "r = drop (whole_lines (pend @ inp)) (pend @ inp)" by blast
    have rl: "length r < 48" unfolding r by (rule rest_short)
    note loop = encode_update_loop_eq [OF fits(1), of out1, unfolded lines rest, folded l' r]
    have ns: "\<not> length inp < 48 - data_used ctx" using long(2) c(1) by simp
    have "EVP_EncodeUpdate ctx inp = (ctx1\<lparr>data := (if r \<noteq> [] then mem_write (data ctx1) 0 r else data ctx1), data_used := length r\<rparr>,
        lines' @ [0], length lines')"
      unfolding EVP_EncodeUpdate_def Let_def first [unfolded Let_def] case_prod_conv loop using long(1) ns rl fits(2) by (simp add: ll)
    moreover have "encoding (ctx1\<lparr>data := (if r \<noteq> [] then mem_write (data ctx1) 0 r else data ctx1), data_used := length r\<rparr>) r"
      using encoding_store [of "[]" r "data ctx1" ctx1] rl c1 by (simp add: encoding_def)
    ultimately show thesis using that by (simp add: l' r)
  qed
qed

fun encode_stream :: "EVP_ENCODE_CTX \<Rightarrow> byte list list \<Rightarrow> byte list" where
  "encode_stream ctx [] = (case EVP_EncodeFinal ctx of (_, out, n) \<Rightarrow> take n out)"
| "encode_stream ctx (p # ps) = (case EVP_EncodeUpdate ctx p of (ctx1, out, n) \<Rightarrow> take n out @ encode_stream ctx1 ps)"

lemma encode_stream_from:
  assumes "encoding ctx pend" and "\<forall>p \<in> set ps. length p \<le> 2 ^ 30"
  shows "encode_stream ctx ps = pem_lines (pend @ concat ps)"
  using assms
proof (induction ps arbitrary: ctx pend)
  case Nil
  then have c: "data_used ctx = length pend" "length pend < 48" "length (data ctx) = 48" "take (length pend) (data ctx) = pend"
    by (simp_all add: encoding_def)
  show ?case
  proof (cases "pend = []")
    case True
    then show ?thesis using c by (simp add: EVP_EncodeFinal_def)
  next
    case False
    have "4 * ((length pend + 2) div 3) < 2 ^ 64" using c(2) by simp
    then have "EVP_EncodeBlock (data ctx) (length pend) = (b64 pend @ [0], length (b64 pend))"
      using EVP_EncodeBlock_eq [of "length pend" "data ctx"] c by (simp add: length_b64)
    moreover have "pem_lines pend = b64 pend @ [0x0a]" using False c(2) by (subst pem_lines.simps) simp
    ultimately show ?thesis using c False by (simp add: EVP_EncodeFinal_def)
  qed
next
  case (Cons p ps)
  obtain ctx' out n where u: "EVP_EncodeUpdate ctx p = (ctx', out, n)"
    "take n out = pem_lines (take (whole_lines (pend @ p)) (pend @ p))"
    "encoding ctx' (drop (whole_lines (pend @ p)) (pend @ p))"
    using EVP_EncodeUpdate_ok [OF Cons.prems(1), of p] Cons.prems(2) by auto
  obtain k where k: "k = whole_lines (pend @ p)" "k \<le> length (pend @ p)" "k mod 48 = 0"
    using whole_lines_le [of "pend @ p"] by (simp add: whole_lines_def)
  have "encode_stream ctx (p # ps) = pem_lines (take k (pend @ p)) @ pem_lines (drop k (pend @ p) @ concat ps)"
    using Cons.IH [OF u(3)] Cons.prems(2) u(1,2) by (simp add: k(1))
  also have "\<dots> = pem_lines (take k (pend @ p) @ drop k (pend @ p) @ concat ps)"
    by (rule pem_lines_append [symmetric]) (use k(2,3) in \<open>simp only: length_take min_absorb2\<close>)
  finally show ?case unfolding append_assoc [symmetric] append_take_drop_id by simp
qed

lemma encode_stream_eq:
  assumes "\<forall>p \<in> set ps. length p \<le> 2 ^ 30"
  shows "encode_stream (EVP_EncodeInit ctx) ps = pem_lines (concat ps)"
  using encode_stream_from [OF _ assms, of "EVP_EncodeInit ctx" "[]"]
  by (simp add: encoding_def EVP_EncodeInit_def EVP_CTX_zero_def)

lemma pem_lines_strip: "filter (\<lambda>c. \<not> is_space c) (pem_lines s) = b64 s"
proof (induction s rule: pem_lines.induct)
  case (1 s)
  have f: "filter (\<lambda>c. \<not> is_space c) (b64 x) = b64 x" for x by (rule filter_True) (simp add: b64_no_space)
  have nl: "is_space 0x0a" by (simp add: is_space_def)
  show ?case
  proof (cases "s = []")
    case False
    have "b64 s = b64 (take 48 s) @ b64 (drop 48 s)"
    proof (cases "length s \<le> 48")
      case False
      then have "length (take 48 s) mod 3 = 0" by simp
      from b64_append [OF this, of "drop 48 s"] show ?thesis by simp
    qed simp
    then show ?thesis using 1 [OF False] False by (subst pem_lines.simps) (simp add: f nl)
  qed simp
qed

lemma stream_round_trip:
  assumes "\<forall>p \<in> set ps. length p \<le> 2 ^ 30" and "\<forall>q \<in> set qs. length q \<le> 2 ^ 29"
    and "concat qs = encode_stream (EVP_EncodeInit c1) ps"
  shows "decode_stream (EVP_DecodeInit c2) qs = Some (concat ps)"
  using assms by (simp add: decode_stream_one_shot encode_stream_eq pem_lines_strip EVP_DecodeBase64_b64)

end
