(* ===== verification/Tls_Cbc.thy ===== *)
theory Tls_Cbc
  imports Constant_Time
begin

text \<open>
  \<open>crypto/cipher_extra/tls_cbc.c\<close>: the padding and the MAC of a CBC record of TLS, taken apart without
  branching on secret lengths. Lengths the code compares with the constant-time primitives are
  \<open>64 word\<close>s there; the loops count with natural numbers.
\<close>

subsection \<open>Removing the padding\<close>

text \<open>The result is \<open>out_padding_ok\<close> and \<open>out_len\<close>; \<open>None\<close> is the return value 0.\<close>

definition EVP_tls_cbc_remove_padding :: "byte list \<Rightarrow> nat \<Rightarrow> nat \<Rightarrow> nat \<Rightarrow> (64 word \<times> nat) option" where
  "EVP_tls_cbc_remove_padding inp in_len block_size mac_size =
    (let overhead = 1 + mac_size in
     if overhead > in_len then None
     else
       let padding_length = ucast (inp ! (in_len - 1)) :: 64 word;
           good = constant_time_ge_w (of_nat in_len) (of_nat overhead + padding_length);
           to_check = (if 256 > in_len then in_len else 256);
           good1 = foldl (\<lambda>good i.
               let mask = constant_time_ge_8 padding_length (of_nat i); b = inp ! (in_len - 1 - i)
               in good AND NOT (ucast mask AND (padding_length XOR ucast b))) good [0..<to_check];
           good2 = constant_time_eq_w 0xff (good1 AND 0xff);
           padding_length1 = good2 AND (padding_length + 1)
       in Some (good2, in_len - unat padding_length1))"

text \<open>The rule of TLS: the last byte is the number of padding bytes before it, which all have its value.\<close>

definition cbc_padding_ok :: "byte list \<Rightarrow> nat \<Rightarrow> bool" where
  "cbc_padding_ok bs mac_size \<longleftrightarrow> bs \<noteq> [] \<and>
    (\<exists>data. bs = data @ replicate (unat (last bs) + 1) (last bs) \<and> mac_size \<le> length data)"

lemma foldl_and_not: "foldl (\<lambda>g i. g AND NOT (f i)) (g :: 'a :: len word) xs = g AND foldl (\<lambda>g i. g AND NOT (f i)) (- 1) xs"
proof (induction xs arbitrary: g)
  case (Cons x xs)
  show ?case using Cons [of "g AND NOT (f x)"] Cons [of "- 1 AND NOT (f x)"] by (simp add: and.assoc)
qed simp

lemma low_byte_and_zero: "(ucast (mask_of p :: byte) AND (ucast c XOR ucast b) :: 64 word) = ucast (mask_of p AND (c XOR b) :: byte)"
  by (rule bit_word_eqI) (auto simp: bit_simps)

lemma and_ff_iff: "(w :: 64 word) AND 0xff = 0xff \<longleftrightarrow> (\<forall>n < 8. bit w n)"
proof -
  have "(0xff :: 64 word) = mask 8" by (simp add: mask_eq_exp_minus_1)
  then have "w AND 0xff = 0xff \<longleftrightarrow> (\<forall>n < 64. n < 8 \<longrightarrow> bit w n)" by (auto simp: bit_eq_iff bit_simps)
  also have "\<dots> \<longleftrightarrow> (\<forall>n < 8. bit w n)" by auto
  finally show ?thesis .
qed

lemma low_byte_fold:
  "foldl (\<lambda>g i. g AND NOT (ucast (f i :: byte) :: 64 word)) g xs AND 0xff = 0xff \<longleftrightarrow> g AND 0xff = 0xff \<and> (\<forall>i \<in> set xs. f i = 0)"
proof (induction xs arbitrary: g)
  case (Cons x xs)
  have "(g AND NOT (ucast (f x))) AND 0xff = 0xff \<longleftrightarrow> g AND 0xff = 0xff \<and> f x = 0"
    unfolding and_ff_iff by (auto simp: bit_simps bit_eq_iff)
  then show ?case by (simp add: Cons)
qed simp

lemma mask_of_low: "(mask_of p :: 64 word) AND 0xff = 0xff \<longleftrightarrow> p"
  by (simp add: mask_of_def)

lemma cbc_padding_ok_iff:
  assumes "mac_size < length bs"
  shows "cbc_padding_ok bs mac_size \<longleftrightarrow> unat (last bs) + 1 + mac_size \<le> length bs \<and> (\<forall>i \<le> unat (last bs). bs ! (length bs - 1 - i) = last bs)"
proof -
  let ?p = "unat (last bs)"
  have ne: "bs \<noteq> []" using assms by auto
  show ?thesis
  proof
    assume "cbc_padding_ok bs mac_size"
    then obtain data where d: "bs = data @ replicate (?p + 1) (last bs)" "mac_size \<le> length data" by (auto simp: cbc_padding_ok_def)
    then have len: "length bs = length data + (?p + 1)" by (metis length_append length_replicate)
    have "bs ! (length bs - 1 - i) = last bs" if "i \<le> ?p" for i
    proof -
      have "length bs - 1 - i = length data + (?p - i)" using that len by simp
      then show ?thesis using d(1) that by (metis nth_append_length_plus nth_replicate diff_le_self less_Suc_eq_le Suc_eq_plus1)
    qed
    then show "?p + 1 + mac_size \<le> length bs \<and> (\<forall>i \<le> ?p. bs ! (length bs - 1 - i) = last bs)" using d(2) len by simp
  next
    assume r: "?p + 1 + mac_size \<le> length bs \<and> (\<forall>i \<le> ?p. bs ! (length bs - 1 - i) = last bs)"
    let ?d = "length bs - (?p + 1)"
    have "drop ?d bs = replicate (?p + 1) (last bs)"
    proof (rule nth_equalityI)
      show "length (drop ?d bs) = length (replicate (?p + 1) (last bs))" using r by simp
      show "drop ?d bs ! k = replicate (?p + 1) (last bs) ! k" if "k < length (drop ?d bs)" for k
      proof -
        have k: "k \<le> ?p" "length bs - 1 - (?p - k) = ?d + k" using that r by auto
        then have "bs ! (?d + k) = last bs" using r by (metis diff_le_self)
        then show ?thesis using that k by (subst nth_replicate) simp_all
      qed
    qed
    then have "bs = take ?d bs @ replicate (?p + 1) (last bs)" by (metis append_take_drop_id)
    moreover have "mac_size \<le> length (take ?d bs)" using conjunct1 [OF r] by simp
    ultimately show "cbc_padding_ok bs mac_size" using ne unfolding cbc_padding_ok_def by blast
  qed
qed

lemma eval_pow: "(2 :: nat) ^ 63 = 9223372036854775808" "(2 :: nat) ^ 64 = 18446744073709551616"
  by simp_all

lemma remove_padding_eq:
  assumes "length bs < 2 ^ 63"
  shows "EVP_tls_cbc_remove_padding bs (length bs) block_size mac_size =
    (if mac_size + 1 > length bs then None
     else if cbc_padding_ok bs mac_size then Some (- 1, length bs - (unat (last bs) + 1))
     else Some (0, length bs))"
proof (cases "mac_size + 1 > length bs")
  case False
  then have mac: "mac_size < length bs" "bs \<noteq> []" by auto
  obtain c where c: "c = last bs" "c = bs ! (length bs - 1)" using mac(2) by (simp add: last_conv_nth)
  have un: "unat (of_nat (length bs) :: 64 word) = length bs" using assms by (intro unat_of_nat_lt) simp
  have uc: "unat (ucast c :: 64 word) = unat c" by (simp add: unsigned_ucast_eq take_bit_nat_eq_self unat_byte_lt [THEN less_trans])
  have ov: "unat (of_nat (1 + mac_size) + ucast c :: 64 word) = 1 + mac_size + unat c"
  proof -
    have o: "unat (of_nat (1 + mac_size) :: 64 word) = 1 + mac_size" using mac(1) assms by (intro unat_of_nat_lt) simp
    have "unat (of_nat (1 + mac_size) :: 64 word) + unat (ucast c :: 64 word) < 2 ^ 64" unfolding o uc using mac(1) assms unat_byte_lt [of c]
        unfolding eval_pow by linarith
    then show ?thesis using o uc by (subst unat_plus_if_size) (simp add: word_size)
  qed
  have ge: "constant_time_ge_w (of_nat (length bs)) (of_nat (1 + mac_size) + ucast c) = mask_of (1 + mac_size + unat c \<le> length bs)"
    unfolding constant_time_ge_w_eq word_le_nat_alt un ov ..
  have fold: "foldl (\<lambda>good i. let mask = constant_time_ge_8 (ucast c) (of_nat i); b = bs ! (length bs - 1 - i)
        in good AND NOT (ucast mask AND (ucast c XOR ucast b))) g [0..<n] AND 0xff = 0xff \<longleftrightarrow>
      g AND 0xff = 0xff \<and> (\<forall>i < n. i \<le> unat c \<longrightarrow> bs ! (length bs - 1 - i) = c)" if "n \<le> 256" for g :: "64 word" and n
  proof -
    have i: "(of_nat i :: 64 word) \<le> ucast c \<longleftrightarrow> i \<le> unat c" if "i < n" for i
      using that \<open>n \<le> 256\<close> by (simp add: word_le_nat_alt uc unat_of_nat_lt)
    show ?thesis
      unfolding Let_def constant_time_8_eq low_byte_and_zero low_byte_fold
      by (auto simp: i mask_of_def xor_eq_zero_iff)
  qed
  let ?ok = "1 + mac_size + unat c \<le> length bs \<and> (\<forall>i \<le> unat c. bs ! (length bs - 1 - i) = c)"
  have ok: "cbc_padding_ok bs mac_size \<longleftrightarrow> ?ok" using cbc_padding_ok_iff [OF mac(1)] by (simp add: c(1) ac_simps)
  have good: "foldl (\<lambda>good i. let mask = constant_time_ge_8 (ucast c) (of_nat i); b = bs ! (length bs - 1 - i)
        in good AND NOT (ucast mask AND (ucast c XOR ucast b))) (mask_of (1 + mac_size + unat c \<le> length bs) :: 64 word)
        [0..<if 256 > length bs then length bs else 256] AND 0xff = 0xff \<longleftrightarrow> ?ok"
  proof -
    have "i < (if 256 > length bs then length bs else 256)" if "i \<le> unat c" "1 + mac_size + unat c \<le> length bs" for i
    proof -
      have "i < 256" using that(1) unat_byte_lt [of c] by linarith
      then show ?thesis using that by simp
    qed
    then show ?thesis by (subst fold) (auto simp: mask_of_low)
  qed
  have out: "unat (ucast c + 1 :: 64 word) = unat c + 1"
  proof -
    have "unat (ucast c :: 64 word) + unat (1 :: 64 word) < 2 ^ 64" using unat_byte_lt [of c] unfolding uc eval_pow unsigned_1 by linarith
    then show ?thesis by (subst unat_plus_if_size) (simp add: word_size uc)
  qed
  obtain w where w: "w = foldl (\<lambda>good i. let mask = constant_time_ge_8 (ucast c) (of_nat i); b = bs ! (length bs - 1 - i)
        in good AND NOT (ucast mask AND (ucast c XOR ucast b))) (mask_of (1 + mac_size + unat c \<le> length bs) :: 64 word)
        [0..<if 256 > length bs then length bs else 256]" by blast
  have "EVP_tls_cbc_remove_padding bs (length bs) block_size mac_size =
     (let good2 = constant_time_eq_w 0xff (w AND 0xff) in Some (good2, length bs - unat (good2 AND (ucast c + 1))))"
    unfolding EVP_tls_cbc_remove_padding_def c(2) [symmetric] using False by (simp only: Let_def ge w not_less if_False add.commute [of mac_size]) simp
  also have "constant_time_eq_w 0xff (w AND 0xff) = mask_of (cbc_padding_ok bs mac_size)"
  proof -
    have "0xff = w AND 0xff \<longleftrightarrow> cbc_padding_ok bs mac_size" unfolding ok w by (subst good [symmetric]) (rule eq_commute)
    then show ?thesis by (simp only: constant_time_eq_w_eq)
  qed
  finally show ?thesis using False out by (simp add: mask_of_def c(1))
qed (simp add: EVP_tls_cbc_remove_padding_def)

subsection \<open>Copying the MAC\<close>

text \<open>
  The scan over the bytes in which the MAC may lie: the state is the index \<open>j\<close> into \<open>rotated_mac\<close>,
  \<open>mac_started\<close>, \<open>rotated_mac\<close> and \<open>rotate_offset\<close>.
\<close>

definition copy_mac_step :: "byte list \<Rightarrow> nat \<Rightarrow> nat \<Rightarrow> nat \<Rightarrow> nat \<times> byte \<times> byte list \<times> 64 word \<Rightarrow> nat \<Rightarrow> nat \<times> byte \<times> byte list \<times> 64 word" where
  "copy_mac_step inp md_size mac_start mac_end st i = (case st of (j0, mac_started0, rotated_mac, rotate_offset) \<Rightarrow>
     let j = (if j0 \<ge> md_size then j0 - md_size else j0);
         is_mac_start = constant_time_eq_w (of_nat i) (of_nat mac_start);
         mac_started = mac_started0 OR ucast is_mac_start;
         mac_ended = constant_time_ge_8 (of_nat i) (of_nat mac_end)
     in (j + 1, mac_started, rotated_mac[j := rotated_mac ! j OR (inp ! i AND mac_started AND NOT mac_ended)],
         rotate_offset OR (of_nat j AND is_mac_start)))"

text \<open>The rotation, one bit of \<open>rotate_offset\<close> at a time; \<open>offset\<close> is \<open>2 ^ k\<close>.\<close>

function copy_mac_rotate :: "nat \<Rightarrow> nat \<Rightarrow> 64 word \<Rightarrow> byte list \<Rightarrow> byte list" where
  "copy_mac_rotate md_size k rotate_offset rotated_mac =
    (if 2 ^ k < md_size then
       let offset = 2 ^ k; skip_rotate = ucast ((rotate_offset AND 1) - 1)
       in copy_mac_rotate md_size (k + 1) (drop_bit 1 rotate_offset)
           (map (\<lambda>i. let j = (if offset + i \<ge> md_size then offset + i - md_size else offset + i)
                  in constant_time_select_8 skip_rotate (rotated_mac ! i) (rotated_mac ! j)) [0..<md_size])
     else rotated_mac)"
  by pat_completeness auto
termination
  by (relation "measure (\<lambda>(md_size, k, _, _). md_size - k)") (auto intro: less_trans [OF less_exp] diff_less_mono2)

declare copy_mac_rotate.simps [simp del]

definition EVP_MAX_MD_SIZE :: nat where
  "EVP_MAX_MD_SIZE = 64"

definition EVP_tls_cbc_copy_mac :: "nat \<Rightarrow> byte list \<Rightarrow> nat \<Rightarrow> nat \<Rightarrow> byte list option" where
  "EVP_tls_cbc_copy_mac md_size inp in_len orig_len =
    (let mac_end = in_len; mac_start = mac_end - md_size in
     if \<not> (orig_len \<ge> in_len \<and> in_len \<ge> md_size \<and> md_size \<le> EVP_MAX_MD_SIZE) then None
     else
       let scan_start = (if orig_len > md_size + 255 + 1 then orig_len - (md_size + 255 + 1) else 0)
       in (case foldl (copy_mac_step inp md_size mac_start mac_end) (0, 0, replicate md_size 0, 0) [scan_start..<orig_len] of
             (_, _, rotated_mac, rotate_offset) \<Rightarrow> Some (copy_mac_rotate md_size 0 rotate_offset rotated_mac)))"

subsection \<open>The scan\<close>

definition scanned :: "byte list \<Rightarrow> nat \<Rightarrow> nat \<Rightarrow> nat \<Rightarrow> nat \<Rightarrow> nat \<times> byte \<times> byte list \<times> 64 word \<Rightarrow> bool" where
  "scanned inp md s0 ms n st \<longleftrightarrow> (case st of (j, started, rot, ro) \<Rightarrow>
     j \<le> md \<and> j mod md = n mod md \<and> started = mask_of (ms < s0 + n) \<and> length rot = md
     \<and> (\<forall>k < md. rot ! ((ms - s0 + k) mod md) = (if ms + k < s0 + n then inp ! (ms + k) else 0))
     \<and> ro = (if ms < s0 + n then of_nat ((ms - s0) mod md) else 0))"

lemma distinct_residues:
  assumes "(a + k) mod md = (a + l) mod md" and "k < md" and "l < (md :: nat)"
  shows "k = l"
proof -
  have "x = y" if "(a + x) mod md = (a + y) mod md" "y \<le> x" "x < md" for x y
  proof -
    have "md dvd (a + x) - (a + y)" using that(1,2) by (subst mod_eq_dvd_iff_nat [symmetric]) simp_all
    moreover have "(a + x) - (a + y) = x - y" "x - y < md" using that(3) by simp_all
    ultimately show ?thesis using that(2) by (auto dest: dvd_imp_le)
  qed
  from this [of k l] this [of l k] assms show ?thesis by (metis linear)
qed

lemma scanned_step:
  assumes "scanned inp md s0 ms n st" and "0 < md" and "s0 \<le> ms" and "s0 + n < 2 ^ 64" and "ms + md < 2 ^ 64"
  shows "scanned inp md s0 ms (Suc n) (copy_mac_step inp md ms (ms + md) st (s0 + n))"
proof -
  obtain j started rot ro where st: "st = (j, started, rot, ro)" by (cases st)
  have inv: "j \<le> md" "j mod md = n mod md" "started = mask_of (ms < s0 + n)" "length rot = md"
    "\<And>k. k < md \<Longrightarrow> rot ! ((ms - s0 + k) mod md) = (if ms + k < s0 + n then inp ! (ms + k) else 0)"
    "ro = (if ms < s0 + n then of_nat ((ms - s0) mod md) else 0)"
    using assms(1) by (simp_all add: scanned_def st)
  have j: "(if j \<ge> md then j - md else j) = n mod md"
    using inv(1,2) assms(2) by (cases "j = md") auto
  have start: "constant_time_eq_w (of_nat (s0 + n)) (of_nat ms) = mask_of (s0 + n = ms)"
    using assms(4,5) by (simp add: constant_time_eq_w_eq word_unat_eq_iff unat_of_nat_lt del: of_nat_add)
  have ended: "constant_time_ge_8 (of_nat (s0 + n)) (of_nat (ms + md)) = mask_of (ms + md \<le> s0 + n)"
    using assms(4,5) by (simp add: constant_time_8_eq word_le_nat_alt unat_of_nat_lt del: of_nat_add)
  let ?i = "n mod md" and ?in = "ms \<le> s0 + n \<and> s0 + n < ms + md"
  have unfolded: "copy_mac_step inp md ms (ms + md) st (s0 + n) =
      (?i + 1, mask_of (ms < s0 + Suc n), (if ?in then rot[?i := rot ! ?i OR inp ! (s0 + n)] else rot),
       (if ms < s0 + Suc n then of_nat ((ms - s0) mod md) else 0))"
  proof -
    have "(mask_of (ms < s0 + n) OR ucast (mask_of (s0 + n = ms) :: 64 word) :: byte) = mask_of (ms < s0 + Suc n)"
      by (auto simp: ucast_mask_of) (auto simp: mask_of_def)
    moreover have "rot ! ?i OR (inp ! (s0 + n) AND mask_of (ms < s0 + Suc n) AND NOT (mask_of (ms + md \<le> s0 + n))) =
        (if ?in then rot ! ?i OR inp ! (s0 + n) else rot ! ?i)"
      by (auto simp: mask_of_def)
    moreover have "(if ms < s0 + n then of_nat ((ms - s0) mod md) else 0 :: 64 word) OR (of_nat ?i AND mask_of (s0 + n = ms)) =
        (if ms < s0 + Suc n then of_nat ((ms - s0) mod md) else 0)"
    proof -
      have "?i = (ms - s0) mod md" if "s0 + n = ms" using that by auto
      then show ?thesis by (auto simp: mask_of_def)
    qed
    ultimately show ?thesis
      by (simp only: copy_mac_step_def st prod.case j Let_def start ended inv(3,6)) simp
  qed
  have index: "(ms - s0 + k) mod md = ?i \<longleftrightarrow> ms + k = s0 + n" if k: "k < md" and w: "?in" for k
  proof -
    obtain k0 where k0: "s0 + n = ms + k0" "k0 < md" using w by (metis le_Suc_ex add_less_cancel_left)
    then have "n = ms - s0 + k0" using assms(3) by simp
    then have "(ms - s0 + k) mod md = ?i \<longleftrightarrow> k = k0"
      using k k0(2) assms(2) by (auto simp: mod_add_cong) (metis distinct_residues)
    then show ?thesis using k0(1) by simp
  qed
  have "(if ?in then rot[?i := rot ! ?i OR inp ! (s0 + n)] else rot) ! ((ms - s0 + k) mod md) =
      (if ms + k < s0 + Suc n then inp ! (ms + k) else 0)" if "k < md" for k
  proof (cases "ms + k = s0 + n")
    case True
    then have "?in" using that by simp
    moreover from this have "(ms - s0 + k) mod md = ?i" using index [OF that] True by simp
    moreover have "rot ! ?i = 0" using inv(5) [OF that] True calculation(2) by simp
    ultimately show ?thesis using True assms(2) inv(4) by simp
  next
    case False
    then have "ms + k < s0 + Suc n \<longleftrightarrow> ms + k < s0 + n" by auto
    then have "rot ! ((ms - s0 + k) mod md) = (if ms + k < s0 + Suc n then inp ! (ms + k) else 0)" using inv(5) [OF that] by simp
    moreover have "(if ?in then rot[?i := rot ! ?i OR inp ! (s0 + n)] else rot) ! ((ms - s0 + k) mod md) = rot ! ((ms - s0 + k) mod md)"
      using index [OF that] False by auto
    ultimately show ?thesis by (rule trans [rotated])
  qed
  then show ?thesis unfolding unfolded scanned_def
    using assms(2) inv(4) by (simp add: mod_Suc Suc_le_eq)
qed

lemma scanned_run:
  assumes "0 < md" and "s0 \<le> ms" and "s0 + n < 2 ^ 64" and "ms + md < 2 ^ 64"
  shows "scanned inp md s0 ms n (foldl (copy_mac_step inp md ms (ms + md)) (0, 0, replicate md 0, 0) [s0..<s0 + n])"
  using assms(3)
proof (induction n)
  case 0
  then show ?case using assms(1,2) by (simp add: scanned_def mask_of_def)
next
  case (Suc n)
  then have "scanned inp md s0 ms n (foldl (copy_mac_step inp md ms (ms + md)) (0, 0, replicate md 0, 0) [s0..<s0 + n])" by simp
  from scanned_step [OF this assms(1,2) _ assms(4)] Suc.prems show ?case by simp
qed

subsection \<open>The rotation\<close>

lemma rotate_step:
  fixes ro :: "64 word"
  assumes "length rot = md" and "offset < md"
  shows "map (\<lambda>i. let j = (if offset + i \<ge> md then offset + i - md else offset + i)
      in constant_time_select_8 (ucast ((ro AND 1) - 1)) (rot ! i) (rot ! j)) [0..<md] = rotate (if bit ro 0 then offset else 0) rot"
proof -
  have skip: "ucast ((ro AND 1) - 1 :: 64 word) = (mask_of (\<not> bit ro 0) :: byte)"
  proof (cases "bit ro 0")
    case True
    then have "ro AND 1 = 1" by (simp add: and_one_eq odd_iff_mod_2_eq_one bit_0)
    then show ?thesis using True by (simp add: mask_of_def)
  next
    case False
    then have "ro AND 1 = 0" by (simp add: and_one_eq even_iff_mod_2_eq_zero bit_0)
    then show ?thesis using False ucast_mask_of [of True, where 'a = 64 and 'b = 8] by (simp add: mask_of_def)
  qed
  show ?thesis
    using assms by (intro nth_equalityI) (auto simp: Let_def skip constant_time_select_8_eq nth_rotate mod_if)
qed

lemma copy_mac_rotate_eq:
  "length rot = md \<Longrightarrow> unat ro * 2 ^ k < md \<Longrightarrow> copy_mac_rotate md k ro rot = rotate (unat ro * 2 ^ k) rot"
proof (induction md k ro rot rule: copy_mac_rotate.induct)
  case (1 md k ro rot)
  show ?case
  proof (cases "2 ^ k < md")
    case True
    have half: "unat (drop_bit 1 ro) = unat ro div 2" by (simp add: unat_drop_bit)
    have split: "unat ro * 2 ^ k = (unat ro div 2) * 2 ^ (k + 1) + (if bit ro 0 then 2 ^ k else 0)"
    proof -
      have "unat ro = (unat ro div 2) * 2 + (if bit ro 0 then 1 else 0)"
      proof -
        have "u = u div 2 * 2 + (if odd u then 1 else 0)" for u :: nat by presburger
        from this [of "unat ro"] show ?thesis by (simp add: bit_unat_iff)
      qed
      then have "unat ro * 2 ^ k = ((unat ro div 2) * 2 + (if bit ro 0 then 1 else 0)) * 2 ^ k" by (rule arg_cong)
      then show ?thesis by (simp add: algebra_simps)
    qed
    have "copy_mac_rotate md k ro rot = copy_mac_rotate md (k + 1) (drop_bit 1 ro) (rotate (if bit ro 0 then 2 ^ k else 0) rot)"
      using True "1.prems"(1) rotate_step [OF "1.prems"(1) True, of ro] by (subst copy_mac_rotate.simps) (simp add: Let_def)
    also have "\<dots> = rotate ((unat ro div 2) * 2 ^ (k + 1)) (rotate (if bit ro 0 then 2 ^ k else 0) rot)"
    proof -
      have "unat (drop_bit 1 ro) * 2 ^ (k + 1) < md" unfolding half using "1.prems"(2) split by linarith
      from "1.IH" [OF True refl refl _ this] show ?thesis
        using "1.prems"(1) rotate_step [OF "1.prems"(1) True, of ro] by (simp add: half [simplified] Let_def)
    qed
    also have "\<dots> = rotate (unat ro * 2 ^ k) rot" by (simp add: rotate_rotate split)
    finally show ?thesis .
  next
    case False
    then have "unat ro = 0" using "1.prems"(2) by (cases "unat ro") auto
    then show ?thesis using False by (subst copy_mac_rotate.simps) simp
  qed
qed

text \<open>The MAC is found wherever it ends, as long as at most 256 bytes of padding follow it.\<close>

lemma copy_mac_eq:
  assumes "orig_len < 2 ^ 63" and "in_len \<le> orig_len" and "md_size \<le> in_len" and "orig_len \<le> in_len + 256" and "0 < md_size" and "md_size \<le> 64"
    and "in_len \<le> length inp"
  shows "EVP_tls_cbc_copy_mac md_size inp in_len orig_len = Some (take md_size (drop (in_len - md_size) inp))"
proof -
  obtain s0 ms where s0: "s0 = (if orig_len > md_size + 255 + 1 then orig_len - (md_size + 255 + 1) else 0)" and ms: "ms = in_len - md_size" by blast
  have le: "s0 \<le> ms" "s0 \<le> orig_len" "ms + md_size = in_len" using assms by (auto simp: s0 ms)
  have big: "s0 + (orig_len - s0) < 2 ^ 64" "ms + md_size < 2 ^ 64"
  proof -
    have "in_len < 2 ^ 64" "orig_len < 2 ^ 64" using assms(1,2) unfolding eval_pow by linarith+
    then show "s0 + (orig_len - s0) < 2 ^ 64" "ms + md_size < 2 ^ 64" using le by simp_all
  qed
  have "scanned inp md_size s0 ms (orig_len - s0) (foldl (copy_mac_step inp md_size ms (ms + md_size)) (0, 0, replicate md_size 0, 0) [s0..<s0 + (orig_len - s0)])"
    by (rule scanned_run [OF assms(5) le(1) big])
  moreover obtain j started rot ro where f: "foldl (copy_mac_step inp md_size ms (ms + md_size)) (0, 0, replicate md_size 0, 0) [s0..<s0 + (orig_len - s0)] = (j, started, rot, ro)"
    by (metis prod_cases4)
  moreover have "s0 + (orig_len - s0) = orig_len" "ms < orig_len" using le assms(2,5) by simp_all
  ultimately have rot: "length rot = md_size" "\<And>k. k < md_size \<Longrightarrow> rot ! ((ms - s0 + k) mod md_size) = inp ! (ms + k)"
    and ro: "ro = of_nat ((ms - s0) mod md_size)"
    using le(3) assms(2) by (auto simp: scanned_def)
  have "(ms - s0) mod md_size < md_size" using assms(5) by simp
  then have uro: "unat ro = (ms - s0) mod md_size" unfolding ro using assms(6) by (intro unat_of_nat_lt) (simp add: eval_pow)
  have "copy_mac_rotate md_size 0 ro rot = rotate (unat ro) rot"
    using copy_mac_rotate_eq [OF rot(1), of ro 0] uro assms(5) by simp
  also have "\<dots> = take md_size (drop ms inp)"
    using rot assms(5,7) le(3) by (intro nth_equalityI) (simp_all add: nth_rotate uro mod_simps)
  finally have "copy_mac_rotate md_size 0 ro rot = take md_size (drop ms inp)" .
  then show ?thesis
    using assms(2,3,6) f le(2,3) unfolding EVP_tls_cbc_copy_mac_def Let_def s0 [symmetric] ms [symmetric]
    by (simp add: EVP_MAX_MD_SIZE_def)
qed

subsection \<open>The digest of a record\<close>

text \<open>
  The hash functions stand behind function pointers: \<open>h0\<close> is the state after \<open>Init\<close>, \<open>transform\<close>
  consumes one block, \<open>final_raw\<close> serialises the state, and \<open>digest\<close> is \<open>EVP_DigestInit_ex\<close>,
  \<open>EVP_DigestUpdate\<close> and \<open>EVP_DigestFinal\<close> on a whole message (\<open>None\<close> when the initialisation fails).
\<close>

datatype tls_md = NID_sha1 | NID_sha256 | NID_sha384 | Other_md

definition EVP_tls_cbc_record_digest_supported :: "tls_md \<Rightarrow> bool" where
  "EVP_tls_cbc_record_digest_supported md = (case md of Other_md \<Rightarrow> False | _ \<Rightarrow> True)"

text \<open>\<open>md_size\<close>, \<open>md_block_shift\<close> and \<open>md_length_size\<close> as the \<open>switch\<close> sets them.\<close>

definition tls_md_params :: "tls_md \<Rightarrow> (nat \<times> nat \<times> nat) option" where
  "tls_md_params md = (case md of NID_sha1 \<Rightarrow> Some (20, 6, 8) | NID_sha256 \<Rightarrow> Some (32, 6, 8) | NID_sha384 \<Rightarrow> Some (48, 7, 16) | Other_md \<Rightarrow> None)"

definition kHeaderLength :: nat where
  "kHeaderLength = 13"

text \<open>Byte \<open>j\<close> of block \<open>i\<close>, at the offset \<open>k\<close> of header and data.\<close>

definition digest_block_byte ::
  "nat \<Rightarrow> nat \<Rightarrow> nat \<Rightarrow> nat \<Rightarrow> nat \<Rightarrow> byte list \<Rightarrow> byte list \<Rightarrow> byte list \<Rightarrow> nat \<Rightarrow> nat \<Rightarrow> nat \<Rightarrow> nat \<Rightarrow> byte" where
  "digest_block_byte md_block_size md_length_size c index_a index_b header data length_bytes record_size i k j =
    (let is_block_a = constant_time_eq_8 (of_nat i) (of_nat index_a);
         is_block_b = constant_time_eq_8 (of_nat i) (of_nat index_b);
         b0 = (if k < kHeaderLength then header ! k else if k < record_size + kHeaderLength then data ! (k - kHeaderLength) else 0);
         is_past_c = is_block_a AND constant_time_ge_8 (of_nat j) (of_nat c);
         is_past_cp1 = is_block_a AND constant_time_ge_8 (of_nat j) (of_nat (c + 1));
         b1 = constant_time_select_8 is_past_c 0x80 b0;
         b2 = b1 AND NOT is_past_cp1;
         b3 = b2 AND (NOT is_block_b OR is_block_a)
     in if j \<ge> md_block_size - md_length_size
        then constant_time_select_8 is_block_b (length_bytes ! (j - (md_block_size - md_length_size))) b3
        else b3)"

text \<open>One round of the loop over the last blocks: \<open>k\<close>, the hash state and \<open>mac_out\<close>.\<close>

definition digest_block_step ::
  "('s \<Rightarrow> byte list \<Rightarrow> 's) \<Rightarrow> ('s \<Rightarrow> byte list) \<Rightarrow> nat \<Rightarrow> nat \<Rightarrow> (nat \<Rightarrow> nat \<Rightarrow> nat \<Rightarrow> byte) \<Rightarrow> nat \<Rightarrow> nat \<times> 's \<times> byte list \<Rightarrow> nat \<Rightarrow> nat \<times> 's \<times> byte list" where
  "digest_block_step transform final_raw md_size md_block_size block_byte index_b st i = (case st of (k, md_state, mac_out) \<Rightarrow>
     let is_block_b = constant_time_eq_8 (of_nat i) (of_nat index_b);
         block = map (\<lambda>j. block_byte i (k + j) j) [0..<md_block_size];
         md_state1 = transform md_state block;
         block1 = mem_write block 0 (final_raw md_state1)
     in (k + md_block_size, md_state1, map (\<lambda>j. mac_out ! j OR (block1 ! j AND is_block_b)) [0..<md_size]))"

text \<open>The result \<open>None\<close> is a failed assertion, \<open>Some None\<close> the return value 0.\<close>

definition EVP_tls_cbc_digest_record ::
  "tls_md \<Rightarrow> 's \<Rightarrow> ('s \<Rightarrow> byte list \<Rightarrow> 's) \<Rightarrow> ('s \<Rightarrow> byte list) \<Rightarrow> (byte list \<Rightarrow> byte list option) \<Rightarrow> byte list \<Rightarrow> byte list \<Rightarrow> nat \<Rightarrow> nat \<Rightarrow> byte list
    \<Rightarrow> byte list option option" where
  "EVP_tls_cbc_digest_record md h0 transform final_raw digest header data data_plus_mac_size record_size mac_secret =
    (if record_size \<ge> 1024 * 1024 then None
     else case tls_md_params md of
       None \<Rightarrow> None
     | Some (md_size, md_block_shift, md_length_size) \<Rightarrow>
       if \<not> length mac_secret \<le> 128 then None
       else let
         md_block_size = 2 ^ md_block_shift;
         kVarianceBlocks = (255 + 1 + md_size + md_block_size - 1) div md_block_size + 1;
         len = record_size + kHeaderLength;
         max_mac_bytes = len - md_size - 1;
         num_blocks = (max_mac_bytes + 1 + md_length_size + md_block_size - 1) div md_block_size;
         mac_end_offset = data_plus_mac_size + kHeaderLength - md_size;
         c = mac_end_offset AND (md_block_size - 1);
         index_a = drop_bit md_block_shift mac_end_offset;
         index_b = drop_bit md_block_shift (mac_end_offset + md_length_size);
         num_starting_blocks = (if num_blocks > kVarianceBlocks then num_blocks - kVarianceBlocks else 0);
         k = md_block_size * num_starting_blocks;
         bits = 8 * mac_end_offset + 8 * md_block_size;
         hmac_pad = map (\<lambda>i. (if i < length mac_secret then mac_secret ! i else 0) XOR 0x36) [0..<md_block_size];
         st0 = transform h0 hmac_pad;
         length_bytes = replicate (md_length_size - 4) 0 @ map (\<lambda>s. of_nat (bits div 2 ^ s)) [24, 16, 8, 0];
         st1 = (if k > 0 then
                  foldl (\<lambda>st i. transform st (take md_block_size (drop (md_block_size * i - 13) data)))
                    (transform st0 (take 13 header @ take (md_block_size - 13) data)) [1..<k div md_block_size]
                else st0);
         (_, _, mac_out) = foldl
           (digest_block_step transform final_raw md_size md_block_size
             (digest_block_byte md_block_size md_length_size c index_a index_b header data length_bytes record_size) index_b)
           (k, st1, replicate md_size 0) [num_starting_blocks..<num_starting_blocks + kVarianceBlocks + 1];
         hmac_pad2 = map (\<lambda>x. x XOR 0x6a) hmac_pad
       in Some (digest (hmac_pad2 @ mac_out)))"

subsection \<open>HMAC\<close>

text \<open>
  The specification: HMAC with a key of at most one block, over a hash that pads its input with \<open>0x80\<close>,
  zeros and the number of bits in \<open>ls\<close> bytes.
\<close>

definition md_padded :: "nat \<Rightarrow> nat \<Rightarrow> nat \<Rightarrow> byte list \<Rightarrow> byte list" where
  "md_padded bs ls before msg =
    msg @ 0x80 # replicate (((length msg + ls) div bs + 1) * bs - (length msg + 1 + ls)) 0 @ be_bytes ls (8 * (before + length msg))"

definition md_blocks :: "nat \<Rightarrow> byte list \<Rightarrow> byte list list" where
  "md_blocks bs p = map (\<lambda>i. take bs (drop (bs * i) p)) [0..<length p div bs]"

definition hmac_key :: "nat \<Rightarrow> byte \<Rightarrow> byte list \<Rightarrow> byte list" where
  "hmac_key bs x key = map (\<lambda>b. b XOR x) (key @ replicate (bs - length key) 0)"

definition hmac :: "nat \<Rightarrow> nat \<Rightarrow> nat \<Rightarrow> 's \<Rightarrow> ('s \<Rightarrow> byte list \<Rightarrow> 's) \<Rightarrow> ('s \<Rightarrow> byte list) \<Rightarrow> (byte list \<Rightarrow> byte list option) \<Rightarrow> byte list \<Rightarrow> byte list \<Rightarrow> byte list option" where
  "hmac md_size bs ls h0 transform final_raw digest key msg =
    digest (hmac_key bs 0x5c key @ take md_size (final_raw (foldl transform h0 (hmac_key bs 0x36 key # md_blocks bs (md_padded bs ls bs msg)))))"

lemma padded_size:
  assumes "0 < bs"
  shows "n + ls < ((n + ls) div bs + 1) * (bs :: nat)"
  using dividend_less_times_div [OF assms, of "n + ls"] by (simp add: algebra_simps)

lemma length_md_padded:
  assumes "0 < bs"
  shows "length (md_padded bs ls before msg) = ((length msg + ls) div bs + 1) * bs"
  using padded_size [OF assms, of "length msg" ls] by (simp add: md_padded_def)

lemma nth_md_padded:
  assumes "0 < bs" and "p < ((length msg + ls) div bs + 1) * bs"
  shows "md_padded bs ls before msg ! p =
    (if p < length msg then msg ! p else if p = length msg then 0x80
     else if p < ((length msg + ls) div bs + 1) * bs - ls then 0
     else be_bytes ls (8 * (before + length msg)) ! (p - (((length msg + ls) div bs + 1) * bs - ls)))"
proof -
  obtain e v where e: "e = ((length msg + ls) div bs + 1) * bs" "length msg + ls < e" and v: "v = be_bytes ls (8 * (before + length msg))"
    using padded_size [OF assms(1)] by blast
  obtain z where z: "z = e - (length msg + 1 + ls)" by blast
  have P: "md_padded bs ls before msg = msg @ 0x80 # replicate z 0 @ v" by (simp only: md_padded_def e(1) v z)
  consider "p < length msg" | "p = length msg" | "length msg < p" "p < e - ls" | "e - ls \<le> p" "p < e"
    using assms(2) e by linarith
  then show ?thesis
    unfolding P e(1) [symmetric] v [symmetric]
  proof cases
    case 3
    then have "p - length msg - 1 < z" unfolding z by linarith
    then show "(msg @ 0x80 # replicate z 0 @ v) ! p = (if p < length msg then msg ! p else if p = length msg then 0x80 else if p < e - ls then 0 else v ! (p - (e - ls)))"
      using 3 by (simp add: nth_append nth_Cons')
  next
    case 4
    have "\<not> p < length msg" "p \<noteq> length msg" "\<not> p < e - ls" using 4 e(2) by linarith+
    moreover have "\<not> p - length msg - 1 < z" "p - length msg - 1 - z = p - (e - ls)"
      unfolding z using 4 e(2) by linarith+
    ultimately show "(msg @ 0x80 # replicate z 0 @ v) ! p = (if p < length msg then msg ! p else if p = length msg then 0x80 else if p < e - ls then 0 else v ! (p - (e - ls)))"
      by (simp add: nth_append nth_Cons')
  qed (simp_all add: nth_append)
qed

lemma select_8 [simp]: "constant_time_select_8 0 a b = b" "constant_time_select_8 (- 1) a b = a"
  using constant_time_select_8_eq [of False a b] constant_time_select_8_eq [of True a b] by (simp_all add: mask_of_def)

lemma mask_of_bool [simp]: "mask_of False = 0" "mask_of True = - 1"
  by (simp_all add: mask_of_def)

lemma mask_of_8 [simp]: "mask_of p AND mask_of q = (mask_of (p \<and> q) :: byte)" "NOT (mask_of p) = (mask_of (\<not> p) :: byte)"
  "mask_of p OR mask_of q = (mask_of (p \<or> q) :: byte)" "b AND mask_of p = (if p then b else 0 :: byte)"
  by (auto simp: mask_of_def)

lemma ct_eq_8: "m < 2 ^ 64 \<Longrightarrow> n < 2 ^ 64 \<Longrightarrow> constant_time_eq_8 (of_nat m) (of_nat n) = mask_of (m = n)"
  by (simp add: constant_time_8_eq word_unat_eq_iff unat_of_nat_lt)

lemma ct_ge_8: "m < 2 ^ 64 \<Longrightarrow> n < 2 ^ 64 \<Longrightarrow> constant_time_ge_8 (of_nat m) (of_nat n) = mask_of (n \<le> m)"
  by (simp add: constant_time_8_eq word_le_nat_alt unat_of_nat_lt)

lemma digest_block_byte_branches:
  assumes "i < 2 ^ 64" "index_a < 2 ^ 64" "index_b < 2 ^ 64" "j < 2 ^ 64" "c + 1 < 2 ^ 64"
  shows "digest_block_byte bs ls c index_a index_b header data length_bytes n i k j =
    (if i = index_b \<and> j \<ge> bs - ls then length_bytes ! (j - (bs - ls))
     else if i = index_b \<and> i \<noteq> index_a then 0
     else if i = index_a \<and> j > c then 0
     else if i = index_a \<and> j = c then 0x80
     else if k < kHeaderLength then header ! k else if k < n + kHeaderLength then data ! (k - kHeaderLength) else 0)"
  using assms unfolding digest_block_byte_def Let_def
  by (simp add: ct_eq_8 ct_ge_8 constant_time_select_8_eq del: of_nat_Suc)

text \<open>Inside the message and its padding, the byte computed by masks is the byte of the padded message.\<close>

lemma digest_block_byte_eq:
  assumes bs: "0 < bs" "ls \<le> bs" "bs \<le> 128" and len: "length header = 13" "n \<le> length data" and off: "13 \<le> off" "off \<le> n + 13" "n < 2 ^ 20"
    and i: "i \<le> (off + ls) div bs" and j: "j < bs"
    and lb: "length_bytes = be_bytes ls (8 * (bs + off))"
  shows "digest_block_byte bs ls (off mod bs) (off div bs) ((off + ls) div bs) header data length_bytes n i (bs * i + j) j =
    md_padded bs ls bs (take off (header @ data)) ! (bs * i + j)"
proof -
  let ?a = "off div bs" and ?b = "(off + ls) div bs" and ?c = "off mod bs" and ?p = "bs * i + j"
  have msg: "length (take off (header @ data)) = off" using len off by simp
  have ab: "?a \<le> ?b" "?b \<le> ?a + 1"
  proof -
    show "?a \<le> ?b" by (intro div_le_mono) simp
    have "?b \<le> (off + bs) div bs" using bs(2) by (intro div_le_mono) simp
    then show "?b \<le> ?a + 1" using bs(1) div_add_self2 [of bs off] by simp
  qed
  have offc: "off = bs * ?a + ?c" "?c < bs" using bs(1) by simp_all
  obtain e where e: "e = (?b + 1) * bs" "off + ls < e" using padded_size [OF bs(1)] by blast
  obtain p where p: "p = bs * i + j" by blast
  have pe: "p < e"
  proof -
    have "bs * i + j < bs * (i + 1)" using j by simp
    also have "\<dots> \<le> bs * (?b + 1)" using i by (intro mult_le_mono2) simp
    finally show ?thesis unfolding p e(1) by (simp only: mult.commute)
  qed
  have before: "p < bs * m" if "i < m" for m
  proof -
    have "bs * i + j < bs * (i + 1)" using j by simp
    also have "\<dots> \<le> bs * m" using that by (intro mult_le_mono2) simp
    finally show ?thesis unfolding p .
  qed
  have lt_a: "p < off" if "i < ?a" using before [OF that] offc(1) by linarith
  have at_a: "p = off - ?c + j" if "i = ?a" using offc(1) unfolding p that by (metis add_diff_cancel_right')
  have gt_a: "off < p" if "?a < i"
  proof -
    have "bs * (?a + 1) = bs * ?a + bs" by simp
    then have "off < bs * (?a + 1)" using offc by linarith
    also have "\<dots> \<le> bs * i" using that by (intro mult_le_mono2) simp
    finally show ?thesis unfolding p by simp
  qed
  have e': "e = bs * ?b + bs" by (simp add: e(1) mult.commute)
  have lt_b: "p < e - ls" if "i < ?b" using before [OF that] e' bs(2) by linarith
  have at_b: "p = e - bs + j" if "i = ?b" using that e' unfolding p by simp
  have data: "take off (header @ data) ! p = (if p < kHeaderLength then header ! p else if p < n + kHeaderLength then data ! (p - kHeaderLength) else 0)"
    if "p < off" using that len off by (simp add: nth_append kHeaderLength_def)
  have rhs: "md_padded bs ls bs (take off (header @ data)) ! p =
      (if p < off then take off (header @ data) ! p else if p = off then 0x80 else if p < e - ls then 0 else length_bytes ! (p - (e - ls)))"
    using nth_md_padded [OF bs(1), of p "take off (header @ data)" ls bs] pe unfolding msg e(1) [symmetric] lb by simp
  have small: "i < 2 ^ 64" "?a < 2 ^ 64" "?b < 2 ^ 64" "j < 2 ^ 64" "?c + 1 < 2 ^ 64"
  proof -
    have "off + ls < 2 ^ 64" using off(2,3) bs(2,3) unfolding eval_pow by simp
    then show b: "?b < 2 ^ 64" by (rule le_less_trans [OF div_le_dividend])
    show "i < 2 ^ 64" "?a < 2 ^ 64" using b i ab by linarith+
    show "j < 2 ^ 64" "?c + 1 < 2 ^ 64" using j bs(3) offc(2) unfolding eval_pow by linarith+
  qed
  have lhs: "digest_block_byte bs ls ?c ?a ?b header data length_bytes n i p j =
    (if i = ?b \<and> j \<ge> bs - ls then length_bytes ! (j - (bs - ls))
     else if i = ?b \<and> i \<noteq> ?a then 0 else if i = ?a \<and> j > ?c then 0 else if i = ?a \<and> j = ?c then 0x80
     else if p < kHeaderLength then header ! p else if p < n + kHeaderLength then data ! (p - kHeaderLength) else 0)"
    by (rule digest_block_byte_branches [OF small])
  consider "i = ?b" "j \<ge> bs - ls" | "i = ?b" "i \<noteq> ?a" "j < bs - ls" | "i = ?a" "i = ?b \<longrightarrow> j < bs - ls" | "i < ?a" "i < ?b"
    using i ab by linarith
  then have "digest_block_byte bs ls ?c ?a ?b header data length_bytes n i p j = md_padded bs ls bs (take off (header @ data)) ! p"
  proof cases
    case 1
    then have "\<not> p < off" "p \<noteq> off" "\<not> p < e - ls" "p - (e - ls) = j - (bs - ls)" using at_b e(2) e' bs(2) by linarith+
    then show ?thesis unfolding lhs rhs using 1 by simp
  next
    case 2
    then have "off < p" "p < e - ls" using gt_a at_b e' ab(1) by linarith+
    then show ?thesis unfolding lhs rhs using 2 by simp
  next
    case 3
    have "p < e - ls" if "\<not> j < ?c"
    proof (cases "i = ?b")
      case True
      then show ?thesis using 3 at_b e' by linarith
    next
      case False
      then show ?thesis using lt_b 3(1) ab(1) by simp
    qed
    moreover have "p < off \<longleftrightarrow> j < ?c" "p = off \<longleftrightarrow> j = ?c" using at_a [OF 3(1)] offc(1) by linarith+
    ultimately show ?thesis unfolding lhs rhs using 3 data by (auto simp: not_less)
  next
    case 4
    then have "p < off" using lt_a by simp
    then show ?thesis unfolding lhs rhs using 4 data by simp
  qed
  then show ?thesis unfolding p .
qed

lemma digest_loop:
  fixes transform :: "'s \<Rightarrow> byte list \<Rightarrow> 's"
  assumes g: "\<And>i j. i \<le> b \<Longrightarrow> j < bs \<Longrightarrow> g i (bs * i + j) j = p ! (bs * i + j)" and p: "length p = (b + 1) * bs"
    and raw: "\<And>st. md_size \<le> length (final_raw st)" and small: "b < 2 ^ 64" and s: "s \<le> b"
  shows "s + m < 2 ^ 64 \<Longrightarrow> \<exists>st'. foldl (digest_block_step transform final_raw md_size bs g b)
      (bs * s, foldl transform st0 (map (\<lambda>i. take bs (drop (bs * i) p)) [0..<s]), replicate md_size 0) [s..<s + m] =
    (bs * (s + m), st', if b < s + m then take md_size (final_raw (foldl transform st0 (map (\<lambda>i. take bs (drop (bs * i) p)) [0..<b + 1]))) else replicate md_size 0)
    \<and> (s + m \<le> b + 1 \<longrightarrow> st' = foldl transform st0 (map (\<lambda>i. take bs (drop (bs * i) p)) [0..<s + m]))"
proof (induction m)
  case 0
  then show ?case using s by simp
next
  case (Suc m)
  let ?blk = "\<lambda>i. take bs (drop (bs * i) p)" and ?i = "s + m"
  let ?fin = "take md_size (final_raw (foldl transform st0 (map ?blk [0..<b + 1])))"
  obtain st' where IH: "foldl (digest_block_step transform final_raw md_size bs g b)
      (bs * s, foldl transform st0 (map ?blk [0..<s]), replicate md_size 0) [s..<?i] = (bs * ?i, st', if b < ?i then ?fin else replicate md_size 0)"
    "?i \<le> b + 1 \<longrightarrow> st' = foldl transform st0 (map ?blk [0..<?i])" using Suc by auto
  let ?block = "map (\<lambda>j. g ?i (bs * ?i + j) j) [0..<bs]"
  have block: "?block = ?blk ?i" if "?i \<le> b"
  proof -
    have "bs * ?i + bs \<le> length p" unfolding p using mult_le_mono2 [of "?i + 1" "b + 1" bs] that by (simp add: mult.commute)
    then show ?thesis using g [OF that] by (intro nth_equalityI) simp_all
  qed
  have eq: "constant_time_eq_8 (of_nat ?i) (of_nat b) = mask_of (?i = b)"
    using ct_eq_8 [of ?i b] small Suc.prems by simp
  have nth: "mem_write ?block 0 (final_raw st) ! j = final_raw st ! j" if "j < md_size" for st j
    using that raw [of st] by (simp add: mem_write_def nth_append)
  have step: "digest_block_step transform final_raw md_size bs g b (bs * ?i, st', mac) ?i =
      (bs * (s + Suc m), transform st' ?block, map (\<lambda>j. mac ! j OR (if ?i = b then final_raw (transform st' ?block) ! j else 0)) [0..<md_size])" for mac
    unfolding digest_block_step_def prod.case Let_def eq using nth by (auto simp: mask_of_def)
  have mac: "map (\<lambda>j. (if b < ?i then ?fin else replicate md_size 0) ! j OR (if ?i = b then final_raw (transform st' ?block) ! j else 0)) [0..<md_size] =
      (if b < s + Suc m then ?fin else replicate md_size 0)"
  proof (cases "?i = b")
    case True
    then have "transform st' ?block = foldl transform st0 (map ?blk [0..<b + 1])" using IH(2) block by simp
    then show ?thesis using True raw by (intro nth_equalityI) simp_all
  next
    case False
    then show ?thesis using raw by (intro nth_equalityI) auto
  qed
  have "transform st' ?block = foldl transform st0 (map ?blk [0..<s + Suc m])" if "s + Suc m \<le> b + 1"
    using that IH(2) block by simp
  then show ?case using IH(1) by (simp add: step mac [simplified])
qed

lemma be_bytes_of_bits:
  assumes "v < 2 ^ 32" and "4 \<le> ls"
  shows "replicate (ls - 4) 0 @ map (\<lambda>s. of_nat (v div 2 ^ s)) [24, 16, 8, 0] = be_bytes ls v"
proof (rule be_bytes_of_value [symmetric])
  show "length (replicate (ls - 4) 0 @ map (\<lambda>s. of_nat (v div 2 ^ s)) [24, 16, 8, 0]) = ls" using assms(2) by simp
  have zeros: "be_value (replicate n 0 @ bs) = be_value bs" for n bs by (induction n) (simp_all add: be_value_Cons)
  have u: "unat (of_nat n :: byte) = n mod 256" for n :: nat by (simp add: unat_of_nat take_bit_eq_mod)
  obtain v1 v2 v3 where w: "v1 = v div 256" "v2 = v1 div 256" "v3 = v2 div 256" by blast
  have d: "v div 2 ^ 8 = v1" "v div 2 ^ 16 = v2" "v div 2 ^ 24 = v3" by (simp_all add: w div_mult2_eq [symmetric])
  have v3: "v3 mod 256 = v3" using assms(1) unfolding d(3) [symmetric] by (intro mod_less less_mult_imp_div_less) simp
  have "((v3 * 256 + v2 mod 256) * 256 + v1 mod 256) * 256 + v mod 256 = v" by (simp only: w div_mult_mod_eq)
  then have "be_value (map (\<lambda>s. of_nat (v div 2 ^ s)) [24, 16, 8, 0]) = v"
    by (simp only: list.map d be_value_def be_value_acc.simps u v3) simp
  then show "be_value (replicate (ls - 4) 0 @ map (\<lambda>s. of_nat (v div 2 ^ s)) [24, 16, 8, 0]) = v" unfolding zeros .
qed

text \<open>The blocks hashed before the loop contain only data that no padding can reach.\<close>

lemma block_of_data:
  assumes "0 < bs" and "i < length msg div bs"
  shows "take bs (drop (bs * i) (md_padded bs ls before msg)) = take bs (drop (bs * i) msg)"
proof -
  have "bs * i + bs \<le> bs * (length msg div bs)" using mult_le_mono2 [of "i + 1" "length msg div bs" bs] assms(2) by simp
  also have "\<dots> \<le> length msg" by simp
  finally show ?thesis by (simp add: md_padded_def)
qed

text \<open>Which blocks are hashed before the loop, and that the loop covers the rest.\<close>

lemma variance_blocks:
  fixes n dm bs :: nat
  assumes bs: "0 < bs" and mac: "md_size \<le> dm" "dm \<le> n" "n \<le> dm + 256" and ls: "ls \<le> md_size"
    and v: "v = (255 + 1 + md_size + bs - 1) div bs + 1"
    and nb: "nb = (n + 13 - md_size - 1 + 1 + ls + bs - 1) div bs"
    and s: "s = (if nb > v then nb - v else 0)" and off: "off = dm + 13 - md_size"
  shows "s \<le> off div bs" and "(off + ls) div bs < s + v + 1"
proof -
  have nb': "nb = (n + 13 - md_size + ls + bs - 1) div bs" unfolding nb using mac by (simp add: ac_simps)
  have "nb * bs \<le> n + 13 - md_size + ls + bs - 1" unfolding nb' by (rule div_times_less_eq_dividend)
  moreover have "256 + md_size + bs \<le> v * bs"
  proof -
    have "256 + md_size + bs - 1 < ((256 + md_size + bs - 1) div bs + 1) * bs"
      using dividend_less_times_div [OF bs, of "256 + md_size + bs - 1"] by (simp add: algebra_simps)
    then show ?thesis using bs by (simp add: v)
  qed
  ultimately have "(nb - v) * bs \<le> off" using mac ls by (simp add: diff_mult_distrib off)
  then show "s \<le> off div bs" using bs by (simp add: s less_eq_div_iff_mult_less_eq)
  have "(off + ls) div bs \<le> nb" unfolding nb' off using mac bs by (intro div_le_mono) simp
  then show "(off + ls) div bs < s + v + 1" by (simp add: s)
qed

lemma hmac_key_map:
  assumes "length key \<le> bs"
  shows "map (\<lambda>i. (if i < length key then key ! i else 0) XOR x) [0..<bs] = hmac_key bs x key"
  using assms by (intro nth_equalityI) (simp_all add: hmac_key_def nth_append)

lemma starting_blocks:
  assumes bs: "13 \<le> bs" and h: "length header = 13" and k: "k = bs * s" and s: "s \<le> length msg div bs"
    and msg: "msg = take off (header @ data)" and off: "off \<le> length data + 13"
  shows "(if k > 0 then
      foldl (\<lambda>st i. transform st (take bs (drop (bs * i - 13) data))) (transform st0 (take 13 header @ take (bs - 13) data)) [1..<k div bs]
    else st0) = foldl transform st0 (map (\<lambda>i. take bs (drop (bs * i) (md_padded bs ls before msg))) [0..<s])"
proof (cases "s = 0")
  case False
  have blk: "take bs (drop (bs * i) (md_padded bs ls before msg)) = (if i = 0 then header @ take (bs - 13) data else take bs (drop (bs * i - 13) data))"
    if "i < s" for i
  proof -
    have "i < length msg div bs" using that s by simp
    moreover have "bs * i + bs \<le> length msg"
    proof -
      have "bs * i + bs \<le> bs * (length msg div bs)" using mult_le_mono2 [of "i + 1" "length msg div bs" bs] calculation by simp
      also have "\<dots> \<le> length msg" by simp
      finally show ?thesis .
    qed
    moreover have "13 \<le> bs * i" if "i \<noteq> 0" using that bs by (cases i) auto
    moreover have "take bs (drop (bs * i) msg) = take bs (drop (bs * i) (header @ data))"
    proof -
      have "bs * i + bs \<le> off" using calculation(2) by (simp add: msg)
      then have "take bs (drop (bs * i) (take off xs)) = take bs (drop (bs * i) xs)" for xs :: "byte list"
        by (simp add: drop_take)
      then show ?thesis unfolding msg .
    qed
    ultimately show ?thesis using bs h by (simp add: block_of_data)
  qed
  have "[0..<s] = 0 # [1..<s]" using False by (simp add: upt_conv_Cons)
  then have "map (\<lambda>i. take bs (drop (bs * i) (md_padded bs ls before msg))) [0..<s] =
      (header @ take (bs - 13) data) # map (\<lambda>i. take bs (drop (bs * i - 13) data)) [1..<s]"
    using False blk [of 0] blk by simp
  then show ?thesis using False bs h by (simp add: k foldl_map)
qed (simp add: k)

text \<open>The digest of a record is the HMAC of the header and the data before the MAC.\<close>

lemma digest_record_eq:
  assumes md: "tls_md_params md = Some (md_size, shift, ls)"
    and n: "n < 2 ^ 20" "n \<le> length data" "md_size \<le> dm" "dm \<le> n" "n \<le> dm + 256"
    and h: "length header = 13" and key: "length key \<le> 2 ^ shift" and raw: "\<And>st. md_size \<le> length (final_raw st)"
  shows "EVP_tls_cbc_digest_record md h0 transform final_raw digest header data dm n key =
    Some (hmac md_size (2 ^ shift) ls h0 transform final_raw digest key (header @ take (dm - md_size) data))"
proof -
  obtain bs where bs: "bs = (2 :: nat) ^ shift" by blast
  have p: "0 < bs" "13 \<le> bs" "ls \<le> bs" "bs \<le> 128" "ls \<le> md_size" "4 \<le> ls" "ls \<le> 16" "md_size \<le> 48"
    using md by (auto simp: tls_md_params_def bs split: tls_md.splits)
  obtain off where off: "off = dm + 13 - md_size" by blast
  obtain v nb s where v: "v = (255 + 1 + md_size + bs - 1) div bs + 1"
    and nb: "nb = (n + 13 - md_size - 1 + 1 + ls + bs - 1) div bs" and s: "s = (if nb > v then nb - v else 0)" by blast
  note var = variance_blocks [OF p(1) n(3-5) p(5) v nb s off]
  obtain msg where msg: "msg = take off (header @ data)" by blast
  have msg': "msg = header @ take (dm - md_size) data" "length msg = off" using n h by (simp_all add: msg off)
  have offs: "13 \<le> off" "off \<le> n + 13" using n by (simp_all add: off)
  let ?P = "md_padded bs ls bs msg" and ?b = "(off + ls) div bs"
  let ?blk = "\<lambda>i. take bs (drop (bs * i) ?P)"
  let ?bits = "8 * off + 8 * bs"
  obtain lb where lb: "lb = be_bytes ls ?bits" by blast
  have lb': "replicate (ls - 4) 0 @ map (\<lambda>s. of_nat (?bits div 2 ^ s)) [24, 16, 8, 0] = lb"
    unfolding lb using offs n(1) p(4,6) by (intro be_bytes_of_bits) simp_all
  obtain st0 where st0: "st0 = transform h0 (hmac_key bs 0x36 key)" by blast
  obtain g where g: "g = digest_block_byte bs ls (off mod bs) (off div bs) ?b header data lb n" by blast
  have len: "length ?P = (?b + 1) * bs" using length_md_padded [OF p(1), of ls bs msg] by (simp add: msg'(2))
  have start: "(if bs * s > 0 then
      foldl (\<lambda>st i. transform st (take bs (drop (bs * i - 13) data))) (transform st0 (take 13 header @ take (bs - 13) data)) [1..<bs * s div bs]
    else st0) = foldl transform st0 (map ?blk [0..<s])"
    using var(1) msg'(2) offs(2) n(2) by (intro starting_blocks [OF p(2) h refl _ msg]) simp_all
  have small: "?b < 2 ^ 64" "s + (v + 1) < 2 ^ 64"
  proof -
    have e: "(2 :: nat) ^ 20 = 1048576" by simp
    have "?b \<le> off + ls" "off div bs \<le> off" "(255 + 1 + md_size + bs - 1) div bs \<le> 255 + 1 + md_size + bs - 1" by (rule div_le_dividend)+
    then show "?b < 2 ^ 64" "s + (v + 1) < 2 ^ 64" using var(1) offs(2) n(1) p(4,7,8) unfolding v eval_pow e by linarith+
  qed
  have sb: "s \<le> ?b" using var(1) div_le_mono [of off "off + ls" bs] by simp
  have loop: "\<exists>st'. foldl (digest_block_step transform final_raw md_size bs g ?b)
      (bs * s, foldl transform st0 (map ?blk [0..<s]), replicate md_size 0) [s..<s + (v + 1)] =
    (bs * (s + (v + 1)), st', take md_size (final_raw (foldl transform st0 (map ?blk [0..<?b + 1]))))"
  proof -
    have bytes: "g i (bs * i + j) j = ?P ! (bs * i + j)" if "i \<le> ?b" "j < bs" for i j
      unfolding g msg using that p h n offs by (intro digest_block_byte_eq) (simp_all add: lb algebra_simps)
    show ?thesis
      using digest_loop [where g = g and b = ?b and bs = bs and p = ?P and md_size = md_size and final_raw = final_raw and transform = transform
          and s = s and m = "v + 1" and ?st0.0 = st0, OF bytes len raw small(1) sb small(2)] var(2) by auto
  qed
  have blocks: "md_blocks bs ?P = map ?blk [0..<?b + 1]" using p(1) by (simp add: md_blocks_def len)
  have pad: "map (\<lambda>x. x XOR 0x6a) (hmac_key bs 0x36 key) = hmac_key bs 0x5c key"
  proof -
    have "(b XOR 0x36) XOR 0x6a = b XOR 0x5c" for b :: byte
    proof -
      have "(b XOR 0x36) XOR 0x6a = b XOR (0x36 XOR 0x6a)" by (rule xor.assoc)
      also have "(0x36 XOR 0x6a :: byte) = 0x5c" by simp
      finally show ?thesis .
    qed
    then show ?thesis by (simp add: hmac_key_def)
  qed
  obtain st' where loop': "foldl (digest_block_step transform final_raw md_size bs g ?b)
      (bs * s, foldl transform st0 (map ?blk [0..<s]), replicate md_size 0) [s..<s + (v + 1)] =
    (bs * (s + (v + 1)), st', take md_size (final_raw (foldl transform st0 (map ?blk [0..<?b + 1]))))" using loop by blast
  have masks: "off AND (bs - 1) = off mod bs" "drop_bit shift off = off div bs" "drop_bit shift (off + ls) = ?b"
  proof -
    have "off AND mask shift = off mod 2 ^ shift" by (simp only: take_bit_eq_mask [symmetric] take_bit_eq_mod)
    then show "off AND (bs - 1) = off mod bs" by (simp only: bs mask_eq_exp_minus_1)
  qed (simp_all only: bs drop_bit_eq_div)
  have big: "\<not> n \<ge> 1024 * 1024" "\<not> \<not> length key \<le> 128" using n(1) key p(4) bs by simp_all
  have k0: "map (\<lambda>i. (if i < length key then key ! i else 0) XOR 0x36) [0..<bs] = hmac_key bs 0x36 key"
    using key by (intro hmac_key_map) (simp add: bs)
  have "EVP_tls_cbc_digest_record md h0 transform final_raw digest header data dm n key =
      Some (digest (hmac_key bs 0x5c key @ take md_size (final_raw (foldl transform st0 (map ?blk [0..<?b + 1])))))"
    unfolding EVP_tls_cbc_digest_record_def md Let_def
    by (simp only: big kHeaderLength_def bs [symmetric] off [symmetric] v [symmetric] nb [symmetric] s [symmetric] masks k0 st0 [symmetric] lb' g [symmetric]
        start loop' [unfolded add.assoc [symmetric]] pad if_False if_True option.case prod.case)
  then show ?thesis by (simp only: hmac_def bs [symmetric] msg'(1) [symmetric] blocks foldl.simps st0 [symmetric])
qed

end
