(* ===== verification/Modes.thy ===== *)
theory Modes
  imports Mem
begin

text \<open>
  The stream modes of a block cipher (\<open>ctr.c\<close>, \<open>ofb.c\<close> and \<open>cfb.c\<close> of \<open>crypto/fipsmodule/modes\<close>).
  The cipher with its key, \<open>(*block)(in, out, key)\<close>, is a parameter \<open>block\<close> from 16 bytes to 16 bytes.
  The theory has the loops of the modes, a machine that takes one byte at a time and that the loops
  compute (a locale, interpreted on each mode), the keystream of CTR, and the variant of CTR that
  calls a stream function with a 32-bit counter.
\<close>

subsection \<open>Words\<close>

text \<open>Eight bytes as a little-endian word.\<close>

definition load_word_le :: "byte list \<Rightarrow> 64 word" where
  "load_word_le bs = foldr (\<lambda>b w. push_bit 8 w OR ucast b) bs 0"

definition store_word_le :: "64 word \<Rightarrow> byte list" where
  "store_word_le v = map (\<lambda>i. ucast (drop_bit (8 * i) v)) [0..<8]"

definition xor_bytes :: "byte list \<Rightarrow> byte list \<Rightarrow> byte list" where
  "xor_bytes xs ys = map2 (XOR) xs ys"

lemma length_xor_bytes [simp]: "length (xor_bytes xs ys) = min (length xs) (length ys)"
  by (simp add: xor_bytes_def)

lemma nth_xor_bytes [simp]: "i < length xs \<Longrightarrow> i < length ys \<Longrightarrow> xor_bytes xs ys ! i = xs ! i XOR ys ! i"
  by (simp add: xor_bytes_def)

lemma bit_load_word_le: "length bs \<le> 8 \<Longrightarrow> bit (load_word_le bs) n \<longleftrightarrow> n div 8 < length bs \<and> bit (bs ! (n div 8)) (n mod 8)"
proof (induction bs arbitrary: n)
  case Nil
  then show ?case by (simp add: load_word_le_def)
next
  case (Cons b bs)
  have "bit (load_word_le (b # bs)) n \<longleftrightarrow> 8 \<le> n \<and> n < 64 \<and> bit (load_word_le bs) (n - 8) \<or> n < 8 \<and> bit b n"
    by (auto simp: load_word_le_def bit_simps not_le dest: bit_imp_le_length)
  also have "\<dots> \<longleftrightarrow> n div 8 < length (b # bs) \<and> bit ((b # bs) ! (n div 8)) (n mod 8)"
  proof (cases "n < 8")
    case False
    then obtain m where m: "n = m + 8" by (metis add.commute le_Suc_ex not_less)
    have lt: "m div 8 < length bs \<Longrightarrow> n < 64" using Cons.prems by (simp add: m)
    have "bit (load_word_le bs) m \<longleftrightarrow> m div 8 < length bs \<and> bit (bs ! (m div 8)) (m mod 8)" using Cons by simp
    moreover have "n div 8 = Suc (m div 8)" "n mod 8 = m mod 8" by (simp_all add: m)
    ultimately show ?thesis using lt by (simp only: m) auto
  qed simp
  finally show ?case .
qed

lemma store_word_eqI:
  assumes "length c = 8" and "\<And>i k. i < 8 \<Longrightarrow> k < 8 \<Longrightarrow> bit w (8 * i + k) \<longleftrightarrow> bit (c ! i) k"
  shows "store_word_le w = c"
proof (rule nth_equalityI)
  fix i assume "i < length (store_word_le w)"
  then show "store_word_le w ! i = c ! i"
    using assms by (intro bit_word_eqI) (simp add: store_word_le_def bit_simps)
qed (simp add: store_word_le_def assms(1))

lemma bit_load_byte: "length a = 8 \<Longrightarrow> i < 8 \<Longrightarrow> k < 8 \<Longrightarrow> bit (load_word_le a) (8 * i + k) \<longleftrightarrow> bit (a ! i) k"
  by (simp add: bit_load_word_le)

lemma store_xor_load:
  assumes "length a = 8" and "length b = 8"
  shows "store_word_le (load_word_le a XOR load_word_le b) = xor_bytes a b"
  using assms by (intro store_word_eqI) (simp_all add: bit_simps bit_load_byte)

lemma store_load: "length a = 8 \<Longrightarrow> store_word_le (load_word_le a) = a"
  by (intro store_word_eqI) (simp_all add: bit_load_byte)

text \<open>The loop over the two words of a block.\<close>

definition xor_block_words :: "byte list \<Rightarrow> byte list \<Rightarrow> byte list" where
  "xor_block_words a b = concat (map (\<lambda>n. store_word_le (load_word_le (take 8 (drop n a)) XOR load_word_le (take 8 (drop n b)))) [0, 8])"

lemma xor_block_words_eq:
  assumes "length a = 16" and "length b = 16"
  shows "xor_block_words a b = xor_bytes a b"
proof -
  have "xor_block_words a b = xor_bytes (take 8 a) (take 8 b) @ xor_bytes (take 8 (drop 8 a)) (take 8 (drop 8 b))"
    using assms by (simp add: xor_block_words_def store_xor_load)
  also have "\<dots> = xor_bytes a b" using assms by (intro nth_equalityI) (auto simp: nth_append)
  finally show ?thesis .
qed

subsection \<open>The loops of the stream modes\<close>

text \<open>
  CTR, OFB and CFB have the same three loops: bytes until the current block is used up (\<open>n\<close> is the
  position in it), whole blocks, and the bytes of a last partial block. They differ in how a new block
  is made (\<open>refill\<close>), in what is done to a byte at position \<open>n\<close> (\<open>byte_op\<close>) and to a whole block
  (\<open>block_op\<close>). Every byte of the output is written after the byte of the input at its place was read,
  so \<open>in\<close> and \<open>out\<close> may be the same buffer. A result is the output, the state and \<open>*num\<close>.
\<close>

fun mode_head :: "(nat \<Rightarrow> 's \<Rightarrow> byte \<Rightarrow> byte \<times> 's) \<Rightarrow> byte list \<Rightarrow> nat \<Rightarrow> 's \<Rightarrow> byte list \<times> byte list \<times> nat \<times> 's" where
  "mode_head byte_op [] n s = ([], [], n, s)"
| "mode_head byte_op (b # bs) n s =
    (if n \<noteq> 0 then
       (case byte_op n s b of (c, s1) \<Rightarrow> case mode_head byte_op bs ((n + 1) mod 16) s1 of (out, rest, n2, s2) \<Rightarrow> (c # out, rest, n2, s2))
     else ([], b # bs, n, s))"

function mode_blocks :: "('s \<Rightarrow> 's) \<Rightarrow> (byte list \<Rightarrow> 's \<Rightarrow> byte list \<times> 's) \<Rightarrow> byte list \<Rightarrow> nat \<Rightarrow> 's \<Rightarrow> byte list \<times> byte list \<times> nat \<times> 's" where
  "mode_blocks refill block_op bs n s =
    (if 16 \<le> length bs then
       (case block_op (take 16 bs) (refill s) of (o1, s1) \<Rightarrow>
          case mode_blocks refill block_op (drop 16 bs) 0 s1 of (out, rest, n2, s2) \<Rightarrow> (o1 @ out, rest, n2, s2))
     else ([], bs, n, s))"
  by pat_completeness auto
termination
  by (relation "measure (\<lambda>(_, _, bs, _, _). length bs)") auto

declare mode_blocks.simps [simp del]

fun mode_bytes :: "(nat \<Rightarrow> 's \<Rightarrow> byte \<Rightarrow> byte \<times> 's) \<Rightarrow> byte list \<Rightarrow> nat \<Rightarrow> 's \<Rightarrow> byte list \<times> nat \<times> 's" where
  "mode_bytes byte_op [] n s = ([], n, s)"
| "mode_bytes byte_op (b # bs) n s =
    (case byte_op n s b of (c, s1) \<Rightarrow> case mode_bytes byte_op bs (n + 1) s1 of (out, n2, s2) \<Rightarrow> (c # out, n2, s2))"

definition mode_loops :: "('s \<Rightarrow> 's) \<Rightarrow> (nat \<Rightarrow> 's \<Rightarrow> byte \<Rightarrow> byte \<times> 's) \<Rightarrow> (byte list \<Rightarrow> 's \<Rightarrow> byte list \<times> 's) \<Rightarrow>
    byte list \<Rightarrow> nat \<Rightarrow> 's \<Rightarrow> byte list \<times> nat \<times> 's" where
  "mode_loops refill byte_op block_op bs n s =
    (case mode_head byte_op bs n s of (out1, bs1, n1, s1) \<Rightarrow>
     case mode_blocks refill block_op bs1 n1 s1 of (out2, bs2, n2, s2) \<Rightarrow>
     if bs2 \<noteq> [] then (case mode_bytes byte_op bs2 n2 (refill s2) of (out3, n3, s3) \<Rightarrow> (out1 @ out2 @ out3, n3, s3))
     else (out1 @ out2, n2, s2))"

text \<open>CTR: the state is \<open>ivec\<close> and \<open>ecount_buf\<close>.\<close>

primrec ctr_inc_loop :: "nat \<Rightarrow> 32 word \<Rightarrow> byte list \<Rightarrow> byte list" where
  "ctr_inc_loop 0 c counter = counter"
| "ctr_inc_loop (Suc n) c counter =
    (let c1 = c + ucast (counter ! n) in ctr_inc_loop n (drop_bit 8 c1) (counter[n := ucast c1]))"

definition ctr128_inc :: "byte list \<Rightarrow> byte list" where
  "ctr128_inc counter = ctr_inc_loop 16 1 counter"

definition ctr96_inc :: "byte list \<Rightarrow> byte list" where
  "ctr96_inc counter = ctr_inc_loop 12 1 counter"

definition CRYPTO_ctr128_encrypt :: "(byte list \<Rightarrow> byte list) \<Rightarrow> byte list \<Rightarrow> nat \<Rightarrow> byte list \<times> byte list \<Rightarrow> byte list \<times> nat \<times> byte list \<times> byte list" where
  "CRYPTO_ctr128_encrypt block = mode_loops
     (\<lambda>(ivec, ecount_buf). (ctr128_inc ivec, block ivec))
     (\<lambda>n (ivec, ecount_buf) b. (b XOR ecount_buf ! n, ivec, ecount_buf))
     (\<lambda>bs (ivec, ecount_buf). (xor_block_words bs ecount_buf, ivec, ecount_buf))"

text \<open>OFB: the state is \<open>ivec\<close>.\<close>

definition CRYPTO_ofb128_encrypt :: "(byte list \<Rightarrow> byte list) \<Rightarrow> byte list \<Rightarrow> nat \<Rightarrow> byte list \<Rightarrow> byte list \<times> nat \<times> byte list" where
  "CRYPTO_ofb128_encrypt block = mode_loops block
     (\<lambda>n ivec b. (b XOR ivec ! n, ivec)) (\<lambda>bs ivec. (xor_block_words bs ivec, ivec))"

text \<open>CFB: the ciphertext goes into \<open>ivec\<close>.\<close>

definition CRYPTO_cfb128_encrypt :: "(byte list \<Rightarrow> byte list) \<Rightarrow> bool \<Rightarrow> byte list \<Rightarrow> nat \<Rightarrow> byte list \<Rightarrow> byte list \<times> nat \<times> byte list" where
  "CRYPTO_cfb128_encrypt block enc =
    (if enc then mode_loops block
       (\<lambda>n ivec b. let c = ivec ! n XOR b in (c, ivec[n := c]))
       (\<lambda>bs ivec. let tmp = xor_block_words ivec bs in (tmp, tmp))
     else mode_loops block
       (\<lambda>n ivec b. (ivec ! n XOR b, ivec[n := b]))
       (\<lambda>bs ivec. (xor_block_words ivec bs, bs)))"

subsection \<open>One byte at a time\<close>

text \<open>
  The specification of a stream mode: a machine that takes one byte, and makes a new block when the
  position is 0. The locale shows that the loops compute what this machine computes.
\<close>

fun byte_machine :: "('s \<Rightarrow> 's) \<Rightarrow> (nat \<Rightarrow> 's \<Rightarrow> byte \<Rightarrow> byte \<times> 's) \<Rightarrow> byte list \<Rightarrow> nat \<Rightarrow> 's \<Rightarrow> byte list \<times> nat \<times> 's" where
  "byte_machine refill byte_op [] n s = ([], n, s)"
| "byte_machine refill byte_op (b # bs) n s =
    (case byte_op n (if n = 0 then refill s else s) b of (c, s1) \<Rightarrow>
     case byte_machine refill byte_op bs ((n + 1) mod 16) s1 of (out, n2, s2) \<Rightarrow> (c # out, n2, s2))"

lemma byte_machine_append:
  "byte_machine refill byte_op (xs @ ys) n s =
    (case byte_machine refill byte_op xs n s of (out1, n1, s1) \<Rightarrow>
     case byte_machine refill byte_op ys n1 s1 of (out2, n2, s2) \<Rightarrow> (out1 @ out2, n2, s2))"
  by (induction xs arbitrary: n s) (simp_all split: prod.split)

locale stream_mode =
  fixes inv :: "'s \<Rightarrow> bool" and refill :: "'s \<Rightarrow> 's" and byte_op :: "nat \<Rightarrow> 's \<Rightarrow> byte \<Rightarrow> byte \<times> 's"
    and block_op :: "byte list \<Rightarrow> 's \<Rightarrow> byte list \<times> 's"
  assumes refill_inv: "inv s \<Longrightarrow> inv (refill s)"
    and byte_inv: "inv s \<Longrightarrow> n < 16 \<Longrightarrow> byte_op n s b = (c, s') \<Longrightarrow> inv s'"
    and block_bytes: "inv s \<Longrightarrow> length bs = 16 \<Longrightarrow> block_op bs s = (case mode_bytes byte_op bs 0 s of (out, n, s') \<Rightarrow> (out, s'))"
begin

lemma bytes_inv: "inv s \<Longrightarrow> n + length bs \<le> 16 \<Longrightarrow> mode_bytes byte_op bs n s = (out, n', s') \<Longrightarrow> inv s' \<and> n' = n + length bs \<and> length out = length bs"
proof (induction bs arbitrary: n s out n' s')
  case (Cons b bs)
  obtain c s1 where c: "byte_op n s b = (c, s1)" by fastforce
  obtain o2 n2 s2 where r: "mode_bytes byte_op bs (n + 1) s1 = (o2, n2, s2)" by (rule prod_cases3)
  have "inv s1" using byte_inv [OF Cons.prems(1) _ c] Cons.prems(2) by simp
  from Cons.IH [OF this _ r] Cons.prems c r show ?case by auto
qed simp

lemma machine_inv: "inv s \<Longrightarrow> n < 16 \<Longrightarrow> byte_machine refill byte_op bs n s = (out, n', s') \<Longrightarrow> inv s' \<and> n' < 16 \<and> length out = length bs"
proof (induction bs arbitrary: n s out n' s')
  case (Cons b bs)
  let ?s = "if n = 0 then refill s else s"
  have i: "inv ?s" using Cons.prems(1) refill_inv by simp
  obtain c s1 where c: "byte_op n ?s b = (c, s1)" by fastforce
  obtain o2 n2 s2 where r: "byte_machine refill byte_op bs ((n + 1) mod 16) s1 = (o2, n2, s2)" by (rule prod_cases3)
  have "inv s1" using byte_inv [OF i Cons.prems(2) c] .
  from Cons.IH [OF this _ r] Cons.prems(3) c r show ?case by auto
qed simp

text \<open>Inside a block the machine does what the loop over the bytes does.\<close>

lemma machine_bytes:
  "0 < n \<Longrightarrow> n < 16 \<Longrightarrow> n + length bs \<le> 16 \<Longrightarrow> byte_machine refill byte_op bs n s =
    (case mode_bytes byte_op bs n s of (out, n', s') \<Rightarrow> (out, (n + length bs) mod 16, s'))"
proof (induction bs arbitrary: n s)
  case (Cons b bs)
  show ?case
  proof (cases "bs = []")
    case False
    then have "n + 1 < 16" using Cons.prems(3) by (cases bs) simp_all
    then show ?thesis using Cons.IH [of "n + 1"] Cons.prems by (simp split: prod.split)
  qed (use Cons.prems in \<open>simp split: prod.split\<close>)
qed simp

lemma machine_start:
  assumes "bs \<noteq> []" and "length bs \<le> 16"
  shows "byte_machine refill byte_op bs 0 s =
    (case mode_bytes byte_op bs 0 (refill s) of (out, n', s') \<Rightarrow> (out, length bs mod 16, s'))"
proof -
  obtain b cs where bs: "bs = b # cs" using assms(1) by (cases bs) auto
  then have "1 + length cs \<le> 16" using assms(2) by simp
  then show ?thesis using machine_bytes [of 1 cs] by (simp add: bs split: prod.split)
qed

lemma machine_block:
  assumes "inv s" and "length bs = 16"
  shows "byte_machine refill byte_op bs 0 s = (case block_op bs (refill s) of (out, s') \<Rightarrow> (out, 0, s'))"
proof -
  have "bs \<noteq> []" using assms(2) by auto
  then show ?thesis
    using machine_start [of bs s] block_bytes [OF refill_inv [OF assms(1)] assms(2)] assms(2) by (auto split: prod.split)
qed

lemma head_machine:
  "inv s \<Longrightarrow> n < 16 \<Longrightarrow> mode_head byte_op bs n s = (out, rest, n', s') \<Longrightarrow>
    inv s' \<and> (n' = 0 \<or> rest = []) \<and> n' < 16 \<and> length rest \<le> length bs
    \<and> byte_machine refill byte_op bs n s = (case byte_machine refill byte_op rest n' s' of (out2, n2, s2) \<Rightarrow> (out @ out2, n2, s2))"
proof (induction bs arbitrary: n s out rest n' s')
  case (Cons b bs)
  show ?case
  proof (cases "n = 0")
    case False
    obtain c s1 where c: "byte_op n s b = (c, s1)" by fastforce
    obtain o2 r2 n2 s2 where r: "mode_head byte_op bs ((n + 1) mod 16) s1 = (o2, r2, n2, s2)" by (rule prod_cases4)
    have "inv s1" using byte_inv [OF Cons.prems(1,2) c] .
    from Cons.IH [OF this _ r] Cons.prems(3) c r False show ?thesis by (auto split: prod.split)
  qed (use Cons.prems in \<open>simp split: prod.split\<close>)
qed simp

lemma blocks_machine:
  "inv s \<Longrightarrow> mode_blocks refill block_op bs 0 s = (out, rest, n', s') \<Longrightarrow>
    inv s' \<and> n' = 0 \<and> length rest < 16
    \<and> byte_machine refill byte_op bs 0 s = (case byte_machine refill byte_op rest 0 s' of (out2, n2, s2) \<Rightarrow> (out @ out2, n2, s2))"
proof (induction bs arbitrary: s out rest n' s' rule: measure_induct_rule [of length])
  case (less bs)
  show ?case
  proof (cases "16 \<le> length bs")
    case True
    obtain o1 s1 where b: "block_op (take 16 bs) (refill s) = (o1, s1)" by fastforce
    obtain o2 r2 n2 s2 where r: "mode_blocks refill block_op (drop 16 bs) 0 s1 = (o2, r2, n2, s2)" by (rule prod_cases4)
    have m: "byte_machine refill byte_op (take 16 bs) 0 s = (o1, 0, s1)" using machine_block [OF less.prems(1)] True b by simp
    then have "inv s1" using machine_inv [OF less.prems(1) _ m] by simp
    from less.IH [OF _ this r] True less.prems(2) b r
    have "inv s' \<and> n' = 0 \<and> length rest < 16" "out = o1 @ o2"
      "byte_machine refill byte_op (drop 16 bs) 0 s1 = (case byte_machine refill byte_op rest 0 s' of (out2, n2, s2) \<Rightarrow> (o2 @ out2, n2, s2))"
      by (auto simp: mode_blocks.simps [of refill block_op bs])
    moreover have "byte_machine refill byte_op bs 0 s =
        (case byte_machine refill byte_op (drop 16 bs) 0 s1 of (out2, n2, s2) \<Rightarrow> (o1 @ out2, n2, s2))"
      using byte_machine_append [of refill byte_op "take 16 bs" "drop 16 bs" 0 s] m by simp
    ultimately show ?thesis by (auto split: prod.split)
  next
    case False
    then show ?thesis using less.prems by (simp add: mode_blocks.simps [of refill block_op bs] split: prod.split)
  qed
qed

lemma loops_machine:
  assumes "inv s" and "n < 16"
  shows "mode_loops refill byte_op block_op bs n s = byte_machine refill byte_op bs n s"
proof -
  obtain o1 b1 n1 s1 where h: "mode_head byte_op bs n s = (o1, b1, n1, s1)" by (rule prod_cases4)
  note h1 = head_machine [OF assms h]
  obtain o2 b2 n2 s2 where b: "mode_blocks refill block_op b1 n1 s1 = (o2, b2, n2, s2)" by (rule prod_cases4)
  show ?thesis
  proof (cases "n1 = 0")
    case True
    have i1: "inv s1" using h1 by simp
    note b1 = blocks_machine [OF i1, of b1, unfolded True [symmetric], OF b]
    have first: "byte_machine refill byte_op bs n s = (case byte_machine refill byte_op b1 0 s1 of (out2, n2, s2) \<Rightarrow> (o1 @ out2, n2, s2))"
      using h1 True by simp
    have second: "n2 = 0" "length b2 < 16"
      "byte_machine refill byte_op b1 0 s1 = (case byte_machine refill byte_op b2 0 s2 of (out3, n3, s3) \<Rightarrow> (o2 @ out3, n3, s3))"
      using b1 True by simp_all
    have i2: "inv s2" using b1 by simp
    show ?thesis
    proof (cases "b2 = []")
      case True
      then show ?thesis using h b first second by (simp add: mode_loops_def)
    next
      case False
      obtain o3 n3 s3 where t: "mode_bytes byte_op b2 0 (refill s2) = (o3, n3, s3)" by (rule prod_cases3)
      have "n3 = length b2" using bytes_inv [OF refill_inv [OF i2] _ t] second(2) by simp
      then have "byte_machine refill byte_op b2 0 s2 = (o3, n3, s3)"
        using machine_start [OF False, of s2] second(2) t by simp
      then show ?thesis using h b first second False t by (simp add: mode_loops_def)
    qed
  next
    case False
    then have "b1 = []" using h1 by simp
    then have "o2 = []" "b2 = []" "n2 = n1" "s2 = s1" using b by (simp_all add: mode_blocks.simps)
    then show ?thesis using h b h1 \<open>b1 = []\<close> by (simp add: mode_loops_def)
  qed
qed

end

subsection \<open>The modes as machines\<close>

text \<open>What the modes rely on: the cipher maps 16 bytes to 16 bytes.\<close>

definition block_cipher :: "(byte list \<Rightarrow> byte list) \<Rightarrow> bool" where
  "block_cipher block \<longleftrightarrow> (\<forall>b. length b = 16 \<longrightarrow> length (block b) = 16)"

lemma length_ctr_inc_loop [simp]: "length (ctr_inc_loop n c counter) = length counter"
  by (induction n arbitrary: c counter) (simp_all add: Let_def)

lemma length_ctr128_inc [simp]: "length (ctr128_inc counter) = length counter"
  by (simp add: ctr128_inc_def)

text \<open>Sixteen byte operations on a fixed or growing key block.\<close>

lemma xor_mode_bytes: "mode_bytes (\<lambda>n s b. (b XOR k s ! n, s)) bs n s = (map2 (XOR) bs (map ((!) (k s)) [n..<n + length bs]), n + length bs, s)"
  by (induction bs arbitrary: n) (simp_all add: upt_conv_Cons del: upt_Suc)

lemma cfb_mode_bytes:
  "n + length bs \<le> length iv \<Longrightarrow>
    mode_bytes (\<lambda>n iv b. let c = f (iv ! n) b in (g (iv ! n) b, iv[n := c])) bs n iv =
    (map2 g (take (length bs) (drop n iv)) bs, n + length bs, mem_write iv n (map2 f (take (length bs) (drop n iv)) bs))"
proof (induction bs arbitrary: n iv)
  case (Cons b bs)
  have n: "n < length iv" using Cons.prems by simp
  have d: "drop n iv = iv ! n # drop (Suc n) iv" using n by (rule Cons_nth_drop_Suc [symmetric])
  note u = drop_update_cancel [OF lessI [of n]] list_update_mem_write [OF n]
  have w: "mem_write (mem_write iv n [c]) (Suc n) xs = mem_write iv n (c # xs)" if "n + Suc (length xs) \<le> length iv" for c xs
    using mem_write_append [of n "[c]" xs iv] that by simp
  show ?case using Cons.IH [of "Suc n" "iv[n := f (iv ! n) b]"] Cons.prems
    by (simp add: Let_def d u(1)) (simp add: u(2) w)
qed simp

interpretation ctr: stream_mode
  "\<lambda>(ivec, ecount_buf). block_cipher block \<and> length ivec = 16 \<and> length ecount_buf = 16"
  "\<lambda>(ivec, ecount_buf). (ctr128_inc ivec, block ivec)"
  "\<lambda>n (ivec, ecount_buf) b. (b XOR ecount_buf ! n, ivec, ecount_buf)"
  "\<lambda>bs (ivec, ecount_buf). (xor_block_words bs ecount_buf, ivec, ecount_buf)" for block
proof (unfold_locales, goal_cases)
  case (3 s bs)
  have f: "(\<lambda>n (ivec, ecount_buf) b. (b XOR ecount_buf ! n, ivec, ecount_buf)) = (\<lambda>n s b. (b XOR snd s ! n, s))" by (auto simp: fun_eq_iff)
  have "length (snd s) = 16" using 3(1) by (auto simp: case_prod_beta)
  then have "map ((!) (snd s)) [0..<16] = snd s" by (metis map_nth)
  then show ?case using 3 unfolding f by (auto simp: xor_mode_bytes xor_block_words_eq xor_bytes_def)
qed (auto simp: block_cipher_def)

interpretation ofb: stream_mode "\<lambda>ivec. block_cipher block \<and> length ivec = 16" block
  "\<lambda>n ivec b. (b XOR ivec ! n, ivec)" "\<lambda>bs ivec. (xor_block_words bs ivec, ivec)" for block
proof (unfold_locales, goal_cases)
  case (3 s bs)
  then have "map ((!) s) [0..<16] = s" by (metis map_nth)
  then show ?case using 3 xor_mode_bytes [of "\<lambda>s. s" bs 0 s] by (simp add: xor_block_words_eq xor_bytes_def)
qed (auto simp: block_cipher_def)

interpretation cfb_enc: stream_mode "\<lambda>ivec. block_cipher block \<and> length ivec = 16" block
  "\<lambda>n ivec b. let c = ivec ! n XOR b in (c, ivec[n := c])" "\<lambda>bs ivec. let tmp = xor_block_words ivec bs in (tmp, tmp)" for block
proof (unfold_locales, goal_cases)
  case (3 s bs)
  then show ?case using cfb_mode_bytes [of 0 bs s "(XOR)" "(XOR)"]
    by (simp add: xor_block_words_eq xor_bytes_def Let_def mem_write_def)
qed (auto simp: block_cipher_def Let_def)

interpretation cfb_dec: stream_mode "\<lambda>ivec. block_cipher block \<and> length ivec = 16" block
  "\<lambda>n ivec b. (ivec ! n XOR b, ivec[n := b])" "\<lambda>bs ivec. (xor_block_words ivec bs, bs)" for block
proof (unfold_locales, goal_cases)
  case (3 s bs)
  have "map2 (\<lambda>_ b. b) s bs = bs" using 3 by (intro nth_equalityI) simp_all
  then show ?case using 3 cfb_mode_bytes [of 0 bs s "\<lambda>_ b. b" "(XOR)"]
    by (simp add: xor_block_words_eq xor_bytes_def mem_write_def)
qed (auto simp: block_cipher_def)

lemma CRYPTO_ctr128_machine:
  assumes "block_cipher block" and "length ivec = 16" and "length ecount_buf = 16" and "n < 16"
  shows "CRYPTO_ctr128_encrypt block bs n (ivec, ecount_buf) =
    byte_machine (\<lambda>(ivec, ecount_buf). (ctr128_inc ivec, block ivec)) (\<lambda>n (ivec, ecount_buf) b. (b XOR ecount_buf ! n, ivec, ecount_buf)) bs n (ivec, ecount_buf)"
  unfolding CRYPTO_ctr128_encrypt_def using assms by (intro ctr.loops_machine [where block = block]) simp_all

lemma CRYPTO_ofb128_machine:
  assumes "block_cipher block" and "length ivec = 16" and "n < 16"
  shows "CRYPTO_ofb128_encrypt block bs n ivec = byte_machine block (\<lambda>n ivec b. (b XOR ivec ! n, ivec)) bs n ivec"
  unfolding CRYPTO_ofb128_encrypt_def using assms by (intro ofb.loops_machine) simp_all

lemma CRYPTO_cfb128_machine:
  assumes "block_cipher block" and "length ivec = 16" and "n < 16"
  shows "CRYPTO_cfb128_encrypt block enc bs n ivec =
    byte_machine block (\<lambda>n ivec b. (ivec ! n XOR b, ivec[n := if enc then ivec ! n XOR b else b])) bs n ivec"
  using cfb_enc.loops_machine [of block ivec n bs] cfb_dec.loops_machine [of block ivec n bs] assms
  by (cases enc) (simp_all add: CRYPTO_cfb128_encrypt_def Let_def)

subsection \<open>Decryption\<close>

text \<open>
  Two machines on the same state: what the first makes of a byte, the second undoes, and both go to
  the same state.
\<close>

lemma machine_inverse:
  assumes "\<And>n s b. n < 16 \<Longrightarrow> good s \<Longrightarrow> dec n s (fst (enc n s b)) = (b, snd (enc n s b))"
    and "\<And>s. good s \<Longrightarrow> good (refill s)" and "\<And>n s b. n < 16 \<Longrightarrow> good s \<Longrightarrow> good (snd (enc n s b))"
  shows "good s \<Longrightarrow> n < 16 \<Longrightarrow> byte_machine refill enc bs n s = (out, n', s') \<Longrightarrow> byte_machine refill dec out n s = (bs, n', s')"
proof (induction bs arbitrary: n s out)
  case (Cons b bs)
  let ?s = "if n = 0 then refill s else s"
  have i: "good ?s" using Cons.prems(1) assms(2) by simp
  obtain c s1 where c: "enc n ?s b = (c, s1)" by fastforce
  obtain o2 where r: "byte_machine refill enc bs ((n + 1) mod 16) s1 = (o2, n', s')" "out = c # o2"
    using Cons.prems(3) c by (auto split: prod.splits)
  have "good s1" using assms(3) [OF Cons.prems(2) i, of b] c by simp
  then have "byte_machine refill dec o2 ((n + 1) mod 16) s1 = (bs, n', s')" using Cons.IH r(1) by simp
  moreover have "dec n ?s c = (b, s1)" using assms(1) [OF Cons.prems(2) i, of b] c by simp
  ultimately show ?case by (simp add: r(2))
qed simp

lemma xor_twice: "((b :: byte) XOR k) XOR k = b" "k XOR (k XOR b) = b"
  by (auto simp: bit_eq_iff bit_simps)

lemma cfb_inverse:
  assumes block: "block_cipher block" and iv: "length ivec = 16" and n: "n < 16"
    and enc: "CRYPTO_cfb128_encrypt block True bs n ivec = (out, n', ivec')"
  shows "CRYPTO_cfb128_encrypt block False out n ivec = (bs, n', ivec')"
proof -
  let ?enc = "\<lambda>n ivec b :: byte. (ivec ! n XOR b, ivec[n := ivec ! n XOR b])"
  let ?dec = "\<lambda>n ivec b :: byte. (ivec ! n XOR b, ivec[n := b])"
  note m = CRYPTO_cfb128_machine [OF block iv n]
  have "byte_machine block ?enc bs n ivec = (out, n', ivec')" using enc m [of True] by simp
  then have "byte_machine block ?dec out n ivec = (bs, n', ivec')"
    by (rule machine_inverse [where good = "\<lambda>iv. length iv = 16", rotated 5])
      (use block iv n in \<open>simp_all add: block_cipher_def xor_twice\<close>)
  then show ?thesis using m [of False] by simp
qed

lemma ofb_inverse:
  assumes block: "block_cipher block" and iv: "length ivec = 16" and n: "n < 16"
    and enc: "CRYPTO_ofb128_encrypt block bs n ivec = (out, n', ivec')"
  shows "CRYPTO_ofb128_encrypt block out n ivec = (bs, n', ivec')"
proof -
  note m = CRYPTO_ofb128_machine [OF block iv n]
  have "byte_machine block (\<lambda>n ivec b. (b XOR ivec ! n, ivec)) bs n ivec = (out, n', ivec')" using enc m by simp
  then have "byte_machine block (\<lambda>n ivec b. (b XOR ivec ! n, ivec)) out n ivec = (bs, n', ivec')"
    by (rule machine_inverse [where good = "\<lambda>iv. length iv = 16", rotated 5])
      (use block iv n in \<open>simp_all add: block_cipher_def xor_twice\<close>)
  then show ?thesis using m by simp
qed

subsection \<open>The counter\<close>

lemma ctr_inc_loop_drop: "n \<le> length counter \<Longrightarrow> drop n (ctr_inc_loop n c counter) = drop n counter"
proof (induction n arbitrary: c counter)
  case (Suc n)
  let ?c = "c + ucast (counter ! n)"
  have "drop n (ctr_inc_loop n (drop_bit 8 ?c) (counter[n := ucast ?c])) = drop n (counter[n := ucast ?c])" using Suc by simp
  then have "drop 1 (drop n (ctr_inc_loop n (drop_bit 8 ?c) (counter[n := ucast ?c]))) = drop 1 (drop n (counter[n := ucast ?c]))" by simp
  then show ?case by (simp add: Let_def)
qed simp

lemma ctr_inc_loop_value:
  "n \<le> length counter \<Longrightarrow> unat c \<le> 1 \<Longrightarrow>
    be_value (take n (ctr_inc_loop n c counter)) = (be_value (take n counter) + unat c) mod 256 ^ n"
proof (induction n arbitrary: c counter)
  case (Suc n)
  let ?c = "c + ucast (counter ! n)" and ?V = "be_value (take n counter)"
  let ?r = "ctr_inc_loop n (drop_bit 8 ?c) (counter[n := ucast ?c])"
  have "unat c + unat (counter ! n) < 4294967296" using Suc.prems(2) unat_byte_lt [of "counter ! n"] by linarith
  then have uc: "unat ?c = unat c + unat (counter ! n)" by (subst unat_plus_if_size) (simp add: word_size unsigned_ucast_eq)
  have high: "unat (drop_bit 8 ?c) = unat ?c div 256" by (simp add: unat_drop_bit)
  have "unat ?c < 512" using uc Suc.prems(2) unat_byte_lt [of "counter ! n"] by linarith
  then have c1: "unat (drop_bit 8 ?c) \<le> 1" unfolding high by linarith
  have low: "unat (ucast ?c :: byte) = unat ?c mod 256" by (simp add: unsigned_ucast_eq take_bit_eq_mod)
  have "drop n ?r = drop n (counter[n := ucast ?c])" by (rule ctr_inc_loop_drop) (use Suc.prems in simp)
  then have rn: "?r ! n = ucast ?c" using Suc.prems by (metis Cons_nth_drop_Suc Suc_le_lessD length_ctr_inc_loop length_list_update list.inject nth_list_update_eq)
  have "take (Suc n) ?r = take n ?r @ [?r ! n]" using Suc.prems by (intro take_Suc_conv_app_nth) simp
  then have "be_value (take (Suc n) ?r) = ((?V + unat ?c div 256) mod 256 ^ n) * 256 + unat ?c mod 256"
    using Suc.IH [of "counter[n := ucast ?c]" "drop_bit 8 ?c"] Suc.prems c1 by (simp add: rn low high)
  also have "\<dots> = (?V * 256 + unat ?c) mod 256 ^ Suc n"
  proof -
    have "(?V * 256 + unat ?c) mod (256 * 256 ^ n) = 256 * ((?V * 256 + unat ?c) div 256 mod 256 ^ n) + (?V * 256 + unat ?c) mod 256"
      by (rule mod_mult2_eq)
    moreover have "(?V * 256 + unat ?c) div 256 = ?V + unat ?c div 256" "(?V * 256 + unat ?c) mod 256 = unat ?c mod 256" by simp_all
    ultimately show ?thesis by (simp add: mult.commute)
  qed
  also have "?V * 256 + unat ?c = be_value (take (Suc n) counter) + unat c"
    using Suc.prems uc by (simp add: take_Suc_conv_app_nth)
  finally show ?case by (simp add: Let_def)
qed simp

lemma ctr128_inc_eq: "ctr128_inc (be_bytes 16 v) = be_bytes 16 (v + 1)"
proof (rule be_value_inj)
  have "be_value (take 16 (ctr128_inc (be_bytes 16 v))) = (be_value (take 16 (be_bytes 16 v)) + 1) mod 256 ^ 16"
    unfolding ctr128_inc_def by (subst ctr_inc_loop_value) simp_all
  then show "be_value (ctr128_inc (be_bytes 16 v)) = be_value (be_bytes 16 (v + 1))" by (simp add: mod_simps)
qed simp

subsection \<open>The keystream of CTR\<close>

text \<open>
  The byte at position \<open>p\<close> of the stream that starts at counter \<open>v\<close>. The relation \<open>ctr_at\<close> says
  what \<open>ivec\<close> and \<open>ecount_buf\<close> hold between two calls, \<open>p\<close> bytes into the stream.
\<close>

definition ctr_keystream :: "(byte list \<Rightarrow> byte list) \<Rightarrow> nat \<Rightarrow> nat \<Rightarrow> byte" where
  "ctr_keystream block v p = block (be_bytes 16 (v + p div 16)) ! (p mod 16)"

definition ctr_xor :: "(byte list \<Rightarrow> byte list) \<Rightarrow> nat \<Rightarrow> nat \<Rightarrow> byte list \<Rightarrow> byte list" where
  "ctr_xor block v p bs = map (\<lambda>i. bs ! i XOR ctr_keystream block v (p + i)) [0..<length bs]"

definition ctr_at :: "(byte list \<Rightarrow> byte list) \<Rightarrow> nat \<Rightarrow> nat \<Rightarrow> byte list \<times> byte list \<Rightarrow> bool" where
  "ctr_at block v p = (\<lambda>(ivec, ecount_buf). ivec = be_bytes 16 (v + (p + 15) div 16) \<and> length ecount_buf = 16
     \<and> (p mod 16 \<noteq> 0 \<longrightarrow> ecount_buf = block (be_bytes 16 (v + p div 16))))"

lemma length_ctr_xor [simp]: "length (ctr_xor block v p bs) = length bs"
  by (simp add: ctr_xor_def)

lemma nth_ctr_xor [simp]: "i < length bs \<Longrightarrow> ctr_xor block v p bs ! i = bs ! i XOR ctr_keystream block v (p + i)"
  by (simp add: ctr_xor_def)

lemma ctr_xor_Nil [simp]: "ctr_xor block v p [] = []"
  by (simp add: ctr_xor_def)

lemma ctr_xor_Cons: "ctr_xor block v p (b # bs) = (b XOR ctr_keystream block v p) # ctr_xor block v (Suc p) bs"
  by (rule nth_equalityI) (auto simp: nth_Cons split: nat.split)

lemma ctr_xor_append: "ctr_xor block v p (xs @ ys) = ctr_xor block v p xs @ ctr_xor block v (p + length xs) ys"
  by (rule nth_equalityI) (auto simp: nth_append)

lemma ctr_xor_twice [simp]: "ctr_xor block v p (ctr_xor block v p bs) = bs"
  by (rule nth_equalityI) (simp_all add: xor_twice)

lemma ctr_at_start: "length ivec = 16 \<Longrightarrow> length ecount_buf = 16 \<Longrightarrow> ctr_at block (be_value ivec) 0 (ivec, ecount_buf)"
  using be_bytes_be_value [of ivec] by (simp add: ctr_at_def)

lemma blocks_Suc: "(Suc p + 15) div 16 = p div 16 + 1"
  by linarith

lemma blocks_within: "Suc p mod 16 \<noteq> 0 \<Longrightarrow> Suc p div 16 = p div 16"
  by (simp only: div_Suc if_False)

lemma blocks_up: fixes p :: nat shows "(p + 15) div 16 = p div 16 + (if p mod 16 = 0 then 0 else 1)"
proof (cases p)
  case (Suc q)
  then show ?thesis by (simp only: blocks_Suc div_Suc) simp
qed simp

text \<open>Making the next block, at a position that begins one.\<close>

lemma ctr_at_refill:
  assumes "ctr_at block v p (ivec, ecount_buf)" and "p mod 16 = 0"
  shows "ivec = be_bytes 16 (v + p div 16)" and "ctr128_inc ivec = be_bytes 16 (v + p div 16 + 1)"
proof -
  have "ivec = be_bytes 16 (v + (p + 15) div 16)" using assms(1) unfolding ctr_at_def by blast
  then show "ivec = be_bytes 16 (v + p div 16)" unfolding blocks_up using assms(2) by simp
  then show "ctr128_inc ivec = be_bytes 16 (v + p div 16 + 1)" by (simp only: ctr128_inc_eq)
qed

lemma ctr_at_step:
  assumes block: "block_cipher block" and at: "ctr_at block v p (ivec, ecount_buf)"
    and s: "(ivec1, ecount1) = (if p mod 16 = 0 then (ctr128_inc ivec, block ivec) else (ivec, ecount_buf))"
  shows "ctr_at block v (Suc p) (ivec1, ecount1) \<and> ecount1 ! (p mod 16) = ctr_keystream block v p"
proof -
  note a = at [unfolded ctr_at_def prod.case]
  have e: "ecount1 = block (be_bytes 16 (v + p div 16))"
  proof (cases "p mod 16 = 0")
    case True
    then have "ecount1 = block ivec" using s by simp
    then show ?thesis by (simp only: ctr_at_refill(1) [OF at True])
  next
    case False
    then have "ecount1 = ecount_buf" using s by simp
    then show ?thesis using a False by blast
  qed
  then have l: "length ecount1 = 16" using block unfolding block_cipher_def by (metis length_be_bytes)
  have i: "ivec1 = be_bytes 16 (v + (Suc p + 15) div 16)"
  proof (cases "p mod 16 = 0")
    case True
    then have "ivec1 = ctr128_inc ivec" using s by simp
    then show ?thesis by (simp only: ctr_at_refill(2) [OF at True] blocks_Suc add.assoc)
  next
    case False
    then have "(Suc p + 15) div 16 = (p + 15) div 16" using blocks_Suc [of p] blocks_up [of p] by (simp only: if_False)
    moreover have "ivec1 = ivec" using s False by simp
    ultimately show ?thesis using a by argo
  qed
  have "Suc p mod 16 \<noteq> 0 \<longrightarrow> ecount1 = block (be_bytes 16 (v + Suc p div 16))" using e blocks_within by metis
  moreover have "ecount1 ! (p mod 16) = ctr_keystream block v p" unfolding e ctr_keystream_def ..
  ultimately show ?thesis using i l unfolding ctr_at_def prod.case by blast
qed

lemma ctr_machine_keystream:
  assumes block: "block_cipher block"
  shows "ctr_at block v p s \<Longrightarrow>
    byte_machine (\<lambda>(ivec, ecount_buf). (ctr128_inc ivec, block ivec)) (\<lambda>n (ivec, ecount_buf) b. (b XOR ecount_buf ! n, ivec, ecount_buf))
      bs (p mod 16) s = (out, n', s') \<Longrightarrow>
    out = ctr_xor block v p bs \<and> n' = (p + length bs) mod 16 \<and> ctr_at block v (p + length bs) s'"
proof (induction bs arbitrary: p s out)
  case (Cons b bs)
  obtain ivec ecount_buf where st: "s = (ivec, ecount_buf)" by fastforce
  obtain ivec1 ecount1 where s1: "(ivec1, ecount1) = (if p mod 16 = 0 then (ctr128_inc ivec, block ivec) else (ivec, ecount_buf))"
    by (metis surj_pair)
  note step = ctr_at_step [OF block Cons.prems(1) [unfolded st] s1]
  have "(p mod 16 + 1) mod 16 = Suc p mod 16" by presburger
  then obtain o2 where
    "byte_machine (\<lambda>(ivec, ecount_buf). (ctr128_inc ivec, block ivec)) (\<lambda>n (ivec, ecount_buf) b. (b XOR ecount_buf ! n, ivec, ecount_buf))
      bs (Suc p mod 16) (ivec1, ecount1) = (o2, n', s')" "out = (b XOR ecount1 ! (p mod 16)) # o2"
    using Cons.prems(2) s1 by (auto simp: st split: prod.splits if_splits)
  moreover from this have "o2 = ctr_xor block v (Suc p) bs \<and> n' = (Suc p + length bs) mod 16 \<and> ctr_at block v (Suc p + length bs) s'"
    using Cons.IH step by blast
  ultimately show ?case using step by (simp add: ctr_xor_Cons)
qed simp

lemma CRYPTO_ctr128_keystream:
  assumes block: "block_cipher block" and at: "ctr_at block v p s" and call: "CRYPTO_ctr128_encrypt block bs (p mod 16) s = (out, n', s')"
  shows "out = ctr_xor block v p bs \<and> n' = (p + length bs) mod 16 \<and> ctr_at block v (p + length bs) s'"
proof -
  obtain ivec ecount_buf where st: "s = (ivec, ecount_buf)" by fastforce
  then have "length ivec = 16" "length ecount_buf = 16" using at by (simp_all add: ctr_at_def)
  with CRYPTO_ctr128_machine [OF block, of ivec ecount_buf "p mod 16" bs] ctr_machine_keystream [OF block at] call st
  show ?thesis by simp
qed

text \<open>A stream encrypted in any pieces.\<close>

fun ctr_calls :: "(byte list \<Rightarrow> byte list) \<Rightarrow> byte list list \<Rightarrow> nat \<Rightarrow> byte list \<times> byte list \<Rightarrow> byte list list" where
  "ctr_calls block [] n s = []"
| "ctr_calls block (bs # bss) n s =
    (case CRYPTO_ctr128_encrypt block bs n s of (out, n1, s1) \<Rightarrow> out # ctr_calls block bss n1 s1)"

lemma ctr_calls_keystream:
  "block_cipher block \<Longrightarrow> ctr_at block v p s \<Longrightarrow> concat (ctr_calls block bss (p mod 16) s) = ctr_xor block v p (concat bss)"
proof (induction bss arbitrary: p s)
  case (Cons bs bss)
  obtain out n1 s1 where c: "CRYPTO_ctr128_encrypt block bs (p mod 16) s = (out, n1, s1)" by (rule prod_cases3)
  note k = CRYPTO_ctr128_keystream [OF Cons.prems c]
  then show ?case using Cons.IH [OF Cons.prems(1), of "p + length bs" s1] c by (simp add: ctr_xor_append)
qed simp

subsection \<open>CTR with a 32-bit counter function\<close>

text \<open>
  The words of \<open>GETU32\<close> and \<open>PUTU32\<close> pass through memory, lowest byte first, and are swapped. The
  stream function \<open>(*func)(in, out, blocks, key, ivec)\<close> is a parameter, from the bytes of the blocks
  and \<open>ivec\<close> to the output.
\<close>

definition GETU32 :: "byte list \<Rightarrow> 32 word" where
  "GETU32 bs = CRYPTO_bswap4 (foldr (\<lambda>b w. push_bit 8 w OR ucast b) (take 4 bs) 0)"

definition PUTU32 :: "32 word \<Rightarrow> byte list" where
  "PUTU32 v = (let v = CRYPTO_bswap4 v in map (\<lambda>i. ucast (drop_bit (8 * i) v)) [0..<4])"

definition ctr32_step :: "nat \<Rightarrow> 32 word \<Rightarrow> nat \<times> 32 word" where
  "ctr32_step len ctr32 =
    (let blocks = len div 16;
         blocks = (if blocks > 2 ^ 28 then 2 ^ 28 else blocks);
         ctr32 = ctr32 + of_nat blocks
     in if unat ctr32 < blocks then (blocks - unat ctr32, 0) else (blocks, ctr32))"

lemma bswap4_bits:
  assumes "i < 4" and "k < 8"
  shows "bit (CRYPTO_bswap4 x) (8 * i + k) \<longleftrightarrow> bit x (8 * (3 - i) + k)"
proof -
  have high: "\<not> bit x (32 + n)" for n by (auto dest: bit_imp_le_length)
  have "\<forall>i \<in> set [0, 1, 2, 3]. \<forall>k \<in> set [0, 1, 2, 3, 4, 5, 6, 7]. bit (CRYPTO_bswap4 x) (8 * i + k) = bit x (8 * (3 - i) + k)"
    using high [of 0] high [of 1] high [of 2] high [of 3] high [of 4] high [of 5] high [of 6] high [of 7]
      high [of 8] high [of 9] high [of 10] high [of 11] high [of 12] high [of 13] high [of 14] high [of 15]
    by (simp add: CRYPTO_bswap4_def Let_def bit_simps numeral_2_eq_2)
  moreover have "i \<in> set [0, 1, 2, 3]" "k \<in> set [0, 1, 2, 3, 4, 5, 6, 7]" using assms by auto
  ultimately show ?thesis by blast
qed

lemma nth_PUTU32: "i < 4 \<Longrightarrow> PUTU32 v ! i = ucast (drop_bit (8 * (3 - i)) v)"
proof (rule bit_word_eqI)
  fix k assume i: "i < 4" and "k < LENGTH(8)"
  then have k: "k < 8" by simp
  show "bit (PUTU32 v ! i) k \<longleftrightarrow> bit (ucast (drop_bit (8 * (3 - i)) v) :: byte) k"
    using i k bswap4_bits [OF i k, of v] by (simp add: PUTU32_def Let_def bit_simps)
qed

lemma length_PUTU32 [simp]: "length (PUTU32 v) = 4"
  by (simp add: PUTU32_def Let_def)

lemma PUTU32_eq: "PUTU32 v = be_bytes 4 (unat v)"
proof -
  have c: "(ucast w :: byte) = of_nat (unat w mod 256)" for w :: "32 word"
    by (rule word_unat_eq_iff [THEN iffD2]) (simp add: unsigned_ucast_eq take_bit_eq_mod)
  have "PUTU32 v = map (\<lambda>i. PUTU32 v ! i) [0..<4]" by (rule nth_equalityI) simp_all
  also have "\<dots> = map (\<lambda>i. ucast (drop_bit (8 * (3 - i)) v)) [0..<4]" by (simp add: nth_PUTU32)
  also have "\<dots> = be_bytes 4 (unat v)" by (simp add: be_bytes_4 upt_conv_Cons c unat_drop_bit del: upt_Suc)
  finally show ?thesis .
qed

lemma PUTU32_GETU32: assumes "length bs = 4" shows "PUTU32 (GETU32 bs) = bs"
proof (rule nth_equalityI)
  fix i assume "i < length (PUTU32 (GETU32 bs))"
  then have i: "i < 4" by simp
  show "PUTU32 (GETU32 bs) ! i = bs ! i"
  proof (rule bit_word_eqI)
    fix k assume "k < LENGTH(8)"
    then have k: "k < 8" by simp
    have "3 - i < 4" using i by simp
    have "bit (GETU32 bs) (8 * (3 - i) + k) = bit (foldr (\<lambda>b w. push_bit 8 w OR ucast b) bs (0 :: 32 word)) (8 * (3 - (3 - i)) + k)"
      using bswap4_bits [OF \<open>3 - i < 4\<close> k] assms by (simp add: GETU32_def)
    also have "3 - (3 - i) = i" using i by simp
    also have "bit (foldr (\<lambda>b w. push_bit 8 w OR ucast b) bs (0 :: 32 word)) (8 * i + k) = bit (bs ! i) k"
      using i k assms by (simp add: bit_load32)
    finally show "bit (PUTU32 (GETU32 bs) ! i) k \<longleftrightarrow> bit (bs ! i) k"
      using i k by (simp add: nth_PUTU32 bit_simps)
  qed
qed (simp add: assms)

lemma unat_GETU32: assumes "length bs = 4" shows "unat (GETU32 bs) = be_value bs"
proof -
  have "be_bytes 4 (unat (GETU32 bs)) = bs" using PUTU32_GETU32 [OF assms] by (simp only: PUTU32_eq)
  then have "be_value bs = unat (GETU32 bs) mod 256 ^ 4" by (metis be_value_be_bytes)
  moreover have "unat (GETU32 bs) < 2 ^ 32" using unsigned_less [of "GETU32 bs"] by simp
  ultimately show ?thesis by simp
qed

text \<open>The counter in \<open>ivec\<close> after some blocks, and the loop over the blocks.\<close>

definition ctr32_advance :: "32 word \<Rightarrow> byte list \<Rightarrow> byte list" where
  "ctr32_advance ctr32 ivec =
    (let ivec = mem_write ivec 12 (PUTU32 ctr32) in if ctr32 = 0 then ctr96_inc ivec else ivec)"

lemma ctr32_step_bounds:
  assumes step: "ctr32_step n ctr32 = (blocks, c)" and n: "16 \<le> n"
  shows "0 < blocks \<and> 16 * blocks \<le> n \<and> unat ctr32 + blocks \<le> 2 ^ 32 \<and> c = of_nat (unat ctr32 + blocks)"
proof -
  define k where "k = (if n div 16 > 2 ^ 28 then 2 ^ 28 else n div 16)"
  have k: "0 < k" "16 * k \<le> n" "k \<le> 2 ^ 28" using n unfolding k_def by (auto split: if_splits)
  define sum where "sum = ctr32 + of_nat k"
  have st: "(blocks, c) = (if unat sum < k then (k - unat sum, 0) else (k, sum))"
    using step [symmetric] unfolding ctr32_step_def Let_def k_def sum_def .
  have ok: "unat (of_nat k :: 32 word) = k" by (rule unat_of_nat_lt) (rule le_less_trans [OF k(3)], simp)
  have below: "unat ctr32 < 2 ^ 32" using unsigned_less [of ctr32] by simp
  show ?thesis
  proof (cases "unat ctr32 + k < 2 ^ 32")
    case True
    then have "unat sum = unat ctr32 + k" unfolding sum_def using ok by (subst unat_plus_if_size) (simp add: word_size)
    then have "blocks = k" "c = sum" using st by simp_all
    then show ?thesis using k True by (simp add: sum_def)
  next
    case False
    then have "unat sum = unat ctr32 + k - 2 ^ 32" unfolding sum_def using ok by (subst unat_plus_if_size) (simp add: word_size)
    moreover from this have "unat sum < k" using below k(1) False by linarith
    ultimately have b: "blocks = 2 ^ 32 - unat ctr32" "c = 0" using st False below by simp_all
    have "2 ^ 32 - unat ctr32 \<le> k" using False by linarith
    then have "16 * blocks \<le> n" using k(2) b(1) by linarith
    moreover have "unat ctr32 + blocks = 2 ^ 32" using b(1) below by linarith
    moreover have "of_nat (2 ^ 32) = (0 :: 32 word)" by simp
    ultimately show ?thesis using b below by simp
  qed
qed

function ctr32_blocks :: "(byte list \<Rightarrow> byte list \<Rightarrow> byte list) \<Rightarrow> byte list \<Rightarrow> 32 word \<Rightarrow> byte list \<Rightarrow> byte list \<times> byte list \<times> 32 word \<times> byte list" where
  "ctr32_blocks func bs ctr32 ivec =
    (if 16 \<le> length bs then
       (let blocks = fst (ctr32_step (length bs) ctr32); ctr32' = snd (ctr32_step (length bs) ctr32) in
        case ctr32_blocks func (drop (16 * blocks) bs) ctr32' (ctr32_advance ctr32' ivec) of
          (out, rest, c, iv) \<Rightarrow> (func (take (16 * blocks) bs) ivec @ out, rest, c, iv))
     else ([], bs, ctr32, ivec))"
  by pat_completeness auto
termination
proof (relation "measure (\<lambda>(_, bs, _, _). length bs)", goal_cases)
  case (2 func bs ctr32 ivec blocks c)
  have "ctr32_step (length bs) ctr32 = (blocks, c)" using 2 by simp
  then have "0 < blocks" "16 * blocks \<le> length bs" using ctr32_step_bounds 2(1) by blast+
  then have "length bs - 16 * blocks < length bs" by linarith
  then show ?case by simp
qed simp

declare ctr32_blocks.simps [simp del]

definition CRYPTO_ctr128_encrypt_ctr32 :: "(byte list \<Rightarrow> byte list \<Rightarrow> byte list) \<Rightarrow> byte list \<Rightarrow> nat \<Rightarrow> byte list \<times> byte list \<Rightarrow> byte list \<times> nat \<times> byte list \<times> byte list" where
  "CRYPTO_ctr128_encrypt_ctr32 func bs n s =
    (let xor_byte = (\<lambda>n (ivec, ecount_buf) b. (b XOR ecount_buf ! n, ivec, ecount_buf)) in
     case mode_head xor_byte bs n s of (out1, bs1, n1, ivec, ecount_buf) \<Rightarrow>
     case ctr32_blocks func bs1 (GETU32 (drop 12 ivec)) ivec of (out2, bs2, ctr32, ivec) \<Rightarrow>
     if bs2 \<noteq> [] then
       (let ecount_buf = func (replicate 16 0) ivec; ctr32 = ctr32 + 1 in
        case mode_bytes xor_byte bs2 n1 (ctr32_advance ctr32 ivec, ecount_buf) of (out3, n3, s3) \<Rightarrow> (out1 @ out2 @ out3, n3, s3))
     else (out1 @ out2, n1, ivec, ecount_buf))"

text \<open>
  What \<open>(*func)\<close> has to do: CTR mode on whole blocks, where only the last 32 bits of the counter
  count, and do not overflow.
\<close>

definition ctr32_function :: "(byte list \<Rightarrow> byte list) \<Rightarrow> (byte list \<Rightarrow> byte list \<Rightarrow> byte list) \<Rightarrow> bool" where
  "ctr32_function block func \<longleftrightarrow> (\<forall>bs ivec blocks.
    length ivec = 16 \<and> length bs = 16 * blocks \<and> be_value (drop 12 ivec) + blocks \<le> 2 ^ 32 \<longrightarrow>
    func bs ivec = map (\<lambda>i. bs ! i XOR block (take 12 ivec @ be_bytes 4 (be_value (drop 12 ivec) + i div 16)) ! (i mod 16)) [0..<length bs])"

lemma be_value_append: "be_value (xs @ ys) = be_value xs * 256 ^ length ys + be_value ys"
  by (induction xs) (simp_all add: be_value_Cons power_add algebra_simps)

lemma ivec_parts:
  assumes "length ivec = 16"
  shows "be_value ivec = be_value (take 12 ivec) * 2 ^ 32 + be_value (drop 12 ivec)"
proof -
  have "be_value (take 12 ivec @ drop 12 ivec) = be_value (take 12 ivec) * 256 ^ length (drop 12 ivec) + be_value (drop 12 ivec)"
    by (rule be_value_append)
  moreover have "length (drop 12 ivec) = 4" "(256 :: nat) ^ 4 = 2 ^ 32" using assms by simp_all
  ultimately show ?thesis by (simp only: append_take_drop_id)
qed

lemma be_bytes_16: "be_bytes 16 (h * 2 ^ 32 + l) = be_bytes 12 (h + l div 2 ^ 32) @ be_bytes 4 l"
proof -
  have p: "(256 :: nat) ^ 4 = 2 ^ 32" by simp
  have "be_bytes (12 + 4) (h * 2 ^ 32 + l) = be_bytes 12 ((h * 2 ^ 32 + l) div 2 ^ 32) @ be_bytes 4 (h * 2 ^ 32 + l)"
    unfolding be_bytes_add p ..
  moreover have "(h * 2 ^ 32 + l) div 2 ^ 32 = h + l div 2 ^ 32" by simp
  moreover have "be_bytes 4 (h * 2 ^ 32 + l) = be_bytes 4 l"
    by (rule be_value_inj) (simp_all add: p [symmetric] del: power_numeral)
  moreover have "12 + 4 = (16 :: nat)" by simp
  ultimately show ?thesis by metis
qed

lemma counter_within:
  assumes "length ivec = 16" and "be_value (drop 12 ivec) + j < 2 ^ 32"
  shows "take 12 ivec @ be_bytes 4 (be_value (drop 12 ivec) + j) = be_bytes 16 (be_value ivec + j)"
proof -
  have "be_bytes 16 (be_value (take 12 ivec) * 2 ^ 32 + (be_value (drop 12 ivec) + j)) =
      be_bytes 12 (be_value (take 12 ivec)) @ be_bytes 4 (be_value (drop 12 ivec) + j)"
    unfolding be_bytes_16 using assms(2) by simp
  moreover have "be_bytes 12 (be_value (take 12 ivec)) = take 12 ivec" by (rule be_bytes_of_value) (simp_all add: assms(1))
  ultimately show ?thesis using ivec_parts [OF assms(1)] by (simp add: add.assoc)
qed

lemma ctr96_inc_eq: "ctr96_inc (be_bytes 12 h @ ys) = be_bytes 12 (h + 1) @ ys"
proof -
  let ?c = "be_bytes 12 h @ ys"
  have "be_value (take 12 (ctr96_inc ?c)) = (be_value (take 12 ?c) + 1) mod 256 ^ 12"
    unfolding ctr96_inc_def by (subst ctr_inc_loop_value) simp_all
  then have "be_value (take 12 (ctr96_inc ?c)) = be_value (be_bytes 12 (h + 1))" by (simp add: mod_simps)
  then have "take 12 (ctr96_inc ?c) = be_bytes 12 (h + 1)" by (intro be_value_inj) (simp_all add: ctr96_inc_def)
  moreover have "drop 12 (ctr96_inc ?c) = ys" unfolding ctr96_inc_def by (subst ctr_inc_loop_drop) simp_all
  ultimately show ?thesis by (metis append_take_drop_id)
qed

lemma ctr32_advance_eq:
  assumes iv: "length ivec = 16" and le: "be_value (drop 12 ivec) + blocks \<le> 2 ^ 32" and pos: "0 < blocks"
  shows "ctr32_advance (of_nat (be_value (drop 12 ivec) + blocks)) ivec = be_bytes 16 (be_value ivec + blocks)"
proof -
  let ?l = "be_value (drop 12 ivec)" and ?h = "be_value (take 12 ivec)"
  have w: "mem_write ivec 12 (PUTU32 c) = take 12 ivec @ be_bytes 4 (unat c)" for c
    using iv by (simp add: mem_write_def PUTU32_eq)
  have v: "be_bytes 16 (be_value ivec + blocks) = be_bytes 12 (?h + (?l + blocks) div 2 ^ 32) @ be_bytes 4 (?l + blocks)"
    unfolding ivec_parts [OF iv] using be_bytes_16 [of ?h "?l + blocks"] by (simp add: add.assoc)
  have t: "be_bytes 12 ?h = take 12 ivec" by (rule be_bytes_of_value) (simp_all add: iv)
  show ?thesis
  proof (cases "?l + blocks < 2 ^ 32")
    case True
    then have u: "unat (of_nat (?l + blocks) :: 32 word) = ?l + blocks" by (intro unat_of_nat_lt) simp
    then have "(of_nat (?l + blocks) :: 32 word) \<noteq> 0" using pos by (metis add_is_0 less_numeral_extra(3) unsigned_0)
    then have "ctr32_advance (of_nat (?l + blocks)) ivec = take 12 ivec @ be_bytes 4 (?l + blocks)"
      unfolding ctr32_advance_def Let_def w u by (simp only: if_False)
    moreover have "(?l + blocks) div 2 ^ 32 = 0" using True by (rule div_less)
    ultimately show ?thesis unfolding v using t by (simp only: add_0_right)
  next
    case False
    then have e: "?l + blocks = 2 ^ 32" using le by linarith
    have z: "(of_nat (2 ^ 32) :: 32 word) = 0" by simp
    have "ctr32_advance 0 ivec = ctr96_inc (take 12 ivec @ be_bytes 4 0)"
      unfolding ctr32_advance_def Let_def w by (simp only: simp_thms if_True unsigned_0)
    also have "\<dots> = be_bytes 12 (?h + 1) @ be_bytes 4 0" using ctr96_inc_eq [of ?h] t by metis
    also have "be_bytes 4 0 = be_bytes 4 (2 ^ 32)" by (rule be_value_inj) simp_all
    finally have "ctr32_advance 0 ivec = be_bytes 12 (?h + 1) @ be_bytes 4 (2 ^ 32)" .
    moreover have "(2 :: nat) ^ 32 div 2 ^ 32 = 1" by simp
    ultimately show ?thesis unfolding v e z by (simp only:)
  qed
qed

lemma of_nat_unat_word: "of_nat (unat w) = (w :: 'a :: len word)"
  by simp

lemma ctr_keystream_shift: "ctr_keystream block (v + j) p = ctr_keystream block v (16 * j + p)"
  by (simp add: ctr_keystream_def add.assoc)

lemma ctr_xor_shift: "ctr_xor block (v + j) p bs = ctr_xor block v (16 * j + p) bs"
  by (rule nth_equalityI) (simp_all add: ctr_keystream_shift add.assoc)

lemma be_bytes_mod_add: "be_bytes n (v mod 256 ^ n + j) = be_bytes n (v + j)"
  by (rule be_value_inj) (simp_all add: mod_simps)

lemma low_counter: "be_value (drop 12 (be_bytes 16 v)) = unat (of_nat v :: 32 word)"
proof -
  have p: "(256 :: nat) ^ 4 = 2 ^ 32" by simp
  have "be_bytes (12 + 4) v = be_bytes 12 (v div 256 ^ 4) @ be_bytes 4 v" by (rule be_bytes_add)
  then have "drop 12 (be_bytes (12 + 4) v) = be_bytes 4 v" by (simp only: drop_append length_be_bytes diff_self_eq_0 drop_0 drop_all [OF eq_refl [OF length_be_bytes]] append_Nil)
  moreover have "12 + 4 = (16 :: nat)" by simp
  ultimately have "drop 12 (be_bytes 16 v) = be_bytes 4 v" by metis
  then have "be_value (drop 12 (be_bytes 16 v)) = v mod 2 ^ 32" by (simp only: be_value_be_bytes p)
  then show ?thesis by (simp add: unsigned_of_nat take_bit_eq_mod)
qed

lemma head_keystream:
  assumes block: "block_cipher block"
  shows "ctr_at block v p s \<Longrightarrow>
    mode_head (\<lambda>n (ivec, ecount_buf) b. (b XOR ecount_buf ! n, ivec, ecount_buf)) bs (p mod 16) s = (out, rest, n', s') \<Longrightarrow>
    \<exists>k \<le> length bs. rest = drop k bs \<and> out = ctr_xor block v p (take k bs) \<and> n' = (p + k) mod 16 \<and> ctr_at block v (p + k) s' \<and> (n' = 0 \<or> rest = [])"
proof (induction bs arbitrary: p s out)
  case (Cons b bs)
  obtain ivec ecount_buf where st: "s = (ivec, ecount_buf)" by fastforce
  show ?case
  proof (cases "p mod 16 = 0")
    case False
    note step = ctr_at_step [OF block Cons.prems(1) [unfolded st], of ivec ecount_buf]
    have "(p mod 16 + 1) mod 16 = Suc p mod 16" by presburger
    then obtain o2 where r: "mode_head (\<lambda>n (ivec, ecount_buf) b. (b XOR ecount_buf ! n, ivec, ecount_buf)) bs (Suc p mod 16) (ivec, ecount_buf) = (o2, rest, n', s')"
      and out: "out = (b XOR ecount_buf ! (p mod 16)) # o2"
      using Cons.prems(2) False by (auto simp: st split: prod.splits)
    have at: "ctr_at block v (Suc p) (ivec, ecount_buf)" and key: "ecount_buf ! (p mod 16) = ctr_keystream block v p"
      using step False by simp_all
    obtain k where k: "k \<le> length bs" "rest = drop k bs" "o2 = ctr_xor block v (Suc p) (take k bs)" "n' = (Suc p + k) mod 16"
        "ctr_at block v (Suc p + k) s'" "n' = 0 \<or> rest = []"
      using Cons.IH [OF at r] by (elim exE conjE) (rule that)
    have e: "Suc p + k = p + Suc k" by simp
    have "out = ctr_xor block v p (take (Suc k) (b # bs))" using out key k(3) by (simp add: ctr_xor_Cons)
    moreover have "Suc k \<le> length (b # bs)" "rest = drop (Suc k) (b # bs)" using k(1,2) by simp_all
    ultimately show ?thesis using k(4-6) [unfolded e] by blast
  qed (use Cons.prems in auto)
qed auto

lemma func_keystream:
  assumes func: "ctr32_function block func" and bs: "length bs = 16 * blocks"
    and le: "unat (of_nat v :: 32 word) + blocks \<le> 2 ^ 32"
  shows "func bs (be_bytes 16 v) = ctr_xor block v 0 bs"
proof -
  let ?iv = "be_bytes 16 v"
  have iv: "length ?iv = 16" by simp
  have le': "be_value (drop 12 ?iv) + blocks \<le> 2 ^ 32" using le by (simp only: low_counter)
  have "func bs ?iv = map (\<lambda>i. bs ! i XOR block (take 12 ?iv @ be_bytes 4 (be_value (drop 12 ?iv) + i div 16)) ! (i mod 16)) [0..<length bs]"
    using func iv bs le' unfolding ctr32_function_def by blast
  also have "\<dots> = map (\<lambda>i. bs ! i XOR ctr_keystream block v (0 + i)) [0..<length bs]"
  proof (rule map_cong [OF refl])
    fix i assume "i \<in> set [0..<length bs]"
    then have "i div 16 < blocks" using bs by (simp add: less_mult_imp_div_less mult.commute)
    then have "be_value (drop 12 ?iv) + i div 16 < 2 ^ 32" using le' by linarith
    from counter_within [OF iv this]
    have "take 12 ?iv @ be_bytes 4 (be_value (drop 12 ?iv) + i div 16) = be_bytes 16 (v + i div 16)"
      by (simp only: be_value_be_bytes be_bytes_mod_add)
    then show "bs ! i XOR block (take 12 ?iv @ be_bytes 4 (be_value (drop 12 ?iv) + i div 16)) ! (i mod 16) = bs ! i XOR ctr_keystream block v (0 + i)"
      unfolding ctr_keystream_def by (simp only: add_0_left)
  qed
  finally show ?thesis unfolding ctr_xor_def .
qed

lemma advance_keystream:
  assumes "unat (of_nat v :: 32 word) + blocks \<le> 2 ^ 32" and "0 < blocks"
  shows "ctr32_advance (of_nat (v + blocks)) (be_bytes 16 v) = be_bytes 16 (v + blocks)"
proof -
  have "ctr32_advance (of_nat (be_value (drop 12 (be_bytes 16 v)) + blocks)) (be_bytes 16 v) = be_bytes 16 (be_value (be_bytes 16 v) + blocks)"
    by (rule ctr32_advance_eq) (use assms in \<open>simp_all only: low_counter length_be_bytes\<close>)
  moreover have "(of_nat (be_value (drop 12 (be_bytes 16 v)) + blocks) :: 32 word) = of_nat (v + blocks)"
    by (simp only: low_counter of_nat_add of_nat_unat_word)
  ultimately show ?thesis by (simp only: be_value_be_bytes be_bytes_mod_add)
qed

lemma ctr32_blocks_keystream:
  assumes func: "ctr32_function block func"
  shows "ctr32_blocks func bs (of_nat v) (be_bytes 16 v) = (out, rest, c, iv) \<Longrightarrow>
    \<exists>k. 16 * k \<le> length bs \<and> rest = drop (16 * k) bs \<and> length rest < 16 \<and> out = ctr_xor block v 0 (take (16 * k) bs)
      \<and> c = of_nat (v + k) \<and> iv = be_bytes 16 (v + k)"
proof (induction bs arbitrary: v out rule: measure_induct_rule [of length])
  case (less bs)
  show ?case
  proof (cases "16 \<le> length bs")
    case True
    obtain b c' where st: "ctr32_step (length bs) (of_nat v) = (b, c')" by fastforce
    note bound = ctr32_step_bounds [OF st True]
    then have c': "c' = of_nat (v + b)" by (simp only: of_nat_add of_nat_unat_word)
    have iv': "ctr32_advance c' (be_bytes 16 v) = be_bytes 16 (v + b)" unfolding c' using bound by (intro advance_keystream) simp_all
    have o1: "func (take (16 * b) bs) (be_bytes 16 v) = ctr_xor block v 0 (take (16 * b) bs)"
      using bound by (intro func_keystream [OF func, of _ b]) simp_all
    obtain o2 where r: "ctr32_blocks func (drop (16 * b) bs) (of_nat (v + b)) (be_bytes 16 (v + b)) = (o2, rest, c, iv)"
      and out: "out = ctr_xor block v 0 (take (16 * b) bs) @ o2"
      using less.prems True st iv' o1 by (auto simp: ctr32_blocks.simps [of func bs] Let_def c' split: prod.splits)
    have "length (drop (16 * b) bs) < length bs" using bound True by (simp only: length_drop) linarith
    from less.IH [OF this r] obtain k where k: "16 * k \<le> length (drop (16 * b) bs)" "rest = drop (16 * k) (drop (16 * b) bs)" "length rest < 16"
      "o2 = ctr_xor block (v + b) 0 (take (16 * k) (drop (16 * b) bs))" "c = of_nat (v + b + k)" "iv = be_bytes 16 (v + b + k)" by blast
    have "take (16 * (b + k)) bs = take (16 * b) bs @ take (16 * k) (drop (16 * b) bs)" by (simp only: take_add distrib_left)
    then have "out = ctr_xor block v 0 (take (16 * (b + k)) bs)"
      using out k(4) bound by (simp add: ctr_xor_append ctr_xor_shift)
    moreover have "16 * (b + k) \<le> length bs" using k(1) bound by auto
    moreover have "rest = drop (16 * (b + k)) bs" using k(2) by (simp add: algebra_simps)
    ultimately show ?thesis using k(3,5,6) by (intro exI [of _ "b + k"]) (simp add: add.assoc)
  next
    case False
    then show ?thesis using less.prems by (intro exI [of _ 0]) (simp add: ctr32_blocks.simps [of func bs])
  qed
qed

lemma tail_keystream:
  fixes ivec :: "byte list"
  assumes ecount: "ecount_buf = block (be_bytes 16 (v + q div 16))" and q: "q mod 16 = 0" and bs: "length bs < 16" and n: "length ecount_buf = 16"
  shows "mode_bytes (\<lambda>n (ivec, ecount_buf) b. (b XOR ecount_buf ! n, ivec, ecount_buf)) bs 0 (ivec, ecount_buf) = (ctr_xor block v q bs, length bs, ivec, ecount_buf)"
proof -
  have f: "(\<lambda>n (ivec, ecount_buf) b. (b XOR ecount_buf ! n, ivec, ecount_buf)) = (\<lambda>n s (b :: byte). (b XOR snd s ! n, (s :: byte list \<times> byte list)))"
    by (auto simp: fun_eq_iff)
  have "map2 (XOR) bs (map ((!) ecount_buf) [0..<length bs]) = ctr_xor block v q bs"
  proof (rule nth_equalityI)
    fix i assume "i < length (map2 (XOR) bs (map ((!) ecount_buf) [0..<length bs]))"
    then have i: "i < length bs" by simp
    obtain r where r: "q = 16 * r" using q by (metis mod_0_imp_dvd dvdE)
    have "ctr_keystream block v (q + i) = ecount_buf ! i" using i bs by (simp add: ctr_keystream_def ecount r)
    then show "map2 (XOR) bs (map ((!) ecount_buf) [0..<length bs]) ! i = ctr_xor block v q bs ! i" using i by simp
  qed simp
  then show ?thesis unfolding f by (simp add: xor_mode_bytes)
qed

lemma xor_zeros: "length bs = n \<Longrightarrow> map (\<lambda>i. replicate n (0 :: byte) ! i XOR bs ! i) [0..<n] = bs"
  by (rule nth_equalityI) simp_all

lemma CRYPTO_ctr32_keystream:
  assumes block: "block_cipher block" and func: "ctr32_function block func" and at: "ctr_at block v p s"
    and call: "CRYPTO_ctr128_encrypt_ctr32 func bs (p mod 16) s = (out, n', s')"
  shows "out = ctr_xor block v p bs \<and> n' = (p + length bs) mod 16 \<and> ctr_at block v (p + length bs) s'"
proof -
  let ?op = "\<lambda>n (ivec :: byte list, ecount_buf :: byte list) (b :: byte). (b XOR ecount_buf ! n, ivec, ecount_buf)"
  obtain o1 b1 n1 iv1 e1 where h: "mode_head ?op bs (p mod 16) s = (o1, b1, n1, iv1, e1)" by (rule prod_cases5)
  from head_keystream [OF block at h] obtain k where k: "k \<le> length bs" "b1 = drop k bs" "o1 = ctr_xor block v p (take k bs)"
    "n1 = (p + k) mod 16" "ctr_at block v (p + k) (iv1, e1)" "n1 = 0 \<or> b1 = []" by (elim exE conjE) (rule that)
  obtain o2 b2 c iv2 where b: "ctr32_blocks func b1 (GETU32 (drop 12 iv1)) iv1 = (o2, b2, c, iv2)" by (rule prod_cases4)
  show ?thesis
  proof (cases "n1 = 0")
    case False
    then have "b1 = []" using k(6) by simp
    then have "k = length bs" "b2 = []" "o2 = []" "iv2 = iv1" using k(1,2) b by (simp_all add: ctr32_blocks.simps)
    moreover from this have "(out, n', s') = (o1, n1, iv1, e1)"
      using call h b \<open>b1 = []\<close> by (simp add: CRYPTO_ctr128_encrypt_ctr32_def Let_def)
    ultimately show ?thesis using k by simp
  next
    case True
    then have q0: "(p + k) mod 16 = 0" using k(4) by simp
    define V where "V = v + (p + k) div 16"
    have iv1: "iv1 = be_bytes 16 V" unfolding V_def by (rule ctr_at_refill(1) [OF k(5) q0])
    have "unat (GETU32 (drop 12 iv1)) = unat (of_nat V :: 32 word)" unfolding iv1 low_counter [symmetric] by (rule unat_GETU32) simp
    then have g: "GETU32 (drop 12 iv1) = of_nat V" by (simp only: word_unat_eq_iff)
    from ctr32_blocks_keystream [OF func b [unfolded g, unfolded iv1]] obtain j where j: "16 * j \<le> length b1" "b2 = drop (16 * j) b1" "length b2 < 16"
      "o2 = ctr_xor block V 0 (take (16 * j) b1)" "c = of_nat (V + j)" "iv2 = be_bytes 16 (V + j)" by (elim exE conjE) (rule that)
    define q where "q = p + k + 16 * j"
    obtain r where r: "p + k = 16 * r" using q0 by (metis mod_0_imp_dvd dvdE)
    have q: "q mod 16 = 0" "V + j = v + q div 16" unfolding q_def V_def r by simp_all
    have pk: "p + k = 16 * ((p + k) div 16) + 0" using r by simp
    have o2: "o2 = ctr_xor block v (p + k) (take (16 * j) b1)"
      unfolding j(4) V_def ctr_xor_shift using pk by (simp only:)
    have two: "o1 @ o2 = ctr_xor block v p (take (k + 16 * j) bs)"
      unfolding k(3) o2 k(2) take_add ctr_xor_append using k(1) by simp
    have b2: "b2 = drop (k + 16 * j) bs" unfolding j(2) k(2) by (simp add: add.commute)
    have le: "k + 16 * j \<le> length bs" using j(1) k(1,2) by auto
    show ?thesis
    proof (cases "b2 = []")
      case True
      then have len: "length bs = k + 16 * j" using b2 le by simp
      have "(out, n', s') = (o1 @ o2, n1, iv2, e1)" using call h b True by (simp add: CRYPTO_ctr128_encrypt_ctr32_def Let_def)
      moreover have "p + length bs = q" unfolding len q_def by simp
      moreover have "ctr_at block v q (iv2, e1)" using q k(5) blocks_up [of q] unfolding ctr_at_def j(6) by simp
      ultimately show ?thesis using two len \<open>n1 = 0\<close> q(1) by simp
    next
      case False
      define e where "e = block (be_bytes 16 (v + q div 16))"
      have e16: "length e = 16" unfolding e_def using block unfolding block_cipher_def by (metis length_be_bytes)
      have "unat w < 2 ^ 32" for w :: "32 word" using unsigned_less [of w] by simp
      then have bound: "unat (of_nat (V + j) :: 32 word) + 1 \<le> 2 ^ 32" by (simp only: Suc_eq_plus1 [symmetric] Suc_le_eq)
      have "func (replicate 16 0) iv2 = ctr_xor block (V + j) 0 (replicate 16 0)"
        unfolding j(6) by (rule func_keystream [OF func _ bound]) simp
      also have "\<dots> = map (\<lambda>i. replicate 16 0 ! i XOR e ! i) [0..<16]"
        unfolding ctr_xor_def by (rule map_cong) (simp_all add: ctr_keystream_def e_def q(2))
      also have "\<dots> = e" using e16 by (rule xor_zeros)
      finally have f: "func (replicate 16 0) iv2 = e" .
      have "ctr32_advance (c + 1) iv2 = be_bytes 16 (V + j + 1)"
        unfolding j(5,6) using advance_keystream [OF bound] by (simp only: of_nat_add of_nat_1 zero_less_one simp_thms)
      moreover define iv3 where "iv3 = be_bytes 16 (v + q div 16 + 1)"
      ultimately have a: "ctr32_advance (c + 1) iv2 = iv3" unfolding q(2) by metis
      have t: "mode_bytes ?op b2 0 (iv3, e) = (ctr_xor block v q b2, length b2, iv3, e)"
        by (rule tail_keystream [where block = block, OF e_def q(1) j(3) e16])
      have r: "(out, n', s') = (o1 @ o2 @ ctr_xor block v q b2, length b2, iv3, e)"
        using call h b False \<open>n1 = 0\<close> by (simp add: CRYPTO_ctr128_encrypt_ctr32_def Let_def f a t)
      have len: "p + length bs = q + length b2" unfolding b2 q_def using le by simp
      have "bs = take (k + 16 * j) bs @ b2" unfolding b2 by simp
      then have out: "ctr_xor block v p bs = ctr_xor block v p (take (k + 16 * j) bs) @ ctr_xor block v q b2"
        using ctr_xor_append [of block v p "take (k + 16 * j) bs" b2] le by (simp add: q_def add.assoc)
      obtain m where m: "q = 16 * m" using q(1) by (metis mod_0_imp_dvd dvdE)
      have b2n: "0 < length b2" "length b2 < 16" using False j(3) by simp_all
      have mods: "(q + length b2) mod 16 = length b2" "(q + length b2) div 16 = q div 16" using b2n unfolding m by simp_all
      have "ctr_at block v (q + length b2) (iv3, e)"
        unfolding iv3_def ctr_at_def prod.case blocks_up mods using b2n e16 by (simp add: e_def add.assoc)
      then show ?thesis using r out two len mods(1) by simp
    qed
  qed
qed

end
