(* ===== verification/Modes_Cbc.thy ===== *)
theory Modes_Cbc
  imports Modes
begin

text \<open>
  CBC (\<open>cbc.c\<close>). \<open>in\<close> and \<open>out\<close> may overlap, so both are positions in one memory; \<open>iv\<close> is a pointer
  either to the array \<open>ivec\<close> (\<open>None\<close>) or into that memory.
\<close>

definition mem_bytes :: "byte list \<Rightarrow> nat \<Rightarrow> nat \<Rightarrow> byte list" where
  "mem_bytes mem p n = take n (drop p mem)"

definition iv_bytes :: "byte list \<Rightarrow> byte list \<Rightarrow> nat option \<Rightarrow> nat \<Rightarrow> nat \<Rightarrow> byte list" where
  "iv_bytes ivec mem iv n k = (case iv of None \<Rightarrow> mem_bytes ivec n k | Some p \<Rightarrow> mem_bytes mem (p + n) k)"

definition cbc_xor_words :: "byte list \<Rightarrow> nat \<Rightarrow> nat \<Rightarrow> nat option \<Rightarrow> byte list \<Rightarrow> byte list" where
  "cbc_xor_words ivec src dst iv mem =
    foldl (\<lambda>mem n. mem_write mem (dst + n) (store_word_le (load_word_le (mem_bytes mem (src + n) 8) XOR load_word_le (iv_bytes ivec mem iv n 8)))) mem [0, 8]"

function cbc_encrypt_blocks :: "(byte list \<Rightarrow> byte list) \<Rightarrow> byte list \<Rightarrow> nat \<Rightarrow> nat \<Rightarrow> nat \<Rightarrow> nat option \<Rightarrow> byte list \<Rightarrow> byte list \<times> nat \<times> nat \<times> nat \<times> nat option" where
  "cbc_encrypt_blocks block ivec i out len iv mem =
    (if 16 \<le> len then
       (let mem = cbc_xor_words ivec i out iv mem;
            mem = mem_write mem out (block (mem_bytes mem out 16))
        in cbc_encrypt_blocks block ivec (i + 16) (out + 16) (len - 16) (Some out) mem)
     else (mem, i, out, len, iv))"
  by pat_completeness auto
termination
  by (relation "measure (\<lambda>(_, _, _, _, len, _, _). len)") auto

declare cbc_encrypt_blocks.simps [simp del]

function cbc_encrypt_rest :: "(byte list \<Rightarrow> byte list) \<Rightarrow> byte list \<Rightarrow> nat \<Rightarrow> nat \<Rightarrow> nat \<Rightarrow> nat option \<Rightarrow> byte list \<Rightarrow> byte list \<times> nat option" where
  "cbc_encrypt_rest block ivec i out len iv mem =
    (if len = 0 then (mem, iv)
     else
       (let n = min 16 len;
            mem = foldl (\<lambda>mem n. mem[out + n := mem ! (i + n) XOR hd (iv_bytes ivec mem iv n 1)]) mem [0..<n];
            mem = foldl (\<lambda>mem n. mem[out + n := hd (iv_bytes ivec mem iv n 1)]) mem [n..<16];
            mem = mem_write mem out (block (mem_bytes mem out 16))
        in if len \<le> 16 then (mem, Some out) else cbc_encrypt_rest block ivec (i + 16) (out + 16) (len - 16) (Some out) mem))"
  by pat_completeness auto
termination
  by (relation "measure (\<lambda>(_, _, _, _, len, _, _). len)") auto

declare cbc_encrypt_rest.simps [simp del]

definition CRYPTO_cbc128_encrypt :: "(byte list \<Rightarrow> byte list) \<Rightarrow> nat \<Rightarrow> nat \<Rightarrow> nat \<Rightarrow> byte list \<Rightarrow> byte list \<Rightarrow> byte list \<times> byte list" where
  "CRYPTO_cbc128_encrypt block i out len ivec mem =
    (case cbc_encrypt_blocks block ivec i out len None mem of (mem, i, out, len, iv) \<Rightarrow>
     case cbc_encrypt_rest block ivec i out len iv mem of (mem, iv) \<Rightarrow> (mem, iv_bytes ivec mem iv 0 16))"

text \<open>
  Decryption. Where \<open>out\<close> is two blocks behind \<open>in\<close>, or ahead of it, the block is decrypted into \<open>out\<close>
  and \<open>iv\<close> points to the ciphertext; else it goes through \<open>tmp\<close>, and the ciphertext is copied to \<open>ivec\<close>.
\<close>

function cbc_decrypt_direct :: "(byte list \<Rightarrow> byte list) \<Rightarrow> byte list \<Rightarrow> nat \<Rightarrow> nat \<Rightarrow> nat \<Rightarrow> nat option \<Rightarrow> byte list \<Rightarrow> byte list \<times> nat \<times> nat \<times> nat \<times> nat option" where
  "cbc_decrypt_direct block ivec i out len iv mem =
    (if 16 \<le> len then
       (let mem = mem_write mem out (block (mem_bytes mem i 16));
            mem = cbc_xor_words ivec out out iv mem
        in cbc_decrypt_direct block ivec (i + 16) (out + 16) (len - 16) (Some i) mem)
     else (mem, i, out, len, iv))"
  by pat_completeness auto
termination
  by (relation "measure (\<lambda>(_, _, _, _, len, _, _). len)") auto

declare cbc_decrypt_direct.simps [simp del]

function cbc_decrypt_tmp :: "(byte list \<Rightarrow> byte list) \<Rightarrow> nat \<Rightarrow> nat \<Rightarrow> nat \<Rightarrow> byte list \<Rightarrow> byte list \<Rightarrow> byte list \<times> nat \<times> nat \<times> nat \<times> byte list" where
  "cbc_decrypt_tmp block i out len ivec mem =
    (if 16 \<le> len then
       (let tmp = block (mem_bytes mem i 16);
            (mem, ivec) = foldl (\<lambda>(mem, ivec) n.
              let c = load_word_le (mem_bytes mem (i + n) 8);
                  mem = mem_write mem (out + n) (store_word_le (load_word_le (mem_bytes tmp n 8) XOR load_word_le (mem_bytes ivec n 8)))
              in (mem, mem_write ivec n (store_word_le c))) (mem, ivec) [0, 8]
        in cbc_decrypt_tmp block (i + 16) (out + 16) (len - 16) ivec mem)
     else (mem, i, out, len, ivec))"
  by pat_completeness auto
termination
  by (relation "measure (\<lambda>(_, _, _, len, _, _). len)") auto

declare cbc_decrypt_tmp.simps [simp del]

function cbc_decrypt_rest :: "(byte list \<Rightarrow> byte list) \<Rightarrow> nat \<Rightarrow> nat \<Rightarrow> nat \<Rightarrow> byte list \<Rightarrow> byte list \<Rightarrow> byte list \<times> byte list" where
  "cbc_decrypt_rest block i out len ivec mem =
    (if len = 0 then (mem, ivec)
     else
       (let tmp = block (mem_bytes mem i 16);
            n = min 16 len;
            (mem, ivec) = foldl (\<lambda>(mem, ivec) n.
              let c = mem ! (i + n) in (mem[out + n := tmp ! n XOR ivec ! n], ivec[n := c])) (mem, ivec) [0..<n]
        in if len \<le> 16 then (mem, foldl (\<lambda>ivec n. ivec[n := mem ! (i + n)]) ivec [n..<16])
           else cbc_decrypt_rest block (i + 16) (out + 16) (len - 16) ivec mem))"
  by pat_completeness auto
termination
  by (relation "measure (\<lambda>(_, _, _, len, _, _). len)") auto

declare cbc_decrypt_rest.simps [simp del]

definition CRYPTO_cbc128_decrypt :: "(byte list \<Rightarrow> byte list) \<Rightarrow> nat \<Rightarrow> nat \<Rightarrow> nat \<Rightarrow> byte list \<Rightarrow> byte list \<Rightarrow> byte list \<times> byte list" where
  "CRYPTO_cbc128_decrypt block i out len ivec mem =
    (case
       (if (32 \<le> i \<and> out \<le> i - 32) \<or> i < out then
          (case cbc_decrypt_direct block ivec i out len None mem of (mem, i, out, len, iv) \<Rightarrow> (mem, i, out, len, iv_bytes ivec mem iv 0 16))
        else cbc_decrypt_tmp block i out len ivec mem) of
     (mem, i, out, len, ivec) \<Rightarrow> cbc_decrypt_rest block i out len ivec mem)"

subsection \<open>Reading and writing the memory\<close>

lemma length_mem_bytes: "p + n \<le> length mem \<Longrightarrow> length (mem_bytes mem p n) = n"
  by (simp add: mem_bytes_def)

lemma nth_mem_bytes: "p + n \<le> length mem \<Longrightarrow> j < n \<Longrightarrow> mem_bytes mem p n ! j = mem ! (p + j)"
  by (simp add: mem_bytes_def)

lemma mem_bytes_add: "mem_bytes mem p (m + n) = mem_bytes mem p m @ mem_bytes mem (p + m) n"
  by (simp add: mem_bytes_def take_add add.commute)

lemma mem_bytes_away:
  assumes "o' + length bs \<le> length mem" and "p + n \<le> o' \<or> o' + length bs \<le> p"
  shows "mem_bytes (mem_write mem o' bs) p n = mem_bytes mem p n"
proof (cases "p + n \<le> o'")
  case True
  have "mem_bytes m p n = drop p (take (p + n) m)" for m by (simp add: mem_bytes_def drop_take)
  then show ?thesis using True assms(1) by simp
next
  case False
  then show ?thesis using assms by (simp add: mem_bytes_def drop_mem_write_after)
qed

lemma mem_bytes_written:
  assumes "o' + length bs \<le> length mem" and "length bs = n"
  shows "mem_bytes (mem_write mem o' bs) o' n = bs"
  using assms by (simp add: mem_bytes_def mem_write_def)

lemma mem_write_again:
  assumes "o' + length xs \<le> length mem" and "length xs = length ys"
  shows "mem_write (mem_write mem o' xs) o' ys = mem_write mem o' ys"
  using assms by (simp add: mem_write_def)

text \<open>A loop that stores byte after byte.\<close>

lemma foldl_stores:
  assumes "\<And>n. a \<le> n \<Longrightarrow> n < k \<Longrightarrow> f (mem_write mem p (map g [0..<n])) n = g n" and "p + k \<le> length mem" and "a \<le> k"
  shows "foldl (\<lambda>m n. m[p + n := f m n]) (mem_write mem p (map g [0..<a])) [a..<k] = mem_write mem p (map g [0..<k])"
  using assms
proof (induction k)
  case (Suc k)
  show ?case
  proof (cases "a = Suc k")
    case False
    then have a: "a \<le> k" using Suc.prems(3) by simp
    let ?m = "mem_write mem p (map g [0..<k])"
    have "foldl (\<lambda>m n. m[p + n := f m n]) (mem_write mem p (map g [0..<a])) [a..<Suc k] = ?m[p + k := f ?m k]"
      using Suc.IH Suc.prems a by simp
    also have "\<dots> = mem_write ?m (p + k) [g k]"
      using Suc.prems a by (subst list_update_mem_write) simp_all
    also have "\<dots> = mem_write mem p (map g [0..<k] @ [g k])"
      using mem_write_append [of p "map g [0..<k]" "[g k]" mem] Suc.prems(2) by simp
    finally show ?thesis by simp
  qed simp
qed simp

text \<open>Where the block before is: in \<open>ivec\<close>, or in the memory away from the bytes that are written.\<close>

definition iv_outside :: "byte list \<Rightarrow> byte list \<Rightarrow> nat option \<Rightarrow> nat \<Rightarrow> nat \<Rightarrow> bool" where
  "iv_outside ivec mem iv p n \<longleftrightarrow>
    (case iv of None \<Rightarrow> length ivec = 16 | Some q \<Rightarrow> q + 16 \<le> length mem \<and> (q + 16 \<le> p \<or> p + n \<le> q))"

lemma iv_bytes_away:
  assumes "iv_outside ivec mem iv p (length bs)" and "p + length bs \<le> length mem" and "n + k \<le> 16"
  shows "iv_bytes ivec (mem_write mem p bs) iv n k = iv_bytes ivec mem iv n k"
  using assms by (auto simp: iv_bytes_def iv_outside_def mem_bytes_away split: option.splits)

lemma length_iv_bytes: "iv_outside ivec mem iv p m \<Longrightarrow> n + k \<le> 16 \<Longrightarrow> length (iv_bytes ivec mem iv n k) = k"
  by (auto simp: iv_bytes_def iv_outside_def length_mem_bytes split: option.splits)

lemma iv_bytes_add: "iv_bytes ivec mem iv n (k + m) = iv_bytes ivec mem iv n k @ iv_bytes ivec mem iv (n + k) m"
  by (simp add: iv_bytes_def mem_bytes_add add.assoc split: option.split)

lemma hd_iv_bytes:
  assumes "iv_outside ivec mem iv p m" and "n < 16"
  shows "hd (iv_bytes ivec mem iv n 1) = iv_bytes ivec mem iv 0 16 ! n"
  using assms by (auto simp: iv_bytes_def iv_outside_def mem_bytes_def hd_drop_conv_nth take_Suc drop_Suc hd_conv_nth nth_tl split: option.splits)

lemma iv_outside_shorter: "iv_outside ivec mem iv p n \<Longrightarrow> m \<le> n \<Longrightarrow> iv_outside ivec mem iv p m"
  by (auto simp: iv_outside_def split: option.splits)

lemma xor_bytes_append: "length a = length b \<Longrightarrow> xor_bytes (a @ c) (b @ d) = xor_bytes a b @ xor_bytes c d"
  by (simp add: xor_bytes_def)

lemma cbc_xor_words_eq:
  assumes src: "src + 16 \<le> length mem" "dst \<le> src \<or> src + 16 \<le> dst" and dst: "dst + 16 \<le> length mem"
    and iv: "iv_outside ivec mem iv dst 16"
  shows "cbc_xor_words ivec src dst iv mem = mem_write mem dst (xor_bytes (mem_bytes mem src 16) (iv_bytes ivec mem iv 0 16))"
proof -
  let ?x0 = "mem_bytes mem src 8" and ?x1 = "mem_bytes mem (src + 8) 8" and ?v0 = "iv_bytes ivec mem iv 0 8" and ?v1 = "iv_bytes ivec mem iv 8 8"
  let ?w0 = "xor_bytes ?x0 ?v0" and ?w1 = "xor_bytes ?x1 ?v1"
  have len: "length ?x0 = 8" "length ?x1 = 8" "length ?v0 = 8" "length ?v1 = 8"
    using src(1) length_iv_bytes [OF iv, of 0 8] length_iv_bytes [OF iv, of 8 8] by (simp_all add: length_mem_bytes)
  then have w: "length ?w0 = 8" "length ?w1 = 8" by simp_all
  have x1: "mem_bytes (mem_write mem dst ?w0) (src + 8) 8 = ?x1"
    using src dst w by (intro mem_bytes_away) auto
  have v1: "iv_bytes ivec (mem_write mem dst ?w0) iv 8 8 = ?v1"
    using dst w iv_outside_shorter [OF iv, of 8] by (intro iv_bytes_away) simp_all
  have "cbc_xor_words ivec src dst iv mem = mem_write (mem_write mem dst ?w0) (dst + 8) ?w1"
    using len by (simp add: cbc_xor_words_def store_xor_load x1 v1)
  also have "\<dots> = mem_write mem dst (?w0 @ ?w1)"
    using mem_write_append [of dst ?w0 ?w1 mem] w dst by simp
  also have "?w0 @ ?w1 = xor_bytes (?x0 @ ?x1) (?v0 @ ?v1)"
    using len by (simp only: xor_bytes_append)
  also have "?x0 @ ?x1 = mem_bytes mem src 16" using mem_bytes_add [of mem src 8 8] by simp
  also have "?v0 @ ?v1 = iv_bytes ivec mem iv 0 16" using iv_bytes_add [of ivec mem iv 0 8 8] by simp
  finally show ?thesis .
qed

subsection \<open>CBC as a function of the bytes\<close>

function cbc_enc :: "(byte list \<Rightarrow> byte list) \<Rightarrow> byte list \<Rightarrow> byte list \<Rightarrow> byte list" where
  "cbc_enc block iv xs =
    (if xs = [] then []
     else (let c = block (xor_bytes (take 16 xs @ replicate (16 - length xs) 0) iv) in c @ cbc_enc block c (drop 16 xs)))"
  by pat_completeness auto
termination
  by (relation "measure (\<lambda>(_, _, xs). length xs)") auto

declare cbc_enc.simps [simp del]

function cbc_dec :: "(byte list \<Rightarrow> byte list) \<Rightarrow> byte list \<Rightarrow> byte list \<Rightarrow> byte list" where
  "cbc_dec block iv cs = (if cs = [] then [] else xor_bytes (block (take 16 cs)) iv @ cbc_dec block (take 16 cs) (drop 16 cs))"
  by pat_completeness auto
termination
  by (relation "measure (\<lambda>(_, _, cs). length cs)") auto

declare cbc_dec.simps [simp del]

definition last_block :: "byte list \<Rightarrow> byte list \<Rightarrow> byte list" where
  "last_block iv cs = (if cs = [] then iv else drop (length cs - 16) cs)"

definition up16 :: "nat \<Rightarrow> nat" where
  "up16 n = (n + 15) div 16 * 16"

lemma up16_0 [simp]: "up16 0 = 0"
  by (simp add: up16_def)

lemma up16_add [simp]: "up16 (16 + n) = 16 + up16 n"
proof -
  have "16 + n + 15 = n + 15 + 16" by simp
  then show ?thesis unfolding up16_def by (simp only: div_add_self2) simp
qed

lemma up16_step: "16 \<le> n \<Longrightarrow> up16 n = 16 + up16 (n - 16)"
  using up16_add [of "n - 16"] by simp

lemma up16_small: "0 < n \<Longrightarrow> n \<le> 16 \<Longrightarrow> up16 n = 16"
  by (simp add: up16_def)

lemma up16_le: "n \<le> up16 n"
  unfolding up16_def by linarith

lemma up16_cases: "16 \<le> up16 n \<or> up16 n = 0"
  by (auto simp: up16_def)

lemma length_cbc_enc: "block_cipher block \<Longrightarrow> length iv = 16 \<Longrightarrow> length (cbc_enc block iv xs) = up16 (length xs)"
proof (induction block iv xs rule: cbc_enc.induct)
  case (1 block iv xs)
  show ?case
  proof (cases "xs = []")
    case False
    define c where "c = block (xor_bytes (take 16 xs @ replicate (16 - length xs) 0) iv)"
    have c: "length c = 16" using 1(2,3) by (simp add: c_def block_cipher_def)
    have "length (cbc_enc block c (drop 16 xs)) = up16 (length xs - 16)" using 1(1) [OF False c_def 1(2) c] by simp
    moreover have "up16 (length xs) = 16 + up16 (length xs - 16)"
    proof (cases "16 \<le> length xs")
      case False
      then show ?thesis using \<open>xs \<noteq> []\<close> by (simp add: up16_small)
    qed (rule up16_step)
    ultimately show ?thesis using False c by (simp add: cbc_enc.simps [of block iv xs] Let_def c_def [symmetric])
  qed (simp add: cbc_enc.simps)
qed

subsection \<open>Encryption\<close>

lemma last_block_append: "length c = 16 \<Longrightarrow> 16 \<le> length ys \<or> ys = [] \<Longrightarrow> last_block iv (c @ ys) = last_block c ys"
  by (auto simp: last_block_def)

lemma cbc_enc_block:
  assumes "16 \<le> length xs"
  shows "cbc_enc block iv xs = (let c = block (xor_bytes (take 16 xs) iv) in c @ cbc_enc block c (drop 16 xs))"
  using assms by (subst cbc_enc.simps) auto

lemma cbc_enc_last:
  assumes "0 < length xs" and "length xs \<le> 16"
  shows "cbc_enc block iv xs = block (xor_bytes (xs @ replicate (16 - length xs) 0) iv)"
  using assms by (subst cbc_enc.simps) (simp add: Let_def cbc_enc.simps)

lemma mem_bytes_drop: "drop m (mem_bytes mem p (m + n)) = mem_bytes mem (p + m) n"
  by (simp add: mem_bytes_def drop_take add.commute)

lemma mem_bytes_take: "m \<le> n \<Longrightarrow> take m (mem_bytes mem p n) = mem_bytes mem p m"
  by (simp add: mem_bytes_def min_def)

text \<open>The loop for the last, partial block fills it up with the bytes of \<open>iv\<close>: the same as zeros.\<close>

lemma cbc_rest_block:
  assumes len: "0 < n" "n \<le> 16" and src: "i + n \<le> length mem" "p \<le> i \<or> i + n \<le> p" and dst: "p + 16 \<le> length mem"
    and iv: "iv_outside ivec mem iv p 16"
  shows "foldl (\<lambda>mem n. mem[p + n := hd (iv_bytes ivec mem iv n 1)])
      (foldl (\<lambda>mem n. mem[p + n := mem ! (i + n) XOR hd (iv_bytes ivec mem iv n 1)]) mem [0..<n]) [n..<16] =
    mem_write mem p (xor_bytes (mem_bytes mem i n @ replicate (16 - n) 0) (iv_bytes ivec mem iv 0 16))"
proof -
  define v where "v = iv_bytes ivec mem iv 0 16"
  define g where "g k = (if k < n then mem ! (i + k) XOR v ! k else v ! k)" for k
  have v: "length v = 16" unfolding v_def by (rule length_iv_bytes [OF iv]) simp
  have out: "iv_outside ivec (mem_write mem p (map g [0..<k])) iv p 16" if "k \<le> 16" for k
    using iv that dst by (simp add: iv_outside_def split: option.splits)
  have vk: "hd (iv_bytes ivec (mem_write mem p (map g [0..<k])) iv k 1) = v ! k" if "k < 16" for k
  proof -
    have "iv_bytes ivec (mem_write mem p (map g [0..<k])) iv 0 16 = v"
      unfolding v_def using that dst iv_outside_shorter [OF iv, of k] by (intro iv_bytes_away) simp_all
    then show ?thesis using hd_iv_bytes [OF out, of k k] that by simp
  qed
  have xk: "mem_write mem p (map g [0..<k]) ! (i + k) = mem ! (i + k)" if "k < n" for k
    using that src dst len by (subst nth_mem_write) auto
  have a: "foldl (\<lambda>mem n. mem[p + n := mem ! (i + n) XOR hd (iv_bytes ivec mem iv n 1)]) (mem_write mem p (map g [0..<0])) [0..<n] = mem_write mem p (map g [0..<n])"
    using len dst by (intro foldl_stores) (simp_all add: vk [unfolded One_nat_def] xk g_def)
  have b: "foldl (\<lambda>mem n. mem[p + n := hd (iv_bytes ivec mem iv n 1)]) (mem_write mem p (map g [0..<n])) [n..<16] = mem_write mem p (map g [0..<16])"
    using len dst by (intro foldl_stores) (simp_all add: vk [unfolded One_nat_def] g_def)
  have "map g [0..<16] = xor_bytes (mem_bytes mem i n @ replicate (16 - n) 0) v"
    using v len src by (intro nth_equalityI) (auto simp: g_def nth_append length_mem_bytes nth_mem_bytes)
  then show ?thesis using a b by (simp add: v_def)
qed

lemma cbc_encrypt_exact:
  assumes block: "block_cipher block"
  shows "i + n \<le> length mem \<Longrightarrow> p + up16 n \<le> length mem \<Longrightarrow> p \<le> i \<or> i + n \<le> p \<Longrightarrow>
    (case iv of None \<Rightarrow> length ivec = 16 | Some q \<Rightarrow> q + 16 = p \<and> p \<le> length mem) \<Longrightarrow>
    v = iv_bytes ivec mem iv 0 16 \<Longrightarrow> E = cbc_enc block v (mem_bytes mem i n) \<Longrightarrow>
    (case cbc_encrypt_blocks block ivec i p n iv mem of (mem, i, p, n, iv) \<Rightarrow>
     case cbc_encrypt_rest block ivec i p n iv mem of (mem, iv) \<Rightarrow> (mem, iv_bytes ivec mem iv 0 16)) =
    (mem_write mem p E, last_block v E)"
proof (induction n arbitrary: i p iv mem v E rule: less_induct)
  case (less n)
  have out: "iv_outside ivec mem iv p m" for m using less.prems(4) by (auto simp: iv_outside_def split: option.splits)
  have v: "length v = 16" unfolding less.prems(5) using length_iv_bytes [OF out] by simp
  note E = less.prems(6)
  consider "n = 0" | "0 < n" "n < 16" | "16 \<le> n" by linarith
  then show ?case
  proof cases
    case 1
    then have "E = []" by (simp add: E mem_bytes_def cbc_enc.simps)
    then show ?thesis using 1 less.prems(5) by (simp add: cbc_encrypt_blocks.simps cbc_encrypt_rest.simps last_block_def)
  next
    case 2
    have len: "length (mem_bytes mem i n) = n" using less.prems(1) by (rule length_mem_bytes)
    let ?x = "xor_bytes (mem_bytes mem i n @ replicate (16 - n) 0) v"
    have e: "E = block ?x" unfolding E using 2 len by (subst cbc_enc_last) simp_all
    have x: "length ?x = 16" using v 2 len by simp
    then have e16: "length E = 16" using block by (simp add: e block_cipher_def)
    have p: "p + 16 \<le> length mem" using less.prems(2) 2 by (simp add: up16_small)
    have "cbc_encrypt_rest block ivec i p n iv mem = (mem_write mem p E, Some p)"
      using 2 p x e16 cbc_rest_block [OF 2(1) less_imp_le [OF 2(2)] less.prems(1,3) p out]
      by (simp add: cbc_encrypt_rest.simps [of block ivec i p n] Let_def min_def less.prems(5) [symmetric] mem_bytes_written e [symmetric] mem_write_again)
    moreover have "iv_bytes ivec (mem_write mem p E) (Some p) 0 16 = E" using p e16 by (simp add: iv_bytes_def mem_bytes_written)
    moreover have "last_block v E = E" using e16 by (auto simp: last_block_def)
    ultimately show ?thesis using 2 by (simp add: cbc_encrypt_blocks.simps [of block ivec i p n])
  next
    case 3
    then obtain m where n: "n = 16 + m" by (metis le_Suc_ex)
    have src: "i + 16 \<le> length mem" "p \<le> i \<or> i + 16 \<le> p" and dst: "p + 16 \<le> length mem" "p + 16 + up16 m \<le> length mem"
      using less.prems(1-3) n by auto
    define c where "c = block (xor_bytes (mem_bytes mem i 16) v)"
    have x: "length (xor_bytes (mem_bytes mem i 16) v) = 16" using v src(1) by (simp add: length_mem_bytes)
    then have c: "length c = 16" using block by (simp add: c_def block_cipher_def)
    define mem1 where "mem1 = mem_write mem p c"
    have mem1: "length mem1 = length mem" unfolding mem1_def using c dst by simp
    have step: "mem_write (cbc_xor_words ivec i p iv mem) p (block (mem_bytes (cbc_xor_words ivec i p iv mem) p 16)) = mem1"
      using cbc_xor_words_eq [OF src dst(1) out] x c dst(1)
      by (simp add: less.prems(5) [symmetric] mem_bytes_written c_def [symmetric] mem_write_again mem1_def)
    have away: "mem_bytes mem1 (i + 16) m = mem_bytes mem (i + 16) m"
      unfolding mem1_def using dst(1) c less.prems(3) n by (intro mem_bytes_away) auto
    have v1: "iv_bytes ivec mem1 (Some p) 0 16 = c" unfolding mem1_def using dst c by (simp add: iv_bytes_def mem_bytes_written)
    let ?E = "cbc_enc block c (mem_bytes mem (i + 16) m)"
    have IH: "(case cbc_encrypt_blocks block ivec (i + 16) (p + 16) m (Some p) mem1 of (mem, i, p, n, iv) \<Rightarrow>
         case cbc_encrypt_rest block ivec i p n iv mem of (mem, iv) \<Rightarrow> (mem, iv_bytes ivec mem iv 0 16)) =
        (mem_write mem1 (p + 16) ?E, last_block c ?E)"
      using less.prems(1-3) n dst mem1 away v1 by (intro less.IH) auto
    have len: "length (mem_bytes mem i n) = n" using less.prems(1) by (rule length_mem_bytes)
    have "take 16 (mem_bytes mem i n) = mem_bytes mem i 16" "drop 16 (mem_bytes mem i n) = mem_bytes mem (i + 16) m"
      using mem_bytes_drop [of 16 mem i m] by (simp_all add: n mem_bytes_take)
    then have E': "E = c @ ?E" unfolding E using len 3 by (subst cbc_enc_block) (simp_all add: Let_def c_def)
    have el: "length ?E = up16 m" using length_cbc_enc [OF block c] less.prems(1) n by (simp add: length_mem_bytes)
    have "mem_write mem1 (p + 16) ?E = mem_write mem p E"
      unfolding E' mem1_def using mem_write_append [of p c ?E mem] c el dst by simp
    moreover have "last_block v E = last_block c ?E"
      unfolding E' using c up16_cases [of m] by (intro last_block_append) (simp_all add: el length_0_conv [symmetric] del: length_0_conv)
    moreover have "cbc_encrypt_blocks block ivec i p n iv mem = cbc_encrypt_blocks block ivec (i + 16) (p + 16) m (Some p) mem1"
      using 3 n by (subst cbc_encrypt_blocks.simps) (simp add: Let_def step)
    ultimately show ?thesis using IH by (simp only:)
  qed
qed

lemma CRYPTO_cbc128_encrypt_exact:
  assumes "block_cipher block" and "length ivec = 16"
    and "i + n \<le> length mem" and "p + up16 n \<le> length mem" and "p \<le> i \<or> i + n \<le> p"
  shows "CRYPTO_cbc128_encrypt block i p n ivec mem =
    (mem_write mem p (cbc_enc block ivec (mem_bytes mem i n)), last_block ivec (cbc_enc block ivec (mem_bytes mem i n)))"
proof -
  have "iv_bytes ivec mem None 0 16 = ivec" using assms(2) by (simp add: iv_bytes_def mem_bytes_def)
  then show ?thesis unfolding CRYPTO_cbc128_encrypt_def using assms by (intro cbc_encrypt_exact) simp_all
qed

subsection \<open>Decryption\<close>

lemma length_cbc_dec: "block_cipher block \<Longrightarrow> length iv = 16 \<Longrightarrow> length cs = 16 * k \<Longrightarrow> length (cbc_dec block iv cs) = length cs"
proof (induction k arbitrary: iv cs)
  case (Suc k)
  then have "length (cbc_dec block (take 16 cs) (drop 16 cs)) = length (drop 16 cs)" by simp
  moreover have "length (block (take 16 cs)) = 16" using Suc.prems by (simp add: block_cipher_def)
  ultimately show ?case using Suc.prems by (subst cbc_dec.simps) auto
qed (simp add: cbc_dec.simps)

lemma cbc_dec_enc:
  assumes "block_cipher block" and "\<And>b. length b = 16 \<Longrightarrow> unblock (block b) = b"
  shows "length iv = 16 \<Longrightarrow> take (length xs) (cbc_dec unblock iv (cbc_enc block iv xs)) = xs"
proof (induction xs arbitrary: iv rule: measure_induct_rule [of length])
  case (less xs)
  show ?case
  proof (cases "xs = []")
    case False
    let ?x = "take 16 xs @ replicate (16 - length xs) 0"
    define c where "c = block (xor_bytes ?x iv)"
    have x: "length ?x = 16" by simp
    then have "length (xor_bytes ?x iv) = 16" using less.prems by simp
    then have c: "length c = 16" "unblock c = xor_bytes ?x iv" using assms by (simp_all add: c_def block_cipher_def)
    have e: "cbc_enc block iv xs = c @ cbc_enc block c (drop 16 xs)" using False by (subst cbc_enc.simps) (simp add: Let_def c_def)
    have "xor_bytes (xor_bytes ?x iv) iv = ?x" using x less.prems by (intro nth_equalityI) (simp_all add: xor_twice)
    then have d: "cbc_dec unblock iv (cbc_enc block iv xs) = ?x @ cbc_dec unblock c (cbc_enc block c (drop 16 xs))"
      unfolding e using c by (subst cbc_dec.simps) auto
    have "take (length xs - 16) (cbc_dec unblock c (cbc_enc block c (drop 16 xs))) = drop 16 xs"
      using less.IH [of "drop 16 xs" c] False c(1) by simp
    then show ?thesis unfolding d by (cases "16 \<le> length xs") simp_all
  qed (simp add: cbc_dec.simps)
qed

lemma mem_bytes_whole: "length ivec = 16 \<Longrightarrow> mem_bytes ivec 0 16 = ivec"
  by (simp add: mem_bytes_def)

text \<open>The branch through \<open>tmp\<close>: two words of a block.\<close>

lemma cbc_tmp_block:
  assumes src: "i + 16 \<le> length mem" "p \<le> i \<or> i + 16 \<le> p" and dst: "p + 16 \<le> length mem" and tmp: "length tmp = 16" and iv: "length ivec = 16"
  shows "foldl (\<lambda>(mem, ivec) n.
      let c = load_word_le (mem_bytes mem (i + n) 8);
          mem = mem_write mem (p + n) (store_word_le (load_word_le (mem_bytes tmp n 8) XOR load_word_le (mem_bytes ivec n 8)))
      in (mem, mem_write ivec n (store_word_le c))) (mem, ivec) [0, 8] =
    (mem_write mem p (xor_bytes tmp ivec), mem_bytes mem i 16)"
proof -
  let ?t0 = "mem_bytes tmp 0 8" and ?t1 = "mem_bytes tmp 8 8" and ?v0 = "mem_bytes ivec 0 8" and ?v1 = "mem_bytes ivec 8 8"
    and ?c0 = "mem_bytes mem i 8" and ?c1 = "mem_bytes mem (i + 8) 8"
  let ?w0 = "xor_bytes ?t0 ?v0" and ?w1 = "xor_bytes ?t1 ?v1"
  have len: "length ?t0 = 8" "length ?t1 = 8" "length ?v0 = 8" "length ?v1 = 8" "length ?c0 = 8" "length ?c1 = 8"
    using src(1) tmp iv by (simp_all add: length_mem_bytes)
  then have w: "length ?w0 = 8" "length ?w1 = 8" by simp_all
  have c1: "mem_bytes (mem_write mem p ?w0) (i + 8) 8 = ?c1" using src dst w by (intro mem_bytes_away) auto
  have v1: "mem_bytes (mem_write ivec 0 ?c0) 8 8 = ?v1" using len iv by (intro mem_bytes_away) simp_all
  have "mem_write (mem_write mem p ?w0) (p + 8) ?w1 = mem_write mem p (?w0 @ ?w1)"
    using mem_write_append [of p ?w0 ?w1 mem] w dst by simp
  moreover have "?w0 @ ?w1 = xor_bytes (?t0 @ ?t1) (?v0 @ ?v1)" using len by (simp only: xor_bytes_append)
  moreover have "?t0 @ ?t1 = tmp" "?v0 @ ?v1 = ivec" "?c0 @ ?c1 = mem_bytes mem i 16"
    using mem_bytes_add [of tmp 0 8 8] mem_bytes_add [of ivec 0 8 8] mem_bytes_add [of mem i 8 8] tmp iv by (simp_all add: mem_bytes_whole)
  moreover have "mem_write (mem_write ivec 0 ?c0) 8 ?c1 = mem_write ivec 0 (?c0 @ ?c1)"
    using mem_write_append [of 0 ?c0 ?c1 ivec] len iv by simp
  moreover have "mem_write ivec 0 (mem_bytes mem i 16) = mem_bytes mem i 16" using iv src(1) by (simp add: mem_write_def length_mem_bytes)
  ultimately show ?thesis using len by (simp add: Let_def store_xor_load store_load c1 v1)
qed

text \<open>The last, partial block.\<close>

lemma cbc_rest_bytes:
  assumes src: "i + n \<le> length mem" "p \<le> i \<or> i + n \<le> p" and dst: "p + n \<le> length mem" and n: "n \<le> 16" and tmp: "length tmp = 16" and iv: "length ivec = 16"
  shows "foldl (\<lambda>(mem, ivec) n. let c = mem ! (i + n) in (mem[p + n := tmp ! n XOR ivec ! n], ivec[n := c])) (mem, ivec) [0..<n] =
    (mem_write mem p (take n (xor_bytes tmp ivec)), mem_write ivec 0 (mem_bytes mem i n))"
  using assms
proof (induction n)
  case (Suc n)
  let ?m = "mem_write mem p (take n (xor_bytes tmp ivec))" and ?v = "mem_write ivec 0 (mem_bytes mem i n)"
  have "mem_bytes mem i (n + 1) = mem_bytes mem i n @ mem_bytes mem (i + n) 1" by (rule mem_bytes_add)
  then have s: "mem_bytes mem i (Suc n) = mem_bytes mem i n @ [mem ! (i + n)]"
    using Suc.prems(1) by (simp add: mem_bytes_def take_Suc drop_Suc hd_drop_conv_nth)
  have c: "?m ! (i + n) = mem ! (i + n)" using Suc.prems by (subst nth_mem_write) auto
  have v: "?v ! n = ivec ! n" using Suc.prems by (subst nth_mem_write) (auto simp: length_mem_bytes)
  have "?m[p + n := tmp ! n XOR ivec ! n] = mem_write mem p (take n (xor_bytes tmp ivec) @ [tmp ! n XOR ivec ! n])"
    using mem_write_append [of p "take n (xor_bytes tmp ivec)" "[tmp ! n XOR ivec ! n]" mem] Suc.prems
    by (subst list_update_mem_write) (simp_all add: min_def)
  also have "take n (xor_bytes tmp ivec) @ [tmp ! n XOR ivec ! n] = take (Suc n) (xor_bytes tmp ivec)"
    using Suc.prems by (simp add: take_Suc_conv_app_nth)
  finally have m: "?m[p + n := tmp ! n XOR ivec ! n] = mem_write mem p (take (Suc n) (xor_bytes tmp ivec))" .
  have "?v[n := mem ! (i + n)] = mem_write ivec 0 (mem_bytes mem i n @ [mem ! (i + n)])"
    using mem_write_append [of 0 "mem_bytes mem i n" "[mem ! (i + n)]" ivec] Suc.prems
    by (subst list_update_mem_write) (simp_all add: length_mem_bytes)
  then have v': "?v[n := mem ! (i + n)] = mem_write ivec 0 (mem_bytes mem i (Suc n))" using s by simp
  have "foldl (\<lambda>(mem, ivec) n. let c = mem ! (i + n) in (mem[p + n := tmp ! n XOR ivec ! n], ivec[n := c])) (mem, ivec) [0..<n] = (?m, ?v)"
    using Suc by auto
  then show ?case using c v m v' by (simp add: Let_def)
qed (simp add: mem_bytes_def)

definition may_decrypt :: "nat \<Rightarrow> nat \<Rightarrow> nat \<Rightarrow> byte list \<Rightarrow> bool" where
  "may_decrypt i p n mem \<longleftrightarrow> i + up16 n \<le> length mem \<and> p + n \<le> length mem \<and> (p \<le> i \<or> i + up16 n \<le> p)"

definition decrypted :: "(byte list \<Rightarrow> byte list) \<Rightarrow> nat \<Rightarrow> nat \<Rightarrow> nat \<Rightarrow> byte list \<Rightarrow> byte list \<Rightarrow> byte list \<times> byte list" where
  "decrypted block i p n v mem =
    (mem_write mem p (take n (cbc_dec block v (mem_bytes mem i (up16 n)))), last_block v (mem_bytes mem i (up16 n)))"

lemma cbc_dec_block: "length c = 16 \<Longrightarrow> cbc_dec block v (c @ cs) = xor_bytes (block c) v @ cbc_dec block c cs"
  by (subst cbc_dec.simps) auto

lemma cbc_dec_Nil [simp]: "cbc_dec block v [] = []"
  by (simp add: cbc_dec.simps)

lemma decrypt_rest_exact:
  assumes block: "block_cipher block" and n: "n < 16" and may: "may_decrypt i p n mem" and v: "length v = 16"
  shows "cbc_decrypt_rest block i p n v mem = decrypted block i p n v mem"
proof (cases "n = 0")
  case True
  then show ?thesis by (simp add: cbc_decrypt_rest.simps decrypted_def mem_bytes_def last_block_def)
next
  case False
  then have up: "up16 n = 16" using n by (simp add: up16_small)
  have b: "i + 16 \<le> length mem" "p + n \<le> length mem" "p \<le> i \<or> i + 16 \<le> p" using may by (simp_all add: may_decrypt_def up)
  let ?C = "mem_bytes mem i 16" and ?w = "take n (xor_bytes (block (mem_bytes mem i 16)) v)"
  have C: "length ?C = 16" using b(1) by (rule length_mem_bytes)
  then have t: "length (block ?C) = 16" using block by (simp add: block_cipher_def)
  have loop: "foldl (\<lambda>(mem, ivec) n. let c = mem ! (i + n) in (mem[p + n := block ?C ! n XOR ivec ! n], ivec[n := c])) (mem, v) [0..<n] =
      (mem_write mem p ?w, mem_write v 0 (mem_bytes mem i n))"
    using b n t v by (intro cbc_rest_bytes) auto
  have w: "length ?w = n" using t v n by simp
  have "foldl (\<lambda>iv k. iv[0 + k := mem_write mem p ?w ! (i + k)]) (mem_write v 0 (map (\<lambda>k. mem ! (i + k)) [0..<n])) [n..<16] =
      mem_write v 0 (map (\<lambda>k. mem ! (i + k)) [0..<16])"
    using b n v w by (intro foldl_stores) (auto simp: nth_mem_write)
  moreover have "map (\<lambda>k. mem ! (i + k)) [0..<k] = mem_bytes mem i k" if "k \<le> 16" for k
    using that b(1) by (intro nth_equalityI) (simp_all add: length_mem_bytes nth_mem_bytes)
  ultimately have iv: "foldl (\<lambda>iv k. iv[k := mem_write mem p ?w ! (i + k)]) (mem_write v 0 (mem_bytes mem i n)) [n..<16] = ?C"
    using n v C by (simp add: mem_write_def)
  have "cbc_dec block v ?C = xor_bytes (block ?C) v" using cbc_dec_block [OF C, of block v "[]"] by simp
  moreover have "last_block v ?C = ?C" using C by (auto simp: last_block_def)
  ultimately show ?thesis
    using False n loop iv by (simp add: cbc_decrypt_rest.simps [of block i p n] Let_def min_def decrypted_def up)
qed

text \<open>One block, then the rest.\<close>

lemma decrypted_step:
  assumes block: "block_cipher block" and may: "may_decrypt i p (16 + m) mem" and v: "length v = 16"
    and c: "c = mem_bytes mem i 16" and mem1: "mem1 = mem_write mem p (xor_bytes (block c) v)"
  shows "may_decrypt (i + 16) (p + 16) m mem1" and "decrypted block (i + 16) (p + 16) m c mem1 = decrypted block i p (16 + m) v mem"
    and "length c = 16"
proof -
  have b: "i + 16 + up16 m \<le> length mem" "p + 16 + m \<le> length mem" "p \<le> i \<or> i + 16 + up16 m \<le> p"
    using may by (auto simp: may_decrypt_def)
  show c16: "length c = 16" unfolding c using b(1) by (intro length_mem_bytes) simp
  then have w: "length (xor_bytes (block c) v) = 16" using block v by (simp add: block_cipher_def)
  then have l1: "length mem1 = length mem" unfolding mem1 using b(2) by (intro length_mem_write) simp
  then show "may_decrypt (i + 16) (p + 16) m mem1" using b by (auto simp: may_decrypt_def)
  have "mem_bytes mem1 (i + 16) (up16 m) = mem_bytes mem (i + 16) (up16 m)"
    unfolding mem1 using w b by (intro mem_bytes_away) auto
  moreover have C: "mem_bytes mem i (up16 (16 + m)) = c @ mem_bytes mem (i + 16) (up16 m)" by (simp add: mem_bytes_add c)
  moreover have D: "length (mem_bytes mem (i + 16) (up16 m)) = up16 m" using b(1) by (intro length_mem_bytes) simp
  moreover have L: "last_block v (c @ mem_bytes mem (i + 16) (up16 m)) = last_block c (mem_bytes mem (i + 16) (up16 m))"
    using c16 up16_cases [of m] by (intro last_block_append) (simp_all add: D length_0_conv [symmetric] del: length_0_conv)
  moreover have "mem_write mem1 (p + 16) (take m ds) = mem_write mem p (take (16 + m) (xor_bytes (block c) v @ ds))" if "m \<le> length ds" for ds
    using mem_write_append [of p "xor_bytes (block c) v" "take m ds" mem] that w b(2) by (simp add: mem1)
  moreover have "m \<le> length (cbc_dec block c (mem_bytes mem (i + 16) (up16 m)))"
  proof -
    have "up16 m = 16 * ((m + 15) div 16)" by (simp add: up16_def)
    then show ?thesis using length_cbc_dec [OF block c16, of "mem_bytes mem (i + 16) (up16 m)" "(m + 15) div 16"] D up16_le [of m] by simp
  qed
  ultimately show "decrypted block (i + 16) (p + 16) m c mem1 = decrypted block i p (16 + m) v mem"
    unfolding decrypted_def C by (simp only: cbc_dec_block [OF c16] L)
qed

lemma decrypt_tmp_exact:
  assumes block: "block_cipher block"
  shows "may_decrypt i p n mem \<Longrightarrow> length v = 16 \<Longrightarrow>
    (case cbc_decrypt_tmp block i p n v mem of (mem, i, p, n, v) \<Rightarrow> cbc_decrypt_rest block i p n v mem) = decrypted block i p n v mem"
proof (induction n arbitrary: i p v mem rule: less_induct)
  case (less n)
  show ?case
  proof (cases "16 \<le> n")
    case True
    then obtain m where n: "n = 16 + m" by (metis le_Suc_ex)
    define c where "c = mem_bytes mem i 16"
    define mem1 where "mem1 = mem_write mem p (xor_bytes (block c) v)"
    note step = decrypted_step [OF block less.prems(1) [unfolded n] less.prems(2) c_def mem1_def]
    have t: "length (block c) = 16" using block step(3) by (simp add: block_cipher_def)
    have "foldl (\<lambda>(mem, ivec) n.
        let c = load_word_le (mem_bytes mem (i + n) 8);
            mem = mem_write mem (p + n) (store_word_le (load_word_le (mem_bytes (block (mem_bytes mem0 i 16)) n 8) XOR load_word_le (mem_bytes ivec n 8)))
        in (mem, mem_write ivec n (store_word_le c))) (mem, v) [0, 8] = (mem1, c)" if "mem0 = mem" for mem0
      unfolding that mem1_def c_def using less.prems t [unfolded c_def] n by (intro cbc_tmp_block) (auto simp: may_decrypt_def)
    note two = this [OF refl]
    have "cbc_decrypt_tmp block i p n v mem = cbc_decrypt_tmp block (i + 16) (p + 16) m c mem1"
      by (subst cbc_decrypt_tmp.simps) (simp add: Let_def True n two [unfolded Let_def] del: foldl.simps)
    moreover have "(case cbc_decrypt_tmp block (i + 16) (p + 16) m c mem1 of (mem, i, p, n, v) \<Rightarrow> cbc_decrypt_rest block i p n v mem) =
        decrypted block (i + 16) (p + 16) m c mem1"
      by (rule less.IH) (use step n in simp_all)
    ultimately show ?thesis using step(2) n by (simp only:)
  next
    case False
    then show ?thesis using decrypt_rest_exact [OF block _ less.prems] by (simp add: cbc_decrypt_tmp.simps [of block i p n])
  qed
qed

lemma decrypt_direct_exact:
  assumes block: "block_cipher block"
  shows "may_decrypt i p n mem \<Longrightarrow> p + 32 \<le> i \<or> i + up16 n \<le> p \<Longrightarrow>
    (case iv of None \<Rightarrow> length ivec = 16 | Some q \<Rightarrow> q + 16 = i) \<Longrightarrow> v = iv_bytes ivec mem iv 0 16 \<Longrightarrow>
    (case cbc_decrypt_direct block ivec i p n iv mem of (mem, i, p, n, iv) \<Rightarrow> cbc_decrypt_rest block i p n (iv_bytes ivec mem iv 0 16) mem) =
    decrypted block i p n v mem"
proof (induction n arbitrary: i p iv v mem rule: less_induct)
  case (less n)
  have fit: "i \<le> length mem" using less.prems(1) by (simp add: may_decrypt_def)
  have away: "iv_outside ivec mem iv p m" if "m \<le> 16" for m
    using less.prems(2,3) that fit by (auto simp: iv_outside_def split: option.splits)
  have v: "length v = 16" unfolding less.prems(4) using length_iv_bytes [OF away [of 0]] by simp
  show ?case
  proof (cases "16 \<le> n")
    case True
    then obtain m where n: "n = 16 + m" by (metis le_Suc_ex)
    define c where "c = mem_bytes mem i 16"
    define mem1 where "mem1 = mem_write mem p (xor_bytes (block c) v)"
    note step = decrypted_step [OF block less.prems(1) [unfolded n] v c_def mem1_def]
    have t: "length (block c) = 16" using block step(3) by (simp add: block_cipher_def)
    have p: "p + 16 \<le> length mem" using less.prems(1) n by (simp add: may_decrypt_def)
    let ?m0 = "mem_write mem p (block c)"
    have iv0: "iv_bytes ivec ?m0 iv 0 16 = v" unfolding less.prems(4) using away p t by (intro iv_bytes_away) simp_all
    have "iv_outside ivec ?m0 iv p 16" using away [of 16] p t by (simp add: iv_outside_def split: option.splits)
    then have "cbc_xor_words ivec p p iv ?m0 = mem1"
      using p t v by (subst cbc_xor_words_eq) (simp_all add: iv0 mem_bytes_written mem_write_again mem1_def)
    then have "cbc_decrypt_direct block ivec i p n iv mem = cbc_decrypt_direct block ivec (i + 16) (p + 16) m (Some i) mem1"
      by (subst cbc_decrypt_direct.simps) (simp add: Let_def True n c_def)
    moreover have "c = iv_bytes ivec mem1 (Some i) 0 16"
      unfolding mem1_def c_def iv_bytes_def using less.prems(2) p t v n by (auto simp: c_def mem_bytes_away)
    then have "(case cbc_decrypt_direct block ivec (i + 16) (p + 16) m (Some i) mem1 of (mem, i, p, n, iv) \<Rightarrow>
        cbc_decrypt_rest block i p n (iv_bytes ivec mem iv 0 16) mem) = decrypted block (i + 16) (p + 16) m c mem1"
      by (rule less.IH [rotated -1]) (use step n less.prems(2) in auto)
    ultimately show ?thesis using step(2) n by (simp only:)
  next
    case False
    then show ?thesis using decrypt_rest_exact [OF block _ less.prems(1) v] less.prems(4) by (simp add: cbc_decrypt_direct.simps [of block ivec i p n])
  qed
qed

lemma CRYPTO_cbc128_decrypt_exact:
  assumes "block_cipher block" and "length ivec = 16" and may: "may_decrypt i p n mem"
  shows "CRYPTO_cbc128_decrypt block i p n ivec mem = decrypted block i p n ivec mem"
proof (cases "(32 \<le> i \<and> p \<le> i - 32) \<or> i < p")
  case True
  then have "p + 32 \<le> i \<or> i + up16 n \<le> p" using may by (auto simp: may_decrypt_def)
  moreover have "iv_bytes ivec mem None 0 16 = ivec" using assms(2) by (simp add: iv_bytes_def mem_bytes_whole)
  ultimately have "(case cbc_decrypt_direct block ivec i p n None mem of (mem, i, p, n, iv) \<Rightarrow> cbc_decrypt_rest block i p n (iv_bytes ivec mem iv 0 16) mem) =
    decrypted block i p n ivec mem" using assms by (intro decrypt_direct_exact) simp_all
  then show ?thesis using True by (simp add: CRYPTO_cbc128_decrypt_def case_prod_beta)
next
  case False
  from decrypt_tmp_exact [OF assms(1) may assms(2)] show ?thesis unfolding CRYPTO_cbc128_decrypt_def if_not_P [OF False] .
qed

end
