(* ===== verification/Modes_Cfb.thy ===== *)
theory Modes_Cfb
  imports Modes
begin

text \<open>
  CFB with feedback of some bits (the second half of \<open>cfb.c\<close>): the input of the cipher is shifted by
  \<open>nbits\<close> and filled up with ciphertext. \<open>in\<close> and \<open>out\<close> are two arrays here. A result is the bytes of
  \<open>out\<close> and \<open>ivec\<close>; the bytes of \<open>ovec\<close> after the ciphertext are not initialised and never read.
\<close>

definition cfbr_encrypt_block :: "(byte list \<Rightarrow> byte list) \<Rightarrow> bool \<Rightarrow> nat \<Rightarrow> byte list \<Rightarrow> byte list \<Rightarrow> byte list \<times> byte list" where
  "cfbr_encrypt_block block enc nbits inp ivec =
    (if nbits = 0 \<or> nbits > 128 then ([], ivec)
     else
       (let key = block ivec;
            num = (nbits + 7) div 8;
            mixed = map (\<lambda>n. inp ! n XOR key ! n) [0..<num];
            ovec = ivec @ (if enc then mixed else take num inp);
            rem = nbits mod 8;
            num = nbits div 8
        in (mixed,
            if rem = 0 then take 16 (drop num ovec)
            else map (\<lambda>n. push_bit rem (ovec ! (n + num)) OR drop_bit (8 - rem) (ovec ! (n + num + 1))) [0..<16])))"

definition cfb1_step :: "(byte list \<Rightarrow> byte list) \<Rightarrow> bool \<Rightarrow> byte list \<Rightarrow> byte list \<times> byte list \<Rightarrow> nat \<Rightarrow> byte list \<times> byte list" where
  "cfb1_step block enc inp = (\<lambda>(out, ivec) n.
    let c = (if inp ! (n div 8) AND push_bit (7 - n mod 8) 1 \<noteq> 0 then 0x80 else 0) in
    case cfbr_encrypt_block block enc 1 [c] ivec of (d, ivec) \<Rightarrow>
      (out[n div 8 := (out ! (n div 8) AND NOT (push_bit (7 - n mod 8) 1)) OR drop_bit (n mod 8) (d ! 0 AND 0x80)], ivec))"

definition CRYPTO_cfb128_1_encrypt :: "(byte list \<Rightarrow> byte list) \<Rightarrow> bool \<Rightarrow> byte list \<Rightarrow> nat \<Rightarrow> byte list \<Rightarrow> byte list \<Rightarrow> byte list \<times> byte list" where
  "CRYPTO_cfb128_1_encrypt block enc inp bits out ivec = foldl (cfb1_step block enc inp) (out, ivec) [0..<bits]"

primrec CRYPTO_cfb128_8_encrypt :: "(byte list \<Rightarrow> byte list) \<Rightarrow> bool \<Rightarrow> byte list \<Rightarrow> byte list \<Rightarrow> byte list \<times> byte list" where
  "CRYPTO_cfb128_8_encrypt block enc [] ivec = ([], ivec)"
| "CRYPTO_cfb128_8_encrypt block enc (b # bs) ivec =
    (case cfbr_encrypt_block block enc 8 [b] ivec of (out1, ivec) \<Rightarrow>
     case CRYPTO_cfb128_8_encrypt block enc bs ivec of (out2, ivec) \<Rightarrow> (out1 @ out2, ivec))"

subsection \<open>Eight bits\<close>

lemma cfbr_8:
  assumes "length ivec = 16"
  shows "cfbr_encrypt_block block enc 8 [b] ivec =
    ([b XOR block ivec ! 0], tl ivec @ [if enc then b XOR block ivec ! 0 else b])"
  using assms by (cases ivec) (simp_all add: cfbr_encrypt_block_def Let_def)

lemma cfb8_inverse:
  "length ivec = 16 \<Longrightarrow> CRYPTO_cfb128_8_encrypt block True bs ivec = (out, ivec') \<Longrightarrow> CRYPTO_cfb128_8_encrypt block False out ivec = (bs, ivec')"
proof (induction bs arbitrary: ivec out)
  case (Cons b bs)
  let ?c = "b XOR block ivec ! 0"
  obtain o2 where r: "CRYPTO_cfb128_8_encrypt block True bs (tl ivec @ [?c]) = (o2, ivec')" "out = ?c # o2"
    using Cons.prems by (auto simp: cfbr_8 split: prod.splits)
  have "length (tl ivec @ [?c]) = 16" using Cons.prems(1) by simp
  then have "CRYPTO_cfb128_8_encrypt block False o2 (tl ivec @ [?c]) = (bs, ivec')" using r(1) by (rule Cons.IH)
  then show ?case using Cons.prems(1) by (simp add: r(2) cfbr_8 xor_twice)
qed simp

subsection \<open>One bit\<close>

text \<open>The bits of an array, most significant bit of a byte first.\<close>

definition msg_bit :: "byte list \<Rightarrow> nat \<Rightarrow> bool" where
  "msg_bit xs n = bit (xs ! (n div 8)) (7 - n mod 8)"

definition top_bit :: "byte list \<Rightarrow> bool" where
  "top_bit bs = bit (bs ! 0) 7"

definition shift_in :: "byte list \<Rightarrow> bool \<Rightarrow> byte list" where
  "shift_in ivec c = (let ovec = ivec @ [if c then 0x80 else 0] in map (\<lambda>n. push_bit 1 (ovec ! n) OR drop_bit 7 (ovec ! (n + 1))) [0..<16])"

lemma bit_0x80: "n < 8 \<Longrightarrow> bit (0x80 :: byte) n \<longleftrightarrow> n = 7"
proof -
  have "(0x80 :: byte) = push_bit 7 1" by simp
  then show "n < 8 \<Longrightarrow> ?thesis" by (simp only: bit_push_bit_iff) (auto simp: bit_1_iff)
qed

lemma drop_7: "drop_bit 7 (b :: byte) = drop_bit 7 (if bit b 7 then 0x80 else 0)"
proof (rule bit_word_eqI)
  fix n
  have "\<not> bit b (7 + n)" "\<not> bit (0x80 :: byte) (7 + n)" if "n \<noteq> 0" using that by (auto dest!: bit_imp_le_length)
  then show "bit (drop_bit 7 b) n \<longleftrightarrow> bit (drop_bit 7 (if bit b 7 then 0x80 else 0 :: byte)) n"
    using bit_0x80 [of 7] by (cases "n = 0") (simp_all add: bit_drop_bit_eq)
qed

lemma cfbr_1:
  assumes "length ivec = 16"
  shows "cfbr_encrypt_block block enc 1 [b] ivec =
    ([b XOR block ivec ! 0], shift_in ivec (if enc then bit b 7 \<noteq> top_bit (block ivec) else bit b 7))"
proof -
  have s: "map (\<lambda>n. push_bit 1 ((ivec @ [x]) ! n) OR drop_bit 7 ((ivec @ [x]) ! (n + 1))) [0..<16] = shift_in ivec (bit x 7)" for x
    unfolding shift_in_def Let_def
  proof (rule map_cong [OF refl])
    fix n assume "n \<in> set [0..<16]"
    then have n: "n < 16" by simp
    show "push_bit 1 ((ivec @ [x]) ! n) OR drop_bit 7 ((ivec @ [x]) ! (n + 1)) =
        push_bit 1 ((ivec @ [if bit x 7 then 0x80 else 0]) ! n) OR drop_bit 7 ((ivec @ [if bit x 7 then 0x80 else 0]) ! (n + 1))"
      using n assms by (cases "n = 15") (simp_all only: nth_append, auto simp: drop_7 [of x])
  qed
  show ?thesis using s by (simp add: cfbr_encrypt_block_def top_bit_def bit_xor_iff)
qed

lemma msg_bit_store:
  assumes "m < 8 * length out"
  shows "msg_bit (out[n div 8 := (out ! (n div 8) AND NOT (push_bit (7 - n mod 8) 1)) OR drop_bit (n mod 8) (d AND 0x80)]) m =
    (if m = n then bit d 7 else msg_bit out m)"
proof -
  have d: "bit (drop_bit (n mod 8) (d AND 0x80)) k \<longleftrightarrow> k = 7 - n mod 8 \<and> bit d 7" if "k < 8" for k
  proof -
    have "n mod 8 < 8" by simp
    have "bit (0x80 :: byte) (n mod 8 + k) \<longleftrightarrow> n mod 8 + k = 7"
    proof (cases "n mod 8 + k < 8")
      case False
      then show ?thesis by (auto dest: bit_imp_le_length)
    qed (rule bit_0x80)
    then show ?thesis using \<open>n mod 8 < 8\<close> by (auto simp: bit_drop_bit_eq bit_and_iff)
  qed
  show ?thesis
  proof (cases "m div 8 = n div 8")
    case True
    have "m = n \<longleftrightarrow> 7 - m mod 8 = 7 - n mod 8"
    proof
      assume "7 - m mod 8 = 7 - n mod 8"
      moreover have "m mod 8 < 8" "n mod 8 < 8" by simp_all
      ultimately have "m mod 8 = n mod 8" by linarith
      then show "m = n" using True by (metis div_mult_mod_eq)
    qed simp
    moreover have "m div 8 < length out" using assms by (simp add: less_mult_imp_div_less mult.commute)
    moreover have "bit (NOT (push_bit (7 - n mod 8) (1 :: byte))) (7 - m mod 8) \<longleftrightarrow> 7 - m mod 8 \<noteq> 7 - n mod 8"
      by (auto simp: bit_simps)
    moreover have "bit (drop_bit (n mod 8) (d AND 0x80)) (7 - m mod 8) \<longleftrightarrow> 7 - m mod 8 = 7 - n mod 8 \<and> bit d 7"
      by (rule d) simp
    ultimately have "bit ((out ! (n div 8) AND NOT (push_bit (7 - n mod 8) 1)) OR drop_bit (n mod 8) (d AND 0x80)) (7 - m mod 8) =
        (if m = n then bit d 7 else bit (out ! (n div 8)) (7 - m mod 8))"
      unfolding bit_or_iff bit_and_iff by argo
    then show ?thesis using True \<open>m div 8 < length out\<close> unfolding msg_bit_def by (simp only: nth_list_update_eq)
  next
    case False
    then have "m \<noteq> n" by blast
    then show ?thesis using False unfolding msg_bit_def by (simp only: nth_list_update_neq [OF False [symmetric]] if_False)
  qed
qed

lemma cfb1_step_eq:
  fixes inp :: "byte list" and n :: nat
  defines "c \<equiv> if msg_bit inp n then 0x80 else 0 :: byte"
  assumes iv: "length ivec = 16"
  shows "cfb1_step block enc inp (out, ivec) n =
    (out[n div 8 := (out ! (n div 8) AND NOT (push_bit (7 - n mod 8) 1)) OR drop_bit (n mod 8) ((c XOR block ivec ! 0) AND 0x80)],
     shift_in ivec (if enc then msg_bit inp n \<noteq> top_bit (block ivec) else msg_bit inp n))"
    and "bit c 7 = msg_bit inp n"
proof -
  show c: "bit c 7 = msg_bit inp n" using bit_0x80 [of 7] by (simp add: c_def)
  show "cfb1_step block enc inp (out, ivec) n =
    (out[n div 8 := (out ! (n div 8) AND NOT (push_bit (7 - n mod 8) 1)) OR drop_bit (n mod 8) ((c XOR block ivec ! 0) AND 0x80)],
     shift_in ivec (if enc then msg_bit inp n \<noteq> top_bit (block ivec) else msg_bit inp n))"
    unfolding cfb1_step_def prod.case Let_def bit_iff_and_push_bit_not_eq_0 [symmetric] msg_bit_def [symmetric] c_def [symmetric] cfbr_1 [OF iv] c
    by (simp only: nth_Cons_0)
qed

text \<open>The input of the cipher before bit \<open>n\<close>, where \<open>x\<close> gives the bits of the input.\<close>

primrec cfb1_iv :: "(byte list \<Rightarrow> byte list) \<Rightarrow> bool \<Rightarrow> (nat \<Rightarrow> bool) \<Rightarrow> byte list \<Rightarrow> nat \<Rightarrow> byte list" where
  "cfb1_iv block enc x iv 0 = iv"
| "cfb1_iv block enc x iv (Suc n) =
    (let iv = cfb1_iv block enc x iv n in shift_in iv (if enc then x n \<noteq> top_bit (block iv) else x n))"

lemma length_cfb1_iv: "length iv = 16 \<Longrightarrow> length (cfb1_iv block enc x iv n) = 16"
  by (cases n) (simp_all add: Let_def shift_in_def)

lemma cfb1_exact:
  assumes iv: "length iv = 16"
  shows "case CRYPTO_cfb128_1_encrypt block enc inp n out iv of (out', iv') \<Rightarrow>
    iv' = cfb1_iv block enc (msg_bit inp) iv n \<and> length out' = length out
    \<and> (\<forall>m < 8 * length out. msg_bit out' m = (if m < n then msg_bit inp m \<noteq> top_bit (block (cfb1_iv block enc (msg_bit inp) iv m)) else msg_bit out m))"
proof (induction n)
  case (Suc n)
  let ?iv = "cfb1_iv block enc (msg_bit inp) iv n"
  obtain o1 where o1: "CRYPTO_cfb128_1_encrypt block enc inp n out iv = (o1, ?iv)" and l: "length o1 = length out"
    and b: "\<And>m. m < 8 * length out \<Longrightarrow> msg_bit o1 m = (if m < n then msg_bit inp m \<noteq> top_bit (block (cfb1_iv block enc (msg_bit inp) iv m)) else msg_bit out m)"
    using Suc by (auto split: prod.splits)
  define c where "c = (if msg_bit inp n then 0x80 else 0 :: byte)"
  note st = cfb1_step_eq [OF length_cfb1_iv [OF iv], where inp = inp and n = n, folded c_def]
  note c = st(2)
  define o2 where "o2 = o1[n div 8 := (o1 ! (n div 8) AND NOT (push_bit (7 - n mod 8) 1)) OR drop_bit (n mod 8) ((c XOR block ?iv ! 0) AND 0x80)]"
  have "CRYPTO_cfb128_1_encrypt block enc inp (Suc n) out iv = cfb1_step block enc inp (CRYPTO_cfb128_1_encrypt block enc inp n out iv) n"
    by (simp add: CRYPTO_cfb128_1_encrypt_def)
  also have "\<dots> = (o2, cfb1_iv block enc (msg_bit inp) iv (Suc n))"
    unfolding o1 st(1) o2_def cfb1_iv.simps Let_def ..
  finally have step: "CRYPTO_cfb128_1_encrypt block enc inp (Suc n) out iv = (o2, cfb1_iv block enc (msg_bit inp) iv (Suc n))" .
  have "msg_bit o2 m = (if m < Suc n then msg_bit inp m \<noteq> top_bit (block (cfb1_iv block enc (msg_bit inp) iv m)) else msg_bit out m)"
    if "m < 8 * length out" for m
  proof -
    have "msg_bit o2 m = (if m = n then bit (c XOR block ?iv ! 0) 7 else msg_bit o1 m)"
      unfolding o2_def using that l by (intro msg_bit_store) simp
    moreover have "bit (c XOR block ?iv ! 0) 7 \<longleftrightarrow> msg_bit inp n \<noteq> top_bit (block ?iv)" by (simp add: bit_xor_iff c top_bit_def)
    ultimately show ?thesis using b [OF that] by (auto simp: less_Suc_eq)
  qed
  then show ?case using step l by (simp add: o2_def)
qed (simp add: CRYPTO_cfb128_1_encrypt_def)

lemma cfb1_iv_inverse:
  "cfb1_iv block False (\<lambda>m. x m \<noteq> top_bit (block (cfb1_iv block True x iv m))) iv n = cfb1_iv block True x iv n"
  by (induction n) (simp_all add: Let_def)

lemma cfb1_iv_cong: "(\<And>m. m < n \<Longrightarrow> x m = y m) \<Longrightarrow> cfb1_iv block enc x iv n = cfb1_iv block enc y iv n"
  by (induction n) (simp_all add: Let_def)

lemma cfb1_inverse:
  assumes iv: "length iv = 16" and n: "n \<le> 8 * length out"
    and enc: "CRYPTO_cfb128_1_encrypt block True inp n out iv = (cs, iv')"
    and dec: "CRYPTO_cfb128_1_encrypt block False cs n out2 iv = (ps, iv'')"
  shows "iv'' = iv'" and "length ps = length out2"
    and "m < 8 * length out2 \<Longrightarrow> msg_bit ps m = (if m < n then msg_bit inp m else msg_bit out2 m)"
proof -
  let ?x = "\<lambda>m. msg_bit inp m \<noteq> top_bit (block (cfb1_iv block True (msg_bit inp) iv m))"
  note e = cfb1_exact [OF iv, of block True inp n out, unfolded enc prod.case]
  note d = cfb1_exact [OF iv, of block False cs n out2, unfolded dec prod.case]
  have x: "msg_bit cs m = ?x m" if "m < n" for m using e that n by simp
  have same: "cfb1_iv block False (msg_bit cs) iv m = cfb1_iv block True (msg_bit inp) iv m" if "m \<le> n" for m
    using cfb1_iv_cong [of m "msg_bit cs" ?x block False iv] that x cfb1_iv_inverse [of block "msg_bit inp" iv m] by simp
  show "iv'' = iv'" using e d same [of n] by simp
  show "length ps = length out2" using d by simp
  show "m < 8 * length out2 \<Longrightarrow> msg_bit ps m = (if m < n then msg_bit inp m else msg_bit out2 m)"
    using d x [of m] same [of m] by (auto split: if_splits)
qed

end
