(* ===== verification/Poly1305.thy ===== *)
theory Poly1305
  imports Mem
begin

text \<open>
  Poly1305 (\<open>crypto/poly1305/poly1305.c\<close>): the portable version, which targets other than x86-64 run.
  Numbers are held in five limbs of 26 bits, in 32-bit words; the fields of the state have their names
  in the code with a \<open>p\<close> in front. The alignment of the state inside the caller's storage is left out.
\<close>

definition U8TO32_LE :: "byte list \<Rightarrow> 32 word" where
  "U8TO32_LE m = foldr (\<lambda>b w. push_bit 8 w OR ucast b) (take 4 m) 0"

definition U32TO8_LE :: "32 word \<Rightarrow> byte list" where
  "U32TO8_LE v = map (\<lambda>i. ucast (drop_bit (8 * i) v)) [0..<4]"

definition mul32x32_64 :: "32 word \<Rightarrow> 32 word \<Rightarrow> 64 word" where
  "mul32x32_64 a b = ucast a * ucast b"

record poly1305_state_st =
  pr0 :: "32 word"
  pr1 :: "32 word"
  pr2 :: "32 word"
  pr3 :: "32 word"
  pr4 :: "32 word"
  ps1 :: "32 word"
  ps2 :: "32 word"
  ps3 :: "32 word"
  ps4 :: "32 word"
  ph0 :: "32 word"
  ph1 :: "32 word"
  ph2 :: "32 word"
  ph3 :: "32 word"
  ph4 :: "32 word"
  pbuf :: "byte list"
  pbuf_used :: nat
  pkey :: "byte list"

text \<open>A block is added to \<open>h\<close>; \<open>hibit\<close> is the bit after it, \<open>1 << 24\<close> in the last limb, or 0.\<close>

definition poly1305_add_block :: "32 word \<Rightarrow> byte list \<Rightarrow> poly1305_state_st \<Rightarrow> poly1305_state_st" where
  "poly1305_add_block hibit m st =
    (let t0 = U8TO32_LE m; t1 = U8TO32_LE (drop 4 m); t2 = U8TO32_LE (drop 8 m); t3 = U8TO32_LE (drop 12 m) in
     st\<lparr>ph0 := ph0 st + (t0 AND 0x3ffffff),
        ph1 := ph1 st + ucast (drop_bit 26 (push_bit 32 (ucast t1) OR ucast t0 :: 64 word) AND 0x3ffffff),
        ph2 := ph2 st + ucast (drop_bit 20 (push_bit 32 (ucast t2) OR ucast t1 :: 64 word) AND 0x3ffffff),
        ph3 := ph3 st + ucast (drop_bit 14 (push_bit 32 (ucast t3) OR ucast t2 :: 64 word) AND 0x3ffffff),
        ph4 := ph4 st + (drop_bit 8 t3 OR hibit)\<rparr>)"

definition poly1305_mul :: "poly1305_state_st \<Rightarrow> poly1305_state_st" where
  "poly1305_mul st =
    (let t0 = mul32x32_64 (ph0 st) (pr0 st) + mul32x32_64 (ph1 st) (ps4 st) + mul32x32_64 (ph2 st) (ps3 st) + mul32x32_64 (ph3 st) (ps2 st) + mul32x32_64 (ph4 st) (ps1 st);
         t1 = mul32x32_64 (ph0 st) (pr1 st) + mul32x32_64 (ph1 st) (pr0 st) + mul32x32_64 (ph2 st) (ps4 st) + mul32x32_64 (ph3 st) (ps3 st) + mul32x32_64 (ph4 st) (ps2 st);
         t2 = mul32x32_64 (ph0 st) (pr2 st) + mul32x32_64 (ph1 st) (pr1 st) + mul32x32_64 (ph2 st) (pr0 st) + mul32x32_64 (ph3 st) (ps4 st) + mul32x32_64 (ph4 st) (ps3 st);
         t3 = mul32x32_64 (ph0 st) (pr3 st) + mul32x32_64 (ph1 st) (pr2 st) + mul32x32_64 (ph2 st) (pr1 st) + mul32x32_64 (ph3 st) (pr0 st) + mul32x32_64 (ph4 st) (ps4 st);
         t4 = mul32x32_64 (ph0 st) (pr4 st) + mul32x32_64 (ph1 st) (pr3 st) + mul32x32_64 (ph2 st) (pr2 st) + mul32x32_64 (ph3 st) (pr1 st) + mul32x32_64 (ph4 st) (pr0 st);
         h0 = ucast t0 AND 0x3ffffff; c = drop_bit 26 t0; t1 = t1 + c;
         h1 = ucast t1 AND 0x3ffffff; b = ucast (drop_bit 26 t1) :: 32 word; t2 = t2 + ucast b;
         h2 = ucast t2 AND 0x3ffffff; b = ucast (drop_bit 26 t2) :: 32 word; t3 = t3 + ucast b;
         h3 = ucast t3 AND 0x3ffffff; b = ucast (drop_bit 26 t3) :: 32 word; t4 = t4 + ucast b;
         h4 = ucast t4 AND 0x3ffffff; b = ucast (drop_bit 26 t4) :: 32 word; h0 = h0 + b * 5
     in st\<lparr>ph0 := h0, ph1 := h1, ph2 := h2, ph3 := h3, ph4 := h4\<rparr>)"

function poly1305_update :: "poly1305_state_st \<Rightarrow> byte list \<Rightarrow> poly1305_state_st" where
  "poly1305_update st inp =
    (if 16 \<le> length inp then poly1305_update (poly1305_mul (poly1305_add_block (push_bit 24 1) (take 16 inp) st)) (drop 16 inp)
     else if inp = [] then st
     else (let mp = inp @ [1] @ replicate (15 - length inp) 0 in poly1305_mul (poly1305_add_block 0 mp st)))"
  by pat_completeness auto
termination
  by (relation "measure (\<lambda>(_, inp). length inp)") auto

declare poly1305_update.simps [simp del]

text \<open>\<open>CRYPTO_poly1305_init\<close> leaves \<open>buf\<close> as it is in the caller's storage \<open>st\<close>.\<close>

definition CRYPTO_poly1305_init :: "poly1305_state_st \<Rightarrow> byte list \<Rightarrow> poly1305_state_st" where
  "CRYPTO_poly1305_init st key =
    (let t0 = U8TO32_LE key; t1 = U8TO32_LE (drop 4 key); t2 = U8TO32_LE (drop 8 key); t3 = U8TO32_LE (drop 12 key);
         r0 = t0 AND 0x3ffffff;
         t0 = drop_bit 26 t0; t0 = t0 OR push_bit 6 t1; r1 = t0 AND 0x3ffff03;
         t1 = drop_bit 20 t1; t1 = t1 OR push_bit 12 t2; r2 = t1 AND 0x3ffc0ff;
         t2 = drop_bit 14 t2; t2 = t2 OR push_bit 18 t3; r3 = t2 AND 0x3f03fff;
         t3 = drop_bit 8 t3; r4 = t3 AND 0x00fffff
     in st\<lparr>pr0 := r0, pr1 := r1, pr2 := r2, pr3 := r3, pr4 := r4, ps1 := r1 * 5, ps2 := r2 * 5, ps3 := r3 * 5, ps4 := r4 * 5,
        ph0 := 0, ph1 := 0, ph2 := 0, ph3 := 0, ph4 := 0, pbuf_used := 0, pkey := take 16 (drop 16 key)\<rparr>)"

definition CRYPTO_poly1305_update :: "poly1305_state_st \<Rightarrow> byte list \<Rightarrow> poly1305_state_st" where
  "CRYPTO_poly1305_update st inp =
    (let (st, inp) =
       (if pbuf_used st \<noteq> 0 then
          (let todo = 16 - pbuf_used st;
               todo = (if todo > length inp then length inp else todo);
               st = st\<lparr>pbuf := mem_write (pbuf st) (pbuf_used st) (take todo inp)\<rparr>;
               st = st\<lparr>pbuf_used := pbuf_used st + todo\<rparr>;
               inp = drop todo inp
           in if pbuf_used st = 16 then ((poly1305_update st (pbuf st))\<lparr>pbuf_used := 0\<rparr>, inp) else (st, inp))
        else (st, inp));
       (st, inp) =
         (if 16 \<le> length inp then
            (let todo = length inp div 16 * 16 in (poly1305_update st (take todo inp), drop todo inp))
          else (st, inp))
     in if inp \<noteq> [] then st\<lparr>pbuf := mem_write (pbuf st) 0 inp, pbuf_used := length inp\<rparr> else st)"

text \<open>The steps of \<open>CRYPTO_poly1305_finish\<close> on the limbs: carries, subtraction of the prime, addition of the key.\<close>

type_synonym limbs = "32 word \<times> 32 word \<times> 32 word \<times> 32 word \<times> 32 word"

definition finish_carry :: "limbs \<Rightarrow> limbs" where
  "finish_carry = (\<lambda>(h0, h1, h2, h3, h4).
    (let b = drop_bit 26 h0; h0 = h0 AND 0x3ffffff; h1 = h1 + b;
         b = drop_bit 26 h1; h1 = h1 AND 0x3ffffff; h2 = h2 + b;
         b = drop_bit 26 h2; h2 = h2 AND 0x3ffffff; h3 = h3 + b;
         b = drop_bit 26 h3; h3 = h3 AND 0x3ffffff; h4 = h4 + b;
         b = drop_bit 26 h4; h4 = h4 AND 0x3ffffff; h0 = h0 + b * 5
     in (h0, h1, h2, h3, h4)))"

definition finish_reduce :: "limbs \<Rightarrow> limbs" where
  "finish_reduce = (\<lambda>(h0, h1, h2, h3, h4).
    (let g0 = h0 + 5; b = drop_bit 26 g0; g0 = g0 AND 0x3ffffff;
         g1 = h1 + b; b = drop_bit 26 g1; g1 = g1 AND 0x3ffffff;
         g2 = h2 + b; b = drop_bit 26 g2; g2 = g2 AND 0x3ffffff;
         g3 = h3 + b; b = drop_bit 26 g3; g3 = g3 AND 0x3ffffff;
         g4 = h4 + b - push_bit 26 1;
         b = drop_bit 31 g4 - 1; nb = NOT b
     in ((h0 AND nb) OR (g0 AND b), (h1 AND nb) OR (g1 AND b), (h2 AND nb) OR (g2 AND b),
         (h3 AND nb) OR (g3 AND b), (h4 AND nb) OR (g4 AND b))))"

definition finish_tag :: "byte list \<Rightarrow> limbs \<Rightarrow> byte list" where
  "finish_tag key = (\<lambda>(h0, h1, h2, h3, h4).
    (let f0 = (ucast (h0 OR push_bit 26 h1) :: 64 word) + ucast (U8TO32_LE key);
         f1 = (ucast (drop_bit 6 h1 OR push_bit 20 h2) :: 64 word) + ucast (U8TO32_LE (drop 4 key));
         f2 = (ucast (drop_bit 12 h2 OR push_bit 14 h3) :: 64 word) + ucast (U8TO32_LE (drop 8 key));
         f3 = (ucast (drop_bit 18 h3 OR push_bit 8 h4) :: 64 word) + ucast (U8TO32_LE (drop 12 key));
         m0 = U32TO8_LE (ucast f0);
         f1 = f1 + drop_bit 32 f0; m1 = U32TO8_LE (ucast f1);
         f2 = f2 + drop_bit 32 f1; m2 = U32TO8_LE (ucast f2);
         f3 = f3 + drop_bit 32 f2; m3 = U32TO8_LE (ucast f3)
     in m0 @ m1 @ m2 @ m3))"

definition CRYPTO_poly1305_finish :: "poly1305_state_st \<Rightarrow> byte list \<times> poly1305_state_st" where
  "CRYPTO_poly1305_finish st =
    (let st = (if pbuf_used st \<noteq> 0 then poly1305_update st (take (pbuf_used st) (pbuf st)) else st) in
     case finish_reduce (finish_carry (ph0 st, ph1 st, ph2 st, ph3 st, ph4 st)) of (h0, h1, h2, h3, h4) \<Rightarrow>
       (finish_tag (pkey st) (h0, h1, h2, h3, h4), st\<lparr>ph0 := h0, ph1 := h1, ph2 := h2, ph3 := h3, ph4 := h4\<rparr>))"

text \<open>The definition of RFC 8439.\<close>

definition le_value :: "byte list \<Rightarrow> nat" where
  "le_value bs = be_value (rev bs)"

definition poly1305_prime :: nat where
  "poly1305_prime = 2 ^ 130 - 5"

definition poly1305_clamp :: "byte list \<Rightarrow> byte list" where
  "poly1305_clamp r = map (\<lambda>i. if i mod 4 = 3 then r ! i AND 15 else if i mod 4 = 0 \<and> 0 < i then r ! i AND 252 else r ! i) [0..<16]"

function poly1305_acc :: "nat \<Rightarrow> nat \<Rightarrow> byte list \<Rightarrow> nat" where
  "poly1305_acc r a msg = (if msg = [] then a else poly1305_acc r ((a + le_value (take 16 msg @ [1])) * r mod poly1305_prime) (drop 16 msg))"
  by pat_completeness auto
termination
  by (relation "measure (\<lambda>(_, _, msg). length msg)") auto

declare poly1305_acc.simps [simp del]

definition poly1305_mac :: "byte list \<Rightarrow> byte list \<Rightarrow> byte list" where
  "poly1305_mac key msg = rev (be_bytes 16 (poly1305_acc (le_value (poly1305_clamp key)) 0 msg + le_value (take 16 (drop 16 key))))"

subsection \<open>Words and limbs\<close>

lemma le_value_Nil [simp]: "le_value [] = 0"
  by (simp add: le_value_def)

lemma le_value_Cons: "le_value (b # bs) = unat b + 256 * le_value bs"
  by (simp add: le_value_def)

lemma le_value_append: "le_value (xs @ ys) = le_value xs + 256 ^ length xs * le_value ys"
  by (induction xs) (simp_all add: le_value_Cons algebra_simps)

lemma le_value_bound: "le_value bs < 256 ^ length bs"
  using be_value_bound [of "rev bs"] by (simp add: le_value_def)

lemma le_value_zeros [simp]: "le_value (replicate n 0) = 0"
  by (induction n) (simp_all add: le_value_Cons)

lemma unat_add_exact:
  fixes a b :: "'a :: len word"
  assumes "unat a + unat b < 2 ^ LENGTH('a)"
  shows "unat (a + b) = unat a + unat b"
  using assms by (subst unat_plus_if_size) (simp add: word_size)

lemma unat_low26: "unat ((w :: 'a :: len word) AND 0x3ffffff) = unat w mod 2 ^ 26"
proof -
  have "(0x3ffffff :: 'a word) = mask 26" by (simp add: mask_eq_exp_minus_1)
  then show ?thesis by (simp only: unat_and_mask)
qed

lemma unat_ucast_32: "unat (ucast (w :: 64 word) :: 32 word) = unat w mod 2 ^ 32"
  by (simp add: unsigned_ucast_eq take_bit_eq_mod)

lemma unat_ucast_64: "unat (ucast (w :: 32 word) :: 64 word) = unat w"
proof -
  have "unat w < 2 ^ 32" using unsigned_less [of w] by simp
  then show ?thesis by (simp add: unsigned_ucast_eq take_bit_nat_eq_self)
qed

lemma unat_32_less: "unat (w :: 32 word) < 2 ^ 32"
  using unsigned_less [of w] by simp

lemma unat_load_le: "length bs \<le> 4 \<Longrightarrow> unat (foldr (\<lambda>b w. push_bit 8 w OR ucast b) bs (0 :: 32 word)) = le_value bs"
proof (induction bs)
  case (Cons b bs)
  have "le_value bs < 256 ^ length bs" by (rule le_value_bound)
  also have "\<dots> \<le> 256 ^ 3" using Cons.prems by (intro power_increasing) simp_all
  finally have "le_value bs * 2 ^ 8 < 2 ^ LENGTH(32)" by simp
  then show ?case using Cons unat_byte_lt [of b] by (simp add: unat_shift_or le_value_Cons)
qed simp

lemma unat_U8TO32_LE: "unat (U8TO32_LE m) = le_value (take 4 m)"
  by (simp add: U8TO32_LE_def unat_load_le)

text \<open>Sixteen bytes as four words and as five limbs.\<close>

lemma le_value_words:
  assumes "length m = 16"
  shows "le_value m = unat (U8TO32_LE m) + 2 ^ 32 * unat (U8TO32_LE (drop 4 m)) + 2 ^ 64 * unat (U8TO32_LE (drop 8 m)) + 2 ^ 96 * unat (U8TO32_LE (drop 12 m))"
proof -
  have "m = take 4 m @ take 4 (drop 4 m) @ take 4 (drop 8 m) @ take 4 (drop 12 m)"
    using assms by (intro nth_equalityI) (auto simp: nth_append)
  then have "le_value m = le_value (take 4 m @ take 4 (drop 4 m) @ take 4 (drop 8 m) @ take 4 (drop 12 m))" by simp
  then show ?thesis using assms by (simp add: le_value_append unat_U8TO32_LE)
qed

lemma unat_limb:
  fixes a b :: "32 word"
  assumes "k \<le> 32"
  shows "unat (ucast (drop_bit k (push_bit 32 (ucast b) OR ucast a :: 64 word) AND 0x3ffffff) :: 32 word) = (unat b * 2 ^ 32 + unat a) div 2 ^ k mod 2 ^ 26"
proof -
  have "unat b * 2 ^ 32 < 2 ^ 32 * 2 ^ 32" using unat_32_less [of b] by simp
  then have "unat (push_bit 32 (ucast b) OR ucast a :: 64 word) = unat b * 2 ^ 32 + unat a"
    using unat_32_less [of a] by (subst unat_shift_or) (simp_all add: unat_ucast_64)
  moreover have "unat (ucast (drop_bit k w AND 0x3ffffff) :: 32 word) = unat w div 2 ^ k mod 2 ^ 26" for w :: "64 word"
    by (simp add: unat_ucast_32 unat_low26 unat_drop_bit mod_mod_cancel)
  ultimately show ?thesis by (simp only:)
qed

lemma limbs_of_words:
  fixes a0 a1 a2 a3 :: nat
  assumes small: "a0 < 2 ^ 32" "a1 < 2 ^ 32" "a2 < 2 ^ 32"
  shows "a0 mod 2 ^ 26 + 2 ^ 26 * ((a1 * 2 ^ 32 + a0) div 2 ^ 26 mod 2 ^ 26) + 2 ^ 52 * ((a2 * 2 ^ 32 + a1) div 2 ^ 20 mod 2 ^ 26)
      + 2 ^ 78 * ((a3 * 2 ^ 32 + a2) div 2 ^ 14 mod 2 ^ 26) + 2 ^ 104 * (a3 div 2 ^ 8) =
    a0 + 2 ^ 32 * a1 + 2 ^ 64 * a2 + 2 ^ 96 * a3"
proof -
  define m0 q0 p1 q1 p2 q2 p3 q3 where d: "m0 = a0 mod 2 ^ 26" "q0 = a0 div 2 ^ 26" "p1 = a1 mod 2 ^ 20" "q1 = a1 div 2 ^ 20"
    "p2 = a2 mod 2 ^ 14" "q2 = a2 div 2 ^ 14" "p3 = a3 mod 2 ^ 8" "q3 = a3 div 2 ^ 8"
  have a: "a0 = m0 + 2 ^ 26 * q0" "a1 = p1 + 2 ^ 20 * q1" "a2 = p2 + 2 ^ 14 * q2" "a3 = p3 + 2 ^ 8 * q3" unfolding d by simp_all
  have l: "m0 < 2 ^ 26" "p1 < 2 ^ 20" "p2 < 2 ^ 14" "p3 < 2 ^ 8" unfolding d by simp_all
  have q: "q0 < 2 ^ 6" "q1 < 2 ^ 12" "q2 < 2 ^ 18" using small unfolding d by simp_all
  have e1: "(a1 * 2 ^ 32 + a0) div 2 ^ 26 = 2 ^ 6 * p1 + q0 + 2 ^ 26 * q1" unfolding a(1,2) using l(1) by (intro div_nat_eqI) simp_all
  have e2: "(a2 * 2 ^ 32 + a1) div 2 ^ 20 = 2 ^ 12 * p2 + q1 + 2 ^ 26 * q2" unfolding a(2,3) using l(2) by (intro div_nat_eqI) simp_all
  have e3: "(a3 * 2 ^ 32 + a2) div 2 ^ 14 = 2 ^ 18 * p3 + q2 + 2 ^ 26 * q3" unfolding a(3,4) using l(3) by (intro div_nat_eqI) simp_all
  have s: "2 ^ 6 * p1 + q0 < 2 ^ 26" "2 ^ 12 * p2 + q1 < 2 ^ 26" "2 ^ 18 * p3 + q2 < 2 ^ 26" using l q by simp_all
  have "(2 ^ 6 * p1 + q0 + 2 ^ 26 * q1) mod 2 ^ 26 = 2 ^ 6 * p1 + q0" "(2 ^ 12 * p2 + q1 + 2 ^ 26 * q2) mod 2 ^ 26 = 2 ^ 12 * p2 + q1"
    "(2 ^ 18 * p3 + q2 + 2 ^ 26 * q3) mod 2 ^ 26 = 2 ^ 18 * p3 + q2"
    using s by simp_all
  then have "a0 mod 2 ^ 26 + 2 ^ 26 * ((a1 * 2 ^ 32 + a0) div 2 ^ 26 mod 2 ^ 26) + 2 ^ 52 * ((a2 * 2 ^ 32 + a1) div 2 ^ 20 mod 2 ^ 26)
      + 2 ^ 78 * ((a3 * 2 ^ 32 + a2) div 2 ^ 14 mod 2 ^ 26) + 2 ^ 104 * (a3 div 2 ^ 8) =
    m0 + 2 ^ 26 * (2 ^ 6 * p1 + q0) + 2 ^ 52 * (2 ^ 12 * p2 + q1) + 2 ^ 78 * (2 ^ 18 * p3 + q2) + 2 ^ 104 * q3"
    unfolding e1 e2 e3 d(1,8) by presburger
  also have "\<dots> = a0 + 2 ^ 32 * a1 + 2 ^ 64 * a2 + 2 ^ 96 * a3" unfolding a by simp
  finally show ?thesis .
qed

text \<open>The value of a row of limbs.\<close>

definition limbs_value :: "limbs \<Rightarrow> nat" where
  "limbs_value = (\<lambda>(h0, h1, h2, h3, h4). unat h0 + 2 ^ 26 * unat h1 + 2 ^ 52 * unat h2 + 2 ^ 78 * unat h3 + 2 ^ 104 * unat h4)"

definition h_limbs :: "poly1305_state_st \<Rightarrow> limbs" where
  "h_limbs st = (ph0 st, ph1 st, ph2 st, ph3 st, ph4 st)"

definition r_limbs :: "poly1305_state_st \<Rightarrow> limbs" where
  "r_limbs st = (pr0 st, pr1 st, pr2 st, pr3 st, pr4 st)"

subsection \<open>One block\<close>

definition r_ok :: "poly1305_state_st \<Rightarrow> bool" where
  "r_ok st \<longleftrightarrow> unat (pr0 st) \<le> 0x3ffffff \<and> unat (pr1 st) \<le> 0x3ffff03 \<and> unat (pr2 st) \<le> 0x3ffc0ff \<and> unat (pr3 st) \<le> 0x3f03fff \<and> unat (pr4 st) \<le> 0xfffff
    \<and> unat (ps1 st) = 5 * unat (pr1 st) \<and> unat (ps2 st) = 5 * unat (pr2 st) \<and> unat (ps3 st) = 5 * unat (pr3 st) \<and> unat (ps4 st) = 5 * unat (pr4 st)"

text \<open>The bounds of \<open>h\<close> between blocks, and after a block was added.\<close>

definition h_ok :: "poly1305_state_st \<Rightarrow> bool" where
  "h_ok st \<longleftrightarrow> unat (ph0 st) \<le> 2800000000 \<and> unat (ph1 st) < 2 ^ 26 \<and> unat (ph2 st) < 2 ^ 26 \<and> unat (ph3 st) < 2 ^ 26 \<and> unat (ph4 st) < 2 ^ 26"

definition h_added :: "poly1305_state_st \<Rightarrow> bool" where
  "h_added st \<longleftrightarrow> unat (ph0 st) \<le> 2867108863 \<and> unat (ph1 st) \<le> 134217726 \<and> unat (ph2 st) \<le> 134217726 \<and> unat (ph3 st) \<le> 134217726 \<and> unat (ph4 st) \<le> 100663294"

lemma add_limb:
  fixes h x :: "32 word"
  assumes "unat h \<le> a" and "unat x \<le> b" and "a + b < 2 ^ 32"
  shows "unat (h + x) = unat h + unat x" and "unat (h + x) \<le> a + b"
proof -
  show "unat (h + x) = unat h + unat x" by (rule unat_add_exact) (use assms in simp)
  then show "unat (h + x) \<le> a + b" using assms by simp
qed

lemma add_block_ok:
  assumes h: "h_ok st" and m: "length m = 16" and hibit: "hibit = 0 \<or> hibit = push_bit 24 1"
  shows "h_added (poly1305_add_block hibit m st)"
    and "limbs_value (h_limbs (poly1305_add_block hibit m st)) = limbs_value (h_limbs st) + le_value m + 2 ^ 104 * unat hibit"
    and "r_limbs (poly1305_add_block hibit m st) = r_limbs st" and "r_ok (poly1305_add_block hibit m st) = r_ok st"
proof -
  define t0 t1 t2 t3 where t: "t0 = U8TO32_LE m" "t1 = U8TO32_LE (drop 4 m)" "t2 = U8TO32_LE (drop 8 m)" "t3 = U8TO32_LE (drop 12 m)"
  define m0 m1 m2 m3 m4 where md: "m0 = t0 AND 0x3ffffff"
    "m1 = (ucast (drop_bit 26 (push_bit 32 (ucast t1) OR ucast t0 :: 64 word) AND 0x3ffffff) :: 32 word)"
    "m2 = (ucast (drop_bit 20 (push_bit 32 (ucast t2) OR ucast t1 :: 64 word) AND 0x3ffffff) :: 32 word)"
    "m3 = (ucast (drop_bit 14 (push_bit 32 (ucast t3) OR ucast t2 :: 64 word) AND 0x3ffffff) :: 32 word)"
    "m4 = drop_bit 8 t3 OR hibit"
  have st: "poly1305_add_block hibit m st = st\<lparr>ph0 := ph0 st + m0, ph1 := ph1 st + m1, ph2 := ph2 st + m2, ph3 := ph3 st + m3, ph4 := ph4 st + m4\<rparr>"
    unfolding poly1305_add_block_def Let_def t md ..
  have u: "unat m0 = unat t0 mod 2 ^ 26" "unat m1 = (unat t1 * 2 ^ 32 + unat t0) div 2 ^ 26 mod 2 ^ 26"
    "unat m2 = (unat t2 * 2 ^ 32 + unat t1) div 2 ^ 20 mod 2 ^ 26" "unat m3 = (unat t3 * 2 ^ 32 + unat t2) div 2 ^ 14 mod 2 ^ 26"
    unfolding md by (rule unat_low26 unat_limb; simp)+
  have low: "unat (drop_bit 8 t3) < 2 ^ 24" using unat_32_less [of t3] by (simp add: unat_drop_bit)
  have h4: "unat hibit \<le> 2 ^ 24" "2 ^ 24 dvd unat hibit" using hibit by (auto simp: unat_push_bit)
  have "drop_bit 8 t3 OR hibit = hibit OR drop_bit 8 t3" by (simp add: or.commute)
  then have u4: "unat m4 = unat t3 div 2 ^ 8 + unat hibit"
    unfolding md using unat_or_disjoint [OF h4(2) low] by (simp add: unat_drop_bit)
  have b: "unat m0 \<le> 67108863" "unat m1 \<le> 67108863" "unat m2 \<le> 67108863" "unat m3 \<le> 67108863" unfolding u by (simp_all add: less_Suc_eq_le [symmetric])
  have b4: "unat m4 \<le> 33554431" unfolding u4 using low h4(1) by (simp add: unat_drop_bit)
  have hb: "unat (ph0 st) \<le> 2800000000" "unat (ph1 st) \<le> 67108863" "unat (ph2 st) \<le> 67108863" "unat (ph3 st) \<le> 67108863" "unat (ph4 st) \<le> 67108863"
    using h by (simp_all add: h_ok_def)
  note a0 = add_limb [OF hb(1) b(1)] and a1 = add_limb [OF hb(2) b(2)] and a2 = add_limb [OF hb(3) b(3)] and a3 = add_limb [OF hb(4) b(4)] and a4 = add_limb [OF hb(5) b4]
  show "h_added (poly1305_add_block hibit m st)"
    unfolding st h_added_def using a0(2) a1(2) a2(2) a3(2) a4(2) by simp
  have v: "unat m0 + 2 ^ 26 * unat m1 + 2 ^ 52 * unat m2 + 2 ^ 78 * unat m3 + 2 ^ 104 * (unat t3 div 2 ^ 8) = le_value m"
    unfolding u le_value_words [OF m] t [symmetric] by (rule limbs_of_words) (rule unat_32_less)+
  have "limbs_value (h_limbs (poly1305_add_block hibit m st)) =
      limbs_value (h_limbs st) + (unat m0 + 2 ^ 26 * unat m1 + 2 ^ 52 * unat m2 + 2 ^ 78 * unat m3 + 2 ^ 104 * unat m4)"
    unfolding st limbs_value_def h_limbs_def using a0(1) a1(1) a2(1) a3(1) a4(1) by simp
  also have "\<dots> = limbs_value (h_limbs st) + le_value m + 2 ^ 104 * unat hibit" unfolding v [symmetric] u4 by simp
  finally show "limbs_value (h_limbs (poly1305_add_block hibit m st)) = limbs_value (h_limbs st) + le_value m + 2 ^ 104 * unat hibit" .
  show "r_limbs (poly1305_add_block hibit m st) = r_limbs st" "r_ok (poly1305_add_block hibit m st) = r_ok st"
    unfolding st by (simp_all add: r_limbs_def r_ok_def)
qed

text \<open>Sums of five products do not wrap.\<close>

lemma unat_mul32x32_64: "unat (mul32x32_64 a b) = unat a * unat b"
proof -
  have "unat a * unat b < 2 ^ 32 * 2 ^ 32" using unat_32_less [of a] unat_32_less [of b] by (intro mult_strict_mono) simp_all
  then have "unat a * unat b < 2 ^ LENGTH(64)" by simp
  then show ?thesis by (simp add: mul32x32_64_def unat_word_ariths unat_ucast_64)
qed

lemma unat_sum5:
  fixes a b c d e :: "64 word"
  assumes "unat a + unat b + unat c + unat d + unat e < 2 ^ 64"
  shows "unat (a + b + c + d + e) = unat a + unat b + unat c + unat d + unat e"
proof -
  have "unat (a + b) = unat a + unat b" by (rule unat_add_exact) (use assms in simp)
  moreover from this have "unat (a + b + c) = unat a + unat b + unat c" by (subst unat_add_exact) (use assms in simp_all)
  moreover from this have "unat (a + b + c + d) = unat a + unat b + unat c + unat d" by (subst unat_add_exact) (use assms in simp_all)
  ultimately show ?thesis by (subst unat_add_exact) (use assms in simp_all)
qed

lemma sum5_bound:
  fixes h0 h1 h2 h3 h4 a b c d e :: "32 word"
  assumes "unat h0 \<le> H0" "unat h1 \<le> H1" "unat h2 \<le> H2" "unat h3 \<le> H3" "unat h4 \<le> H4"
    and "unat a \<le> A" "unat b \<le> B" "unat c \<le> C" "unat d \<le> D" "unat e \<le> E"
    and "H0 * A + H1 * B + H2 * C + H3 * D + H4 * E \<le> bound" and "bound < 2 ^ 64"
  shows "unat (mul32x32_64 h0 a + mul32x32_64 h1 b + mul32x32_64 h2 c + mul32x32_64 h3 d + mul32x32_64 h4 e) =
      unat h0 * unat a + unat h1 * unat b + unat h2 * unat c + unat h3 * unat d + unat h4 * unat e"
    and "unat h0 * unat a + unat h1 * unat b + unat h2 * unat c + unat h3 * unat d + unat h4 * unat e \<le> bound"
proof -
  have "unat h0 * unat a \<le> H0 * A" "unat h1 * unat b \<le> H1 * B" "unat h2 * unat c \<le> H2 * C" "unat h3 * unat d \<le> H3 * D" "unat h4 * unat e \<le> H4 * E"
    using assms(1-10) by (simp_all add: mult_le_mono)
  then show le: "unat h0 * unat a + unat h1 * unat b + unat h2 * unat c + unat h3 * unat d + unat h4 * unat e \<le> bound" using assms(11) by linarith
  show "unat (mul32x32_64 h0 a + mul32x32_64 h1 b + mul32x32_64 h2 c + mul32x32_64 h3 d + mul32x32_64 h4 e) =
      unat h0 * unat a + unat h1 * unat b + unat h2 * unat c + unat h3 * unat d + unat h4 * unat e"
    using le assms(12) unat_sum5 [of "mul32x32_64 h0 a" "mul32x32_64 h1 b" "mul32x32_64 h2 c" "mul32x32_64 h3 d" "mul32x32_64 h4 e"]
    by (simp add: unat_mul32x32_64)
qed

subsection \<open>Multiplication\<close>

lemma carry_chain:
  fixes t0 t1 t2 t3 t4 :: nat
  assumes u: "u1 = t1 + t0 div 2 ^ 26" "u2 = t2 + u1 div 2 ^ 26" "u3 = t3 + u2 div 2 ^ 26" "u4 = t4 + u3 div 2 ^ 26"
  shows "t0 mod 2 ^ 26 + 2 ^ 26 * (u1 mod 2 ^ 26) + 2 ^ 52 * (u2 mod 2 ^ 26) + 2 ^ 78 * (u3 mod 2 ^ 26) + 2 ^ 104 * (u4 mod 2 ^ 26) + 2 ^ 130 * (u4 div 2 ^ 26) =
    t0 + 2 ^ 26 * t1 + 2 ^ 52 * t2 + 2 ^ 78 * t3 + 2 ^ 104 * t4"
proof -
  have split: "\<exists>q m. x div 2 ^ 26 = q \<and> x mod 2 ^ 26 = m \<and> x = m + 2 ^ 26 * q" for x :: nat
    using mod_mult_div_eq [of x "2 ^ 26"] by metis
  from split [of t0] obtain q0 m0 where 0: "t0 div 2 ^ 26 = q0" "t0 mod 2 ^ 26 = m0" "t0 = m0 + 2 ^ 26 * q0" by blast
  from split [of u1] obtain q1 m1 where 1: "u1 div 2 ^ 26 = q1" "u1 mod 2 ^ 26 = m1" "u1 = m1 + 2 ^ 26 * q1" by blast
  from split [of u2] obtain q2 m2 where 2: "u2 div 2 ^ 26 = q2" "u2 mod 2 ^ 26 = m2" "u2 = m2 + 2 ^ 26 * q2" by blast
  from split [of u3] obtain q3 m3 where 3: "u3 div 2 ^ 26 = q3" "u3 mod 2 ^ 26 = m3" "u3 = m3 + 2 ^ 26 * q3" by blast
  from split [of u4] obtain q4 m4 where 4: "u4 div 2 ^ 26 = q4" "u4 mod 2 ^ 26 = m4" "u4 = m4 + 2 ^ 26 * q4" by blast
  note steps = u [unfolded 0(1) 1(1) 2(1) 3(1)]
  then show ?thesis unfolding 0(1,2) 1(1,2) 2(1,2) 3(1,2) 4(1,2) using 0(3) 1(3) 2(3) 3(3) 4(3) by simp
qed

text \<open>The product of two rows of limbs, folded with \<open>2 ^ 130 = 5\<close>.\<close>

lemma product_folded:
  fixes h0 h1 h2 h3 h4 r0 r1 r2 r3 r4 :: nat
  shows "(h0 * r0 + h1 * (5 * r4) + h2 * (5 * r3) + h3 * (5 * r2) + h4 * (5 * r1))
      + 2 ^ 26 * (h0 * r1 + h1 * r0 + h2 * (5 * r4) + h3 * (5 * r3) + h4 * (5 * r2))
      + 2 ^ 52 * (h0 * r2 + h1 * r1 + h2 * r0 + h3 * (5 * r4) + h4 * (5 * r3))
      + 2 ^ 78 * (h0 * r3 + h1 * r2 + h2 * r1 + h3 * r0 + h4 * (5 * r4))
      + 2 ^ 104 * (h0 * r4 + h1 * r3 + h2 * r2 + h3 * r1 + h4 * r0)
      + (2 ^ 130 - 5) * (h1 * r4 + h2 * r3 + h3 * r2 + h4 * r1 + 2 ^ 26 * (h2 * r4 + h3 * r3 + h4 * r2) + 2 ^ 52 * (h3 * r4 + h4 * r3) + 2 ^ 78 * (h4 * r4)) =
    (h0 + 2 ^ 26 * h1 + 2 ^ 52 * h2 + 2 ^ 78 * h3 + 2 ^ 104 * h4) * (r0 + 2 ^ 26 * r1 + 2 ^ 52 * r2 + 2 ^ 78 * r3 + 2 ^ 104 * r4)"
  by (simp add: algebra_simps)

lemma limb_step:
  fixes t :: "64 word" and c :: "32 word"
  assumes "unat t \<le> tmax" and "unat c \<le> cmax" and "tmax + cmax < 2 ^ 58"
  shows "unat (t + ucast c) = unat t + unat c"
    and "unat (ucast (drop_bit 26 (t + ucast c)) :: 32 word) = (unat t + unat c) div 2 ^ 26"
    and "unat (ucast (t + ucast c) AND 0x3ffffff :: 32 word) = (unat t + unat c) mod 2 ^ 26"
proof -
  show u: "unat (t + ucast c) = unat t + unat c"
    using assms by (subst unat_add_exact) (simp_all add: unat_ucast_64)
  have "(unat t + unat c) div 2 ^ 26 < 2 ^ 32" using assms by simp
  then show "unat (ucast (drop_bit 26 (t + ucast c)) :: 32 word) = (unat t + unat c) div 2 ^ 26"
    by (simp add: unat_ucast_32 unat_drop_bit u)
  show "unat (ucast (t + ucast c) AND 0x3ffffff :: 32 word) = (unat t + unat c) mod 2 ^ 26"
    by (simp add: unat_low26 unat_ucast_32 u mod_mod_cancel)
qed

lemma mul_ok:
  assumes h: "h_added st" and r: "r_ok st"
  shows "h_ok (poly1305_mul st)"
    and "limbs_value (h_limbs (poly1305_mul st)) mod poly1305_prime = limbs_value (h_limbs st) * limbs_value (r_limbs st) mod poly1305_prime"
    and "r_limbs (poly1305_mul st) = r_limbs st" and "r_ok (poly1305_mul st) = r_ok st"
proof -
  define t0 where "t0 = mul32x32_64 (ph0 st) (pr0 st) + mul32x32_64 (ph1 st) (ps4 st) + mul32x32_64 (ph2 st) (ps3 st) + mul32x32_64 (ph3 st) (ps2 st) + mul32x32_64 (ph4 st) (ps1 st)"
  define t1 where "t1 = mul32x32_64 (ph0 st) (pr1 st) + mul32x32_64 (ph1 st) (pr0 st) + mul32x32_64 (ph2 st) (ps4 st) + mul32x32_64 (ph3 st) (ps3 st) + mul32x32_64 (ph4 st) (ps2 st)"
  define t2 where "t2 = mul32x32_64 (ph0 st) (pr2 st) + mul32x32_64 (ph1 st) (pr1 st) + mul32x32_64 (ph2 st) (pr0 st) + mul32x32_64 (ph3 st) (ps4 st) + mul32x32_64 (ph4 st) (ps3 st)"
  define t3 where "t3 = mul32x32_64 (ph0 st) (pr3 st) + mul32x32_64 (ph1 st) (pr2 st) + mul32x32_64 (ph2 st) (pr1 st) + mul32x32_64 (ph3 st) (pr0 st) + mul32x32_64 (ph4 st) (ps4 st)"
  define t4 where "t4 = mul32x32_64 (ph0 st) (pr4 st) + mul32x32_64 (ph1 st) (pr3 st) + mul32x32_64 (ph2 st) (pr2 st) + mul32x32_64 (ph3 st) (pr1 st) + mul32x32_64 (ph4 st) (pr0 st)"
  note t = t0_def t1_def t2_def t3_def t4_def
  define u1 where "u1 = t1 + drop_bit 26 t0"
  define b1 where "b1 = (ucast (drop_bit 26 u1) :: 32 word)"
  define u2 where "u2 = t2 + ucast b1"
  define b2 where "b2 = (ucast (drop_bit 26 u2) :: 32 word)"
  define u3 where "u3 = t3 + ucast b2"
  define b3 where "b3 = (ucast (drop_bit 26 u3) :: 32 word)"
  define u4 where "u4 = t4 + ucast b3"
  define b4 where "b4 = (ucast (drop_bit 26 u4) :: 32 word)"
  have st: "poly1305_mul st = st\<lparr>ph0 := (ucast t0 AND 0x3ffffff) + b4 * 5, ph1 := ucast u1 AND 0x3ffffff, ph2 := ucast u2 AND 0x3ffffff,
      ph3 := ucast u3 AND 0x3ffffff, ph4 := ucast u4 AND 0x3ffffff\<rparr>"
    unfolding poly1305_mul_def Let_def t u1_def b1_def u2_def b2_def u3_def b3_def u4_def b4_def ..
  have hb: "unat (ph0 st) \<le> 2867108863" "unat (ph1 st) \<le> 134217726" "unat (ph2 st) \<le> 134217726" "unat (ph3 st) \<le> 134217726" "unat (ph4 st) \<le> 100663294"
    using h by (simp_all add: h_added_def)
  have rb: "unat (pr0 st) \<le> 67108863" "unat (pr1 st) \<le> 67108611" "unat (pr2 st) \<le> 67092735" "unat (pr3 st) \<le> 66076671" "unat (pr4 st) \<le> 1048575"
    using r by (simp_all add: r_ok_def)
  have s: "unat (ps1 st) = 5 * unat (pr1 st)" "unat (ps2 st) = 5 * unat (pr2 st)" "unat (ps3 st) = 5 * unat (pr3 st)" "unat (ps4 st) = 5 * unat (pr4 st)"
    using r by (simp_all add: r_ok_def)
  have sb: "unat (ps1 st) \<le> 335543055" "unat (ps2 st) \<le> 335463675" "unat (ps3 st) \<le> 330383355" "unat (ps4 st) \<le> 5242875"
    using s rb by linarith+
  note T0 = sum5_bound [OF hb rb(1) sb(4) sb(3) sb(2) sb(1), of 316257446078931969, folded t]
  note T1 = sum5_bound [OF hb rb(2) rb(1) sb(4) sb(3) sb(2), of 280230760287423261, folded t]
  note T2 = sum5_bound [OF hb rb(3) rb(2) rb(1) sb(4) sb(3), of 244337702868428049, folded t]
  note T3 = sum5_bound [OF hb rb(4) rb(3) rb(2) rb(1) sb(4), of 216996172601730057, folded t]
  note T4 = sum5_bound [OF hb rb(5) rb(4) rb(3) rb(2) rb(1), of 36642637891724289, folded t]
  have tb: "unat t0 \<le> 316257446078931969" "unat t1 \<le> 280230760287423261" "unat t2 \<le> 244337702868428049" "unat t3 \<le> 216996172601730057" "unat t4 \<le> 36642637891724289"
    using T0 T1 T2 T3 T4 by simp_all
  have e0: "unat t0 = unat (ph0 st) * unat (pr0 st) + unat (ph1 st) * unat (ps4 st) + unat (ph2 st) * unat (ps3 st) + unat (ph3 st) * unat (ps2 st) + unat (ph4 st) * unat (ps1 st)" by (rule T0(1)) simp_all
  have e1: "unat t1 = unat (ph0 st) * unat (pr1 st) + unat (ph1 st) * unat (pr0 st) + unat (ph2 st) * unat (ps4 st) + unat (ph3 st) * unat (ps3 st) + unat (ph4 st) * unat (ps2 st)" by (rule T1(1)) simp_all
  have e2: "unat t2 = unat (ph0 st) * unat (pr2 st) + unat (ph1 st) * unat (pr1 st) + unat (ph2 st) * unat (pr0 st) + unat (ph3 st) * unat (ps4 st) + unat (ph4 st) * unat (ps3 st)" by (rule T2(1)) simp_all
  have e3: "unat t3 = unat (ph0 st) * unat (pr3 st) + unat (ph1 st) * unat (pr2 st) + unat (ph2 st) * unat (pr1 st) + unat (ph3 st) * unat (pr0 st) + unat (ph4 st) * unat (ps4 st)" by (rule T3(1)) simp_all
  have e4: "unat t4 = unat (ph0 st) * unat (pr4 st) + unat (ph1 st) * unat (pr3 st) + unat (ph2 st) * unat (pr2 st) + unat (ph3 st) * unat (pr1 st) + unat (ph4 st) * unat (pr0 st)" by (rule T4(1)) simp_all
  have c0: "unat (drop_bit 26 t0) = unat t0 div 2 ^ 26" by (rule unat_drop_bit)
  have c0b: "unat t0 div 2 ^ 26 \<le> 4712603182" using tb(1) by simp
  have u1: "unat u1 = unat t1 + unat t0 div 2 ^ 26"
    unfolding u1_def using c0 c0b tb(2) by (subst unat_add_exact) simp_all
  have b1: "unat b1 = unat u1 div 2 ^ 26"
    unfolding b1_def unat_ucast_32 unat_drop_bit u1 using c0b tb(2) by simp
  have b1b: "unat b1 \<le> 4175763800" unfolding b1 u1 using c0b tb(2) by simp
  have v2: "unat u2 = unat t2 + unat b1" unfolding u2_def by (rule limb_step(1) [OF tb(3) b1b]) simp
  have b2: "unat b2 = unat u2 div 2 ^ 26" using limb_step(2) [OF tb(3) b1b, folded u2_def] unfolding b2_def v2 by simp
  have b2b: "unat b2 \<le> 3640915558" unfolding b2 v2 using tb(3) b1b by simp
  have v3: "unat u3 = unat t3 + unat b2" unfolding u3_def by (rule limb_step(1) [OF tb(4) b2b]) simp
  have b3: "unat b3 = unat u3 div 2 ^ 26" using limb_step(2) [OF tb(4) b2b, folded u3_def] unfolding b3_def v3 by simp
  have b3b: "unat b3 \<le> 3233495000" unfolding b3 v3 using tb(4) b2b by simp
  have v4: "unat u4 = unat t4 + unat b3" unfolding u4_def by (rule limb_step(1) [OF tb(5) b3b]) simp
  have b4: "unat b4 = unat u4 div 2 ^ 26" using limb_step(2) [OF tb(5) b3b, folded u4_def] unfolding b4_def v4 by simp
  have b4b: "unat b4 \<le> 546017901" unfolding b4 v4 using tb(5) b3b by simp
  have low: "unat (ucast w AND 0x3ffffff :: 32 word) = unat w mod 2 ^ 26" for w :: "64 word"
    by (simp add: unat_low26 unat_ucast_32 mod_mod_cancel)
  have five: "unat (b4 * 5) = 5 * unat b4" using b4b by (simp add: unat_word_ariths)
  have l0b: "unat (ucast t0 AND 0x3ffffff :: 32 word) \<le> 67108863" unfolding low by (simp add: less_Suc_eq_le [symmetric])
  have top: "unat ((ucast t0 AND 0x3ffffff) + b4 * 5) = unat t0 mod 2 ^ 26 + 5 * unat b4"
    using l0b b4b five by (subst unat_add_exact) (simp_all add: low)
  show "h_ok (poly1305_mul st)"
    unfolding h_ok_def st using top l0b b4b by (simp add: low)
  show "r_limbs (poly1305_mul st) = r_limbs st" "r_ok (poly1305_mul st) = r_ok st"
    unfolding st by (simp_all add: r_limbs_def r_ok_def)
  let ?K = "unat (ph1 st) * unat (pr4 st) + unat (ph2 st) * unat (pr3 st) + unat (ph3 st) * unat (pr2 st) + unat (ph4 st) * unat (pr1 st)
      + 2 ^ 26 * (unat (ph2 st) * unat (pr4 st) + unat (ph3 st) * unat (pr3 st) + unat (ph4 st) * unat (pr2 st))
      + 2 ^ 52 * (unat (ph3 st) * unat (pr4 st) + unat (ph4 st) * unat (pr3 st)) + 2 ^ 78 * (unat (ph4 st) * unat (pr4 st))"
  have folded: "unat t0 + 2 ^ 26 * unat t1 + 2 ^ 52 * unat t2 + 2 ^ 78 * unat t3 + 2 ^ 104 * unat t4 + poly1305_prime * ?K =
      limbs_value (h_limbs st) * limbs_value (r_limbs st)"
    using e0 e1 e2 e3 e4 product_folded [of "unat (ph0 st)" "unat (pr0 st)" "unat (ph1 st)" "unat (pr4 st)" "unat (ph2 st)" "unat (pr3 st)" "unat (ph3 st)" "unat (pr2 st)" "unat (ph4 st)" "unat (pr1 st)"]
    unfolding s limbs_value_def h_limbs_def r_limbs_def prod.case poly1305_prime_def by (simp only:)
  have "limbs_value (h_limbs (poly1305_mul st)) + poly1305_prime * unat b4 =
      unat t0 mod 2 ^ 26 + 2 ^ 26 * (unat u1 mod 2 ^ 26) + 2 ^ 52 * (unat u2 mod 2 ^ 26) + 2 ^ 78 * (unat u3 mod 2 ^ 26) + 2 ^ 104 * (unat u4 mod 2 ^ 26) + 2 ^ 130 * unat b4"
    unfolding st limbs_value_def h_limbs_def using top by (simp add: poly1305_prime_def low)
  also have "\<dots> = unat t0 + 2 ^ 26 * unat t1 + 2 ^ 52 * unat t2 + 2 ^ 78 * unat t3 + 2 ^ 104 * unat t4"
    using carry_chain [OF u1 v2 [unfolded b1] v3 [unfolded b2] v4 [unfolded b3]] unfolding b4 .
  finally have "limbs_value (h_limbs (poly1305_mul st)) + poly1305_prime * unat b4 + poly1305_prime * ?K = limbs_value (h_limbs st) * limbs_value (r_limbs st)"
    unfolding folded [symmetric] by (simp only:)
  then show "limbs_value (h_limbs (poly1305_mul st)) mod poly1305_prime = limbs_value (h_limbs st) * limbs_value (r_limbs st) mod poly1305_prime"
    by (metis mod_mult_self2)
qed

subsection \<open>Any number of blocks\<close>

lemma acc_Nil [simp]: "poly1305_acc r a [] = a"
  by (simp add: poly1305_acc.simps)

lemma acc_step: "msg \<noteq> [] \<Longrightarrow> poly1305_acc r a msg = poly1305_acc r ((a + le_value (take 16 msg @ [1])) * r mod poly1305_prime) (drop 16 msg)"
  by (simp add: poly1305_acc.simps [of r a msg])

lemma acc_append: "length xs = 16 * k \<Longrightarrow> poly1305_acc r a (xs @ ys) = poly1305_acc r (poly1305_acc r a xs) ys"
proof (induction k arbitrary: a xs)
  case (Suc k)
  have ne: "xs \<noteq> []" "xs @ ys \<noteq> []" using Suc.prems by auto
  have "length (drop 16 xs) = 16 * k" using Suc.prems by simp
  from Suc.IH [OF this] show ?case
    using Suc.prems acc_step [OF ne(1), of r a] acc_step [OF ne(2), of r a] by simp
qed simp

lemma acc_block: "length xs = 16 \<Longrightarrow> poly1305_acc r a xs = (a + le_value xs + 2 ^ 128) * r mod poly1305_prime"
proof -
  assume "length xs = 16"
  moreover from this have "xs \<noteq> []" by auto
  moreover have "le_value (xs @ [1]) = le_value xs + 2 ^ 128" using \<open>length xs = 16\<close> by (simp add: le_value_append le_value_Cons)
  ultimately show ?thesis by (simp add: acc_step add.assoc)
qed

text \<open>What a block does to the accumulator.\<close>

lemma other_fields [simp]:
  "pbuf (poly1305_add_block t m st) = pbuf st" "pbuf_used (poly1305_add_block t m st) = pbuf_used st" "pkey (poly1305_add_block t m st) = pkey st"
  "pbuf (poly1305_mul st) = pbuf st" "pbuf_used (poly1305_mul st) = pbuf_used st" "pkey (poly1305_mul st) = pkey st"
  by (simp_all add: poly1305_add_block_def poly1305_mul_def Let_def)

definition h_value :: "poly1305_state_st \<Rightarrow> nat" where
  "h_value st = limbs_value (h_limbs st) mod poly1305_prime"

definition r_value :: "poly1305_state_st \<Rightarrow> nat" where
  "r_value st = limbs_value (r_limbs st)"

lemma block_ok:
  assumes "h_ok st" and "r_ok st" and "length m = 16" and "hibit = 0 \<or> hibit = push_bit 24 1"
  defines "st' \<equiv> poly1305_mul (poly1305_add_block hibit m st)"
  shows "h_ok st'" and "r_ok st'" and "r_value st' = r_value st"
    and "h_value st' = (h_value st + le_value m + 2 ^ 104 * unat hibit) * r_value st mod poly1305_prime"
proof -
  note a = add_block_ok [OF assms(1,3,4)]
  have r: "r_ok (poly1305_add_block hibit m st)" using a(4) assms(2) by simp
  note b = mul_ok [OF a(1) r]
  show "h_ok st'" "r_ok st'" "r_value st' = r_value st" using a(3) b(1,3,4) r by (simp_all add: st'_def r_value_def)
  have "h_value st' = (limbs_value (h_limbs st) + le_value m + 2 ^ 104 * unat hibit) * r_value st mod poly1305_prime"
    using a(2,3) b(2) by (simp add: st'_def h_value_def r_value_def)
  then show "h_value st' = (h_value st + le_value m + 2 ^ 104 * unat hibit) * r_value st mod poly1305_prime"
    unfolding h_value_def by (metis mod_add_left_eq mod_mult_left_eq add.assoc)
qed

lemma unat_hibit: "2 ^ 104 * unat (push_bit 24 (1 :: 32 word)) = 2 ^ 128"
  by (simp add: unat_push_bit)

lemma update_ok:
  "h_ok st \<Longrightarrow> r_ok st \<Longrightarrow>
    h_ok (poly1305_update st inp) \<and> r_ok (poly1305_update st inp) \<and> r_value (poly1305_update st inp) = r_value st
    \<and> h_value (poly1305_update st inp) = poly1305_acc (r_value st) (h_value st) inp
    \<and> pbuf (poly1305_update st inp) = pbuf st \<and> pbuf_used (poly1305_update st inp) = pbuf_used st \<and> pkey (poly1305_update st inp) = pkey st"
proof (induction st inp rule: poly1305_update.induct)
  case (1 st inp)
  consider "16 \<le> length inp" | "inp = []" | "inp \<noteq> []" "length inp < 16" by linarith
  then show ?case
  proof cases
    case 1
    let ?st = "poly1305_mul (poly1305_add_block (push_bit 24 1) (take 16 inp) st)"
    have m: "length (take 16 inp) = 16" using 1 by simp
    note b = block_ok [OF "1.prems"(1,2) m disjI2 [OF refl]]
    have "h_value ?st = poly1305_acc (r_value st) (h_value st) (take 16 inp)"
      unfolding b(4) acc_block [OF m] unat_hibit ..
    moreover have "poly1305_acc (r_value st) (h_value st) inp = poly1305_acc (r_value st) (poly1305_acc (r_value st) (h_value st) (take 16 inp)) (drop 16 inp)"
      using acc_append [of "take 16 inp" 1 "r_value st" "h_value st" "drop 16 inp"] m by simp
    moreover have "poly1305_update st inp = poly1305_update ?st (drop 16 inp)" using 1 by (simp add: poly1305_update.simps [of st inp])
    ultimately show ?thesis using "1.IH"(1) [OF 1 b(1,2)] b(3) by simp
  next
    case 2
    then show ?thesis using "1.prems" by (simp add: poly1305_update.simps [of st "[]"])
  next
    case 3
    let ?mp = "inp @ [1] @ replicate (15 - length inp) 0"
    have m: "length ?mp = 16" using 3 by simp
    note b = block_ok [OF "1.prems" m disjI1 [OF refl]]
    have "le_value ?mp = le_value (inp @ [1])" by (simp add: le_value_append le_value_Cons)
    then have "poly1305_acc (r_value st) (h_value st) inp = (h_value st + le_value ?mp + 2 ^ 104 * unat (0 :: 32 word)) * r_value st mod poly1305_prime"
      using 3 by (simp add: acc_step)
    moreover have "poly1305_update st inp = poly1305_mul (poly1305_add_block 0 ?mp st)" using 3 by (simp add: poly1305_update.simps [of st inp] Let_def)
    ultimately show ?thesis using b by simp
  qed
qed

subsection \<open>Buffering\<close>

text \<open>The state without its buffer.\<close>

definition poly1305_view :: "poly1305_state_st \<Rightarrow> poly1305_state_st" where
  "poly1305_view st = st\<lparr>pbuf := [], pbuf_used := 0\<rparr>"

lemma block_view:
  "poly1305_mul (poly1305_add_block t m (poly1305_view st)) = poly1305_view (poly1305_mul (poly1305_add_block t m st))"
  by (simp add: poly1305_mul_def poly1305_add_block_def poly1305_view_def Let_def)

lemma update_view: "poly1305_update (poly1305_view st) inp = poly1305_view (poly1305_update st inp)"
proof (induction st inp rule: poly1305_update.induct)
  case (1 st inp)
  then show ?case
    by (subst (1 2) poly1305_update.simps) (auto simp: block_view Let_def)
qed

lemma update_append: "length xs = 16 * k \<Longrightarrow> poly1305_update st (xs @ ys) = poly1305_update (poly1305_update st xs) ys"
proof (induction k arbitrary: st xs)
  case 0
  then show ?case by (simp add: poly1305_update.simps [of st "[]"])
next
  case (Suc k)
  then have "16 \<le> length xs" "length (drop 16 xs) = 16 * k" by auto
  then show ?case
    using Suc.IH [of "drop 16 xs"] by (simp add: poly1305_update.simps [of st "xs @ ys"] poly1305_update.simps [of st xs])
qed

lemma view_fields [simp]:
  "poly1305_view (st\<lparr>pbuf := b\<rparr>) = poly1305_view st" "poly1305_view (st\<lparr>pbuf_used := n\<rparr>) = poly1305_view st"
  by (simp_all add: poly1305_view_def)

lemma update_keeps: "pbuf (poly1305_update st inp) = pbuf st \<and> pbuf_used (poly1305_update st inp) = pbuf_used st"
proof (induction st inp rule: poly1305_update.induct)
  case (1 st inp)
  then show ?case by (subst (1 2) poly1305_update.simps) (auto simp: Let_def)
qed

definition poly1305_streamed :: "poly1305_state_st \<Rightarrow> byte list \<Rightarrow> poly1305_state_st \<Rightarrow> bool" where
  "poly1305_streamed st0 msg st \<longleftrightarrow> length (pbuf st) = 16 \<and> pbuf_used st < 16
    \<and> (\<exists>xs k. length xs = 16 * k \<and> msg = xs @ take (pbuf_used st) (pbuf st) \<and> poly1305_view st = poly1305_update (poly1305_view st0) xs)"

lemma streamed_blocks:
  assumes at: "poly1305_streamed st0 msg st" and used: "pbuf_used st = 0" and m: "length inp = 16 * k"
  shows "poly1305_streamed st0 (msg @ inp) (poly1305_update st inp) \<and> pbuf_used (poly1305_update st inp) = 0"
proof -
  obtain xs j where xs: "length xs = 16 * j" "msg = xs" "poly1305_view st = poly1305_update (poly1305_view st0) xs" using at used by (auto simp: poly1305_streamed_def)
  have "length (msg @ inp) = 16 * (j + k)" using xs m by simp
  moreover have "poly1305_view (poly1305_update st inp) = poly1305_update (poly1305_view st0) (msg @ inp)"
    using xs by (simp add: update_append [OF xs(1)] update_view [symmetric])
  ultimately show ?thesis using at used update_keeps [of st inp] unfolding poly1305_streamed_def
    by (intro conjI exI [of _ "msg @ inp"] exI [of _ "j + k"]) simp_all
qed

lemma streamed_fill:
  assumes at: "poly1305_streamed st0 msg st" and n: "pbuf_used st + length inp \<le> 16"
  defines "st1 \<equiv> st\<lparr>pbuf := mem_write (pbuf st) (pbuf_used st) inp\<rparr>\<lparr>pbuf_used := pbuf_used st + length inp\<rparr>"
  shows "if pbuf_used st1 = 16 then poly1305_streamed st0 (msg @ inp) ((poly1305_update st1 (pbuf st1))\<lparr>pbuf_used := 0\<rparr>)
    else poly1305_streamed st0 (msg @ inp) st1"
proof -
  obtain xs j where xs: "length xs = 16 * j" "msg = xs @ take (pbuf_used st) (pbuf st)" "poly1305_view st = poly1305_update (poly1305_view st0) xs"
    using at by (auto simp: poly1305_streamed_def)
  have ok: "length (pbuf st) = 16" using at by (simp add: poly1305_streamed_def)
  have buf: "take (pbuf_used st1) (pbuf st1) = take (pbuf_used st) (pbuf st) @ inp"
    using n ok by (simp add: st1_def take_mem_write_upto)
  have len: "length (pbuf st1) = 16" using n ok by (simp add: st1_def)
  have view: "poly1305_view st1 = poly1305_update (poly1305_view st0) xs" using xs(3) by (simp add: st1_def)
  show ?thesis
  proof (cases "pbuf_used st1 = 16")
    case True
    then have b: "msg @ inp = xs @ pbuf st1" using buf len xs(2) by simp
    have "poly1305_view (poly1305_update st1 (pbuf st1)) = poly1305_update (poly1305_view st0) (xs @ pbuf st1)"
      by (simp add: update_append [OF xs(1)] update_view [symmetric] view)
    moreover have "length (xs @ pbuf st1) = 16 * (j + 1)" using xs(1) len by simp
    ultimately have "poly1305_streamed st0 (msg @ inp) ((poly1305_update st1 (pbuf st1))\<lparr>pbuf_used := 0\<rparr>)"
      unfolding poly1305_streamed_def b using len update_keeps [of st1 "pbuf st1"]
      by (intro conjI exI [of _ "xs @ pbuf st1"] exI [of _ "j + 1"]) simp_all
    then show ?thesis using True by simp
  next
    case False
    have "pbuf_used st1 < 16" using False n by (simp add: st1_def)
    moreover have "msg @ inp = xs @ take (pbuf_used st1) (pbuf st1)" using xs(2) buf by simp
    ultimately have "poly1305_streamed st0 (msg @ inp) st1" unfolding poly1305_streamed_def using len xs(1) view by blast
    then show ?thesis using False by simp
  qed
qed

lemma CRYPTO_poly1305_update_streamed:
  assumes at: "poly1305_streamed st0 msg st"
  shows "poly1305_streamed st0 (msg @ inp) (CRYPTO_poly1305_update st inp)"
proof -
  define rest where "rest st inp =
    (let (st, inp) = (if 16 \<le> length inp then (let todo = length inp div 16 * 16 in (poly1305_update st (take todo inp), drop todo inp)) else (st, inp))
     in if inp \<noteq> [] then st\<lparr>pbuf := mem_write (pbuf st) 0 inp, pbuf_used := length inp\<rparr> else st)" for st and inp :: "byte list"
  have store: "poly1305_streamed st0 (msg @ inp) (if inp \<noteq> [] then st\<lparr>pbuf := mem_write (pbuf st) 0 inp, pbuf_used := length inp\<rparr> else st)"
    if "poly1305_streamed st0 msg st" "pbuf_used st = 0" "length inp < 16" for msg st and inp :: "byte list"
    using streamed_fill [OF that(1), of inp] that by (cases "inp = []") simp_all
  have rest: "poly1305_streamed st0 (msg @ inp) (rest st inp)" if "poly1305_streamed st0 msg st" "pbuf_used st = 0 \<or> inp = []" for msg st inp
  proof (cases "16 \<le> length inp")
    case True
    define todo where "todo = length inp div 16 * 16"
    have l: "length (take todo inp) = 16 * (length inp div 16)" by (simp add: todo_def)
    have zero: "pbuf_used st = 0" using that(2) True by auto
    note w = streamed_blocks [OF that(1) zero l]
    have "length (drop todo inp) < 16"
    proof -
      have "length inp - todo = length inp mod 16" by (simp add: todo_def minus_div_mult_eq_mod)
      then show ?thesis by simp
    qed
    from store [OF conjunct1 [OF w] conjunct2 [OF w] this] show ?thesis
      using True by (simp add: rest_def Let_def todo_def [symmetric])
  next
    case False
    show ?thesis
    proof (cases "inp = []")
      case True
      then show ?thesis using that(1) by (simp add: rest_def)
    next
      case ne: False
      then show ?thesis using store [of msg st inp] that False by (simp add: rest_def)
    qed
  qed
  show ?thesis
  proof (cases "pbuf_used st = 0")
    case True
    then have "CRYPTO_poly1305_update st inp = rest st inp" by (simp add: CRYPTO_poly1305_update_def rest_def Let_def)
    then show ?thesis using rest [OF at, of inp] True by simp
  next
    case False
    define todo where "todo = (if 16 - pbuf_used st > length inp then length inp else 16 - pbuf_used st)"
    define st1 where "st1 = st\<lparr>pbuf := mem_write (pbuf st) (pbuf_used st) (take todo inp)\<rparr>\<lparr>pbuf_used := pbuf_used st + todo\<rparr>"
    have lt: "pbuf_used st < 16" using at by (simp add: poly1305_streamed_def)
    have len: "length (take todo inp) = todo" by (simp add: todo_def)
    have "pbuf_used st + length (take todo inp) \<le> 16" using lt unfolding len todo_def by auto
    note fill = streamed_fill [OF at this, unfolded len, folded st1_def]
    have u: "CRYPTO_poly1305_update st inp = (if pbuf_used st1 = 16 then rest ((poly1305_update st1 (pbuf st1))\<lparr>pbuf_used := 0\<rparr>) (drop todo inp) else rest st1 (drop todo inp))"
      using False by (simp add: CRYPTO_poly1305_update_def rest_def Let_def todo_def [symmetric] st1_def)
    have whole: "msg @ inp = (msg @ take todo inp) @ drop todo inp" by simp
    show ?thesis
    proof (cases "pbuf_used st1 = 16")
      case True
      then have "poly1305_streamed st0 (msg @ take todo inp) ((poly1305_update st1 (pbuf st1))\<lparr>pbuf_used := 0\<rparr>)" using fill by simp
      from rest [OF this, of "drop todo inp"] show ?thesis unfolding u whole using True by simp
    next
      case 16: False
      then have a: "poly1305_streamed st0 (msg @ take todo inp) st1" using fill by simp
      have "drop todo inp = []" using 16 lt by (auto simp: st1_def todo_def split: if_splits)
      with rest [OF a, of "drop todo inp"] show ?thesis unfolding u whole using 16 by simp
    qed
  qed
qed

subsection \<open>The key\<close>

lemma word32_eqI:
  fixes v w :: "32 word"
  assumes "\<forall>n \<in> set [0, 1, 2, 3, 4, 5, 6, 7, 8, 9, 10, 11, 12, 13, 14, 15, 16, 17, 18, 19, 20, 21, 22, 23, 24, 25, 26, 27, 28, 29, 30, 31]. bit v n = bit w n"
  shows "v = w"
proof (rule bit_word_eqI)
  fix n assume "n < LENGTH(32)"
  then have "n \<in> set [0..<32]" by simp
  also have "[0..<32] = [0, 1, 2, 3, 4, 5, 6, 7, 8, 9, 10, 11, 12, 13, 14, 15, 16, 17, 18, 19, 20, 21, 22, 23, 24, 25, 26, 27, 28, 29, 30, 31]" by (simp add: upt_rec)
  finally show "bit v n = bit w n" using assms by blast
qed

lemma high_bit32: "32 \<le> n \<Longrightarrow> \<not> bit (w :: 32 word) n"
  by (auto dest: bit_imp_le_length)

lemma clamp_limbs:
  fixes t0 t1 t2 t3 :: "32 word"
  defines "c0 \<equiv> t0 AND 0x0fffffff" and "c1 \<equiv> t1 AND 0x0ffffffc" and "c2 \<equiv> t2 AND 0x0ffffffc" and "c3 \<equiv> t3 AND 0x0ffffffc"
  shows "t0 AND 0x3ffffff = c0 AND 0x3ffffff"
    and "(drop_bit 26 t0 OR push_bit 6 t1) AND 0x3ffff03 = ucast (drop_bit 26 (push_bit 32 (ucast c1) OR ucast c0 :: 64 word) AND 0x3ffffff)"
    and "(drop_bit 20 t1 OR push_bit 12 t2) AND 0x3ffc0ff = ucast (drop_bit 20 (push_bit 32 (ucast c2) OR ucast c1 :: 64 word) AND 0x3ffffff)"
    and "(drop_bit 14 t2 OR push_bit 18 t3) AND 0x3f03fff = ucast (drop_bit 14 (push_bit 32 (ucast c3) OR ucast c2 :: 64 word) AND 0x3ffffff)"
    and "drop_bit 8 t3 AND 0x00fffff = drop_bit 8 c3"
  unfolding c0_def c1_def c2_def c3_def by (rule word32_eqI; simp add: bit_simps numeral_2_eq_2 high_bit32)+

lemma bit_U8TO32_LE:
  assumes "n < 32" and "4 \<le> length m"
  shows "bit (U8TO32_LE m) n \<longleftrightarrow> bit (m ! (n div 8)) (n mod 8)"
proof -
  have i: "n div 8 < 4" using assms(1) by simp
  have "n = 8 * (n div 8) + n mod 8" by simp
  then have "bit (U8TO32_LE m) n = bit (U8TO32_LE m) (8 * (n div 8) + n mod 8)" by simp
  also have "\<dots> = bit (take 4 m ! (n div 8)) (n mod 8)"
    unfolding U8TO32_LE_def using i assms(2) by (intro bit_load32) simp_all
  also have "take 4 m ! (n div 8) = m ! (n div 8)" using i by simp
  finally show ?thesis .
qed

lemma length_poly1305_clamp [simp]: "length (poly1305_clamp key) = 16"
  by (simp add: poly1305_clamp_def)

lemma nth_poly1305_clamp:
  "i < 16 \<Longrightarrow> poly1305_clamp key ! i = (if i mod 4 = 3 then key ! i AND 15 else if i mod 4 = 0 \<and> 0 < i then key ! i AND 252 else key ! i)"
  by (simp add: poly1305_clamp_def)

lemma clamp_words:
  assumes "16 \<le> length key"
  shows "U8TO32_LE (poly1305_clamp key) = U8TO32_LE key AND 0x0fffffff"
    and "U8TO32_LE (drop 4 (poly1305_clamp key)) = U8TO32_LE (drop 4 key) AND 0x0ffffffc"
    and "U8TO32_LE (drop 8 (poly1305_clamp key)) = U8TO32_LE (drop 8 key) AND 0x0ffffffc"
    and "U8TO32_LE (drop 12 (poly1305_clamp key)) = U8TO32_LE (drop 12 key) AND 0x0ffffffc"
  using assms by (intro word32_eqI; simp add: bit_U8TO32_LE bit_and_iff nth_poly1305_clamp nth_drop numeral_2_eq_2)+

lemma unat_and_le: "unat ((w :: 32 word) AND m) \<le> unat m"
proof -
  have "w AND m \<le> m" by (rule word_and_le1)
  then show ?thesis by (simp add: word_le_nat_alt)
qed

lemma times_five: "unat (w :: 32 word) \<le> 67108863 \<Longrightarrow> unat (w * 5) = 5 * unat w"
  by (simp add: unat_word_ariths)

lemma CRYPTO_poly1305_init_ok:
  assumes key: "length key = 32"
  shows "h_ok (CRYPTO_poly1305_init st key) \<and> r_ok (CRYPTO_poly1305_init st key) \<and> h_value (CRYPTO_poly1305_init st key) = 0
    \<and> r_value (CRYPTO_poly1305_init st key) = le_value (poly1305_clamp key) \<and> pkey (CRYPTO_poly1305_init st key) = drop 16 key"
proof -
  define t0 t1 t2 t3 where t: "t0 = U8TO32_LE key" "t1 = U8TO32_LE (drop 4 key)" "t2 = U8TO32_LE (drop 8 key)" "t3 = U8TO32_LE (drop 12 key)"
  define r0 r1 r2 r3 r4 where r: "r0 = t0 AND 0x3ffffff" "r1 = (drop_bit 26 t0 OR push_bit 6 t1) AND 0x3ffff03"
    "r2 = (drop_bit 20 t1 OR push_bit 12 t2) AND 0x3ffc0ff" "r3 = (drop_bit 14 t2 OR push_bit 18 t3) AND 0x3f03fff" "r4 = drop_bit 8 t3 AND 0x00fffff"
  have st: "CRYPTO_poly1305_init st key = st\<lparr>pr0 := r0, pr1 := r1, pr2 := r2, pr3 := r3, pr4 := r4, ps1 := r1 * 5, ps2 := r2 * 5, ps3 := r3 * 5, ps4 := r4 * 5,
        ph0 := 0, ph1 := 0, ph2 := 0, ph3 := 0, ph4 := 0, pbuf_used := 0, pkey := take 16 (drop 16 key)\<rparr>"
    unfolding CRYPTO_poly1305_init_def Let_def r t ..
  have b: "unat r0 \<le> 0x3ffffff" "unat r1 \<le> 0x3ffff03" "unat r2 \<le> 0x3ffc0ff" "unat r3 \<le> 0x3f03fff" "unat r4 \<le> 0xfffff"
    using unat_and_le [of t0 "0x3ffffff"] unat_and_le [of "drop_bit 26 t0 OR push_bit 6 t1" "0x3ffff03"] unat_and_le [of "drop_bit 20 t1 OR push_bit 12 t2" "0x3ffc0ff"]
      unat_and_le [of "drop_bit 14 t2 OR push_bit 18 t3" "0x3f03fff"] unat_and_le [of "drop_bit 8 t3" "0xfffff"] unfolding r by (simp_all only: unat_numeral) simp_all
  have "r_ok (CRYPTO_poly1305_init st key)"
    unfolding st r_ok_def using b times_five [of r1] times_five [of r2] times_five [of r3] times_five [of r4] by simp
  moreover have "h_ok (CRYPTO_poly1305_init st key)" "h_value (CRYPTO_poly1305_init st key) = 0"
    unfolding st by (simp_all add: h_ok_def h_value_def h_limbs_def limbs_value_def)
  moreover have "r_value (CRYPTO_poly1305_init st key) = le_value (poly1305_clamp key)"
  proof -
    note c = clamp_words [of key]
    let ?c0 = "U8TO32_LE (poly1305_clamp key)" and ?c1 = "U8TO32_LE (drop 4 (poly1305_clamp key))" and ?c2 = "U8TO32_LE (drop 8 (poly1305_clamp key))"
      and ?c3 = "U8TO32_LE (drop 12 (poly1305_clamp key))"
    have c: "?c0 = t0 AND 0x0fffffff" "?c1 = t1 AND 0x0ffffffc" "?c2 = t2 AND 0x0ffffffc" "?c3 = t3 AND 0x0ffffffc"
      unfolding t using key by (simp_all add: clamp_words)
    have u: "unat r0 = unat ?c0 mod 2 ^ 26" "unat r1 = (unat ?c1 * 2 ^ 32 + unat ?c0) div 2 ^ 26 mod 2 ^ 26"
      "unat r2 = (unat ?c2 * 2 ^ 32 + unat ?c1) div 2 ^ 20 mod 2 ^ 26" "unat r3 = (unat ?c3 * 2 ^ 32 + unat ?c2) div 2 ^ 14 mod 2 ^ 26"
      "unat r4 = unat ?c3 div 2 ^ 8"
      unfolding r clamp_limbs [of t0] clamp_limbs(2) [of t0 t1] clamp_limbs(3) [of t1 t2] clamp_limbs(4) [of t2 t3] clamp_limbs(5) [of t3] c [symmetric]
      by (rule unat_low26 unat_limb unat_drop_bit; simp)+
    have "r_value (CRYPTO_poly1305_init st key) = unat r0 + 2 ^ 26 * unat r1 + 2 ^ 52 * unat r2 + 2 ^ 78 * unat r3 + 2 ^ 104 * unat r4"
      unfolding st by (simp add: r_value_def r_limbs_def limbs_value_def)
    also have "\<dots> = unat ?c0 + 2 ^ 32 * unat ?c1 + 2 ^ 64 * unat ?c2 + 2 ^ 96 * unat ?c3"
      unfolding u by (rule limbs_of_words) (rule unat_32_less)+
    also have "\<dots> = le_value (poly1305_clamp key)" by (rule le_value_words [symmetric]) simp
    finally show ?thesis .
  qed
  moreover have "pkey (CRYPTO_poly1305_init st key) = drop 16 key" unfolding st using key by simp
  ultimately show ?thesis by blast
qed

end
