(* ===== verification/Poly1305_Finish.thy ===== *)
theory Poly1305_Finish
  imports Poly1305
begin

text \<open>
  The end of Poly1305: carries, reduction and addition of the key in \<open>CRYPTO_poly1305_finish\<close>, the tag
  of a message that comes in pieces, and an input on which the last carry is lost.
\<close>

lemma ucast_32_byte: "(ucast w :: byte) = of_nat (unat w mod 256)" for w :: "32 word"
  by (rule word_unat_eq_iff [THEN iffD2]) (simp add: unsigned_ucast_eq take_bit_eq_mod)

subsection \<open>The end\<close>

lemma finish_carry_ok:
  assumes b: "unat h0 \<le> 2800000000" "unat h1 < 2 ^ 26" "unat h2 < 2 ^ 26" "unat h3 < 2 ^ 26" "unat h4 < 2 ^ 26"
  shows "\<exists>l0 l1 l2 l3 l4 c. finish_carry (h0, h1, h2, h3, h4) = (l0, l1, l2, l3, l4)
    \<and> unat l0 \<le> 2 ^ 26 + 4 \<and> unat l1 < 2 ^ 26 \<and> unat l2 < 2 ^ 26 \<and> unat l3 < 2 ^ 26 \<and> unat l4 < 2 ^ 26
    \<and> limbs_value (l0, l1, l2, l3, l4) + poly1305_prime * c = limbs_value (h0, h1, h2, h3, h4) \<and> (c = 0 \<and> unat l0 < 2 ^ 26 \<or> c = 1 \<and> limbs_value (l0, l1, l2, l3, l4) < 2 ^ 33)"
proof -
  define b0 where "b0 = drop_bit 26 h0"
  define u1 where "u1 = h1 + b0"
  define b1 where "b1 = drop_bit 26 u1"
  define u2 where "u2 = h2 + b1"
  define b2 where "b2 = drop_bit 26 u2"
  define u3 where "u3 = h3 + b2"
  define b3 where "b3 = drop_bit 26 u3"
  define u4 where "u4 = h4 + b3"
  define b4 where "b4 = drop_bit 26 u4"
  have eq: "finish_carry (h0, h1, h2, h3, h4) = ((h0 AND 0x3ffffff) + b4 * 5, u1 AND 0x3ffffff, u2 AND 0x3ffffff, u3 AND 0x3ffffff, u4 AND 0x3ffffff)"
    unfolding finish_carry_def Let_def prod.case b0_def u1_def b1_def u2_def b2_def u3_def b3_def u4_def b4_def ..
  have c0: "unat b0 = unat h0 div 2 ^ 26" unfolding b0_def by (rule unat_drop_bit)
  have c0b: "unat b0 \<le> 41" unfolding c0 using b(1) by simp
  have v1: "unat u1 = unat h1 + unat b0" unfolding u1_def using b(2) c0b by (subst unat_add_exact) simp_all
  have c1: "unat b1 = unat u1 div 2 ^ 26" unfolding b1_def by (rule unat_drop_bit)
  have c1b: "unat b1 \<le> 1" unfolding c1 v1 using b(2) c0b by simp
  have v2: "unat u2 = unat h2 + unat b1" unfolding u2_def using b(3) c1b by (subst unat_add_exact) simp_all
  have c2: "unat b2 = unat u2 div 2 ^ 26" unfolding b2_def by (rule unat_drop_bit)
  have c2b: "unat b2 \<le> 1" unfolding c2 v2 using b(3) c1b by simp
  have v3: "unat u3 = unat h3 + unat b2" unfolding u3_def using b(4) c2b by (subst unat_add_exact) simp_all
  have c3: "unat b3 = unat u3 div 2 ^ 26" unfolding b3_def by (rule unat_drop_bit)
  have c3b: "unat b3 \<le> 1" unfolding c3 v3 using b(4) c2b by simp
  have v4: "unat u4 = unat h4 + unat b3" unfolding u4_def using b(5) c3b by (subst unat_add_exact) simp_all
  have c4: "unat b4 = unat u4 div 2 ^ 26" unfolding b4_def by (rule unat_drop_bit)
  have c4b: "unat b4 \<le> 1" unfolding c4 v4 using b(5) c3b by simp
  have low: "unat (w AND 0x3ffffff) < 2 ^ 26" for w :: "32 word" unfolding unat_low26 by simp
  have five: "unat (b4 * 5) = 5 * unat b4" using c4b by (simp add: times_five)
  have l0: "unat ((h0 AND 0x3ffffff) + b4 * 5) = unat (h0 AND 0x3ffffff) + 5 * unat b4"
    using low [of h0] c4b five by (subst unat_add_exact) simp_all
  have chain: "limbs_value (finish_carry (h0, h1, h2, h3, h4)) + poly1305_prime * unat b4 = limbs_value (h0, h1, h2, h3, h4)"
    using carry_chain [OF v1 [unfolded c0] v2 [unfolded c1] v3 [unfolded c2] v4 [unfolded c3]]
    unfolding eq limbs_value_def prod.case l0 unat_low26 c4 poly1305_prime_def by simp
  have "limbs_value (h0, h1, h2, h3, h4) < poly1305_prime + 2 ^ 33"
    unfolding limbs_value_def prod.case poly1305_prime_def using b by simp
  then have small: "limbs_value (finish_carry (h0, h1, h2, h3, h4)) < 2 ^ 33" if "unat b4 = 1" using chain that by simp
  have z: "unat b4 = 0 \<or> unat b4 = 1" using c4b by linarith
  have n0: "unat ((h0 AND 0x3ffffff) + b4 * 5) < 2 ^ 26" if "unat b4 = 0" unfolding l0 that using low [of h0] by simp
  have n1: "unat ((h0 AND 0x3ffffff) + b4 * 5) \<le> 2 ^ 26 + 4" unfolding l0 using low [of h0] c4b by simp
  have last: "unat b4 = 0 \<and> unat ((h0 AND 0x3ffffff) + b4 * 5) < 2 ^ 26 \<or> unat b4 = 1 \<and> limbs_value (finish_carry (h0, h1, h2, h3, h4)) < 2 ^ 33"
    using z small n0 by blast
  show ?thesis
    by (intro exI conjI, rule eq, rule n1, (rule low)+, rule chain [unfolded eq], rule last [unfolded eq])
qed

lemma finish_reduce_ok:
  assumes b: "unat h0 \<le> 2 ^ 26 + 4" "unat h1 < 2 ^ 26" "unat h2 < 2 ^ 26" "unat h3 < 2 ^ 26" "unat h4 < 2 ^ 26"
  shows "if limbs_value (h0, h1, h2, h3, h4) < poly1305_prime then finish_reduce (h0, h1, h2, h3, h4) = (h0, h1, h2, h3, h4)
    else \<exists>l0 l1 l2 l3 l4. finish_reduce (h0, h1, h2, h3, h4) = (l0, l1, l2, l3, l4)
      \<and> unat l0 < 2 ^ 26 \<and> unat l1 < 2 ^ 26 \<and> unat l2 < 2 ^ 26 \<and> unat l3 < 2 ^ 26 \<and> unat l4 < 2 ^ 26
      \<and> limbs_value (l0, l1, l2, l3, l4) + poly1305_prime = limbs_value (h0, h1, h2, h3, h4)"
proof -
  define u0 where "u0 = h0 + 5"
  define b0 where "b0 = drop_bit 26 u0"
  define u1 where "u1 = h1 + b0"
  define b1 where "b1 = drop_bit 26 u1"
  define u2 where "u2 = h2 + b1"
  define b2 where "b2 = drop_bit 26 u2"
  define u3 where "u3 = h3 + b2"
  define b3 where "b3 = drop_bit 26 u3"
  define u4 where "u4 = h4 + b3"
  define g4 where "g4 = u4 - push_bit 26 1"
  define m where "m = drop_bit 31 g4 - 1"
  have eq: "finish_reduce (h0, h1, h2, h3, h4) = ((h0 AND NOT m) OR ((u0 AND 0x3ffffff) AND m), (h1 AND NOT m) OR ((u1 AND 0x3ffffff) AND m),
      (h2 AND NOT m) OR ((u2 AND 0x3ffffff) AND m), (h3 AND NOT m) OR ((u3 AND 0x3ffffff) AND m), (h4 AND NOT m) OR (g4 AND m))"
    unfolding finish_reduce_def Let_def prod.case u0_def b0_def u1_def b1_def u2_def b2_def u3_def b3_def u4_def g4_def m_def ..
  have v0: "unat u0 = unat h0 + 5" unfolding u0_def using b(1) by (subst unat_add_exact) simp_all
  have c0: "unat b0 = unat u0 div 2 ^ 26" unfolding b0_def by (rule unat_drop_bit)
  have c0b: "unat b0 \<le> 1" unfolding c0 v0 using b(1) by simp
  have v1: "unat u1 = unat h1 + unat b0" unfolding u1_def using b(2) c0b by (subst unat_add_exact) simp_all
  have c1: "unat b1 = unat u1 div 2 ^ 26" unfolding b1_def by (rule unat_drop_bit)
  have c1b: "unat b1 \<le> 1" unfolding c1 v1 using b(2) c0b by simp
  have v2: "unat u2 = unat h2 + unat b1" unfolding u2_def using b(3) c1b by (subst unat_add_exact) simp_all
  have c2: "unat b2 = unat u2 div 2 ^ 26" unfolding b2_def by (rule unat_drop_bit)
  have c2b: "unat b2 \<le> 1" unfolding c2 v2 using b(3) c1b by simp
  have v3: "unat u3 = unat h3 + unat b2" unfolding u3_def using b(4) c2b by (subst unat_add_exact) simp_all
  have c3: "unat b3 = unat u3 div 2 ^ 26" unfolding b3_def by (rule unat_drop_bit)
  have c3b: "unat b3 \<le> 1" unfolding c3 v3 using b(4) c2b by simp
  have v4: "unat u4 = unat h4 + unat b3" unfolding u4_def using b(5) c3b by (subst unat_add_exact) simp_all
  have u4b: "unat u4 \<le> 2 ^ 26" unfolding v4 using b(5) c3b by simp
  have low: "unat (w AND 0x3ffffff) < 2 ^ 26" for w :: "32 word" unfolding unat_low26 by simp
  have d: "2 ^ 104 * (unat u4 mod 2 ^ 26) + 2 ^ 130 * (unat u4 div 2 ^ 26) = 2 ^ 104 * unat u4"
  proof -
    obtain q m where qm: "unat u4 div 2 ^ 26 = q" "unat u4 mod 2 ^ 26 = m" by blast
    then have "unat u4 = m + 2 ^ 26 * q" using mod_mult_div_eq [of "unat u4" "2 ^ 26"] by simp
    then show ?thesis unfolding qm by simp
  qed
  have sum: "limbs_value (h0, h1, h2, h3, h4) + 5 =
      unat (u0 AND 0x3ffffff) + 2 ^ 26 * unat (u1 AND 0x3ffffff) + 2 ^ 52 * unat (u2 AND 0x3ffffff) + 2 ^ 78 * unat (u3 AND 0x3ffffff) + 2 ^ 104 * unat u4"
    using carry_chain [OF v1 [unfolded c0] v2 [unfolded c1] v3 [unfolded c2] v4 [unfolded c3]] d
    unfolding limbs_value_def prod.case unat_low26 v0 by simp
  have one: "unat (push_bit 26 1 :: 32 word) = 2 ^ 26" by (simp add: unat_push_bit)
  show ?thesis
  proof (cases "unat u4 < 2 ^ 26")
    case True
    have V: "limbs_value (h0, h1, h2, h3, h4) < poly1305_prime"
      using sum True low [of u0] low [of u1] low [of u2] low [of u3] unfolding poly1305_prime_def by simp
    have "unat g4 = 2 ^ 32 + unat u4 - 2 ^ 26"
      unfolding g4_def using True one by (simp add: unat_sub_if_size word_size)
    then have "unat (drop_bit 31 g4) = 1" using True unfolding unat_drop_bit by simp
    then have "drop_bit 31 g4 = 1" by (metis unat_eqD of_nat_1)
    then have "m = 0" by (simp add: m_def)
    then show ?thesis using V by (simp add: eq)
  next
    case False
    then have u4: "unat u4 = 2 ^ 26" using u4b by simp
    then have g4: "g4 = 0" unfolding g4_def using one by (metis word_unat_eq_iff diff_self)
    then have m: "m = - 1" by (simp add: m_def)
    have V: "limbs_value (h0, h1, h2, h3, h4) + 5 = unat (u0 AND 0x3ffffff) + 2 ^ 26 * unat (u1 AND 0x3ffffff) + 2 ^ 52 * unat (u2 AND 0x3ffffff) + 2 ^ 78 * unat (u3 AND 0x3ffffff) + 2 ^ 130"
      using sum u4 by simp
    have "finish_reduce (h0, h1, h2, h3, h4) = (u0 AND 0x3ffffff, u1 AND 0x3ffffff, u2 AND 0x3ffffff, u3 AND 0x3ffffff, 0)"
      by (simp add: eq m g4)
    moreover have "limbs_value (u0 AND 0x3ffffff, u1 AND 0x3ffffff, u2 AND 0x3ffffff, u3 AND 0x3ffffff, 0) + poly1305_prime = limbs_value (h0, h1, h2, h3, h4)"
      using V unfolding limbs_value_def prod.case poly1305_prime_def by simp
    moreover from this have "\<not> limbs_value (h0, h1, h2, h3, h4) < poly1305_prime" by linarith
    ultimately show ?thesis using low by auto
  qed
qed

text \<open>The lower 128 bits of a reduced number, as four words.\<close>

lemma or_shift:
  fixes a b :: "32 word"
  assumes "unat a < 2 ^ k" and "k \<le> 32"
  shows "unat (a OR push_bit k b) = unat a + 2 ^ k * (unat b mod 2 ^ (32 - k))"
proof -
  have p: "unat (push_bit k b) = 2 ^ k * (unat b mod 2 ^ (32 - k))"
  proof -
    have "(2 :: nat) ^ 32 = 2 ^ k * 2 ^ (32 - k)" using assms(2) by (simp flip: power_add)
    then have "2 ^ k * unat b mod 2 ^ 32 = 2 ^ k * (unat b mod 2 ^ (32 - k))" by (simp only: mult_mod_right)
    moreover have "unat (push_bit k b) = 2 ^ k * unat b mod 2 ^ 32" by (subst unsigned_push_bit_eq) (simp add: take_bit_eq_mod push_bit_eq_mult mult.commute)
    ultimately show ?thesis by simp
  qed
  then have "unat (push_bit k b OR a) = unat (push_bit k b) + unat a" using assms(1) by (intro unat_or_disjoint) simp_all
  then show ?thesis by (simp only: p or.commute [of a] add.commute)
qed

lemma words_of_limbs:
  fixes h0 h1 h2 h3 h4 :: "32 word"
  assumes b: "unat h0 < 2 ^ 26" "unat h1 < 2 ^ 26" "unat h2 < 2 ^ 26" "unat h3 < 2 ^ 26"
  shows "unat (h0 OR push_bit 26 h1) + 2 ^ 32 * unat (drop_bit 6 h1 OR push_bit 20 h2) + 2 ^ 64 * unat (drop_bit 12 h2 OR push_bit 14 h3)
      + 2 ^ 96 * unat (drop_bit 18 h3 OR push_bit 8 h4) + 2 ^ 128 * (unat h4 div 2 ^ 24) = limbs_value (h0, h1, h2, h3, h4)"
proof -
  have d: "unat (drop_bit 6 h1) < 2 ^ 20" "unat (drop_bit 12 h2) < 2 ^ 14" "unat (drop_bit 18 h3) < 2 ^ 8"
    using b unfolding unat_drop_bit by simp_all
  have w: "unat (h0 OR push_bit 26 h1) = unat h0 + 2 ^ 26 * (unat h1 mod 2 ^ 6)"
    "unat (drop_bit 6 h1 OR push_bit 20 h2) = unat h1 div 2 ^ 6 + 2 ^ 20 * (unat h2 mod 2 ^ 12)"
    "unat (drop_bit 12 h2 OR push_bit 14 h3) = unat h2 div 2 ^ 12 + 2 ^ 14 * (unat h3 mod 2 ^ 18)"
    "unat (drop_bit 18 h3 OR push_bit 8 h4) = unat h3 div 2 ^ 18 + 2 ^ 8 * (unat h4 mod 2 ^ 24)"
    using or_shift [OF b(1), of h1] or_shift [OF d(1), of h2] or_shift [OF d(2), of h3] or_shift [OF d(3), of h4] by (simp_all add: unat_drop_bit)
  have s: "\<exists>q m. x div 2 ^ k = q \<and> x mod 2 ^ k = m \<and> x = m + 2 ^ k * q" for x k :: nat
    using mod_mult_div_eq [of x "2 ^ k"] by metis
  from s [of "unat h1" 6] obtain q1 m1 where 1: "unat h1 div 2 ^ 6 = q1" "unat h1 mod 2 ^ 6 = m1" "unat h1 = m1 + 2 ^ 6 * q1" by blast
  from s [of "unat h2" 12] obtain q2 m2 where 2: "unat h2 div 2 ^ 12 = q2" "unat h2 mod 2 ^ 12 = m2" "unat h2 = m2 + 2 ^ 12 * q2" by blast
  from s [of "unat h3" 18] obtain q3 m3 where 3: "unat h3 div 2 ^ 18 = q3" "unat h3 mod 2 ^ 18 = m3" "unat h3 = m3 + 2 ^ 18 * q3" by blast
  from s [of "unat h4" 24] obtain q4 m4 where 4: "unat h4 div 2 ^ 24 = q4" "unat h4 mod 2 ^ 24 = m4" "unat h4 = m4 + 2 ^ 24 * q4" by blast
  show ?thesis unfolding w 1(1,2) 2(1,2) 3(1,2) 4(1,2) limbs_value_def prod.case unfolding 1(3) 2(3) 3(3) 4(3) by simp
qed

lemma digit_low: "be_bytes 4 (a + 2 ^ 32 * b) = be_bytes 4 a"
  by (rule be_value_inj) simp_all

lemma digit_high: "((a :: nat) + 2 ^ 32 * b) div 2 ^ 32 = a div 2 ^ 32 + b"
  by simp

lemma U32TO8_LE_eq: "U32TO8_LE v = rev (be_bytes 4 (unat v))"
  by (simp add: U32TO8_LE_def be_bytes_4 upt_conv_Cons ucast_32_byte unat_drop_bit del: upt_Suc)

lemma U32TO8_LE_low: "U32TO8_LE (ucast (f :: 64 word)) = rev (be_bytes 4 (unat f))"
proof -
  have "be_bytes 4 (unat f) = be_bytes 4 (unat f mod 2 ^ 32)" by (rule be_value_inj) simp_all
  then show ?thesis by (simp only: U32TO8_LE_eq unat_ucast_32)
qed

lemma sixteen_bytes: "rev (be_bytes 16 n) = rev (be_bytes 4 n) @ rev (be_bytes 4 (n div 2 ^ 32)) @ rev (be_bytes 4 (n div 2 ^ 32 div 2 ^ 32)) @ rev (be_bytes 4 (n div 2 ^ 32 div 2 ^ 32 div 2 ^ 32))"
proof -
  have p: "(256 :: nat) ^ 4 = 2 ^ 32" by simp
  have "be_bytes (12 + 4) n = be_bytes 12 (n div 2 ^ 32) @ be_bytes 4 n" for n unfolding be_bytes_add p ..
  moreover have "be_bytes (8 + 4) n = be_bytes 8 (n div 2 ^ 32) @ be_bytes 4 n" for n unfolding be_bytes_add p ..
  moreover have "be_bytes (4 + 4) n = be_bytes 4 (n div 2 ^ 32) @ be_bytes 4 n" for n unfolding be_bytes_add p ..
  moreover have "12 + 4 = (16 :: nat)" "8 + 4 = (12 :: nat)" "4 + 4 = (8 :: nat)" by simp_all
  ultimately have "be_bytes 16 n = ((be_bytes 4 (n div 2 ^ 32 div 2 ^ 32 div 2 ^ 32) @ be_bytes 4 (n div 2 ^ 32 div 2 ^ 32)) @ be_bytes 4 (n div 2 ^ 32)) @ be_bytes 4 n"
    by metis
  then show ?thesis by simp
qed

lemma finish_tag_ok:
  assumes b: "unat h0 < 2 ^ 26" "unat h1 < 2 ^ 26" "unat h2 < 2 ^ 26" "unat h3 < 2 ^ 26" and key: "length key = 16"
  shows "finish_tag key (h0, h1, h2, h3, h4) = rev (be_bytes 16 (limbs_value (h0, h1, h2, h3, h4) + le_value key))"
proof -
  define w0 w1 w2 w3 where w: "w0 = h0 OR push_bit 26 h1" "w1 = drop_bit 6 h1 OR push_bit 20 h2" "w2 = drop_bit 12 h2 OR push_bit 14 h3" "w3 = drop_bit 18 h3 OR push_bit 8 h4"
  define k0 k1 k2 k3 where k: "k0 = U8TO32_LE key" "k1 = U8TO32_LE (drop 4 key)" "k2 = U8TO32_LE (drop 8 key)" "k3 = U8TO32_LE (drop 12 key)"
  define f0 where "f0 = (ucast w0 :: 64 word) + ucast k0"
  define f1 where "f1 = (ucast w1 :: 64 word) + ucast k1 + drop_bit 32 f0"
  define f2 where "f2 = (ucast w2 :: 64 word) + ucast k2 + drop_bit 32 f1"
  define f3 where "f3 = (ucast w3 :: 64 word) + ucast k3 + drop_bit 32 f2"
  have tag: "finish_tag key (h0, h1, h2, h3, h4) = U32TO8_LE (ucast f0) @ U32TO8_LE (ucast f1) @ U32TO8_LE (ucast f2) @ U32TO8_LE (ucast f3)"
    unfolding finish_tag_def Let_def prod.case f0_def f1_def f2_def f3_def w k ..
  have add: "unat ((ucast a :: 64 word) + ucast b) = unat a + unat b" for a b :: "32 word"
    using unat_32_less [of a] unat_32_less [of b] by (subst unat_add_exact) (simp_all add: unat_ucast_64)
  have add3: "unat ((ucast a :: 64 word) + ucast b + drop_bit 32 f) = unat a + unat b + unat f div 2 ^ 32" for a b :: "32 word" and f :: "64 word"
  proof -
    have "unat f < 2 ^ 64" using unsigned_less [of f] by simp
    then have "unat (drop_bit 32 f) < 2 ^ 32" unfolding unat_drop_bit by simp
    then show ?thesis using unat_32_less [of a] unat_32_less [of b] by (subst unat_add_exact) (simp_all add: add unat_drop_bit)
  qed
  let ?X = "unat h4 div 2 ^ 24"
  let ?N3 = "unat f3 + 2 ^ 32 * ?X"
  let ?N2 = "unat f2 + 2 ^ 32 * (unat w3 + unat k3 + 2 ^ 32 * ?X)"
  let ?N1 = "unat f1 + 2 ^ 32 * (unat w2 + unat k2 + 2 ^ 32 * (unat w3 + unat k3 + 2 ^ 32 * ?X))"
  let ?N0 = "unat f0 + 2 ^ 32 * (unat w1 + unat k1 + 2 ^ 32 * (unat w2 + unat k2 + 2 ^ 32 * (unat w3 + unat k3 + 2 ^ 32 * ?X)))"
  have "limbs_value (h0, h1, h2, h3, h4) + le_value key =
      (unat w0 + 2 ^ 32 * unat w1 + 2 ^ 64 * unat w2 + 2 ^ 96 * unat w3 + 2 ^ 128 * ?X) + (unat k0 + 2 ^ 32 * unat k1 + 2 ^ 64 * unat k2 + 2 ^ 96 * unat k3)"
    using words_of_limbs [OF b, of h4] le_value_words [OF key] unfolding w k by (simp only:)
  also have "\<dots> = ?N0" unfolding f0_def add by simp
  finally have N: "limbs_value (h0, h1, h2, h3, h4) + le_value key = ?N0" .
  have d1: "?N0 div 2 ^ 32 = ?N1" unfolding digit_high unfolding f1_def add3 by simp
  have d2: "?N1 div 2 ^ 32 = ?N2" unfolding digit_high unfolding f2_def add3 by simp
  have d3: "?N2 div 2 ^ 32 = ?N3" unfolding digit_high unfolding f3_def add3 by simp
  show ?thesis unfolding N tag sixteen_bytes d1 d2 d3 digit_low U32TO8_LE_low ..
qed

text \<open>The end of \<open>CRYPTO_poly1305_finish\<close>, after the last block.\<close>

definition poly1305_end :: "poly1305_state_st \<Rightarrow> byte list" where
  "poly1305_end st = finish_tag (pkey st) (finish_reduce (finish_carry (ph0 st, ph1 st, ph2 st, ph3 st, ph4 st)))"

lemma poly1305_end_ok:
  assumes ok: "h_ok st" and a: "h_value st = a" and key: "pkey st = key" "length key = 16"
    and safe: "5 \<le> a mod 2 ^ 26 \<or> 2 ^ 33 \<le> a"
  shows "poly1305_end st = rev (be_bytes 16 (a + le_value key))"
proof -
  obtain l0 l1 l2 l3 l4 c where l: "finish_carry (h_limbs st) = (l0, l1, l2, l3, l4)" "unat l0 \<le> 2 ^ 26 + 4" "unat l1 < 2 ^ 26" "unat l2 < 2 ^ 26" "unat l3 < 2 ^ 26" "unat l4 < 2 ^ 26"
    "limbs_value (l0, l1, l2, l3, l4) + poly1305_prime * c = limbs_value (h_limbs st)"
    "c = 0 \<and> unat l0 < 2 ^ 26 \<or> c = 1 \<and> limbs_value (l0, l1, l2, l3, l4) < 2 ^ 33"
    using finish_carry_ok [of "ph0 st" "ph1 st" "ph2 st" "ph3 st" "ph4 st"] ok unfolding h_ok_def h_limbs_def by blast
  let ?V = "limbs_value (l0, l1, l2, l3, l4)"
  have V: "?V mod poly1305_prime = a" using a l(7) unfolding h_value_def by (metis mod_mult_self2)
  show ?thesis
  proof (cases "?V < poly1305_prime")
    case True
    then have Va: "?V = a" using V by simp
    have "unat l0 < 2 ^ 26"
    proof (rule ccontr)
      assume big: "\<not> unat l0 < 2 ^ 26"
      then have "a < 2 ^ 33" using l(8) Va by auto
      then have five: "5 \<le> a mod 2 ^ 26" using safe by simp
      obtain j where j: "unat l0 = 2 ^ 26 + j" using big by (metis le_Suc_ex not_less)
      then have "j \<le> 4" using l(2) by simp
      moreover have "a = j + 2 ^ 26 * (1 + unat l1 + 2 ^ 26 * unat l2 + 2 ^ 52 * unat l3 + 2 ^ 78 * unat l4)"
        unfolding Va [symmetric] limbs_value_def prod.case j by simp
      then have "a mod 2 ^ 26 = j mod 2 ^ 26" by (metis mod_mult_self2)
      ultimately show False using five by simp
    qed
    then have "finish_tag key (l0, l1, l2, l3, l4) = rev (be_bytes 16 (?V + le_value key))" using l key(2) by (intro finish_tag_ok) simp_all
    moreover have "finish_reduce (l0, l1, l2, l3, l4) = (l0, l1, l2, l3, l4)" using finish_reduce_ok [OF l(2-6)] True by simp
    ultimately show ?thesis unfolding poly1305_end_def h_limbs_def [symmetric] key(1) l(1) by (simp add: Va)
  next
    case False
    then obtain g0 g1 g2 g3 g4 where g: "finish_reduce (l0, l1, l2, l3, l4) = (g0, g1, g2, g3, g4)" "unat g0 < 2 ^ 26" "unat g1 < 2 ^ 26" "unat g2 < 2 ^ 26" "unat g3 < 2 ^ 26"
      "limbs_value (g0, g1, g2, g3, g4) + poly1305_prime = ?V"
      using finish_reduce_ok [OF l(2-6)] by auto
    have "?V < 2 * poly1305_prime" unfolding limbs_value_def prod.case poly1305_prime_def using l(2-6) by simp
    then have "limbs_value (g0, g1, g2, g3, g4) < poly1305_prime" using g(6) by simp
    then have "limbs_value (g0, g1, g2, g3, g4) = a" using V g(6) by (metis mod_add_self2 mod_less)
    moreover have "finish_tag key (g0, g1, g2, g3, g4) = rev (be_bytes 16 (limbs_value (g0, g1, g2, g3, g4) + le_value key))"
      using g key(2) by (intro finish_tag_ok) simp_all
    ultimately show ?thesis unfolding poly1305_end_def h_limbs_def [symmetric] key(1) l(1) g(1) by simp
  qed
qed

text \<open>The tag is a function of key and message: neither the pieces nor the storage matter.\<close>

definition poly1305_whole :: "byte list \<Rightarrow> byte list \<Rightarrow> byte list" where
  "poly1305_whole key msg = poly1305_end (poly1305_update (CRYPTO_poly1305_init
    \<lparr>pr0 = 0, pr1 = 0, pr2 = 0, pr3 = 0, pr4 = 0, ps1 = 0, ps2 = 0, ps3 = 0, ps4 = 0, ph0 = 0, ph1 = 0, ph2 = 0, ph3 = 0, ph4 = 0,
      pbuf = [], pbuf_used = 0, pkey = []\<rparr> key) msg)"

definition poly1305_tag :: "poly1305_state_st \<Rightarrow> byte list \<Rightarrow> byte list list \<Rightarrow> byte list" where
  "poly1305_tag st key pieces = fst (CRYPTO_poly1305_finish (foldl CRYPTO_poly1305_update (CRYPTO_poly1305_init st key) pieces))"

lemma poly1305_pieces_streamed:
  "poly1305_streamed st0 msg st \<Longrightarrow> poly1305_streamed st0 (msg @ concat pieces) (foldl CRYPTO_poly1305_update st pieces)"
proof (induction pieces arbitrary: msg st)
  case (Cons p ps)
  from Cons.IH [OF CRYPTO_poly1305_update_streamed [OF Cons.prems, of p]] show ?case by simp
qed simp

lemma poly1305_end_view: "poly1305_end (poly1305_view st) = poly1305_end st"
  by (simp add: poly1305_end_def poly1305_view_def)

lemma CRYPTO_poly1305_finish_streamed:
  assumes "poly1305_streamed st0 msg st"
  shows "fst (CRYPTO_poly1305_finish st) = poly1305_end (poly1305_update (poly1305_view st0) msg)"
proof -
  obtain xs k where xs: "length xs = 16 * k" "msg = xs @ take (pbuf_used st) (pbuf st)" "poly1305_view st = poly1305_update (poly1305_view st0) xs"
    using assms by (auto simp: poly1305_streamed_def)
  have "fst (CRYPTO_poly1305_finish st) = poly1305_end (poly1305_update st (take (pbuf_used st) (pbuf st)))"
    by (auto simp: CRYPTO_poly1305_finish_def poly1305_end_def Let_def poly1305_update.simps [of st "[]"] split: prod.split)
  also have "\<dots> = poly1305_end (poly1305_update (poly1305_view st) (take (pbuf_used st) (pbuf st)))"
    unfolding update_view poly1305_end_view ..
  finally show ?thesis unfolding xs(2,3) update_append [OF xs(1)] .
qed

lemma init_view: "poly1305_view (CRYPTO_poly1305_init st key) = poly1305_view (CRYPTO_poly1305_init st' key)"
  by (simp add: poly1305_view_def CRYPTO_poly1305_init_def Let_def)

lemma poly1305_tag_whole:
  assumes "length (pbuf st) = 16"
  shows "poly1305_tag st key pieces = poly1305_whole key (concat pieces)"
proof -
  let ?st = "CRYPTO_poly1305_init st key"
  have "poly1305_view ?st = poly1305_update (poly1305_view ?st) []" by (simp add: poly1305_update.simps [of _ "[]"])
  then have "poly1305_streamed ?st [] ?st"
    using assms unfolding poly1305_streamed_def by (intro conjI exI [of _ "[]"] exI [of _ 0]) (simp_all add: CRYPTO_poly1305_init_def Let_def)
  from CRYPTO_poly1305_finish_streamed [OF poly1305_pieces_streamed [OF this, of pieces]]
  have "poly1305_tag st key pieces = poly1305_end (poly1305_update (poly1305_view ?st) (concat pieces))" by (simp add: poly1305_tag_def)
  then show ?thesis unfolding poly1305_whole_def
    by (subst (asm) init_view) (simp only: update_view poly1305_end_view)
qed

lemma length_poly1305_tag: "length (poly1305_tag st key pieces) = 16"
  by (simp add: poly1305_tag_def CRYPTO_poly1305_finish_def finish_tag_def U32TO8_LE_def Let_def split: prod.split)

lemma poly1305_tag_ok:
  assumes key: "length key = 32" and buf: "length (pbuf st) = 16"
    and a: "a = poly1305_acc (le_value (poly1305_clamp key)) 0 (concat pieces)" and safe: "5 \<le> a mod 2 ^ 26 \<or> 2 ^ 33 \<le> a"
  shows "poly1305_tag st key pieces = poly1305_mac key (concat pieces)"
proof -
  let ?st = "CRYPTO_poly1305_init \<lparr>pr0 = 0, pr1 = 0, pr2 = 0, pr3 = 0, pr4 = 0, ps1 = 0, ps2 = 0, ps3 = 0, ps4 = 0, ph0 = 0, ph1 = 0, ph2 = 0, ph3 = 0, ph4 = 0,
      pbuf = [], pbuf_used = 0, pkey = []\<rparr> key"
  note i = CRYPTO_poly1305_init_ok [OF key, of "\<lparr>pr0 = 0, pr1 = 0, pr2 = 0, pr3 = 0, pr4 = 0, ps1 = 0, ps2 = 0, ps3 = 0, ps4 = 0, ph0 = 0, ph1 = 0, ph2 = 0, ph3 = 0, ph4 = 0,
      pbuf = [], pbuf_used = 0, pkey = []\<rparr>"]
  note u = update_ok [of ?st "concat pieces"]
  have "poly1305_end (poly1305_update ?st (concat pieces)) = rev (be_bytes 16 (a + le_value (drop 16 key)))"
    using i u key safe by (intro poly1305_end_ok) (simp_all add: a)
  then show ?thesis using key by (simp add: poly1305_tag_whole [OF buf] poly1305_whole_def poly1305_mac_def a)
qed

subsection \<open>A wrong tag\<close>

text \<open>
  The last carry of \<open>finish_carry\<close> goes into the first limb and stays there. When the accumulator is
  small but its limbs overflow, the limb can reach \<open>2 ^ 26\<close>, and \<open>finish_tag\<close> combines it by OR with an
  odd second limb.
\<close>

definition edge_key :: "byte list" where
  "edge_key = replicate 16 7 @ replicate 16 0"

definition edge_message :: "byte list" where
  "edge_message = [234, 135, 90, 3, 233, 73, 247, 197, 195, 63, 227, 210, 60, 84, 12, 6]"

lemma edge_init:
  "CRYPTO_poly1305_init st edge_key = st\<lparr>pr0 := 50792199, pr1 := 29475073, pr2 := 7356528, pr3 := 1055772, pr4 := 460551,
    ps1 := 147375365, ps2 := 36782640, ps3 := 5278860, ps4 := 2302755, ph0 := 0, ph1 := 0, ph2 := 0, ph3 := 0, ph4 := 0,
    pbuf_used := 0, pkey := replicate 16 0\<rparr>"
proof -
  have t: "U8TO32_LE edge_key = 117901063" "U8TO32_LE (drop 4 edge_key) = 117901063" "U8TO32_LE (drop 8 edge_key) = 117901063" "U8TO32_LE (drop 12 edge_key) = 117901063"
    by code_simp+
  have "take 16 (drop 16 edge_key) = replicate 16 0" by code_simp
  then show ?thesis unfolding CRYPTO_poly1305_init_def t by (simp add: Let_def)
qed

lemma edge_block:
  "poly1305_mul (poly1305_add_block (push_bit 24 1) edge_message (CRYPTO_poly1305_init st edge_key)) =
    (CRYPTO_poly1305_init st edge_key)\<lparr>ph0 := 201326589, ph1 := 67108863, ph2 := 67108863, ph3 := 67108863, ph4 := 67108863\<rparr>"
proof -
  have t: "U8TO32_LE edge_message = 56264682" "U8TO32_LE (drop 4 edge_message) = 3321317865" "U8TO32_LE (drop 8 edge_message) = 3538108355"
    "U8TO32_LE (drop 12 edge_message) = 101471292" by code_simp+
  show ?thesis unfolding edge_init poly1305_add_block_def t by (simp add: poly1305_mul_def mul32x32_64_def)
qed

lemma edge_tag: "poly1305_tag st edge_key [edge_message] = [2, 0, 0, 4, 0, 0, 0, 0, 0, 0, 0, 0, 0, 0, 0, 0]"
proof -
  let ?st = "(CRYPTO_poly1305_init st edge_key)\<lparr>ph0 := 201326589, ph1 := 67108863, ph2 := 67108863, ph3 := 67108863, ph4 := 67108863\<rparr>"
  have len: "length edge_message = 16" by (simp add: edge_message_def)
  then have "poly1305_update (CRYPTO_poly1305_init st edge_key) edge_message = ?st"
    using edge_block by (simp add: poly1305_update.simps [of "CRYPTO_poly1305_init st edge_key"] poly1305_update.simps [of _ "[]"])
  moreover have "pbuf_used (CRYPTO_poly1305_init st edge_key) = 0" by (simp add: edge_init)
  ultimately have u: "CRYPTO_poly1305_update (CRYPTO_poly1305_init st edge_key) edge_message = ?st"
    using len by (simp add: CRYPTO_poly1305_update_def Let_def)
  have s: "pbuf_used ?st = 0" "pkey ?st = replicate 16 0" by (simp_all add: edge_init)
  have f: "finish_carry (201326589, 67108863, 67108863, 67108863, 67108863) = (67108866, 1, 0, 0, 0)" by code_simp
  have g: "finish_reduce (67108866, 1, 0, 0, 0) = (67108866, 1, 0, 0, 0)" by code_simp
  have t: "finish_tag (replicate 16 0) (67108866, 1, 0, 0, 0) = [2, 0, 0, 4, 0, 0, 0, 0, 0, 0, 0, 0, 0, 0, 0, 0]" by code_simp
  have "poly1305_tag st edge_key [edge_message] = fst (CRYPTO_poly1305_finish ?st)"
    by (simp only: poly1305_tag_def foldl.simps u)
  also have "\<dots> = [2, 0, 0, 4, 0, 0, 0, 0, 0, 0, 0, 0, 0, 0, 0, 0]"
    unfolding CRYPTO_poly1305_finish_def Let_def s by (simp add: f g t s(2) [simplified])
  finally show ?thesis .
qed

lemma edge_mac: "poly1305_mac edge_key edge_message = [2, 0, 0, 8, 0, 0, 0, 0, 0, 0, 0, 0, 0, 0, 0, 0]"
proof -
  have len: "length edge_message = 16" by (simp add: edge_message_def)
  have r: "le_value (poly1305_clamp edge_key) = 9341084344458921202822136365834503943"
  proof -
    have "poly1305_clamp edge_key = [7, 7, 7, 7, 4, 7, 7, 7, 4, 7, 7, 7, 4, 7, 7, 7]" by code_simp
    then show ?thesis by (simp add: le_value_Cons)
  qed
  have m: "le_value edge_message = 8039384078374950109144527525102913514" by (simp add: edge_message_def le_value_Cons)
  have "poly1305_acc (le_value (poly1305_clamp edge_key)) 0 edge_message = 134217730"
    unfolding acc_block [OF len] r m by (simp add: poly1305_prime_def)
  moreover have "le_value (take 16 (drop 16 edge_key)) = 0" by (simp add: edge_key_def)
  ultimately show ?thesis by (simp add: poly1305_mac_def sixteen_bytes be_bytes_4)
qed

end
