(* ===== verification/Chacha.thy ===== *)
theory Chacha
  imports Poly1305_Finish Modes_Cbc
begin

text \<open>
  ChaCha20 (\<open>crypto/chacha/chacha.c\<close>): the portable version, which the pods compile (with
  \<open>OPENSSL_NO_ASM\<close>). \<open>in\<close> and \<open>out\<close> are positions in one memory; key and nonce lie elsewhere.
\<close>

definition sigma :: "byte list" where
  "sigma = map of_char ''expand 32-byte k''"

definition U8TO32_LITTLE :: "byte list \<Rightarrow> 32 word" where
  "U8TO32_LITTLE p = ucast (p ! 0) OR push_bit 8 (ucast (p ! 1)) OR push_bit 16 (ucast (p ! 2)) OR push_bit 24 (ucast (p ! 3))"

definition U32TO8_LITTLE :: "32 word \<Rightarrow> byte list" where
  "U32TO8_LITTLE v = [ucast (drop_bit 0 v AND 0xff), ucast (drop_bit 8 v AND 0xff), ucast (drop_bit 16 v AND 0xff), ucast (drop_bit 24 v AND 0xff)]"

definition ROTATE :: "32 word \<Rightarrow> nat \<Rightarrow> 32 word" where
  "ROTATE v n = push_bit n v OR drop_bit (32 - n) v"

definition QUARTERROUND :: "nat \<Rightarrow> nat \<Rightarrow> nat \<Rightarrow> nat \<Rightarrow> 32 word list \<Rightarrow> 32 word list" where
  "QUARTERROUND a b c d x =
    (let x = x[a := x ! a + x ! b]; x = x[d := ROTATE (x ! d XOR x ! a) 16];
         x = x[c := x ! c + x ! d]; x = x[b := ROTATE (x ! b XOR x ! c) 12];
         x = x[a := x ! a + x ! b]; x = x[d := ROTATE (x ! d XOR x ! a) 8];
         x = x[c := x ! c + x ! d]; x = x[b := ROTATE (x ! b XOR x ! c) 7]
     in x)"

definition chacha_double_round :: "32 word list \<Rightarrow> 32 word list" where
  "chacha_double_round x =
    (let x = QUARTERROUND 0 4 8 12 x; x = QUARTERROUND 1 5 9 13 x; x = QUARTERROUND 2 6 10 14 x; x = QUARTERROUND 3 7 11 15 x;
         x = QUARTERROUND 0 5 10 15 x; x = QUARTERROUND 1 6 11 12 x; x = QUARTERROUND 2 7 8 13 x; x = QUARTERROUND 3 4 9 14 x
     in x)"

definition chacha_rounds :: "32 word list \<Rightarrow> 32 word list" where
  "chacha_rounds x = (chacha_double_round ^^ 10) x"

text \<open>\<open>memcpy\<close> between bytes and 32-bit words, on a little-endian target.\<close>

definition load_words :: "nat \<Rightarrow> byte list \<Rightarrow> 32 word list" where
  "load_words n bs = map (\<lambda>i. U8TO32_LE (drop (4 * i) bs)) [0..<n]"

definition store_words :: "32 word list \<Rightarrow> byte list" where
  "store_words ws = concat (map U32TO8_LE ws)"

definition CRYPTO_hchacha20 :: "byte list \<Rightarrow> byte list \<Rightarrow> byte list" where
  "CRYPTO_hchacha20 key nonce =
    (let x = load_words 4 sigma @ load_words 8 key @ load_words 4 nonce;
         x = chacha_rounds x
     in store_words (take 4 x) @ store_words (take 4 (drop 12 x)))"

definition chacha_core :: "32 word list \<Rightarrow> byte list" where
  "chacha_core input =
    (let x = chacha_rounds input;
         x = map (\<lambda>i. x ! i + input ! i) [0..<16]
     in concat (map (\<lambda>i. U32TO8_LITTLE (x ! i)) [0..<16]))"

function chacha_blocks :: "32 word list \<Rightarrow> byte list \<Rightarrow> nat \<Rightarrow> nat \<Rightarrow> nat \<Rightarrow> byte list" where
  "chacha_blocks input mem out inp in_len =
    (if in_len > 0 then
       (let todo = (if in_len < 64 then in_len else 64);
            buf = chacha_core input;
            mem = foldl (\<lambda>mem i. mem[out + i := mem ! (inp + i) XOR buf ! i]) mem [0..<todo]
        in chacha_blocks (input[12 := input ! 12 + 1]) mem (out + todo) (inp + todo) (in_len - todo))
     else mem)"
  by pat_completeness auto
termination
  by (relation "measure (\<lambda>(_, _, _, _, in_len). in_len)") auto

declare chacha_blocks.simps [simp del]

definition chacha_input :: "byte list \<Rightarrow> byte list \<Rightarrow> 32 word \<Rightarrow> 32 word list" where
  "chacha_input key nonce counter =
    [U8TO32_LITTLE (drop 0 sigma), U8TO32_LITTLE (drop 4 sigma), U8TO32_LITTLE (drop 8 sigma), U8TO32_LITTLE (drop 12 sigma),
     U8TO32_LITTLE (drop 0 key), U8TO32_LITTLE (drop 4 key), U8TO32_LITTLE (drop 8 key), U8TO32_LITTLE (drop 12 key),
     U8TO32_LITTLE (drop 16 key), U8TO32_LITTLE (drop 20 key), U8TO32_LITTLE (drop 24 key), U8TO32_LITTLE (drop 28 key),
     counter, U8TO32_LITTLE (drop 0 nonce), U8TO32_LITTLE (drop 4 nonce), U8TO32_LITTLE (drop 8 nonce)]"

text \<open>\<open>None\<close> is a failed assertion.\<close>

definition CRYPTO_chacha_20 :: "byte list \<Rightarrow> nat \<Rightarrow> nat \<Rightarrow> nat \<Rightarrow> byte list \<Rightarrow> byte list \<Rightarrow> 32 word \<Rightarrow> byte list option" where
  "CRYPTO_chacha_20 mem out inp in_len key nonce counter =
    (if \<not> buffers_alias out in_len inp in_len \<or> inp = out
     then Some (chacha_blocks (chacha_input key nonce counter) mem out inp in_len)
     else None)"

subsection \<open>The keystream\<close>

definition chacha_block :: "byte list \<Rightarrow> byte list \<Rightarrow> 32 word \<Rightarrow> byte list" where
  "chacha_block key nonce counter = chacha_core (chacha_input key nonce counter)"

text \<open>Byte \<open>i\<close> of the stream whose first block has the number \<open>counter\<close>; block numbers wrap at \<open>2 ^ 32\<close>.\<close>

definition chacha_stream :: "byte list \<Rightarrow> byte list \<Rightarrow> 32 word \<Rightarrow> nat \<Rightarrow> byte" where
  "chacha_stream key nonce counter i = chacha_block key nonce (counter + of_nat (i div 64)) ! (i mod 64)"

definition chacha_xor :: "byte list \<Rightarrow> byte list \<Rightarrow> 32 word \<Rightarrow> nat \<Rightarrow> byte list \<Rightarrow> byte list" where
  "chacha_xor key nonce counter p bs = map (\<lambda>i. bs ! i XOR chacha_stream key nonce counter (p + i)) [0..<length bs]"

lemma length_chacha_xor [simp]: "length (chacha_xor key nonce counter p bs) = length bs"
  by (simp add: chacha_xor_def)

lemma chacha_xor_append: "chacha_xor key nonce counter p (xs @ ys) = chacha_xor key nonce counter p xs @ chacha_xor key nonce counter (p + length xs) ys"
proof (rule nth_equalityI)
  fix i assume "i < length (chacha_xor key nonce counter p (xs @ ys))"
  then show "chacha_xor key nonce counter p (xs @ ys) ! i = (chacha_xor key nonce counter p xs @ chacha_xor key nonce counter (p + length xs) ys) ! i"
    by (cases "i < length xs") (auto simp: chacha_xor_def nth_append nth_upt less_diff_conv2)
qed simp

lemma chacha_xor_self [simp]: "chacha_xor key nonce counter p (chacha_xor key nonce counter p bs) = bs"
  by (rule nth_equalityI) (simp_all add: chacha_xor_def xor.assoc)

lemma chacha_stream_next: "chacha_stream key nonce (counter + 1) i = chacha_stream key nonce counter (64 + i)"
  by (simp add: chacha_stream_def div_add1_eq [of 64 i] mod_add_left_eq [symmetric] add.assoc)

lemma chacha_xor_next: "chacha_xor key nonce (counter + 1) p bs = chacha_xor key nonce counter (64 + p) bs"
  by (simp add: chacha_xor_def chacha_stream_next add.assoc)

lemma chacha_input_next: "(chacha_input key nonce counter)[12 := chacha_input key nonce counter ! 12 + 1] = chacha_input key nonce (counter + 1)"
  by (simp add: chacha_input_def)

lemma chacha_blocks_eq:
  assumes "inp = out \<or> inp + n \<le> out \<or> out + n \<le> inp" and "out + n \<le> length mem" and "inp + n \<le> length mem"
  shows "chacha_blocks (chacha_input key nonce counter) mem out inp n = mem_write mem out (chacha_xor key nonce counter 0 (mem_bytes mem inp n))"
  using assms
proof (induction n arbitrary: mem out inp counter rule: less_induct)
  case (less n)
  show ?case
  proof (cases "n = 0")
    case True
    then show ?thesis by (simp add: chacha_blocks.simps chacha_xor_def mem_bytes_def)
  next
    case False
    define t where "t = (if n < 64 then n else 64)"
    have t: "0 < t" "t \<le> n" "t \<le> 64" using False by (auto simp: t_def)
    define buf where "buf = chacha_block key nonce counter"
    let ?g = "\<lambda>i. mem ! (inp + i) XOR buf ! i"
    have "foldl (\<lambda>m i. m[out + i := m ! (inp + i) XOR buf ! i]) (mem_write mem out (map ?g [0..<0])) [0..<t] = mem_write mem out (map ?g [0..<t])"
    proof (rule foldl_stores)
      fix i assume "i < t"
      then show "mem_write mem out (map ?g [0..<i]) ! (inp + i) XOR buf ! i = ?g i"
        using less.prems t by (subst nth_mem_write) auto
    qed (use less.prems t in auto)
    then have step: "foldl (\<lambda>m i. m[out + i := m ! (inp + i) XOR buf ! i]) mem [0..<t] = mem_write mem out (map ?g [0..<t])" by simp
    have xor: "map ?g [0..<t] = chacha_xor key nonce counter 0 (mem_bytes mem inp t)"
      using less.prems t by (auto simp: chacha_xor_def chacha_stream_def buf_def nth_mem_bytes length_mem_bytes intro!: nth_equalityI)
    let ?m = "mem_write mem out (chacha_xor key nonce counter 0 (mem_bytes mem inp t))"
    have len: "length (mem_bytes mem inp t) = t" "length (mem_bytes mem (inp + t) (n - t)) = n - t" using less.prems t by (simp_all add: length_mem_bytes)
    have rest: "mem_bytes ?m (inp + t) (n - t) = mem_bytes mem (inp + t) (n - t)"
      using less.prems t len by (intro mem_bytes_away) auto
    have "chacha_blocks (chacha_input key nonce counter) mem out inp n = chacha_blocks (chacha_input key nonce (counter + 1)) ?m (out + t) (inp + t) (n - t)"
      using False by (subst chacha_blocks.simps)
        (simp only: Let_def t_def [symmetric] buf_def [symmetric] chacha_block_def [symmetric] step xor chacha_input_next, simp)
    also have "\<dots> = mem_write ?m (out + t) (chacha_xor key nonce (counter + 1) 0 (mem_bytes mem (inp + t) (n - t)))"
      using less.prems t len by (subst less.IH) (auto simp: rest)
    also have "chacha_xor key nonce (counter + 1) 0 (mem_bytes mem (inp + t) (n - t)) = chacha_xor key nonce counter t (mem_bytes mem (inp + t) (n - t))"
    proof (cases "n < 64")
      case True
      then have "n - t = 0" by (simp add: t_def)
      then show ?thesis by (simp add: mem_bytes_def chacha_xor_def)
    next
      case False
      then have "t = 64" by (simp add: t_def)
      then show ?thesis by (simp add: chacha_xor_next)
    qed
    also have "mem_write ?m (out + t) \<dots> = mem_write mem out (chacha_xor key nonce counter 0 (mem_bytes mem inp t @ mem_bytes mem (inp + t) (n - t)))"
      using mem_write_append [of out "chacha_xor key nonce counter 0 (mem_bytes mem inp t)" "chacha_xor key nonce counter t (mem_bytes mem (inp + t) (n - t))" mem] less.prems t len
      by (simp add: chacha_xor_append)
    also have "mem_bytes mem inp t @ mem_bytes mem (inp + t) (n - t) = mem_bytes mem inp n"
      using mem_bytes_add [of mem inp t "n - t"] t by simp
    finally show ?thesis .
  qed
qed

subsection \<open>Words and bytes\<close>

lemma U8TO32_LITTLE_eq: "4 \<le> length p \<Longrightarrow> U8TO32_LITTLE p = U8TO32_LE p"
proof -
  assume "4 \<le> length p"
  then obtain a b c d q where "p = a # b # c # d # q"
    by (cases p; cases "tl p"; cases "tl (tl p)"; cases "tl (tl (tl p))") auto
  then show ?thesis by (simp add: U8TO32_LITTLE_def U8TO32_LE_def push_bit_or or.assoc or.commute or.left_commute)
qed

lemma low_byte: "(ucast (w AND 0xff) :: byte) = ucast w" for w :: "32 word"
proof -
  have m: "(0xff :: 32 word) = mask 8" by (simp add: mask_eq_exp_minus_1)
  show ?thesis unfolding m by (rule bit_word_eqI) (auto simp: bit_simps)
qed

lemma U32TO8_LITTLE_eq: "U32TO8_LITTLE v = U32TO8_LE v"
  by (simp only: U32TO8_LITTLE_def low_byte) (simp add: U32TO8_LE_def upt_conv_Cons)

lemma length_U32TO8_LE [simp]: "length (U32TO8_LE v) = 4"
  by (simp add: U32TO8_LE_def)

lemma length_store_words [simp]: "length (store_words ws) = 4 * length ws"
  by (induction ws) (simp_all add: store_words_def)

lemma store_words_Cons: "store_words (w # ws) = U32TO8_LE w @ store_words ws"
  by (simp add: store_words_def)

lemma store_words_append: "store_words (ws @ vs) = store_words ws @ store_words vs"
  by (simp add: store_words_def)

lemma U8TO32_LE_U32TO8_LE: "U8TO32_LE (U32TO8_LE v @ bs) = v"
proof -
  have "unat (U8TO32_LE (U32TO8_LE v @ bs)) = unat v"
    using unat_32_less [of v] by (simp add: unat_U8TO32_LE U32TO8_LE_eq le_value_def)
  then show ?thesis by (rule unsigned_word_eqI)
qed

lemma load_store_words: "load_words (length ws) (store_words ws) = ws"
proof (rule nth_equalityI)
  fix i assume "i < length (load_words (length ws) (store_words ws))"
  then have i: "i < length ws" by (simp add: load_words_def)
  then have "drop (4 * i) (store_words ws) = U32TO8_LE (ws ! i) @ store_words (drop (Suc i) ws)"
    by (subst id_take_nth_drop [OF i]) (simp add: store_words_append store_words_Cons min_def)
  then show "load_words (length ws) (store_words ws) ! i = ws ! i" using i by (simp add: load_words_def U8TO32_LE_U32TO8_LE)
qed (simp add: load_words_def)

lemma length_QUARTERROUND [simp]: "length (QUARTERROUND a b c d x) = length x"
  by (simp add: QUARTERROUND_def Let_def)

lemma length_chacha_rounds [simp]: "length (chacha_rounds x) = length x"
proof -
  have "length ((chacha_double_round ^^ n) x) = length x" for n
    by (induction n) (simp_all add: chacha_double_round_def Let_def)
  then show ?thesis by (simp add: chacha_rounds_def)
qed

lemma length_chacha_input [simp]: "length (chacha_input key nonce counter) = 16"
  by (simp add: chacha_input_def)

lemma chacha_core_eq:
  assumes "length input = 16"
  shows "chacha_core input = store_words (map2 (+) (chacha_rounds input) input)"
proof -
  have "map (\<lambda>i. chacha_rounds input ! i + input ! i) [0..<16] = map2 (+) (chacha_rounds input) input"
    using assms by (auto intro!: nth_equalityI)
  moreover have "map (\<lambda>i. U32TO8_LITTLE (ws ! i)) [0..<16] = map U32TO8_LE ws" if "length ws = 16" for ws
    using that by (auto simp: U32TO8_LITTLE_eq intro!: nth_equalityI)
  ultimately show ?thesis using assms by (simp only: chacha_core_def store_words_def Let_def length_map length_zip length_chacha_rounds min.idem)
qed

lemma length_chacha_block [simp]: "length (chacha_block key nonce counter) = 64"
  by (simp add: chacha_block_def chacha_core_eq)

subsection \<open>HChaCha20\<close>

lemma hchacha_input:
  assumes "length key = 32" and "length nonce = 12"
  shows "load_words 4 sigma @ load_words 8 key @ load_words 4 (U32TO8_LE counter @ nonce) = chacha_input key nonce counter"
  using assms by (simp add: load_words_def chacha_input_def U8TO32_LITTLE_eq upt_conv_Cons U8TO32_LE_U32TO8_LE sigma_def)

lemma hchacha_of_block:
  assumes "length key = 32" and "length nonce = 12"
  shows "CRYPTO_hchacha20 key (U32TO8_LE counter @ nonce) =
    (let w = load_words 16 (chacha_block key nonce counter); v = chacha_input key nonce counter
     in store_words (map (\<lambda>i. w ! i - v ! i) [0, 1, 2, 3, 12, 13, 14, 15]))"
proof -
  let ?v = "chacha_input key nonce counter"
  have w: "load_words 16 (chacha_block key nonce counter) = map2 (+) (chacha_rounds ?v) ?v"
    using load_store_words [of "map2 (+) (chacha_rounds ?v) ?v"] by (simp add: chacha_block_def chacha_core_eq)
  have "take 4 (chacha_rounds ?v) @ take 4 (drop 12 (chacha_rounds ?v)) = map (\<lambda>i. chacha_rounds ?v ! i) [0, 1, 2, 3, 12, 13, 14, 15]"
    by (auto simp: nth_append less_Suc_eq numeral_eq_Suc intro!: nth_equalityI)
  then have "CRYPTO_hchacha20 key (U32TO8_LE counter @ nonce) = store_words (map (\<lambda>i. chacha_rounds ?v ! i) [0, 1, 2, 3, 12, 13, 14, 15])"
    unfolding CRYPTO_hchacha20_def hchacha_input [OF assms] Let_def store_words_append [symmetric] by simp
  also have "\<dots> = store_words (map (\<lambda>i. map2 (+) (chacha_rounds ?v) ?v ! i - ?v ! i) [0, 1, 2, 3, 12, 13, 14, 15])" by simp
  finally show ?thesis by (simp only: Let_def w)
qed

subsection \<open>The cipher of RFC 8439\<close>

text \<open>
  The quarter round on four words, with a rotation; \<open>rfc_round k\<close> applies it at once to the four rows of
  words that go down the matrix and move \<open>k\<close> columns to the right with every step: the columns for 0, the
  diagonals for 1.
\<close>

definition rfc_quarter :: "32 word \<Rightarrow> 32 word \<Rightarrow> 32 word \<Rightarrow> 32 word \<Rightarrow> 32 word list" where
  "rfc_quarter a b c d =
    (let a = a + b; d = word_rotl 16 (d XOR a);
         c = c + d; b = word_rotl 12 (b XOR c);
         a = a + b; d = word_rotl 8 (d XOR a);
         c = c + d; b = word_rotl 7 (b XOR c)
     in [a, b, c, d])"

definition rfc_round :: "nat \<Rightarrow> 32 word list \<Rightarrow> 32 word list" where
  "rfc_round k x = map (\<lambda>j. let row = j div 4; i = (j + 12 - k * row) mod 4 in
     rfc_quarter (x ! i) (x ! (4 + (i + k) mod 4)) (x ! (8 + (i + 2 * k) mod 4)) (x ! (12 + (i + 3 * k) mod 4)) ! row) [0..<16]"

definition rfc_block :: "32 word list \<Rightarrow> byte list" where
  "rfc_block input = (let x = ((\<lambda>x. rfc_round 1 (rfc_round 0 x)) ^^ 10) input in
     concat (map (\<lambda>i. rev (be_bytes 4 (unat (x ! i + input ! i)))) [0..<16]))"

lemma ROTATE_eq: "0 < n \<Longrightarrow> n < 32 \<Longrightarrow> ROTATE v n = word_rotl n v"
proof (rule bit_word_eqI)
  fix k assume n: "0 < n" "n < 32" and "k < LENGTH(32)"
  then have k: "k < 32" by simp
  have r: "bit (word_rotl n v) k \<longleftrightarrow> bit v ((k + (32 - n)) mod 32)" using n k by (simp add: bit_word_rotl_iff)
  have l: "bit (ROTATE v n) k \<longleftrightarrow> n \<le> k \<and> bit v (k - n) \<or> bit v (32 - n + k)" using k by (simp add: ROTATE_def bit_simps)
  show "bit (ROTATE v n) k \<longleftrightarrow> bit (word_rotl n v) k"
  proof (cases "k < n")
    case True
    then have "(k + (32 - n)) mod 32 = 32 - n + k" using n by simp
    then show ?thesis unfolding l r using True by (simp only: not_le [symmetric] simp_thms)
  next
    case False
    then have "(k + (32 - n)) mod 32 = k - n" using n k by (simp add: mod_if)
    moreover have "\<not> bit v (32 - n + k)" using False n by (auto dest: bit_imp_le_length)
    ultimately show ?thesis unfolding l r using False by simp
  qed
qed

lemma QUARTERROUND_eq:
  assumes "distinct [a, b, c, d]" and "a < length x" and "b < length x" and "c < length x" and "d < length x"
  shows "QUARTERROUND a b c d x = (let q = rfc_quarter (x ! a) (x ! b) (x ! c) (x ! d) in x[a := q ! 0, b := q ! 1, c := q ! 2, d := q ! 3])"
  using assms by (intro nth_equalityI) (auto simp: QUARTERROUND_def rfc_quarter_def Let_def ROTATE_eq nth_list_update)

lemma chacha_double_round_eq:
  assumes "length x = 16"
  shows "chacha_double_round x = rfc_round 1 (rfc_round 0 x)"
proof -
  obtain x0 x1 x2 x3 x4 x5 x6 x7 x8 x9 x10 x11 x12 x13 x14 x15 where x: "x = [x0, x1, x2, x3, x4, x5, x6, x7, x8, x9, x10, x11, x12, x13, x14, x15]"
    using assms by (auto simp: length_Suc_conv numeral_eq_Suc)
  show ?thesis
    unfolding x chacha_double_round_def rfc_round_def Let_def
    by (simp add: QUARTERROUND_eq Let_def upt_conv_Cons del: upt_Suc)
qed

lemma length_rfc_round [simp]: "length (rfc_round k x) = 16"
  by (simp add: rfc_round_def)

lemma chacha_core_rfc:
  assumes "length input = 16"
  shows "chacha_core input = rfc_block input"
proof -
  let ?rfc = "\<lambda>x. rfc_round 1 (rfc_round 0 x)"
  have len: "length ((?rfc ^^ n) input) = 16" for n using assms by (cases n) simp_all
  have "(chacha_double_round ^^ n) input = (?rfc ^^ n) input" for n
    by (induction n) (simp_all only: funpow.simps o_apply id_apply chacha_double_round_eq [OF len])
  then have r: "chacha_rounds input = ((\<lambda>x. rfc_round 1 (rfc_round 0 x)) ^^ 10) input" by (simp add: chacha_rounds_def)
  have "map (\<lambda>i. U32TO8_LITTLE (map (\<lambda>i. w ! i + input ! i) [0..<16] ! i)) [0..<16] = map (\<lambda>i. rev (be_bytes 4 (unat (w ! i + input ! i)))) [0..<16]" for w
    by (simp add: U32TO8_LITTLE_eq U32TO8_LE_eq)
  then show ?thesis unfolding chacha_core_def rfc_block_def Let_def r by (simp only:)
qed

text \<open>The state at the start of a block: four constants, the key, the counter and the nonce.\<close>

definition rfc_words :: "nat \<Rightarrow> byte list \<Rightarrow> 32 word list" where
  "rfc_words n bs = map (\<lambda>i. of_nat (le_value (take 4 (drop (4 * i) bs)))) [0..<n]"

definition rfc_state :: "byte list \<Rightarrow> byte list \<Rightarrow> 32 word \<Rightarrow> 32 word list" where
  "rfc_state key nonce counter =
     [0x61707865, 0x3320646e, 0x79622d32, 0x6b206574] @ rfc_words 8 key @ [counter] @ rfc_words 3 nonce"

lemma U8TO32_LITTLE_value: "4 \<le> length p \<Longrightarrow> U8TO32_LITTLE p = of_nat (le_value (take 4 p))"
  by (rule unsigned_word_eqI) (simp add: U8TO32_LITTLE_eq flip: unat_U8TO32_LE)

lemma chacha_input_rfc:
  assumes "length key = 32" and "length nonce = 12"
  shows "chacha_input key nonce counter = rfc_state key nonce counter"
proof -
  have w: "U8TO32_LITTLE (drop k bs) = of_nat (le_value (take 4 (drop k bs)))" if "k + 4 \<le> length bs" for k bs
    using that by (intro U8TO32_LITTLE_value) simp
  have "map (\<lambda>k. U8TO32_LITTLE (drop k sigma)) [0, 4, 8, 12] = [0x61707865, 0x3320646e, 0x79622d32, 0x6b206574]"
    by code_simp
  then show ?thesis
    using assms by (simp add: chacha_input_def rfc_state_def rfc_words_def w U8TO32_LITTLE_value upt_conv_Cons)
qed

text \<open>The block function of the C code is the one of the RFC.\<close>

lemma chacha_block_rfc:
  assumes "length key = 32" and "length nonce = 12"
  shows "chacha_core (chacha_input key nonce counter) = rfc_block (rfc_state key nonce counter)"
  using assms by (simp add: chacha_core_rfc flip: chacha_input_rfc)

end
