(* ===== verification/Aead.thy ===== *)
theory Aead
  imports Modes_Cbc
begin

text \<open>
  The interface of authenticated encryption (\<open>crypto/fipsmodule/cipher/aead.c\<close>). \<open>in\<close>, \<open>out\<close>, \<open>in_tag\<close>
  and \<open>out_tag\<close> are positions in one memory, so that the tests for aliasing have their meaning; key,
  nonce, additional data and extra input lie elsewhere. A result \<open>None\<close> is a failed assertion or a
  NULL dereference; otherwise it is the value that the function returns, with the memory it leaves.
\<close>

record aead_ctx_state =
  ctx_opaque :: "byte list"
  ctx_tag_len :: nat

datatype evp_aead_direction_t = evp_aead_open | evp_aead_seal

record EVP_AEAD =
  aead_key_len :: nat
  aead_nonce_len :: nat
  aead_overhead :: nat
  aead_max_tag_len :: nat
  seal_scatter_supports_extra_in :: bool
  aead_init :: "(aead_ctx_state \<Rightarrow> byte list \<Rightarrow> nat \<Rightarrow> bool \<times> aead_ctx_state) option"
  aead_init_with_direction :: "(aead_ctx_state \<Rightarrow> byte list \<Rightarrow> nat \<Rightarrow> evp_aead_direction_t \<Rightarrow> bool \<times> aead_ctx_state) option"
  aead_cleanup :: "aead_ctx_state \<Rightarrow> aead_ctx_state"
  aead_open :: "(aead_ctx_state \<Rightarrow> byte list \<Rightarrow> nat \<Rightarrow> nat \<Rightarrow> byte list \<Rightarrow> nat \<Rightarrow> nat \<Rightarrow> byte list \<Rightarrow> (nat option \<times> byte list) option) option"
  aead_seal_scatter :: "aead_ctx_state \<Rightarrow> byte list \<Rightarrow> nat \<Rightarrow> nat \<Rightarrow> nat \<Rightarrow> byte list \<Rightarrow> nat \<Rightarrow> nat \<Rightarrow> byte list \<Rightarrow> byte list \<Rightarrow> (nat option \<times> byte list) option"
  aead_open_gather :: "(aead_ctx_state \<Rightarrow> byte list \<Rightarrow> nat \<Rightarrow> byte list \<Rightarrow> nat \<Rightarrow> nat \<Rightarrow> nat \<Rightarrow> nat \<Rightarrow> byte list \<Rightarrow> (bool \<times> byte list) option) option"
  aead_get_iv :: "(aead_ctx_state \<Rightarrow> byte list option) option"
  aead_tag_len :: "(aead_ctx_state \<Rightarrow> nat \<Rightarrow> nat \<Rightarrow> nat) option"

record EVP_AEAD_CTX =
  aead :: "EVP_AEAD option"
  ctx_state :: aead_ctx_state

definition EVP_AEAD_CTX_zero :: "EVP_AEAD_CTX \<Rightarrow> EVP_AEAD_CTX" where
  "EVP_AEAD_CTX_zero ctx = \<lparr>aead = None, ctx_state = \<lparr>ctx_opaque = replicate 580 0, ctx_tag_len = 0\<rparr>\<rparr>"

definition EVP_AEAD_CTX_init_with_direction :: "EVP_AEAD_CTX \<Rightarrow> EVP_AEAD \<Rightarrow> byte list \<Rightarrow> nat \<Rightarrow> evp_aead_direction_t \<Rightarrow> (bool \<times> EVP_AEAD_CTX) option" where
  "EVP_AEAD_CTX_init_with_direction ctx a key tag_len dir =
    (if length key \<noteq> aead_key_len a then Some (False, ctx\<lparr>aead := None\<rparr>)
     else
       (let ctx = ctx\<lparr>aead := Some a\<rparr> in
        case (case aead_init a of
                Some init \<Rightarrow> Some (init (ctx_state ctx) key tag_len)
              | None \<Rightarrow> (case aead_init_with_direction a of
                  Some init \<Rightarrow> Some (init (ctx_state ctx) key tag_len dir)
                | None \<Rightarrow> None)) of
          None \<Rightarrow> None
        | Some (ok, st) \<Rightarrow>
            (let ctx = ctx\<lparr>ctx_state := st\<rparr> in
             if \<not> ok then Some (False, ctx\<lparr>aead := None\<rparr>) else Some (True, ctx))))"

definition EVP_AEAD_CTX_init :: "EVP_AEAD_CTX \<Rightarrow> EVP_AEAD \<Rightarrow> byte list \<Rightarrow> nat \<Rightarrow> (bool \<times> EVP_AEAD_CTX) option" where
  "EVP_AEAD_CTX_init ctx a key tag_len =
    (case aead_init a of
       None \<Rightarrow> Some (False, ctx\<lparr>aead := None\<rparr>)
     | Some _ \<Rightarrow> EVP_AEAD_CTX_init_with_direction ctx a key tag_len evp_aead_open)"

definition EVP_AEAD_CTX_cleanup :: "EVP_AEAD_CTX \<Rightarrow> EVP_AEAD_CTX" where
  "EVP_AEAD_CTX_cleanup ctx =
    (case aead ctx of None \<Rightarrow> ctx | Some a \<Rightarrow> ctx\<lparr>ctx_state := aead_cleanup a (ctx_state ctx), aead := None\<rparr>)"

text \<open>
  \<open>EVP_AEAD_CTX_new\<close> clears the block without looking whether \<open>malloc\<close> returned one. \<open>Some None\<close> is
  a NULL result, after \<open>EVP_AEAD_CTX_free\<close>, whose \<open>EVP_AEAD_CTX_cleanup\<close> finds no method.
\<close>

definition EVP_AEAD_CTX_new :: "allocator \<Rightarrow> EVP_AEAD \<Rightarrow> byte list \<Rightarrow> nat \<Rightarrow> EVP_AEAD_CTX option option" where
  "EVP_AEAD_CTX_new malloc a key tag_len =
    (case OPENSSL_malloc malloc 600 of
       None \<Rightarrow> None
     | Some block \<Rightarrow>
         (let ctx = EVP_AEAD_CTX_zero \<lparr>aead = None, ctx_state = \<lparr>ctx_opaque = take 580 (drop 8 block), ctx_tag_len = unat (block ! 592)\<rparr>\<rparr> in
          case EVP_AEAD_CTX_init ctx a key tag_len of
            None \<Rightarrow> None
          | Some (True, ctx) \<Rightarrow> Some (Some ctx)
          | Some (False, ctx) \<Rightarrow> Some None))"

definition check_alias :: "nat \<Rightarrow> nat \<Rightarrow> nat \<Rightarrow> nat \<Rightarrow> bool" where
  "check_alias inp in_len out out_len = (if \<not> buffers_alias inp in_len out out_len then True else inp = out)"

text \<open>\<open>memset(p, 0, n)\<close>.\<close>

definition mem_zero :: "byte list \<Rightarrow> nat \<Rightarrow> nat \<Rightarrow> byte list" where
  "mem_zero mem p n = mem_write mem p (replicate n 0)"

definition EVP_AEAD_CTX_seal :: "EVP_AEAD_CTX \<Rightarrow> byte list \<Rightarrow> nat \<Rightarrow> nat \<Rightarrow> byte list \<Rightarrow> nat \<Rightarrow> nat \<Rightarrow> byte list \<Rightarrow> (nat option \<times> byte list) option" where
  "EVP_AEAD_CTX_seal ctx mem out max_out_len nonce inp in_len ad =
    (case aead ctx of None \<Rightarrow> None | Some a \<Rightarrow>
     if size_t (in_len + aead_overhead a) < in_len then Some (None, mem_zero mem out max_out_len)
     else if max_out_len < in_len then Some (None, mem_zero mem out max_out_len)
     else if \<not> check_alias inp in_len out max_out_len then Some (None, mem_zero mem out max_out_len)
     else
       (case aead_seal_scatter a (ctx_state ctx) mem out (out + in_len) (max_out_len - in_len) nonce inp in_len [] ad of
          None \<Rightarrow> None
        | Some (Some out_tag_len, mem) \<Rightarrow> Some (Some (in_len + out_tag_len), mem)
        | Some (None, mem) \<Rightarrow> Some (None, mem_zero mem out max_out_len)))"

definition EVP_AEAD_CTX_seal_scatter :: "EVP_AEAD_CTX \<Rightarrow> byte list \<Rightarrow> nat \<Rightarrow> nat \<Rightarrow> nat \<Rightarrow> byte list \<Rightarrow> nat \<Rightarrow> nat \<Rightarrow> byte list \<Rightarrow> byte list \<Rightarrow> (nat option \<times> byte list) option" where
  "EVP_AEAD_CTX_seal_scatter ctx mem out out_tag max_out_tag_len nonce inp in_len extra_in ad =
    (if \<not> check_alias inp in_len out in_len \<or> buffers_alias out in_len out_tag max_out_tag_len \<or> buffers_alias inp in_len out_tag max_out_tag_len
     then Some (None, mem_zero (mem_zero mem out in_len) out_tag max_out_tag_len)
     else
       (case aead ctx of None \<Rightarrow> None | Some a \<Rightarrow>
        if \<not> seal_scatter_supports_extra_in a \<and> extra_in \<noteq> [] then Some (None, mem_zero (mem_zero mem out in_len) out_tag max_out_tag_len)
        else
          (case aead_seal_scatter a (ctx_state ctx) mem out out_tag max_out_tag_len nonce inp in_len extra_in ad of
             None \<Rightarrow> None
           | Some (Some out_tag_len, mem) \<Rightarrow> Some (Some out_tag_len, mem)
           | Some (None, mem) \<Rightarrow> Some (None, mem_zero (mem_zero mem out in_len) out_tag max_out_tag_len))))"

definition EVP_AEAD_CTX_open_gather :: "EVP_AEAD_CTX \<Rightarrow> byte list \<Rightarrow> nat \<Rightarrow> byte list \<Rightarrow> nat \<Rightarrow> nat \<Rightarrow> nat \<Rightarrow> nat \<Rightarrow> byte list \<Rightarrow> (bool \<times> byte list) option" where
  "EVP_AEAD_CTX_open_gather ctx mem out nonce inp in_len in_tag in_tag_len ad =
    (if \<not> check_alias inp in_len out in_len then Some (False, mem_zero mem out in_len)
     else
       (case aead ctx of None \<Rightarrow> None | Some a \<Rightarrow>
        (case aead_open_gather a of
           None \<Rightarrow> Some (False, mem_zero mem out in_len)
         | Some open_gather \<Rightarrow>
             (case open_gather (ctx_state ctx) mem out nonce inp in_len in_tag in_tag_len ad of
                None \<Rightarrow> None
              | Some (True, mem) \<Rightarrow> Some (True, mem)
              | Some (False, mem) \<Rightarrow> Some (False, mem_zero mem out in_len)))))"

definition EVP_AEAD_CTX_open :: "EVP_AEAD_CTX \<Rightarrow> byte list \<Rightarrow> nat \<Rightarrow> nat \<Rightarrow> byte list \<Rightarrow> nat \<Rightarrow> nat \<Rightarrow> byte list \<Rightarrow> (nat option \<times> byte list) option" where
  "EVP_AEAD_CTX_open ctx mem out max_out_len nonce inp in_len ad =
    (if \<not> check_alias inp in_len out max_out_len then Some (None, mem_zero mem out max_out_len)
     else
       (case aead ctx of None \<Rightarrow> None | Some a \<Rightarrow>
        (case aead_open a of
           Some open_method \<Rightarrow>
             (case open_method (ctx_state ctx) mem out max_out_len nonce inp in_len ad of
                None \<Rightarrow> None
              | Some (Some out_len, mem) \<Rightarrow> Some (Some out_len, mem)
              | Some (None, mem) \<Rightarrow> Some (None, mem_zero mem out max_out_len))
         | None \<Rightarrow>
             if ctx_tag_len (ctx_state ctx) = 0 then None
             else if in_len < ctx_tag_len (ctx_state ctx) then Some (None, mem_zero mem out max_out_len)
             else
               (let plaintext_len = in_len - ctx_tag_len (ctx_state ctx) in
                if max_out_len < plaintext_len then Some (None, mem_zero mem out max_out_len)
                else
                  (case EVP_AEAD_CTX_open_gather ctx mem out nonce inp plaintext_len (inp + plaintext_len) (ctx_tag_len (ctx_state ctx)) ad of
                     None \<Rightarrow> None
                   | Some (True, mem) \<Rightarrow> Some (Some plaintext_len, mem)
                   | Some (False, mem) \<Rightarrow> Some (None, mem_zero mem out max_out_len))))))"

definition EVP_AEAD_CTX_get_iv :: "EVP_AEAD_CTX \<Rightarrow> byte list option option" where
  "EVP_AEAD_CTX_get_iv ctx =
    (case aead ctx of None \<Rightarrow> None | Some a \<Rightarrow>
     (case aead_get_iv a of None \<Rightarrow> Some None | Some get_iv \<Rightarrow> Some (get_iv (ctx_state ctx))))"

definition EVP_AEAD_CTX_tag_len :: "EVP_AEAD_CTX \<Rightarrow> nat \<Rightarrow> nat \<Rightarrow> nat option option" where
  "EVP_AEAD_CTX_tag_len ctx in_len extra_in_len =
    (case aead ctx of None \<Rightarrow> None | Some a \<Rightarrow>
     if \<not> (seal_scatter_supports_extra_in a \<or> extra_in_len = 0) then None
     else
       (case aead_tag_len a of
          Some f \<Rightarrow> Some (Some (f (ctx_state ctx) in_len extra_in_len))
        | None \<Rightarrow>
            if size_t (extra_in_len + ctx_tag_len (ctx_state ctx)) < extra_in_len then Some None
            else Some (Some (extra_in_len + ctx_tag_len (ctx_state ctx)))))"

subsection \<open>Regions of the memory\<close>

definition apart :: "nat \<Rightarrow> nat \<Rightarrow> nat \<Rightarrow> nat \<Rightarrow> bool" where
  "apart p m q n \<longleftrightarrow> p + m \<le> q \<or> q + n \<le> p"

lemma apart_sym: "apart p m q n \<longleftrightarrow> apart q n p m"
  by (auto simp: apart_def)

lemma apart_shorter: "apart p m q n \<Longrightarrow> m' \<le> m \<Longrightarrow> n' \<le> n \<Longrightarrow> apart p m' q n'"
  by (auto simp: apart_def)

lemma not_buffers_alias: "\<not> buffers_alias p m q n \<longleftrightarrow> apart p m q n"
  by (auto simp: apart_def buffers_alias_def)

lemma check_alias_iff: "check_alias p m q n \<longleftrightarrow> apart p m q n \<or> p = q"
  by (auto simp: check_alias_def apart_def buffers_alias_def)

lemma mem_zero_over:
  assumes "p + n \<le> length mem" and "length bs \<le> n"
  shows "mem_zero (mem_write mem p bs) p n = mem_zero mem p n"
  using assms by (intro nth_equalityI) (auto simp: mem_zero_def nth_mem_write)

lemma mem_zero_zero: "p + n \<le> length mem \<Longrightarrow> m \<le> n \<Longrightarrow> mem_zero (mem_zero mem p m) p n = mem_zero mem p n"
  using mem_zero_over [of p n mem "replicate m 0"] by (simp add: mem_zero_def)

lemma length_mem_zero [simp]: "p + n \<le> length mem \<Longrightarrow> length (mem_zero mem p n) = length mem"
  by (simp add: mem_zero_def)

lemma mem_bytes_apart:
  "q + length bs \<le> length mem \<Longrightarrow> apart p n q (length bs) \<Longrightarrow> mem_bytes (mem_write mem q bs) p n = mem_bytes mem p n"
  by (rule mem_bytes_away) (auto simp: apart_def)

lemma mem_bytes_zeroed: "p + n \<le> length mem \<Longrightarrow> mem_bytes (mem_zero mem p n) p n = replicate n 0"
  by (simp add: mem_zero_def mem_bytes_written)

subsection \<open>What an AEAD promises\<close>

text \<open>
  An AEAD in the abstract: \<open>crypt st nonce p\<close> is an involution on the bytes from position \<open>p\<close> of the
  message, \<open>tag st nonce ad c\<close> is the tag of the ciphertext \<open>c\<close>, and \<open>accepts nonce n\<close> says which nonces
  and lengths are allowed. \<open>ready\<close> is what initialisation establishes. The method \<open>open\<close> is the default.
\<close>

locale aead_scheme =
  fixes a :: EVP_AEAD
    and ready :: "aead_ctx_state \<Rightarrow> bool"
    and accepts :: "byte list \<Rightarrow> nat \<Rightarrow> bool"
    and crypt :: "aead_ctx_state \<Rightarrow> byte list \<Rightarrow> nat \<Rightarrow> byte list \<Rightarrow> byte list"
    and tag :: "aead_ctx_state \<Rightarrow> byte list \<Rightarrow> byte list \<Rightarrow> byte list \<Rightarrow> byte list"
  assumes open_default: "aead_open a = None"
    and length_crypt: "length (crypt st nonce p bs) = length bs"
    and crypt_crypt: "crypt st nonce p (crypt st nonce p bs) = bs"
    and length_tag: "ready st \<Longrightarrow> length (tag st nonce ad c) = ctx_tag_len st"
    and tag_len_range: "ready st \<Longrightarrow> 0 < ctx_tag_len st \<and> ctx_tag_len st < 256"
    and no_wrap: "accepts nonce n \<Longrightarrow> n + aead_overhead a < 2 ^ 64"
    and seal_accepted: "\<lbrakk>ready st; accepts nonce n; check_alias inp n out n; apart inp n out_tag max_tag; apart out n out_tag max_tag;
        inp + n \<le> length mem; out + n \<le> length mem; out_tag + max_tag \<le> length mem; length extra + ctx_tag_len st \<le> max_tag; length extra + ctx_tag_len st < 2 ^ 64;
        c = crypt st nonce 0 (mem_bytes mem inp n); e = crypt st nonce n extra\<rbrakk>
      \<Longrightarrow> aead_seal_scatter a st mem out out_tag max_tag nonce inp n extra ad =
        Some (Some (length extra + ctx_tag_len st), mem_write (mem_write mem out c) out_tag (e @ tag st nonce ad (c @ e)))"
    and seal_refused: "\<lbrakk>ready st; length extra + ctx_tag_len st < 2 ^ 64; \<not> accepts nonce n \<or> max_tag < length extra + ctx_tag_len st\<rbrakk>
      \<Longrightarrow> aead_seal_scatter a st mem out out_tag max_tag nonce inp n extra ad = Some (None, mem)"
    and open_accepted: "\<lbrakk>aead_open_gather a = Some g; ready st; accepts nonce n; check_alias inp n out n; apart out n in_tag (ctx_tag_len st);
        inp + n \<le> length mem; out + n \<le> length mem; in_tag + ctx_tag_len st \<le> length mem; c = mem_bytes mem inp n\<rbrakk>
      \<Longrightarrow> g st mem out nonce inp n in_tag (ctx_tag_len st) ad = Some (tag st nonce ad c = mem_bytes mem in_tag (ctx_tag_len st), mem_write mem out (crypt st nonce 0 c))"
    and open_refused: "\<lbrakk>aead_open_gather a = Some g; ready st; \<not> accepts nonce n\<rbrakk>
      \<Longrightarrow> g st mem out nonce inp n in_tag (ctx_tag_len st) ad = Some (False, mem)"
    and open_method: "aead_open_gather a \<noteq> None"
begin

lemma seal_exact:
  assumes ctx: "aead ctx = Some a" "ready (ctx_state ctx)" and n: "n < 2 ^ 64" "inp + n \<le> length mem" "out + max_out \<le> length mem"
  shows "EVP_AEAD_CTX_seal ctx mem out max_out nonce inp n ad =
    (if accepts nonce n \<and> check_alias inp n out max_out \<and> n + ctx_tag_len (ctx_state ctx) \<le> max_out
     then (let c = crypt (ctx_state ctx) nonce 0 (mem_bytes mem inp n)
           in Some (Some (n + ctx_tag_len (ctx_state ctx)), mem_write mem out (c @ tag (ctx_state ctx) nonce ad c)))
     else Some (None, mem_zero mem out max_out))"
proof -
  let ?st = "ctx_state ctx"
  define c where "c = crypt ?st nonce 0 (mem_bytes mem inp n)"
  have c: "length c = n" using n by (simp add: c_def length_crypt length_mem_bytes)
  consider "size_t (n + aead_overhead a) < n" | "max_out < n" | "\<not> check_alias inp n out max_out"
    | "\<not> size_t (n + aead_overhead a) < n" "n \<le> max_out" "check_alias inp n out max_out" by linarith
  then show ?thesis
  proof cases
    case 1
    then have "\<not> accepts nonce n" using no_wrap [of nonce n] by (auto simp: size_t_id)
    then show ?thesis using 1 ctx by (simp add: EVP_AEAD_CTX_seal_def)
  next
    case 4
    have al: "check_alias inp n out n" "apart inp n (out + n) (max_out - n)" "apart out n (out + n) (max_out - n)"
      using 4 by (auto simp: check_alias_iff apart_def)
    show ?thesis
    proof (cases "accepts nonce n \<and> n + ctx_tag_len ?st \<le> max_out")
      case True
      then have "ctx_tag_len ?st \<le> max_out - n" by linarith
      moreover have "crypt ?st nonce n [] = []" using length_crypt [of ?st nonce n "[]"] by simp
      ultimately have "aead_seal_scatter a ?st mem out (out + n) (max_out - n) nonce inp n [] ad =
          Some (Some (ctx_tag_len ?st), mem_write (mem_write mem out c) (out + n) (tag ?st nonce ad c))"
        using seal_accepted [of ?st nonce n inp out "out + n" "max_out - n" mem "[]" c "[]" ad] ctx True al n 4 tag_len_range [OF ctx(2)]
        by (simp add: c_def)
      moreover have "mem_write (mem_write mem out c) (out + n) (tag ?st nonce ad c) = mem_write mem out (c @ tag ?st nonce ad c)"
        using mem_write_append [of out c "tag ?st nonce ad c" mem] c n True by (simp add: length_tag [OF ctx(2)])
      ultimately show ?thesis using ctx 4 True by (simp add: EVP_AEAD_CTX_seal_def c_def [symmetric])
    next
      case False
      then have "aead_seal_scatter a ?st mem out (out + n) (max_out - n) nonce inp n [] ad = Some (None, mem)"
        using ctx 4 tag_len_range [OF ctx(2)] by (intro seal_refused) auto
      then show ?thesis using ctx 4 False by (auto simp: EVP_AEAD_CTX_seal_def)
    qed
  qed (use ctx in \<open>auto simp: EVP_AEAD_CTX_seal_def\<close>)
qed

lemma open_exact:
  assumes ctx: "aead ctx = Some a" "ready (ctx_state ctx)" and n: "inp + n \<le> length mem" "out + max_out \<le> length mem"
  shows "EVP_AEAD_CTX_open ctx mem out max_out nonce inp n ad =
    (let k = ctx_tag_len (ctx_state ctx); c = mem_bytes mem inp (n - k)
     in if check_alias inp n out max_out \<and> k \<le> n \<and> n - k \<le> max_out \<and> accepts nonce (n - k)
           \<and> mem_bytes mem (inp + (n - k)) k = tag (ctx_state ctx) nonce ad c
        then Some (Some (n - k), mem_write mem out (crypt (ctx_state ctx) nonce 0 c))
        else Some (None, mem_zero mem out max_out))"
proof -
  let ?st = "ctx_state ctx" and ?k = "ctx_tag_len (ctx_state ctx)"
  obtain g where g: "aead_open_gather a = Some g" using open_method by blast
  have k: "?k \<noteq> 0" using tag_len_range [OF ctx(2)] by simp
  consider "\<not> check_alias inp n out max_out" | "n < ?k" | "max_out < n - ?k" | "check_alias inp n out max_out" "?k \<le> n" "n - ?k \<le> max_out" by linarith
  then show ?thesis
  proof cases
    case 4
    define m where "m = n - ?k"
    then have m: "n = m + ?k" "m \<le> max_out" using 4 by auto
    have al: "check_alias inp m out m" using 4 m by (auto simp: check_alias_iff apart_def)
    have tg: "apart out m (inp + m) ?k" using 4 m by (auto simp: check_alias_iff apart_def)
    show ?thesis
    proof (cases "accepts nonce m")
      case True
      have "g ?st mem out nonce inp m (inp + m) ?k ad =
          Some (tag ?st nonce ad (mem_bytes mem inp m) = mem_bytes mem (inp + m) ?k, mem_write mem out (crypt ?st nonce 0 (mem_bytes mem inp m)))"
        using open_accepted [OF g ctx(2) True al tg] n m by simp
      moreover have "mem_zero (mem_zero (mem_write mem out (crypt ?st nonce 0 (mem_bytes mem inp m))) out m) out max_out = mem_zero mem out max_out"
        using n m by (simp add: mem_zero_over mem_zero_zero length_crypt length_mem_bytes)
      ultimately show ?thesis
        using ctx 4 True al k g by (auto simp: EVP_AEAD_CTX_open_def EVP_AEAD_CTX_open_gather_def open_default Let_def m_def [symmetric])
    next
      case False
      then have "g ?st mem out nonce inp m (inp + m) ?k ad = Some (False, mem)" by (rule open_refused [OF g ctx(2)])
      moreover have "mem_zero (mem_zero mem out m) out max_out = mem_zero mem out max_out" using n m by (simp add: mem_zero_zero)
      ultimately show ?thesis
        using ctx 4 False al k g by (simp add: EVP_AEAD_CTX_open_def EVP_AEAD_CTX_open_gather_def open_default Let_def m_def [symmetric])
    qed
  qed (use ctx k in \<open>simp_all add: EVP_AEAD_CTX_open_def open_default Let_def\<close>)
qed

text \<open>What was sealed is opened, wherever the ciphertext was moved to.\<close>

lemma seal_open:
  assumes ctx: "aead ctx = Some a" "ready (ctx_state ctx)" and n: "n < 2 ^ 64" "inp + n \<le> length mem" "out + max_out \<le> length mem"
    and sealed: "EVP_AEAD_CTX_seal ctx mem out max_out nonce inp n ad = Some (Some k, mem')"
    and there: "p + k \<le> length mem2" "mem_bytes mem2 p k = mem_bytes mem' out k"
    and room: "q + max_out2 \<le> length mem2" "n \<le> max_out2" "check_alias p k q max_out2"
  shows "EVP_AEAD_CTX_open ctx mem2 q max_out2 nonce p k ad = Some (Some n, mem_write mem2 q (mem_bytes mem inp n))"
proof -
  let ?st = "ctx_state ctx"
  define c where "c = crypt ?st nonce 0 (mem_bytes mem inp n)"
  have len: "length c = n" "length (tag ?st nonce ad c) = ctx_tag_len ?st"
    using n ctx by (simp_all add: c_def length_crypt length_mem_bytes length_tag)
  have s: "accepts nonce n" "n + ctx_tag_len ?st \<le> max_out" "k = n + ctx_tag_len ?st" "mem' = mem_write mem out (c @ tag ?st nonce ad c)"
    using sealed seal_exact [OF ctx n, of nonce ad] by (auto simp: c_def [symmetric] Let_def split: if_splits)
  have "mem_bytes mem' out k = c @ tag ?st nonce ad c"
    using s n len by (simp add: mem_bytes_written)
  then have "mem_bytes mem2 p n = c" "mem_bytes mem2 (p + n) (ctx_tag_len ?st) = tag ?st nonce ad c"
    using there(2) mem_bytes_add [of mem2 p n "ctx_tag_len ?st"] len s(3) length_mem_bytes [of p n mem2] there(1) by auto
  then show ?thesis
    using open_exact [OF ctx there(1) room(1), of nonce ad] room s by (simp add: Let_def c_def crypt_crypt)
qed

text \<open>The scattered form, with extra input: what it writes is the ciphertext of both inputs and its tag.\<close>

lemma seal_scatter_exact:
  assumes ctx: "aead ctx = Some a" "ready (ctx_state ctx)" "seal_scatter_supports_extra_in a"
    and n: "inp + n \<le> length mem" "out + n \<le> length mem" "out_tag + max_tag \<le> length mem" "length extra + ctx_tag_len (ctx_state ctx) < 2 ^ 64"
    and c: "c = crypt (ctx_state ctx) nonce 0 (mem_bytes mem inp n)" and e: "e = crypt (ctx_state ctx) nonce n extra"
  shows "EVP_AEAD_CTX_seal_scatter ctx mem out out_tag max_tag nonce inp n extra ad =
    (if check_alias inp n out n \<and> \<not> buffers_alias out n out_tag max_tag \<and> \<not> buffers_alias inp n out_tag max_tag
        \<and> accepts nonce n \<and> length extra + ctx_tag_len (ctx_state ctx) \<le> max_tag
     then Some (Some (length extra + ctx_tag_len (ctx_state ctx)), mem_write (mem_write mem out c) out_tag (e @ tag (ctx_state ctx) nonce ad (c @ e)))
     else Some (None, mem_zero (mem_zero mem out n) out_tag max_tag))"
proof (cases "check_alias inp n out n \<and> \<not> buffers_alias out n out_tag max_tag \<and> \<not> buffers_alias inp n out_tag max_tag")
  case True
  show ?thesis
  proof (cases "accepts nonce n \<and> length extra + ctx_tag_len (ctx_state ctx) \<le> max_tag")
    case ok: True
    have "apart inp n out_tag max_tag" "apart out n out_tag max_tag" using True by (simp_all add: not_buffers_alias)
    then have "aead_seal_scatter a (ctx_state ctx) mem out out_tag max_tag nonce inp n extra ad =
        Some (Some (length extra + ctx_tag_len (ctx_state ctx)), mem_write (mem_write mem out c) out_tag (e @ tag (ctx_state ctx) nonce ad (c @ e)))"
      using seal_accepted [OF ctx(2) _ _ _ _ n(1,2,3) _ n(4) c e] ok True by blast
    then show ?thesis using ctx True ok by (simp add: EVP_AEAD_CTX_seal_scatter_def)
  next
    case False
    then have "aead_seal_scatter a (ctx_state ctx) mem out out_tag max_tag nonce inp n extra ad = Some (None, mem)"
      using ctx n(4) by (intro seal_refused) auto
    then show ?thesis using ctx True False by (simp add: EVP_AEAD_CTX_seal_scatter_def)
  qed
qed (use ctx in \<open>auto simp: EVP_AEAD_CTX_seal_scatter_def\<close>)

end

subsection \<open>Allocation\<close>

lemma EVP_AEAD_CTX_new_without_memory: "EVP_AEAD_CTX_new (\<lambda>_. None) a key tag_len = None"
  by (simp add: EVP_AEAD_CTX_new_def OPENSSL_malloc_def)

end
