(* ===== verification/Chacha_Poly.thy ===== *)
theory Chacha_Poly
  imports Chacha Aead
begin

text \<open>
  ChaCha20-Poly1305 (\<open>crypto/cipher_extra/e_chacha20poly1305.c\<close>). \<open>asm_capable\<close> returns 0 in the pods
  (\<open>OPENSSL_NO_ASM\<close>), so that the branches with assembly code are left out. The state of \<open>calc_tag\<close> on
  the stack is not initialised in the code; it is zero here, and \<open>poly1305_tag_whole\<close> shows that the tag
  does not depend on it.
\<close>

definition POLY1305_TAG_LEN :: nat where
  "POLY1305_TAG_LEN = 16"

definition aead_chacha20_poly1305_init :: "aead_ctx_state \<Rightarrow> byte list \<Rightarrow> nat \<Rightarrow> bool \<times> aead_ctx_state" where
  "aead_chacha20_poly1305_init st key tag_len =
    (let tag_len = (if tag_len = 0 then POLY1305_TAG_LEN else tag_len) in
     if tag_len > POLY1305_TAG_LEN then (False, st)
     else if length key \<noteq> 32 then (False, st)
     else (True, st\<lparr>ctx_opaque := mem_write (ctx_opaque st) 0 key, ctx_tag_len := tag_len\<rparr>))"

definition c20_key :: "aead_ctx_state \<Rightarrow> byte list" where
  "c20_key st = take 32 (ctx_opaque st)"

definition poly1305_update_length :: "poly1305_state_st \<Rightarrow> nat \<Rightarrow> poly1305_state_st" where
  "poly1305_update_length st data_len = CRYPTO_poly1305_update st (map (\<lambda>i. of_nat (data_len div 256 ^ i)) [0..<8])"

definition poly1305_storage :: poly1305_state_st where
  "poly1305_storage = \<lparr>pr0 = 0, pr1 = 0, pr2 = 0, pr3 = 0, pr4 = 0, ps1 = 0, ps2 = 0, ps3 = 0, ps4 = 0,
    ph0 = 0, ph1 = 0, ph2 = 0, ph3 = 0, ph4 = 0, pbuf = replicate 16 0, pbuf_used = 0, pkey = replicate 16 0\<rparr>"

definition calc_tag :: "byte list \<Rightarrow> byte list \<Rightarrow> byte list \<Rightarrow> byte list \<Rightarrow> byte list \<Rightarrow> byte list option" where
  "calc_tag key nonce ad ciphertext ciphertext_extra =
    (case CRYPTO_chacha_20 (replicate 32 0) 0 0 32 key nonce 0 of
       None \<Rightarrow> None
     | Some poly1305_key \<Rightarrow>
         (let st = CRYPTO_poly1305_init poly1305_storage poly1305_key;
              st = CRYPTO_poly1305_update st ad;
              st = (if length ad mod 16 \<noteq> 0 then CRYPTO_poly1305_update st (replicate (16 - length ad mod 16) 0) else st);
              st = CRYPTO_poly1305_update st ciphertext;
              st = CRYPTO_poly1305_update st ciphertext_extra;
              total = length ciphertext + length ciphertext_extra;
              st = (if total mod 16 \<noteq> 0 then CRYPTO_poly1305_update st (replicate (16 - total mod 16) 0) else st);
              st = poly1305_update_length st (length ad);
              st = poly1305_update_length st total
          in Some (fst (CRYPTO_poly1305_finish st))))"

text \<open>The extra input is encrypted byte by byte, from the middle of the block where the input ends.\<close>

function seal_extra :: "byte list \<Rightarrow> byte list \<Rightarrow> 32 word \<Rightarrow> nat \<Rightarrow> byte list \<Rightarrow> nat \<Rightarrow> byte list \<Rightarrow> byte list option" where
  "seal_extra key nonce block_counter offset mem out_tag extra_in =
    (if extra_in = [] then Some mem
     else
       (case CRYPTO_chacha_20 (replicate 64 0) 0 0 64 key nonce block_counter of
          None \<Rightarrow> None
        | Some block \<Rightarrow>
            (let n = min (64 - offset) (length extra_in);
                 mem = foldl (\<lambda>mem i. mem[out_tag + i := extra_in ! i XOR block ! (offset + i)]) mem [0..<n]
             in seal_extra key nonce (block_counter + 1) 0 mem (out_tag + n) (drop n extra_in))))"
  by pat_completeness auto
termination
  by (relation "measure (\<lambda>(_, _, _, offset, _, _, extra). 2 * length extra + (if offset < 64 then 0 else 1))") auto

declare seal_extra.simps [simp del]

definition chacha20_poly1305_seal_scatter :: "byte list \<Rightarrow> byte list \<Rightarrow> nat \<Rightarrow> nat \<Rightarrow> nat \<Rightarrow> byte list \<Rightarrow> nat \<Rightarrow> nat \<Rightarrow> byte list \<Rightarrow> byte list \<Rightarrow> nat \<Rightarrow> (nat option \<times> byte list) option" where
  "chacha20_poly1305_seal_scatter key mem out out_tag max_out_tag_len nonce inp in_len extra_in ad tag_len =
    (if size_t (length extra_in + tag_len) < tag_len then Some (None, mem)
     else if max_out_tag_len < size_t (tag_len + length extra_in) then Some (None, mem)
     else if length nonce \<noteq> 12 then Some (None, mem)
     else if in_len \<ge> 2 ^ 32 * 64 - 64 then Some (None, mem)
     else if max_out_tag_len < tag_len then Some (None, mem)
     else
       (case (if extra_in \<noteq> [] then seal_extra key nonce (1 + of_nat (in_len div 64)) (in_len mod 64) mem out_tag extra_in else Some mem) of
          None \<Rightarrow> None
        | Some mem \<Rightarrow>
            (case CRYPTO_chacha_20 mem out inp in_len key nonce 1 of
               None \<Rightarrow> None
             | Some mem \<Rightarrow>
                 (case calc_tag key nonce ad (mem_bytes mem out in_len) (mem_bytes mem out_tag (length extra_in)) of
                    None \<Rightarrow> None
                  | Some tag \<Rightarrow>
                      Some (Some (length extra_in + tag_len), mem_write mem (out_tag + length extra_in) (take tag_len tag))))))"

definition aead_chacha20_poly1305_seal_scatter :: "aead_ctx_state \<Rightarrow> byte list \<Rightarrow> nat \<Rightarrow> nat \<Rightarrow> nat \<Rightarrow> byte list \<Rightarrow> nat \<Rightarrow> nat \<Rightarrow> byte list \<Rightarrow> byte list \<Rightarrow> (nat option \<times> byte list) option" where
  "aead_chacha20_poly1305_seal_scatter st mem out out_tag max_out_tag_len nonce inp in_len extra_in ad =
    chacha20_poly1305_seal_scatter (c20_key st) mem out out_tag max_out_tag_len nonce inp in_len extra_in ad (ctx_tag_len st)"

definition aead_xchacha20_poly1305_seal_scatter :: "aead_ctx_state \<Rightarrow> byte list \<Rightarrow> nat \<Rightarrow> nat \<Rightarrow> nat \<Rightarrow> byte list \<Rightarrow> nat \<Rightarrow> nat \<Rightarrow> byte list \<Rightarrow> byte list \<Rightarrow> (nat option \<times> byte list) option" where
  "aead_xchacha20_poly1305_seal_scatter st mem out out_tag max_out_tag_len nonce inp in_len extra_in ad =
    (if length nonce \<noteq> 24 then Some (None, mem)
     else
       (let derived_key = CRYPTO_hchacha20 (c20_key st) (take 16 nonce);
            derived_nonce = replicate 4 0 @ take 8 (drop 16 nonce)
        in chacha20_poly1305_seal_scatter derived_key mem out out_tag max_out_tag_len derived_nonce inp in_len extra_in ad (ctx_tag_len st)))"

definition chacha20_poly1305_open_gather :: "byte list \<Rightarrow> byte list \<Rightarrow> nat \<Rightarrow> byte list \<Rightarrow> nat \<Rightarrow> nat \<Rightarrow> nat \<Rightarrow> nat \<Rightarrow> byte list \<Rightarrow> nat \<Rightarrow> (bool \<times> byte list) option" where
  "chacha20_poly1305_open_gather key mem out nonce inp in_len in_tag in_tag_len ad tag_len =
    (if length nonce \<noteq> 12 then Some (False, mem)
     else if in_tag_len \<noteq> tag_len then Some (False, mem)
     else if in_len \<ge> 2 ^ 32 * 64 - 64 then Some (False, mem)
     else
       (case calc_tag key nonce ad (mem_bytes mem inp in_len) [] of
          None \<Rightarrow> None
        | Some tag \<Rightarrow>
            (case CRYPTO_chacha_20 mem out inp in_len key nonce 1 of
               None \<Rightarrow> None
             | Some mem \<Rightarrow>
                 if CRYPTO_memcmp tag (mem_bytes mem in_tag tag_len) tag_len \<noteq> 0 then Some (False, mem) else Some (True, mem))))"

definition aead_chacha20_poly1305_open_gather :: "aead_ctx_state \<Rightarrow> byte list \<Rightarrow> nat \<Rightarrow> byte list \<Rightarrow> nat \<Rightarrow> nat \<Rightarrow> nat \<Rightarrow> nat \<Rightarrow> byte list \<Rightarrow> (bool \<times> byte list) option" where
  "aead_chacha20_poly1305_open_gather st mem out nonce inp in_len in_tag in_tag_len ad =
    chacha20_poly1305_open_gather (c20_key st) mem out nonce inp in_len in_tag in_tag_len ad (ctx_tag_len st)"

definition aead_xchacha20_poly1305_open_gather :: "aead_ctx_state \<Rightarrow> byte list \<Rightarrow> nat \<Rightarrow> byte list \<Rightarrow> nat \<Rightarrow> nat \<Rightarrow> nat \<Rightarrow> nat \<Rightarrow> byte list \<Rightarrow> (bool \<times> byte list) option" where
  "aead_xchacha20_poly1305_open_gather st mem out nonce inp in_len in_tag in_tag_len ad =
    (if length nonce \<noteq> 24 then Some (False, mem)
     else
       (let derived_key = CRYPTO_hchacha20 (c20_key st) (take 16 nonce);
            derived_nonce = replicate 4 0 @ take 8 (drop 16 nonce)
        in chacha20_poly1305_open_gather derived_key mem out derived_nonce inp in_len in_tag in_tag_len ad (ctx_tag_len st)))"

definition EVP_aead_chacha20_poly1305 :: EVP_AEAD where
  "EVP_aead_chacha20_poly1305 =
    \<lparr>aead_key_len = 32, aead_nonce_len = 12, aead_overhead = POLY1305_TAG_LEN, aead_max_tag_len = POLY1305_TAG_LEN,
     seal_scatter_supports_extra_in = True, aead_init = Some aead_chacha20_poly1305_init, aead_init_with_direction = None,
     aead_cleanup = (\<lambda>st. st), aead_open = None, aead_seal_scatter = aead_chacha20_poly1305_seal_scatter,
     aead_open_gather = Some aead_chacha20_poly1305_open_gather, aead_get_iv = None, aead_tag_len = None\<rparr>"

definition EVP_aead_xchacha20_poly1305 :: EVP_AEAD where
  "EVP_aead_xchacha20_poly1305 =
    \<lparr>aead_key_len = 32, aead_nonce_len = 24, aead_overhead = POLY1305_TAG_LEN, aead_max_tag_len = POLY1305_TAG_LEN,
     seal_scatter_supports_extra_in = True, aead_init = Some aead_chacha20_poly1305_init, aead_init_with_direction = None,
     aead_cleanup = (\<lambda>st. st), aead_open = None, aead_seal_scatter = aead_xchacha20_poly1305_seal_scatter,
     aead_open_gather = Some aead_xchacha20_poly1305_open_gather, aead_get_iv = None, aead_tag_len = None\<rparr>"

subsection \<open>The tag\<close>

text \<open>What is authenticated (RFC 8439, section 2.8): both strings padded to 16 bytes, and their lengths.\<close>

definition pad16 :: "byte list \<Rightarrow> byte list" where
  "pad16 xs = (if length xs mod 16 \<noteq> 0 then replicate (16 - length xs mod 16) 0 else [])"

definition le_bytes8 :: "nat \<Rightarrow> byte list" where
  "le_bytes8 n = map (\<lambda>i. of_nat (n div 256 ^ i)) [0..<8]"

definition aead_data :: "byte list \<Rightarrow> byte list \<Rightarrow> byte list" where
  "aead_data ad c = ad @ pad16 ad @ c @ pad16 c @ le_bytes8 (length ad) @ le_bytes8 (length c)"

definition chacha20_poly1305_tag :: "byte list \<Rightarrow> byte list \<Rightarrow> byte list \<Rightarrow> byte list \<Rightarrow> byte list" where
  "chacha20_poly1305_tag key nonce ad c = poly1305_whole (take 32 (chacha_block key nonce 0)) (aead_data ad c)"

lemma CRYPTO_chacha_20_eq:
  assumes "check_alias inp n out n" and "out + n \<le> length mem" and "inp + n \<le> length mem"
  shows "CRYPTO_chacha_20 mem out inp n key nonce counter = Some (mem_write mem out (chacha_xor key nonce counter 0 (mem_bytes mem inp n)))"
proof -
  have a: "apart inp n out n \<or> inp = out" using assms(1) by (simp add: check_alias_iff)
  then have "\<not> buffers_alias out n inp n \<or> inp = out" by (auto simp: not_buffers_alias apart_sym)
  moreover have "inp = out \<or> inp + n \<le> out \<or> out + n \<le> inp" using a by (auto simp: apart_def)
  ultimately show ?thesis using chacha_blocks_eq [OF _ assms(2,3)] by (simp add: CRYPTO_chacha_20_def)
qed

text \<open>The keystream itself: zeros encrypted in place.\<close>

lemma chacha_of_zeros:
  assumes "n \<le> 64"
  shows "CRYPTO_chacha_20 (replicate n 0) 0 0 n key nonce counter = Some (take n (chacha_block key nonce counter))"
proof -
  have "chacha_xor key nonce counter 0 (replicate n 0) = take n (chacha_block key nonce counter)"
    using assms by (intro nth_equalityI) (auto simp: chacha_xor_def chacha_stream_def)
  then show ?thesis using assms by (subst CRYPTO_chacha_20_eq) (simp_all add: check_alias_def mem_bytes_def mem_write_def)
qed

lemma calc_tag_eq: "calc_tag key nonce ad c e = Some (chacha20_poly1305_tag key nonce ad (c @ e))"
proof -
  let ?key = "take 32 (chacha_block key nonce 0)"
  let ?pads = "\<lambda>xs. if length xs mod 16 \<noteq> 0 then [replicate (16 - length xs mod 16) 0] else []"
  let ?pieces = "[ad] @ ?pads ad @ [c, e] @ ?pads (c @ e) @ [le_bytes8 (length ad), le_bytes8 (length (c @ e))]"
  have "calc_tag key nonce ad c e = Some (poly1305_tag poly1305_storage ?key ?pieces)"
    unfolding calc_tag_def chacha_of_zeros [of 32, simplified] poly1305_tag_def
    by (simp add: Let_def poly1305_update_length_def le_bytes8_def)
  also have "poly1305_tag poly1305_storage ?key ?pieces = poly1305_whole ?key (concat ?pieces)"
    by (rule poly1305_tag_whole) (simp add: poly1305_storage_def)
  also have "concat ?pieces = aead_data ad (c @ e)" by (simp add: aead_data_def pad16_def)
  finally show ?thesis by (simp add: chacha20_poly1305_tag_def)
qed

lemma length_chacha20_poly1305_tag [simp]: "length (chacha20_poly1305_tag key nonce ad c) = 16"
  using length_poly1305_tag [of poly1305_storage "take 32 (chacha_block key nonce 0)" "[aead_data ad c]"]
  by (simp add: chacha20_poly1305_tag_def poly1305_tag_whole poly1305_storage_def)

subsection \<open>The extra input\<close>

lemma seal_extra_eq:
  assumes "offset < 64" and "out_tag + length extra \<le> length mem"
  shows "seal_extra key nonce counter offset mem out_tag extra = Some (mem_write mem out_tag (chacha_xor key nonce counter offset extra))"
  using assms
proof (induction extra arbitrary: counter offset mem out_tag rule: length_induct)
  case (1 extra)
  show ?case
  proof (cases "extra = []")
    case True
    then show ?thesis by (simp add: seal_extra.simps chacha_xor_def)
  next
    case False
    define n where "n = min (64 - offset) (length extra)"
    have n: "0 < n" "n \<le> length extra" "offset + n \<le> 64" using False "1.prems"(1) by (auto simp: n_def)
    let ?block = "chacha_block key nonce counter"
    let ?g = "\<lambda>i. extra ! i XOR ?block ! (offset + i)"
    let ?m = "mem_write mem out_tag (chacha_xor key nonce counter offset (take n extra))"
    have "foldl (\<lambda>m i. m[out_tag + i := ?g i]) (mem_write mem out_tag (map ?g [0..<0])) [0..<n] = mem_write mem out_tag (map ?g [0..<n])"
      by (rule foldl_stores) (use "1.prems"(2) n in auto)
    moreover have "map ?g [0..<n] = chacha_xor key nonce counter offset (take n extra)"
      using n by (intro nth_equalityI) (auto simp: chacha_xor_def chacha_stream_def)
    ultimately have loop: "foldl (\<lambda>m i. m[out_tag + i := ?g i]) mem [0..<n] = ?m" by simp
    have zeros: "CRYPTO_chacha_20 (replicate 64 0) 0 0 64 key nonce counter = Some ?block" using chacha_of_zeros [of 64] by simp
    have "seal_extra key nonce counter offset mem out_tag extra = seal_extra key nonce (counter + 1) 0 ?m (out_tag + n) (drop n extra)"
      by (subst seal_extra.simps) (simp only: False if_False zeros option.case Let_def n_def [symmetric] loop)
    also have "\<dots> = Some (mem_write ?m (out_tag + n) (chacha_xor key nonce (counter + 1) 0 (drop n extra)))"
      using "1.prems"(2) n False by (intro "1.IH" [rule_format]) auto
    also have "chacha_xor key nonce (counter + 1) 0 (drop n extra) = chacha_xor key nonce counter (offset + n) (drop n extra)"
    proof (cases "n = length extra")
      case True
      then show ?thesis by (simp add: chacha_xor_def)
    next
      case False
      then have "offset + n = 64" using n(2) "1.prems"(1) by (auto simp: n_def)
      then show ?thesis by (simp add: chacha_xor_next)
    qed
    also have "mem_write ?m (out_tag + n) \<dots> = mem_write mem out_tag (chacha_xor key nonce counter offset (take n extra @ drop n extra))"
      using mem_write_append [of out_tag "chacha_xor key nonce counter offset (take n extra)" "chacha_xor key nonce counter (offset + n) (drop n extra)" mem] "1.prems"(2) n
      by (simp only: chacha_xor_append length_chacha_xor length_take length_drop min_absorb2 le_add_diff_inverse add.assoc)
    finally show ?thesis by simp
  qed
qed

lemma chacha_xor_from: "chacha_xor key nonce (1 + of_nat (n div 64)) (n mod 64) bs = chacha_xor key nonce 1 n bs"
proof -
  have "n div 64 + (n mod 64 + i) div 64 = (n + i) div 64" for i
  proof -
    have "(n + i) div 64 = (n mod 64 + i + 64 * (n div 64)) div 64" by (metis add.assoc add.commute mult_div_mod_eq)
    also have "\<dots> = n div 64 + (n mod 64 + i) div 64" by (rule div_mult_self2) simp
    finally show ?thesis by simp
  qed
  then have "1 + of_nat (n div 64) + of_nat ((n mod 64 + i) div 64) = (1 + of_nat ((n + i) div 64) :: 32 word)" for i
    by (metis add.assoc of_nat_add)
  moreover have "(n mod 64 + i) mod 64 = (n + i) mod 64" for i by (rule mod_add_left_eq)
  ultimately show ?thesis by (simp only: chacha_xor_def chacha_stream_def)
qed

subsection \<open>The methods keep what an AEAD promises\<close>

lemma mem_write_swap:
  assumes "apart p (length xs) q (length ys)" and "p + length xs \<le> length mem" and "q + length ys \<le> length mem"
  shows "mem_write (mem_write mem p xs) q ys = mem_write (mem_write mem q ys) p xs"
  using assms by (intro nth_equalityI) (auto simp: nth_mem_write apart_def)

definition aead_ready :: "aead_ctx_state \<Rightarrow> bool" where
  "aead_ready st \<longleftrightarrow> length (ctx_opaque st) = 580 \<and> 0 < ctx_tag_len st \<and> ctx_tag_len st \<le> 16"

definition chacha_limit :: nat where
  "chacha_limit = 2 ^ 32 * 64 - 64"

lemma seal_scatter_done:
  assumes nonce: "length nonce = 12" and n: "n < chacha_limit" and al: "check_alias inp n out n" "apart inp n out_tag max_tag" "apart out n out_tag max_tag"
    and mem: "inp + n \<le> length mem" "out + n \<le> length mem" "out_tag + max_tag \<le> length mem"
    and room: "length extra + k \<le> max_tag" "length extra + k < 2 ^ 64" "k \<le> 16"
    and c: "c = chacha_xor key nonce 1 0 (mem_bytes mem inp n)" and e: "e = chacha_xor key nonce 1 n extra"
  shows "chacha20_poly1305_seal_scatter key mem out out_tag max_tag nonce inp n extra ad k =
    Some (Some (length extra + k), mem_write (mem_write mem out c) out_tag (e @ take k (chacha20_poly1305_tag key nonce ad (c @ e))))"
proof -
  let ?tag = "chacha20_poly1305_tag key nonce ad (c @ e)"
  define m1 where "m1 = mem_write mem out_tag e"
  have len: "length c = n" "length e = length extra" using mem by (simp_all add: c e length_mem_bytes)
  have al1: "apart inp n out_tag (length e)" "apart out n out_tag (length e)"
    using al room len apart_shorter by (metis le_refl add_leD1)+
  have fit: "out_tag + length e \<le> length mem" using mem room len by simp
  have extra: "(if extra \<noteq> [] then seal_extra key nonce (1 + of_nat (n div 64)) (n mod 64) mem out_tag extra else Some mem) = Some m1"
  proof (cases "extra = []")
    case True
    then show ?thesis by (simp add: m1_def e chacha_xor_def)
  next
    case False
    then show ?thesis using fit len by (simp add: seal_extra_eq chacha_xor_from m1_def e)
  qed
  have l1: "length m1 = length mem" using fit by (simp add: m1_def)
  have "mem_bytes m1 inp n = mem_bytes mem inp n" unfolding m1_def by (rule mem_bytes_apart [OF fit al1(1)])
  then have crypt: "CRYPTO_chacha_20 m1 out inp n key nonce 1 = Some (mem_write m1 out c)"
    using CRYPTO_chacha_20_eq [OF al(1), of m1 key nonce 1] mem l1 by (simp add: c)
  define m2 where "m2 = mem_write m1 out c"
  have m2: "m2 = mem_write (mem_write mem out c) out_tag e"
    unfolding m2_def m1_def using al1(2) fit mem len by (intro mem_write_swap) (auto simp: apart_sym)
  have "mem_bytes m2 out n = c" unfolding m2_def using mem l1 len by (simp add: mem_bytes_written)
  moreover have "mem_bytes m2 out_tag (length extra) = e" unfolding m2 using fit mem len by (simp add: mem_bytes_written)
  ultimately have tag: "calc_tag key nonce ad (mem_bytes m2 out n) (mem_bytes m2 out_tag (length extra)) = Some ?tag" by (simp add: calc_tag_eq)
  have w: "mem_write m2 (out_tag + length extra) (take k ?tag) = mem_write (mem_write mem out c) out_tag (e @ take k ?tag)"
    unfolding m2 using mem_write_append [of out_tag e "take k ?tag" "mem_write mem out c"] mem room len by simp
  have "\<not> size_t (length extra + k) < k" "\<not> max_tag < size_t (k + length extra)" "\<not> max_tag < k"
    using room by (simp_all add: size_t_id add.commute)
  then show ?thesis
    unfolding chacha20_poly1305_seal_scatter_def extra option.case crypt m2_def [symmetric] tag w
    using nonce n by (simp add: chacha_limit_def)
qed

lemma seal_scatter_refused:
  assumes "length extra + k < 2 ^ 64" and "\<not> (length nonce = 12 \<and> n < chacha_limit) \<or> max_tag < length extra + k"
  shows "chacha20_poly1305_seal_scatter key mem out out_tag max_tag nonce inp n extra ad k = Some (None, mem)"
proof -
  have "size_t (k + length extra) = length extra + k" using assms(1) by (simp add: size_t_id add.commute)
  then show ?thesis using assms(2) by (auto simp: chacha20_poly1305_seal_scatter_def chacha_limit_def)
qed

lemma open_gather_done:
  assumes nonce: "length nonce = 12" and n: "n < chacha_limit" and al: "check_alias inp n out n" "apart out n in_tag k"
    and mem: "inp + n \<le> length mem" "out + n \<le> length mem" "in_tag + k \<le> length mem" and k: "k \<le> 16"
    and c: "c = mem_bytes mem inp n"
  shows "chacha20_poly1305_open_gather key mem out nonce inp n in_tag k ad k =
    Some (take k (chacha20_poly1305_tag key nonce ad c) = mem_bytes mem in_tag k, mem_write mem out (chacha_xor key nonce 1 0 c))"
proof -
  let ?x = "chacha_xor key nonce 1 0 c" and ?tag = "chacha20_poly1305_tag key nonce ad c"
  have len: "length ?x = n" using mem by (simp add: c length_mem_bytes)
  have "mem_bytes (mem_write mem out ?x) in_tag k = mem_bytes mem in_tag k"
    using mem len al(2) by (intro mem_bytes_apart) (simp_all add: apart_sym)
  moreover have "CRYPTO_memcmp ?tag (mem_bytes mem in_tag k) k = 0 \<longleftrightarrow> take k ?tag = mem_bytes mem in_tag k"
    using k mem by (subst CRYPTO_memcmp_zero_iff) (simp_all add: length_mem_bytes)
  moreover have "CRYPTO_chacha_20 mem out inp n key nonce 1 = Some (mem_write mem out ?x)"
    using CRYPTO_chacha_20_eq [OF al(1), of mem key nonce 1] mem by (simp add: c)
  ultimately show ?thesis
    using nonce n by (simp add: chacha20_poly1305_open_gather_def calc_tag_eq chacha_limit_def c [symmetric])
qed

lemma open_gather_refused:
  "\<not> (length nonce = 12 \<and> n < chacha_limit) \<Longrightarrow> chacha20_poly1305_open_gather key mem out nonce inp n in_tag k ad k = Some (False, mem)"
  by (auto simp: chacha20_poly1305_open_gather_def chacha_limit_def)

definition xchacha_key :: "aead_ctx_state \<Rightarrow> byte list \<Rightarrow> byte list" where
  "xchacha_key st nonce = CRYPTO_hchacha20 (c20_key st) (take 16 nonce)"

definition xchacha_nonce :: "byte list \<Rightarrow> byte list" where
  "xchacha_nonce nonce = replicate 4 0 @ take 8 (drop 16 nonce)"

interpretation c20: aead_scheme EVP_aead_chacha20_poly1305 aead_ready "\<lambda>nonce n. length nonce = 12 \<and> n < chacha_limit"
  "\<lambda>st nonce p bs. chacha_xor (c20_key st) nonce 1 p bs"
  "\<lambda>st nonce ad c. take (ctx_tag_len st) (chacha20_poly1305_tag (c20_key st) nonce ad c)"
proof (unfold_locales, goal_cases)
  case (7 st nonce n inp out out_tag max_tag mem extra c e ad)
  then show ?case
    using seal_scatter_done [of nonce n inp out out_tag max_tag mem extra "ctx_tag_len st" c "c20_key st" e ad]
    by (simp add: EVP_aead_chacha20_poly1305_def aead_chacha20_poly1305_seal_scatter_def aead_ready_def)
next
  case (8 st extra nonce n max_tag mem out out_tag inp ad)
  then show ?case
    using seal_scatter_refused [of extra "ctx_tag_len st" nonce n max_tag]
    by (simp add: EVP_aead_chacha20_poly1305_def aead_chacha20_poly1305_seal_scatter_def)
next
  case (9 g st nonce n inp out in_tag mem c ad)
  then show ?case
    using open_gather_done [of nonce n inp out in_tag "ctx_tag_len st" mem c "c20_key st" ad]
    by (auto simp: EVP_aead_chacha20_poly1305_def aead_chacha20_poly1305_open_gather_def aead_ready_def)
next
  case (10 g st nonce n mem out inp in_tag ad)
  then show ?case
    using open_gather_refused [of nonce n]
    by (auto simp: EVP_aead_chacha20_poly1305_def aead_chacha20_poly1305_open_gather_def)
qed (auto simp: EVP_aead_chacha20_poly1305_def aead_ready_def POLY1305_TAG_LEN_def chacha_limit_def)

interpretation xc20: aead_scheme EVP_aead_xchacha20_poly1305 aead_ready "\<lambda>nonce n. length nonce = 24 \<and> n < chacha_limit"
  "\<lambda>st nonce p bs. chacha_xor (xchacha_key st nonce) (xchacha_nonce nonce) 1 p bs"
  "\<lambda>st nonce ad c. take (ctx_tag_len st) (chacha20_poly1305_tag (xchacha_key st nonce) (xchacha_nonce nonce) ad c)"
proof (unfold_locales, goal_cases)
  case (7 st nonce n inp out out_tag max_tag mem extra c e ad)
  then show ?case
    using seal_scatter_done [of "xchacha_nonce nonce" n inp out out_tag max_tag mem extra "ctx_tag_len st" c "xchacha_key st nonce" e ad]
    by (simp add: EVP_aead_xchacha20_poly1305_def aead_xchacha20_poly1305_seal_scatter_def aead_ready_def xchacha_key_def xchacha_nonce_def Let_def)
next
  case (8 st extra nonce n max_tag mem out out_tag inp ad)
  then show ?case
    using seal_scatter_refused [of extra "ctx_tag_len st" "xchacha_nonce nonce" n max_tag]
    by (auto simp: EVP_aead_xchacha20_poly1305_def aead_xchacha20_poly1305_seal_scatter_def xchacha_key_def xchacha_nonce_def Let_def)
next
  case (9 g st nonce n inp out in_tag mem c ad)
  then show ?case
    using open_gather_done [of "xchacha_nonce nonce" n inp out in_tag "ctx_tag_len st" mem c "xchacha_key st nonce" ad]
    by (auto simp: EVP_aead_xchacha20_poly1305_def aead_xchacha20_poly1305_open_gather_def aead_ready_def xchacha_key_def xchacha_nonce_def Let_def)
next
  case (10 g st nonce n mem out inp in_tag ad)
  then show ?case
    using open_gather_refused [of "xchacha_nonce nonce" n]
    by (auto simp: EVP_aead_xchacha20_poly1305_def aead_xchacha20_poly1305_open_gather_def xchacha_nonce_def Let_def)
qed (auto simp: EVP_aead_xchacha20_poly1305_def aead_ready_def POLY1305_TAG_LEN_def chacha_limit_def)

subsection \<open>Contexts\<close>

lemmas evp_aead_defs = EVP_aead_chacha20_poly1305_def EVP_aead_xchacha20_poly1305_def

lemma init_exact:
  assumes "a = EVP_aead_chacha20_poly1305 \<or> a = EVP_aead_xchacha20_poly1305"
  shows "EVP_AEAD_CTX_init ctx0 a key k =
    Some (if length key = 32 \<and> k \<le> 16
      then (True, ctx0\<lparr>aead := Some a,
        ctx_state := (ctx_state ctx0)\<lparr>ctx_opaque := mem_write (ctx_opaque (ctx_state ctx0)) 0 key, ctx_tag_len := if k = 0 then 16 else k\<rparr>\<rparr>)
      else (False, ctx0\<lparr>aead := None\<rparr>))"
  using assms
  by (auto simp: EVP_AEAD_CTX_init_def EVP_AEAD_CTX_init_with_direction_def evp_aead_defs aead_chacha20_poly1305_init_def POLY1305_TAG_LEN_def)

lemma init_ready:
  assumes "EVP_AEAD_CTX_init ctx0 a key k = Some (True, ctx)" and "a = EVP_aead_chacha20_poly1305 \<or> a = EVP_aead_xchacha20_poly1305"
    and "length (ctx_opaque (ctx_state ctx0)) = 580"
  shows "aead ctx = Some a \<and> aead_ready (ctx_state ctx) \<and> c20_key (ctx_state ctx) = key
    \<and> ctx_tag_len (ctx_state ctx) = (if k = 0 then 16 else k) \<and> length key = 32"
  using assms by (auto simp: init_exact aead_ready_def c20_key_def mem_write_def split: if_splits)

text \<open>Both methods open what they sealed.\<close>

lemma chacha_seal_open:
  assumes init: "EVP_AEAD_CTX_init ctx0 a key k0 = Some (True, ctx)" "a = EVP_aead_chacha20_poly1305 \<or> a = EVP_aead_xchacha20_poly1305"
      "length (ctx_opaque (ctx_state ctx0)) = 580"
    and n: "n < 2 ^ 64" "inp + n \<le> length mem" "out + max_out \<le> length mem"
    and sealed: "EVP_AEAD_CTX_seal ctx mem out max_out nonce inp n ad = Some (Some k, mem')"
    and there: "p + k \<le> length mem2" "mem_bytes mem2 p k = mem_bytes mem' out k"
    and room: "q + max_out2 \<le> length mem2" "n \<le> max_out2" "check_alias p k q max_out2"
  shows "EVP_AEAD_CTX_open ctx mem2 q max_out2 nonce p k ad = Some (Some n, mem_write mem2 q (mem_bytes mem inp n))"
proof -
  note r = init_ready [OF init]
  show ?thesis
  proof (cases "a = EVP_aead_chacha20_poly1305")
    case True
    with r show ?thesis using c20.seal_open [of ctx n inp mem out max_out nonce ad k mem' p mem2 q max_out2] n sealed there room by blast
  next
    case False
    with init(2) have "a = EVP_aead_xchacha20_poly1305" by blast
    with r show ?thesis using xc20.seal_open [of ctx n inp mem out max_out nonce ad k mem' p mem2 q max_out2] n sealed there room by blast
  qed
qed

text \<open>Input and extra input, sealed apart, are opened as one message.\<close>

lemma scatter_result:
  assumes init: "EVP_AEAD_CTX_init ctx0 EVP_aead_chacha20_poly1305 key k0 = Some (True, ctx)" "length (ctx_opaque (ctx_state ctx0)) = 580"
    and n: "inp + n \<le> length mem" "out + n \<le> length mem" "out_tag + max_tag \<le> length mem" "length extra + 16 < 2 ^ 64"
    and sealed: "EVP_AEAD_CTX_seal_scatter ctx mem out out_tag max_tag nonce inp n extra ad = Some (Some k, mem')"
    and c: "c = chacha_xor key nonce 1 0 (mem_bytes mem inp n)" and e: "e = chacha_xor key nonce 1 n extra"
  shows "length nonce = 12 \<and> n < chacha_limit \<and> k = length extra + ctx_tag_len (ctx_state ctx)
    \<and> mem_bytes mem' out n = c
    \<and> mem_bytes mem' out_tag k = e @ take (ctx_tag_len (ctx_state ctx)) (chacha20_poly1305_tag key nonce ad (c @ e))"
proof -
  let ?k = "ctx_tag_len (ctx_state ctx)"
  note r = init_ready [OF init(1) disjI1 [OF refl] init(2)]
  then have k: "?k \<le> 16" by (simp add: aead_ready_def)
  have sup: "seal_scatter_supports_extra_in EVP_aead_chacha20_poly1305" by (simp add: evp_aead_defs)
  let ?w = "e @ take ?k (chacha20_poly1305_tag key nonce ad (c @ e))"
  have x: "\<not> buffers_alias out n out_tag max_tag" "length nonce = 12" "n < chacha_limit" "length extra + ?k \<le> max_tag" "k = length extra + ?k"
      "mem' = mem_write (mem_write mem out c) out_tag ?w"
    using sealed c20.seal_scatter_exact [of ctx inp n mem out out_tag max_tag extra c nonce e ad] r sup n k c e by (auto split: if_splits)
  have len: "length c = n" "length ?w = k" using n k by (simp_all add: c e length_mem_bytes x(5))
  have "mem_bytes mem' out_tag k = ?w" unfolding x(6) using n x len by (intro mem_bytes_written) simp_all
  moreover have "mem_bytes mem' out n = mem_bytes (mem_write mem out c) out n"
    unfolding x(6) using x(1,4,5) n len by (intro mem_bytes_apart) (auto simp: not_buffers_alias apart_def)
  moreover have "\<dots> = c" using n len by (intro mem_bytes_written) simp_all
  ultimately show ?thesis using x by simp
qed

lemma scatter_open:
  assumes init: "EVP_AEAD_CTX_init ctx0 EVP_aead_chacha20_poly1305 key k0 = Some (True, ctx)" "length (ctx_opaque (ctx_state ctx0)) = 580"
    and n: "inp + n \<le> length mem" "out + n \<le> length mem" "out_tag + max_tag \<le> length mem"
    and sealed: "EVP_AEAD_CTX_seal_scatter ctx mem out out_tag max_tag nonce inp n extra ad = Some (Some k, mem')"
    and limit: "n + length extra < 2 ^ 32 * 64 - 64"
    and there: "p + (n + k) \<le> length mem2" "mem_bytes mem2 p (n + k) = mem_bytes mem' out n @ mem_bytes mem' out_tag k"
    and room: "q + max_out2 \<le> length mem2" "n + length extra \<le> max_out2" "check_alias p (n + k) q max_out2"
  shows "EVP_AEAD_CTX_open ctx mem2 q max_out2 nonce p (n + k) ad = Some (Some (n + length extra), mem_write mem2 q (mem_bytes mem inp n @ extra))"
proof -
  let ?k = "ctx_tag_len (ctx_state ctx)"
  define c e where c: "c = chacha_xor key nonce 1 0 (mem_bytes mem inp n)" and e: "e = chacha_xor key nonce 1 n extra"
  note r = init_ready [OF init(1) disjI1 [OF refl] init(2)]
  have k: "?k \<le> 16" "?k \<noteq> 0" using r by (simp_all add: aead_ready_def)
  have small: "length extra + 16 < 2 ^ 64" using limit by simp
  have x: "length nonce = 12" "k = length extra + ?k" "mem_bytes mem' out n = c" "mem_bytes mem' out_tag k = e @ take ?k (chacha20_poly1305_tag key nonce ad (c @ e))"
    using scatter_result [OF init n small sealed c e] by blast+
  have len: "length c = n" "length e = length extra" using n by (simp_all add: c e length_mem_bytes)
  have both: "c @ e = chacha_xor key nonce 1 0 (mem_bytes mem inp n @ extra)" using n by (simp add: c e chacha_xor_append length_mem_bytes)
  have whole: "mem_bytes mem2 p (n + k) = (c @ e) @ take ?k (chacha20_poly1305_tag key nonce ad (c @ e))" using there(2) x by simp
  have split: "n + k = (n + length extra) + ?k" using x(2) by simp
  have "mem_bytes mem2 p (n + length extra) @ mem_bytes mem2 (p + (n + length extra)) ?k = (c @ e) @ take ?k (chacha20_poly1305_tag key nonce ad (c @ e))"
    using whole mem_bytes_add [of mem2 p "n + length extra" ?k] by (simp add: split)
  then have parts: "mem_bytes mem2 p (n + length extra) = c @ e" "mem_bytes mem2 (p + (n + length extra)) ?k = take ?k (chacha20_poly1305_tag key nonce ad (c @ e))"
    using there(1) len k split by (subst (asm) append_eq_append_conv; simp add: length_mem_bytes)+
  show ?thesis
    using c20.open_exact [of ctx p "n + k" mem2 q max_out2 nonce ad] r there(1) room limit x(1) parts
    by (simp add: split Let_def chacha_limit_def both)
qed

text \<open>Behind the last block that the length limit allows, the extra input meets the block of the Poly1305 key.\<close>

lemma stream_meets_key:
  assumes "n = 2 ^ 32 * 64 - 65" and "m \<le> 64"
  shows "chacha_xor key nonce 1 (n + 1) (replicate m 0) = take m (chacha_block key nonce 0)"
proof (rule nth_equalityI)
  fix i assume "i < length (chacha_xor key nonce 1 (n + 1) (replicate m 0))"
  then have i: "i < m" "i < 64" using assms(2) by simp_all
  have p: "n + 1 + i = i + 64 * 4294967295" using assms(1) by simp
  have d: "(n + 1 + i) div 64 = 4294967295" "(n + 1 + i) mod 64 = i"
    unfolding p div_mult_self2 [OF zero_neq_numeral [symmetric]] mod_mult_self2 using i(2) by simp_all
  have w: "1 + of_nat 4294967295 = (0 :: 32 word)" by simp
  have "chacha_stream key nonce 1 (n + 1 + i) = chacha_block key nonce 0 ! i" unfolding chacha_stream_def d w ..
  then show "chacha_xor key nonce 1 (n + 1) (replicate m 0) ! i = take m (chacha_block key nonce 0) ! i"
    using i by (simp add: chacha_xor_def)
qed (use assms in simp)

subsection \<open>The model written out\<close>

lemma chacha_xor_core:
  assumes "inp + n \<le> length mem"
  shows "chacha_xor key nonce counter 0 (mem_bytes mem inp n) =
    map (\<lambda>i. mem ! (inp + i) XOR chacha_core (chacha_input key nonce (counter + of_nat (i div 64))) ! (i mod 64)) [0..<n]"
  using assms by (intro nth_equalityI) (auto simp: chacha_xor_def chacha_stream_def chacha_block_def length_mem_bytes nth_mem_bytes)

lemma rev_be_bytes: "rev (be_bytes k n) = map (\<lambda>i. of_nat (n div 256 ^ i)) [0..<k]"
proof (induction k arbitrary: n)
  case (Suc k)
  have "(of_nat (n mod 256) :: byte) = of_nat n" by (rule word_unat_eq_iff [THEN iffD2]) (simp add: unat_of_nat)
  then show ?case using Suc [of "n div 256"] by (simp add: map_upt_Suc div_mult2_eq [symmetric] del: upt_Suc)
qed simp

lemma pad16_eq: "replicate ((16 - length xs mod 16) mod 16) 0 = pad16 xs"
  by (auto simp: pad16_def)

lemma le_bytes8_eq: "rev (be_bytes 8 n) = le_bytes8 n"
  by (simp add: le_bytes8_def rev_be_bytes del: upt_Suc)

subsection \<open>An example\<close>

text \<open>A context for the examples.\<close>

definition example_ctx :: EVP_AEAD_CTX where
  "example_ctx = \<lparr>aead = Some EVP_aead_chacha20_poly1305,
    ctx_state = \<lparr>ctx_opaque = replicate 32 7 @ replicate 548 0, ctx_tag_len = 16\<rparr>\<rparr>"

lemma example_init:
  "EVP_AEAD_CTX_init (EVP_AEAD_CTX_zero example_ctx) EVP_aead_chacha20_poly1305 (replicate 32 7) 0 = Some (True, example_ctx)"
proof -
  have "replicate 580 (0 :: byte) = replicate 32 0 @ replicate 548 0" using replicate_add [of 32 548 "0 :: byte"] by simp
  then show ?thesis by (simp add: init_exact example_ctx_def EVP_AEAD_CTX_zero_def mem_write_def)
qed

lemma example_zero: "length (ctx_opaque (ctx_state (EVP_AEAD_CTX_zero example_ctx))) = 580"
  by (simp add: EVP_AEAD_CTX_zero_def)

lemma example_ready: "aead example_ctx = Some EVP_aead_chacha20_poly1305" "aead_ready (ctx_state example_ctx)"
    "ctx_tag_len (ctx_state example_ctx) = 16" "c20_key (ctx_state example_ctx) = replicate 32 7"
  by (simp_all add: example_ctx_def aead_ready_def c20_key_def)

lemma example_scatter:
  "EVP_AEAD_CTX_seal_scatter example_ctx (replicate 40 1) 0 20 20 (replicate 12 3) 0 20 [5, 6] [9] =
    Some (Some 18, mem_write (mem_write (replicate 40 1) 0 (chacha_xor (replicate 32 7) (replicate 12 3) 1 0 (mem_bytes (replicate 40 1) 0 20))) 20
      (chacha_xor (replicate 32 7) (replicate 12 3) 1 20 [5, 6] @ take 16 (chacha20_poly1305_tag (replicate 32 7) (replicate 12 3) [9]
        (chacha_xor (replicate 32 7) (replicate 12 3) 1 0 (mem_bytes (replicate 40 1) 0 20) @ chacha_xor (replicate 32 7) (replicate 12 3) 1 20 [5, 6]))))"
  by (subst c20.seal_scatter_exact [OF example_ready(1,2) _ _ _ _ _ refl refl])
    (simp_all add: example_ready check_alias_def buffers_alias_def chacha_limit_def EVP_aead_chacha20_poly1305_def)

end
