(* ===== verification/Refcount.thy ===== *)
theory Refcount
  imports Bytes_Prelude
begin

text \<open>
  Reference counts. \<open>crypto/refcount_lock.c\<close> counts under a lock: two atomic functions.
  \<open>crypto/refcount_c11.c\<close> counts with compare-and-exchange loops; it is modelled as a transition
  system in which the threads interleave at every access to the counter and a weak exchange may
  fail spuriously. The loops do what the locked functions do, and \<open>n\<close> releases of \<open>n\<close> references
  report zero exactly once.
\<close>

definition CRYPTO_REFCOUNT_MAX :: "32 word" where
  "CRYPTO_REFCOUNT_MAX = 0xffffffff"

definition CRYPTO_refcount_inc :: "32 word \<Rightarrow> 32 word" where
  "CRYPTO_refcount_inc count = (if count < CRYPTO_REFCOUNT_MAX then count + 1 else count)"

text \<open>\<open>None\<close> is \<open>abort\<close>.\<close>

definition CRYPTO_refcount_dec_and_test_zero :: "32 word \<Rightarrow> (bool \<times> 32 word) option" where
  "CRYPTO_refcount_dec_and_test_zero count =
    (if count = 0 then None
     else let count' = (if count < CRYPTO_REFCOUNT_MAX then count - 1 else count) in Some (count' = 0, count'))"

datatype refcount_op = Inc | Dec

text \<open>A thread has not loaded the counter, is in its loop with \<open>expected\<close>, has returned, or has aborted.\<close>

datatype refcount_pc = Start | Loop "32 word" | Returned bool | Aborted

inductive c11_step :: "(nat \<Rightarrow> refcount_op) \<Rightarrow> 32 word \<times> (nat \<Rightarrow> refcount_pc) \<Rightarrow> 32 word \<times> (nat \<Rightarrow> refcount_pc) \<Rightarrow> bool"
  for op :: "nat \<Rightarrow> refcount_op"
where
  load: "pc i = Start \<Longrightarrow> c11_step op (count, pc) (count, pc(i := Loop count))"
| exchange_failed: "pc i = Loop e \<Longrightarrow> e \<noteq> CRYPTO_REFCOUNT_MAX \<Longrightarrow> op i = Dec \<longrightarrow> e \<noteq> 0 \<Longrightarrow>
    c11_step op (count, pc) (count, pc(i := Loop count))"
| inc_saturated: "pc i = Loop CRYPTO_REFCOUNT_MAX \<Longrightarrow> op i = Inc \<Longrightarrow>
    c11_step op (count, pc) (count, pc(i := Returned False))"
| inc_exchanged: "pc i = Loop count \<Longrightarrow> op i = Inc \<Longrightarrow> count \<noteq> CRYPTO_REFCOUNT_MAX \<Longrightarrow>
    c11_step op (count, pc) (count + 1, pc(i := Returned False))"
| dec_zero: "pc i = Loop 0 \<Longrightarrow> op i = Dec \<Longrightarrow> c11_step op (count, pc) (count, pc(i := Aborted))"
| dec_saturated: "pc i = Loop CRYPTO_REFCOUNT_MAX \<Longrightarrow> op i = Dec \<Longrightarrow>
    c11_step op (count, pc) (count, pc(i := Returned False))"
| dec_exchanged: "pc i = Loop count \<Longrightarrow> op i = Dec \<Longrightarrow> count \<noteq> 0 \<Longrightarrow> count \<noteq> CRYPTO_REFCOUNT_MAX \<Longrightarrow>
    c11_step op (count, pc) (count - 1, pc(i := Returned (count - 1 = 0)))"

inductive_cases c11_stepE: "c11_step op s s'"

definition running :: "refcount_pc \<Rightarrow> bool" where
  "running p = (case p of Start \<Rightarrow> True | Loop _ \<Rightarrow> True | _ \<Rightarrow> False)"

lemma running_simps [simp]: "running Start" "running (Loop e)" "\<not> running (Returned r)" "\<not> running Aborted"
  by (simp_all add: running_def)

text \<open>A saturated counter stays saturated, so a thread that saw it saturated returns what the locked function would.\<close>

definition saturation_seen :: "32 word \<times> (nat \<Rightarrow> refcount_pc) \<Rightarrow> bool" where
  "saturation_seen s \<longleftrightarrow> (\<forall>i. snd s i = Loop CRYPTO_REFCOUNT_MAX \<longrightarrow> fst s = CRYPTO_REFCOUNT_MAX)"

lemma saturation_seen_step: "c11_step op s s' \<Longrightarrow> saturation_seen s \<Longrightarrow> saturation_seen s'"
  by (induction rule: c11_step.induct) (auto simp: saturation_seen_def split: if_splits)

lemma saturation_seen_run: "(c11_step op)\<^sup>*\<^sup>* s s' \<Longrightarrow> saturation_seen s \<Longrightarrow> saturation_seen s'"
  by (induction rule: rtranclp_induct) (auto intro: saturation_seen_step)

lemma not_max_less: "c \<noteq> CRYPTO_REFCOUNT_MAX \<longleftrightarrow> c < CRYPTO_REFCOUNT_MAX"
proof -
  have "CRYPTO_REFCOUNT_MAX = - 1" by (simp add: CRYPTO_REFCOUNT_MAX_def)
  then show ?thesis using word_order.not_eq_extremum [of c] by simp
qed

lemma c11_step_locked:
  assumes "c11_step op (count, pc) (count', pc')" and "saturation_seen (count, pc)"
    and "running (pc i)" and "pc' i = Returned r"
  shows "case op i of Inc \<Rightarrow> count' = CRYPTO_refcount_inc count
    | Dec \<Rightarrow> CRYPTO_refcount_dec_and_test_zero count = Some (r, count')"
  using assms(1)
proof cases
  case (load j)
  then show ?thesis using assms(3,4) by (auto split: if_splits)
next
  case (exchange_failed j e)
  then show ?thesis using assms(3,4) by (auto split: if_splits)
next
  case (inc_saturated j)
  then have "i = j" using assms(3,4) by (auto split: if_splits)
  moreover have "count = CRYPTO_REFCOUNT_MAX" using inc_saturated assms(2) by (auto simp: saturation_seen_def)
  ultimately show ?thesis using inc_saturated by (simp add: CRYPTO_refcount_inc_def)
next
  case (inc_exchanged j)
  then have "i = j" using assms(3,4) by (auto split: if_splits)
  then show ?thesis using inc_exchanged not_max_less by (simp add: CRYPTO_refcount_inc_def)
next
  case (dec_zero j)
  then show ?thesis using assms(3,4) by (auto split: if_splits)
next
  case (dec_saturated j)
  then have "i = j" using assms(3,4) by (auto split: if_splits)
  moreover have "count = CRYPTO_REFCOUNT_MAX" using dec_saturated assms(2) by (auto simp: saturation_seen_def)
  moreover have "r = False" using dec_saturated assms(4) \<open>i = j\<close> by simp
  ultimately show ?thesis using dec_saturated
    by (simp add: CRYPTO_refcount_dec_and_test_zero_def) (simp add: CRYPTO_REFCOUNT_MAX_def)
next
  case (dec_exchanged j)
  then have "i = j" using assms(3,4) by (auto split: if_splits)
  then show ?thesis using dec_exchanged not_max_less assms(4)
    by (simp add: CRYPTO_refcount_dec_and_test_zero_def)
qed

subsection \<open>The last release\<close>

definition release_inv :: "nat set \<Rightarrow> 32 word \<times> (nat \<Rightarrow> refcount_pc) \<Rightarrow> bool" where
  "release_inv T s \<longleftrightarrow> (case s of (count, pc) \<Rightarrow>
     unat count = card {i \<in> T. running (pc i)}
     \<and> (\<forall>i \<in> T. pc i \<noteq> Aborted \<and> (\<forall>e. pc i = Loop e \<longrightarrow> e \<noteq> 0 \<and> e < CRYPTO_REFCOUNT_MAX))
     \<and> (\<forall>i. i \<notin> T \<longrightarrow> pc i = Returned False)
     \<and> card {i \<in> T. pc i = Returned True} = (if count = 0 \<and> T \<noteq> {} then 1 else 0))"

lemma card_running_update:
  assumes "finite T" and "i \<in> T" and "running (pc i)"
  shows "running p \<Longrightarrow> card {j \<in> T. running ((pc(i := p)) j)} = card {j \<in> T. running (pc j)}"
    and "\<not> running p \<Longrightarrow> card {j \<in> T. running (pc j)} = Suc (card {j \<in> T. running ((pc(i := p)) j)})"
proof -
  have "{j \<in> T. running ((pc(i := p)) j)} = {j \<in> T. running (pc j)}" if "running p"
    using that assms by auto
  then show "running p \<Longrightarrow> card {j \<in> T. running ((pc(i := p)) j)} = card {j \<in> T. running (pc j)}" by simp
  have "{j \<in> T. running (pc j)} = insert i {j \<in> T. running ((pc(i := p)) j)}" if "\<not> running p"
    using that assms by auto
  then show "\<not> running p \<Longrightarrow> card {j \<in> T. running (pc j)} = Suc (card {j \<in> T. running ((pc(i := p)) j)})"
    using assms(1) by (simp add: card_insert_if)
qed

lemma release_inv_progress:
  assumes "release_inv T (count, pc)" and "finite T" and "i \<in> T" and "running (pc i)" and "card T < 2 ^ 32 - 1"
  shows "count \<noteq> 0" and "count < CRYPTO_REFCOUNT_MAX"
proof -
  have c: "unat count = card {i \<in> T. running (pc i)}" using assms(1) by (simp add: release_inv_def)
  have "0 < card {i \<in> T. running (pc i)}" using assms(2-4) by (auto simp: card_gt_0_iff)
  then show "count \<noteq> 0" unfolding c [symmetric] by auto
  have "card {i \<in> T. running (pc i)} \<le> card T" using assms(2) by (intro card_mono) auto
  then show "count < CRYPTO_REFCOUNT_MAX" using c assms(5) by (simp add: word_less_nat_alt CRYPTO_REFCOUNT_MAX_def)
qed

lemma release_inv_loop:
  assumes "release_inv T (count, pc)" and "finite T" and "running (pc j)" and "card T < 2 ^ 32 - 1"
  shows "release_inv T (count, pc(j := Loop count))"
proof -
  have j: "j \<in> T" using assms(1,3) by (auto simp: release_inv_def)
  have "{i \<in> T. (pc(j := Loop count)) i = Returned True} = {i \<in> T. pc i = Returned True}"
    using assms(3) by (auto split: if_splits)
  moreover have "count \<noteq> 0 \<and> count < CRYPTO_REFCOUNT_MAX"
    using release_inv_progress [OF assms(1,2) j assms(3,4)] by simp
  ultimately show ?thesis
    using assms(1) j card_running_update(1) [of T j pc "Loop count", OF assms(2) j assms(3)] by (simp add: release_inv_def)
qed

lemma release_inv_step:
  assumes "c11_step op (count, pc) (count', pc')" and inv: "release_inv T (count, pc)" and fin: "finite T"
    and dec: "\<forall>i \<in> T. op i = Dec" and small: "card T < 2 ^ 32 - 1"
  shows "release_inv T (count', pc')"
proof -
  have member: "j \<in> T" if "pc j = Loop e" for j e using inv that by (auto simp: release_inv_def)
  have loops: "e \<noteq> 0 \<and> e < CRYPTO_REFCOUNT_MAX" if "pc j = Loop e" for j e
    using inv that member [OF that] by (auto simp: release_inv_def)
  show ?thesis
    using assms(1)
  proof cases
    case (load j)
    then show ?thesis using release_inv_loop [OF inv fin _ small, of j] by simp
  next
    case (exchange_failed j e)
    then show ?thesis using release_inv_loop [OF inv fin _ small, of j] by simp
  next
    case (inc_saturated j)
    then show ?thesis using member [of j] dec by simp
  next
    case (inc_exchanged j)
    then show ?thesis using member [of j] dec by simp
  next
    case (dec_zero j)
    then show ?thesis using loops [of j] by simp
  next
    case (dec_saturated j)
    then show ?thesis using loops [of j] by simp
  next
    case (dec_exchanged j)
    have j: "j \<in> T" using dec_exchanged inv by (auto simp: release_inv_def)
    obtain p where p: "p = Returned (count - 1 = 0)" "pc' = pc(j := p)" using dec_exchanged by simp
    have run: "running (pc j)" using dec_exchanged by simp
    have "unat count = Suc (card {i \<in> T. running (pc' i)})"
      using card_running_update(2) [of T j pc p, OF fin j run] inv by (simp add: p release_inv_def)
    moreover have "unat (count - 1) = unat count - 1" using dec_exchanged by (intro unat_minus_one) simp
    ultimately have c: "unat count' = card {i \<in> T. running (pc' i)}" using dec_exchanged by simp
    have none: "{i \<in> T. pc i = Returned True} = {}" using inv dec_exchanged fin by (simp add: release_inv_def)
    have "{i \<in> T. pc' i = Returned True} = (if count - 1 = 0 then {j} else {})"
      using none j by (auto simp: p split: if_splits)
    then have t: "card {i \<in> T. pc' i = Returned True} = (if count' = 0 \<and> T \<noteq> {} then 1 else 0)"
      using dec_exchanged j by auto
    have "\<forall>i \<in> T. pc' i \<noteq> Aborted \<and> (\<forall>e. pc' i = Loop e \<longrightarrow> e \<noteq> 0 \<and> e < CRYPTO_REFCOUNT_MAX)"
      "\<forall>i. i \<notin> T \<longrightarrow> pc' i = Returned False"
      using inv j by (auto simp: p release_inv_def)
    with c t show ?thesis by (simp add: release_inv_def)
  qed
qed

lemma release_inv_run:
  assumes "(c11_step op)\<^sup>*\<^sup>* s s'" and "release_inv T s" and "finite T" and "\<forall>i \<in> T. op i = Dec" and "card T < 2 ^ 32 - 1"
  shows "release_inv T s'"
  using assms by (induction rule: rtranclp_induct) (auto intro: release_inv_step)

text \<open>Every schedule: nobody aborts, at most one thread sees zero, and when all have returned exactly one has.\<close>

lemma release_once:
  assumes run: "(c11_step op)\<^sup>*\<^sup>* (of_nat (card T), \<lambda>i. if i \<in> T then Start else Returned False) (count, pc)"
    and fin: "finite T" and dec: "\<forall>i \<in> T. op i = Dec" and small: "card T < 2 ^ 32 - 1"
  shows "(\<forall>i \<in> T. pc i \<noteq> Aborted) \<and> card {i \<in> T. pc i = Returned True} \<le> 1
    \<and> (T \<noteq> {} \<and> (\<forall>i \<in> T. \<not> running (pc i)) \<longrightarrow> count = 0 \<and> card {i \<in> T. pc i = Returned True} = 1)"
proof -
  have "unat (of_nat (card T) :: 32 word) = card T" using small by (intro unat_of_nat_lt) simp
  moreover from this have "of_nat (card T) = (0 :: 32 word) \<longleftrightarrow> T = {}" using fin by (metis card_0_eq unat_eq_0)
  ultimately have "release_inv T (of_nat (card T), \<lambda>i. if i \<in> T then Start else Returned False)"
    using fin by (auto simp: release_inv_def)
  from release_inv_run [OF run this fin dec small]
  have inv: "release_inv T (count, pc)" .
  have "count = 0" if "\<forall>i \<in> T. \<not> running (pc i)"
  proof -
    have "{i \<in> T. running (pc i)} = {}" using that by blast
    then have "card {i \<in> T. running (pc i)} = 0" by (simp only: card.empty)
    then show ?thesis using inv by (simp add: release_inv_def unat_eq_0)
  qed
  with inv show ?thesis by (auto simp: release_inv_def)
qed

subsection \<open>Progress\<close>

text \<open>A thread whose expected value is current, or that sees a saturated or zero counter, stops with its next step.\<close>

lemma current_stops:
  assumes "pc i = Loop e" and "e = count \<or> e = CRYPTO_REFCOUNT_MAX \<or> e = 0 \<and> op i = Dec"
  shows "\<exists>count' p. c11_step op (count, pc) (count', pc(i := p)) \<and> \<not> running p"
proof (cases "op i")
  case Inc
  show ?thesis
  proof (cases "e = CRYPTO_REFCOUNT_MAX")
    case True
    then show ?thesis using c11_step.inc_saturated [of pc i op count] assms(1) Inc running_simps(3) by blast
  next
    case False
    then have "pc i = Loop count" "count \<noteq> CRYPTO_REFCOUNT_MAX" using assms Inc by auto
    then show ?thesis using c11_step.inc_exchanged [of pc i count op] Inc running_simps(3) by blast
  qed
next
  case Dec
  consider "e = 0" | "e = CRYPTO_REFCOUNT_MAX" | "e = count" "e \<noteq> 0" "e \<noteq> CRYPTO_REFCOUNT_MAX" using assms(2) by blast
  then show ?thesis
  proof cases
    case 1
    then show ?thesis using c11_step.dec_zero [of pc i op count] assms(1) Dec running_simps(4) by blast
  next
    case 2
    then show ?thesis using c11_step.dec_saturated [of pc i op count] assms(1) Dec running_simps(3) by blast
  next
    case 3
    then show ?thesis using c11_step.dec_exchanged [of pc i count op] assms(1) Dec running_simps(3) by blast
  qed
qed

text \<open>
  A step of thread \<open>i\<close> that changes the state. What is left out are the other threads, and spurious
  failures of the weak exchange, which leave everything as it was.
\<close>

definition own_step :: "(nat \<Rightarrow> refcount_op) \<Rightarrow> nat \<Rightarrow> 32 word \<times> (nat \<Rightarrow> refcount_pc) \<Rightarrow> 32 word \<times> (nat \<Rightarrow> refcount_pc) \<Rightarrow> bool" where
  "own_step op i s s' \<longleftrightarrow> c11_step op s s' \<and> s' \<noteq> s \<and> (\<forall>j. j \<noteq> i \<longrightarrow> snd s' j = snd s j)"

text \<open>How many steps a thread may need: none once stopped, one where its exchange succeeds or it gives up, else two.\<close>

definition steps_left :: "(nat \<Rightarrow> refcount_op) \<Rightarrow> nat \<Rightarrow> 32 word \<times> (nat \<Rightarrow> refcount_pc) \<Rightarrow> nat" where
  "steps_left op i s = (case snd s i of
      Start \<Rightarrow> 2
    | Loop e \<Rightarrow> if e = fst s \<or> e = CRYPTO_REFCOUNT_MAX \<or> e = 0 \<and> op i = Dec then 1 else 2
    | _ \<Rightarrow> 0)"

lemma own_step_progress: "own_step op i s s' \<Longrightarrow> steps_left op i s' < steps_left op i s"
proof -
  assume own: "own_step op i s s'"
  obtain c pc c' pc' where s: "s = (c, pc)" "s' = (c', pc')" by (cases s, cases s')
  have step: "c11_step op (c, pc) (c', pc')" and ne: "(c', pc') \<noteq> (c, pc)" and other: "\<And>j. j \<noteq> i \<Longrightarrow> pc' j = pc j"
    using own by (auto simp: own_step_def s)
  from step show ?thesis
  proof cases
    case (load j)
    then have "j = i" using other [of j] ne by (auto split: if_splits)
    then show ?thesis using load by (simp add: s steps_left_def)
  next
    case (exchange_failed j e)
    have "e \<noteq> c" using ne exchange_failed by (metis fun_upd_triv)
    then have "j = i" using other [of j] exchange_failed by (auto split: if_splits)
    then show ?thesis using exchange_failed \<open>e \<noteq> c\<close> by (auto simp: s steps_left_def)
  next
    case (inc_saturated j)
    then have "j = i" using other [of j] by (auto split: if_splits)
    then show ?thesis using inc_saturated by (simp add: s steps_left_def)
  next
    case (inc_exchanged j)
    then have "j = i" using other [of j] by (auto split: if_splits)
    then show ?thesis using inc_exchanged by (simp add: s steps_left_def)
  next
    case (dec_zero j)
    then have "j = i" using other [of j] by (auto split: if_splits)
    then show ?thesis using dec_zero by (simp add: s steps_left_def)
  next
    case (dec_saturated j)
    then have "j = i" using other [of j] by (auto split: if_splits)
    then show ?thesis using dec_saturated by (simp add: s steps_left_def)
  next
    case (dec_exchanged j)
    then have "j = i" using other [of j] by (auto split: if_splits)
    then show ?thesis using dec_exchanged by (simp add: s steps_left_def)
  qed
qed

lemma own_steps_bounded: "(own_step op i ^^ k) s s' \<Longrightarrow> k \<le> 2"
proof -
  have "(own_step op i ^^ k) s s' \<Longrightarrow> k + steps_left op i s' \<le> steps_left op i s" for s'
  proof (induction k arbitrary: s')
    case (Suc k)
    then obtain s1 where "(own_step op i ^^ k) s s1" "own_step op i s1 s'" by auto
    with Suc.IH [of s1] own_step_progress [of op i s1 s'] show ?case by simp
  qed simp
  moreover have "steps_left op i s \<le> 2" by (simp add: steps_left_def split: refcount_pc.split)
  ultimately show "(own_step op i ^^ k) s s' \<Longrightarrow> k \<le> 2" by fastforce
qed

lemma own_step_possible:
  assumes "running (pc i)"
  shows "\<exists>s'. own_step op i (c, pc) s'"
proof -
  have own: "own_step op i (c, pc) (c', pc(i := p))" if "c11_step op (c, pc) (c', pc(i := p))" "p \<noteq> pc i" for c' p
    using that by (auto simp: own_step_def dest: fun_cong [of _ _ i])
  show ?thesis
  proof (cases "pc i")
    case Start
    then show ?thesis using own [OF c11_step.load] by auto
  next
    case (Loop e)
    show ?thesis
    proof (cases "e = c \<or> e = CRYPTO_REFCOUNT_MAX \<or> e = 0 \<and> op i = Dec")
      case True
      from current_stops [of pc i e c op, OF Loop True] obtain c' p where "c11_step op (c, pc) (c', pc(i := p))" "\<not> running p" by blast
      then show ?thesis using own Loop by (metis running_simps(2))
    next
      case False
      then show ?thesis using own [OF c11_step.exchange_failed [of pc i e op c]] Loop by auto
    qed
  qed (use assms in simp_all)
qed

end
