(* ===== verification/Bio.thy ===== *)
theory Bio
  imports Mem Refcount
begin

text \<open>
  BIOs (\<open>crypto/bio/bio.c\<close>). A \<open>BIO *\<close> is an address of the store, which maps addresses to the
  fields of \<open>struct bio_st\<close>; \<open>NULL\<close> is \<open>None\<close>. \<open>ptr\<close> points to the private data of the method, of
  type \<open>'p\<close>, and is owned by the BIO. \<open>bio->method\<close> never changes after \<open>BIO_new\<close> and is an argument
  of the dispatching functions. A result \<open>None\<close> is a failed \<open>assert\<close> or a bad dereference.
\<close>

record 'p BIO =
  init :: bool
  shutdown :: int
  flags :: "32 word"
  retry_reason :: int
  references :: "32 word"
  ptr :: "'p option"
  next_bio :: "nat option"
  num_read :: nat
  num_write :: nat

type_synonym 'p store = "nat \<Rightarrow> 'p BIO option"

record 'p BIO_METHOD =
  mtype :: "32 word"
  bwrite :: "(nat \<Rightarrow> byte list option \<Rightarrow> int \<Rightarrow> 'p store \<Rightarrow> (int \<times> 'p store) option) option"
  bread :: "(nat \<Rightarrow> bool \<Rightarrow> int \<Rightarrow> 'p store \<Rightarrow> (int \<times> byte list \<times> 'p store) option) option"
  bgets :: "(nat \<Rightarrow> int \<Rightarrow> 'p store \<Rightarrow> (int \<times> byte list \<times> 'p store) option) option"
  create :: "('p BIO \<Rightarrow> bool \<times> 'p BIO) option"
  destroy :: "(nat \<Rightarrow> 'p store \<Rightarrow> (int \<times> 'p store) option) option"
  ctrl :: "(nat \<Rightarrow> int \<Rightarrow> int \<Rightarrow> nat option \<Rightarrow> 'p store \<Rightarrow> (int \<times> 'p store) option) option"

definition BIO_FLAGS_READ :: "32 word" where
  "BIO_FLAGS_READ = 0x01"

definition BIO_FLAGS_WRITE :: "32 word" where
  "BIO_FLAGS_WRITE = 0x02"

definition BIO_FLAGS_IO_SPECIAL :: "32 word" where
  "BIO_FLAGS_IO_SPECIAL = 0x04"

definition BIO_FLAGS_RWS :: "32 word" where
  "BIO_FLAGS_RWS = BIO_FLAGS_READ OR BIO_FLAGS_WRITE OR BIO_FLAGS_IO_SPECIAL"

definition BIO_FLAGS_SHOULD_RETRY :: "32 word" where
  "BIO_FLAGS_SHOULD_RETRY = 0x08"

definition BIO_set_flags :: "'p BIO \<Rightarrow> 32 word \<Rightarrow> 'p BIO" where
  "BIO_set_flags bio fl = bio\<lparr>flags := flags bio OR fl\<rparr>"

definition BIO_test_flags :: "'p BIO \<Rightarrow> 32 word \<Rightarrow> 32 word" where
  "BIO_test_flags bio fl = flags bio AND fl"

definition BIO_should_read :: "'p BIO \<Rightarrow> 32 word" where
  "BIO_should_read bio = BIO_test_flags bio BIO_FLAGS_READ"

definition BIO_should_write :: "'p BIO \<Rightarrow> 32 word" where
  "BIO_should_write bio = BIO_test_flags bio BIO_FLAGS_WRITE"

definition BIO_should_retry :: "'p BIO \<Rightarrow> 32 word" where
  "BIO_should_retry bio = BIO_test_flags bio BIO_FLAGS_SHOULD_RETRY"

definition BIO_should_io_special :: "'p BIO \<Rightarrow> 32 word" where
  "BIO_should_io_special bio = BIO_test_flags bio BIO_FLAGS_IO_SPECIAL"

definition BIO_clear_flags :: "'p BIO \<Rightarrow> 32 word \<Rightarrow> 'p BIO" where
  "BIO_clear_flags bio fl = bio\<lparr>flags := flags bio AND NOT fl\<rparr>"

definition BIO_set_retry_read :: "'p BIO \<Rightarrow> 'p BIO" where
  "BIO_set_retry_read bio = bio\<lparr>flags := flags bio OR (BIO_FLAGS_READ OR BIO_FLAGS_SHOULD_RETRY)\<rparr>"

definition BIO_set_retry_write :: "'p BIO \<Rightarrow> 'p BIO" where
  "BIO_set_retry_write bio = bio\<lparr>flags := flags bio OR (BIO_FLAGS_WRITE OR BIO_FLAGS_SHOULD_RETRY)\<rparr>"

definition kRetryFlags :: "32 word" where
  "kRetryFlags = BIO_FLAGS_RWS OR BIO_FLAGS_SHOULD_RETRY"

definition BIO_get_retry_flags :: "'p BIO \<Rightarrow> 32 word" where
  "BIO_get_retry_flags bio = flags bio AND kRetryFlags"

definition BIO_clear_retry_flags :: "'p BIO \<Rightarrow> 'p BIO" where
  "BIO_clear_retry_flags bio = bio\<lparr>flags := flags bio AND NOT kRetryFlags, retry_reason := 0\<rparr>"

subsection \<open>Dispatch\<close>

definition BIO_read :: "'p BIO_METHOD option \<Rightarrow> nat option \<Rightarrow> bool \<Rightarrow> int \<Rightarrow> 'p store \<Rightarrow> (int \<times> byte list \<times> 'p store) option" where
  "BIO_read method bio buf len st =
    (case (bio, method) of
       (Some x, Some m) \<Rightarrow>
         (case bread m of
            None \<Rightarrow> Some (- 2, [], st)
          | Some rd \<Rightarrow>
              (case st x of
                 None \<Rightarrow> None
               | Some B \<Rightarrow>
                   if \<not> init B then Some (- 2, [], st)
                   else if len \<le> 0 then Some (0, [], st)
                   else case rd x buf len st of
                       None \<Rightarrow> None
                     | Some (ret, bs, st1) \<Rightarrow>
                         if ret > 0 then
                           (case st1 x of
                              None \<Rightarrow> None
                            | Some B1 \<Rightarrow> Some (ret, bs, st1(x \<mapsto> B1\<lparr>num_read := size_t (num_read B1 + nat ret)\<rparr>)))
                         else Some (ret, bs, st1)))
     | _ \<Rightarrow> Some (- 2, [], st))"

definition BIO_write :: "'p BIO_METHOD option \<Rightarrow> nat option \<Rightarrow> byte list option \<Rightarrow> int \<Rightarrow> 'p store \<Rightarrow> (int \<times> 'p store) option" where
  "BIO_write method bio inp inl st =
    (case (bio, method) of
       (Some x, Some m) \<Rightarrow>
         (case bwrite m of
            None \<Rightarrow> Some (- 2, st)
          | Some wr \<Rightarrow>
              (case st x of
                 None \<Rightarrow> None
               | Some B \<Rightarrow>
                   if \<not> init B then Some (- 2, st)
                   else if inl \<le> 0 then Some (0, st)
                   else case wr x inp inl st of
                       None \<Rightarrow> None
                     | Some (ret, st1) \<Rightarrow>
                         if ret > 0 then
                           (case st1 x of
                              None \<Rightarrow> None
                            | Some B1 \<Rightarrow> Some (ret, st1(x \<mapsto> B1\<lparr>num_write := size_t (num_write B1 + nat ret)\<rparr>)))
                         else Some (ret, st1)))
     | _ \<Rightarrow> Some (- 2, st))"

definition BIO_ctrl :: "'p BIO_METHOD option \<Rightarrow> nat option \<Rightarrow> int \<Rightarrow> int \<Rightarrow> nat option \<Rightarrow> 'p store \<Rightarrow> (int \<times> 'p store) option" where
  "BIO_ctrl method bio cmd larg parg st =
    (case bio of
       None \<Rightarrow> Some (0, st)
     | Some x \<Rightarrow>
         (case Option.bind method ctrl of
            None \<Rightarrow> Some (- 2, st)
          | Some ct \<Rightarrow> ct x cmd larg parg st))"

definition BIO_CTRL_RESET :: int where
  "BIO_CTRL_RESET = 1"

definition BIO_CTRL_EOF :: int where
  "BIO_CTRL_EOF = 2"

definition BIO_CTRL_SET_CLOSE :: int where
  "BIO_CTRL_SET_CLOSE = 9"

definition BIO_CTRL_PENDING :: int where
  "BIO_CTRL_PENDING = 10"

definition BIO_CTRL_FLUSH :: int where
  "BIO_CTRL_FLUSH = 11"

definition BIO_CTRL_WPENDING :: int where
  "BIO_CTRL_WPENDING = 13"

definition BIO_flush :: "'p BIO_METHOD option \<Rightarrow> nat option \<Rightarrow> 'p store \<Rightarrow> (int \<times> 'p store) option" where
  "BIO_flush method bio st = BIO_ctrl method bio BIO_CTRL_FLUSH 0 None st"

definition BIO_reset :: "'p BIO_METHOD option \<Rightarrow> nat option \<Rightarrow> 'p store \<Rightarrow> (int \<times> 'p store) option" where
  "BIO_reset method bio st = BIO_ctrl method bio BIO_CTRL_RESET 0 None st"

definition BIO_eof :: "'p BIO_METHOD option \<Rightarrow> nat option \<Rightarrow> 'p store \<Rightarrow> (int \<times> 'p store) option" where
  "BIO_eof method bio st = BIO_ctrl method bio BIO_CTRL_EOF 0 None st"

definition BIO_set_close :: "'p BIO_METHOD option \<Rightarrow> nat option \<Rightarrow> int \<Rightarrow> 'p store \<Rightarrow> (int \<times> 'p store) option" where
  "BIO_set_close method bio close_flag st = BIO_ctrl method bio BIO_CTRL_SET_CLOSE close_flag None st"

definition BIO_pending :: "'p BIO_METHOD option \<Rightarrow> nat option \<Rightarrow> 'p store \<Rightarrow> nat option" where
  "BIO_pending method bio st =
    (case BIO_ctrl method bio BIO_CTRL_PENDING 0 None st of
       None \<Rightarrow> None
     | Some (r, _) \<Rightarrow> if \<not> r \<ge> 0 then None else Some (nat r))"

definition BIO_wpending :: "'p BIO_METHOD option \<Rightarrow> nat option \<Rightarrow> 'p store \<Rightarrow> nat option" where
  "BIO_wpending method bio st =
    (case BIO_ctrl method bio BIO_CTRL_WPENDING 0 None st of
       None \<Rightarrow> None
     | Some (r, _) \<Rightarrow> if \<not> r \<ge> 0 then None else Some (nat r))"

subsection \<open>Creation and release\<close>

text \<open>\<open>addr\<close> is what \<open>OPENSSL_malloc\<close> returned for the new \<open>BIO\<close>.\<close>

definition BIO_new :: "'p BIO_METHOD \<Rightarrow> nat option \<Rightarrow> 'p store \<Rightarrow> nat option \<times> 'p store" where
  "BIO_new method addr st =
    (case addr of
       None \<Rightarrow> (None, st)
     | Some x \<Rightarrow>
         let ret = \<lparr>init = False, shutdown = 1, flags = 0, retry_reason = 0, references = 1, ptr = None, next_bio = None,
               num_read = 0, num_write = 0\<rparr>
         in case create method of
              None \<Rightarrow> (Some x, st(x \<mapsto> ret))
            | Some f \<Rightarrow> (case f ret of (False, _) \<Rightarrow> (None, st) | (True, ret1) \<Rightarrow> (Some x, st(x \<mapsto> ret1))))"

definition BIO_up_ref :: "nat \<Rightarrow> 'p store \<Rightarrow> (int \<times> 'p store) option" where
  "BIO_up_ref bio st = (case st bio of None \<Rightarrow> None
     | Some B \<Rightarrow> Some (1, st(bio \<mapsto> B\<lparr>references := CRYPTO_refcount_inc (references B)\<rparr>)))"

definition BIO_pop :: "nat option \<Rightarrow> 'p store \<Rightarrow> (nat option \<times> 'p store) option" where
  "BIO_pop bio st = (case bio of None \<Rightarrow> Some (None, st)
     | Some x \<Rightarrow> (case st x of None \<Rightarrow> None | Some B \<Rightarrow> Some (next_bio B, st(x \<mapsto> B\<lparr>next_bio := None\<rparr>))))"

definition BIO_next :: "nat option \<Rightarrow> 'p store \<Rightarrow> nat option option" where
  "BIO_next bio st = (case bio of None \<Rightarrow> Some None | Some x \<Rightarrow> map_option next_bio (st x))"

text \<open>
  \<open>BIO_free\<close> releases one reference of each BIO of the chain; the fuel bounds its length. \<open>methods x\<close>
  is \<open>method\<close> of the BIO at \<open>x\<close>.
\<close>

primrec BIO_free :: "nat \<Rightarrow> (nat \<Rightarrow> 'p BIO_METHOD option) \<Rightarrow> nat option \<Rightarrow> 'p store \<Rightarrow> (int \<times> 'p store) option" where
  "BIO_free 0 methods bio st = (if bio = None then Some (1, st) else None)"
| "BIO_free (Suc n) methods bio st =
    (case bio of None \<Rightarrow> Some (1, st)
     | Some x \<Rightarrow> (case st x of None \<Rightarrow> None
       | Some B \<Rightarrow> (case CRYPTO_refcount_dec_and_test_zero (references B) of
           None \<Rightarrow> None
         | Some (zero, references') \<Rightarrow>
             let st1 = st(x \<mapsto> B\<lparr>references := references'\<rparr>)
             in if \<not> zero then Some (0, st1)
                else (case BIO_pop (Some x) st1 of None \<Rightarrow> None
                  | Some (next, st2) \<Rightarrow>
                      (case (case Option.bind (methods x) destroy of None \<Rightarrow> Some (1, st2) | Some f \<Rightarrow> f x st2) of
                         None \<Rightarrow> None
                       | Some (_, st3) \<Rightarrow> BIO_free n methods next (st3(x := None)))))))"

text \<open>
  \<open>BIO_write_all\<close>: a positive result of \<open>BIO_write\<close> is at most the length it was given, so the
  loop ends; the fuel is that length. (A method that accepts more than it was given would read past
  the data; then the model stops with \<open>None\<close>.)
\<close>

fun BIO_write_all_loop :: "nat \<Rightarrow> 'p BIO_METHOD option \<Rightarrow> nat option \<Rightarrow> byte list \<Rightarrow> 'p store \<Rightarrow> (int \<times> 'p store) option" where
  "BIO_write_all_loop 0 method bio bs st = (if bs = [] then Some (1, st) else None)"
| "BIO_write_all_loop (Suc n) method bio bs st =
    (if bs = [] then Some (1, st)
     else case BIO_write method bio (Some bs) (if length bs > 2 ^ 31 - 1 then 2 ^ 31 - 1 else int (length bs)) st of
         None \<Rightarrow> None
       | Some (ret, st1) \<Rightarrow>
           if ret \<le> 0 then Some (0, st1)
           else if nat ret > length bs then None
           else BIO_write_all_loop n method bio (drop (nat ret) bs) st1)"

definition BIO_write_all :: "'p BIO_METHOD option \<Rightarrow> nat option \<Rightarrow> byte list \<Rightarrow> 'p store \<Rightarrow> (int \<times> 'p store) option" where
  "BIO_write_all method bio bs st = BIO_write_all_loop (length bs) method bio bs st"

subsection \<open>Text, chains and types\<close>

definition BIO_gets :: "'p BIO_METHOD option \<Rightarrow> nat option \<Rightarrow> int \<Rightarrow> 'p store \<Rightarrow> (int \<times> byte list \<times> 'p store) option" where
  "BIO_gets method bio len st =
    (case (bio, method) of
       (Some x, Some m) \<Rightarrow>
         (case bgets m of
            None \<Rightarrow> Some (- 2, [], st)
          | Some gt \<Rightarrow>
              (case st x of
                 None \<Rightarrow> None
               | Some B \<Rightarrow>
                   if \<not> init B then Some (- 2, [], st)
                   else if len \<le> 0 then Some (0, [], st)
                   else case gt x len st of
                       None \<Rightarrow> None
                     | Some (ret, bs, st1) \<Rightarrow>
                         if ret > 0 then
                           (case st1 x of
                              None \<Rightarrow> None
                            | Some B1 \<Rightarrow> Some (ret, bs, st1(x \<mapsto> B1\<lparr>num_read := size_t (num_read B1 + nat ret)\<rparr>)))
                         else Some (ret, bs, st1)))
     | _ \<Rightarrow> Some (- 2, [], st))"

text \<open>A \<open>size_t\<close> passed as an \<open>int\<close>.\<close>

definition int_of_size :: "nat \<Rightarrow> int" where
  "int_of_size n = sint (word_of_nat n :: 32 word)"

definition BIO_puts :: "'p BIO_METHOD option \<Rightarrow> nat option \<Rightarrow> byte list \<Rightarrow> 'p store \<Rightarrow> (int \<times> 'p store) option" where
  "BIO_puts method bio str st = (case c_strlen str of None \<Rightarrow> None
     | Some n \<Rightarrow> BIO_write method bio (Some (take n str)) (int_of_size n) st)"

text \<open>\<open>indent--\<close> until 0; 32 is the space.\<close>

primrec BIO_indent_loop :: "nat \<Rightarrow> 'p BIO_METHOD option \<Rightarrow> nat option \<Rightarrow> 'p store \<Rightarrow> (int \<times> 'p store) option" where
  "BIO_indent_loop 0 method bio st = Some (1, st)"
| "BIO_indent_loop (Suc n) method bio st = (case BIO_puts method bio [32, 0] st of
       None \<Rightarrow> None
     | Some (ret, st1) \<Rightarrow> if ret \<noteq> 1 then Some (0, st1) else BIO_indent_loop n method bio st1)"

definition BIO_indent :: "'p BIO_METHOD option \<Rightarrow> nat option \<Rightarrow> nat \<Rightarrow> nat \<Rightarrow> 'p store \<Rightarrow> (int \<times> 'p store) option" where
  "BIO_indent method bio indent max_indent st = BIO_indent_loop (if indent > max_indent then max_indent else indent) method bio st"

text \<open>The last BIO of the chain from \<open>x\<close> on; the fuel bounds the length of the chain.\<close>

primrec last_of_chain :: "nat \<Rightarrow> nat \<Rightarrow> 'p store \<Rightarrow> nat option" where
  "last_of_chain 0 x st = None"
| "last_of_chain (Suc n) x st = (case st x of None \<Rightarrow> None
     | Some B \<Rightarrow> (case next_bio B of None \<Rightarrow> Some x | Some y \<Rightarrow> last_of_chain n y st))"

definition BIO_push :: "nat \<Rightarrow> nat option \<Rightarrow> nat option \<Rightarrow> 'p store \<Rightarrow> (nat option \<times> 'p store) option" where
  "BIO_push fuel bio appended_bio st = (case bio of None \<Rightarrow> Some (None, st)
     | Some x \<Rightarrow> (case last_of_chain fuel x st of None \<Rightarrow> None
       | Some z \<Rightarrow> (case st z of None \<Rightarrow> None
         | Some B \<Rightarrow> Some (Some x, st(z \<mapsto> B\<lparr>next_bio := appended_bio\<rparr>)))))"

primrec BIO_find_type :: "nat \<Rightarrow> (nat \<Rightarrow> 'p BIO_METHOD option) \<Rightarrow> nat option \<Rightarrow> 32 word \<Rightarrow> 'p store \<Rightarrow> nat option option" where
  "BIO_find_type 0 methods bio type st = (if bio = None then Some None else None)"
| "BIO_find_type (Suc n) methods bio type st = (case bio of None \<Rightarrow> Some None
     | Some x \<Rightarrow> (case st x of None \<Rightarrow> None
       | Some B \<Rightarrow>
           (case methods x of
              None \<Rightarrow> BIO_find_type n methods (next_bio B) type st
            | Some m \<Rightarrow>
                if (if type AND 0xff = 0 then mtype m AND type \<noteq> 0 else mtype m = type) then Some (Some x)
                else BIO_find_type n methods (next_bio B) type st)))"

definition BIO_copy_next_retry :: "nat \<Rightarrow> 'p store \<Rightarrow> 'p store option" where
  "BIO_copy_next_retry bio st = (case st bio of None \<Rightarrow> None
     | Some B \<Rightarrow> (case Option.bind (next_bio B) st of None \<Rightarrow> None
       | Some N \<Rightarrow> Some (st(bio \<mapsto>
           (BIO_set_flags (BIO_clear_retry_flags B) (BIO_get_retry_flags N))\<lparr>retry_reason := retry_reason N\<rparr>))))"

definition BIO_set_retry_special :: "'p BIO \<Rightarrow> 'p BIO" where
  "BIO_set_retry_special bio = bio\<lparr>flags := flags bio OR (BIO_FLAGS_READ OR BIO_FLAGS_IO_SPECIAL)\<rparr>"

definition BIO_ctrl_pending :: "'p BIO_METHOD option \<Rightarrow> nat option \<Rightarrow> 'p store \<Rightarrow> nat option" where
  "BIO_ctrl_pending method bio st = BIO_pending method bio st"

definition BIO_number_read :: "'p BIO \<Rightarrow> nat" where
  "BIO_number_read bio = num_read bio"

definition BIO_number_written :: "'p BIO \<Rightarrow> nat" where
  "BIO_number_written bio = num_write bio"

text \<open>\<open>g_index\<close> is the argument and the second component of the result.\<close>

definition BIO_get_new_index :: "int \<Rightarrow> int \<times> int" where
  "BIO_get_new_index g_index = (if g_index > 255 then (- 1, g_index) else (g_index, g_index + 1))"

subsection \<open>Access to the fields\<close>

text \<open>The code only tests whether \<open>init\<close> is zero; so does the model.\<close>

definition BIO_set_data :: "'p BIO \<Rightarrow> 'p option \<Rightarrow> 'p BIO" where
  "BIO_set_data bio p = bio\<lparr>ptr := p\<rparr>"

definition BIO_get_data :: "'p BIO \<Rightarrow> 'p option" where
  "BIO_get_data bio = ptr bio"

definition BIO_set_init :: "'p BIO \<Rightarrow> int \<Rightarrow> 'p BIO" where
  "BIO_set_init bio i = bio\<lparr>init := i \<noteq> 0\<rparr>"

definition BIO_get_init :: "'p BIO \<Rightarrow> bool" where
  "BIO_get_init bio = init bio"

definition BIO_set_shutdown :: "'p BIO \<Rightarrow> int \<Rightarrow> 'p BIO" where
  "BIO_set_shutdown bio s = bio\<lparr>shutdown := s\<rparr>"

definition BIO_get_shutdown :: "'p BIO \<Rightarrow> int" where
  "BIO_get_shutdown bio = shutdown bio"

definition BIO_get_retry_reason :: "'p BIO \<Rightarrow> int" where
  "BIO_get_retry_reason bio = retry_reason bio"

definition BIO_set_write_buffer_size :: "'p BIO \<Rightarrow> int \<Rightarrow> int" where
  "BIO_set_write_buffer_size bio buffer_size = 0"

text \<open>\<open>method->name\<close> and \<open>callback_ctrl\<close> are not part of the record.\<close>

definition BIO_meth_new :: "'a option \<Rightarrow> 32 word \<Rightarrow> 'p BIO_METHOD option" where
  "BIO_meth_new block type = (case block of None \<Rightarrow> None
     | Some _ \<Rightarrow> Some \<lparr>mtype = type, bwrite = None, bread = None, bgets = None, create = None, destroy = None, ctrl = None\<rparr>)"

definition BIO_meth_set_create :: "'p BIO_METHOD \<Rightarrow> ('p BIO \<Rightarrow> bool \<times> 'p BIO) option \<Rightarrow> int \<times> 'p BIO_METHOD" where
  "BIO_meth_set_create method f = (1, method\<lparr>create := f\<rparr>)"

definition BIO_meth_set_destroy :: "'p BIO_METHOD \<Rightarrow> (nat \<Rightarrow> 'p store \<Rightarrow> (int \<times> 'p store) option) option \<Rightarrow> int \<times> 'p BIO_METHOD" where
  "BIO_meth_set_destroy method f = (1, method\<lparr>destroy := f\<rparr>)"

definition BIO_meth_set_write :: "'p BIO_METHOD \<Rightarrow> (nat \<Rightarrow> byte list option \<Rightarrow> int \<Rightarrow> 'p store \<Rightarrow> (int \<times> 'p store) option) option \<Rightarrow> int \<times> 'p BIO_METHOD" where
  "BIO_meth_set_write method f = (1, method\<lparr>bwrite := f\<rparr>)"

definition BIO_meth_set_read :: "'p BIO_METHOD \<Rightarrow> (nat \<Rightarrow> bool \<Rightarrow> int \<Rightarrow> 'p store \<Rightarrow> (int \<times> byte list \<times> 'p store) option) option \<Rightarrow> int \<times> 'p BIO_METHOD" where
  "BIO_meth_set_read method f = (1, method\<lparr>bread := f\<rparr>)"

definition BIO_meth_set_gets :: "'p BIO_METHOD \<Rightarrow> (nat \<Rightarrow> int \<Rightarrow> 'p store \<Rightarrow> (int \<times> byte list \<times> 'p store) option) option \<Rightarrow> int \<times> 'p BIO_METHOD" where
  "BIO_meth_set_gets method f = (1, method\<lparr>bgets := f\<rparr>)"

definition BIO_meth_set_ctrl :: "'p BIO_METHOD \<Rightarrow> (nat \<Rightarrow> int \<Rightarrow> int \<Rightarrow> nat option \<Rightarrow> 'p store \<Rightarrow> (int \<times> 'p store) option) option \<Rightarrow> int \<times> 'p BIO_METHOD" where
  "BIO_meth_set_ctrl method f = (1, method\<lparr>ctrl := f\<rparr>)"

end
