(* ===== verification/Bio_Pair.thy ===== *)
theory Bio_Pair
  imports Bio
begin

text \<open>
  BIO pairs (\<open>crypto/bio/pair.c\<close>): two BIOs, each with a ring buffer for what is written to it and
  read by the other. \<open>peer\<close> is the address of the other BIO. The abstract view of one direction is a
  bounded byte queue; the ring buffer refines it, and the two directions do not disturb each other.
\<close>

record bio_bio_st =
  peer :: "nat option"
  closed :: bool
  len :: nat
  offset :: nat
  size :: nat
  buf :: "byte list option"
  request :: nat

type_synonym pair_store = "bio_bio_st store"

definition bio_new :: "allocator \<Rightarrow> bio_bio_st BIO \<Rightarrow> (bool \<times> bio_bio_st BIO)" where
  "bio_new malloc bio =
    (if OPENSSL_malloc malloc 56 = None then (False, bio)
     else (True, bio\<lparr>ptr := Some \<lparr>peer = None, closed = False, len = 0, offset = 0, size = 17 * 1024, buf = None, request = 0\<rparr>\<rparr>))"

definition bio_destroy_pair :: "nat \<Rightarrow> pair_store \<Rightarrow> pair_store option" where
  "bio_destroy_pair bio st =
    (case st bio of None \<Rightarrow> None
     | Some B \<Rightarrow> (case ptr B of
         None \<Rightarrow> Some st
       | Some b \<Rightarrow> (case peer b of
           None \<Rightarrow> Some st
         | Some peer_bio \<Rightarrow> (case st peer_bio of
             None \<Rightarrow> None
           | Some P \<Rightarrow> (case ptr P of
               None \<Rightarrow> None
             | Some peer_b \<Rightarrow>
                 if peer peer_b \<noteq> Some bio \<or> buf peer_b = None \<or> buf b = None then None
                 else let st1 = st(peer_bio \<mapsto> P\<lparr>ptr := Some (peer_b\<lparr>peer := None, len := 0, offset := 0\<rparr>), init := False\<rparr>)
                   in (case st1 bio of None \<Rightarrow> None
                       | Some B1 \<Rightarrow> Some (st1(bio \<mapsto>
                           B1\<lparr>ptr := Some ((the (ptr B1))\<lparr>peer := None, len := 0, offset := 0\<rparr>), init := False\<rparr>))))))))"

definition bio_free :: "nat option \<Rightarrow> pair_store \<Rightarrow> (int \<times> pair_store) option" where
  "bio_free bio st =
    (case bio of None \<Rightarrow> Some (0, st)
     | Some x \<Rightarrow> (case Option.bind (st x) ptr of
         None \<Rightarrow> None
       | Some b \<Rightarrow>
           (case (if peer b \<noteq> None then bio_destroy_pair x st else Some st) of
              None \<Rightarrow> None
            | Some st1 \<Rightarrow> (case st1 x of None \<Rightarrow> None
                | Some B \<Rightarrow> Some (1, st1(x \<mapsto> B\<lparr>ptr := None\<rparr>))))))"

text \<open>
  The copying loop of \<open>bio_read\<close>, on the peer's buffer: the bytes copied so far and the bytes still
  to copy. Each \<open>assert\<close> is a test; the fuel bounds the number of iterations.
\<close>

primrec read_loop :: "nat \<Rightarrow> nat \<Rightarrow> bio_bio_st \<Rightarrow> byte list \<Rightarrow> (bio_bio_st \<times> byte list) option" where
  "read_loop 0 rest b out = None"
| "read_loop (Suc fuel) rest b out =
    (if \<not> rest \<le> len b then None
     else let chunk = (if offset b + rest \<le> size b then rest else size b - offset b) in
       if \<not> offset b + chunk \<le> size b then None
       else let out1 = out @ take chunk (drop (offset b) (the (buf b)));
                b1 = b\<lparr>len := len b - chunk\<rparr>
         in if len b1 \<noteq> 0 then
              let b2 = b1\<lparr>offset := offset b1 + chunk\<rparr>;
                  b3 = (if offset b2 = size b2 then b2\<lparr>offset := 0\<rparr> else b2)
              in if \<not> offset b2 \<le> size b2 then None
                 else if rest - chunk \<noteq> 0 then read_loop fuel (rest - chunk) b3 out1 else Some (b3, out1)
            else if chunk \<noteq> rest then None
            else Some (b1\<lparr>offset := 0\<rparr>, out1))"

definition bio_read :: "nat \<Rightarrow> bool \<Rightarrow> int \<Rightarrow> pair_store \<Rightarrow> (int \<times> byte list \<times> pair_store) option" where
  "bio_read bio bufp size0 st =
    (let sz = nat (size0 mod 2 ^ 64) in
     case st bio of None \<Rightarrow> None
     | Some B0 \<Rightarrow>
       (let B = BIO_clear_retry_flags B0; st0 = st(bio \<mapsto> B) in
        if \<not> init B then Some (0, [], st0)
        else case Option.bind (ptr B) peer of None \<Rightarrow> None
        | Some peer_bio \<Rightarrow>
          (case st0 peer_bio of None \<Rightarrow> None
           | Some P \<Rightarrow>
             (case ptr P of None \<Rightarrow> None
              | Some peer_b0 \<Rightarrow>
                if buf peer_b0 = None then None
                else let peer_b = peer_b0\<lparr>request := 0\<rparr>;
                         st1 = st0(peer_bio \<mapsto> P\<lparr>ptr := Some peer_b\<rparr>)
                  in if \<not> bufp \<or> sz = 0 then Some (0, [], st1)
                     else if len peer_b = 0 then
                       (if closed peer_b then Some (0, [], st1)
                        else let st2 = st1(bio := map_option BIO_set_retry_read (st1 bio));
                                 want = (if sz \<le> size peer_b then sz else size peer_b)
                          in Some (- 1, [], st2(peer_bio := map_option (\<lambda>P. P\<lparr>ptr := Some (peer_b\<lparr>request := want\<rparr>)\<rparr>) (st2 peer_bio))))
                     else let n = (if len peer_b < sz then len peer_b else sz)
                       in case read_loop (n + 1) n peer_b [] of None \<Rightarrow> None
                          | Some (peer_b1, out) \<Rightarrow> Some (int n, out, st1(peer_bio \<mapsto> P\<lparr>ptr := Some peer_b1\<rparr>))))))"

primrec write_loop :: "nat \<Rightarrow> nat \<Rightarrow> bio_bio_st \<Rightarrow> byte list \<Rightarrow> bio_bio_st option" where
  "write_loop 0 rest b bs = None"
| "write_loop (Suc fuel) rest b bs =
    (if \<not> len b + rest \<le> size b then None
     else let write_offset = (if offset b + len b \<ge> size b then offset b + len b - size b else offset b + len b);
              chunk = (if write_offset + rest \<le> size b then rest else size b - write_offset);
              b1 = b\<lparr>buf := Some (mem_write (the (buf b)) write_offset (take chunk bs)), len := len b + chunk\<rparr>
       in if \<not> len b1 \<le> size b1 then None
          else if rest - chunk \<noteq> 0 then write_loop fuel (rest - chunk) b1 (drop chunk bs)
          else Some b1)"

definition bio_write :: "nat \<Rightarrow> byte list option \<Rightarrow> int \<Rightarrow> pair_store \<Rightarrow> (int \<times> pair_store) option" where
  "bio_write bio inp num0 st =
    (let num = nat (num0 mod 2 ^ 64) in
     case st bio of None \<Rightarrow> None
     | Some B0 \<Rightarrow>
       (let B = BIO_clear_retry_flags B0; st0 = st(bio \<mapsto> B) in
        if \<not> init B \<or> inp = None \<or> num = 0 then Some (0, st0)
        else case ptr B of None \<Rightarrow> None
        | Some b0 \<Rightarrow>
          if peer b0 = None \<or> buf b0 = None then None
          else let b = b0\<lparr>request := 0\<rparr>; B1 = B\<lparr>ptr := Some b\<rparr>; st1 = st(bio \<mapsto> B1)
            in if closed b then Some (- 1, st1)
               else if \<not> len b \<le> size b then None
               else if len b = size b then Some (- 1, st(bio \<mapsto> BIO_set_retry_write B1))
               else let n = (if num > size b - len b then size b - len b else num)
                 in case write_loop (n + 1) n b (the inp) of None \<Rightarrow> None
                    | Some b1 \<Rightarrow> Some (int n, st(bio \<mapsto> B\<lparr>ptr := Some b1\<rparr>))))"

definition make_buffer :: "allocator \<Rightarrow> nat \<Rightarrow> bio_bio_st \<Rightarrow> bool \<times> bio_bio_st" where
  "make_buffer malloc writebuf_len b =
    (if buf b \<noteq> None then (True, b)
     else let b1 = (if writebuf_len \<noteq> 0 then b\<lparr>size := writebuf_len\<rparr> else b)
       in case OPENSSL_malloc malloc (size b1) of
            None \<Rightarrow> (False, b1)
          | Some p \<Rightarrow> (True, b1\<lparr>buf := Some p, len := 0, offset := 0\<rparr>))"

definition bio_make_pair :: "allocator \<Rightarrow> nat \<Rightarrow> nat \<Rightarrow> nat \<Rightarrow> nat \<Rightarrow> pair_store \<Rightarrow> (bool \<times> pair_store) option" where
  "bio_make_pair malloc bio1 bio2 writebuf1_len writebuf2_len st =
    (case (st bio1, st bio2) of
       (Some B1, Some B2) \<Rightarrow>
         (case (ptr B1, ptr B2) of
            (Some b1, Some b2) \<Rightarrow>
              if peer b1 \<noteq> None \<or> peer b2 \<noteq> None then Some (False, st)
              else (case make_buffer malloc writebuf1_len b1 of
                 (False, c1) \<Rightarrow> Some (False, st(bio1 \<mapsto> B1\<lparr>ptr := Some c1\<rparr>))
               | (True, c1) \<Rightarrow> (case make_buffer malloc writebuf2_len b2 of
                   (False, c2) \<Rightarrow> Some (False, st(bio1 \<mapsto> B1\<lparr>ptr := Some c1\<rparr>, bio2 \<mapsto> B2\<lparr>ptr := Some c2\<rparr>))
                 | (True, c2) \<Rightarrow> Some (True, st(
                     bio1 \<mapsto> B1\<lparr>ptr := Some (c1\<lparr>peer := Some bio2, closed := False, request := 0\<rparr>), init := True\<rparr>,
                     bio2 \<mapsto> B2\<lparr>ptr := Some (c2\<lparr>peer := Some bio1, closed := False, request := 0\<rparr>), init := True\<rparr>))))
          | _ \<Rightarrow> None)
     | _ \<Rightarrow> None)"

subsection \<open>One direction as a bounded queue\<close>

record pipe =
  queue :: "byte list"
  capacity :: nat
  shut :: bool
  wanted :: nat

definition contents :: "bio_bio_st \<Rightarrow> byte list" where
  "contents b = map (\<lambda>i. the (buf b) ! ((offset b + i) mod size b)) [0..<len b]"

definition wf_half :: "bio_bio_st \<Rightarrow> bool" where
  "wf_half b \<longleftrightarrow> (\<exists>a. buf b = Some a \<and> length a = size b) \<and> 0 < size b \<and> offset b < size b \<and> len b \<le> size b"

definition pipe_of :: "bio_bio_st \<Rightarrow> pipe" where
  "pipe_of b = \<lparr>queue = contents b, capacity = size b, shut = closed b, wanted = request b\<rparr>"

definition pipe_write :: "byte list \<Rightarrow> pipe \<Rightarrow> int \<times> pipe" where
  "pipe_write bs p =
    (if shut p \<or> length (queue p) = capacity p then (- 1, p\<lparr>wanted := 0\<rparr>)
     else let n = min (length bs) (capacity p - length (queue p))
       in (int n, p\<lparr>queue := queue p @ take n bs, wanted := 0\<rparr>))"

definition pipe_read :: "nat \<Rightarrow> pipe \<Rightarrow> int \<times> byte list \<times> pipe" where
  "pipe_read n p =
    (if queue p = [] then (if shut p then (0, [], p\<lparr>wanted := 0\<rparr>) else (- 1, [], p\<lparr>wanted := min n (capacity p)\<rparr>))
     else let k = min n (length (queue p))
       in (int k, take k (queue p), p\<lparr>queue := drop k (queue p), wanted := 0\<rparr>))"

lemma length_contents [simp]: "length (contents b) = len b"
  by (simp add: contents_def)

lemma nth_contents [simp]: "i < len b \<Longrightarrow> contents b ! i = the (buf b) ! ((offset b + i) mod size b)"
  by (simp add: contents_def)

lemma take_split: "c \<le> n \<Longrightarrow> take c xs @ take (n - c) (drop c xs) = take n xs"
  by (metis le_add_diff_inverse take_add)

lemma contents_read_chunk:
  assumes "wf_half b" and "n \<le> len b" and "offset b + n \<le> size b"
  shows "take n (drop (offset b) (the (buf b))) = take n (contents b)"
  using assms by (intro nth_equalityI) (auto simp: wf_half_def)

lemma contents_advance:
  assumes "wf_half b" and "n \<le> len b"
  shows "contents (b\<lparr>len := len b - n, offset := (if n = len b then 0 else (offset b + n) mod size b)\<rparr>) = drop n (contents b)"
    and "wf_half (b\<lparr>len := len b - n, offset := (if n = len b then 0 else (offset b + n) mod size b)\<rparr>)"
  using assms by (auto simp: wf_half_def mod_add_left_eq add.assoc intro!: nth_equalityI)

lemma read_loop_eq:
  assumes "wf_half b" and "0 < n" and "n \<le> len b"
  shows "read_loop (Suc (Suc fuel)) n b out =
    Some (b\<lparr>len := len b - n, offset := (if n = len b then 0 else (offset b + n) mod size b)\<rparr>, out @ take n (contents b))"
proof (cases "offset b + n \<le> size b")
  case True
  have "offset b + n \<noteq> size b \<Longrightarrow> (offset b + n) mod size b = offset b + n" using True by simp
  then show ?thesis
    using assms True contents_read_chunk [OF assms(1,3) True] by (auto simp: Let_def)
next
  case False
  obtain c where c: "c = size b - offset b" "0 < c" "c < n" "offset b + c = size b"
    using assms(1) False by (auto simp: wf_half_def)
  obtain b1 where b1: "b1 = b\<lparr>len := len b - c, offset := 0\<rparr>" by blast
  have adv: "contents b1 = drop c (contents b)" "wf_half b1"
    using contents_advance [OF assms(1), of c] c assms(3) by (simp_all add: b1)
  have s1: "read_loop (Suc (Suc fuel)) n b out = read_loop (Suc fuel) (n - c) b1 (out @ take c (contents b))"
    using False c assms(3) contents_read_chunk [OF assms(1), of c] by (simp add: Let_def b1)
  have n: "n - c \<le> len b1" "offset b1 + (n - c) \<le> size b1" "(offset b + n) mod size b = n - c" "n - c < size b"
    using assms c False by (auto simp: b1 wf_half_def mod_if)
  have "read_loop (Suc fuel) (n - c) b1 (out @ take c (contents b)) =
    Some (b\<lparr>len := len b - n, offset := (if n = len b then 0 else n - c)\<rparr>, out @ take c (contents b) @ take (n - c) (contents b1))"
    using n c assms(3) contents_read_chunk [OF adv(2) n(1,2)] by (auto simp: Let_def b1)
  also have "take c (contents b) @ take (n - c) (contents b1) = take n (contents b)"
    unfolding adv(1) using c(3) by (simp add: take_split)
  finally show ?thesis unfolding s1 n(3) .
qed

lemma ring_write:
  assumes "wf_half b" and "woff = (offset b + len b) mod size b" and "woff + length bs \<le> size b" and "len b + length bs \<le> size b"
  shows "contents (b\<lparr>buf := Some (mem_write (the (buf b)) woff bs), len := len b + length bs\<rparr>) = contents b @ bs"
    and "wf_half (b\<lparr>buf := Some (mem_write (the (buf b)) woff bs), len := len b + length bs\<rparr>)"
proof -
  obtain a where a: "buf b = Some a" "length a = size b" "offset b < size b" "len b \<le> size b"
    using assms(1) by (auto simp: wf_half_def)
  show "wf_half (b\<lparr>buf := Some (mem_write (the (buf b)) woff bs), len := len b + length bs\<rparr>)"
    using assms a by (simp add: wf_half_def)
  show "contents (b\<lparr>buf := Some (mem_write (the (buf b)) woff bs), len := len b + length bs\<rparr>) = contents b @ bs"
  proof (rule nth_equalityI)
    fix i
    assume "i < length (contents (b\<lparr>buf := Some (mem_write (the (buf b)) woff bs), len := len b + length bs\<rparr>))"
    then have i: "i < len b + length bs" by simp
    obtain j where j: "j = (offset b + i) mod size b" "j < size b" using a by simp
    have "mem_write a woff bs ! j = (contents b @ bs) ! i"
    proof (cases "i < len b")
      case True
      have "\<not> (woff \<le> j \<and> j < woff + length bs)"
        using True a assms(2-4) i unfolding j(1) by (auto simp: mod_if split: if_splits)
      then have "mem_write a woff bs ! j = a ! j" using a assms(3) j(2) by (subst nth_mem_write) auto
      then show ?thesis using True a j by (simp add: nth_append)
    next
      case False
      then obtain k where k: "i = len b + k" "k < length bs" using i by (metis le_Suc_ex nat_add_left_cancel_less not_less)
      have "(offset b + len b + k) mod size b = (woff + k) mod size b" unfolding assms(2) by (simp add: mod_add_left_eq)
      then have "j = woff + k" using k(2) assms(3) by (simp add: j(1) k(1) add.assoc)
      then show ?thesis using a assms(3) k by (simp add: nth_mem_write nth_append)
    qed
    then show "contents (b\<lparr>buf := Some (mem_write (the (buf b)) woff bs), len := len b + length bs\<rparr>) ! i = (contents b @ bs) ! i"
      using i by (simp add: a(1) j(1))
  qed simp
qed

lemma write_loop_last:
  assumes "w = (if offset b + len b \<ge> size b then offset b + len b - size b else offset b + len b)"
    and "len b + n \<le> size b" and "w + n \<le> size b"
  shows "write_loop (Suc fuel) n b bs = Some (b\<lparr>buf := Some (mem_write (the (buf b)) w (take n bs)), len := len b + n\<rparr>)"
  using assms(2,3) by (simp add: Let_def assms(1) [symmetric])

lemma write_loop_wrap:
  assumes "w = (if offset b + len b \<ge> size b then offset b + len b - size b else offset b + len b)"
    and "len b + n \<le> size b" and "\<not> w + n \<le> size b" and "c = size b - w" "c < n"
  shows "write_loop (Suc fuel) n b bs =
    write_loop fuel (n - c) (b\<lparr>buf := Some (mem_write (the (buf b)) w (take c bs)), len := len b + c\<rparr>) (drop c bs)"
  using assms(2-5) by (simp add: Let_def assms(1) [symmetric])

lemma write_loop_eq:
  assumes "wf_half b" and "0 < n" and "len b + n \<le> size b" and "n \<le> length bs"
  shows "\<exists>a. write_loop (Suc (Suc fuel)) n b bs = Some (b\<lparr>buf := Some a, len := len b + n\<rparr>)
    \<and> contents (b\<lparr>buf := Some a, len := len b + n\<rparr>) = contents b @ take n bs
    \<and> wf_half (b\<lparr>buf := Some a, len := len b + n\<rparr>)"
proof -
  have wf: "offset b < size b" "len b < size b" "0 < size b" using assms by (auto simp: wf_half_def)
  obtain w where w: "w = (offset b + len b) mod size b" "w < size b"
    "w = (if offset b + len b \<ge> size b then offset b + len b - size b else offset b + len b)"
    using wf by (simp add: mod_if)
  show ?thesis
  proof (cases "w + n \<le> size b")
    case True
    have "write_loop (Suc (Suc fuel)) n b bs = Some (b\<lparr>buf := Some (mem_write (the (buf b)) w (take n bs)), len := len b + n\<rparr>)"
      using w(3) assms(3) True by (rule write_loop_last)
    moreover have "length (take n bs) = n" using assms(4) by simp
    ultimately show ?thesis using ring_write [OF assms(1) w(1), of "take n bs"] True assms(3) by metis
  next
    case False
    obtain c where c: "c = size b - w" "0 < c" "c < n" "w + c = size b" using False w(2) by auto
    obtain b1 where b1: "b1 = b\<lparr>buf := Some (mem_write (the (buf b)) w (take c bs)), len := len b + c\<rparr>" by blast
    have r1: "contents b1 = contents b @ take c bs" "wf_half b1"
      using ring_write [OF assms(1) w(1), of "take c bs"] c assms(3,4) by (simp_all add: min_def b1)
    have "offset b + len b < size b"
    proof (rule ccontr)
      assume "\<not> offset b + len b < size b"
      then show False using w(3) False assms(3) wf by simp
    qed
    then have s1: "offset b1 + len b1 = size b1" using w(3) c(4) by (simp add: b1)
    then have w1: "(offset b1 + len b1) mod size b1 = 0" by simp
    have wo: "(if size b1 \<le> offset b1 + len b1 then offset b1 + len b1 - size b1 else offset b1 + len b1) = 0"
      by (simp add: s1)
    have n1: "n - c \<le> size b1" "len b1 + (n - c) \<le> size b1" using c assms(3) by (auto simp: b1)
    have "write_loop (Suc (Suc fuel)) n b bs = write_loop (Suc fuel) (n - c) b1 (drop c bs)"
      unfolding b1 using w(3) assms(3) False c(1,3) by (rule write_loop_wrap)
    also have "\<dots> = Some (b1\<lparr>buf := Some (mem_write (the (buf b1)) 0 (take (n - c) (drop c bs))), len := len b1 + (n - c)\<rparr>)"
      by (rule write_loop_last) (use wo n1 in simp_all)
    finally have fin: "write_loop (Suc (Suc fuel)) n b bs = Some (b1\<lparr>buf := Some (mem_write (the (buf b1)) 0 (take (n - c) (drop c bs))), len := len b1 + (n - c)\<rparr>)" .
    have l: "length (take (n - c) (drop c bs)) = n - c" using assms(4) by simp
    have t: "take c bs @ take (n - c) (drop c bs) = take n bs" using c(3) by (simp add: take_split)
    have e: "b1\<lparr>buf := Some x, len := len b1 + (n - c)\<rparr> = b\<lparr>buf := Some x, len := len b + n\<rparr>" for x
      using c(3) by (simp add: b1)
    note r2 = ring_write [OF r1(2) w1 [symmetric], of "take (n - c) (drop c bs)", unfolded l add_0, OF n1,
        unfolded e r1(1) append_assoc t]
    show ?thesis using fin [unfolded e] r2 by blast
  qed
qed

text \<open>\<open>(long)\<close> of a \<open>size_t\<close>.\<close>

definition to_long :: "nat \<Rightarrow> int" where
  "to_long n = sint (word_of_nat n :: 64 word)"

definition BIO_C_GET_WRITE_BUF_SIZE :: int where
  "BIO_C_GET_WRITE_BUF_SIZE = 137"

definition BIO_C_GET_WRITE_GUARANTEE :: int where
  "BIO_C_GET_WRITE_GUARANTEE = 140"

definition BIO_C_GET_READ_REQUEST :: int where
  "BIO_C_GET_READ_REQUEST = 141"

definition BIO_C_SHUTDOWN_WR :: int where
  "BIO_C_SHUTDOWN_WR = 142"

definition BIO_C_RESET_READ_REQUEST :: int where
  "BIO_C_RESET_READ_REQUEST = 147"

definition BIO_CTRL_GET_CLOSE :: int where
  "BIO_CTRL_GET_CLOSE = 8"

definition bio_ctrl :: "nat \<Rightarrow> int \<Rightarrow> int \<Rightarrow> nat option \<Rightarrow> pair_store \<Rightarrow> (int \<times> pair_store) option" where
  "bio_ctrl bio cmd num0 ptr0 st =
    (case st bio of None \<Rightarrow> None
     | Some B \<Rightarrow> (case ptr B of None \<Rightarrow> None
       | Some b \<Rightarrow>
         if cmd = BIO_C_GET_WRITE_BUF_SIZE then Some (to_long (size b), st)
         else if cmd = BIO_C_GET_WRITE_GUARANTEE then
           Some (if peer b = None \<or> closed b then 0 else sint (word_of_nat (size b) - word_of_nat (len b) :: 64 word), st)
         else if cmd = BIO_C_GET_READ_REQUEST then Some (to_long (request b), st)
         else if cmd = BIO_C_RESET_READ_REQUEST then Some (1, st(bio \<mapsto> B\<lparr>ptr := Some (b\<lparr>request := 0\<rparr>)\<rparr>))
         else if cmd = BIO_C_SHUTDOWN_WR then Some (1, st(bio \<mapsto> B\<lparr>ptr := Some (b\<lparr>closed := True\<rparr>)\<rparr>))
         else if cmd = BIO_CTRL_GET_CLOSE then Some (shutdown B, st)
         else if cmd = BIO_CTRL_SET_CLOSE then Some (1, st(bio \<mapsto> B\<lparr>shutdown := sint (word_of_int num0 :: 32 word)\<rparr>))
         else if cmd = BIO_CTRL_PENDING then
           (case peer b of None \<Rightarrow> Some (0, st)
            | Some y \<Rightarrow> map_option (\<lambda>peer_b. (to_long (len peer_b), st)) (Option.bind (st y) ptr))
         else if cmd = BIO_CTRL_WPENDING then Some (if buf b \<noteq> None then to_long (len b) else 0, st)
         else if cmd = BIO_CTRL_FLUSH then Some (1, st)
         else if cmd = BIO_CTRL_EOF then
           (case ptr0 of None \<Rightarrow> Some (1, st)
            | Some other \<Rightarrow> map_option (\<lambda>other_b. (of_bool (len other_b = 0 \<and> closed other_b), st)) (Option.bind (st other) ptr))
         else Some (0, st)))"

definition methods_biop :: "allocator \<Rightarrow> bio_bio_st BIO_METHOD" where
  "methods_biop malloc = \<lparr>mtype = 0x413, bwrite = Some bio_write, bread = Some bio_read, bgets = None, create = Some (bio_new malloc),
     destroy = Some (\<lambda>x. bio_free (Some x)), ctrl = Some bio_ctrl\<rparr>"

definition BIO_new_bio_pair :: "allocator \<Rightarrow> nat option \<Rightarrow> nat option \<Rightarrow> nat \<Rightarrow> nat \<Rightarrow> pair_store
    \<Rightarrow> ((nat \<times> nat) option \<times> pair_store) option" where
  "BIO_new_bio_pair malloc addr1 addr2 writebuf1_len writebuf2_len st =
    (let (bio1, st1) = BIO_new (methods_biop malloc) addr1 st;
         (bio2, st2) = BIO_new (methods_biop malloc) addr2 st1;
         give_up = (\<lambda>st3. case BIO_free 1 (\<lambda>_. Some (methods_biop malloc)) bio1 st3 of None \<Rightarrow> None
           | Some (_, st4) \<Rightarrow> (case BIO_free 1 (\<lambda>_. Some (methods_biop malloc)) bio2 st4 of None \<Rightarrow> None
             | Some (_, st5) \<Rightarrow> Some (None, st5)))
     in case (bio1, bio2) of
          (Some x, Some y) \<Rightarrow> (case bio_make_pair malloc x y writebuf1_len writebuf2_len st2 of
             None \<Rightarrow> None
           | Some (False, st3) \<Rightarrow> give_up st3
           | Some (True, st3) \<Rightarrow> Some (Some (x, y), st3))
        | _ \<Rightarrow> give_up st2)"

definition BIO_ctrl_get_read_request :: "allocator \<Rightarrow> nat option \<Rightarrow> pair_store \<Rightarrow> int option" where
  "BIO_ctrl_get_read_request malloc bio st = map_option fst (BIO_ctrl (Some (methods_biop malloc)) bio BIO_C_GET_READ_REQUEST 0 None st)"

definition BIO_ctrl_get_write_guarantee :: "allocator \<Rightarrow> nat option \<Rightarrow> pair_store \<Rightarrow> int option" where
  "BIO_ctrl_get_write_guarantee malloc bio st = map_option fst (BIO_ctrl (Some (methods_biop malloc)) bio BIO_C_GET_WRITE_GUARANTEE 0 None st)"

definition BIO_shutdown_wr :: "allocator \<Rightarrow> nat option \<Rightarrow> pair_store \<Rightarrow> (int \<times> pair_store) option" where
  "BIO_shutdown_wr malloc bio st = BIO_ctrl (Some (methods_biop malloc)) bio BIO_C_SHUTDOWN_WR 0 None st"

subsection \<open>A connected pair refines two bounded queues\<close>

definition half :: "pair_store \<Rightarrow> nat \<Rightarrow> nat \<Rightarrow> bio_bio_st \<Rightarrow> bool" where
  "half st x y b \<longleftrightarrow> (\<exists>B. st x = Some B \<and> init B \<and> ptr B = Some b \<and> peer b = Some y \<and> wf_half b)"

definition paired :: "pair_store \<Rightarrow> nat \<Rightarrow> nat \<Rightarrow> bool" where
  "paired st x y \<longleftrightarrow> x \<noteq> y \<and> (\<exists>b. half st x y b) \<and> (\<exists>p. half st y x p)"

definition out_pipe :: "pair_store \<Rightarrow> nat \<Rightarrow> pipe" where
  "out_pipe st x = pipe_of (the (ptr (the (st x))))"

lemma half_out_pipe: "half st x y b \<Longrightarrow> out_pipe st x = pipe_of b"
  by (auto simp: half_def out_pipe_def)

lemma half_update:
  "half st x y b \<Longrightarrow> wf_half b' \<Longrightarrow> peer b' = peer b \<Longrightarrow> init B' \<Longrightarrow> ptr B' = Some b' \<Longrightarrow> half (st(x \<mapsto> B')) x y b'"
  by (auto simp: half_def)

lemma half_other: "z \<noteq> x \<Longrightarrow> half (st(z := v)) x y b = half st x y b"
  by (simp add: half_def)

lemma nat_mod_word [simp]: "n < 2 ^ 64 \<Longrightarrow> nat (int n mod 2 ^ 64) = n"
  by simp

lemma wf_half_simps [simp]: "wf_half (b\<lparr>request := r\<rparr>) = wf_half b" "wf_half (b\<lparr>closed := c\<rparr>) = wf_half b"
  "contents (b\<lparr>request := r\<rparr>) = contents b" "contents (b\<lparr>closed := c\<rparr>) = contents b"
  by (simp_all add: wf_half_def contents_def)

lemma bio_write_eq:
  assumes "st x = Some B0" "init B0" "ptr B0 = Some b" "peer b = Some y" "wf_half b" and "bs \<noteq> []" and "length bs < 2 ^ 31"
  shows "bio_write x (Some bs) (int (length bs)) st =
    (let B = BIO_clear_retry_flags B0; b1 = b\<lparr>request := 0\<rparr>; n = min (length bs) (size b - len b)
     in if closed b then Some (- 1, st(x \<mapsto> B\<lparr>ptr := Some b1\<rparr>))
        else if len b = size b then Some (- 1, st(x \<mapsto> BIO_set_retry_write (B\<lparr>ptr := Some b1\<rparr>)))
        else map_option (\<lambda>b2. (int n, st(x \<mapsto> B\<lparr>ptr := Some b2\<rparr>))) (write_loop (n + 1) n b1 bs))"
proof -
  have num: "nat (int (length bs) mod 2 ^ 64) = length bs" using assms(7) by (intro nat_mod_word) simp
  have B: "init (BIO_clear_retry_flags B0)" "ptr (BIO_clear_retry_flags B0) = Some b"
    using assms(2,3) by (simp_all add: BIO_clear_retry_flags_def)
  obtain a where wf: "buf b = Some a" "len b \<le> size b" using assms(5) by (auto simp: wf_half_def)
  show ?thesis
    unfolding bio_write_def num assms(1) option.case Let_def B(2)
    using B(1) wf assms(4,6) by (auto simp: min_def map_option_case simp del: write_loop.simps split: option.split)
qed

lemma bio_write_ok:
  assumes "paired st x y" and "bs \<noteq> []" and "length bs < 2 ^ 31"
  obtains st' where "bio_write x (Some bs) (int (length bs)) st = Some (fst (pipe_write bs (out_pipe st x)), st')"
    and "paired st' x y" and "out_pipe st' x = snd (pipe_write bs (out_pipe st x))" and "out_pipe st' y = out_pipe st y"
proof -
  note finish = that
  from assms(1) obtain b p where xy: "x \<noteq> y" and b: "half st x y b" and p: "half st y x p" by (auto simp: paired_def)
  then obtain B0 where B0: "st x = Some B0" "init B0" "ptr B0 = Some b" "peer b = Some y" "wf_half b" by (auto simp: half_def)
  obtain B where B: "B = BIO_clear_retry_flags B0" "init B" using B0 by (simp add: BIO_clear_retry_flags_def)
  obtain b1 where b1: "b1 = b\<lparr>request := 0\<rparr>" by blast
  have wf: "wf_half b1" "contents b1 = contents b" using B0(5) by (simp_all add: b1)
  obtain n where n: "n = min (length bs) (size b - len b)" by blast
  have e: "bio_write x (Some bs) (int (length bs)) st =
     (if closed b then Some (- 1, st(x \<mapsto> B\<lparr>ptr := Some b1\<rparr>))
      else if len b = size b then Some (- 1, st(x \<mapsto> BIO_set_retry_write (B\<lparr>ptr := Some b1\<rparr>)))
      else map_option (\<lambda>b2. (int n, st(x \<mapsto> B\<lparr>ptr := Some b2\<rparr>))) (write_loop (n + 1) n b1 bs))"
    using bio_write_eq [of st x, OF B0 assms(2,3)] unfolding Let_def B(1) [symmetric] b1 [symmetric] n [symmetric] by simp
  have done_case: thesis
    if w: "bio_write x (Some bs) (int (length bs)) st = Some (r, st(x \<mapsto> B'))"
      and B': "init B'" "ptr B' = Some b'" "wf_half b'" "peer b' = peer b" and q: "pipe_write bs (out_pipe st x) = (r, pipe_of b')" for r B' b'
  proof (rule finish)
    show "bio_write x (Some bs) (int (length bs)) st = Some (fst (pipe_write bs (out_pipe st x)), st(x \<mapsto> B'))" using w q by simp
    have b': "half (st(x \<mapsto> B')) x y b'" using b B' by (intro half_update)
    then show "out_pipe (st(x \<mapsto> B')) x = snd (pipe_write bs (out_pipe st x))" by (simp add: half_out_pipe q)
    show "paired (st(x \<mapsto> B')) x y" using xy b' p by (auto simp: paired_def half_other)
    show "out_pipe (st(x \<mapsto> B')) y = out_pipe st y" using xy by (simp add: out_pipe_def)
  qed
  have q: "out_pipe st x = \<lparr>queue = contents b, capacity = size b, shut = closed b, wanted = request b\<rparr>"
    using b by (simp add: half_out_pipe pipe_of_def)
  have pb1: "pipe_of b1 = \<lparr>queue = contents b, capacity = size b, shut = closed b, wanted = 0\<rparr>" by (simp add: b1 pipe_of_def)
  consider (shut) "closed b" | (full) "\<not> closed b" "len b = size b" | (room) "\<not> closed b" "len b \<noteq> size b" by blast
  then show thesis
  proof cases
    case shut
    show thesis
    proof (rule done_case)
      show "bio_write x (Some bs) (int (length bs)) st = Some (- 1, st(x \<mapsto> B\<lparr>ptr := Some b1\<rparr>))" unfolding e using shut by simp
      show "pipe_write bs (out_pipe st x) = (- 1, pipe_of b1)" using shut by (simp add: q pb1 pipe_write_def)
    qed (use B wf in \<open>simp_all add: b1\<close>)
  next
    case full
    show thesis
    proof (rule done_case)
      show "bio_write x (Some bs) (int (length bs)) st = Some (- 1, st(x \<mapsto> BIO_set_retry_write (B\<lparr>ptr := Some b1\<rparr>)))"
        unfolding e using full by simp
      show "pipe_write bs (out_pipe st x) = (- 1, pipe_of b1)" using full by (simp add: q pb1 pipe_write_def)
    qed (use B wf in \<open>simp_all add: b1 BIO_set_retry_write_def\<close>)
  next
    case room
    have nn: "0 < n" "len b1 + n \<le> size b1" "n \<le> length bs"
      using room assms(2) B0(5) by (auto simp: n b1 wf_half_def)
    obtain k where k: "n + 1 = Suc (Suc k)" using nn(1) by (cases n) auto
    obtain a where a: "write_loop (n + 1) n b1 bs = Some (b1\<lparr>buf := Some a, len := len b1 + n\<rparr>)"
      "contents (b1\<lparr>buf := Some a, len := len b1 + n\<rparr>) = contents b @ take n bs"
      "wf_half (b1\<lparr>buf := Some a, len := len b1 + n\<rparr>)"
      using write_loop_eq [OF wf(1) nn, of k] wf(2) unfolding k by auto
    obtain b2 where b2: "b2 = b1\<lparr>buf := Some a, len := len b1 + n\<rparr>" by blast
    show thesis
    proof (rule done_case)
      show "bio_write x (Some bs) (int (length bs)) st = Some (int n, st(x \<mapsto> B\<lparr>ptr := Some b2\<rparr>))"
        unfolding e a(1) b2 [symmetric] using room by simp
      have "pipe_of b2 = \<lparr>queue = contents b @ take n bs, capacity = size b, shut = closed b, wanted = 0\<rparr>"
        using a(2) unfolding b2 [symmetric] by (simp add: pipe_of_def) (simp add: b2 b1)
      then show "pipe_write bs (out_pipe st x) = (int n, pipe_of b2)"
        using room by (simp add: q pipe_write_def n [symmetric])
      show "wf_half b2" using a(3) by (simp add: b2)
    qed (use B in \<open>simp_all add: b2 b1\<close>)
  qed
qed

lemma bio_read_eq:
  assumes "st y = Some P0" "init P0" "ptr P0 = Some p" "peer p = Some x" and "st x = Some B" "ptr B = Some b" "wf_half b"
    and "x \<noteq> y" and "0 < n" and "n < 2 ^ 31"
  shows "bio_read y True (int n) st =
    (let P = BIO_clear_retry_flags P0; b1 = b\<lparr>request := 0\<rparr>
     in if len b = 0 then
          (if closed b then Some (0, [], st(y \<mapsto> P, x \<mapsto> B\<lparr>ptr := Some b1\<rparr>))
           else Some (- 1, [], st(y \<mapsto> BIO_set_retry_read P, x \<mapsto> B\<lparr>ptr := Some (b\<lparr>request := min n (size b)\<rparr>)\<rparr>)))
        else map_option (\<lambda>(b2, out). (int (min n (len b)), out, st(y \<mapsto> P, x \<mapsto> B\<lparr>ptr := Some b2\<rparr>)))
          (read_loop (min n (len b) + 1) (min n (len b)) b1 []))"
proof -
  have num: "nat (int n mod 2 ^ 64) = n" using assms(10) by (intro nat_mod_word) simp
  have P: "init (BIO_clear_retry_flags P0)" "ptr (BIO_clear_retry_flags P0) = Some p"
    using assms(2,3) by (simp_all add: BIO_clear_retry_flags_def)
  obtain a where wf: "buf b = Some a" "len b \<le> size b" using assms(7) by (auto simp: wf_half_def)
  have st: "(st(y \<mapsto> Q)) x = Some B" for Q using assms(5,8) by simp
  have tw: "f(y := u, x := v, y := w, x := z) = f(y := w, x := z)" for f :: pair_store and u v w z
    using assms(8) by (auto simp: fun_eq_iff)
  show ?thesis
    unfolding bio_read_def num assms(1) option.case Let_def P(2) bind.bind_lunit assms(4) st assms(6)
    using P(1) wf assms(8,9)
    by (auto simp: min_def map_option_case tw fun_upd_twist simp del: read_loop.simps split: option.split)
qed

lemma bio_read_ok:
  assumes "paired st x y" and "0 < n" and "n < 2 ^ 31"
  obtains st' where "bio_read y True (int n) st = Some (fst (pipe_read n (out_pipe st x)), fst (snd (pipe_read n (out_pipe st x))), st')"
    and "paired st' x y" and "out_pipe st' x = snd (snd (pipe_read n (out_pipe st x)))" and "out_pipe st' y = out_pipe st y"
proof -
  note finish = that
  from assms(1) obtain b p where xy: "x \<noteq> y" and b: "half st x y b" and p: "half st y x p" by (auto simp: paired_def)
  then obtain B where B: "st x = Some B" "init B" "ptr B = Some b" "peer b = Some y" "wf_half b" by (auto simp: half_def)
  from p obtain P0 where P0: "st y = Some P0" "init P0" "ptr P0 = Some p" "peer p = Some x" "wf_half p" by (auto simp: half_def)
  obtain P where P: "P = BIO_clear_retry_flags P0" "init P" "ptr P = Some p" using P0 by (simp add: BIO_clear_retry_flags_def)
  obtain b1 where b1: "b1 = b\<lparr>request := 0\<rparr>" by blast
  have wf: "wf_half b1" "contents b1 = contents b" using B(5) by (simp_all add: b1)
  obtain k where k: "k = min n (len b)" by blast
  have e: "bio_read y True (int n) st =
     (if len b = 0 then
        (if closed b then Some (0, [], st(y \<mapsto> P, x \<mapsto> B\<lparr>ptr := Some b1\<rparr>))
         else Some (- 1, [], st(y \<mapsto> BIO_set_retry_read P, x \<mapsto> B\<lparr>ptr := Some (b\<lparr>request := min n (size b)\<rparr>)\<rparr>)))
      else map_option (\<lambda>(b2, out). (int k, out, st(y \<mapsto> P, x \<mapsto> B\<lparr>ptr := Some b2\<rparr>))) (read_loop (k + 1) k b1 []))"
    using bio_read_eq [of st y, OF P0(1-4) B(1,3,5) xy assms(2,3)]
    unfolding Let_def P(1) [symmetric] b1 [symmetric] k [symmetric] .
  have done_case: thesis
    if w: "bio_read y True (int n) st = Some (r, out, st(y \<mapsto> P', x \<mapsto> B\<lparr>ptr := Some b'\<rparr>))"
      and P': "init P'" "ptr P' = Some p" and b': "wf_half b'" "peer b' = peer b"
      and q: "pipe_read n (out_pipe st x) = (r, out, pipe_of b')" for r out P' b'
  proof (rule finish)
    let ?s = "st(y \<mapsto> P', x \<mapsto> B\<lparr>ptr := Some b'\<rparr>)"
    show "bio_read y True (int n) st = Some (fst (pipe_read n (out_pipe st x)), fst (snd (pipe_read n (out_pipe st x))), ?s)"
      using w q by simp
    have h: "half ?s x y b'" using b' B xy by (simp add: half_def)
    then show "out_pipe ?s x = snd (snd (pipe_read n (out_pipe st x)))" by (simp add: half_out_pipe q)
    have "half ?s y x p" using P' P0 xy by (simp add: half_def)
    with xy h show "paired ?s x y" by (auto simp: paired_def)
    show "out_pipe ?s y = out_pipe st y" using xy P' P0 by (simp add: out_pipe_def)
  qed
  have q: "out_pipe st x = \<lparr>queue = contents b, capacity = size b, shut = closed b, wanted = request b\<rparr>"
    using b by (simp add: half_out_pipe pipe_of_def)
  have empty: "contents b = [] \<longleftrightarrow> len b = 0" using length_contents [of b] by (metis length_0_conv)
  consider (shut) "len b = 0" "closed b" | (retry) "len b = 0" "\<not> closed b" | (data) "len b \<noteq> 0" by blast
  then show thesis
  proof cases
    case shut
    show thesis
    proof (rule done_case)
      show "bio_read y True (int n) st = Some (0, [], st(y \<mapsto> P, x \<mapsto> B\<lparr>ptr := Some b1\<rparr>))" unfolding e using shut by simp
      show "pipe_read n (out_pipe st x) = (0, [], pipe_of b1)" using shut empty by (simp add: q pipe_read_def b1 pipe_of_def)
    qed (use P wf in \<open>simp_all add: b1\<close>)
  next
    case retry
    show thesis
    proof (rule done_case)
      show "bio_read y True (int n) st =
          Some (- 1, [], st(y \<mapsto> BIO_set_retry_read P, x \<mapsto> B\<lparr>ptr := Some (b\<lparr>request := min n (size b)\<rparr>)\<rparr>))"
        unfolding e using retry by simp
      show "pipe_read n (out_pipe st x) = (- 1, [], pipe_of (b\<lparr>request := min n (size b)\<rparr>))"
        using retry empty by (simp add: q pipe_read_def pipe_of_def)
    qed (use P B(5) in \<open>simp_all add: BIO_set_retry_read_def\<close>)
  next
    case data
    have kk: "0 < k" "k \<le> len b1" using data assms(2) by (auto simp: k b1)
    obtain j where j: "k + 1 = Suc (Suc j)" using kk(1) by (cases k) auto
    obtain b2 where b2: "b2 = b1\<lparr>len := len b1 - k, offset := (if k = len b1 then 0 else (offset b1 + k) mod size b1)\<rparr>" by blast
    have r: "read_loop (k + 1) k b1 [] = Some (b2, take k (contents b))"
      unfolding j b2 using read_loop_eq [OF wf(1) kk, of j "[]"] wf(2) by simp
    have c2: "contents b2 = drop k (contents b)" "wf_half b2"
      using contents_advance [OF wf(1) kk(2)] wf(2) by (simp_all add: b2)
    show thesis
    proof (rule done_case)
      show "bio_read y True (int n) st = Some (int k, take k (contents b), st(y \<mapsto> P, x \<mapsto> B\<lparr>ptr := Some b2\<rparr>))"
        unfolding e r using data by simp
      have "pipe_of b2 = \<lparr>queue = drop k (contents b), capacity = size b, shut = closed b, wanted = 0\<rparr>"
        using c2(1) by (simp add: pipe_of_def) (simp add: b2 b1)
      then show "pipe_read n (out_pipe st x) = (int k, take k (contents b), pipe_of b2)"
        using data empty by (simp add: q pipe_read_def k Let_def)
    qed (use P c2 in \<open>simp_all add: b2 b1\<close>)
  qed
qed

lemma BIO_shutdown_wr_ok:
  assumes "paired st x y"
  obtains st' where "BIO_shutdown_wr malloc (Some x) st = Some (1, st')"
    and "paired st' x y" and "out_pipe st' x = (out_pipe st x)\<lparr>shut := True\<rparr>" and "out_pipe st' y = out_pipe st y"
proof -
  from assms obtain b p where xy: "x \<noteq> y" and b: "half st x y b" and p: "half st y x p" by (auto simp: paired_def)
  then obtain B where B: "st x = Some B" "init B" "ptr B = Some b" "peer b = Some y" "wf_half b" by (auto simp: half_def)
  let ?s = "st(x \<mapsto> B\<lparr>ptr := Some (b\<lparr>closed := True\<rparr>)\<rparr>)"
  have h: "half ?s x y (b\<lparr>closed := True\<rparr>)" using B by (simp add: half_def)
  show thesis
  proof (rule that)
    show "BIO_shutdown_wr malloc (Some x) st = Some (1, ?s)"
      using B by (simp add: BIO_shutdown_wr_def BIO_ctrl_def methods_biop_def bio_ctrl_def BIO_C_SHUTDOWN_WR_def
          BIO_C_GET_WRITE_BUF_SIZE_def BIO_C_GET_WRITE_GUARANTEE_def BIO_C_GET_READ_REQUEST_def BIO_C_RESET_READ_REQUEST_def)
    show "paired ?s x y" using xy h p by (auto simp: paired_def half_other)
    show "out_pipe ?s x = (out_pipe st x)\<lparr>shut := True\<rparr>" using half_out_pipe [OF h] half_out_pipe [OF b] by (simp add: pipe_of_def)
    show "out_pipe ?s y = out_pipe st y" using xy by (simp add: out_pipe_def)
  qed
qed

lemma paired_sym: "paired st x y \<Longrightarrow> paired st y x"
  by (auto simp: paired_def)

subsection \<open>Through the BIO interface\<close>

lemma paired_counts:
  assumes "st x = Some B"
  shows "paired (st(x \<mapsto> B\<lparr>num_write := k\<rparr>)) y z = paired st y z" "paired (st(x \<mapsto> B\<lparr>num_read := k\<rparr>)) y z = paired st y z"
    and "out_pipe (st(x \<mapsto> B\<lparr>num_write := k\<rparr>)) y = out_pipe st y" "out_pipe (st(x \<mapsto> B\<lparr>num_read := k\<rparr>)) y = out_pipe st y"
  using assms by (simp_all add: paired_def half_def out_pipe_def)

lemma BIO_write_pair:
  assumes "paired st x y" and "length bs < 2 ^ 31"
  obtains st' where
    "BIO_write (Some (methods_biop malloc)) (Some x) (Some bs) (int (length bs)) st =
      Some (if bs = [] then 0 else fst (pipe_write bs (out_pipe st x)), st')"
    and "paired st' x y" and "out_pipe st' x = (if bs = [] then out_pipe st x else snd (pipe_write bs (out_pipe st x)))"
    and "out_pipe st' y = out_pipe st y"
proof (cases "bs = []")
  case True
  have "\<exists>B. st x = Some B \<and> init B" using assms(1) by (auto simp: paired_def half_def)
  then show thesis using that [of st] True assms(1) by (auto simp: BIO_write_def methods_biop_def)
next
  case False
  obtain st1 where w: "bio_write x (Some bs) (int (length bs)) st = Some (fst (pipe_write bs (out_pipe st x)), st1)"
    and s1: "paired st1 x y" "out_pipe st1 x = snd (pipe_write bs (out_pipe st x))" "out_pipe st1 y = out_pipe st y"
    using bio_write_ok [OF assms(1) False assms(2)] by blast
  obtain B B1 where B: "st x = Some B" "init B" "st1 x = Some B1" using assms(1) s1(1) by (auto simp: paired_def half_def)
  obtain r where r: "r = fst (pipe_write bs (out_pipe st x))" by blast
  show thesis
  proof (cases "r > 0")
    case True
    then have "BIO_write (Some (methods_biop malloc)) (Some x) (Some bs) (int (length bs)) st =
        Some (r, st1(x \<mapsto> B1\<lparr>num_write := size_t (num_write B1 + nat r)\<rparr>))"
      using False B w r by (simp add: BIO_write_def methods_biop_def)
    then show thesis
      using that s1 False by (simp add: r paired_counts [of st1, OF B(3)])
  next
    case neg: False
    then have "BIO_write (Some (methods_biop malloc)) (Some x) (Some bs) (int (length bs)) st = Some (r, st1)"
      using False B w r by (simp add: BIO_write_def methods_biop_def)
    then show thesis using that s1 False by (simp add: r)
  qed
qed

lemma BIO_read_pair:
  assumes "paired st x y" and "n < 2 ^ 31"
  obtains st' where
    "BIO_read (Some (methods_biop malloc)) (Some y) True (int n) st =
      Some (if n = 0 then 0 else fst (pipe_read n (out_pipe st x)), if n = 0 then [] else fst (snd (pipe_read n (out_pipe st x))), st')"
    and "paired st' x y" and "out_pipe st' x = (if n = 0 then out_pipe st x else snd (snd (pipe_read n (out_pipe st x))))"
    and "out_pipe st' y = out_pipe st y"
proof (cases "n = 0")
  case True
  have "\<exists>B. st y = Some B \<and> init B" using assms(1) by (auto simp: paired_def half_def)
  then show thesis using that [of st] True assms(1) by (auto simp: BIO_read_def methods_biop_def)
next
  case False
  then have "0 < n" by simp
  from bio_read_ok [OF assms(1) this assms(2)]
  obtain st1 where w0: "bio_read y True (int n) st =
      Some (fst (pipe_read n (out_pipe st x)), fst (snd (pipe_read n (out_pipe st x))), st1)"
    and s1: "paired st1 x y" "out_pipe st1 x = snd (snd (pipe_read n (out_pipe st x)))" "out_pipe st1 y = out_pipe st y"
    by blast
  obtain r out where r: "r = fst (pipe_read n (out_pipe st x))" "out = fst (snd (pipe_read n (out_pipe st x)))" by blast
  note w = w0 [folded r]
  obtain B B1 where B: "st y = Some B" "init B" "st1 y = Some B1" using assms(1) s1(1) by (auto simp: paired_def half_def)
  show thesis
  proof (cases "r > 0")
    case True
    then have "BIO_read (Some (methods_biop malloc)) (Some y) True (int n) st =
        Some (r, out, st1(y \<mapsto> B1\<lparr>num_read := size_t (num_read B1 + nat r)\<rparr>))"
      using False B w by (simp add: BIO_read_def methods_biop_def)
    then show thesis
      using that s1 False by (simp add: r paired_counts [of st1, OF B(3)])
  next
    case neg: False
    then have "BIO_read (Some (methods_biop malloc)) (Some y) True (int n) st = Some (r, out, st1)"
      using False B w by (simp add: BIO_read_def methods_biop_def)
    then show thesis using that s1 False by (simp add: r)
  qed
qed

subsection \<open>First in, first out\<close>

datatype 'o pipe_act = Put "byte list" | Get nat | Other 'o

text \<open>
  A run of puts, gets and other operations: the bytes accepted, the bytes delivered and the final
  state.
\<close>

fun pipe_run :: "(byte list \<Rightarrow> 's \<Rightarrow> (nat \<times> 's) option) \<Rightarrow> (nat \<Rightarrow> 's \<Rightarrow> (byte list \<times> 's) option) \<Rightarrow> ('o \<Rightarrow> 's \<Rightarrow> 's option)
    \<Rightarrow> 'o pipe_act list \<Rightarrow> 's \<Rightarrow> (byte list \<times> byte list \<times> 's) option" where
  "pipe_run put get other [] s = Some ([], [], s)"
| "pipe_run put get other (Put bs # acts) s = (case put bs s of None \<Rightarrow> None
     | Some (n, s') \<Rightarrow> map_option (\<lambda>(acc, del, t). (take n bs @ acc, del, t)) (pipe_run put get other acts s'))"
| "pipe_run put get other (Get n # acts) s = (case get n s of None \<Rightarrow> None
     | Some (out, s') \<Rightarrow> map_option (\<lambda>(acc, del, t). (acc, out @ del, t)) (pipe_run put get other acts s'))"
| "pipe_run put get other (Other a # acts) s = (case other a s of None \<Rightarrow> None
     | Some s' \<Rightarrow> pipe_run put get other acts s')"

locale byte_pipe =
  fixes inv :: "'s \<Rightarrow> bool"
    and pending :: "'s \<Rightarrow> byte list"
    and put :: "byte list \<Rightarrow> 's \<Rightarrow> (nat \<times> 's) option"
    and get :: "nat \<Rightarrow> 's \<Rightarrow> (byte list \<times> 's) option"
    and other :: "'o \<Rightarrow> 's \<Rightarrow> 's option"
  assumes put_ok: "inv s \<Longrightarrow> \<exists>n s'. put bs s = Some (n, s') \<and> inv s' \<and> pending s' = pending s @ take n bs"
    and get_ok: "inv s \<Longrightarrow> \<exists>out s'. get n s = Some (out, s') \<and> inv s' \<and> pending s = out @ pending s'"
    and other_ok: "inv s \<Longrightarrow> \<exists>s'. other a s = Some s' \<and> inv s' \<and> pending s' = pending s"
begin

lemma run_fifo: "inv s \<Longrightarrow> \<exists>acc del s'. pipe_run put get other acts s = Some (acc, del, s') \<and> inv s' \<and> pending s @ acc = del @ pending s'"
proof (induction acts arbitrary: s)
  case (Cons act acts)
  show ?case
  proof (cases act)
    case (Put bs)
    then show ?thesis using put_ok [OF Cons.prems, of bs] Cons.IH by fastforce
  next
    case (Get n)
    then show ?thesis using get_ok [OF Cons.prems, of n] Cons.IH by fastforce
  next
    case (Other a)
    then show ?thesis using other_ok [OF Cons.prems, of a] Cons.IH by fastforce
  qed
qed simp

lemma delivered_prefix:
  assumes "inv s" and "pending s = []" and "pipe_run put get other acts s = Some (acc, del, s')"
  shows "\<exists>rest. acc = del @ rest \<and> rest = pending s'"
  using run_fifo [OF assms(1), of acts] assms(2,3) by auto

end

text \<open>A pair: \<open>x\<close> writes, \<open>y\<close> reads; everything else the two ends can do is \<open>pair_op\<close>.\<close>

datatype pair_op = Reverse_write "byte list" | Reverse_read nat | Shutdown_writer | Shutdown_reader | Query nat int

definition pair_put :: "allocator \<Rightarrow> nat \<Rightarrow> byte list \<Rightarrow> pair_store \<Rightarrow> (nat \<times> pair_store) option" where
  "pair_put malloc x bs st = (let buf = take (2 ^ 31 - 1) bs in
     map_option (\<lambda>(r, st'). (nat r, st')) (BIO_write (Some (methods_biop malloc)) (Some x) (Some buf) (int (length buf)) st))"

definition pair_get :: "allocator \<Rightarrow> nat \<Rightarrow> nat \<Rightarrow> pair_store \<Rightarrow> (byte list \<times> pair_store) option" where
  "pair_get malloc y n st =
     map_option (\<lambda>(r, out, st'). (out, st')) (BIO_read (Some (methods_biop malloc)) (Some y) True (int (min n (2 ^ 31 - 1))) st)"

definition pair_other :: "allocator \<Rightarrow> nat \<Rightarrow> nat \<Rightarrow> pair_op \<Rightarrow> pair_store \<Rightarrow> pair_store option" where
  "pair_other malloc x y a st = (case a of
     Reverse_write bs \<Rightarrow> map_option snd (pair_put malloc y bs st)
   | Reverse_read n \<Rightarrow> map_option snd (pair_get malloc x n st)
   | Shutdown_writer \<Rightarrow> map_option snd (BIO_shutdown_wr malloc (Some x) st)
   | Shutdown_reader \<Rightarrow> map_option snd (BIO_shutdown_wr malloc (Some y) st)
   | Query z cmd \<Rightarrow> (if z \<in> {x, y} \<and> cmd \<noteq> BIO_C_SHUTDOWN_WR
       then map_option snd (BIO_ctrl (Some (methods_biop malloc)) (Some z) cmd 0 None st) else Some st))"

lemma pair_put_ok:
  assumes "paired st x y"
  shows "\<exists>n st'. pair_put malloc x bs st = Some (n, st') \<and> paired st' x y
    \<and> queue (out_pipe st' x) = queue (out_pipe st x) @ take n bs \<and> out_pipe st' y = out_pipe st y"
proof -
  obtain buf where b: "buf = take (2 ^ 31 - 1) bs" by blast
  have "length buf < 2 ^ 31" by (simp add: b)
  from BIO_write_pair [OF assms this, of malloc] obtain st' where
    w: "BIO_write (Some (methods_biop malloc)) (Some x) (Some buf) (int (length buf)) st =
      Some (if buf = [] then 0 else fst (pipe_write buf (out_pipe st x)), st')" "paired st' x y"
    "out_pipe st' x = (if buf = [] then out_pipe st x else snd (pipe_write buf (out_pipe st x)))"
    "out_pipe st' y = out_pipe st y" by blast
  have "take (nat (fst (pipe_write buf p))) bs = take (nat (fst (pipe_write buf p))) buf" for p
  proof -
    have "nat (fst (pipe_write buf p)) \<le> length buf" by (simp add: pipe_write_def Let_def)
    also have "\<dots> \<le> 2 ^ 31 - 1" by (simp add: b)
    finally show ?thesis by (simp add: b min_absorb1)
  qed
  moreover have "queue (snd (pipe_write buf p)) = queue p @ take (nat (fst (pipe_write buf p))) buf" for p
    by (simp add: pipe_write_def Let_def)
  moreover have "pair_put malloc x bs st = Some (nat (if buf = [] then 0 else fst (pipe_write buf (out_pipe st x))), st')"
    unfolding pair_put_def Let_def b [symmetric] w(1) by simp
  moreover from calculation(1,2) have "queue (out_pipe st' x)
      = queue (out_pipe st x) @ take (nat (if buf = [] then 0 else fst (pipe_write buf (out_pipe st x)))) bs"
    unfolding w(3) by (cases "buf = []") simp_all
  ultimately show ?thesis using w(2,4) by blast
qed

lemma pair_get_ok:
  assumes "paired st x y"
  shows "\<exists>out st'. pair_get malloc y n st = Some (out, st') \<and> paired st' x y
    \<and> queue (out_pipe st x) = out @ queue (out_pipe st' x) \<and> out_pipe st' y = out_pipe st y"
proof -
  have "min n (2 ^ 31 - 1) < 2 ^ 31" by simp
  then obtain k where k: "k = min n (2 ^ 31 - 1)" "k < 2 ^ 31" by blast
  from BIO_read_pair [OF assms k(2), of malloc] obtain st' where
    r: "BIO_read (Some (methods_biop malloc)) (Some y) True (int k) st =
      Some (if k = 0 then 0 else fst (pipe_read k (out_pipe st x)), if k = 0 then [] else fst (snd (pipe_read k (out_pipe st x))), st')"
    "paired st' x y" "out_pipe st' x = (if k = 0 then out_pipe st x else snd (snd (pipe_read k (out_pipe st x))))"
    "out_pipe st' y = out_pipe st y" by blast
  have q: "queue p = fst (snd (pipe_read k p)) @ queue (snd (snd (pipe_read k p)))" for p
    by (simp add: pipe_read_def Let_def)
  have "queue (out_pipe st x) = (if k = 0 then [] else fst (snd (pipe_read k (out_pipe st x)))) @ queue (out_pipe st' x)"
  proof (cases "k = 0")
    case True
    then show ?thesis by (simp add: r(3))
  next
    case False
    show ?thesis unfolding r(3) if_not_P [OF False] by (rule q)
  qed
  moreover have "pair_get malloc y n st = Some (if k = 0 then [] else fst (snd (pipe_read k (out_pipe st x))), st')"
    unfolding pair_get_def k(1) [symmetric] r(1) by simp
  ultimately show ?thesis using r(2,4) by blast
qed

lemma bio_ctrl_query:
  assumes "paired st x y" and "z \<in> {x, y}" and "cmd \<noteq> BIO_C_SHUTDOWN_WR"
  shows "\<exists>r st'. bio_ctrl z cmd 0 None st = Some (r, st') \<and> paired st' x y
    \<and> queue (out_pipe st' x) = queue (out_pipe st x) \<and> queue (out_pipe st' y) = queue (out_pipe st y)"
proof -
  from assms(1) obtain b p where xy: "x \<noteq> y" and b: "half st x y b" and p: "half st y x p" by (auto simp: paired_def)
  obtain w where w: "w \<in> {x, y}" "w \<noteq> z" "{z, w} = {x, y}" using assms(2) xy by auto
  obtain c d where c: "half st z w c" and d: "half st w z d" using b p w xy by (cases "z = x") auto
  from c obtain C where C: "st z = Some C" "init C" "ptr C = Some c" "peer c = Some w" "wf_half c" by (auto simp: half_def)
  from d obtain D where D: "st w = Some D" "ptr D = Some d" by (auto simp: half_def)
  have ok: "paired (st(z \<mapsto> C')) x y \<and> queue (out_pipe (st(z \<mapsto> C')) x) = queue (out_pipe st x)
      \<and> queue (out_pipe (st(z \<mapsto> C')) y) = queue (out_pipe st y)"
    if "init C'" "ptr C' = Some c'" "wf_half c'" "peer c' = peer c" "contents c' = contents c" for C' c'
  proof -
    have h: "half (st(z \<mapsto> C')) z w c'" using c that by (intro half_update)
    have h': "half (st(z \<mapsto> C')) w z d" using d w(2) by (simp add: half_other)
    have q: "queue (out_pipe (st(z \<mapsto> C')) z) = queue (out_pipe st z)" "queue (out_pipe (st(z \<mapsto> C')) w) = queue (out_pipe st w)"
      using half_out_pipe [OF h] half_out_pipe [OF c] half_out_pipe [OF h'] half_out_pipe [OF d] that(5) by (simp_all add: pipe_of_def)
    have "paired (st(z \<mapsto> C')) z w" using h h' w(2) by (auto simp: paired_def)
    with q w(3) show ?thesis using paired_sym by (auto simp: doubleton_eq_iff)
  qed
  note bc = C(1,3,4) D assms(1)
  show ?thesis
  proof (cases "cmd = BIO_C_RESET_READ_REQUEST \<or> cmd = BIO_CTRL_SET_CLOSE")
    case True
    then show ?thesis
    proof
      assume r: "cmd = BIO_C_RESET_READ_REQUEST"
      have "bio_ctrl z cmd 0 None st = Some (1, st(z \<mapsto> C\<lparr>ptr := Some (c\<lparr>request := 0\<rparr>)\<rparr>))"
        using bc unfolding r by (simp add: bio_ctrl_def BIO_C_GET_WRITE_BUF_SIZE_def BIO_C_GET_WRITE_GUARANTEE_def
            BIO_C_GET_READ_REQUEST_def BIO_C_RESET_READ_REQUEST_def)
      then show ?thesis using ok [of "C\<lparr>ptr := Some (c\<lparr>request := 0\<rparr>)\<rparr>" "c\<lparr>request := 0\<rparr>"] C by simp
    next
      assume r: "cmd = BIO_CTRL_SET_CLOSE"
      have "bio_ctrl z cmd 0 None st = Some (1, st(z \<mapsto> C\<lparr>shutdown := 0\<rparr>))"
        using bc unfolding r by (simp add: bio_ctrl_def BIO_C_GET_WRITE_BUF_SIZE_def BIO_C_GET_WRITE_GUARANTEE_def
            BIO_C_GET_READ_REQUEST_def BIO_C_RESET_READ_REQUEST_def BIO_CTRL_SET_CLOSE_def BIO_C_SHUTDOWN_WR_def BIO_CTRL_GET_CLOSE_def)
      then show ?thesis using ok [of "C\<lparr>shutdown := 0\<rparr>" c] C by simp
    qed
  next
    case False
    then have "\<exists>r. bio_ctrl z cmd 0 None st = Some (r, st)"
      using bc assms(3) by (simp add: bio_ctrl_def)
    then show ?thesis using assms(1) by auto
  qed
qed

lemma pair_other_ok:
  assumes "paired st x y"
  shows "\<exists>st'. pair_other malloc x y a st = Some st' \<and> paired st' x y \<and> queue (out_pipe st' x) = queue (out_pipe st x)"
proof (cases a)
  case (Reverse_write bs)
  then show ?thesis using pair_put_ok [OF paired_sym [OF assms], of malloc bs] paired_sym by (fastforce simp: pair_other_def)
next
  case (Reverse_read n)
  then show ?thesis using pair_get_ok [OF paired_sym [OF assms], of malloc n] paired_sym by (fastforce simp: pair_other_def)
next
  case Shutdown_writer
  obtain st' where "BIO_shutdown_wr malloc (Some x) st = Some (1, st')" "paired st' x y"
    "out_pipe st' x = (out_pipe st x)\<lparr>shut := True\<rparr>"
    using BIO_shutdown_wr_ok [OF assms, of malloc] by blast
  then show ?thesis by (simp add: pair_other_def Shutdown_writer)
next
  case Shutdown_reader
  obtain st' where "BIO_shutdown_wr malloc (Some y) st = Some (1, st')" "paired st' y x" "out_pipe st' x = out_pipe st x"
    using BIO_shutdown_wr_ok [OF paired_sym [OF assms], of malloc] by blast
  then show ?thesis using paired_sym by (simp add: pair_other_def Shutdown_reader)
next
  case (Query z cmd)
  show ?thesis
  proof (cases "z \<in> {x, y} \<and> cmd \<noteq> BIO_C_SHUTDOWN_WR")
    case True
    then obtain r st' where "bio_ctrl z cmd 0 None st = Some (r, st')" "paired st' x y"
      "queue (out_pipe st' x) = queue (out_pipe st x)" using bio_ctrl_query [OF assms] by blast
    then show ?thesis using True by (simp add: pair_other_def Query BIO_ctrl_def methods_biop_def)
  next
    case False
    then show ?thesis using assms by (auto simp: pair_other_def Query)
  qed
qed

interpretation pair_fifo: byte_pipe "\<lambda>st. paired st x y" "\<lambda>st. queue (out_pipe st x)" "pair_put malloc x" "pair_get malloc y"
  "pair_other malloc x y" for malloc x y
  by unfold_locales (use pair_put_ok pair_get_ok pair_other_ok in blast)+

subsection \<open>A new pair\<close>

lemma BIO_new_bio_pair_ok:
  assumes "\<And>m. 8 \<le> m \<Longrightarrow> malloc m \<noteq> None" and "x \<noteq> y" and "n1 < 2 ^ 64 - 8" and "n2 < 2 ^ 64 - 8"
  obtains st' where "BIO_new_bio_pair malloc (Some x) (Some y) n1 n2 st = Some (Some (x, y), st')" and "paired st' x y"
    and "out_pipe st' x = \<lparr>queue = [], capacity = (if n1 = 0 then 17 * 1024 else n1), shut = False, wanted = 0\<rparr>"
    and "out_pipe st' y = \<lparr>queue = [], capacity = (if n2 = 0 then 17 * 1024 else n2), shut = False, wanted = 0\<rparr>"
proof -
  obtain mem where mem: "mem = (\<lambda>k. the (OPENSSL_malloc malloc k))" by blast
  have m: "OPENSSL_malloc malloc k = Some (mem k)" if "k < 2 ^ 64 - 8" for k
    using OPENSSL_malloc_answers [of malloc k, OF assms(1) that] by (auto simp: mem)
  have ml: "length (mem k) = k" if "k < 2 ^ 64 - 8" for k using m [OF that] by (rule length_OPENSSL_malloc)
  obtain c where c1: "c = (\<lambda>n. if n = 0 then 17 * 1024 else n :: nat)" by blast
  then have c: "c n = (if n = 0 then 17 * 1024 else n)" "0 < c n" for n by simp_all
  have small: "c n < 2 ^ 64 - 8" if "n < 2 ^ 64 - 8" for n using that by (simp add: c(1))
  note mlc = ml [OF small [OF assms(3)]] ml [OF small [OF assms(4)]]
  obtain b0 where b0: "b0 = \<lparr>peer = None, closed = False, len = 0, offset = 0, size = 17 * 1024, buf = None, request = 0\<rparr>" by blast
  obtain b where b: "b = (\<lambda>n. \<lparr>peer = None, closed = False, len = 0, offset = 0, size = c n, buf = Some (mem (c n)), request = 0\<rparr>)" by blast
  have "make_buffer malloc n b0 = (True, b n)" if "n < 2 ^ 64 - 8" for n
    using m [OF small [OF that]] by (cases "n = 0") (simp_all add: make_buffer_def Let_def b0 b c(1))
  note mb = this [OF assms(3)] this [OF assms(4)]
  obtain B where B: "B = \<lparr>init = False, shutdown = 1, flags = 0, retry_reason = 0, references = 1, ptr = Some b0, next_bio = None,
      num_read = 0, num_write = 0\<rparr>" by blast
  have new: "BIO_new (methods_biop malloc) (Some z) s = (Some z, s(z \<mapsto> B))" for z s
    by (simp add: BIO_new_def methods_biop_def bio_new_def m B b0)
  let ?s = "st(x \<mapsto> B, y \<mapsto> B, x \<mapsto> B\<lparr>ptr := Some ((b n1)\<lparr>peer := Some y, closed := False, request := 0\<rparr>), init := True\<rparr>,
      y \<mapsto> B\<lparr>ptr := Some ((b n2)\<lparr>peer := Some x, closed := False, request := 0\<rparr>), init := True\<rparr>)"
  have "bio_make_pair malloc x y n1 n2 (st(x \<mapsto> B, y \<mapsto> B)) = Some (True, ?s)"
    using assms(2) by (simp add: bio_make_pair_def mb B) (simp add: b0)
  then have "BIO_new_bio_pair malloc (Some x) (Some y) n1 n2 st = Some (Some (x, y), ?s)"
    by (simp add: BIO_new_bio_pair_def new Let_def)
  moreover have "wf_half ((b n1)\<lparr>peer := p, closed := q, request := r\<rparr>)" "wf_half ((b n2)\<lparr>peer := p, closed := q, request := r\<rparr>)" for p q r
    using c(2) mlc by (simp_all add: wf_half_def b)
  then have "paired ?s x y" using assms(2) by (simp add: paired_def half_def b)
  moreover have "out_pipe ?s x = \<lparr>queue = [], capacity = c n1, shut = False, wanted = 0\<rparr>"
    "out_pipe ?s y = \<lparr>queue = [], capacity = c n2, shut = False, wanted = 0\<rparr>"
    using assms(2) by (simp_all add: out_pipe_def pipe_of_def contents_def b)
  ultimately show thesis using that unfolding c(1) by blast
qed

end
