(* ===== verification/Bio_Asn1.thy ===== *)
theory Bio_Asn1
  imports Bio_Pair Der
begin

text \<open>
  \<open>BIO_read_asn1\<close> of \<open>crypto/bio/bio.c\<close>: one DER element, or the rest of the input when its length
  is indefinite, read from a BIO that may deliver it in pieces. \<open>read\<close> is \<open>BIO_read\<close> on that BIO.
  An output is the bytes stored in the allocated block, \<open>None\<close> when the function returns 0.
\<close>

type_synonym 's source = "int \<Rightarrow> 's \<Rightarrow> (int \<times> byte list \<times> 's) option"

definition INT_MAX :: nat where
  "INT_MAX = 2 ^ 31 - 1"

text \<open>
  \<open>bio_read_full\<close>: the bytes written to \<open>out\<close> so far; the result is the success, \<open>*out_eof_on_first_read\<close>
  (defined on failure) and the bytes. The fuel is the length: a read that succeeds makes it smaller.
  (A method that delivers more than it was asked for would overrun \<open>out\<close>; then the model stops.)
\<close>

primrec bio_read_full_loop :: "nat \<Rightarrow> 's source \<Rightarrow> bool \<Rightarrow> nat \<Rightarrow> byte list \<Rightarrow> 's \<Rightarrow> (bool \<times> bool \<times> byte list \<times> 's) option" where
  "bio_read_full_loop 0 read first_read want out st = (if want = 0 then Some (True, False, out, st) else None)"
| "bio_read_full_loop (Suc n) read first_read want out st =
    (if want = 0 then Some (True, False, out, st)
     else case read (if want \<le> INT_MAX then int want else int INT_MAX) st of
         None \<Rightarrow> None
       | Some (ret, bs, st1) \<Rightarrow>
           if ret \<le> 0 then Some (False, first_read \<and> ret = 0, out, st1)
           else if nat ret > want then None
           else bio_read_full_loop n read False (want - nat ret) (out @ bs) st1)"

definition bio_read_full :: "'s source \<Rightarrow> nat \<Rightarrow> 's \<Rightarrow> (bool \<times> bool \<times> byte list \<times> 's) option" where
  "bio_read_full read want st = bio_read_full_loop want read True want [] st"

definition kChunkSize :: nat where
  "kChunkSize = 4096"

definition next_len :: "nat \<Rightarrow> nat \<Rightarrow> nat" where
  "next_len want max_len =
    (let len1 = size_t (want + kChunkSize) in if len1 < kChunkSize \<or> len1 > max_len then max_len else len1)"

text \<open>
  The loop of \<open>bio_read_all\<close>: the block \<open>out\<close> of \<open>want\<close> bytes, of which \<open>done\<close> are filled. A negative
  result other than -1 is added to \<open>done\<close>, as in the code. The fuel bounds the number of reads; each
  \<open>assert\<close> and a store outside the block end the run with \<open>None\<close>.
\<close>

primrec bio_read_all_loop :: "nat \<Rightarrow> allocator \<Rightarrow> 's source \<Rightarrow> nat \<Rightarrow> byte list \<Rightarrow> nat \<Rightarrow> nat \<Rightarrow> 's \<Rightarrow> (byte list option \<times> 's) option" where
  "bio_read_all_loop 0 malloc read max_len out want fill st = None"
| "bio_read_all_loop (Suc n) malloc read max_len out want fill st =
    (if fill = want then Some (None, st)
     else let todo = size_t (want + 2 ^ 64 - fill) in
       if \<not> todo < INT_MAX then None
       else case read (int todo) st of
           None \<Rightarrow> None
         | Some (r, bs, st1) \<Rightarrow>
             if r = 0 then Some (Some (take fill out), st1)
             else if r = - 1 then Some (None, st1)
             else if bs \<noteq> [] \<and> fill + length bs > want then None
             else let out1 = mem_write out fill bs; fill1 = nat ((int fill + r) mod 2 ^ 64) in
               if want < max_len \<and> size_t (want + 2 ^ 64 - fill1) < kChunkSize div 2 then
                 (let len2 = next_len want max_len
                  in case OPENSSL_realloc malloc (Some out1) len2 of
                       None \<Rightarrow> Some (None, st1)
                     | Some new_buf \<Rightarrow> bio_read_all_loop n malloc read max_len new_buf len2 fill1 st1)
               else bio_read_all_loop n malloc read max_len out1 want fill1 st1)"

definition bio_read_all :: "nat \<Rightarrow> allocator \<Rightarrow> 's source \<Rightarrow> byte list \<Rightarrow> nat \<Rightarrow> 's \<Rightarrow> (byte list option \<times> 's) option" where
  "bio_read_all fuel malloc read prefix max_len st =
    (let len0 = size_t (length prefix + kChunkSize); want = (if len0 > max_len then max_len else len0) in
     if want < length prefix then Some (None, st)
     else case OPENSSL_malloc malloc want of
         None \<Rightarrow> Some (None, st)
       | Some out \<Rightarrow> bio_read_all_loop fuel malloc read max_len (mem_write out 0 prefix) want (length prefix) st)"

text \<open>What follows when the header, of \<open>header_len\<close> bytes, announced \<open>want\<close> bytes of contents.\<close>

definition read_asn1_contents :: "allocator \<Rightarrow> 's source \<Rightarrow> byte list \<Rightarrow> nat \<Rightarrow> nat \<Rightarrow> 's \<Rightarrow> (byte list option \<times> 's) option" where
  "read_asn1_contents malloc read header want max_len st =
    (let header_len = length header in
     if size_t (want + header_len) < want \<or> size_t (want + header_len) > max_len \<or> want > INT_MAX then Some (None, st)
     else let total = size_t (want + header_len) in
       case OPENSSL_malloc malloc total of
         None \<Rightarrow> Some (None, st)
       | Some out \<Rightarrow>
           (case bio_read_full read (total - header_len) st of
              None \<Rightarrow> None
            | Some (ok, _, bs, st1) \<Rightarrow>
                if \<not> ok then Some (None, st1)
                else Some (Some (mem_write (mem_write out 0 header) header_len bs), st1)))"

definition read_asn1 :: "nat \<Rightarrow> allocator \<Rightarrow> 's source \<Rightarrow> nat \<Rightarrow> 's \<Rightarrow> (byte list option \<times> 's) option" where
  "read_asn1 fuel malloc read max_len st =
    (case bio_read_full read 2 st of
       None \<Rightarrow> None
     | Some (ok, _, header, st1) \<Rightarrow>
         if \<not> ok then Some (None, st1)
         else let tag = header ! 0; length_byte = header ! 1 in
           if tag AND 0x1f = 0x1f then Some (None, st1)
           else if length_byte AND 0x80 = 0 then read_asn1_contents malloc read header (unat length_byte) max_len st1
           else let num_bytes = unat (length_byte AND 0x7f) in
             if tag AND 0x20 \<noteq> 0 \<and> num_bytes = 0 then bio_read_all fuel malloc read header max_len st1
             else if num_bytes = 0 \<or> num_bytes > 4 then Some (None, st1)
             else case bio_read_full read num_bytes st1 of
                 None \<Rightarrow> None
               | Some (ok2, _, bs, st2) \<Rightarrow>
                   if \<not> ok2 then Some (None, st2)
                   else let len32 = foldl (\<lambda>l b. push_bit 8 l OR ucast b) 0 bs :: 32 word in
                     if len32 < 128 then Some (None, st2)
                     else if drop_bit ((num_bytes - 1) * 8) len32 = 0 then Some (None, st2)
                     else read_asn1_contents malloc read (header @ bs) (unat len32) max_len st2)"

definition BIO_read_asn1 :: "nat \<Rightarrow> allocator \<Rightarrow> 'p BIO_METHOD option \<Rightarrow> nat option \<Rightarrow> nat \<Rightarrow> 'p store \<Rightarrow> (byte list option \<times> 'p store) option" where
  "BIO_read_asn1 fuel malloc method bio max_len st = read_asn1 fuel malloc (\<lambda>n. BIO_read method bio True n) max_len st"

subsection \<open>Reading from a source of bytes\<close>

text \<open>
  The contract of a read: as long as there are bytes, it delivers at least one and at most what was
  asked for; afterwards its answer is not positive.
\<close>

locale byte_source =
  fixes inv :: "'s \<Rightarrow> bool" and avail :: "'s \<Rightarrow> byte list" and rd :: "'s source"
  assumes rd: "inv s \<Longrightarrow> 0 < n \<Longrightarrow> n < 2 ^ 31 \<Longrightarrow> \<exists>r bs s'. rd (int n) s = Some (r, bs, s') \<and> inv s' \<and> avail s = bs @ avail s'
    \<and> (if avail s = [] then r \<le> 0 else 0 < r \<and> r = int (length bs) \<and> length bs \<le> n)"
begin

lemma ex_not: "Ex Not"
  by (rule exI [of _ False]) simp

lemma read_full_loop:
  "inv s \<Longrightarrow> want \<le> n \<Longrightarrow> \<exists>e bs s'. bio_read_full_loop n rd f want out s = Some (want \<le> length (avail s), e, out @ bs, s') \<and> inv s'
    \<and> bs = take want (avail s) \<and> avail s' = drop want (avail s)"
proof (induction n arbitrary: want f out s)
  case (Suc n)
  show ?case
  proof (cases "want = 0")
    case False
    obtain k where k: "k = (if want \<le> INT_MAX then want else INT_MAX)" "0 < k" "k < 2 ^ 31" "k \<le> want"
      using False by (simp add: INT_MAX_def)
    obtain r bs s1 where r: "rd (int k) s = Some (r, bs, s1)" "inv s1" "avail s = bs @ avail s1"
      "if avail s = [] then r \<le> 0 else 0 < r \<and> r = int (length bs) \<and> length bs \<le> k" using rd [OF Suc.prems(1) k(2,3)] by blast
    have step: "bio_read_full_loop (Suc n) rd f want out s =
        (if r \<le> 0 then Some (False, f \<and> r = 0, out, s1)
         else if nat r > want then None else bio_read_full_loop n rd False (want - nat r) (out @ bs) s1)"
      using False r(1) by (simp add: k(1) if_distrib [of int])
    show ?thesis
    proof (cases "avail s = []")
      case True
      then show ?thesis using step r False by auto
    next
      case nonempty: False
      then have l: "0 < length bs" "nat r = length bs" "length bs \<le> want" "0 < r" using r(4) k(4) by auto
      then have "want - length bs \<le> n" using Suc.prems(2) by simp
      from Suc.IH [OF r(2) this, of False "out @ bs"] l show ?thesis
        unfolding step by (auto simp: r(3) le_diff_conv2 le_diff_conv)
    qed
  qed (use Suc.prems ex_not in simp)
qed (use ex_not in simp)

lemma read_full:
  assumes "inv s"
  obtains e s' where "bio_read_full rd n s = Some (n \<le> length (avail s), e, take n (avail s), s')" and "inv s'" and "avail s' = drop n (avail s)"
  using read_full_loop [OF assms, of n n True "[]"] that unfolding bio_read_full_def by auto

end

text \<open>The number of bytes of the definite-length element at the front of \<open>bs\<close>, if it is accepted.\<close>

definition asn1_extent :: "nat \<Rightarrow> byte list \<Rightarrow> nat option" where
  "asn1_extent max_len bs = (case bs of [] \<Rightarrow> None
     | t # h \<Rightarrow>
         if unat t mod 32 = 31 then None
         else (case len_field h of None \<Rightarrow> None
             | Some (n, k) \<Rightarrow> if 1 + k + n \<le> max_len \<and> n < 2 ^ 31 \<and> 1 + k + n \<le> length bs then Some (1 + k + n) else None))"

definition asn1_indefinite :: "byte list \<Rightarrow> bool" where
  "asn1_indefinite bs = (case bs of t # b # r \<Rightarrow> t AND 0x1f \<noteq> 0x1f \<and> t AND 0x20 \<noteq> 0 \<and> b = 0x80 | _ \<Rightarrow> False)"

lemma header_len32:
  assumes "length bs \<le> 4"
  shows "foldl (\<lambda>l b. push_bit 8 l OR ucast b) (0 :: 32 word) bs = of_nat (be_value bs)"
proof -
  have "length bs \<le> 4 \<Longrightarrow> unat (foldl (\<lambda>l b. push_bit 8 l OR ucast b) (0 :: 32 word) bs) = be_value bs" for bs :: "byte list"
  proof (induction bs rule: rev_induct)
    case (snoc b bs)
    have "be_value bs < 256 ^ length bs" by (rule be_value_bound)
    also have "\<dots> \<le> 256 ^ 3" using snoc.prems by (intro power_increasing) auto
    finally have "be_value bs * 2 ^ 8 < 2 ^ 32" by simp
    moreover have "unat (ucast b :: 32 word) = unat b" by (simp add: unsigned_ucast_eq take_bit_nat_eq_self unat_byte_lt [THEN less_trans])
    ultimately show ?case using snoc unat_byte_lt [of b] by (subst foldl_append) (simp add: unat_shift_or)
  qed simp
  from this [OF assms] show ?thesis by (rule unat_eqD)
qed

lemma low5: "(t :: byte) AND 0x1f = 0x1f \<longleftrightarrow> unat t mod 32 = 31"
  by (simp add: word_unat_eq_iff unat_byte_low5)

lemma malloc_block:
  assumes "\<And>n. malloc n \<noteq> None"
  shows "\<exists>p. OPENSSL_malloc malloc n = Some p \<and> length p = n"
  using OPENSSL_malloc_total [of malloc n, OF assms] length_OPENSSL_malloc by blast

context byte_source
begin

lemma read_asn1_contents_eq:
  assumes "inv s" and "want < 2 ^ 32" and "length header \<le> 6" and "\<And>n. malloc n \<noteq> None"
  shows "\<exists>s'. read_asn1_contents malloc rd header want max_len s =
      Some (if length header + want \<le> max_len \<and> want < 2 ^ 31 \<and> want \<le> length (avail s) then Some (header @ take want (avail s)) else None, s')
    \<and> inv s' \<and> (length header + want \<le> max_len \<and> want < 2 ^ 31 \<and> want \<le> length (avail s) \<longrightarrow> avail s' = drop want (avail s))"
proof -
  have sz: "size_t (want + length header) = want + length header" using assms(2,3) by (intro size_t_id) simp
  obtain p where p: "OPENSSL_malloc malloc (want + length header) = Some p" "length p = want + length header"
    using malloc_block [where malloc = malloc, OF assms(4)] by blast
  obtain e s1 where full: "bio_read_full rd want s = Some (want \<le> length (avail s), e, take want (avail s), s1)"
    "inv s1" "avail s1 = drop want (avail s)" using read_full [OF assms(1)] by blast
  have "mem_write (mem_write p 0 header) (length header) (take want (avail s)) = header @ take want (avail s)"
    if "want \<le> length (avail s)"
    using mem_write_append [of 0 header "take want (avail s)" p] p(2) that by (simp add: mem_write_def)
  then show ?thesis using sz p full assms(1)
    by (auto simp: read_asn1_contents_def Let_def INT_MAX_def add.commute)
qed

lemma long_form_eq:
  assumes "inv s" and total: "\<And>n. malloc n \<noteq> None" and k: "0 < k" "k \<le> 4"
  shows "\<exists>s'. (case bio_read_full rd k s of
       None \<Rightarrow> None
     | Some (ok2, _, bs, st2) \<Rightarrow>
         if \<not> ok2 then Some (None, st2)
         else let len32 = foldl (\<lambda>l b. push_bit 8 l OR ucast b) 0 bs :: 32 word in
           if len32 < 128 then Some (None, st2)
           else if drop_bit ((k - 1) * 8) len32 = 0 then Some (None, st2)
           else read_asn1_contents malloc rd ([t, b] @ bs) (unat len32) max_len st2) =
      Some (case len_field (byte_of (128 + k) # avail s) of
          Some (n, j) \<Rightarrow> if 1 + j + n \<le> max_len \<and> n < 2 ^ 31 \<and> j + n \<le> 1 + length (avail s) then Some ([t, b] @ take (k + n) (avail s)) else None
        | None \<Rightarrow> None, s')
    \<and> inv s' \<and> (\<forall>n j. len_field (byte_of (128 + k) # avail s) = Some (n, j) \<longrightarrow> 1 + j + n \<le> max_len \<longrightarrow> n < 2 ^ 31 \<longrightarrow>
          j + n \<le> 1 + length (avail s) \<longrightarrow> avail s' = drop (k + n) (avail s))"
proof -
  obtain e s2 where full: "bio_read_full rd k s = Some (k \<le> length (avail s), e, take k (avail s), s2)"
    "inv s2" "avail s2 = drop k (avail s)" using read_full [OF assms(1)] by blast
  let ?n = "be_value (take k (avail s))"
  have n32: "?n < 2 ^ 32"
  proof -
    have "?n < 256 ^ k" by (rule be_value_take_bound)
    also have "\<dots> \<le> 256 ^ 4" using k by (intro power_increasing) auto
    finally show ?thesis by simp
  qed
  let ?len32 = "foldl (\<lambda>l b. push_bit 8 l OR ucast b) 0 (take k (avail s)) :: 32 word"
  have u: "unat ?len32 = ?n" using k n32 by (subst header_len32) (auto intro: unat_of_nat_lt)
  have lt: "?len32 < 128 \<longleftrightarrow> ?n < 128" by (simp add: word_less_nat_alt u)
  have shift: "drop_bit ((k - 1) * 8) ?len32 = 0 \<longleftrightarrow> ?n < 256 ^ (k - 1)"
  proof -
    have "drop_bit ((k - 1) * 8) ?len32 = 0 \<longleftrightarrow> ?n div 2 ^ ((k - 1) * 8) = 0"
      by (simp only: word_unat_eq_iff unat_drop_bit u unsigned_0)
    also have "(2 :: nat) ^ ((k - 1) * 8) = 256 ^ (k - 1)"
      using power_mult [of "2 :: nat" 8 "k - 1"] by (simp add: mult.commute)
    finally show ?thesis by (simp add: div_eq_0_iff)
  qed
  have b: "unat (byte_of (128 + k)) = 128 + k" using k by (intro unat_byte_of) simp
  have lf: "len_field (byte_of (128 + k) # avail s) =
      (if length (avail s) < k \<or> ?n < 128 \<or> ?n < 256 ^ (k - 1) then None else Some (?n, 1 + k))"
    using k by (simp add: len_field_def b Let_def)
  show ?thesis
  proof (cases "length (avail s) < k \<or> ?n < 128 \<or> ?n < 256 ^ (k - 1)")
    case True
    then have none: "len_field (byte_of (128 + k) # avail s) = None" by (simp add: lf)
    show ?thesis by (rule exI [of _ s2]) (use True none full lt shift in \<open>auto simp: Let_def\<close>)
  next
    case False
    have "length ([t, b] @ take k (avail s)) \<le> 6" using k by simp
    from read_asn1_contents_eq [where malloc = malloc and max_len = max_len, OF full(2) n32 this total]
    obtain s3 where s3: "read_asn1_contents malloc rd ([t, b] @ take k (avail s)) ?n max_len s2 =
        Some (if length ([t, b] @ take k (avail s)) + ?n \<le> max_len \<and> ?n < 2 ^ 31 \<and> ?n \<le> length (avail s2)
              then Some (([t, b] @ take k (avail s)) @ take ?n (avail s2)) else None, s3)" "inv s3"
      "length ([t, b] @ take k (avail s)) + ?n \<le> max_len \<and> ?n < 2 ^ 31 \<and> ?n \<le> length (avail s2) \<longrightarrow> avail s3 = drop ?n (avail s2)"
      by blast
    show ?thesis by (rule exI [of _ s3]) (use False lf full lt shift u s3 in \<open>auto simp: Let_def take_add add.commute\<close>)
  qed
qed

lemma read_asn1_eq:
  assumes "inv s" and total: "\<And>n. malloc n \<noteq> None" and "\<not> asn1_indefinite (avail s)"
  shows "\<exists>s'. read_asn1 fuel malloc rd max_len s = Some (map_option (\<lambda>m. take m (avail s)) (asn1_extent max_len (avail s)), s')
    \<and> inv s' \<and> (\<forall>m. asn1_extent max_len (avail s) = Some m \<longrightarrow> avail s' = drop m (avail s))"
proof -
  obtain e s1 where full: "bio_read_full rd 2 s = Some (2 \<le> length (avail s), e, take 2 (avail s), s1)"
    "inv s1" "avail s1 = drop 2 (avail s)" using read_full [OF assms(1)] by blast
  show ?thesis
  proof (cases "2 \<le> length (avail s)")
    case False
    then have "asn1_extent max_len (avail s) = None"
      by (cases "avail s") (auto simp: asn1_extent_def len_field_def split: list.split)
    then show ?thesis using full False by (simp add: read_asn1_def)
  next
    case True
    then obtain t b r where q: "avail s = t # b # r" by (metis One_nat_def Suc_1 length_greater_0_conv list.exhaust list.size(3) not_less_eq_eq Suc_le_eq length_Cons less_Suc_eq_0_disj)
    have s1: "avail s1 = r" using full(3) q by simp
    have unfolded: "read_asn1 fuel malloc rd max_len s =
       (if unat t mod 32 = 31 then Some (None, s1)
        else if unat b < 128 then read_asn1_contents malloc rd [t, b] (unat b) max_len s1
        else let num_bytes = unat b mod 128 in
             if t AND 0x20 \<noteq> 0 \<and> num_bytes = 0 then bio_read_all fuel malloc rd [t, b] max_len s1
             else if num_bytes = 0 \<or> num_bytes > 4 then Some (None, s1)
             else case bio_read_full rd num_bytes s1 of
                 None \<Rightarrow> None
               | Some (ok2, _, bs, st2) \<Rightarrow>
                   if \<not> ok2 then Some (None, st2)
                   else let len32 = foldl (\<lambda>l b. push_bit 8 l OR ucast b) 0 bs :: 32 word in
                     if len32 < 128 then Some (None, st2)
                     else if drop_bit ((num_bytes - 1) * 8) len32 = 0 then Some (None, st2)
                     else read_asn1_contents malloc rd ([t, b] @ bs) (unat len32) max_len st2)"
      using full q by (simp add: read_asn1_def low5 byte_high_bit unat_byte_low7)
    show ?thesis
    proof (cases "unat t mod 32 = 31")
      case True
      then show ?thesis using unfolded full(2) q by (simp add: asn1_extent_def)
    next
      case low: False
      show ?thesis
      proof (cases "unat b < 128")
        case True
        then have "asn1_extent max_len (avail s) =
            (if 2 + unat b \<le> max_len \<and> unat b < 2 ^ 31 \<and> unat b \<le> length r then Some (2 + unat b) else None)"
          using low by (simp add: q asn1_extent_def len_field_def)
        moreover have "read_asn1 fuel malloc rd max_len s = read_asn1_contents malloc rd [t, b] (unat b) max_len s1"
          using unfolded low True by simp
        moreover have "unat b < 2 ^ 32" using unat_byte_lt [of b] by (rule less_trans) simp
        ultimately show ?thesis
          using read_asn1_contents_eq [where malloc = malloc and want = "unat b" and header = "[t, b]" and max_len = max_len, OF full(2) _ _ total]
          by (auto simp: s1 q split: if_splits)
      next
        case False
        then obtain k where uk: "unat b = 128 + k" using le_Suc_ex by (auto simp: not_less)
        then have k: "unat b mod 128 = k" using unat_byte_lt [of b] by simp
        show ?thesis
        proof (cases "k = 0 \<or> k > 4")
          case True
          have "b = 0x80 \<longleftrightarrow> k = 0" by (simp add: word_unat_eq_iff uk)
          then have "\<not> (t AND 0x20 \<noteq> 0 \<and> k = 0)" using assms(3) low by (auto simp: asn1_indefinite_def q low5)
          then have "read_asn1 fuel malloc rd max_len s = Some (None, s1)" using unfolded low False k True by auto
          moreover have "asn1_extent max_len (avail s) = None" using True False uk low by (auto simp: asn1_extent_def q len_field_def)
          ultimately show ?thesis using full(2) by simp
        next
          case range: False
          then have k14: "0 < k" "k \<le> 4" by auto
          have b: "byte_of (128 + k) = b" using uk by (intro byte_of_eq) simp
          have "\<exists>s2. read_asn1 fuel malloc rd max_len s =
              Some (case len_field (b # r) of
                  Some (n, j) \<Rightarrow> if 1 + j + n \<le> max_len \<and> n < 2 ^ 31 \<and> j + n \<le> 1 + length r then Some ([t, b] @ take (k + n) r) else None
                | None \<Rightarrow> None, s2) \<and> inv s2 \<and>
              (\<forall>n j. len_field (b # r) = Some (n, j) \<longrightarrow> 1 + j + n \<le> max_len \<longrightarrow> n < 2 ^ 31 \<longrightarrow> j + n \<le> 1 + length r \<longrightarrow> avail s2 = drop (k + n) r)"
            using long_form_eq [where malloc = malloc and max_len = max_len and t = t and b = b, OF full(2) total k14, unfolded b s1]
              low False range by (simp only: unfolded k Let_def if_False if_True simp_thms de_Morgan_disj)
          then obtain s2 where s2: "read_asn1 fuel malloc rd max_len s =
              Some (case len_field (b # r) of
                  Some (n, j) \<Rightarrow> if 1 + j + n \<le> max_len \<and> n < 2 ^ 31 \<and> j + n \<le> 1 + length r then Some ([t, b] @ take (k + n) r) else None
                | None \<Rightarrow> None, s2)" "inv s2"
            "\<And>n j. len_field (b # r) = Some (n, j) \<Longrightarrow> 1 + j + n \<le> max_len \<Longrightarrow> n < 2 ^ 31 \<Longrightarrow> j + n \<le> 1 + length r \<Longrightarrow> avail s2 = drop (k + n) r"
            by blast
          have "j = 1 + k" if "len_field (b # r) = Some (n, j)" for n j
            using that False uk by (auto simp: len_field_def Let_def split: if_splits)
          then show ?thesis using s2 low
            by (auto simp: q asn1_extent_def split: option.splits prod.splits)
        qed
      qed
    qed
  qed
qed

end

lemma low_tag_byte:
  assumes "unat tag mod 2 ^ 29 < 31"
  shows "\<exists>t. der_tag tag = [t] \<and> unat t mod 32 = unat tag mod 2 ^ 29"
proof -
  have "unat tag < 2 ^ 32" using unsigned_less [of tag] by simp
  then have "unat tag div 2 ^ 29 < 8" by (simp add: less_mult_imp_div_less)
  then have "unat tag div 2 ^ 29 * 32 + unat tag mod 2 ^ 29 < 256" using assms by linarith
  then show ?thesis using assms by (simp add: der_tag_def Let_def unat_byte_of mod_add_left_eq)
qed

lemma low_byte_tag:
  assumes "unat (t :: byte) mod 32 \<noteq> 31"
  shows "\<exists>tag. der_tag tag = [t] \<and> unat tag mod 2 ^ 29 < 31"
proof -
  have v: "unat (of_nat (unat t mod 32) :: 32 word) = unat t mod 32"
    by (intro unat_of_nat_lt) (simp add: less_trans [OF mod_less_divisor])
  have "unat t mod 32 < 31" using assms mod_less_divisor [of 32 "unat t"] by linarith
  then have lt: "unat (of_nat (unat t mod 32) :: 32 word) < 31" unfolding v .
  then have "der_tag (tag_top t OR of_nat (unat t mod 32)) = [t]"
    by (subst der_tag_of_parts) (simp_all only: v, simp_all add: byte_of_eq)
  moreover have "unat (tag_top t OR of_nat (unat t mod 32)) mod 2 ^ 29 < 31"
    using lt by (subst unat_tag_or) (simp_all add: v)
  ultimately show ?thesis by blast
qed

lemma asn1_extent_iff:
  "asn1_extent max_len bs = Some m \<longleftrightarrow>
     (\<exists>tag c rest. bs = der_element tag c @ rest \<and> unat tag mod 2 ^ 29 < 31 \<and> length c < 2 ^ 31
        \<and> m = length (der_element tag c) \<and> m \<le> max_len)"
proof
  assume "asn1_extent max_len bs = Some m"
  then obtain t h n k where bs: "bs = t # h" "unat t mod 32 \<noteq> 31" "len_field h = Some (n, k)" "m = 1 + k + n" "m \<le> max_len"
    "n < 2 ^ 31" "m \<le> length bs"
    by (auto simp: asn1_extent_def split: list.splits if_splits option.splits)
  obtain tag where tag: "der_tag tag = [t]" "unat tag mod 2 ^ 29 < 31" using low_byte_tag [OF bs(2)] by blast
  have h: "k = length (der_len n)" "take k h = der_len n" "k \<le> length h" using len_field_sound [OF bs(3)] by auto
  have "h = der_len n @ take n (drop k h) @ drop (k + n) h"
    using h by (metis append_take_drop_id drop_drop add.commute)
  moreover have "length (take n (drop k h)) = n" using bs by simp
  ultimately have "bs = der_element tag (take n (drop k h)) @ drop (k + n) h" "length (der_element tag (take n (drop k h))) = m"
    using tag bs h by (simp_all add: der_element_def der_header_def)
  then show "\<exists>tag c rest. bs = der_element tag c @ rest \<and> unat tag mod 2 ^ 29 < 31 \<and> length c < 2 ^ 31
        \<and> m = length (der_element tag c) \<and> m \<le> max_len"
    using tag bs \<open>length (take n (drop k h)) = n\<close> by metis
next
  assume "\<exists>tag c rest. bs = der_element tag c @ rest \<and> unat tag mod 2 ^ 29 < 31 \<and> length c < 2 ^ 31
        \<and> m = length (der_element tag c) \<and> m \<le> max_len"
  then obtain tag c rest where bs: "bs = der_element tag c @ rest" and low: "unat tag mod 2 ^ 29 < 31" and c: "length c < 2 ^ 31"
    and m: "m = length (der_element tag c)" "m \<le> max_len" by blast
  obtain t where t: "der_tag tag = [t]" "unat t mod 32 = unat tag mod 2 ^ 29" using low_tag_byte [OF low] by blast
  have "len_field (der_len (length c) @ c @ rest) = Some (length c, length (der_len (length c)))"
    using c by (intro len_field_der_len) simp
  then show "asn1_extent max_len bs = Some m"
    using t low c m by (simp add: bs der_element_def der_header_def asn1_extent_def)
qed

subsection \<open>Reading everything\<close>

lemma realloc_block:
  assumes "\<And>n. malloc n \<noteq> None" and "length old \<le> n"
  shows "\<exists>p. OPENSSL_realloc malloc (Some old) n = Some (old @ p) \<and> length (old @ p) = n"
proof -
  obtain p where p: "OPENSSL_malloc malloc n = Some p" "length p = n"
    using malloc_block [where malloc = malloc, OF assms(1)] by blast
  then have "OPENSSL_realloc malloc (Some old) n = Some (old @ drop (length old) p)"
    using assms(2) by (auto simp: OPENSSL_realloc_def mem_write_def)
  then show ?thesis using p(2) assms(2) by auto
qed

lemma size_t_sub:
  assumes "b \<le> a" and "a - b < 2 ^ 64"
  shows "size_t (a + 2 ^ 64 - b) = a - b"
proof -
  have "a + 2 ^ 64 - b = a - b + 2 ^ 64" using assms(1) by simp
  then show ?thesis using assms(2) by (simp only: size_t_def mod_add_self2 mod_less)
qed

text \<open>The size of the next block.\<close>

lemma next_chunk:
  assumes "want < max_len" and "max_len < 2 ^ 64"
  shows "next_len want max_len = min (want + 4096) max_len"
proof (cases "want + 4096 < 2 ^ 64")
  case True
  then show ?thesis by (auto simp: next_len_def kChunkSize_def size_t_def Let_def)
next
  case False
  then have "(want + 4096) mod 2 ^ 64 = want + 4096 - 2 ^ 64" using assms by (simp add: mod_if)
  then have "size_t (want + kChunkSize) = want + 4096 - 2 ^ 64" by (simp add: kChunkSize_def size_t_def)
  moreover have "want + 4096 - 2 ^ 64 < kChunkSize" using False assms unfolding kChunkSize_def by linarith
  ultimately show ?thesis using False assms by (simp add: next_len_def Let_def)
qed

text \<open>A source that reports its end by 0.\<close>

locale ended_source = byte_source +
  assumes ended: "inv s \<Longrightarrow> avail s = [] \<Longrightarrow> 0 < n \<Longrightarrow> n < 2 ^ 31 \<Longrightarrow> rd (int n) s = Some (r, bs, s') \<Longrightarrow> r = 0"
begin

text \<open>
  The loop of \<open>bio_read_all\<close>: the block never has \<open>2 ^ 13\<close> bytes free, and while it is shorter than
  \<open>max_len\<close> at least half a chunk is free, so that a full block means \<open>max_len\<close> bytes read.
\<close>

lemma read_all_loop:
  assumes total: "\<And>n. malloc n \<noteq> None" and "max_len < 2 ^ 64"
  shows "inv s \<Longrightarrow> length (avail s) < fuel \<Longrightarrow> length out = want \<Longrightarrow> fill \<le> want \<Longrightarrow> want \<le> max_len \<Longrightarrow> want - fill < 2 ^ 13
      \<Longrightarrow> (want < max_len \<longrightarrow> fill + 2048 \<le> want) \<Longrightarrow>
    \<exists>s'. bio_read_all_loop fuel malloc rd max_len out want fill s =
        Some (if fill + length (avail s) < max_len then Some (take fill out @ avail s) else None, s')
      \<and> inv s' \<and> (fill + length (avail s) < max_len \<longrightarrow> avail s' = [])"
proof (induction fuel arbitrary: s out want fill)
  case (Suc fuel)
  show ?case
  proof (cases "fill = want")
    case True
    then show ?thesis using Suc.prems by auto
  next
    case False
    obtain k where k: "k = want - fill" "0 < k" "k < 2 ^ 31" "k < INT_MAX"
      using False Suc.prems(4,6) by (simp add: INT_MAX_def)
    have todo: "size_t (want + 2 ^ 64 - fill) = k"
      unfolding k(1) using k(3) Suc.prems(4) by (intro size_t_sub) (simp_all add: k(1))
    obtain r bs s1 where r: "rd (int k) s = Some (r, bs, s1)" "inv s1" "avail s = bs @ avail s1"
      "if avail s = [] then r \<le> 0 else 0 < r \<and> r = int (length bs) \<and> length bs \<le> k" using rd [OF Suc.prems(1) k(2,3)] by blast
    show ?thesis
    proof (cases "avail s = []")
      case True
      then have "r = 0" using ended [OF Suc.prems(1) _ k(2,3) r(1)] by simp
      then show ?thesis using True False todo k r Suc.prems(4,5) by (simp add: Let_def)
    next
      case nonempty: False
      have l: "0 < length bs" "length bs \<le> k" "r = int (length bs)" using r(4) nonempty by auto
      obtain fill1 out1 where fill1: "fill1 = fill + length bs" and out1: "out1 = mem_write out fill bs" by blast
      have out: "length out1 = want" "take fill1 out1 = take fill out @ bs"
        using l k Suc.prems(3,4) by (simp_all add: out1 fill1 take_mem_write_upto)
      have fill: "fill1 \<le> want" "nat ((int fill + r) mod 2 ^ 64) = fill1"
      proof -
        show "fill1 \<le> want" using l k Suc.prems(4) by (simp add: fill1)
        then have "fill1 < 2 ^ 64" using Suc.prems(5) assms(2) by linarith
        then show "nat ((int fill + r) mod 2 ^ 64) = fill1" using l(3) by (simp add: fill1 flip: of_nat_add)
      qed
      have free: "size_t (want + 2 ^ 64 - fill1) = want - fill1"
        using fill(1) Suc.prems(5) assms(2) by (intro size_t_sub) linarith+
      have step: "bio_read_all_loop (Suc fuel) malloc rd max_len out want fill s =
         (if want < max_len \<and> want - fill1 < 2048 then
            case OPENSSL_realloc malloc (Some out1) (min (want + 4096) max_len) of
                 None \<Rightarrow> Some (None, s1)
               | Some new_buf \<Rightarrow> bio_read_all_loop fuel malloc rd max_len new_buf (min (want + 4096) max_len) fill1 s1
          else bio_read_all_loop fuel malloc rd max_len out1 want fill1 s1)"
      proof -
        have half: "kChunkSize div 2 = 2048" by (simp add: kChunkSize_def)
        have fits: "\<not> (bs \<noteq> [] \<and> want < fill + length bs)" "r \<noteq> 0" "r \<noteq> - 1" using fill(1) l by (simp_all add: fill1)
        show ?thesis
          using False fits next_chunk [OF _ assms(2), of want]
          by (simp only: bio_read_all_loop.simps Let_def todo k(4) r(1) fill(2) free half out1 [symmetric] option.case prod.case if_False if_True not_True_eq_False
              cong: if_cong conj_cong)
      qed
      have "length (avail s) = length bs + length (avail s1)" by (simp add: r(3))
      then have left: "length (avail s1) < fuel" using Suc.prems(2) l(1) by linarith
      have same: "fill + length (avail s) = fill1 + length (avail s1)" "take fill out @ avail s = take fill1 out1 @ avail s1"
        by (simp_all add: r(3) fill1 out(2) [unfolded fill1])
      show ?thesis
      proof (cases "want < max_len \<and> want - fill1 < 2048")
        case True
        obtain len2 where len2: "len2 = min (want + 4096) max_len" "want \<le> len2" using Suc.prems(5) by auto
        obtain p where p: "OPENSSL_realloc malloc (Some out1) len2 = Some (out1 @ p)" "length (out1 @ p) = len2"
          using realloc_block [where malloc = malloc, OF total] out(1) len2(2) by metis
        have "\<exists>s'. bio_read_all_loop fuel malloc rd max_len (out1 @ p) len2 fill1 s1 =
            Some (if fill1 + length (avail s1) < max_len then Some (take fill1 (out1 @ p) @ avail s1) else None, s')
          \<and> inv s' \<and> (fill1 + length (avail s1) < max_len \<longrightarrow> avail s' = [])"
          by (rule Suc.IH [OF r(2) left p(2)]) (use Suc.prems(2-6) l(1) r(3) len2 fill(1) True in auto)
        moreover have "take fill1 (out1 @ p) = take fill1 out1" using fill(1) out(1) by simp
        ultimately show ?thesis
          using True by (simp only: step same p(1) len2(1) [symmetric] if_True simp_thms option.case)
      next
        case no: False
        have "\<exists>s'. bio_read_all_loop fuel malloc rd max_len out1 want fill1 s1 =
            Some (if fill1 + length (avail s1) < max_len then Some (take fill1 out1 @ avail s1) else None, s')
          \<and> inv s' \<and> (fill1 + length (avail s1) < max_len \<longrightarrow> avail s' = [])"
          by (rule Suc.IH [OF r(2) left out(1)]) (use Suc.prems(2-7) l(1) r(3) fill(1) no fill1 in auto)
        then show ?thesis
          using no by (simp only: step same if_False)
      qed
    qed
  qed
qed simp

lemma read_all:
  assumes "inv s" and total: "\<And>n. malloc n \<noteq> None" and "max_len < 2 ^ 64" and "length prefix < 2 ^ 32" and "length (avail s) < fuel"
  shows "\<exists>s'. bio_read_all fuel malloc rd prefix max_len s =
        Some (if length prefix + length (avail s) < max_len then Some (prefix @ avail s) else None, s')
      \<and> inv s' \<and> (length prefix + length (avail s) < max_len \<longrightarrow> avail s' = [])"
proof -
  obtain want where want: "want = (if length prefix + 4096 > max_len then max_len else length prefix + 4096)" by blast
  have sz: "size_t (length prefix + kChunkSize) = length prefix + 4096" using assms(4) by (simp add: size_t_def kChunkSize_def)
  show ?thesis
  proof (cases "want < length prefix")
    case True
    then show ?thesis using want assms(1) sz by (auto simp: bio_read_all_def Let_def split: if_splits)
  next
    case False
    obtain p where p: "OPENSSL_malloc malloc want = Some p" "length p = want"
      using malloc_block [where malloc = malloc, OF total] by blast
    have "bio_read_all fuel malloc rd prefix max_len s = bio_read_all_loop fuel malloc rd max_len (mem_write p 0 prefix) want (length prefix) s"
      using False p by (simp add: bio_read_all_def sz want)
    moreover have "length (mem_write p 0 prefix) = want" "take (length prefix) (mem_write p 0 prefix) = prefix"
      using False p(2) by (simp_all add: mem_write_def)
    ultimately show ?thesis
      using read_all_loop [where malloc = malloc and max_len = max_len, OF total assms(3,1,5), of "mem_write p 0 prefix" want "length prefix"] False want
      by (auto split: if_splits)
  qed
qed

end

subsection \<open>An error taken for progress\<close>

text \<open>A source that gives a fixed list of answers.\<close>

fun scripted_read :: "(int \<times> byte list) list source" where
  "scripted_read n [] = Some (- 1, [], [])"
| "scripted_read n ((r, bs) # s) = Some (r, bs, s)"

lemma below_int_max:
  assumes "fill \<le> want" and "want < INT_MAX"
  shows "size_t (want + 2 ^ 64 - fill) = want - fill" and "want - fill < INT_MAX"
proof -
  have "want - fill < 2 ^ 64" using assms(2) by (simp add: INT_MAX_def)
  with assms(1) show "size_t (want + 2 ^ 64 - fill) = want - fill" by (rule size_t_sub)
  show "want - fill < INT_MAX" using assms by simp
qed

lemma next_read:
  assumes "fill \<noteq> want" and "fill \<le> want" and "want < INT_MAX" and "rd (int (want - fill)) s = Some (r, bs, s1)" and "r \<noteq> 0" and "r \<noteq> - 1"
    and "fill + length bs \<le> want" and "nat ((int fill + r) mod 2 ^ 64) = fill1" and "fill1 + 2048 \<le> want"
  shows "bio_read_all_loop (Suc n) malloc rd max_len out want fill s = bio_read_all_loop n malloc rd max_len (mem_write out fill bs) want fill1 s1"
proof -
  note todo = below_int_max [OF assms(2,3)]
  have "fill1 \<le> want" using assms(9) by simp
  note free = below_int_max(1) [OF this assms(3)]
  have "\<not> want - fill1 < kChunkSize div 2" using assms(9) by (simp add: kChunkSize_def)
  then show ?thesis using assms(1,4-8) todo free
    by (simp only: bio_read_all_loop.simps Let_def option.case prod.case if_False if_True not_True_eq_False not_le [symmetric]) simp
qed

lemma read_end:
  assumes "fill \<noteq> want" and "fill \<le> want" and "want < INT_MAX" and "rd (int (want - fill)) s = Some (0, bs, s1)"
  shows "bio_read_all_loop (Suc n) malloc rd max_len out want fill s = Some (Some (take fill out), s1)"
proof -
  show ?thesis using assms below_int_max [OF assms(2,3)] by (simp only: bio_read_all_loop.simps Let_def) simp
qed

lemma bio_read_all_minus_two:
  assumes "length prefix = 2" and "0 < length bs" and "length bs \<le> 2048" and "4098 \<le> max_len" and "max_len < 2 ^ 64"
    and "malloc (malloc_request 4098) \<noteq> None"
  shows "bio_read_all (Suc (Suc (Suc fuel))) malloc scripted_read prefix max_len [(- 2, []), (int (length bs), bs), (0, [])] = Some (Some bs, [])"
proof -
  obtain p where p: "OPENSSL_malloc malloc 4098 = Some p" "length p = 4098"
    using assms(6) by (auto simp: OPENSSL_malloc_def)
  have big: "4098 < INT_MAX" by (simp add: INT_MAX_def)
  have "size_t (length prefix + kChunkSize) = 4098" by (simp add: assms(1) kChunkSize_def size_t_def)
  then have "bio_read_all (Suc (Suc (Suc fuel))) malloc scripted_read prefix max_len [(- 2, []), (int (length bs), bs), (0, [])] =
    bio_read_all_loop (Suc (Suc (Suc fuel))) malloc scripted_read max_len (mem_write p 0 prefix) 4098 2 [(- 2, []), (int (length bs), bs), (0, [])]"
    using assms(1,4) p(1) by (simp only: bio_read_all_def Let_def) simp
  also have "\<dots> = bio_read_all_loop (Suc (Suc fuel)) malloc scripted_read max_len (mem_write p 0 prefix) 4098 0 [(int (length bs), bs), (0, [])]"
    using next_read [of 2 4098 scripted_read "[(- 2, []), (int (length bs), bs), (0, [])]" "- 2" "[]" "[(int (length bs), bs), (0, [])]" 0] big by simp
  also have "\<dots> = bio_read_all_loop (Suc fuel) malloc scripted_read max_len (mem_write (mem_write p 0 prefix) 0 bs) 4098 (length bs) [(0, [])]"
  proof (rule next_read)
    show "int (length bs) \<noteq> 0" "int (length bs) \<noteq> - 1" using assms(2) by linarith+
    show "nat ((int 0 + int (length bs)) mod 2 ^ 64) = length bs" using assms(3) by simp
  qed (use assms(3) big in simp_all)
  also have "\<dots> = Some (Some (take (length bs) (mem_write (mem_write p 0 prefix) 0 bs)), [])"
    using assms(3) big by (intro read_end) simp_all
  also have "take (length bs) (mem_write (mem_write p 0 prefix) 0 bs) = bs" by (simp add: mem_write_def)
  finally show ?thesis .
qed

subsection \<open>Reading from the other side of a pair\<close>

definition pair_source :: "allocator \<Rightarrow> nat \<Rightarrow> pair_store source" where
  "pair_source malloc y n st = BIO_read (Some (methods_biop malloc)) (Some y) True n st"

lemma pair_source_ok:
  assumes "paired st x y" and "0 < n" and "n < 2 ^ 31"
  shows "\<exists>r bs st'. pair_source malloc y (int n) st = Some (r, bs, st') \<and> paired st' x y
    \<and> queue (out_pipe st x) = bs @ queue (out_pipe st' x) \<and> shut (out_pipe st' x) = shut (out_pipe st x)
    \<and> (if queue (out_pipe st x) = [] then r = (if shut (out_pipe st x) then 0 else - 1) else 0 < r \<and> r = int (length bs) \<and> length bs \<le> n)"
proof -
  from BIO_read_pair [OF assms(1,3), of malloc] obtain st' where
    st': "BIO_read (Some (methods_biop malloc)) (Some y) True (int n) st =
      Some (fst (pipe_read n (out_pipe st x)), fst (snd (pipe_read n (out_pipe st x))), st')"
    "paired st' x y" "out_pipe st' x = snd (snd (pipe_read n (out_pipe st x)))"
    using assms(2) by auto
  then show ?thesis using assms(2) by (auto simp: pair_source_def pipe_read_def Let_def split: if_splits)
qed

interpretation from_pair: byte_source "\<lambda>st. paired st x y" "\<lambda>st. queue (out_pipe st x)" "pair_source malloc y" for x y malloc
proof
  show "\<exists>r bs st'. pair_source malloc y (int n) st = Some (r, bs, st') \<and> paired st' x y \<and> queue (out_pipe st x) = bs @ queue (out_pipe st' x)
      \<and> (if queue (out_pipe st x) = [] then r \<le> 0 else 0 < r \<and> r = int (length bs) \<and> length bs \<le> n)"
    if "paired st x y" "0 < n" "n < 2 ^ 31" for st n
    using pair_source_ok [OF that, of malloc] by (auto split: if_splits)
qed

interpretation from_shut_pair: ended_source "\<lambda>st. paired st x y \<and> shut (out_pipe st x)" "\<lambda>st. queue (out_pipe st x)" "pair_source malloc y" for x y malloc
proof
  show "\<exists>r bs st'. pair_source malloc y (int n) st = Some (r, bs, st') \<and> (paired st' x y \<and> shut (out_pipe st' x)) \<and> queue (out_pipe st x) = bs @ queue (out_pipe st' x)
      \<and> (if queue (out_pipe st x) = [] then r \<le> 0 else 0 < r \<and> r = int (length bs) \<and> length bs \<le> n)"
    if "paired st x y \<and> shut (out_pipe st x)" "0 < n" "n < 2 ^ 31" for st n
    using pair_source_ok [of st x y n malloc] that by (auto split: if_splits)
  show "r = 0" if "paired st x y \<and> shut (out_pipe st x)" "queue (out_pipe st x) = []" "0 < n" "n < 2 ^ 31"
    "pair_source malloc y (int n) st = Some (r, bs, st')" for st n r bs st'
    using pair_source_ok [of st x y n malloc] that by auto
qed

lemma BIO_read_asn1_pair:
  "BIO_read_asn1 fuel malloc (Some (methods_biop malloc')) (Some y) max_len = read_asn1 fuel malloc (pair_source malloc' y) max_len"
  by (rule ext) (simp add: BIO_read_asn1_def pair_source_def [abs_def])

context ended_source
begin

lemma read_asn1_indefinite:
  assumes "inv s" and total: "\<And>n. malloc n \<noteq> None" and "max_len < 2 ^ 64" and "asn1_indefinite (avail s)" and "length (avail s) < fuel"
  shows "\<exists>s'. read_asn1 fuel malloc rd max_len s = Some (if length (avail s) < max_len then Some (avail s) else None, s')
    \<and> inv s' \<and> (length (avail s) < max_len \<longrightarrow> avail s' = [])"
proof -
  obtain t r where q: "avail s = t # 0x80 # r" "t AND 0x1f \<noteq> 0x1f" "t AND 0x20 \<noteq> 0"
    using assms(4) by (auto simp: asn1_indefinite_def split: list.splits)
  obtain e s1 where full: "bio_read_full rd 2 s = Some (2 \<le> length (avail s), e, take 2 (avail s), s1)"
    "inv s1" "avail s1 = drop 2 (avail s)" using read_full [OF assms(1)] by blast
  have "read_asn1 fuel malloc rd max_len s = bio_read_all fuel malloc rd [t, 0x80] max_len s1"
    using full q by (simp add: read_asn1_def)
  moreover have same: "length [t, 0x80 :: byte] + length (avail s1) = length (avail s)" "[t, 0x80] @ avail s1 = avail s"
    and "length (avail s1) < fuel" using assms(5) full(3) q(1) by simp_all
  ultimately show ?thesis
    using read_all [where malloc = malloc and prefix = "[t, 0x80]" and fuel = fuel, OF full(2) total assms(3), unfolded same] by simp
qed

end

lemma extent_prefix:
  "map_option (\<lambda>m. take m q) (asn1_extent max_len q) = Some el \<longleftrightarrow>
     (\<exists>tag c rest. el = der_element tag c \<and> q = el @ rest \<and> unat tag mod 2 ^ 29 < 31 \<and> length c < 2 ^ 31 \<and> length el \<le> max_len)"
proof
  assume "map_option (\<lambda>m. take m q) (asn1_extent max_len q) = Some el"
  then obtain m where m: "asn1_extent max_len q = Some m" "el = take m q" by auto
  then show "\<exists>tag c rest. el = der_element tag c \<and> q = el @ rest \<and> unat tag mod 2 ^ 29 < 31 \<and> length c < 2 ^ 31 \<and> length el \<le> max_len"
    by (auto simp: asn1_extent_iff) blast
next
  assume "\<exists>tag c rest. el = der_element tag c \<and> q = el @ rest \<and> unat tag mod 2 ^ 29 < 31 \<and> length c < 2 ^ 31 \<and> length el \<le> max_len"
  then obtain tag c rest where el: "el = der_element tag c" "q = el @ rest" "unat tag mod 2 ^ 29 < 31" "length c < 2 ^ 31" "length el \<le> max_len"
    by blast
  then have "asn1_extent max_len q = Some (length el)" by (auto simp: asn1_extent_iff)
  with el(2) show "map_option (\<lambda>m. take m q) (asn1_extent max_len q) = Some el" by simp
qed

end
