(* ===== verification/Lhash.thy ===== *)
theory Lhash
  imports Mem
begin

text \<open>
  The hash table of \<open>crypto/lhash/lhash.c\<close>: an array of chains, resized with the number of items.
  A chain is the list of its items (the data and its hash) from the head on; \<open>LHASH_ITEM **\<close> is the
  position of an item in its chain, past the end for the NULL at the end of it. The callers'
  functions \<open>comp\<close> and \<open>hash\<close> are fields, as in the code.
\<close>

record 'a LHASH =
  num_items :: nat
  buckets :: "('a \<times> 32 word) list list"
  num_buckets :: nat
  callback_depth :: nat
  comp :: "'a \<Rightarrow> 'a \<Rightarrow> int"
  hash :: "'a \<Rightarrow> 32 word"

definition kMinNumBuckets :: nat where
  "kMinNumBuckets = 16"

definition kMaxAverageChainLength :: nat where
  "kMaxAverageChainLength = 2"

definition kMinAverageChainLength :: nat where
  "kMinAverageChainLength = 1"

definition lh_new :: "allocator \<Rightarrow> ('a \<Rightarrow> 32 word) \<Rightarrow> ('a \<Rightarrow> 'a \<Rightarrow> int) \<Rightarrow> 'a LHASH option" where
  "lh_new malloc h c =
    (if OPENSSL_malloc malloc 48 = None then None
     else if OPENSSL_malloc malloc (8 * kMinNumBuckets) = None then None
     else Some \<lparr>num_items = 0, buckets = replicate kMinNumBuckets [], num_buckets = kMinNumBuckets, callback_depth = 0,
       comp = c, hash = h\<rparr>)"

definition lh_num_items :: "'a LHASH \<Rightarrow> nat" where
  "lh_num_items lh = num_items lh"

fun chain_position :: "('a \<Rightarrow> bool) \<Rightarrow> ('a \<times> 32 word) list \<Rightarrow> nat" where
  "chain_position p [] = 0"
| "chain_position p ((d, h) # c) = (if p d then 0 else Suc (chain_position p c))"

text \<open>The hash of the data, its bucket, and the position in the chain.\<close>

definition get_next_ptr_and_hash :: "'a LHASH \<Rightarrow> 'a \<Rightarrow> 32 word \<times> nat \<times> nat" where
  "get_next_ptr_and_hash lh x =
    (let b = unat (hash lh x) mod num_buckets lh
     in (hash lh x, b, chain_position (\<lambda>d. comp lh d x = 0) (buckets lh ! b)))"

definition get_next_ptr_by_key :: "'a LHASH \<Rightarrow> 'k \<Rightarrow> 32 word \<Rightarrow> ('k \<Rightarrow> 'a \<Rightarrow> int) \<Rightarrow> nat \<times> nat" where
  "get_next_ptr_by_key lh k key_hash cmp_key =
    (let b = unat key_hash mod num_buckets lh in (b, chain_position (\<lambda>d. cmp_key k d = 0) (buckets lh ! b)))"

definition lh_retrieve :: "'a LHASH \<Rightarrow> 'a \<Rightarrow> 'a option" where
  "lh_retrieve lh x =
    (let (_, b, i) = get_next_ptr_and_hash lh x
     in if i = length (buckets lh ! b) then None else Some (fst (buckets lh ! b ! i)))"

definition lh_retrieve_key :: "'a LHASH \<Rightarrow> 'k \<Rightarrow> 32 word \<Rightarrow> ('k \<Rightarrow> 'a \<Rightarrow> int) \<Rightarrow> 'a option" where
  "lh_retrieve_key lh k key_hash cmp_key =
    (let (b, i) = get_next_ptr_by_key lh k key_hash cmp_key
     in if i = length (buckets lh ! b) then None else Some (fst (buckets lh ! b ! i)))"

definition rebucket_item :: "nat \<Rightarrow> ('a \<times> 32 word) list list \<Rightarrow> 'a \<times> 32 word \<Rightarrow> ('a \<times> 32 word) list list" where
  "rebucket_item n new_buckets cur =
    (let b = unat (snd cur) mod n in new_buckets[b := cur # new_buckets ! b])"

definition lh_rebucket :: "allocator \<Rightarrow> 'a LHASH \<Rightarrow> nat \<Rightarrow> 'a LHASH" where
  "lh_rebucket malloc lh new_num_buckets =
    (let alloc_size = size_t (8 * new_num_buckets) in
     if alloc_size div 8 \<noteq> new_num_buckets then lh
     else if OPENSSL_malloc malloc alloc_size = None then lh
     else lh\<lparr>buckets := foldl (rebucket_item new_num_buckets) (replicate new_num_buckets []) (concat (buckets lh)),
             num_buckets := new_num_buckets\<rparr>)"

definition lh_maybe_resize :: "allocator \<Rightarrow> 'a LHASH \<Rightarrow> 'a LHASH" where
  "lh_maybe_resize malloc lh =
    (if callback_depth lh > 0 then lh
     else let avg_chain_length = num_items lh div num_buckets lh in
       if avg_chain_length > kMaxAverageChainLength then
         (let new_num_buckets = size_t (num_buckets lh * 2)
          in if new_num_buckets > num_buckets lh then lh_rebucket malloc lh new_num_buckets else lh)
       else if avg_chain_length < kMinAverageChainLength \<and> num_buckets lh > kMinNumBuckets then
         (let half = num_buckets lh div 2; new_num_buckets = (if half < kMinNumBuckets then kMinNumBuckets else half)
          in lh_rebucket malloc lh new_num_buckets)
       else lh)"

text \<open>The flag, \<open>*old_data\<close>, and the table.\<close>

definition lh_insert :: "allocator \<Rightarrow> 'a LHASH \<Rightarrow> 'a \<Rightarrow> bool \<times> 'a option \<times> 'a LHASH" where
  "lh_insert malloc lh x =
    (let (h, b, i) = get_next_ptr_and_hash lh x; chain = buckets lh ! b in
     if i \<noteq> length chain then
       (True, Some (fst (chain ! i)), lh\<lparr>buckets := (buckets lh)[b := chain[i := (x, snd (chain ! i))]]\<rparr>)
     else if OPENSSL_malloc malloc 24 = None then (False, None, lh)
     else (True, None, lh_maybe_resize malloc
       (lh\<lparr>buckets := (buckets lh)[b := chain @ [(x, h)]], num_items := size_t (num_items lh + 1)\<rparr>)))"

definition lh_delete :: "allocator \<Rightarrow> 'a LHASH \<Rightarrow> 'a \<Rightarrow> 'a option \<times> 'a LHASH" where
  "lh_delete malloc lh x =
    (let (_, b, i) = get_next_ptr_and_hash lh x; chain = buckets lh ! b in
     if i = length chain then (None, lh)
     else (Some (fst (chain ! i)), lh_maybe_resize malloc
       (lh\<lparr>buckets := (buckets lh)[b := take i chain @ drop (Suc i) chain], num_items := size_t (num_items lh + (2 ^ 64 - 1))\<rparr>)))"

definition UINT_MAX :: nat where
  "UINT_MAX = 2 ^ 32 - 1"

text \<open>\<open>lh_doall_arg\<close> with a callback that leaves the table alone; its effect is the state \<open>'s\<close>.\<close>

definition lh_doall_arg :: "allocator \<Rightarrow> 'a LHASH \<Rightarrow> ('a \<Rightarrow> 's \<Rightarrow> 's) \<Rightarrow> 's \<Rightarrow> 's \<times> 'a LHASH" where
  "lh_doall_arg malloc lh func arg =
    (let lh1 = (if callback_depth lh < UINT_MAX then lh\<lparr>callback_depth := callback_depth lh + 1\<rparr> else lh);
         arg1 = foldl (\<lambda>s chain. foldl (\<lambda>s cur. func (fst cur) s) s chain) arg (buckets lh1);
         lh2 = (if callback_depth lh1 < UINT_MAX then lh1\<lparr>callback_depth := callback_depth lh1 - 1\<rparr> else lh1)
     in (arg1, lh_maybe_resize malloc lh2))"

definition lh_strhash :: "byte list option \<Rightarrow> 32 word option" where
  "lh_strhash c = (case c of None \<Rightarrow> Some 0
     | Some s \<Rightarrow> (case c_strlen s of None \<Rightarrow> None | Some n \<Rightarrow> Some (OPENSSL_hash32 (take n s))))"

subsection \<open>The table as a finite map\<close>

text \<open>
  \<open>key\<close> is what the comparison function identifies. A table is well formed when the two functions
  agree, every item lies in the bucket of its hash, no key occurs twice and the count is right.
\<close>

definition functions_agree :: "('a \<Rightarrow> 'k) \<Rightarrow> 'a LHASH \<Rightarrow> bool" where
  "functions_agree key lh \<longleftrightarrow> (\<forall>x y. comp lh x y = 0 \<longleftrightarrow> key x = key y) \<and> (\<forall>x y. key x = key y \<longrightarrow> hash lh x = hash lh y)"

definition chains_ok :: "('a \<Rightarrow> 'k) \<Rightarrow> ('a \<Rightarrow> 32 word) \<Rightarrow> nat \<Rightarrow> ('a \<times> 32 word) list list \<Rightarrow> bool" where
  "chains_ok key hs n bs \<longleftrightarrow> length bs = n \<and>
    (\<forall>b < n. distinct (map (\<lambda>i. key (fst i)) (bs ! b)) \<and> (\<forall>(d, h) \<in> set (bs ! b). h = hs d \<and> unat h mod n = b))"

definition wf_lhash :: "('a \<Rightarrow> 'k) \<Rightarrow> 'a LHASH \<Rightarrow> bool" where
  "wf_lhash key lh \<longleftrightarrow> functions_agree key lh \<and> chains_ok key (hash lh) (num_buckets lh) (buckets lh)
     \<and> kMinNumBuckets \<le> num_buckets lh \<and> num_buckets lh < 2 ^ 64 \<and> num_items lh = length (concat (buckets lh))"

definition chain_map :: "('a \<Rightarrow> 'k) \<Rightarrow> ('a \<times> 32 word) list \<Rightarrow> 'k \<Rightarrow> 'a option" where
  "chain_map key c = map_of (map (\<lambda>(d, h). (key d, d)) c)"

definition entries :: "('a \<Rightarrow> 'k) \<Rightarrow> 'a LHASH \<Rightarrow> 'k \<Rightarrow> 'a option" where
  "entries key lh = chain_map key (concat (buckets lh))"

lemma chain_map_simps [simp]:
  "chain_map key [] = Map.empty" "chain_map key (i # c) = (chain_map key c)(key (fst i) \<mapsto> fst i)"
  "chain_map key (c @ d) = chain_map key d ++ chain_map key c"
  by (auto simp: chain_map_def case_prod_unfold)

lemma chain_map_None: "chain_map key c k = None \<longleftrightarrow> k \<notin> key ` fst ` set c"
  by (induction c) auto

lemma chain_map_Some: "chain_map key c k = Some d \<Longrightarrow> key d = k \<and> d \<in> fst ` set c"
  by (induction c) (auto split: if_splits)

lemma chain_position_le: "chain_position p c \<le> length c"
  by (induction c) auto

lemma chain_position_map:
  assumes "\<And>d. p d \<longleftrightarrow> key d = k"
  shows "(if chain_position p c = length c then None else Some (fst (c ! chain_position p c))) = chain_map key c k"
proof -
  have p: "p = (\<lambda>d. key d = k)" using assms by (simp add: fun_eq_iff)
  show ?thesis unfolding p
  proof (induction c)
    case (Cons i c)
    obtain d h where "i = (d, h)" by (cases i)
    with Cons chain_position_le [of "\<lambda>d. key d = k" c] show ?case by (auto split: if_splits)
  qed simp
qed

lemma chain_position_hit:
  "chain_position p c \<noteq> length c \<Longrightarrow> chain_position p c < length c \<and> p (fst (c ! chain_position p c))"
proof (induction c)
  case (Cons i c)
  then show ?case by (cases i) auto
qed simp

lemma chain_position_miss: "chain_position p c = length c \<Longrightarrow> d \<in> fst ` set c \<Longrightarrow> \<not> p d"
proof (induction c)
  case (Cons i c)
  then show ?case by (cases i) (auto split: if_splits)
qed simp

lemma chain_map_iff:
  assumes "distinct (map (\<lambda>i. key (fst i)) c)"
  shows "chain_map key c k = Some d \<longleftrightarrow> (\<exists>h. (d, h) \<in> set c) \<and> key d = k"
proof -
  have "map fst (map (\<lambda>(d, h). (key d, d)) c) = map (\<lambda>i. key (fst i)) c" by (simp add: case_prod_unfold)
  then have "distinct (map fst (map (\<lambda>(d, h). (key d, d)) c))" using assms by (simp only:)
  then show ?thesis unfolding chain_map_def by (subst map_of_eq_Some_iff) (simp, force)
qed

lemma in_concat_nth: "x \<in> set (concat bs) \<longleftrightarrow> (\<exists>j < length bs. x \<in> set (bs ! j))"
  unfolding set_concat UN_iff by (metis in_set_conv_nth)

lemma chains_ok_item:
  "chains_ok key hs n bs \<Longrightarrow> b < n \<Longrightarrow> (d, h) \<in> set (bs ! b) \<Longrightarrow> h = hs d \<and> unat h mod n = b"
  by (auto simp: chains_ok_def)

lemma bucket_items:
  assumes "chains_ok key hs n bs" and "b < n"
  shows "set (bs ! b) = {(d, h) \<in> set (concat bs). unat h mod n = b}"
proof
  show "set (bs ! b) \<subseteq> {(d, h) \<in> set (concat bs). unat h mod n = b}"
    using assms nth_mem [of b bs] by (fastforce simp: chains_ok_def)
  show "{(d, h) \<in> set (concat bs). unat h mod n = b} \<subseteq> set (bs ! b)"
  proof clarify
    fix d h
    assume "(d, h) \<in> set (concat bs)" and h: "b = unat h mod n"
    then obtain j where j: "j < length bs" "(d, h) \<in> set (bs ! j)" unfolding in_concat_nth by blast
    then have "j < n" using assms(1) by (simp add: chains_ok_def)
    then have "unat h mod n = j" using chains_ok_item [OF assms(1) _ j(2)] by blast
    with j(2) show "(d, h) \<in> set (bs ! (unat h mod n))" by metis
  qed
qed

lemma chains_distinct:
  assumes "chains_ok key hs n bs" and "\<forall>x y. key x = key y \<longrightarrow> hs x = hs y"
  shows "distinct (map (\<lambda>i. key (fst i)) (concat bs))"
proof -
  have "m \<le> n \<Longrightarrow> distinct (map (\<lambda>i. key (fst i)) (concat (take m bs)))" for m
  proof (induction m)
    case (Suc m)
    then have m: "m < n" "length bs = n" using assms(1) by (auto simp: chains_ok_def)
    have "key (fst i) \<noteq> key (fst j)" if "i \<in> set (concat (take m bs))" "j \<in> set (bs ! m)" for i j
    proof
      assume k: "key (fst i) = key (fst j)"
      from that(1) obtain l where l: "l < m" "i \<in> set (bs ! l)" using m unfolding in_concat_nth by auto
      have "snd i = hs (fst i) \<and> unat (snd i) mod n = l" using l m by (intro chains_ok_item [OF assms(1)]) simp_all
      moreover have "snd j = hs (fst j) \<and> unat (snd j) mod n = m" using that(2) m by (intro chains_ok_item [OF assms(1)]) simp_all
      moreover have "hs (fst i) = hs (fst j)" using assms(2) k by blast
      ultimately have "l = m" by metis
      with l(1) show False by simp
    qed
    then have "set (map (\<lambda>i. key (fst i)) (concat (take m bs))) \<inter> set (map (\<lambda>i. key (fst i)) (bs ! m)) = {}"
      by (fastforce simp del: set_concat)
    moreover have "distinct (map (\<lambda>i. key (fst i)) (bs ! m))" using assms(1) m(1) by (simp add: chains_ok_def)
    moreover have "distinct (map (\<lambda>i. key (fst i)) (concat (take m bs)))" using m by (intro Suc.IH) simp
    moreover have "concat (take (Suc m) bs) = concat (take m bs) @ bs ! m" using m by (simp add: take_Suc_conv_app_nth)
    ultimately show ?case by (simp only: map_append distinct_append simp_thms)
  qed simp
  from this [of n] show ?thesis using assms(1) by (simp add: chains_ok_def)
qed

lemma entries_iff:
  assumes "chains_ok key hs n bs" and "0 < n" and "\<forall>x y. key x = key y \<longrightarrow> hs x = hs y"
  shows "chain_map key (concat bs) k = Some d \<longleftrightarrow> (d, hs d) \<in> set (concat bs) \<and> key d = k"
proof -
  have "h = hs d" if "(d, h) \<in> set (concat bs)" for h
  proof -
    have "(d, h) \<in> set (bs ! (unat h mod n))" using that bucket_items [OF assms(1), of "unat h mod n"] assms(2) by simp
    then show ?thesis using chains_ok_item [OF assms(1), of "unat h mod n" d h] assms(2) by simp
  qed
  then show ?thesis unfolding chain_map_iff [OF chains_distinct [OF assms(1) assms(3)]] by blast
qed

lemma length_concat_update:
  assumes "b < length bs"
  shows "length (concat (bs[b := c])) + length (bs ! b) = length (concat bs) + length c"
  using assms by (induction bs arbitrary: b) (auto split: nat.splits)

lemma chains_update:
  assumes "chains_ok key hs n bs" and "b < n" and "distinct (map (\<lambda>i. key (fst i)) c)"
    and "\<And>d h. (d, h) \<in> set c \<Longrightarrow> h = hs d \<and> unat h mod n = b"
  shows "chains_ok key hs n (bs[b := c])"
    and "set (concat (bs[b := c])) = {(d, h) \<in> set (concat bs). unat h mod n \<noteq> b} \<union> set c"
proof -
  show ok: "chains_ok key hs n (bs[b := c])"
    using assms unfolding chains_ok_def by (auto simp: nth_list_update)
  have "i \<in> set (concat (bs[b := c])) \<longleftrightarrow> i \<in> {(d, h) \<in> set (concat bs). unat h mod n \<noteq> b} \<union> set c" for i
  proof -
    obtain d h where i: "i = (d, h)" by (cases i)
    obtain j where j: "j = unat h mod n" "j < n" using assms(2) by simp
    have n: "length bs = n" using assms(1) by (simp add: chains_ok_def)
    have "i \<in> set (concat (bs[b := c])) \<longleftrightarrow> i \<in> set (bs[b := c] ! j)"
      using bucket_items [OF ok j(2)] i j(1) by auto
    also have "\<dots> \<longleftrightarrow> (if j = b then i \<in> set c else i \<in> set (bs ! j))"
      using j(2) n by (simp add: nth_list_update)
    also have "\<dots> \<longleftrightarrow> i \<in> {(d, h) \<in> set (concat bs). unat h mod n \<noteq> b} \<union> set c"
      using bucket_items [OF assms(1) j(2)] i j(1) assms(4) by auto
    finally show ?thesis .
  qed
  then show "set (concat (bs[b := c])) = {(d, h) \<in> set (concat bs). unat h mod n \<noteq> b} \<union> set c" by blast
qed

lemma wf_lhash_chains: "wf_lhash key lh \<Longrightarrow> chains_ok key (hash lh) (num_buckets lh) (buckets lh)"
  by (simp only: wf_lhash_def)

lemma wf_lhash_bounds:
  "wf_lhash key lh \<Longrightarrow> kMinNumBuckets \<le> num_buckets lh \<and> 0 < num_buckets lh \<and> num_buckets lh < 2 ^ 64
    \<and> num_items lh = length (concat (buckets lh)) \<and> length (buckets lh) = num_buckets lh"
  unfolding wf_lhash_def chains_ok_def kMinNumBuckets_def by (elim conjE) simp

lemma wf_lhash_hash: "wf_lhash key lh \<Longrightarrow> \<forall>x y. key x = key y \<longrightarrow> hash lh x = hash lh y"
  unfolding wf_lhash_def functions_agree_def by (elim conjE)

lemma wf_lhash_comp: "wf_lhash key lh \<Longrightarrow> comp lh x y = 0 \<longleftrightarrow> key x = key y"
  unfolding wf_lhash_def functions_agree_def by blast

lemma entries_Some:
  assumes "wf_lhash key lh"
  shows "entries key lh k = Some d \<longleftrightarrow> (d, hash lh d) \<in> set (concat (buckets lh)) \<and> key d = k"
  unfolding entries_def
  by (rule entries_iff [OF wf_lhash_chains [OF assms] _ wf_lhash_hash [OF assms]]) (simp add: wf_lhash_bounds [OF assms])

lemma map_eq_Some: "(\<And>k d. m k = Some d \<longleftrightarrow> m' k = Some d) \<Longrightarrow> m = m'"
  by (metis ext option.exhaust)

lemma entries_eqI:
  assumes "wf_lhash key lh" and "\<And>k d. (d, hash lh d) \<in> set (concat (buckets lh)) \<and> key d = k \<longleftrightarrow> m k = Some d"
  shows "entries key lh = m"
  by (rule map_eq_Some) (simp only: entries_Some [OF assms(1)] assms(2))

lemma option_eqI: "(\<And>d. a = Some d \<longleftrightarrow> b = Some d) \<Longrightarrow> a = b"
  by (cases a; cases b) auto

text \<open>The bucket of a key holds what the table holds under it.\<close>

lemma bucket_entries:
  assumes "wf_lhash key lh"
  shows "chain_map key (buckets lh ! (unat (hash lh x) mod num_buckets lh)) (key x) = entries key lh (key x)"
proof -
  obtain b where b: "b = unat (hash lh x) mod num_buckets lh" "b < num_buckets lh" using wf_lhash_bounds [OF assms] by simp
  note ok = wf_lhash_chains [OF assms]
  have "chain_map key (buckets lh ! b) (key x) = Some d \<longleftrightarrow> entries key lh (key x) = Some d" for d
  proof -
    have "distinct (map (\<lambda>i. key (fst i)) (buckets lh ! b))" using ok b(2) by (simp add: chains_ok_def)
    then have "chain_map key (buckets lh ! b) (key x) = Some d \<longleftrightarrow> (\<exists>h. (d, h) \<in> set (buckets lh ! b)) \<and> key d = key x"
      by (rule chain_map_iff)
    also have "\<dots> \<longleftrightarrow> (d, hash lh d) \<in> set (buckets lh ! b) \<and> key d = key x"
      using chains_ok_item [OF ok b(2), of d] by blast
    also have "\<dots> \<longleftrightarrow> (d, hash lh d) \<in> set (concat (buckets lh)) \<and> key d = key x"
    proof -
      have "unat (hash lh d) mod num_buckets lh = b" if "key d = key x"
        using wf_lhash_hash [OF assms] that b(1) by metis
      then show ?thesis unfolding bucket_items [OF ok b(2)] by blast
    qed
    finally show ?thesis unfolding entries_Some [OF assms] .
  qed
  then show ?thesis unfolding b(1) [symmetric] by (rule option_eqI)
qed

lemma lh_retrieve_entries:
  assumes "wf_lhash key lh"
  shows "lh_retrieve lh x = entries key lh (key x)"
  unfolding bucket_entries [OF assms, symmetric]
  by (subst chain_position_map [of "\<lambda>d. comp lh d x = 0", symmetric])
     (simp_all add: lh_retrieve_def get_next_ptr_and_hash_def Let_def wf_lhash_comp [OF assms])

lemma lh_retrieve_key_entries:
  assumes "wf_lhash key lh" and "\<And>d. cmp_key k d = 0 \<longleftrightarrow> key d = key x"
  shows "lh_retrieve_key lh k (hash lh x) cmp_key = entries key lh (key x)"
  unfolding bucket_entries [OF assms(1), symmetric]
  by (subst chain_position_map [of "\<lambda>d. cmp_key k d = 0", symmetric])
     (simp_all add: lh_retrieve_key_def get_next_ptr_by_key_def Let_def assms(2))

lemma num_items_card:
  assumes "wf_lhash key lh"
  shows "num_items lh = card (dom (entries key lh))"
proof -
  have d: "distinct (map (\<lambda>i. key (fst i)) (concat (buckets lh)))"
    using chains_distinct [OF wf_lhash_chains [OF assms] wf_lhash_hash [OF assms]] .
  have "dom (entries key lh) = set (map (\<lambda>i. key (fst i)) (concat (buckets lh)))"
    unfolding entries_def set_map image_image [of key fst, symmetric]
    by (rule set_eqI) (simp only: domIff chain_map_None not_not)
  then show ?thesis using distinct_card [OF d] wf_lhash_bounds [OF assms] by simp
qed

subsection \<open>Resizing\<close>

lemma rebucket_items:
  assumes "chains_ok key hs n bs" and "0 < n" and "\<And>d h. (d, h) \<in> set items \<Longrightarrow> h = hs d"
    and "distinct (map (\<lambda>i. key (fst i)) (concat bs @ items))" and "\<forall>x y. key x = key y \<longrightarrow> hs x = hs y"
  shows "chains_ok key hs n (foldl (rebucket_item n) bs items)
    \<and> set (concat (foldl (rebucket_item n) bs items)) = set (concat bs) \<union> set items
    \<and> length (concat (foldl (rebucket_item n) bs items)) = length (concat bs) + length items"
  using assms(1,3,4)
proof (induction items arbitrary: bs)
  case (Cons i items)
  obtain d h where i: "i = (d, h)" by (cases i)
  obtain b where b: "b = unat h mod n" "b < n" using assms(2) by simp
  have bs: "length bs = n" using Cons.prems(1) by (simp add: chains_ok_def)
  have sub: "set (bs ! b) \<subseteq> set (concat bs)" unfolding bucket_items [OF Cons.prems(1) b(2)] by blast
  have dist: "distinct (map (\<lambda>i. key (fst i)) (bs ! b))" using Cons.prems(1) b(2) by (simp add: chains_ok_def)
  have new: "distinct (map (\<lambda>i. key (fst i)) (i # bs ! b))" using dist sub Cons.prems(3) by (auto simp del: set_concat)
  have inb: "h' = hs d' \<and> unat h' mod n = b" if "(d', h') \<in> set (i # bs ! b)" for d' h'
    using that chains_ok_item [OF Cons.prems(1) b(2), of d' h'] Cons.prems(2) [of d' h'] by (auto simp: i b(1))
  note up = chains_update [OF Cons.prems(1) b(2) new inb]
  have set_up: "set (concat (bs[b := i # bs ! b])) = insert i (set (concat bs))"
    by (subst up(2)) (use bucket_items [OF Cons.prems(1) b(2)] sub in \<open>auto simp del: set_concat\<close>)
  have len_up: "length (concat (bs[b := i # bs ! b])) = Suc (length (concat bs))"
    using length_concat_update [of b bs "i # bs ! b"] b(2) bs by simp
  have "distinct (map (\<lambda>i. key (fst i)) (concat (bs[b := i # bs ! b]) @ items))"
    using chains_distinct [OF up(1) assms(5)] Cons.prems(3) set_up by (auto simp del: set_concat)
  then have "chains_ok key hs n (foldl (rebucket_item n) (bs[b := i # bs ! b]) items)
    \<and> set (concat (foldl (rebucket_item n) (bs[b := i # bs ! b]) items)) = insert i (set (concat bs)) \<union> set items
    \<and> length (concat (foldl (rebucket_item n) (bs[b := i # bs ! b]) items)) = Suc (length (concat bs)) + length items"
    using Cons.IH [OF up(1)] Cons.prems(2) unfolding set_up len_up by (simp del: set_concat)
  moreover have "rebucket_item n bs i = bs[b := i # bs ! b]" by (simp add: rebucket_item_def Let_def i b(1))
  ultimately show ?case by (simp del: set_concat)
qed simp


lemma replicate_chains_ok: "chains_ok key hs n (replicate n [])"
  by (simp add: chains_ok_def)

lemma functions_agree_cong: "comp lh' = comp lh \<Longrightarrow> hash lh' = hash lh \<Longrightarrow> functions_agree key lh' = functions_agree key lh"
  by (simp add: functions_agree_def)

lemma wf_lhash_functions: "wf_lhash key lh \<Longrightarrow> functions_agree key lh"
  by (simp only: wf_lhash_def)

lemma entries_cong:
  assumes "wf_lhash key lh" and "wf_lhash key lh'" and "hash lh' = hash lh"
    and "set (concat (buckets lh')) = set (concat (buckets lh))"
  shows "entries key lh' = entries key lh"
  by (rule entries_eqI [OF assms(2)]) (simp only: assms(3,4) entries_Some [OF assms(1)])

lemma lh_rebucket_ok:
  assumes "wf_lhash key lh" and "kMinNumBuckets \<le> n" and "n < 2 ^ 64"
  shows "wf_lhash key (lh_rebucket malloc lh n) \<and> entries key (lh_rebucket malloc lh n) = entries key lh
    \<and> num_items (lh_rebucket malloc lh n) = num_items lh
    \<and> hash (lh_rebucket malloc lh n) = hash lh \<and> callback_depth (lh_rebucket malloc lh n) = callback_depth lh"
proof -
  obtain bs where bs: "bs = foldl (rebucket_item n) (replicate n []) (concat (buckets lh))" by blast
  have n: "0 < n" using assms(2) by (simp add: kMinNumBuckets_def)
  have h: "h = hash lh d" if "(d, h) \<in> set (concat (buckets lh))" for d h
    using that bucket_items [OF wf_lhash_chains [OF assms(1)]] chains_ok_item [OF wf_lhash_chains [OF assms(1)]]
      wf_lhash_bounds [OF assms(1)] unfolding in_concat_nth by metis
  have "distinct (map (\<lambda>i. key (fst i)) (concat (replicate n []) @ concat (buckets lh)))"
    using chains_distinct [OF wf_lhash_chains [OF assms(1)] wf_lhash_hash [OF assms(1)]] by (simp del: set_concat)
  from rebucket_items [OF replicate_chains_ok n h this wf_lhash_hash [OF assms(1)]]
  have b: "chains_ok key (hash lh) n bs" "set (concat bs) = set (concat (buckets lh))" "length (concat bs) = length (concat (buckets lh))"
    unfolding bs [symmetric] by (simp_all del: set_concat)
  have wf: "wf_lhash key (lh\<lparr>buckets := bs, num_buckets := n\<rparr>)"
    using assms b(1,3) wf_lhash_bounds [OF assms(1)] wf_lhash_functions [OF assms(1)]
    by (simp add: wf_lhash_def functions_agree_cong [of "lh\<lparr>buckets := bs, num_buckets := n\<rparr>" lh])
  moreover have "entries key (lh\<lparr>buckets := bs, num_buckets := n\<rparr>) = entries key lh"
    by (rule entries_cong [OF assms(1) wf]) (simp_all del: set_concat add: b(2))
  ultimately show ?thesis using assms(1) by (auto simp: lh_rebucket_def bs [symmetric] Let_def)
qed

lemma lh_maybe_resize_ok:
  assumes "wf_lhash key lh"
  shows "wf_lhash key (lh_maybe_resize malloc lh) \<and> entries key (lh_maybe_resize malloc lh) = entries key lh
    \<and> num_items (lh_maybe_resize malloc lh) = num_items lh
    \<and> hash (lh_maybe_resize malloc lh) = hash lh \<and> callback_depth (lh_maybe_resize malloc lh) = callback_depth lh"
proof -
  have "size_t (num_buckets lh * 2) < 2 ^ 64" by (simp add: size_t_def)
  moreover note b = wf_lhash_bounds [OF assms] assms
  ultimately show ?thesis
    unfolding lh_maybe_resize_def Let_def using lh_rebucket_ok [OF assms, of "size_t (num_buckets lh * 2)" malloc]
      lh_rebucket_ok [OF assms, of "if num_buckets lh div 2 < kMinNumBuckets then kMinNumBuckets else num_buckets lh div 2" malloc]
    by (auto simp: kMinNumBuckets_def)
qed

subsection \<open>Inserting and deleting\<close>

text \<open>Both replace the chain of one bucket by one that differs only in the items of one key.\<close>

lemma wf_lhash_change:
  assumes "wf_lhash key lh" and "chains_ok key (hash lh) (num_buckets lh) bs" and "length (concat bs) = m"
  shows "wf_lhash key (lh\<lparr>buckets := bs, num_items := m\<rparr>)"
  using assms functions_agree_cong [of "lh\<lparr>buckets := bs, num_items := m\<rparr>" lh key] by (simp add: wf_lhash_def)

lemma lh_bucket_update:
  assumes "wf_lhash key lh" and "b = unat (hash lh x) mod num_buckets lh" and "distinct (map (\<lambda>i. key (fst i)) c)"
    and "\<And>i. i \<in> set c \<Longrightarrow> i \<in> set (buckets lh ! b) \<or> i = (x, hash lh x)"
    and "\<And>i. key (fst i) \<noteq> key x \<Longrightarrow> i \<in> set c \<longleftrightarrow> i \<in> set (buckets lh ! b)"
    and "lh' = lh\<lparr>buckets := (buckets lh)[b := c], num_items := m\<rparr>" and "m + length (buckets lh ! b) = num_items lh + length c"
  shows "wf_lhash key lh'"
    and "(x, hash lh x) \<in> set c \<Longrightarrow> entries key lh' = (entries key lh)(key x \<mapsto> x)"
    and "key x \<notin> (\<lambda>i. key (fst i)) ` set c \<Longrightarrow> entries key lh' = (entries key lh)(key x := None)"
proof -
  note ok = wf_lhash_chains [OF assms(1)] and bounds = wf_lhash_bounds [OF assms(1)]
  have b: "b < num_buckets lh" using assms(2) bounds by simp
  have inb: "h = hash lh d \<and> unat h mod num_buckets lh = b" if "(d, h) \<in> set c" for d h
    using assms(4) [OF that] chains_ok_item [OF ok b, of d h] assms(2) by auto
  note up = chains_update [OF ok b assms(3) inb]
  have len: "length (concat ((buckets lh)[b := c])) = m"
    using length_concat_update [of b "buckets lh" c] b bounds assms(7) by simp
  show wf: "wf_lhash key lh'"
    unfolding assms(6) by (rule wf_lhash_change [OF assms(1) up(1) len])
  have new: "i \<in> set (concat (buckets lh')) \<longleftrightarrow> i \<in> set c \<or> i \<in> set (concat (buckets lh)) \<and> i \<notin> set (buckets lh ! b)" for i
  proof -
    have e: "concat (buckets lh') = concat ((buckets lh)[b := c])" by (simp add: assms(6))
    show ?thesis unfolding e bucket_items [OF ok b] by (subst up(2)) (cases i, auto simp del: set_concat)
  qed
  have sub: "set (buckets lh ! b) \<subseteq> set (concat (buckets lh))" unfolding bucket_items [OF ok b] by blast
  have other: "entries key lh' k = entries key lh k" if "k \<noteq> key x" for k
  proof (rule option_eqI)
    fix d
    show "entries key lh' k = Some d \<longleftrightarrow> entries key lh k = Some d"
      using that sub assms(5) [of "(d, hash lh d)"] unfolding entries_Some [OF wf] entries_Some [OF assms(1)] new
      by (auto simp: assms(6) simp del: set_concat)
  qed
  have hash: "hash lh' = hash lh" by (simp add: assms(6))
  show "entries key lh' = (entries key lh)(key x \<mapsto> x)" if "(x, hash lh x) \<in> set c"
  proof -
    have "entries key lh' (key x) = Some x" unfolding entries_Some [OF wf] new hash using that by simp
    with other show ?thesis by (simp add: fun_eq_iff)
  qed
  show "entries key lh' = (entries key lh)(key x := None)" if none: "key x \<notin> (\<lambda>i. key (fst i)) ` set c"
  proof -
    have "\<not> ((d, hash lh d) \<in> set (concat (buckets lh')) \<and> key d = key x)" for d
    proof
      assume d: "(d, hash lh d) \<in> set (concat (buckets lh')) \<and> key d = key x"
      then have "(d, hash lh d) \<notin> set c" using none by force
      with d have "(d, hash lh d) \<in> set (concat (buckets lh))" "(d, hash lh d) \<notin> set (buckets lh ! b)" unfolding new by blast+
      moreover have "unat (hash lh d) mod num_buckets lh = b" using wf_lhash_hash [OF assms(1)] assms(2) d by metis
      ultimately show False unfolding bucket_items [OF ok b] by blast
    qed
    then have "entries key lh' (key x) = None"
      unfolding not_Some_eq [symmetric] entries_Some [OF wf] hash by blast
    with other show ?thesis by (simp add: fun_eq_iff)
  qed
qed

lemma set_list_update_other:
  "i < length c \<Longrightarrow> f (c ! i) = k \<Longrightarrow> f y = k \<Longrightarrow> f z \<noteq> k \<Longrightarrow> z \<in> set (c[i := y]) \<longleftrightarrow> z \<in> set c"
  by (metis in_set_conv_nth length_list_update nth_list_update_eq nth_list_update_neq)

lemma set_remove_other: "i < length c \<Longrightarrow> z \<noteq> c ! i \<Longrightarrow> z \<in> set (take i c @ drop (Suc i) c) \<longleftrightarrow> z \<in> set c"
  by (subst (3) id_take_nth_drop [of i c]) auto

lemma lh_position:
  assumes "wf_lhash key lh" and "get_next_ptr_and_hash lh x = (h, b, i)"
  shows "h = hash lh x" and "b = unat (hash lh x) mod num_buckets lh" and "distinct (map (\<lambda>i. key (fst i)) (buckets lh ! b))"
    and "i = length (buckets lh ! b) \<Longrightarrow> key x \<notin> (\<lambda>i. key (fst i)) ` set (buckets lh ! b)"
    and "i \<noteq> length (buckets lh ! b) \<Longrightarrow> i < length (buckets lh ! b) \<and> key (fst (buckets lh ! b ! i)) = key x
      \<and> snd (buckets lh ! b ! i) = hash lh x"
proof -
  have b: "h = hash lh x" "b = unat (hash lh x) mod num_buckets lh" "i = chain_position (\<lambda>d. comp lh d x = 0) (buckets lh ! b)"
    using assms(2) by (auto simp: get_next_ptr_and_hash_def Let_def)
  have bn: "b < num_buckets lh" using b(2) wf_lhash_bounds [OF assms(1)] by simp
  show "h = hash lh x" "b = unat (hash lh x) mod num_buckets lh" by (fact b)+
  show "distinct (map (\<lambda>i. key (fst i)) (buckets lh ! b))"
    using wf_lhash_chains [OF assms(1)] bn by (simp add: chains_ok_def)
  show "key x \<notin> (\<lambda>i. key (fst i)) ` set (buckets lh ! b)" if "i = length (buckets lh ! b)"
    using chain_position_miss [of "\<lambda>d. comp lh d x = 0" "buckets lh ! b"] that b(3) wf_lhash_comp [OF assms(1)] by force
  show "i < length (buckets lh ! b) \<and> key (fst (buckets lh ! b ! i)) = key x \<and> snd (buckets lh ! b ! i) = hash lh x"
    if "i \<noteq> length (buckets lh ! b)"
  proof -
    have i: "i < length (buckets lh ! b)" "key (fst (buckets lh ! b ! i)) = key x"
      using chain_position_hit [of "\<lambda>d. comp lh d x = 0" "buckets lh ! b"] that b(3) wf_lhash_comp [OF assms(1)] by auto
    then have "snd (buckets lh ! b ! i) = hash lh (fst (buckets lh ! b ! i))"
      using chains_ok_item [OF wf_lhash_chains [OF assms(1)] bn, of "fst (buckets lh ! b ! i)" "snd (buckets lh ! b ! i)"] by simp
    with i wf_lhash_hash [OF assms(1)] show ?thesis by metis
  qed
qed

lemma lh_insert_ok:
  assumes "wf_lhash key lh" and "num_items lh < 2 ^ 64 - 1"
  shows "\<exists>ok old lh'. lh_insert malloc lh x = (ok, old, lh') \<and> wf_lhash key lh' \<and> num_items lh' \<le> Suc (num_items lh) \<and> hash lh' = hash lh
    \<and> (if ok then old = entries key lh (key x) \<and> entries key lh' = (entries key lh)(key x \<mapsto> x)
       else old = None \<and> entries key lh (key x) = None \<and> lh' = lh)"
proof -
  obtain h b i where g: "get_next_ptr_and_hash lh x = (h, b, i)" by (cases "get_next_ptr_and_hash lh x")
  note p = lh_position [OF assms(1) g]
  obtain c where c: "c = buckets lh ! b" by blast
  have old: "(if i = length c then None else Some (fst (c ! i))) = entries key lh (key x)"
    using lh_retrieve_entries [OF assms(1), of x] by (simp only: lh_retrieve_def g c Let_def prod.case)
  show ?thesis
  proof (cases "i = length c")
    case False
    with p(5) have i: "i < length c" "key (fst (c ! i)) = key x" "snd (c ! i) = hash lh x" by (simp_all add: c)
    obtain lh' where lh': "lh' = lh\<lparr>buckets := (buckets lh)[b := c[i := (x, hash lh x)]], num_items := num_items lh\<rparr>" by blast
    have "map (\<lambda>i. key (fst i)) (c[i := (x, hash lh x)]) = map (\<lambda>i. key (fst i)) c"
      using i by (simp add: map_update list_update_same_conv)
    then have d: "distinct (map (\<lambda>i. key (fst i)) (c[i := (x, hash lh x)]))" using p(3) by (simp add: c)
    have s: "\<And>z. z \<in> set (c[i := (x, hash lh x)]) \<Longrightarrow> z \<in> set (buckets lh ! b) \<or> z = (x, hash lh x)"
      using set_update_subset_insert [of c i "(x, hash lh x)"] by (auto simp: c)
    have o': "\<And>z. key (fst z) \<noteq> key x \<Longrightarrow> z \<in> set (c[i := (x, hash lh x)]) \<longleftrightarrow> z \<in> set (buckets lh ! b)"
      unfolding c [symmetric] by (rule set_list_update_other [where f = "\<lambda>z. key (fst z)"]) (use i in auto)
    note u = lh_bucket_update [OF assms(1) _ d s o' lh']
    have "wf_lhash key lh'" "entries key lh' = (entries key lh)(key x \<mapsto> x)"
      using u(1,2) p(2) i(1) by (simp_all add: c set_update_memI)
    moreover have "lh_insert malloc lh x = (True, Some (fst (c ! i)), lh')"
      using False i(3) by (simp add: lh_insert_def g Let_def c [symmetric] lh')
    ultimately show ?thesis using old False by (auto simp: lh')
  next
    case True
    have fresh: "key x \<notin> (\<lambda>i. key (fst i)) ` set c" using p(4) True unfolding c by blast
    show ?thesis
    proof (cases "OPENSSL_malloc malloc 24")
      case None
      then have "lh_insert malloc lh x = (False, None, lh)" using True by (simp add: lh_insert_def g Let_def c [symmetric])
      then show ?thesis using assms(1) old True by auto
    next
      case (Some q)
      obtain lh' where lh': "lh' = lh\<lparr>buckets := (buckets lh)[b := c @ [(x, hash lh x)]], num_items := Suc (num_items lh)\<rparr>" by blast
      have d: "distinct (map (\<lambda>i. key (fst i)) (c @ [(x, hash lh x)]))" using p(3) fresh by (simp add: c)
      have s: "\<And>z. z \<in> set (c @ [(x, hash lh x)]) \<Longrightarrow> z \<in> set (buckets lh ! b) \<or> z = (x, hash lh x)" by (auto simp: c)
      have o': "\<And>z. key (fst z) \<noteq> key x \<Longrightarrow> z \<in> set (c @ [(x, hash lh x)]) \<longleftrightarrow> z \<in> set (buckets lh ! b)" by (auto simp: c)
      note u = lh_bucket_update [OF assms(1) _ d s o' lh']
      have wf: "wf_lhash key lh'" and e: "entries key lh' = (entries key lh)(key x \<mapsto> x)"
        using u(1,2) p(2) by (simp_all add: c)
      have "lh_insert malloc lh x = (True, None, lh_maybe_resize malloc lh')"
        using True Some p(1) assms(2) by (simp add: lh_insert_def g Let_def c [symmetric] lh' size_t_id)
      then show ?thesis using lh_maybe_resize_ok [OF wf, of malloc] e old True by (auto simp: lh')
    qed
  qed
qed

lemma size_t_pred: "0 < n \<Longrightarrow> n \<le> 2 ^ 64 \<Longrightarrow> size_t (n + (2 ^ 64 - 1)) = n - 1"
proof -
  assume "0 < n" "n \<le> 2 ^ 64"
  then have "n + (2 ^ 64 - 1) = (n - 1) + 2 ^ 64" "n - 1 < 2 ^ 64" by simp_all
  then show ?thesis by (simp only: size_t_def mod_add_self2 mod_less)
qed

lemma lh_delete_ok:
  assumes "wf_lhash key lh" and "num_items lh < 2 ^ 64"
  shows "\<exists>lh'. lh_delete malloc lh x = (entries key lh (key x), lh') \<and> wf_lhash key lh' \<and> num_items lh' \<le> num_items lh \<and> hash lh' = hash lh
    \<and> entries key lh' = (entries key lh)(key x := None)"
proof -
  obtain h b i where g: "get_next_ptr_and_hash lh x = (h, b, i)" by (cases "get_next_ptr_and_hash lh x")
  note p = lh_position [OF assms(1) g]
  obtain c where c: "c = buckets lh ! b" by blast
  have old: "(if i = length c then None else Some (fst (c ! i))) = entries key lh (key x)"
    using lh_retrieve_entries [OF assms(1), of x] by (simp only: lh_retrieve_def g c Let_def prod.case)
  show ?thesis
  proof (cases "i = length c")
    case True
    then have "lh_delete malloc lh x = (None, lh)" by (simp add: lh_delete_def g Let_def c [symmetric])
    then show ?thesis using assms(1) old True by (auto simp: fun_upd_idem)
  next
    case False
    with p(5) have i: "i < length c" "key (fst (c ! i)) = key x" "snd (c ! i) = hash lh x" by (simp_all add: c)
    obtain c' where c': "c' = take i c @ drop (Suc i) c" by blast
    have cs: "c = take i c @ c ! i # drop (Suc i) c" using id_take_nth_drop [OF i(1)] .
    have "distinct (map (\<lambda>i. key (fst i)) (take i c @ c ! i # drop (Suc i) c))" unfolding cs [symmetric] unfolding c by (fact p(3))
    then have d: "distinct (map (\<lambda>i. key (fst i)) c')" and gone: "key x \<notin> (\<lambda>i. key (fst i)) ` set c'"
      using i(2) by (auto simp: c')
    have s: "\<And>z. z \<in> set c' \<Longrightarrow> z \<in> set (buckets lh ! b) \<or> z = (x, hash lh x)"
      unfolding c' c [symmetric] by (auto dest: in_set_takeD in_set_dropD)
    have o': "\<And>z. key (fst z) \<noteq> key x \<Longrightarrow> z \<in> set c' \<longleftrightarrow> z \<in> set (buckets lh ! b)"
      unfolding c [symmetric] c' by (rule set_remove_other) (use i in auto)
    obtain lh' where lh': "lh' = lh\<lparr>buckets := (buckets lh)[b := c'], num_items := num_items lh - 1\<rparr>" by blast
    have len: "length (buckets lh ! b) = Suc (length c')" using i(1) by (simp add: c' c)
    have pos: "0 < num_items lh"
    proof -
      have "entries key lh (key x) = Some (fst (c ! i))" using old False by simp
      then have "(fst (c ! i), hash lh (fst (c ! i))) \<in> set (concat (buckets lh))" unfolding entries_Some [OF assms(1)] by (rule conjunct1)
      then show ?thesis using wf_lhash_bounds [OF assms(1)] length_pos_if_in_set by metis
    qed
    note u = lh_bucket_update [OF assms(1) _ d s o' lh']
    have wf: "wf_lhash key lh'" and e: "entries key lh' = (entries key lh)(key x := None)"
      using u(1,3) p(2) gone len pos by simp_all
    have "lh_delete malloc lh x = (Some (fst (c ! i)), lh_maybe_resize malloc lh')"
    proof -
      have "size_t (num_items lh + (2 ^ 64 - 1)) = num_items lh - 1" using pos assms(2) by (intro size_t_pred) simp_all
      then show ?thesis using False by (simp only: lh_delete_def g Let_def prod.case c [symmetric] lh' c' if_False)
    qed
    then show ?thesis using lh_maybe_resize_ok [OF wf, of malloc] e old False by (auto simp: lh')
  qed
qed

lemma lh_malloc_total: "\<forall>n. malloc n \<noteq> None \<Longrightarrow> (OPENSSL_malloc malloc n = None) = False"
  by (auto simp: OPENSSL_malloc_def split: option.splits)

lemma div_le_2: "m < 3 * k \<Longrightarrow> m div k \<le> (2 :: nat)"
  using less_mult_imp_div_less [of m 3 k] by simp

lemma lh_rebucket_num_buckets:
  assumes "\<forall>n. malloc n \<noteq> None" and "8 * n < 2 ^ 64"
  shows "num_buckets (lh_rebucket malloc lh n) = n \<and> num_items (lh_rebucket malloc lh n) = num_items lh"
proof -
  have "size_t (8 * n) = 8 * n" using assms(2) by (rule size_t_id)
  then show ?thesis using lh_malloc_total [OF assms(1)] by (simp add: lh_rebucket_def Let_def del: not_None_eq)
qed

lemma lh_maybe_resize_load:
  assumes "\<forall>n. malloc n \<noteq> None" and "callback_depth lh = 0" and "num_items lh \<le> 3 * num_buckets lh"
    and "kMinNumBuckets \<le> num_buckets lh" and "num_buckets lh < 2 ^ 60"
  shows "num_items (lh_maybe_resize malloc lh) div num_buckets (lh_maybe_resize malloc lh) \<le> kMaxAverageChainLength"
proof -
  obtain n m where n: "n = num_buckets lh" "16 \<le> n" "n < 2 ^ 60" and m: "m = num_items lh" "m \<le> 3 * n"
    using assms by (simp add: kMinNumBuckets_def)
  consider (grow) "m div n > 2" | (shrink) "m div n < 1" "n > 16" | (keep) "\<not> m div n > 2" "\<not> (m div n < 1 \<and> n > 16)" by linarith
  then show ?thesis
  proof cases
    case grow
    have s: "size_t (n * 2) = n * 2" using n by (intro size_t_id) simp
    have e: "lh_maybe_resize malloc lh = lh_rebucket malloc lh (n * 2)"
      using grow n m s assms(2) by (simp add: lh_maybe_resize_def kMaxAverageChainLength_def Let_def)
    have "m div (n * 2) \<le> 2" using m(2) n(2) by (intro div_le_2) simp
    then show ?thesis using lh_rebucket_num_buckets [OF assms(1), of "n * 2" lh] n m unfolding e
      by (simp add: kMaxAverageChainLength_def)
  next
    case shrink
    obtain k where k: "k = (if n div 2 < 16 then 16 else n div 2)" by blast
    have e: "lh_maybe_resize malloc lh = lh_rebucket malloc lh k"
      using shrink n m assms(2) by (simp add: lh_maybe_resize_def kMaxAverageChainLength_def kMinAverageChainLength_def
        kMinNumBuckets_def Let_def k)
    have "m < n" using shrink(1) n(2) div_less_iff_less_mult [of n m 1] by linarith
    then have "m \<le> 2 * k" using k by (auto split: if_splits)
    moreover have "0 < k" "8 * k < 2 ^ 64" using k n by (auto split: if_splits)
    ultimately have "m div k \<le> 2" by (intro div_le_2) simp
    then show ?thesis using lh_rebucket_num_buckets [OF assms(1) \<open>8 * k < 2 ^ 64\<close>, of lh] n m unfolding e
      by (simp add: kMaxAverageChainLength_def)
  next
    case keep
    then have "lh_maybe_resize malloc lh = lh"
      unfolding n(1) m(1) by (simp only: if_False if_cancel lh_maybe_resize_def kMaxAverageChainLength_def kMinAverageChainLength_def kMinNumBuckets_def Let_def)
    then show ?thesis using keep n m by (simp add: kMaxAverageChainLength_def)
  qed
qed

definition load_ok :: "'a LHASH \<Rightarrow> bool" where
  "load_ok lh \<longleftrightarrow> num_items lh div num_buckets lh \<le> kMaxAverageChainLength"

lemma load_ok_bound: "0 < num_buckets lh \<Longrightarrow> load_ok lh \<longleftrightarrow> num_items lh < 3 * num_buckets lh"
  using div_less_iff_less_mult [of "num_buckets lh" "num_items lh" 3]
  by (auto simp: load_ok_def kMaxAverageChainLength_def)

lemma lh_insert_load:
  assumes "wf_lhash key lh" and "load_ok lh" and "callback_depth lh = 0" and "num_buckets lh < 2 ^ 60" and "\<forall>n. malloc n \<noteq> None"
  shows "load_ok (snd (snd (lh_insert malloc lh x)))"
proof -
  obtain h b i where g: "get_next_ptr_and_hash lh x = (h, b, i)" by (cases "get_next_ptr_and_hash lh x")
  note bounds = wf_lhash_bounds [OF assms(1)]
  have n: "num_items lh < 3 * num_buckets lh" using assms(2) bounds by (simp add: load_ok_bound)
  have s: "size_t (num_items lh + 1) = num_items lh + 1" using n assms(4) by (intro size_t_id) simp
  have "load_ok (lh_maybe_resize malloc (lh\<lparr>buckets := bs, num_items := num_items lh + 1\<rparr>))" for bs
    unfolding load_ok_def by (rule lh_maybe_resize_load [OF assms(5)]) (use assms n bounds in simp_all)
  then show ?thesis using assms(2) s by (simp add: lh_insert_def g Let_def load_ok_def)
qed

lemma lh_delete_load:
  assumes "wf_lhash key lh" and "load_ok lh" and "callback_depth lh = 0" and "num_buckets lh < 2 ^ 60" and "\<forall>n. malloc n \<noteq> None"
  shows "load_ok (snd (lh_delete malloc lh x))"
proof -
  obtain h b i where g: "get_next_ptr_and_hash lh x = (h, b, i)" by (cases "get_next_ptr_and_hash lh x")
  note bounds = wf_lhash_bounds [OF assms(1)]
  have n: "num_items lh < 3 * num_buckets lh" using assms(2) bounds by (simp add: load_ok_bound)
  have "load_ok (lh_maybe_resize malloc (lh\<lparr>buckets := bs, num_items := m\<rparr>))" if "m \<le> num_items lh" for bs m
    unfolding load_ok_def by (rule lh_maybe_resize_load [OF assms(5)]) (use assms n bounds that in simp_all)
  moreover have "size_t (num_items lh + (2 ^ 64 - 1)) \<le> num_items lh" if "i \<noteq> length (buckets lh ! b)"
  proof -
    have "buckets lh ! b ! i \<in> set (buckets lh ! b)" using lh_position(5) [OF assms(1) g that] by simp
    moreover have "b < num_buckets lh" using lh_position(2) [OF assms(1) g] bounds by simp
    ultimately have "buckets lh ! b ! i \<in> set (concat (buckets lh))"
      unfolding in_concat_nth using bounds by metis
    then have "0 < length (concat (buckets lh))" by (rule length_pos_if_in_set)
    then show ?thesis using n assms(4) bounds by (subst size_t_pred) simp_all
  qed
  ultimately have "load_ok (lh_maybe_resize malloc (lh\<lparr>buckets := bs, num_items := size_t (num_items lh + (2 ^ 64 - 1))\<rparr>))"
    if "i \<noteq> length (buckets lh ! b)" for bs using that by blast
  then show ?thesis unfolding lh_delete_def g Let_def prod.case using assms(2) by (cases "i = length (buckets lh ! b)") simp_all
qed

lemma lh_doall_arg_ok:
  assumes "wf_lhash key lh"
  shows "\<exists>ds lh'. distinct (map key ds) \<and> set ds = ran (entries key lh)
    \<and> lh_doall_arg malloc lh func arg = (fold func ds arg, lh') \<and> wf_lhash key lh' \<and> entries key lh' = entries key lh"
proof -
  have walk: "foldl (\<lambda>s chain. foldl (\<lambda>s cur. func (fst cur) s) s chain) s bs = fold func (map fst (concat bs)) s" for s bs
  proof (induction bs arbitrary: s)
    case (Cons c bs)
    have "foldl (\<lambda>s cur. func (fst cur) s) s c = fold func (map fst c) s" for s by (induction c arbitrary: s) simp_all
    with Cons show ?case by simp
  qed simp
  have depth: "wf_lhash key (lh\<lparr>callback_depth := n\<rparr>) \<and> entries key (lh\<lparr>callback_depth := n\<rparr>) = entries key lh" for n
    using assms functions_agree_cong [of "lh\<lparr>callback_depth := n\<rparr>" lh key] by (simp add: wf_lhash_def entries_def)
  have "ran (entries key lh) = set (map fst (concat (buckets lh)))"
  proof (rule set_eqI)
    fix d
    have "d \<in> ran (entries key lh) \<longleftrightarrow> (d, hash lh d) \<in> set (concat (buckets lh))"
      unfolding ran_def by (simp only: entries_Some [OF assms] mem_Collect_eq) blast
    also have "\<dots> \<longleftrightarrow> d \<in> set (map fst (concat (buckets lh)))"
    proof -
      have "h = hash lh d" if "(d, h) \<in> set (concat (buckets lh))" for h
        using that chains_ok_item [OF wf_lhash_chains [OF assms]] wf_lhash_bounds [OF assms] unfolding in_concat_nth by metis
      then show ?thesis by (force simp del: set_concat)
    qed
    finally show "d \<in> ran (entries key lh) \<longleftrightarrow> d \<in> set (map fst (concat (buckets lh)))" .
  qed
  moreover have "distinct (map key (map fst (concat (buckets lh))))"
    using chains_distinct [OF wf_lhash_chains [OF assms] wf_lhash_hash [OF assms]] unfolding map_map o_def .
  moreover have "\<exists>n. lh_doall_arg malloc lh func arg =
      (fold func (map fst (concat (buckets lh))) arg, lh_maybe_resize malloc (lh\<lparr>callback_depth := n\<rparr>))"
    unfolding lh_doall_arg_def Let_def walk by (cases "callback_depth lh < UINT_MAX") (auto intro: exI [of _ "callback_depth lh"])
  ultimately show ?thesis using depth lh_maybe_resize_ok by metis
qed

lemma lh_new_ok:
  assumes "lh_new malloc h c = Some lh" and "\<forall>x y. c x y = 0 \<longleftrightarrow> key x = key y" and "\<forall>x y. key x = key y \<longrightarrow> h x = h y"
  shows "wf_lhash key lh \<and> entries key lh = Map.empty \<and> num_items lh = 0 \<and> hash lh = h \<and> callback_depth lh = 0 \<and> load_ok lh"
proof -
  have lh: "lh = \<lparr>num_items = 0, buckets = replicate kMinNumBuckets [], num_buckets = kMinNumBuckets, callback_depth = 0, comp = c, hash = h\<rparr>"
    using assms(1) by (simp add: lh_new_def split: if_splits)
  have "concat (replicate n []) = []" for n :: nat by (induction n) simp_all
  then have "concat (buckets lh) = []" by (simp add: lh)
  moreover have "functions_agree key lh" unfolding functions_agree_def lh LHASH.select_convs using assms(2,3) by blast
  moreover have "chains_ok key h kMinNumBuckets (buckets lh)" using replicate_chains_ok by (simp add: lh)
  ultimately show ?thesis by (simp add: lh wf_lhash_def entries_def kMinNumBuckets_def load_ok_def)
qed

subsection \<open>Runs of operations\<close>

datatype 'v table_op = Insert_item 'v | Delete_item 'v

text \<open>The answer of an operation: whether it took place, and the value that was there.\<close>

primrec table_run :: "('s \<Rightarrow> 'v \<Rightarrow> bool \<times> 'v option \<times> 's) \<Rightarrow> ('s \<Rightarrow> 'v \<Rightarrow> 'v option \<times> 's) \<Rightarrow> 'v table_op list \<Rightarrow> 's
    \<Rightarrow> (bool \<times> 'v option) list \<times> 's" where
  "table_run put del [] s = ([], s)"
| "table_run put del (a # as) s =
    (let (r, s1) = (case a of Insert_item x \<Rightarrow> (let (ok, old, s1) = put s x in ((ok, old), s1))
                    | Delete_item x \<Rightarrow> (let (old, s1) = del s x in ((True, old), s1)));
         (rs, s2) = table_run put del as s1
     in (r # rs, s2))"

text \<open>The same run on a finite map: an operation that failed, for lack of memory, leaves it as it is.\<close>

primrec table_op_effect :: "('v \<Rightarrow> 'k) \<Rightarrow> 'v table_op \<Rightarrow> ('k \<Rightarrow> 'v option) \<Rightarrow> 'k \<Rightarrow> 'v option" where
  "table_op_effect key (Insert_item x) m = m(key x \<mapsto> x)"
| "table_op_effect key (Delete_item x) m = m(key x := None)"

primrec table_op_item :: "'v table_op \<Rightarrow> 'v" where
  "table_op_item (Insert_item x) = x"
| "table_op_item (Delete_item x) = x"

primrec map_replay :: "('v \<Rightarrow> 'k) \<Rightarrow> 'v table_op list \<Rightarrow> (bool \<times> 'v option) list \<Rightarrow> ('k \<Rightarrow> 'v option) \<Rightarrow> ('k \<Rightarrow> 'v option) \<Rightarrow> bool" where
  "map_replay key [] rs m m' \<longleftrightarrow> rs = [] \<and> m' = m"
| "map_replay key (a # as) rs m m' \<longleftrightarrow> (case rs of [] \<Rightarrow> False
     | r # rs' \<Rightarrow> snd r = m (key (table_op_item a))
         \<and> (if fst r then map_replay key as rs' (table_op_effect key a m) m'
            else m (key (table_op_item a)) = None \<and> map_replay key as rs' m m'))"

locale keyed_table =
  fixes inv :: "'s \<Rightarrow> bool" and view :: "'s \<Rightarrow> 'k \<Rightarrow> 'v option" and count :: "'s \<Rightarrow> nat" and limit :: nat and key :: "'v \<Rightarrow> 'k"
    and get :: "'s \<Rightarrow> 'v \<Rightarrow> 'v option" and put :: "'s \<Rightarrow> 'v \<Rightarrow> bool \<times> 'v option \<times> 's" and del :: "'s \<Rightarrow> 'v \<Rightarrow> 'v option \<times> 's"
  assumes get: "inv s \<Longrightarrow> get s x = view s (key x)"
    and put: "inv s \<Longrightarrow> count s < limit \<Longrightarrow> \<exists>ok old s'. put s x = (ok, old, s') \<and> inv s' \<and> count s' \<le> Suc (count s)
      \<and> old = view s (key x) \<and> (if ok then view s' = (view s)(key x \<mapsto> x) else view s (key x) = None \<and> view s' = view s)"
    and del: "inv s \<Longrightarrow> count s < limit \<Longrightarrow> \<exists>old s'. del s x = (old, s') \<and> inv s' \<and> count s' \<le> count s
      \<and> old = view s (key x) \<and> view s' = (view s)(key x := None)"
begin

lemma run_replays:
  "inv s \<Longrightarrow> count s + length as \<le> limit \<Longrightarrow>
   \<exists>rs s'. table_run put del as s = (rs, s') \<and> inv s' \<and> map_replay key as rs (view s) (view s')"
proof (induction as arbitrary: s)
  case (Cons a as)
  show ?case
  proof (cases a)
    case (Insert_item x)
    from Cons.prems put [of s x] obtain ok old s1 where s1: "put s x = (ok, old, s1)" "inv s1" "count s1 \<le> Suc (count s)"
      "old = view s (key x)" "if ok then view s1 = (view s)(key x \<mapsto> x) else view s (key x) = None \<and> view s1 = view s" by auto
    have "count s1 + length as \<le> limit" using s1(3) Cons.prems(2) by simp
    from Cons.IH [OF s1(2) this] obtain rs s2 where rs: "table_run put del as s1 = (rs, s2)" "inv s2"
      "map_replay key as rs (view s1) (view s2)" by blast
    have "table_run put del (a # as) s = ((ok, old) # rs, s2)" using Insert_item s1(1) rs(1) by simp
    moreover have "map_replay key (a # as) ((ok, old) # rs) (view s) (view s2)"
      using s1(4,5) rs(3) by (cases ok) (simp_all add: Insert_item del: fun_upd_apply)
    ultimately show ?thesis using rs(2) by blast
  next
    case (Delete_item x)
    from Cons.prems del [of s x] obtain old s1 where s1: "del s x = (old, s1)" "inv s1" "count s1 \<le> count s"
      "old = view s (key x)" "view s1 = (view s)(key x := None)" by auto
    have "count s1 + length as \<le> limit" using s1(3) Cons.prems(2) by simp
    from Cons.IH [OF s1(2) this] obtain rs s2 where rs: "table_run put del as s1 = (rs, s2)" "inv s2"
      "map_replay key as rs (view s1) (view s2)" by blast
    have "table_run put del (a # as) s = ((True, old) # rs, s2)" using Delete_item s1(1) rs(1) by simp
    moreover have "map_replay key (a # as) ((True, old) # rs) (view s) (view s2)"
      using s1(4,5) rs(3) by (simp add: Delete_item del: fun_upd_apply)
    ultimately show ?thesis using rs(2) by blast
  qed
qed simp

lemma run_get:
  assumes "inv s" and "count s + length as \<le> limit"
  shows "\<exists>rs s' m. table_run put del as s = (rs, s') \<and> map_replay key as rs (view s) m \<and> (\<forall>x. get s' x = m (key x))"
  using run_replays [OF assms] get by blast

end

interpretation lhash_table: keyed_table "wf_lhash key" "entries key" num_items "2 ^ 64 - 1" key lh_retrieve "lh_insert malloc" "lh_delete malloc"
  for key malloc
proof
  fix lh :: "'a LHASH" and x
  assume wf: "wf_lhash key lh"
  show "lh_retrieve lh x = entries key lh (key x)" by (rule lh_retrieve_entries [OF wf])
  assume room: "num_items lh < 2 ^ 64 - 1"
  show "\<exists>ok old lh'. lh_insert malloc lh x = (ok, old, lh') \<and> wf_lhash key lh' \<and> num_items lh' \<le> Suc (num_items lh)
      \<and> old = entries key lh (key x) \<and> (if ok then entries key lh' = (entries key lh)(key x \<mapsto> x)
        else entries key lh (key x) = None \<and> entries key lh' = entries key lh)"
  proof -
    from lh_insert_ok [OF wf room, of malloc x] obtain ok old lh' where r: "lh_insert malloc lh x = (ok, old, lh')" "wf_lhash key lh'"
      "num_items lh' \<le> Suc (num_items lh)"
      "if ok then old = entries key lh (key x) \<and> entries key lh' = (entries key lh)(key x \<mapsto> x)
       else old = None \<and> entries key lh (key x) = None \<and> lh' = lh" by blast
    show ?thesis by (intro exI [of _ ok] exI [of _ old] exI [of _ lh']) (use r in \<open>simp split: if_splits\<close>)
  qed
  from room have "num_items lh < 2 ^ 64" by simp
  from lh_delete_ok [OF wf this, of malloc x]
  show "\<exists>old lh'. lh_delete malloc lh x = (old, lh') \<and> wf_lhash key lh' \<and> num_items lh' \<le> num_items lh
      \<and> old = entries key lh (key x) \<and> entries key lh' = (entries key lh)(key x := None)" by blast
qed

end
