(* ===== verification/Stack.thy ===== *)
theory Stack
  imports Mem Qsort
begin

text \<open>
  \<open>crypto/stack/stack.c\<close>: a growable array of pointers, optionally kept sorted. \<open>NULL\<close> is \<open>None\<close>,
  for an element and for the \<open>_STACK *\<close> argument; \<open>data\<close> holds the \<open>num_alloc\<close> allocated cells.
  The comparison function is a function pointer \<open>'c\<close> that \<open>call_cmp_func\<close> calls. \<open>uninit\<close> is what
  cells fresh from the allocator hold.
\<close>

record ('p, 'c) stack =
  num :: nat
  data :: "'p option list"
  sorted_flag :: bool
  num_alloc :: nat
  comp :: "'c option"

definition kMinSize :: nat where
  "kMinSize = 4"

definition sk_new :: "allocator \<Rightarrow> 'c option \<Rightarrow> ('p, 'c) stack option" where
  "sk_new malloc c =
    (if OPENSSL_malloc malloc 40 = None then None
     else if OPENSSL_malloc malloc (8 * kMinSize) = None then None
     else Some \<lparr>num = 0, data = replicate kMinSize None, sorted_flag = False, num_alloc = kMinSize, comp = c\<rparr>)"

definition sk_new_null :: "allocator \<Rightarrow> ('p, 'c) stack option" where
  "sk_new_null malloc = sk_new malloc None"

definition sk_num :: "('p, 'c) stack option \<Rightarrow> nat" where
  "sk_num sk = (case sk of None \<Rightarrow> 0 | Some s \<Rightarrow> num s)"

definition sk_zero :: "('p, 'c) stack option \<Rightarrow> ('p, 'c) stack option" where
  "sk_zero sk = (case sk of None \<Rightarrow> None
     | Some s \<Rightarrow> if num s = 0 then Some s
         else Some (s\<lparr>data := mem_write (data s) 0 (replicate (num s) None), num := 0, sorted_flag := False\<rparr>))"

definition sk_value :: "('p, 'c) stack option \<Rightarrow> nat \<Rightarrow> 'p option" where
  "sk_value sk i = (case sk of None \<Rightarrow> None | Some s \<Rightarrow> if i \<ge> num s then None else data s ! i)"

definition sk_set :: "('p, 'c) stack option \<Rightarrow> nat \<Rightarrow> 'p option \<Rightarrow> 'p option \<times> ('p, 'c) stack option" where
  "sk_set sk i v = (case sk of None \<Rightarrow> (None, None)
     | Some s \<Rightarrow> if i \<ge> num s then (None, Some s) else (v, Some (s\<lparr>data := (data s)[i := v]\<rparr>)))"

text \<open>\<open>sk_pop_free_ex\<close> as the calls it makes to the free function, threading their effect.\<close>

definition sk_pop_free_ex :: "('p \<Rightarrow> 's \<Rightarrow> 's) \<Rightarrow> ('p, 'c) stack option \<Rightarrow> 's \<Rightarrow> 's" where
  "sk_pop_free_ex free_func sk st = (case sk of None \<Rightarrow> st
     | Some s \<Rightarrow> foldl (\<lambda>st i. case data s ! i of None \<Rightarrow> st | Some p \<Rightarrow> free_func p st) st [0..<num s])"

definition cells_realloc :: "(nat \<Rightarrow> 'p option) \<Rightarrow> 'p option list \<Rightarrow> nat \<Rightarrow> 'p option list" where
  "cells_realloc uninit cells n = take n cells @ map uninit [length cells..<n]"

text \<open>The array of \<open>sk_insert\<close> after it made sure that one more element fits, with its size; \<open>None\<close> when it cannot.\<close>

definition sk_grow :: "allocator \<Rightarrow> (nat \<Rightarrow> 'p option) \<Rightarrow> ('p, 'c) stack \<Rightarrow> ('p option list \<times> nat) option" where
  "sk_grow malloc uninit s =
    (if num_alloc s \<le> num s + 1 then
       (let new_alloc0 = size_t (num_alloc s * 2); alloc_size0 = size_t (new_alloc0 * 8);
            new_alloc = (if new_alloc0 < num_alloc s \<or> alloc_size0 div 8 \<noteq> new_alloc0 then size_t (num_alloc s + 1) else new_alloc0);
            alloc_size = size_t (new_alloc * 8)
        in if new_alloc < num_alloc s \<or> alloc_size div 8 \<noteq> new_alloc then None
           else if OPENSSL_malloc malloc alloc_size = None then None
           else Some (cells_realloc uninit (data s) new_alloc, new_alloc))
     else Some (data s, num_alloc s))"

definition sk_insert :: "allocator \<Rightarrow> (nat \<Rightarrow> 'p option) \<Rightarrow> ('p, 'c) stack option \<Rightarrow> 'p option \<Rightarrow> nat \<Rightarrow> nat \<times> ('p, 'c) stack option" where
  "sk_insert malloc uninit sk p i = (case sk of None \<Rightarrow> (0, None)
     | Some s \<Rightarrow> (case sk_grow malloc uninit s of None \<Rightarrow> (0, Some s)
       | Some (cells, n) \<Rightarrow>
           let cells1 = (if i \<ge> num s then cells[num s := p]
                         else (mem_write cells (i + 1) (take (num s - i) (drop i cells)))[i := p])
           in (num s + 1, Some (s\<lparr>data := cells1, num_alloc := n, num := num s + 1, sorted_flag := False\<rparr>))))"

definition sk_delete :: "('p, 'c) stack option \<Rightarrow> nat \<Rightarrow> 'p option \<times> ('p, 'c) stack option" where
  "sk_delete sk i = (case sk of None \<Rightarrow> (None, None)
     | Some s \<Rightarrow>
         if i \<ge> num s then (None, Some s)
         else let cells = (if i \<noteq> num s - 1 then mem_write (data s) i (take (num s - i - 1) (drop (i + 1) (data s))) else data s)
           in (data s ! i, Some (s\<lparr>data := cells, num := num s - 1\<rparr>)))"

text \<open>The linear searches: the first index from \<open>i\<close> on, below \<open>n\<close>, where the test holds.\<close>

function scan :: "(nat \<Rightarrow> bool) \<Rightarrow> nat \<Rightarrow> nat \<Rightarrow> nat option" where
  "scan P i n = (if i < n then if P i then Some i else scan P (Suc i) n else None)"
  by pat_completeness auto
termination by (relation "measure (\<lambda>(P, i, n). n - i)") auto

definition sk_delete_ptr :: "('p, 'c) stack option \<Rightarrow> 'p option \<Rightarrow> 'p option \<times> ('p, 'c) stack option" where
  "sk_delete_ptr sk p = (case sk of None \<Rightarrow> (None, None)
     | Some s \<Rightarrow> (case scan (\<lambda>i. data s ! i = p) 0 (num s) of None \<Rightarrow> (None, Some s) | Some i \<Rightarrow> sk_delete (Some s) i))"

definition sk_is_sorted :: "('p, 'c) stack option \<Rightarrow> bool" where
  "sk_is_sorted sk = (case sk of None \<Rightarrow> True | Some s \<Rightarrow> sorted_flag s)"

text \<open>The binary search; \<open>r mid\<close> is the comparison of the key with the element at \<open>mid\<close>. An assertion that fails is \<open>None\<close>.\<close>

function bsearch_loop :: "(nat \<Rightarrow> int) \<Rightarrow> nat \<Rightarrow> nat \<Rightarrow> nat option option" where
  "bsearch_loop r lo hi =
    (if lo < hi then
       let mid = lo + (hi - lo - 1) div 2
       in if \<not> (lo \<le> mid \<and> mid < hi) then None
          else if r mid > 0 then bsearch_loop r (mid + 1) hi
          else if r mid < 0 then bsearch_loop r lo mid
          else if hi - lo = 1 then Some (Some mid)
          else if \<not> mid + 1 < hi then None
          else bsearch_loop r lo (mid + 1)
     else if lo = hi then Some None else None)"
  by pat_completeness auto
termination by (relation "measure (\<lambda>(r, lo, hi). hi - lo)") (auto simp: Let_def)

text \<open>
  \<open>sk_find\<close>: outer \<open>None\<close> is an assertion that fails; otherwise the index written to \<open>*out_index\<close>, or
  \<open>None\<close> when it returns 0.
\<close>

definition sk_find :: "('c \<Rightarrow> 'p option \<Rightarrow> 'p option \<Rightarrow> int) \<Rightarrow> ('p, 'c) stack option \<Rightarrow> 'p option \<Rightarrow> nat option option" where
  "sk_find call_cmp_func sk p = (case sk of None \<Rightarrow> Some None
     | Some s \<Rightarrow> (case comp s of
         None \<Rightarrow> Some (scan (\<lambda>i. data s ! i = p) 0 (num s))
       | Some c \<Rightarrow>
           if p = None then Some None
           else if \<not> sk_is_sorted (Some s) then Some (scan (\<lambda>i. call_cmp_func c p (data s ! i) = 0) 0 (num s))
           else bsearch_loop (\<lambda>mid. call_cmp_func c p (data s ! mid)) 0 (num s)))"

definition sk_shift :: "('p, 'c) stack option \<Rightarrow> 'p option \<times> ('p, 'c) stack option" where
  "sk_shift sk = (case sk of None \<Rightarrow> (None, None) | Some s \<Rightarrow> if num s = 0 then (None, Some s) else sk_delete (Some s) 0)"

text \<open>\<open>sk_push\<close> reads \<open>sk->num\<close> first: a NULL stack is a crash, \<open>None\<close>.\<close>

definition sk_push :: "allocator \<Rightarrow> (nat \<Rightarrow> 'p option) \<Rightarrow> ('p, 'c) stack option \<Rightarrow> 'p option \<Rightarrow> (nat \<times> ('p, 'c) stack option) option" where
  "sk_push malloc uninit sk p = (case sk of None \<Rightarrow> None | Some s \<Rightarrow> Some (sk_insert malloc uninit (Some s) p (num s)))"

definition sk_pop :: "('p, 'c) stack option \<Rightarrow> 'p option \<times> ('p, 'c) stack option" where
  "sk_pop sk = (case sk of None \<Rightarrow> (None, None) | Some s \<Rightarrow> if num s = 0 then (None, Some s) else sk_delete (Some s) (num s - 1))"

definition sk_dup :: "allocator \<Rightarrow> (nat \<Rightarrow> 'p option) \<Rightarrow> ('p, 'c) stack option \<Rightarrow> ('p, 'c) stack option" where
  "sk_dup malloc uninit sk = (case sk of None \<Rightarrow> None
     | Some s \<Rightarrow> (case sk_new malloc (comp s) of None \<Rightarrow> None
       | Some ret \<Rightarrow>
           if OPENSSL_malloc malloc (size_t (8 * num_alloc s)) = None then None
           else Some (ret\<lparr>data := mem_write (cells_realloc uninit (data ret) (num_alloc s)) 0 (take (num s) (data s)),
                        num := num s, sorted_flag := sorted_flag s, num_alloc := num_alloc s, comp := comp s\<rparr>)))"

definition sk_sort :: "('c \<Rightarrow> 'p option \<Rightarrow> 'p option \<Rightarrow> int) \<Rightarrow> ('p, 'c) stack option \<Rightarrow> ('p, 'c) stack option" where
  "sk_sort call sk = (case sk of None \<Rightarrow> None
     | Some s \<Rightarrow> (case comp s of None \<Rightarrow> Some s
       | Some c \<Rightarrow>
           if sorted_flag s then Some s
           else let cells = (if num s \<ge> 2 then mem_write (data s) 0 (qsort (call c) (take (num s) (data s))) else data s)
             in Some (s\<lparr>data := cells, sorted_flag := True\<rparr>)))"

definition sk_set_cmp_func :: "('p, 'c) stack \<Rightarrow> 'c option \<Rightarrow> 'c option \<times> ('p, 'c) stack" where
  "sk_set_cmp_func s c = (comp s, s\<lparr>sorted_flag := (if comp s \<noteq> c then False else sorted_flag s), comp := c\<rparr>)"

text \<open>
  The copying loop of \<open>sk_deep_copy\<close> from index \<open>i\<close> on, threading the effect of the callbacks:
  \<open>None\<close> when a copy failed, after the copies made so far were freed.
\<close>

function deep_copy_loop :: "('p \<Rightarrow> 's \<Rightarrow> 'p option \<times> 's) \<Rightarrow> ('p \<Rightarrow> 's \<Rightarrow> 's) \<Rightarrow> nat \<Rightarrow> nat \<Rightarrow> 'p option list \<Rightarrow> 's
    \<Rightarrow> 'p option list option \<times> 's" where
  "deep_copy_loop copy_func free_func i n cells st =
    (if i < n then
       (case cells ! i of
          None \<Rightarrow> deep_copy_loop copy_func free_func (Suc i) n cells st
        | Some p \<Rightarrow> (case copy_func p st of
            (None, st1) \<Rightarrow> (None, foldl (\<lambda>st j. case cells ! j of None \<Rightarrow> st | Some q \<Rightarrow> free_func q st) st1 [0..<i])
          | (Some q, st1) \<Rightarrow> deep_copy_loop copy_func free_func (Suc i) n (cells[i := Some q]) st1))
     else (Some cells, st))"
  by pat_completeness auto
termination by (relation "measure (\<lambda>(c, f, i, n, cells, st). n - i)") auto

definition sk_deep_copy :: "allocator \<Rightarrow> (nat \<Rightarrow> 'p option) \<Rightarrow> ('p \<Rightarrow> 's \<Rightarrow> 'p option \<times> 's) \<Rightarrow> ('p \<Rightarrow> 's \<Rightarrow> 's)
    \<Rightarrow> ('p, 'c) stack option \<Rightarrow> 's \<Rightarrow> ('p, 'c) stack option \<times> 's" where
  "sk_deep_copy malloc uninit copy_func free_func sk st = (case sk_dup malloc uninit sk of None \<Rightarrow> (None, st)
     | Some ret \<Rightarrow> (case deep_copy_loop copy_func free_func 0 (num ret) (data ret) st of
         (None, st1) \<Rightarrow> (None, st1)
       | (Some cells, st1) \<Rightarrow> (Some (ret\<lparr>data := cells\<rparr>), st1)))"

declare scan.simps [simp del] bsearch_loop.simps [simp del] deep_copy_loop.simps [simp del]

subsection \<open>Elements\<close>

definition elems :: "('p, 'c) stack \<Rightarrow> 'p option list" where
  "elems s = take (num s) (data s)"

definition wf_stack :: "('p, 'c) stack \<Rightarrow> bool" where
  "wf_stack s \<longleftrightarrow> length (data s) = num_alloc s \<and> num s < num_alloc s \<and> 8 * num_alloc s < 2 ^ 64"

text \<open>What the flag \<open>sorted\<close> promises.\<close>

definition sorted_stack :: "('c \<Rightarrow> 'p option \<Rightarrow> 'p option \<Rightarrow> int) \<Rightarrow> ('p, 'c) stack \<Rightarrow> bool" where
  "sorted_stack call s \<longleftrightarrow> (sorted_flag s \<longrightarrow> (\<exists>c. comp s = Some c \<and> sorted_wrt (\<lambda>a b. call c a b \<le> 0) (elems s)))"

lemma length_elems [simp]: "wf_stack s \<Longrightarrow> length (elems s) = num s"
  by (simp add: elems_def wf_stack_def)

lemma nth_elems: "i < num s \<Longrightarrow> elems s ! i = data s ! i"
  by (simp add: elems_def)

lemma sk_new_ok:
  "sk_new malloc c = Some s \<Longrightarrow> wf_stack s \<and> elems s = [] \<and> comp s = c \<and> \<not> sorted_flag s"
  by (auto simp: sk_new_def wf_stack_def elems_def kMinSize_def split: if_splits)

lemma product_fits:
  assumes "size_t (n * 8) div 8 = n"
  shows "8 * n < 2 ^ 64"
proof -
  have "size_t (n * 8) < 2 ^ 64" by (simp add: size_t_def)
  then have "size_t (n * 8) div 8 < 2 ^ 61" by simp
  then show ?thesis using assms by simp
qed

lemma sk_grow_ok:
  assumes "wf_stack s" and "sk_grow malloc uninit s = Some (cells, n)"
  shows "length cells = n \<and> num s + 1 < n \<and> 8 * n < 2 ^ 64 \<and> take (num s) cells = elems s"
proof (cases "num_alloc s \<le> num s + 1")
  case False
  then show ?thesis using assms by (auto simp: sk_grow_def wf_stack_def elems_def)
next
  case True
  note wf = assms(1) [unfolded wf_stack_def]
  have s2: "size_t (num_alloc s * 2) = num_alloc s * 2" "size_t (num_alloc s + 1) = num_alloc s + 1"
    using wf by (simp_all add: size_t_id)
  obtain a where a: "a = (if num_alloc s * 2 < num_alloc s \<or> size_t (num_alloc s * 2 * 8) div 8 \<noteq> num_alloc s * 2
    then num_alloc s + 1 else num_alloc s * 2)" by blast
  have n: "n = a" "size_t (n * 8) div 8 = n" "cells = cells_realloc uninit (data s) n"
    using assms(2) True unfolding sk_grow_def Let_def s2 a [symmetric] by (auto simp del: not_None_eq split: if_splits)
  have "n = num_alloc s * 2 \<or> n = num_alloc s + 1" unfolding n(1) a by simp
  then have "num_alloc s < n" using wf by auto
  then show ?thesis using wf product_fits [OF n(2)] True by (auto simp: n(3) cells_realloc_def elems_def)
qed

lemma sk_insert_ok:
  assumes "wf_stack s" and "sk_insert malloc uninit (Some s) p i = (r, sk')"
  shows "r = 0 \<and> sk' = Some s \<or>
    (\<exists>s'. r = num s + 1 \<and> sk' = Some s' \<and> wf_stack s' \<and> comp s' = comp s \<and> \<not> sorted_flag s'
      \<and> elems s' = take i (elems s) @ p # drop i (elems s))"
proof (cases "sk_grow malloc uninit s")
  case None
  then show ?thesis using assms(2) by (simp add: sk_insert_def)
next
  case (Some g)
  obtain cells n where g: "g = (cells, n)" by (cases g)
  note grow = sk_grow_ok [OF assms(1) Some [unfolded g]]
  have ln: "length (elems s) = num s" using assms(1) by simp
  obtain cells1 where c1: "cells1 = (if i \<ge> num s then cells[num s := p]
      else (mem_write cells (i + 1) (take (num s - i) (drop i cells)))[i := p])" by blast
  have r: "r = num s + 1" "sk' = Some (s\<lparr>data := cells1, num_alloc := n, num := num s + 1, sorted_flag := False\<rparr>)"
    using assms(2) Some g by (auto simp: sk_insert_def c1 Let_def)
  have len: "length cells1 = n" using grow by (auto simp: c1)
  have "take (num s + 1) cells1 = take i (elems s) @ p # drop i (elems s)"
  proof (rule nth_equalityI)
    show "length (take (num s + 1) cells1) = length (take i (elems s) @ p # drop i (elems s))" using grow len ln by auto
    fix j
    assume "j < length (take (num s + 1) cells1)"
    then have j: "j < num s + 1" using grow len by simp
    have e: "elems s ! k = cells ! k" if "k < num s" for k
      using that grow by (metis nth_take)
    show "take (num s + 1) cells1 ! j = (take i (elems s) @ p # drop i (elems s)) ! j"
    proof (cases "i \<ge> num s")
      case True
      then show ?thesis using j grow ln e by (auto simp: c1 nth_append nth_list_update less_Suc_eq)
    next
      case False
      consider "j < i" | "j = i" | "i < j" by linarith
      then show ?thesis
      proof cases
        case 1
        then have "mem_write cells (i + 1) (take (num s - i) (drop i cells)) ! j = cells ! j"
          using False grow by (subst nth_mem_write) auto
        then show ?thesis using 1 j False grow ln e [of j] by (simp add: c1 nth_append nth_list_update)
      next
        case 2
        then show ?thesis using j False grow ln len by (simp add: c1 nth_append)
      next
        case 3
        then obtain k where k: "j = Suc k" "i \<le> k" by (cases j) auto
        then have "mem_write cells (i + 1) (take (num s - i) (drop i cells)) ! j = cells ! k"
          using j False grow by (subst nth_mem_write) auto
        then show ?thesis using k j False grow ln e [of k] by (simp add: c1 nth_append nth_list_update)
      qed
    qed
  qed
  then show ?thesis using r grow len by (simp add: wf_stack_def elems_def)
qed

lemma sk_delete_ok:
  assumes "wf_stack s" and "i < num s"
  shows "\<exists>s'. sk_delete (Some s) i = (elems s ! i, Some s') \<and> wf_stack s' \<and> comp s' = comp s \<and> sorted_flag s' = sorted_flag s
    \<and> num s' = num s - 1 \<and> elems s' = take i (elems s) @ drop (Suc i) (elems s)"
proof -
  note wf = assms(1) [unfolded wf_stack_def]
  obtain cells where c: "cells = (if i \<noteq> num s - 1 then mem_write (data s) i (take (num s - i - 1) (drop (i + 1) (data s))) else data s)" by blast
  have len: "length cells = num_alloc s" using wf assms(2) by (auto simp: c)
  have "take (num s - 1) cells = take i (elems s) @ drop (Suc i) (elems s)"
  proof (rule nth_equalityI)
    show "length (take (num s - 1) cells) = length (take i (elems s) @ drop (Suc i) (elems s))"
      using len wf assms by auto
    fix j
    assume "j < length (take (num s - 1) cells)"
    then have j: "j < num s - 1" by simp
    have "cells ! j = (if j < i then data s ! j else data s ! Suc j)"
      using j wf assms(2) by (cases "i = num s - 1") (auto simp: c nth_mem_write [of i "take (num s - Suc i) (drop (Suc i) (data s))" "data s"])
    then show "take (num s - 1) cells ! j = (take i (elems s) @ drop (Suc i) (elems s)) ! j"
      using j assms wf by (auto simp: nth_append nth_elems)
  qed
  moreover have "sk_delete (Some s) i = (elems s ! i, Some (s\<lparr>data := cells, num := num s - 1\<rparr>))"
    using assms(2) by (simp add: sk_delete_def c Let_def nth_elems)
  moreover have "num s - 1 < num_alloc s" using wf by linarith
  ultimately show ?thesis using wf len by (simp add: wf_stack_def elems_def)
qed

lemma sk_delete_sorted:
  assumes "wf_stack s" and "i < num s" and "sorted_stack call s" and "sk_delete (Some s) i = (p, Some s')"
  shows "sorted_stack call s'"
proof -
  from sk_delete_ok [OF assms(1,2)] assms(4) have s': "comp s' = comp s" "sorted_flag s' = sorted_flag s"
    "elems s' = take i (elems s) @ drop (Suc i) (elems s)" by auto
  have "i < length (elems s)" using assms(1,2) by simp
  then have "elems s = take i (elems s) @ elems s ! i # drop (Suc i) (elems s)" by (rule id_take_nth_drop)
  moreover have "sorted_wrt R (a @ x # b) \<Longrightarrow> sorted_wrt R (a @ b)" for R a b and x :: "'p option"
    by (simp add: sorted_wrt_append)
  ultimately have "sorted_wrt R (elems s) \<Longrightarrow> sorted_wrt R (elems s')" for R unfolding s'(3) by metis
  then show ?thesis using assms(3) unfolding sorted_stack_def s'(1,2) by blast
qed

subsection \<open>Searching\<close>

lemma scan_Some: "scan P i n = Some k \<longleftrightarrow> i \<le> k \<and> k < n \<and> P k \<and> (\<forall>j. i \<le> j \<and> j < k \<longrightarrow> \<not> P j)"
proof (induction P i n rule: scan.induct)
  case (1 P i n)
  show ?case
  proof (cases "i < n \<and> \<not> P i")
    case True
    have "(\<forall>j. i \<le> j \<and> j < k \<longrightarrow> \<not> P j) \<longleftrightarrow> (\<forall>j. Suc i \<le> j \<and> j < k \<longrightarrow> \<not> P j)"
      using True by (metis Suc_leI le_neq_implies_less Suc_leD)
    moreover have "i \<le> k \<and> P k \<longleftrightarrow> Suc i \<le> k \<and> P k" using True by (metis Suc_leI le_neq_implies_less Suc_leD)
    ultimately show ?thesis using True "1.IH" by (subst scan.simps) auto
  next
    case False
    then show ?thesis by (subst scan.simps) (auto intro: le_antisym simp: not_less [symmetric])
  qed
qed

lemma scan_None: "scan P i n = None \<longleftrightarrow> (\<forall>j. i \<le> j \<and> j < n \<longrightarrow> \<not> P j)"
proof (induction P i n rule: scan.induct)
  case (1 P i n)
  show ?case
  proof (cases "i < n \<and> \<not> P i")
    case True
    then have "(\<forall>j. i \<le> j \<and> j < n \<longrightarrow> \<not> P j) \<longleftrightarrow> (\<forall>j. Suc i \<le> j \<and> j < n \<longrightarrow> \<not> P j)"
      by (metis Suc_leI le_neq_implies_less Suc_leD)
    then show ?thesis using True "1.IH" by (subst scan.simps) auto
  qed (subst scan.simps, auto)
qed

lemma scan_eqI: "(\<And>k. a = Some k \<longleftrightarrow> b = Some k) \<Longrightarrow> a = (b :: nat option)"
  by (cases a; cases b) auto

lemma scan_skip:
  assumes "lo \<le> m" and "\<And>j. lo \<le> j \<Longrightarrow> j < m \<Longrightarrow> \<not> P j"
  shows "scan P lo hi = scan P m hi"
proof (rule scan_eqI)
  fix k
  have "P k \<and> lo \<le> k \<Longrightarrow> m \<le> k" using assms(2) [of k] by linarith
  moreover have "lo \<le> j \<and> j < k \<and> P j \<Longrightarrow> m \<le> j" for j using assms(2) [of j] by linarith
  ultimately show "scan P lo hi = Some k \<longleftrightarrow> scan P m hi = Some k"
    unfolding scan_Some using assms(1) by (meson le_trans)
qed

lemma scan_cut:
  assumes "m \<le> hi" and "\<And>j. lo \<le> j \<Longrightarrow> m \<le> j \<Longrightarrow> j < hi \<Longrightarrow> \<not> (P j \<and> (\<forall>i. lo \<le> i \<and> i < j \<longrightarrow> \<not> P i))"
  shows "scan P lo hi = scan P lo m"
proof (rule scan_eqI)
  fix k
  have "lo \<le> k \<Longrightarrow> k < hi \<Longrightarrow> P k \<Longrightarrow> \<forall>i. lo \<le> i \<and> i < k \<longrightarrow> \<not> P i \<Longrightarrow> k < m"
    using assms(2) [of k] by (meson not_le)
  then show "scan P lo hi = Some k \<longleftrightarrow> scan P lo m = Some k"
    unfolding scan_Some using assms(1) by (meson less_le_trans)
qed

definition falling :: "(nat \<Rightarrow> int) \<Rightarrow> nat \<Rightarrow> nat \<Rightarrow> bool" where
  "falling r lo hi \<longleftrightarrow> (\<forall>i j. lo \<le> i \<and> i \<le> j \<and> j < hi \<longrightarrow> (r i < 0 \<longrightarrow> r j < 0) \<and> (r j > 0 \<longrightarrow> r i > 0))"

lemma bsearch_step:
  assumes "lo < hi" and "mid = lo + (hi - lo - 1) div 2"
  shows "bsearch_loop r lo hi =
    (if r mid > 0 then bsearch_loop r (mid + 1) hi else if r mid < 0 then bsearch_loop r lo mid
     else if hi - lo = 1 then Some (Some mid) else bsearch_loop r lo (mid + 1))"
proof -
  have "lo \<le> mid" "mid < hi" "hi - lo \<noteq> 1 \<Longrightarrow> mid + 1 < hi" using assms by linarith+
  with assms(1) show ?thesis
    unfolding bsearch_loop.simps [of r lo hi] Let_def assms(2) [symmetric]
    by (cases "r mid > 0"; cases "r mid < 0"; cases "hi - lo = 1") simp_all
qed

lemma bsearch_eq_scan: "falling r lo hi \<Longrightarrow> lo \<le> hi \<Longrightarrow> bsearch_loop r lo hi = Some (scan (\<lambda>i. r i = 0) lo hi)"
proof (induction r lo hi rule: bsearch_loop.induct)
  case (1 r lo hi)
  show ?case
  proof (cases "lo < hi")
    case False
    then show ?thesis using "1.prems" by (subst bsearch_loop.simps, subst scan.simps) simp
  next
    case True
    obtain mid where m: "mid = lo + (hi - lo - 1) div 2" by blast
    then have mid: "lo \<le> mid" "mid < hi" using True by simp_all
    have sub: "falling r a b" if "lo \<le> a" "b \<le> hi" for a b
      using "1.prems"(1) that unfolding falling_def by (meson le_trans less_le_trans)
    consider (low) "r mid > 0" | (high) "r mid < 0" | (one) "r mid = 0" "hi - lo = 1" | (equal) "r mid = 0" "hi - lo \<noteq> 1" by linarith
    then show ?thesis
    proof cases
      case low
      then have "r j \<noteq> 0" if "lo \<le> j" "j < mid + 1" for j
        using "1.prems"(1) mid that unfolding falling_def by (metis less_Suc_eq_le Suc_eq_plus1 less_irrefl)
      then have "scan (\<lambda>i. r i = 0) lo hi = scan (\<lambda>i. r i = 0) (mid + 1) hi" using mid by (intro scan_skip) simp_all
      moreover have "bsearch_loop r (mid + 1) hi = Some (scan (\<lambda>i. r i = 0) (mid + 1) hi)"
        using "1.IH"(1) [OF True m] mid low sub by simp
      ultimately show ?thesis unfolding bsearch_step [OF True m] using low by simp
    next
      case high
      then have "r j \<noteq> 0" if "mid \<le> j" "j < hi" for j
        using "1.prems"(1) mid that unfolding falling_def by (metis less_irrefl)
      then have "scan (\<lambda>i. r i = 0) lo hi = scan (\<lambda>i. r i = 0) lo mid" using mid by (intro scan_cut) simp_all
      moreover have "bsearch_loop r lo mid = Some (scan (\<lambda>i. r i = 0) lo mid)"
        using "1.IH"(2) [OF True m] mid high sub by simp
      ultimately show ?thesis unfolding bsearch_step [OF True m] using high by simp
    next
      case one
      then have "mid = lo" using mid by simp
      then have "scan (\<lambda>i. r i = 0) lo hi = Some mid" using one True by (subst scan.simps) simp
      then show ?thesis unfolding bsearch_step [OF True m] using one by simp
    next
      case equal
      then have room: "mid + 1 < hi" using True m by linarith
      have "scan (\<lambda>i. r i = 0) lo hi = scan (\<lambda>i. r i = 0) lo (mid + 1)" 
        using mid equal by (intro scan_cut) (auto simp: Suc_le_eq)
      moreover have "bsearch_loop r lo (mid + 1) = Some (scan (\<lambda>i. r i = 0) lo (mid + 1))"
        using "1.IH"(3) [OF True m] mid equal sub room by simp
      ultimately show ?thesis unfolding bsearch_step [OF True m] using equal by simp
    qed
  qed
qed

text \<open>On a sorted stack the binary search answers what the linear search does.\<close>

lemma sk_find_sorted:
  assumes "wf_stack s" and "sorted_stack call s" and "\<And>c. comp s = Some c \<Longrightarrow> comparison (call c)"
  shows "sk_find call (Some s) p = sk_find call (Some (s\<lparr>sorted_flag := False\<rparr>)) p"
proof (cases "comp s")
  case (Some c)
  show ?thesis
  proof (cases "sorted_flag s")
    case True
    with Some assms(2) have sorted: "sorted_wrt (\<lambda>a b. call c a b \<le> 0) (elems s)" by (simp add: sorted_stack_def)
    note ord = comparison.above [OF assms(3) [OF Some]] comparison.below [OF assms(3) [OF Some]]
    have "falling (\<lambda>i. call c p (data s ! i)) 0 (num s)"
      unfolding falling_def
    proof (intro allI impI)
      fix i j
      assume ij: "0 \<le> i \<and> i \<le> j \<and> j < num s"
      show "(call c p (data s ! i) < 0 \<longrightarrow> call c p (data s ! j) < 0) \<and> (call c p (data s ! j) > 0 \<longrightarrow> call c p (data s ! i) > 0)"
      proof (cases "i = j")
        case False
        then have "call c (elems s ! i) (elems s ! j) \<le> 0"
          using sorted ij assms(1) by (intro sorted_wrt_nth_less [OF sorted]) simp_all
        then show ?thesis using ord ij by (simp add: nth_elems)
      qed simp
    qed
    then have "bsearch_loop (\<lambda>i. call c p (data s ! i)) 0 (num s) = Some (scan (\<lambda>i. call c p (data s ! i) = 0) 0 (num s))"
      by (rule bsearch_eq_scan) simp
    then show ?thesis using Some True by (simp add: sk_find_def sk_is_sorted_def)
  next
    case False
    then have "s\<lparr>sorted_flag := False\<rparr> = s" by simp
    then show ?thesis by simp
  qed
qed (simp add: sk_find_def)

text \<open>The answer of a search: the earliest index of an element that matches.\<close>

definition matches :: "('c \<Rightarrow> 'p option \<Rightarrow> 'p option \<Rightarrow> int) \<Rightarrow> ('p, 'c) stack \<Rightarrow> 'p option \<Rightarrow> 'p option \<Rightarrow> bool" where
  "matches call s p e \<longleftrightarrow> (case comp s of None \<Rightarrow> e = p | Some c \<Rightarrow> p \<noteq> None \<and> call c p e = 0)"

lemma sk_find_ok:
  assumes "wf_stack s" and "sorted_stack call s" and "\<And>c. comp s = Some c \<Longrightarrow> comparison (call c)"
  shows "\<exists>r. sk_find call (Some s) p = Some r \<and>
    (case r of None \<Rightarrow> \<forall>e \<in> set (elems s). \<not> matches call s p e
     | Some i \<Rightarrow> i < num s \<and> matches call s p (elems s ! i) \<and> (\<forall>j < i. \<not> matches call s p (elems s ! j)))"
proof -
  have "sk_find call (Some (s\<lparr>sorted_flag := False\<rparr>)) p = Some (scan (\<lambda>i. matches call s p (data s ! i)) 0 (num s))"
  proof (cases "comp s")
    case None
    then show ?thesis by (simp add: sk_find_def matches_def)
  next
    case (Some c)
    have "scan (\<lambda>i. False) 0 (num s) = None" by (simp add: scan_None)
    with Some show ?thesis by (simp add: sk_find_def matches_def sk_is_sorted_def)
  qed
  moreover have "case scan (\<lambda>i. matches call s p (data s ! i)) 0 (num s) of
      None \<Rightarrow> \<forall>e \<in> set (elems s). \<not> matches call s p e
    | Some i \<Rightarrow> i < num s \<and> matches call s p (elems s ! i) \<and> (\<forall>j < i. \<not> matches call s p (elems s ! j))"
  proof (cases "scan (\<lambda>i. matches call s p (data s ! i)) 0 (num s)")
    case None
    then have "\<forall>j < num s. \<not> matches call s p (data s ! j)" by (simp add: scan_None)
    then show ?thesis using assms(1) unfolding None by (auto simp: in_set_conv_nth nth_elems)
  next
    case (Some i)
    then have "i < num s" "matches call s p (data s ! i)" "\<forall>j < i. \<not> matches call s p (data s ! j)" by (auto simp: scan_Some)
    then show ?thesis unfolding Some by (simp add: nth_elems)
  qed
  moreover have "sk_find call (Some s) p = sk_find call (Some (s\<lparr>sorted_flag := False\<rparr>)) p"
    by (rule sk_find_sorted [OF assms(1,2)]) (rule assms(3))
  ultimately show ?thesis by simp
qed

lemma sk_sort_ok:
  assumes "wf_stack s" and "sorted_stack call s" and "\<And>c. comp s = Some c \<Longrightarrow> comparison (call c)"
  shows "\<exists>s'. sk_sort call (Some s) = Some s' \<and> wf_stack s' \<and> sorted_stack call s' \<and> comp s' = comp s
    \<and> mset (elems s') = mset (elems s) \<and> (comp s \<noteq> None \<longrightarrow> sorted_flag s')"
proof (cases "comp s")
  case (Some c)
  show ?thesis
  proof (cases "sorted_flag s")
    case False
    note wf = assms(1) [unfolded wf_stack_def]
    obtain cells where c: "cells = (if num s \<ge> 2 then mem_write (data s) 0 (qsort (call c) (elems s)) else data s)" by blast
    have len: "length (elems s) = num s" using assms(1) by simp
    have e: "take (num s) cells = (if num s \<ge> 2 then qsort (call c) (elems s) else elems s)"
      using len wf by (simp add: c mem_write_def elems_def)
    have "sorted_wrt (\<lambda>a b. call c a b \<le> 0) (take (num s) cells)"
    proof (cases "num s \<ge> 2")
      case True
      then show ?thesis unfolding e using comparison.qsort_sorted [OF assms(3) [OF Some]] by simp
    next
      case False
      then have "length (elems s) \<le> 1" using len by simp
      then show ?thesis unfolding e using False by (cases "elems s") auto
    qed
    moreover have "mset (take (num s) cells) = mset (elems s)" unfolding e by (simp add: mset_qsort)
    moreover have "length cells = num_alloc s" using wf len by (simp add: c)
    moreover have "sk_sort call (Some s) = Some (s\<lparr>data := cells, sorted_flag := True\<rparr>)"
      using Some False by (simp add: sk_sort_def c elems_def)
    ultimately show ?thesis using wf Some by (simp add: wf_stack_def sorted_stack_def elems_def)
  qed (use Some assms in \<open>simp add: sk_sort_def\<close>)
qed (use assms in \<open>simp add: sk_sort_def\<close>)

subsection \<open>Copies\<close>

lemma length_cells_realloc [simp]: "length (cells_realloc uninit cells n) = n"
  by (simp add: cells_realloc_def min_def)

lemma sk_dup_ok:
  assumes "wf_stack s" and "sk_dup malloc uninit (Some s) = Some s'"
  shows "wf_stack s' \<and> num s' = num s \<and> comp s' = comp s \<and> sorted_flag s' = sorted_flag s \<and> elems s' = elems s"
proof -
  note wf = assms(1) [unfolded wf_stack_def]
  obtain ret where ret: "sk_new malloc (comp s) = Some ret"
    and s': "s' = ret\<lparr>data := mem_write (cells_realloc uninit (data ret) (num_alloc s)) 0 (elems s),
      num := num s, sorted_flag := sorted_flag s, num_alloc := num_alloc s, comp := comp s\<rparr>"
    using assms(2) by (auto simp: sk_dup_def elems_def split: option.splits if_splits)
  have "length (elems s) = num s" using assms(1) by simp
  then show ?thesis using wf by (simp add: s' wf_stack_def) (simp add: elems_def mem_write_def)
qed

text \<open>
  Copying threads the effect of the callbacks. \<open>live\<close> counts what the copy function has created and
  the free function has not yet released.
\<close>

definition present :: "'p option list \<Rightarrow> 'p multiset" where
  "present xs = mset (List.map_filter id xs)"

lemma present_simps [simp]:
  "present [] = {#}" "present (None # xs) = present xs" "present (Some p # xs) = add_mset p (present xs)"
  "present (xs @ ys) = present xs + present ys"
  by (simp_all add: present_def map_filter_def)

definition copies :: "('p \<Rightarrow> 's \<Rightarrow> 'p option \<times> 's) \<Rightarrow> ('p \<Rightarrow> 's \<Rightarrow> 's) \<Rightarrow> ('s \<Rightarrow> 'p multiset) \<Rightarrow> bool" where
  "copies copy_func free_func live \<longleftrightarrow>
    (\<forall>p st. live (snd (copy_func p st)) = (case fst (copy_func p st) of None \<Rightarrow> live st | Some q \<Rightarrow> add_mset q (live st)))
    \<and> (\<forall>q st. live (free_func q st) = live st - {#q#})"

lemma free_row_live:
  assumes "copies copy_func free_func live"
  shows "i \<le> length cells \<Longrightarrow>
    live (foldl (\<lambda>st j. case cells ! j of None \<Rightarrow> st | Some q \<Rightarrow> free_func q st) st [0..<i]) = live st - present (take i cells)"
proof (induction i)
  case (Suc i)
  then show ?case using assms
    by (cases "cells ! i") (simp_all add: take_Suc_conv_app_nth copies_def)
qed simp

lemma deep_copy_loop_ok:
  "copies copy_func free_func live \<Longrightarrow> i \<le> n \<Longrightarrow> n \<le> length cells \<Longrightarrow> live st = L + present (take i cells) \<Longrightarrow>
    deep_copy_loop copy_func free_func i n cells st = (r, st') \<Longrightarrow>
    (case r of None \<Rightarrow> live st' = L
     | Some cells' \<Rightarrow> length cells' = length cells \<and> live st' = L + present (take n cells')
         \<and> take i cells' = take i cells \<and> drop n cells' = drop n cells \<and> (\<forall>j < length cells. cells' ! j = None \<longleftrightarrow> cells ! j = None))"
proof (induction copy_func free_func i n cells st arbitrary: r st' rule: deep_copy_loop.induct)
  case (1 copy_func free_func i n cells st)
  show ?case
  proof (cases "i < n")
    case False
    then have "r = Some cells" "st' = st" using "1.prems"(5) by (simp_all add: deep_copy_loop.simps [of _ _ i n])
    then show ?thesis using "1.prems" False by auto
  next
    case True
    then have i: "i < length cells" using "1.prems"(3) by simp
    show ?thesis
    proof (cases "cells ! i")
      case None
      have step: "deep_copy_loop copy_func free_func (Suc i) n cells st = (r, st')"
        using "1.prems"(5) True None by (subst (asm) deep_copy_loop.simps) simp
      have "live st = L + present (take (Suc i) cells)" using "1.prems"(4) None i by (simp add: take_Suc_conv_app_nth)
      from "1.IH"(1) [OF True None "1.prems"(1) _ _ this step] True "1.prems"(3) i
      show ?thesis by (auto split: option.splits simp: take_Suc_conv_app_nth)
    next
      case (Some p)
      obtain c st1 where c: "copy_func p st = (c, st1)" by (cases "copy_func p st")
      show ?thesis
      proof (cases c)
        case None
        then have "r = None" "st' = foldl (\<lambda>st j. case cells ! j of None \<Rightarrow> st | Some q \<Rightarrow> free_func q st) st1 [0..<i]"
          using "1.prems"(5) True Some c by (subst (asm) deep_copy_loop.simps; simp)+
        moreover have "live st1 = live st" using "1.prems"(1) c None unfolding copies_def by (metis fst_conv option.simps(4) snd_conv)
        ultimately show ?thesis using free_row_live [OF "1.prems"(1), of i cells st1] i "1.prems"(4) by simp
      next
        case (Some q)
        note cs = \<open>cells ! i = Some p\<close>
        have step: "deep_copy_loop copy_func free_func (Suc i) n (cells[i := Some q]) st1 = (r, st')"
          using "1.prems"(5) True cs c Some by (subst (asm) deep_copy_loop.simps) simp
        have "live st1 = add_mset q (live st)" using "1.prems"(1) c Some unfolding copies_def by (metis fst_conv option.simps(5) snd_conv)
        then have "live st1 = L + present (take (Suc i) (cells[i := Some q]))"
          using "1.prems"(4) i by (simp add: take_Suc_conv_app_nth)
        from "1.IH"(2) [OF True cs c [symmetric] Some "1.prems"(1) _ _ this step] True "1.prems"(3) i cs
        show ?thesis by (auto split: option.splits simp: take_Suc_conv_app_nth nth_list_update)
      qed
    qed
  qed
qed

lemma sk_deep_copy_ok:
  assumes "wf_stack s" and "copies copy_func free_func live" and "sk_deep_copy malloc uninit copy_func free_func (Some s) st = (r, st')"
  shows "case r of None \<Rightarrow> live st' = live st
    | Some s' \<Rightarrow> wf_stack s' \<and> comp s' = comp s \<and> num s' = num s \<and> live st' = live st + present (elems s')
        \<and> (\<forall>j < num s. elems s' ! j = None \<longleftrightarrow> elems s ! j = None)"
proof (cases "sk_dup malloc uninit (Some s)")
  case None
  then show ?thesis using assms(3) by (auto simp: sk_deep_copy_def)
next
  case (Some ret)
  note dup = sk_dup_ok [OF assms(1) Some]
  obtain c st1 where c: "deep_copy_loop copy_func free_func 0 (num ret) (data ret) st = (c, st1)"
    by (cases "deep_copy_loop copy_func free_func 0 (num ret) (data ret) st")
  have "num ret \<le> length (data ret)" using dup by (simp add: wf_stack_def)
  from deep_copy_loop_ok [OF assms(2) _ this _ c, of "live st"] have
    l: "case c of None \<Rightarrow> live st1 = live st
     | Some cells' \<Rightarrow> length cells' = length (data ret) \<and> live st1 = live st + present (take (num ret) cells')
         \<and> (\<forall>j < length (data ret). cells' ! j = None \<longleftrightarrow> data ret ! j = None)" by (auto split: option.splits)
  have e: "elems s ! j = data ret ! j" if "j < num s" for j
    using that dup by (metis nth_elems)
  show ?thesis
  proof (cases c)
    case None
    then have "r = None" "st' = st1" using assms(3) Some c by (simp_all add: sk_deep_copy_def)
    then show ?thesis using l None by simp
  next
    case (Some cells')
    then have r: "r = Some (ret\<lparr>data := cells'\<rparr>)" "st' = st1"
      using assms(3) \<open>sk_dup malloc uninit (Some s) = Some ret\<close> c by (simp_all add: sk_deep_copy_def)
    have "elems (ret\<lparr>data := cells'\<rparr>) = take (num ret) cells'" by (simp add: elems_def)
    then show ?thesis using l Some r dup e by (auto simp: wf_stack_def)
  qed
qed

subsection \<open>Ends of the stack\<close>

lemma sk_insert_total:
  assumes "wf_stack s" and "\<And>m. malloc m \<noteq> None" and "num_alloc s < 2 ^ 59"
  shows "sk_grow malloc uninit s \<noteq> None"
proof -
  have s2: "size_t (num_alloc s * 2) = num_alloc s * 2" "size_t (num_alloc s * 2 * 8) = num_alloc s * 2 * 8"
    using assms(3) by (simp_all add: size_t_id)
  have "OPENSSL_malloc malloc n \<noteq> None" for n using assms(2) by (rule OPENSSL_malloc_total)
  then show ?thesis using s2 by (simp add: sk_grow_def Let_def del: not_None_eq)
qed

lemma sk_push_ok:
  assumes "wf_stack s" and "sk_push malloc uninit (Some s) p = Some (r, sk')" and "r \<noteq> 0"
  shows "\<exists>s'. sk' = Some s' \<and> wf_stack s' \<and> r = num s + 1 \<and> elems s' = elems s @ [p]"
proof -
  have "sk_insert malloc uninit (Some s) p (num s) = (r, sk')" using assms(2) by (simp add: sk_push_def)
  from sk_insert_ok [OF assms(1) this] assms(1,3) show ?thesis by auto
qed

lemma sk_pop_ok:
  assumes "wf_stack s" and "elems s = es @ [p]"
  shows "\<exists>s'. sk_pop (Some s) = (p, Some s') \<and> wf_stack s' \<and> elems s' = es"
proof -
  have n: "num s = Suc (length es)" using arg_cong [OF assms(2), of length] assms(1) by simp
  then have "num s - 1 < num s" by simp
  from sk_delete_ok [OF assms(1) this] show ?thesis using n assms(2) by (auto simp: sk_pop_def)
qed

lemma sk_shift_ok:
  assumes "wf_stack s" and "elems s = p # es"
  shows "\<exists>s'. sk_shift (Some s) = (p, Some s') \<and> wf_stack s' \<and> elems s' = es"
proof -
  have n: "num s = Suc (length es)" using arg_cong [OF assms(2), of length] assms(1) by simp
  then have "0 < num s" by simp
  from sk_delete_ok [OF assms(1) this] show ?thesis using n assms(2) by (auto simp: sk_shift_def)
qed

lemma remove1_take_drop: "i < length xs \<Longrightarrow> xs ! i = p \<Longrightarrow> \<forall>j < i. xs ! j \<noteq> p \<Longrightarrow> take i xs @ drop (Suc i) xs = remove1 p xs"
proof (induction xs arbitrary: i)
  case (Cons x xs)
  then show ?case by (cases i) (auto simp: All_less_Suc2)
qed simp

lemma sk_delete_ptr_ok:
  assumes "wf_stack s"
  shows "\<exists>s'. sk_delete_ptr (Some s) p = ((if p \<in> set (elems s) then p else None), Some s') \<and> wf_stack s' \<and> elems s' = remove1 p (elems s)"
proof (cases "scan (\<lambda>i. data s ! i = p) 0 (num s)")
  case None
  then have "p \<notin> set (elems s)" using assms by (auto simp: scan_None in_set_conv_nth nth_elems)
  then show ?thesis using None assms by (simp add: sk_delete_ptr_def remove1_idem)
next
  case (Some i)
  then have i: "i < num s" "elems s ! i = p" "\<forall>j < i. elems s ! j \<noteq> p" by (auto simp: scan_Some nth_elems)
  moreover have "p \<in> set (elems s)" using i assms by (metis length_elems nth_mem)
  ultimately show ?thesis using sk_delete_ok [OF assms i(1)] Some remove1_take_drop [of i "elems s" p] assms
    by (auto simp: sk_delete_ptr_def)
qed

lemma sk_sort_find:
  assumes "wf_stack s" and "sorted_stack call s" and "comp s = Some c" and "comparison (call c)"
  shows "\<exists>s' r. sk_sort call (Some s) = Some s' \<and> sk_find call (Some s') p = Some r
    \<and> (r \<noteq> None \<longleftrightarrow> p \<noteq> None \<and> (\<exists>e \<in> set (elems s). call c p e = 0))"
proof -
  have cmp: "comparison (call d)" if "comp s = Some d" for d using that assms(3,4) by simp
  from sk_sort_ok [OF assms(1,2) cmp] obtain s' where s': "sk_sort call (Some s) = Some s'" "wf_stack s'" "sorted_stack call s'"
    "comp s' = comp s" "mset (elems s') = mset (elems s)" by blast
  have "comparison (call d)" if "comp s' = Some d" for d using that s'(4) cmp by simp
  from sk_find_ok [OF s'(2,3) this, of p] obtain r where r: "sk_find call (Some s') p = Some r"
    "case r of None \<Rightarrow> \<forall>e \<in> set (elems s'). \<not> matches call s' p e
     | Some i \<Rightarrow> i < num s' \<and> matches call s' p (elems s' ! i) \<and> (\<forall>j < i. \<not> matches call s' p (elems s' ! j))" by blast
  have "r \<noteq> None \<longleftrightarrow> (\<exists>e \<in> set (elems s'). matches call s' p e)"
  proof (cases r)
    case (Some i)
    then have "elems s' ! i \<in> set (elems s')" using r(2) s'(2) by simp
    with Some r(2) show ?thesis by auto
  qed (use r(2) in simp)
  moreover have "set (elems s') = set (elems s)" using mset_eq_setD [OF s'(5)] .
  ultimately show ?thesis using s'(1,4) r(1) assms(3) by (auto simp: matches_def)
qed

text \<open>\<open>sk_set\<close> replaces one element, and leaves the flag as it was.\<close>

lemma sk_set_ok:
  assumes "wf_stack s" and "i < num s"
  shows "\<exists>s'. sk_set (Some s) i v = (v, Some s') \<and> wf_stack s' \<and> elems s' = (elems s)[i := v] \<and> sorted_flag s' = sorted_flag s \<and> comp s' = comp s"
  using assms by (auto simp: sk_set_def wf_stack_def elems_def take_update_swap)

end
