(* ===== verification/Buf.thy ===== *)
theory Buf
  imports Mem
begin

text \<open>
  \<open>crypto/buf/buf.c\<close>: a growable byte buffer. \<open>data\<close> is the block of \<open>max\<close> bytes, \<open>None\<close> before
  the first reservation; the first \<open>length\<close> bytes are the contents.
\<close>

record BUF_MEM =
  buf_length :: nat
  buf_data :: "byte list option"
  buf_max :: nat

definition BUF_MEM_new :: "allocator \<Rightarrow> BUF_MEM option" where
  "BUF_MEM_new malloc =
    (if OPENSSL_malloc malloc 24 = None then None else Some \<lparr>buf_length = 0, buf_data = None, buf_max = 0\<rparr>)"

definition BUF_MEM_reserve :: "allocator \<Rightarrow> BUF_MEM \<Rightarrow> nat \<Rightarrow> bool \<times> BUF_MEM" where
  "BUF_MEM_reserve malloc buf cap =
    (if buf_max buf \<ge> cap then (True, buf)
     else let n0 = size_t (cap + 3) in
       if n0 < cap then (False, buf)
       else let n = n0 div 3; alloc_size = size_t (n * 4) in
         if alloc_size div 4 \<noteq> n then (False, buf)
         else (case OPENSSL_realloc malloc (buf_data buf) alloc_size of
             None \<Rightarrow> (False, buf)
           | Some new_buf \<Rightarrow> (True, buf\<lparr>buf_data := Some new_buf, buf_max := alloc_size\<rparr>)))"

text \<open>\<open>memset\<close> and \<open>memcpy\<close> on a NULL block (only with length 0) leave it alone.\<close>

definition buf_write :: "BUF_MEM \<Rightarrow> nat \<Rightarrow> byte list \<Rightarrow> BUF_MEM" where
  "buf_write buf i bs = buf\<lparr>buf_data := map_option (\<lambda>d. mem_write d i bs) (buf_data buf)\<rparr>"

definition BUF_MEM_grow :: "allocator \<Rightarrow> BUF_MEM \<Rightarrow> nat \<Rightarrow> nat \<times> BUF_MEM" where
  "BUF_MEM_grow malloc buf len =
    (case BUF_MEM_reserve malloc buf len of
       (False, buf1) \<Rightarrow> (0, buf1)
     | (True, buf1) \<Rightarrow>
         let buf2 = (if buf_length buf1 < len then buf_write buf1 (buf_length buf1) (replicate (len - buf_length buf1) 0) else buf1)
         in (len, buf2\<lparr>buf_length := len\<rparr>))"

definition BUF_MEM_grow_clean :: "allocator \<Rightarrow> BUF_MEM \<Rightarrow> nat \<Rightarrow> nat \<times> BUF_MEM" where
  "BUF_MEM_grow_clean malloc buf len = BUF_MEM_grow malloc buf len"

definition BUF_MEM_append :: "allocator \<Rightarrow> BUF_MEM \<Rightarrow> byte list \<Rightarrow> bool \<times> BUF_MEM" where
  "BUF_MEM_append malloc buf inp =
    (if length inp = 0 then (True, buf)
     else let new_len = size_t (buf_length buf + length inp) in
       if new_len < length inp then (False, buf)
       else (case BUF_MEM_reserve malloc buf new_len of
           (False, buf1) \<Rightarrow> (False, buf1)
         | (True, buf1) \<Rightarrow> (True, (buf_write buf1 (buf_length buf1) inp)\<lparr>buf_length := new_len\<rparr>)))"

definition buf_contents :: "BUF_MEM \<Rightarrow> byte list" where
  "buf_contents buf = (case buf_data buf of None \<Rightarrow> [] | Some d \<Rightarrow> take (buf_length buf) d)"

definition wf_buf :: "BUF_MEM \<Rightarrow> bool" where
  "wf_buf buf \<longleftrightarrow> buf_length buf \<le> buf_max buf \<and> buf_max buf < 2 ^ 64
    \<and> (case buf_data buf of None \<Rightarrow> buf_max buf = 0 | Some d \<Rightarrow> length d = buf_max buf)"

lemma BUF_MEM_new_ok: "BUF_MEM_new malloc = Some buf \<Longrightarrow> wf_buf buf \<and> buf_contents buf = []"
  by (auto simp: BUF_MEM_new_def wf_buf_def buf_contents_def split: if_splits)

lemma length_buf_contents: "wf_buf buf \<Longrightarrow> length (buf_contents buf) = buf_length buf"
  by (auto simp: wf_buf_def buf_contents_def split: option.splits)

lemma quad_fits:
  assumes "size_t (n * 4) div 4 = n"
  shows "size_t (n * 4) = n * 4"
proof -
  have "n * 4 \<le> size_t (n * 4)" using assms by linarith
  also have "size_t (n * 4) < 2 ^ 64" by (simp add: size_t_def)
  finally have "n * 4 < 2 ^ 64" .
  then show ?thesis by (rule size_t_id)
qed

lemma length_OPENSSL_realloc: "OPENSSL_realloc malloc old n = Some p \<Longrightarrow> length p = n"
  by (auto simp: OPENSSL_realloc_def OPENSSL_malloc_def Let_def split: option.splits)

lemma take_OPENSSL_realloc:
  "OPENSSL_realloc malloc (Some d) n = Some p \<Longrightarrow> k \<le> length d \<Longrightarrow> k \<le> n \<Longrightarrow> take k p = take k d"
  by (auto simp: OPENSSL_realloc_def OPENSSL_malloc_def Let_def mem_write_def min_def split: option.splits)

lemma BUF_MEM_reserve_ok:
  assumes "wf_buf buf" and "cap < 2 ^ 64" and "BUF_MEM_reserve malloc buf cap = (r, buf')"
  shows "wf_buf buf' \<and> buf_contents buf' = buf_contents buf \<and> buf_length buf' = buf_length buf
    \<and> (r \<longrightarrow> cap \<le> buf_max buf') \<and> (\<not> r \<longrightarrow> buf' = buf)"
proof (cases "buf_max buf \<ge> cap \<or> \<not> r")
  case True
  then show ?thesis using assms by (auto simp: BUF_MEM_reserve_def Let_def split: if_splits option.splits)
next
  case False
  then have cap: "buf_max buf < cap" and r: r by simp_all
  obtain n0 where n0: "n0 = size_t (cap + 3)" by blast
  obtain p where p: "\<not> n0 < cap" "size_t (n0 div 3 * 4) div 4 = n0 div 3"
    "OPENSSL_realloc malloc (buf_data buf) (size_t (n0 div 3 * 4)) = Some p"
    "buf' = buf\<lparr>buf_data := Some p, buf_max := size_t (n0 div 3 * 4)\<rparr>"
    using assms(3) cap r unfolding BUF_MEM_reserve_def Let_def n0 [symmetric] by (auto split: if_splits option.splits)
  have "n0 = cap + 3"
  proof (cases "cap + 3 < 2 ^ 64")
    case False
    then have "n0 = cap + 3 - 2 ^ 64" unfolding n0 size_t_def using assms(2) by (simp add: le_mod_geq)
    then show ?thesis using p(1) False assms(2) by simp
  qed (simp add: n0 size_t_id)
  then have a: "size_t (n0 div 3 * 4) = n0 div 3 * 4" "cap \<le> n0 div 3 * 4" using quad_fits [OF p(2)] by auto
  have b: "size_t (n0 div 3 * 4) < 2 ^ 64" by (simp add: size_t_def)
  have l: "length p = size_t (n0 div 3 * 4)" using p(3) by (rule length_OPENSSL_realloc)
  have "buf_contents buf' = buf_contents buf"
  proof (cases "buf_data buf")
    case None
    then have "buf_length buf = 0" using assms(1) by (simp add: wf_buf_def)
    then show ?thesis by (simp add: p(4) buf_contents_def None)
  next
    case (Some d)
    then show ?thesis using take_OPENSSL_realloc [of malloc d _ p "buf_length buf"] p(3,4) assms(1) a cap
      by (simp add: buf_contents_def wf_buf_def)
  qed
  then show ?thesis using assms(1) a b l cap r by (simp add: p(4) wf_buf_def)
qed

lemma buf_write_end:
  assumes "wf_buf buf" and "buf_length buf + length bs \<le> buf_max buf" and "bs \<noteq> []"
  shows "wf_buf ((buf_write buf (buf_length buf) bs)\<lparr>buf_length := buf_length buf + length bs\<rparr>)
    \<and> buf_contents ((buf_write buf (buf_length buf) bs)\<lparr>buf_length := buf_length buf + length bs\<rparr>) = buf_contents buf @ bs"
proof -
  obtain d where d: "buf_data buf = Some d" "length d = buf_max buf"
    using assms by (cases "buf_data buf") (auto simp: wf_buf_def)
  then show ?thesis using assms by (simp add: buf_write_def wf_buf_def buf_contents_def mem_write_def)
qed

lemma BUF_MEM_append_ok:
  assumes "wf_buf buf" and "length inp < 2 ^ 64" and "BUF_MEM_append malloc buf inp = (r, buf')"
  shows "wf_buf buf' \<and> buf_contents buf' = (if r then buf_contents buf @ inp else buf_contents buf)"
proof (cases "inp = []")
  case False
  obtain new_len where nl: "new_len = size_t (buf_length buf + length inp)" by blast
  have bl: "buf_length buf < 2 ^ 64" using assms(1) by (simp add: wf_buf_def)
  show ?thesis
  proof (cases "new_len < length inp")
    case True
    then show ?thesis using assms False by (simp add: BUF_MEM_append_def Let_def nl [symmetric])
  next
    case fits: False
    have e: "new_len = buf_length buf + length inp"
    proof (cases "buf_length buf + length inp < 2 ^ 64")
      case False
      then have "new_len = buf_length buf + length inp - 2 ^ 64"
        unfolding nl size_t_def using assms(2) bl by (simp add: le_mod_geq)
      then show ?thesis using fits False bl by simp
    qed (simp add: nl size_t_id)
    have nb: "new_len < 2 ^ 64" by (simp add: nl size_t_def)
    obtain q buf1 where q: "BUF_MEM_reserve malloc buf new_len = (q, buf1)" by (cases "BUF_MEM_reserve malloc buf new_len")
    note res = BUF_MEM_reserve_ok [OF assms(1) nb q]
    show ?thesis
    proof (cases q)
      case True
      then have "buf' = (buf_write buf1 (buf_length buf1) inp)\<lparr>buf_length := buf_length buf1 + length inp\<rparr>" r
        using assms(3) False fits q e res by (simp_all add: BUF_MEM_append_def Let_def nl [symmetric])
      then show ?thesis using buf_write_end [of buf1 inp] res True e False by simp
    next
      case qf: False
      then have "buf' = buf" "\<not> r" using assms(3) False fits q res by (simp_all add: BUF_MEM_append_def Let_def nl [symmetric])
      then show ?thesis using assms(1) by simp
    qed
  qed
qed (use assms in \<open>simp add: BUF_MEM_append_def\<close>)

lemma BUF_MEM_grow_ok:
  assumes "wf_buf buf" and "len < 2 ^ 64" and "BUF_MEM_grow malloc buf len = (r, buf')" and "0 < len"
  shows "wf_buf buf' \<and> (r = 0 \<and> buf' = buf
    \<or> r = len \<and> buf_contents buf' = take len (buf_contents buf) @ replicate (len - buf_length buf) 0)"
proof -
  obtain q buf1 where q: "BUF_MEM_reserve malloc buf len = (q, buf1)" by (cases "BUF_MEM_reserve malloc buf len")
  note res = BUF_MEM_reserve_ok [OF assms(1,2) q]
  show ?thesis
  proof (cases q)
    case False
    then show ?thesis using assms(1,3) q res by (simp add: BUF_MEM_grow_def)
  next
    case True
    show ?thesis
    proof (cases "buf_length buf < len")
      case lt: True
      then have "buf' = (buf_write buf1 (buf_length buf1) (replicate (len - buf_length buf1) 0))\<lparr>buf_length := len\<rparr>" "r = len"
        using assms(3) True q res by (auto simp: BUF_MEM_grow_def Let_def)
      then show ?thesis using buf_write_end [of buf1 "replicate (len - buf_length buf1) 0"] res True lt length_buf_contents [OF assms(1)] by simp
    next
      case ge: False
      then have b: "buf' = buf1\<lparr>buf_length := len\<rparr>" "r = len" using assms(3) True q res by (auto simp: BUF_MEM_grow_def Let_def)
      have "buf_length buf1 = buf_length buf" using res by blast
      then have "buf_contents buf' = take len (buf_contents buf1)"
        using ge by (simp add: b(1) buf_contents_def min_absorb1 split: option.split)
      then show ?thesis using res ge True b by (auto simp: wf_buf_def split: option.splits)
    qed
  qed
qed

end
