(* ===== verification/Spec2Isabelle.thy ===== *)
theory Spec2Isabelle
  imports Mem Cbs Der Der_Int Cbb Cbb_Asn1 Oid Cbb_Ops Unicode Ber Constant_Time Base64 Tls_Cbc Modes_Cbc Modes_Cfb Poly1305_Finish Chacha_Poly Refcount Bio_Pair Bio_Asn1 Lhash Stack Buf "HOL-Library.Code_Target_Nat"
begin

text \<open>
  A verification library for the C code of the repository.

  The program. The repository holds small iOS applications in Swift (BeerMi, Bitcoint Price Tracker,
  Egg Timer, GuessRandomNumber, Image_Collector, Joke Bank, RNDM, Roboty, SnapFun, TalkToMe). Their C
  code comes with the pods of RNDM and SnapFun: Firestore talks to its server with gRPC, gRPC over
  TLS with BoringSSL (\<open>src/RNDM/Pods/BoringSSL-GRPC\<close>), and messages are encoded by nanopb. The
  library models the part of BoringSSL that everything else in it rests on: memory, byte strings and
  ASN.1, containers, reference counts and BIO. Paths below are relative to
  \<open>src/RNDM/Pods/BoringSSL-GRPC/src\<close>.

  How the parts interact. Certificates and keys reach the code as byte strings. \<open>CBS\<close> readers take
  them apart and \<open>CBB\<close> writers put them together; both know ASN.1 (tags, lengths, integers, object
  identifiers, strings), PKCS#7 and PKCS#12 input is first converted from BER to DER, and PEM text is
  decoded by base64. The parsed objects live in stacks and hash tables and are shared by reference
  counts. The TLS record layer moves bytes through BIOs; a BIO pair is the in-memory connection. All
  of them allocate through \<open>crypto/mem.c\<close>.

  Theories, in the order of the calls:

  \<^item> \<open>Bytes_Prelude\<close>: bytes, \<open>size_t\<close>, big- and little-endian strings, \<open>memcpy\<close> on arrays, and the
    locales \<open>byte_codec\<close> and \<open>nonempty_codec\<close>: an encoding and the parser that accepts exactly it.
  \<^item> \<open>Mem\<close>: \<open>crypto/mem.c\<close> and the inline helpers of \<open>crypto/internal.h\<close>. \<open>malloc\<close> is a parameter
    of every function that allocates: a function of the size that may refuse.
  \<^item> \<open>Cbs\<close>: \<open>crypto/bytestring/cbs.c\<close>. A \<open>CBS\<close> is the list of bytes left; a reader returns the output
    or \<open>None\<close>, and the CBS as the C code leaves it, also when it fails.
  \<^item> \<open>Der\<close>, \<open>Der_Int\<close>: the specification of DER (base-128 numbers, tags, lengths, elements, integers,
    booleans) and the proof that the readers of \<open>Cbs\<close> accept exactly it.
  \<^item> \<open>Cbb\<close>, \<open>Cbb_Asn1\<close>: \<open>crypto/bytestring/cbb.c\<close>. The state is the shared buffer and the chain of
    open children. \<open>writes d f bs\<close> is the abstract specification: \<open>f\<close> appends \<open>bs\<close> to the child at
    depth \<open>d\<close>, or poisons the buffer. The locale \<open>cbb_codec\<close> joins a writer with its reader; its
    interpretations are the fixed-width integers, the length-prefixed strings, elements, integers,
    booleans and the four text encodings.
  \<^item> \<open>Qsort\<close>: \<open>qsort\<close> of the C library and its contract with a comparison function (locale
    \<open>comparison\<close>), which the SET OF writer and the stack use.
  \<^item> \<open>Oid\<close>, \<open>Unicode\<close>, \<open>Ber\<close>: object identifiers as text, \<open>unicode.c\<close>, and \<open>ber.c\<close>.
  \<^item> \<open>Cbb_Ops\<close>: the operations of \<open>cbb.c\<close> as data, and runs of them with any results. The locale
    \<open>cbb_invariant\<close> carries an invariant of the primitive steps to every run; its interpretations are
    the error flag, which is never cleared, and the memory behind a fixed buffer, which is never written.
  \<^item> \<open>Constant_Time\<close>, \<open>Base64\<close>: the branch-free primitives of \<open>crypto/internal.h\<close>, and
    \<open>crypto/base64/base64.c\<close> on top of them.
  \<^item> \<open>Tls_Cbc\<close>: \<open>crypto/cipher_extra/tls_cbc.c\<close>, also on top of them; the hash function is a parameter
    (its state, block transformation and output), the specification is the padding rule of TLS and HMAC.
  \<^item> \<open>Modes\<close>, \<open>Modes_Cbc\<close>, \<open>Modes_Cfb\<close>: CTR, OFB, CFB and CBC of \<open>crypto/fipsmodule/modes\<close> over any
    block cipher. The locale \<open>stream_mode\<close> shows that the loops of a stream mode compute a machine that
    takes one byte at a time; CBC works in one memory, where input and output may overlap.
  \<^item> \<open>Poly1305\<close>, \<open>Poly1305_Finish\<close>: the portable \<open>crypto/poly1305/poly1305.c\<close>, and the authenticator of
    RFC 8439 (\<open>poly1305_mac\<close>) as its specification. \<open>Poly1305\<close> has the model, the bounds of the limbs,
    and the invariant \<open>poly1305_at\<close> of a stream; \<open>Poly1305_Finish\<close> has the tag.
  \<^item> \<open>Chacha\<close>: \<open>crypto/chacha/chacha.c\<close>: rounds, ChaCha20 in memory as the XOR with a keystream, HChaCha20,
    and the state, rounds and block function of RFC 8439 (\<open>rfc_block\<close>) as their specification.
  \<^item> \<open>Aead\<close>: \<open>crypto/fipsmodule/cipher/aead.c\<close> over the method table \<open>EVP_AEAD\<close>. The locale \<open>aead_scheme\<close>
    is what a method promises; in it sealing and opening are shown to be exact and inverse.
  \<^item> \<open>Chacha_Poly\<close>: \<open>crypto/cipher_extra/e_chacha20poly1305.c\<close>, which puts ChaCha20 and Poly1305 together,
    and the interpretations of \<open>aead_scheme\<close> on ChaCha20-Poly1305 and XChaCha20-Poly1305.
  \<^item> \<open>Refcount\<close>: \<open>refcount_lock.c\<close> as functions and \<open>refcount_c11.c\<close> as a step relation in which any
    number of threads interleave their loads and compare-and-exchange steps.
  \<^item> \<open>Bio\<close>, \<open>Bio_Pair\<close>: \<open>crypto/bio/bio.c\<close> over an explicit store of BIOs with the method table as a
    record of functions, and \<open>crypto/bio/pair.c\<close>: two ring buffers. The abstract view of one
    direction is a bounded queue (record \<open>pipe\<close>); the locale \<open>byte_pipe\<close> is a reliable byte stream.
  \<^item> \<open>Bio_Asn1\<close>: \<open>BIO_read_asn1\<close> of \<open>bio.c\<close>, over the locales \<open>byte_source\<close> (a read that delivers what
    is there, in pieces) and \<open>ended_source\<close> (that reports its end by 0), interpreted on the pair.
  \<^item> \<open>Lhash\<close>: \<open>crypto/lhash/lhash.c\<close>. The abstract view is a finite map; the locale \<open>keyed_table\<close> is
    the interface of a dictionary whose insertions may fail.
  \<^item> \<open>Stack\<close>, \<open>Buf\<close>: \<open>crypto/stack/stack.c\<close> and \<open>crypto/buf/buf.c\<close>.

  What is shown. Readers: each accepts exactly the canonical encodings, consumes exactly those bytes
  and returns their value. Writers: what they produce is read back, they never write beyond a fixed
  array, an error is latched until the end, and they succeed whenever the result fits and memory is
  there. BER conversion ends and yields DER. Base64: encoder and decoder are inverse for every way of
  cutting the stream, and the one-shot and streaming forms agree. TLS CBC records: the branch-free
  padding check, MAC extraction and digest equal the padding rule, a slice and HMAC. Modes: CTR in
  any pieces, and its 32-bit variant, XORs the keystream of the counter; CBC and CFB decrypt what they
  encrypted, CBC for every overlap of input and output that is allowed. Poly1305: the tag is that of RFC 8439 for
  every way of cutting the message, unless the last accumulator is below \<open>2 ^ 33\<close> with low 26 bits
  below 5; there a wrong tag is exhibited. ChaCha20-Poly1305: opening accepts exactly what ends in its own
  tag and leaves no unauthenticated byte; sealed is opened, in place or not; extra input is appended,
  but may meet the block of the Poly1305 key. Reference counts: the atomic version
  refines the locked one, and exactly one of the last releases sees zero. BIO pairs: any schedule
  delivers what was accepted, in order, and no assertion fails; \<open>BIO_read_asn1\<close> takes exactly one
  element from it. Hash tables refine maps through every
  resize and keep their load bounded. Stacks: the binary search equals the linear one, deep copies do
  not leak. Buffers: every size computation that could wrap is caught.

  Allocation. \<open>OPENSSL_malloc\<close> adds eight bytes to the size without a check. For sizes of \<open>2 ^ 64 - 8\<close>
  and more the request wraps and the C code writes behind the block; the model has a block of the size
  asked for there, so such calls are outside it. The theorems that promise success
  (\<open>elements_round_trip\<close>, \<open>pair_fifo_any_schedule\<close>) bound the sizes the caller chooses and need an
  allocator that answers requests of at least eight bytes only: a wrapped request is shorter, so that
  none is made. The theorems that start from a result the code returned speak of calls that do not wrap.

  Conventions. A target with 64-bit \<open>size_t\<close> and 32-bit \<open>int\<close>. Lengths of objects in memory are
  natural numbers; a computation of the code that may overflow is reduced modulo \<open>2 ^ 64\<close> by
  \<open>size_t\<close>. \<open>None\<close> as the result of an operation that returns otherwise is a failed \<open>assert\<close>, a
  NULL dereference, an \<open>abort\<close>, or exhausted fuel; the theorems show it does not occur. Error queue
  entries (\<open>OPENSSL_PUT_ERROR\<close>) are not part of the state.

  Bounds and fuel. \<open>cbs_convert_ber\<close> has one unit of fuel per input byte and one more
  (\<open>ber_conversion_terminates\<close>: more changes nothing); the loop over the children of a SET OF one unit
  per byte; the loops of \<open>bio_read\<close> and \<open>bio_write\<close> one unit per byte and one more, where two units
  are enough (\<open>ring_loops_two_rounds\<close>); \<open>BIO_write_all\<close> one unit per byte; \<open>BIO_free\<close> the length of
  the chain, which is its argument; \<open>bio_read_full\<close> one unit per byte, \<open>bio_read_all\<close> any number above
  the bytes available (\<open>bio_asn1_indefinite\<close>). All other loops are structural or have a measure.

  Not modelled. The Swift applications (no C code). Within the modelled files: \<open>BIO_snprintf\<close> and
  \<open>BIO_vsnprintf\<close> (wrappers of printf), the tables of ex_data, callbacks, error
  printing and the controls that pass a pointer to a local variable of \<open>bio.c\<close>, functions that only free
  (\<open>lh_free\<close>, \<open>sk_free\<close>, \<open>BUF_MEM_free\<close>) or only forward to \<open>mem.c\<close> (\<open>BUF_strdup\<close> and its like). The
  rest of BoringSSL (other ciphers and their key schedules, GCM, bignums, X.509, TLS), nanopb, upb, leveldb, gRPC and Firestore are not
  modelled: generated message tables, C++ over third-party frameworks, or arithmetic that needs
  libraries of its own. Timing is outside the model: \<open>Constant_Time\<close> shows values, not durations.
\<close>

section \<open>Further facts\<close>

text \<open>
  The flush of an ASN.1 child whose contents are longer than 0xfffffffe bytes fails (the four length
  bytes could not hold the length): a length is never truncated.
\<close>

theorem long_child_refused:
  assumes "writes (d + 1) (g (d + 1)) body" and "0xfffffffe < length body" and "writer_state d s b"
  shows "\<not> fst (add_element tag g d s)"
  using assms by (rule element_too_long)

lemma long_child_refused_witness:
  "\<exists>d g s. \<not> fst (add_element CBS_ASN1_OCTETSTRING g d s)"
proof -
  obtain s :: CBB and b :: cbb_buffer where s: "s = \<lparr>base = Some b, children = []\<rparr>"
    and b: "b = \<lparr>base_buf = [0], base_len = 0, base_cap = 1, base_can_resize = True, base_error = False, base_alloc = (\<lambda>_. None)\<rparr>"
    by blast
  obtain body :: "byte list" where body: "body = replicate 0xffffffff 0" by blast
  have l: "length body = 0xffffffff" by (simp only: body length_replicate)
  have "writer_state 0 s b" by (simp add: s b writer_state_def wf_buffer_def)
  moreover have "writes (0 + 1) (CBB_add_bytes body (0 + 1)) body" by (rule writes_CBB_add_bytes) (simp add: l)
  moreover have "0xfffffffe < length body" by (simp add: l)
  ultimately have "\<not> fst (add_element CBS_ASN1_OCTETSTRING (CBB_add_bytes body) 0 s)"
    by (intro long_child_refused)
  then show ?thesis by blast
qed

text \<open>
  Every int64_t, the most negative one included, written by CBB_add_asn1_int64 reads back through
  CBS_get_asn1_int64 as the same value with nothing left over, for any sequence of values.
\<close>

theorem int64_round_trip:
  assumes "cap < 2 ^ 64" and "cbb_build malloc cap (add_all CBB_add_asn1_int64 vs 0) = Some out"
  shows "dec_n (parsed CBS_get_asn1_int64) (length vs) out = Some (vs, [])"
  using w_int64.build_all [OF _ assms] by simp

lemma int64_round_trip_witness:
  "\<exists>out. dec_n (parsed CBS_get_asn1_int64) (Suc (Suc 0)) out = Some ([- 1, 300], [])"
proof -
  have "cbb_build (\<lambda>_. Some (\<lambda>_. 0)) 1 (add_all CBB_add_asn1_int64 [- 1, 300] 0) \<noteq> None" by code_simp
  then obtain out where "cbb_build (\<lambda>_. Some (\<lambda>_. 0)) 1 (add_all CBB_add_asn1_int64 [- 1, 300] 0) = Some out" by blast
  from int64_round_trip [OF _ this] show ?thesis by (auto simp del: dec_n.simps)
qed

text \<open>
  CBS_asn1_oid_to_text produces text only for the DER contents of a valid object identifier (first
  component at most 2, second at most 39 below an arc 0 or 1, minimal base-128 components that fit 64
  bits), and then the text is the dotted decimal of its components.
\<close>

theorem oid_to_text_only_valid:
  assumes "CBS_asn1_oid_to_text malloc s = Some t"
  shows "\<exists>as. valid_oid as \<and> s = oid_der as \<and> t = dotted as @ [0]"
  using assms by (rule oid_to_text_sound)

lemma oid_to_text_only_valid_witness: "\<exists>as. valid_oid as \<and> [0x2a, 0x03] = oid_der as"
proof -
  have "CBS_asn1_oid_to_text (\<lambda>_. Some (\<lambda>_. 0)) [0x2a, 0x03] \<noteq> None" by code_simp
  then show ?thesis using oid_to_text_only_valid by blast
qed

text \<open>
  A text of valid code points written with cbb_add_utf8 reads back through cbs_get_utf8 as the same
  code points, and its length is the sum of cbb_get_utf8_len.
\<close>

theorem utf8_text_round_trip:
  assumes "\<forall>u \<in> set us. is_valid_code_point u" and "cap < 2 ^ 64"
    and "cbb_build malloc cap (add_all cbb_add_utf8 us 0) = Some out"
  shows "dec_n (parsed cbs_get_utf8) (length us) out = Some (us, []) \<and> length out = sum_list (map cbb_get_utf8_len us)"
proof -
  have "out = concat (map (\<lambda>u. utf8 (unat u)) us)"
    using w_utf8.add_all_writes [OF assms(1)] assms(2,3) by (rule cbb_build_sound)
  then have "length out = sum_list (map cbb_get_utf8_len us)" by (simp add: length_concat o_def length_utf8)
  with w_utf8.build_all [OF assms] show ?thesis by simp
qed

lemma utf8_text_round_trip_witness:
  "\<exists>out. dec_n (parsed cbs_get_utf8) (Suc (Suc 0)) out = Some ([0x41, 0x20ac], []) \<and> length out = 4"
proof -
  have "cbb_build (\<lambda>_. Some (\<lambda>_. 0)) 1 (add_all cbb_add_utf8 [0x41, 0x20ac] 0) \<noteq> None" by code_simp
  then obtain out where o: "cbb_build (\<lambda>_. Some (\<lambda>_. 0)) 1 (add_all cbb_add_utf8 [0x41, 0x20ac] 0) = Some out" by blast
  have v: "\<forall>u \<in> set [0x41, 0x20ac]. is_valid_code_point u" by code_simp
  have "sum_list (map cbb_get_utf8_len [0x41, 0x20ac]) = 4" by code_simp
  with utf8_text_round_trip [OF v _ o] show ?thesis by (auto simp del: dec_n.simps)
qed

text \<open>
  CRYPTO_memcmp, which inspects every byte whatever it finds, returns zero exactly when the two
  regions agree.
\<close>

theorem memcmp_exact:
  assumes "n \<le> length a" and "n \<le> length b"
  shows "CRYPTO_memcmp a b n = 0 \<longleftrightarrow> take n a = take n b"
  using assms by (rule CRYPTO_memcmp_zero_iff)

lemma memcmp_exact_witness: "CRYPTO_memcmp [1, 2, 3] [1, 2, 4] 2 = 0 \<and> CRYPTO_memcmp [1, 2, 3] [1, 2, 4] 3 \<noteq> 0"
  using memcmp_exact [of 2 "[1, 2, 3]" "[1, 2, 4]"] memcmp_exact [of 3 "[1, 2, 3]" "[1, 2, 4]"] by simp

text \<open>
  OPENSSL_realloc to a size at least as large returns a block of the requested size whose prefix is
  the old contents.
\<close>

theorem realloc_keeps_contents:
  assumes "OPENSSL_realloc malloc (Some old) n = Some p" and "length old \<le> n"
  shows "length p = n \<and> take (length old) p = old"
  using OPENSSL_realloc_grow [OF assms] by simp

lemma realloc_keeps_contents_witness:
  "\<exists>p. OPENSSL_realloc (\<lambda>_. Some (\<lambda>_. 0)) (Some [1, 2]) 3 = Some p \<and> length p = 3 \<and> take 2 p = [1, 2]"
proof -
  have "OPENSSL_realloc (\<lambda>_. Some (\<lambda>_. 0)) (Some [1, 2]) 3 \<noteq> None" by code_simp
  then obtain p where p: "OPENSSL_realloc (\<lambda>_. Some (\<lambda>_. 0)) (Some [1, 2]) 3 = Some p" by blast
  with realloc_keeps_contents [OF p] show ?thesis by (auto simp: numeral_2_eq_2)
qed

text \<open>
  The branch-free comparisons of crypto/internal.h give the all-ones mask exactly when the comparison
  holds, and the selects by such a mask give what the branching code would, for all inputs.
\<close>

theorem constant_time_is_branching:
  "constant_time_select_w (constant_time_lt_w a b) x y = (if a < b then x else y)
   \<and> constant_time_select_w (constant_time_ge_w a b) x y = (if b \<le> a then x else y)
   \<and> constant_time_select_w (constant_time_eq_w a b) x y = (if a = b then x else y)
   \<and> constant_time_select_w (constant_time_is_zero_w a) x y = (if a = 0 then x else y)
   \<and> constant_time_select_8 (constant_time_lt_8 a b) p q = (if a < b then p else q)
   \<and> constant_time_select_8 (constant_time_eq_8 a b) p q = (if a = b then p else q)
   \<and> constant_time_select_int (constant_time_eq_int i j) k l = (if i = j then k else l)"
  by (simp add: constant_time_lt_w_eq constant_time_ge_w_eq constant_time_eq_w_eq constant_time_is_zero_w_eq
      constant_time_8_eq constant_time_int_eq constant_time_select_w_eq constant_time_select_8_eq)

text \<open>
  However its input is split, the streaming encoder emits the base64 of the whole input cut into
  48-byte lines, each followed by a newline.
\<close>

theorem base64_encoder_lines:
  assumes "\<forall>p \<in> set ps. length p \<le> 2 ^ 30"
  shows "encode_stream (EVP_EncodeInit ctx) ps = pem_lines (concat ps)"
  using assms by (rule encode_stream_eq)

lemma base64_encoder_lines_witness:
  "encode_stream (EVP_EncodeInit EVP_CTX_zero) [[1], [], [2, 3]] = pem_lines [1, 2, 3]"
  using base64_encoder_lines [of "[[1], [], [2, 3]]" EVP_CTX_zero] by simp

text \<open>
  The streaming decoder accepts a text, however it is cut into pieces, exactly when the one-shot
  EVP_DecodeBase64 accepts the text without its white space, with the same result.
\<close>

theorem base64_decoders_agree:
  assumes "\<forall>p \<in> set ps. length p \<le> 2 ^ 29"
  shows "decode_stream (EVP_DecodeInit ctx) ps =
    (let t = filter (\<lambda>c. \<not> is_space c) (concat ps) in EVP_DecodeBase64 (length t div 4 * 3) t)"
  using assms by (rule decode_stream_one_shot)

lemma base64_decoders_agree_witness:
  "decode_stream (EVP_DecodeInit EVP_CTX_zero) [[0x41, 0x51], [0x0a, 0x3d, 0x3d]] = EVP_DecodeBase64 3 [0x41, 0x51, 0x3d, 0x3d]"
  using base64_decoders_agree [of "[[0x41, 0x51], [0x0a, 0x3d, 0x3d]]" EVP_CTX_zero] by (simp add: is_space_def Let_def)

text \<open>
  EVP_EncodedLength returns the size of the base64 text with its terminating NUL and refuses exactly
  the lengths for which that number does not fit in a size_t.
\<close>

theorem base64_encoded_length_exact:
  assumes "length s < 2 ^ 64"
  shows "EVP_EncodedLength (length s) = (if length (b64 s) + 1 < 2 ^ 64 then Some (length (b64 s) + 1) else None)
    \<and> (length (b64 s) + 1 < 2 ^ 64 \<longrightarrow> EVP_EncodeBlock s (length s) = (b64 s @ [0], length (b64 s)))"
  using EVP_EncodedLength_eq [OF assms] EVP_EncodeBlock_eq [of "length s" s] by (simp add: length_b64 Let_def)

lemma base64_encoded_length_exact_witness: "EVP_EncodedLength (length [1 :: byte, 2, 3, 4, 5]) = Some 9"
proof -
  have "length (b64 [1, 2, 3, 4, 5]) = 8" by (simp only: length_b64) simp
  then show ?thesis using base64_encoded_length_exact [of "[1, 2, 3, 4, 5]"] by auto
qed

text \<open>
  A failing CBS_get_any_asn1_element leaves the CBS where it was, and a successful
  CBS_get_any_ber_asn1_element consumes at least one byte and returns an element no longer than what
  it consumed: loops over elements end.
\<close>

theorem failed_element_read_keeps_input:
  "(CBS_get_any_asn1_element s = (None, s') \<longrightarrow> s' = s)
   \<and> (CBS_get_any_ber_asn1_element s = (Some (el, tag, hl), r) \<longrightarrow>
        length r < length s \<and> hl \<le> length el \<and> length el - hl < length s)"
  using get_any_asn1_element_fail any_ber_shrinks by blast

lemma failed_element_read_keeps_input_witness:
  "snd (CBS_get_any_asn1_element [0x30, 0x05, 0x00]) = [0x30, 0x05, 0x00]"
proof -
  have "CBS_get_any_asn1_element [0x30, 0x05, 0x00] = (None, snd (CBS_get_any_asn1_element [0x30, 0x05, 0x00]))" by code_simp
  with failed_element_read_keeps_input [of "[0x30, 0x05, 0x00]"] show ?thesis by simp
qed

text \<open>
  BIO_write at one end of a pair implements a write to a bounded queue: it accepts as many bytes as
  there is room for, appends them in order, answers -1 when the queue is full or was shut down, clears
  the pending read request, and leaves the other direction untouched; the ring buffer and its wrap-
  around are not visible.
\<close>

theorem pair_write_refines:
  assumes "paired st x y" and "bs \<noteq> []" and "length bs < 2 ^ 31"
  shows "\<exists>st'. BIO_write (Some (methods_biop malloc)) (Some x) (Some bs) (int (length bs)) st = Some (fst (pipe_write bs (out_pipe st x)), st')
    \<and> paired st' x y \<and> out_pipe st' x = snd (pipe_write bs (out_pipe st x)) \<and> out_pipe st' y = out_pipe st y"
  by (rule BIO_write_pair [OF assms(1,3), of malloc, unfolded if_not_P [OF assms(2)]]) blast

lemma pair_write_refines_witness:
  "\<exists>st st'. BIO_write (Some (methods_biop (\<lambda>_. Some (\<lambda>_. 0)))) (Some 4) (Some [5, 6, 7]) 3 st = Some (2, st')
    \<and> queue (out_pipe st' 4) = [5, 6]"
proof -
  from BIO_new_bio_pair_ok [of "\<lambda>_. Some (\<lambda>_. 0)" 4 5 2 0 "\<lambda>_. None"] obtain st where st: "paired st 4 5"
    "out_pipe st 4 = \<lparr>queue = [], capacity = 2, shut = False, wanted = 0\<rparr>" by auto
  from pair_write_refines [OF st(1), of "[5, 6, 7]" "\<lambda>_. Some (\<lambda>_. 0)"] show ?thesis
    by (simp add: st(2) pipe_write_def) (elim exE conjE, intro exI conjI, assumption, simp)
qed

text \<open>
  BIO_read at one end of a pair implements a read of a bounded queue: it delivers the oldest bytes, as
  many as are there and asked for; on an empty queue it answers 0 after the writer shut down, and
  otherwise -1 and records how much was wanted, at most the capacity.
\<close>

theorem pair_read_refines:
  assumes "paired st x y" and "0 < n" and "n < 2 ^ 31"
  shows "\<exists>st'. BIO_read (Some (methods_biop malloc)) (Some y) True (int n) st =
      Some (fst (pipe_read n (out_pipe st x)), fst (snd (pipe_read n (out_pipe st x))), st')
    \<and> paired st' x y \<and> out_pipe st' x = snd (snd (pipe_read n (out_pipe st x))) \<and> out_pipe st' y = out_pipe st y"
proof -
  have "n \<noteq> 0" using assms(2) by simp
  show ?thesis by (rule BIO_read_pair [OF assms(1,3), of malloc, unfolded if_not_P [OF \<open>n \<noteq> 0\<close>]]) blast
qed

lemma pair_read_refines_witness:
  "\<exists>st st'. BIO_read (Some (methods_biop (\<lambda>_. Some (\<lambda>_. 0)))) (Some 5) True 9 st = Some (-1, [], st') \<and> wanted (out_pipe st' 4) = 4"
proof -
  from BIO_new_bio_pair_ok [of "\<lambda>_. Some (\<lambda>_. 0)" 4 5 4 0 "\<lambda>_. None"] obtain st where st: "paired st 4 5"
    "out_pipe st 4 = \<lparr>queue = [], capacity = 4, shut = False, wanted = 0\<rparr>" by auto
  from pair_read_refines [OF st(1), of 9 "\<lambda>_. Some (\<lambda>_. 0)"] show ?thesis
    by (simp add: st(2) pipe_read_def) (elim exE conjE, intro exI conjI, assumption, simp)
qed

text \<open>
  The copying loops of bio_read and bio_write take one or two iterations, as their comments say, on
  every ring buffer whose offset and length are within its size: two rounds of fuel are enough, no
  assertion fails, and the read loop copies exactly the requested bytes.
\<close>

theorem ring_loops_two_rounds:
  assumes "wf_half b" and "0 < n"
  shows "(n \<le> len b \<longrightarrow> (\<exists>b'. read_loop 2 n b [] = Some (b', take n (contents b))))
    \<and> (len b + n \<le> size b \<longrightarrow> n \<le> length bs \<longrightarrow> (\<exists>b'. write_loop 2 n b bs = Some b' \<and> contents b' = contents b @ take n bs))"
proof -
  have two: "2 = Suc (Suc 0)" by simp
  have "n \<le> len b \<Longrightarrow> \<exists>b'. read_loop 2 n b [] = Some (b', take n (contents b))"
    unfolding two using read_loop_eq [OF assms, of 0 "[]"] by simp
  moreover have "len b + n \<le> size b \<Longrightarrow> n \<le> length bs \<Longrightarrow> \<exists>b'. write_loop 2 n b bs = Some b' \<and> contents b' = contents b @ take n bs"
    unfolding two using write_loop_eq [OF assms, of bs 0] by blast
  ultimately show ?thesis by blast
qed

lemma ring_loops_two_rounds_witness:
  "\<exists>b'. read_loop 2 3 \<lparr>peer = None, closed = False, len = 3, offset = 2, size = 4, buf = Some [7, 8, 9, 10], request = 0\<rparr> [] = Some (b', [9, 10, 7])"
proof -
  obtain b where b: "b = \<lparr>peer = None, closed = False, len = 3, offset = 2, size = 4, buf = Some [7, 8, 9, 10], request = 0\<rparr>" by blast
  have w: "wf_half b" and c: "take 3 (contents b) = [9, 10, 7]" by (simp_all add: b wf_half_def contents_def upt_rec numeral_2_eq_2)
  from ring_loops_two_rounds [OF w, of 3] c show ?thesis by (simp add: b)
qed

text \<open>
  lh_maybe_resize keeps a hash table well formed (every item in the bucket of its hash, no key twice,
  the count right), keeps every entry and the number of items, and does not resize while a traversal
  is running.
\<close>

theorem lhash_resize_invisible:
  assumes "wf_lhash key lh"
  shows "wf_lhash key (lh_maybe_resize malloc lh) \<and> entries key (lh_maybe_resize malloc lh) = entries key lh
    \<and> lh_num_items (lh_maybe_resize malloc lh) = card (dom (entries key lh))
    \<and> (callback_depth lh > 0 \<longrightarrow> lh_maybe_resize malloc lh = lh)"
  using lh_maybe_resize_ok [OF assms, of malloc] num_items_card [OF assms] by (simp add: lh_num_items_def lh_maybe_resize_def)

lemma lhash_resize_invisible_witness:
  "\<exists>lh. lh_new (\<lambda>_. Some (\<lambda>_. 0)) (\<lambda>x. of_nat x) (\<lambda>x y. int x - int y) = Some lh
    \<and> entries id (lh_maybe_resize (\<lambda>_. None) lh) = Map.empty"
proof -
  obtain lh where lh: "lh_new (\<lambda>_. Some (\<lambda>_. 0)) (\<lambda>x. of_nat x) (\<lambda>x y. int x - int y) = Some lh"
    by (simp add: lh_new_def OPENSSL_malloc_def)
  then have "wf_lhash id lh" "entries id lh = Map.empty" using lh_new_ok [OF lh, of id] by simp_all
  with lhash_resize_invisible [of id lh "\<lambda>_. None"] lh show ?thesis by metis
qed

text \<open>
  The average chain of a hash table never exceeds kMaxAverageChainLength: an insertion or a deletion
  outside a traversal, with memory available and fewer than 2^60 buckets, keeps num_items /
  num_buckets at most 2.
\<close>

theorem lhash_load_bounded:
  assumes "wf_lhash key lh" and "load_ok lh" and "callback_depth lh = 0" and "num_buckets lh < 2 ^ 60" and "\<forall>n. malloc n \<noteq> None"
  shows "load_ok (snd (snd (lh_insert malloc lh x))) \<and> load_ok (snd (lh_delete malloc lh x))"
  using lh_insert_load [OF assms] lh_delete_load [OF assms] by blast

lemma lhash_load_bounded_witness:
  "\<exists>lh. lh_new (\<lambda>_. Some (\<lambda>_. 0)) (\<lambda>x. of_nat x) (\<lambda>x y. int x - int y) = Some lh
    \<and> load_ok (snd (snd (lh_insert (\<lambda>_. Some (\<lambda>_. 0)) lh 5)))"
proof -
  obtain lh where lh: "lh_new (\<lambda>_. Some (\<lambda>_. 0)) (\<lambda>x. of_nat x) (\<lambda>x y. int x - int y) = Some lh"
    and n: "num_buckets lh = 16" by (simp add: lh_new_def OPENSSL_malloc_def kMinNumBuckets_def)
  have "wf_lhash id lh" "load_ok lh" "callback_depth lh = 0" using lh_new_ok [OF lh, of id] by simp_all
  with lhash_load_bounded [of id lh "\<lambda>_. Some (\<lambda>_. 0)" 5] n lh show ?thesis by simp
qed

text \<open>
  lh_doall_arg with a callback that leaves the table alone calls it exactly once on every item of the
  table and leaves the entries as they were.
\<close>

theorem lhash_doall_visits_once:
  assumes "wf_lhash key lh"
  shows "\<exists>ds lh'. distinct (map key ds) \<and> set ds = ran (entries key lh)
    \<and> lh_doall_arg malloc lh func arg = (fold func ds arg, lh') \<and> wf_lhash key lh' \<and> entries key lh' = entries key lh"
  using assms by (rule lh_doall_arg_ok)

lemma lhash_doall_visits_once_witness:
  "\<exists>lh. lh_new (\<lambda>_. Some (\<lambda>_. 0)) (\<lambda>x. of_nat x) (\<lambda>x y. int x - int y) = Some lh
    \<and> fst (lh_doall_arg (\<lambda>_. None) lh (\<lambda>x s. x # s) []) = []"
proof -
  obtain lh where lh: "lh_new (\<lambda>_. Some (\<lambda>_. 0)) (\<lambda>x. of_nat x) (\<lambda>x y. int x - int y) = Some lh"
    by (simp add: lh_new_def OPENSSL_malloc_def)
  then have "wf_lhash id lh" "entries id lh = Map.empty" using lh_new_ok [OF lh, of id] by simp_all
  from lhash_doall_visits_once [OF this(1), of "\<lambda>_. None" "\<lambda>x s. x # s" "[]"] this(2) lh show ?thesis by fastforce
qed

text \<open>
  On a stack whose elements are in the order its sorted flag promises, the binary search of sk_find
  answers exactly what the linear search of an unsorted stack with the same elements does.
\<close>

theorem stack_binary_is_linear:
  assumes "wf_stack s" and "sorted_stack call s" and "\<And>c. comp s = Some c \<Longrightarrow> comparison (call c)"
  shows "sk_find call (Some s) p = sk_find call (Some (s\<lparr>sorted_flag := False\<rparr>)) p"
  using assms by (rule sk_find_sorted)

lemma stack_binary_is_linear_witness:
  "\<exists>s :: (byte list, unit) stack. elems s = [Some [4], Some [7]] \<and>
    sk_find (\<lambda>c a b. compare_set_of_element (the a) (the b)) (Some s) (Some [7]) =
    sk_find (\<lambda>c a b. compare_set_of_element (the a) (the b)) (Some (s\<lparr>sorted_flag := False\<rparr>)) (Some [7])"
proof -
  obtain s :: "(byte list, unit) stack" where s: "s = \<lparr>num = 2, data = [Some [4], Some [7], None], sorted_flag = True,
      num_alloc = 3, comp = Some ()\<rparr>" by blast
  have e: "elems s = [Some [4], Some [7]]" by (simp add: s elems_def)
  have cmp: "comparison (\<lambda>a b. compare_set_of_element (the a) (the b))"
    using set_of_order.antisym set_of_order.trans by unfold_locales blast+
  have "wf_stack s" by (simp add: s wf_stack_def)
  moreover have "sorted_stack (\<lambda>c a b. compare_set_of_element (the a) (the b)) s"
    unfolding sorted_stack_def e by (simp add: s compare_set_of_element_le)
  ultimately show ?thesis using stack_binary_is_linear [of s "\<lambda>c a b. compare_set_of_element (the a) (the b)" "Some [7]"] cmp e by blast
qed

text \<open>
  sk_insert either fails and changes nothing or inserts at the given index (at the end when it is too
  large) and clears the sorted flag; sk_delete removes and returns the element at its index and keeps
  the order flag true to the elements; both keep the array larger than the number of elements.
\<close>

theorem stack_insert_delete:
  assumes "wf_stack s" and "sorted_stack call s"
  shows "(\<forall>r sk'. sk_insert malloc uninit (Some s) p i = (r, sk') \<longrightarrow> r = 0 \<and> sk' = Some s \<or>
      (\<exists>s'. r = num s + 1 \<and> sk' = Some s' \<and> wf_stack s' \<and> \<not> sorted_flag s' \<and> elems s' = take i (elems s) @ p # drop i (elems s)))
    \<and> (i < num s \<longrightarrow> (\<exists>s'. sk_delete (Some s) i = (elems s ! i, Some s') \<and> wf_stack s' \<and> sorted_stack call s'
      \<and> elems s' = take i (elems s) @ drop (Suc i) (elems s)))"
proof -
  have "sk_insert malloc uninit (Some s) p i = (r, sk') \<Longrightarrow> r = 0 \<and> sk' = Some s \<or>
      (\<exists>s'. r = num s + 1 \<and> sk' = Some s' \<and> wf_stack s' \<and> \<not> sorted_flag s' \<and> elems s' = take i (elems s) @ p # drop i (elems s))" for r sk'
    using sk_insert_ok [OF assms(1)] by blast
  moreover have "\<exists>s'. sk_delete (Some s) i = (elems s ! i, Some s') \<and> wf_stack s' \<and> sorted_stack call s'
      \<and> elems s' = take i (elems s) @ drop (Suc i) (elems s)" if "i < num s"
    using sk_delete_ok [OF assms(1) that] sk_delete_sorted [OF assms(1) that assms(2)] by blast
  ultimately show ?thesis by blast
qed

lemma stack_insert_delete_witness:
  "\<exists>s s' :: (nat, unit) stack. elems s = [Some 4, Some 5, Some 6] \<and> sk_delete (Some s) 1 = (Some 5, Some s') \<and> elems s' = [Some 4, Some 6]"
proof -
  obtain s :: "(nat, unit) stack" where s: "s = \<lparr>num = 3, data = [Some 4, Some 5, Some 6, None], sorted_flag = False, num_alloc = 4, comp = None\<rparr>" by blast
  have e: "elems s = [Some 4, Some 5, Some 6]" by (simp add: s elems_def)
  have "wf_stack s" "sorted_stack (\<lambda>c a b. 0) s" by (simp_all add: s wf_stack_def sorted_stack_def)
  from stack_insert_delete [OF this, of "\<lambda>_. None" "\<lambda>_. None" None 1] e show ?thesis by (auto simp: s)
qed

text \<open>
  BUF_MEM_append and BUF_MEM_grow keep the buffer within its block and the block within a size_t: an
  append adds exactly the given bytes or fails and leaves the contents; growing keeps the first bytes
  and fills the rest with zeros; the overflow tests catch every wrap-around.
\<close>

theorem buf_append_exact:
  assumes "wf_buf b" and "length inp < 2 ^ 64" and "0 < k" and "k < 2 ^ 64"
  shows "(case BUF_MEM_append malloc b inp of (r, b') \<Rightarrow>
      wf_buf b' \<and> buf_contents b' = (if r then buf_contents b @ inp else buf_contents b))
    \<and> (case BUF_MEM_grow malloc b k of (r, b') \<Rightarrow> wf_buf b' \<and> (r = 0 \<and> b' = b
      \<or> r = k \<and> buf_contents b' = take k (buf_contents b) @ replicate (k - buf_length b) 0))"
  using BUF_MEM_append_ok [OF assms(1,2)] BUF_MEM_grow_ok [OF assms(1,4) _ assms(3)] by (auto split: prod.splits)

lemma buf_append_exact_witness:
  "buf_contents (snd (BUF_MEM_append (\<lambda>_. Some (\<lambda>_. 7)) \<lparr>buf_length = 1, buf_data = Some [5, 0], buf_max = 2\<rparr> [6, 8, 9])) \<in> {[5], [5, 6, 8, 9]}"
proof -
  have "wf_buf \<lparr>buf_length = 1, buf_data = Some [5, 0], buf_max = 2\<rparr>" by (simp add: wf_buf_def)
  moreover obtain r b' where r: "BUF_MEM_append (\<lambda>_. Some (\<lambda>_. 7)) \<lparr>buf_length = 1, buf_data = Some [5, 0], buf_max = 2\<rparr> [6, 8, 9] = (r, b')"
    by (cases "BUF_MEM_append (\<lambda>_. Some (\<lambda>_. 7)) \<lparr>buf_length = 1, buf_data = Some [5, 0], buf_max = 2\<rparr> [6, 8, 9]")
  ultimately have "buf_contents b' = (if r then [5, 6, 8, 9] else [5])"
    using buf_append_exact [of "\<lparr>buf_length = 1, buf_data = Some [5, 0], buf_max = 2\<rparr>" "[6, 8, 9]" 4 "\<lambda>_. Some (\<lambda>_. 7)"]
    unfolding r prod.case by (auto simp: buf_contents_def [of "\<lparr>buf_length = l, buf_data = d, buf_max = m\<rparr>" for l d m])
  then show ?thesis unfolding r by simp
qed

text \<open>
  On an element of indefinite length, from a pair whose writer has shut down, BIO_read_asn1 returns
  everything that is queued when that is less than max_len bytes and fails when it equals or exceeds
  max_len; the chunks grow without overflow, no assertion of bio_read_all fails, and one read per byte
  is enough fuel.
\<close>

theorem bio_asn1_indefinite:
  assumes "paired st x y" and "shut (out_pipe st x)" and "\<And>n. malloc n \<noteq> None" and "max_len < 2 ^ 64"
    and "asn1_indefinite (queue (out_pipe st x))" and "length (queue (out_pipe st x)) < fuel"
  shows "\<exists>st'. BIO_read_asn1 fuel malloc (Some (methods_biop malloc)) (Some y) max_len st =
      Some (if length (queue (out_pipe st x)) < max_len then Some (queue (out_pipe st x)) else None, st') \<and> paired st' x y
    \<and> (length (queue (out_pipe st x)) < max_len \<longrightarrow> queue (out_pipe st' x) = [])"
  using from_shut_pair.read_asn1_indefinite [where malloc = malloc and malloca = malloc, OF _ assms(3-6)] assms(1,2)
  unfolding BIO_read_asn1_pair by blast

lemma bio_asn1_indefinite_witness:
  "\<exists>st st'. BIO_read_asn1 9 (\<lambda>_. Some (\<lambda>_. 0)) (Some (methods_biop (\<lambda>_. Some (\<lambda>_. 0)))) (Some 5) 100 st = Some (Some [0x30, 0x80, 0, 0], st')
    \<and> queue (out_pipe st' 4) = []"
proof -
  from BIO_new_bio_pair_ok [of "\<lambda>_. Some (\<lambda>_. 0)" 4 5 4 0 "\<lambda>_. None"] obtain st0 where st0: "paired st0 4 5"
    "out_pipe st0 4 = \<lparr>queue = [], capacity = 4, shut = False, wanted = 0\<rparr>" by auto
  obtain st1 where st1: "paired st1 4 5"
    "out_pipe st1 4 = (if [0x30, 0x80, 0, 0 :: byte] = [] then out_pipe st0 4 else snd (pipe_write [0x30, 0x80, 0, 0] (out_pipe st0 4)))"
    by (rule BIO_write_pair [OF st0(1), of "[0x30, 0x80, 0, 0]" "\<lambda>_. Some (\<lambda>_. 0)"]) (simp, blast)
  obtain st where st': "paired st 4 5" "out_pipe st 4 = (out_pipe st1 4)\<lparr>shut := True\<rparr>"
    by (rule BIO_shutdown_wr_ok [OF st1(1), of "\<lambda>_. Some (\<lambda>_. 0)"])
  have st: "queue (out_pipe st 4) = [0x30, 0x80, 0, 0]" "shut (out_pipe st 4)" using st'(2) st1(2) by (simp_all add: st0(2) pipe_write_def)
  have "asn1_indefinite [0x30, 0x80, 0, 0]" by (simp add: asn1_indefinite_def)
  with bio_asn1_indefinite [OF st'(1) st(2), of "\<lambda>_. Some (\<lambda>_. 0)" 100 9, unfolded st(1)] show ?thesis by auto
qed

text \<open>
  BIO_write and BIO_read on a pair implement a bounded queue for each direction: a write accepts as
  many bytes as there is room for, appends them in order and answers -1 when the queue is full or
  shut; a read delivers the oldest bytes, answers 0 on an empty queue after a shutdown and otherwise
  -1 while recording how much was wanted; the other direction is untouched, and the ring buffer and
  its wrap-around are not visible.
\<close>

theorem pair_refines_queues:
  assumes "paired st x y" and "bs \<noteq> []" and "length bs < 2 ^ 31" and "0 < n" and "n < 2 ^ 31"
  shows "(\<exists>st'. BIO_write (Some (methods_biop malloc)) (Some x) (Some bs) (int (length bs)) st = Some (fst (pipe_write bs (out_pipe st x)), st')
      \<and> paired st' x y \<and> out_pipe st' x = snd (pipe_write bs (out_pipe st x)) \<and> out_pipe st' y = out_pipe st y)
    \<and> (\<exists>st'. BIO_read (Some (methods_biop malloc)) (Some y) True (int n) st =
        Some (fst (pipe_read n (out_pipe st x)), fst (snd (pipe_read n (out_pipe st x))), st')
      \<and> paired st' x y \<and> out_pipe st' x = snd (snd (pipe_read n (out_pipe st x))) \<and> out_pipe st' y = out_pipe st y)"
  using pair_write_refines [OF assms(1-3)] pair_read_refines [OF assms(1,4,5)] by (rule conjI)

lemma pair_refines_queues_witness:
  "\<exists>st st'. BIO_write (Some (methods_biop (\<lambda>_. Some (\<lambda>_. 0)))) (Some 4) (Some [5, 6, 7]) 3 st = Some (2, st')
    \<and> queue (out_pipe st' 4) = [5, 6]"
proof -
  from BIO_new_bio_pair_ok [of "\<lambda>_. Some (\<lambda>_. 0)" 4 5 2 0 "\<lambda>_. None"] obtain st where st: "paired st 4 5"
    "out_pipe st 4 = \<lparr>queue = [], capacity = 2, shut = False, wanted = 0\<rparr>" by auto
  from pair_refines_queues [OF st(1), of "[5, 6, 7]" 1 "\<lambda>_. Some (\<lambda>_. 0)", THEN conjunct1] show ?thesis
    by (simp add: st(2) pipe_write_def) (elim exE conjE, intro exI conjI, assumption, simp)
qed

text \<open>
  EVP_tls_cbc_copy_mac, which scans every position the MAC can have and then rotates the collected
  bytes by a secret amount one bit at a time, returns the md_size bytes before in_len, for every
  record with at most 256 bytes of padding.
\<close>

theorem tls_mac_copied:
  assumes "orig_len < 2 ^ 63" and "in_len \<le> orig_len" and "orig_len \<le> in_len + 256" and "md_size \<le> in_len" and "0 < md_size" and "md_size \<le> 64"
    and "orig_len \<le> length inp"
  shows "EVP_tls_cbc_copy_mac md_size inp in_len orig_len = Some (take md_size (drop (in_len - md_size) inp))"
  using assms by (intro copy_mac_eq) simp_all

lemma tls_mac_copied_witness:
  "EVP_tls_cbc_copy_mac 3 [1, 2, 3, 4, 5, 6, 7, 8, 2, 2, 2] 8 11 = Some [6, 7, 8]"
  using tls_mac_copied [of 11 8 3 "[1, 2, 3, 4, 5, 6, 7, 8, 2, 2, 2]"] by simp

text \<open>
  CFB: from the same ivec and *num, decryption undoes encryption of any number of bytes, and both
  leave the same ivec and *num, so that the two sides stay together from call to call.
\<close>

theorem cfb_decrypts:
  assumes "block_cipher block" and "length ivec = 16" and "n < 16"
    and "CRYPTO_cfb128_encrypt block True bs n ivec = (out, n', ivec')"
  shows "CRYPTO_cfb128_encrypt block False out n ivec = (bs, n', ivec')"
  by (rule cfb_inverse [OF assms])

lemma cfb_decrypts_witness:
  "CRYPTO_cfb128_encrypt rev True [2] 3 (replicate 16 9) = ([11], 4, (replicate 16 9)[3 := 11])
    \<and> CRYPTO_cfb128_encrypt rev False [11] 3 (replicate 16 9) = ([2], 4, (replicate 16 9)[3 := 11])"
proof -
  have e: "CRYPTO_cfb128_encrypt rev True [2] 3 (replicate 16 9) = ([11], 4, (replicate 16 9)[3 := 11])"
    by (simp add: CRYPTO_cfb128_encrypt_def mode_loops_def mode_blocks.simps Let_def)
  moreover have "CRYPTO_cfb128_encrypt rev False [11] 3 (replicate 16 9) = ([2], 4, (replicate 16 9)[3 := 11])"
    by (rule cfb_decrypts [OF _ _ _ e]) (simp_all add: block_cipher_def)
  ultimately show ?thesis ..
qed

text \<open>
  One-bit CFB: of n bits encrypted and decrypted from the same ivec, every bit comes back, the other
  bits of the output array are kept, and both sides end with the same ivec.
\<close>

theorem cfb1_decrypts:
  assumes "length ivec = 16" and "n \<le> 8 * length out"
    and "CRYPTO_cfb128_1_encrypt block True inp n out ivec = (cs, ivec1)"
    and "CRYPTO_cfb128_1_encrypt block False cs n out2 ivec = (ps, ivec2)" and "m < 8 * length out2"
  shows "msg_bit ps m = (if m < n then msg_bit inp m else msg_bit out2 m) \<and> ivec2 = ivec1"
  using cfb1_inverse [OF assms(1-4)] assms(5) by simp

lemma cfb1_decrypts_witness:
  "msg_bit (fst (CRYPTO_cfb128_1_encrypt rev False (fst (CRYPTO_cfb128_1_encrypt rev True [165] 5 [0] (replicate 16 9))) 5 [255] (replicate 16 9))) 2"
proof -
  have "msg_bit [165] 2" by (simp add: msg_bit_def bit_iff_odd_drop_bit)
  then show ?thesis
    using cfb1_decrypts [of "replicate 16 9" 5 "[0]" rev "[165]" _ _ "[255]" _ _ 2, OF _ _ surjective_pairing surjective_pairing] by simp
qed

section \<open>Properties\<close>

text \<open>
  C1. CBS_get_any_asn1 succeeds with contents c and tag exactly on the strings that start with the
  canonical DER encoding of that tag, length and contents (minimal tag number, minimal length, at most
  2^32 - 1 bytes), and returns the bytes after it; every other input is refused.
\<close>

theorem der_element_accepted:
  "CBS_get_any_asn1 s = (Some (c, tag), r) \<longleftrightarrow> length c < 2 ^ 32 \<and> s = der_element tag c @ r"
  by (rule CBS_get_any_asn1_iff)

text \<open>
  C2. On a pair made by BIO_new_bio_pair with buffer sizes below 2^64 - 8, every sequence of writes at
  one end and reads at the other, interleaved with the reverse traffic, shutdowns at both ends and
  control queries, runs with no assertion failing, and the bytes delivered followed by the bytes still
  queued are exactly the bytes accepted, in order. malloc has to answer requests of at least eight
  bytes only, so OPENSSL_malloc is never called with a size whose request wraps.
\<close>

theorem pair_fifo_any_schedule:
  assumes "\<And>m. 8 \<le> m \<Longrightarrow> malloc m \<noteq> None" and "x \<noteq> y" and "len1 < 2 ^ 64 - 8" and "len2 < 2 ^ 64 - 8"
  shows "\<exists>st acc del st'. BIO_new_bio_pair malloc (Some x) (Some y) len1 len2 st0 = Some (Some (x, y), st)
    \<and> pipe_run (pair_put malloc x) (pair_get malloc y) (pair_other malloc x y) acts st = Some (acc, del, st')
    \<and> acc = del @ queue (out_pipe st' x)"
proof -
  obtain st where st: "BIO_new_bio_pair malloc (Some x) (Some y) len1 len2 st0 = Some (Some (x, y), st)" "paired st x y"
    "queue (out_pipe st x) = []"
    by (rule BIO_new_bio_pair_ok [where malloc = malloc and x = x and y = y and ?n1.0 = len1 and ?n2.0 = len2 and st = st0, OF assms]) (auto intro: that)
  from pair_fifo.run_fifo [OF st(2), of malloc acts] obtain acc del st' where
    r: "pipe_run (pair_put malloc x) (pair_get malloc y) (pair_other malloc x y) acts st = Some (acc, del, st')"
    "queue (out_pipe st x) @ acc = del @ queue (out_pipe st' x)" by blast
  then have "acc = del @ queue (out_pipe st' x)" using st(3) by simp
  with st(1) r(1) show ?thesis by blast
qed

lemma pair_fifo_any_schedule_witness:
  "\<exists>st acc del st'. BIO_new_bio_pair (\<lambda>_. Some (\<lambda>_. 0)) (Some 4) (Some 5) 3 0 (\<lambda>_. None) = Some (Some (4, 5), st)
    \<and> pipe_run (pair_put (\<lambda>_. Some (\<lambda>_. 0)) 4) (pair_get (\<lambda>_. Some (\<lambda>_. 0)) 5) (pair_other (\<lambda>_. Some (\<lambda>_. 0)) 4 5)
        [Put [1, 2, 3, 4], Get 2, Put [5, 6], Other (Reverse_write [7]), Get 9] st = Some (acc, del, st')
    \<and> acc = del @ queue (out_pipe st' 4)"
  by (rule pair_fifo_any_schedule) simp_all

text \<open>
  C3. BIO_read_asn1 on one end of a pair returns an element exactly when the queued bytes begin with a
  DER element that has a low tag number, less than 2^31 bytes of contents and at most max_len bytes in
  all; it then takes exactly these bytes from the pair, however the ring buffer cuts them, and every
  other input with a definite length is refused; no assertion fails.
\<close>

theorem bio_asn1_exact:
  assumes "paired st x y" and "\<And>n. malloc n \<noteq> None" and "\<not> asn1_indefinite (queue (out_pipe st x))"
  shows "\<exists>r st'. BIO_read_asn1 fuel malloc (Some (methods_biop malloc)) (Some y) max_len st = Some (r, st') \<and> paired st' x y
    \<and> (\<forall>el. r = Some el \<longleftrightarrow> (\<exists>tag c rest. el = der_element tag c \<and> queue (out_pipe st x) = el @ rest
          \<and> unat tag mod 2 ^ 29 < 31 \<and> length c < 2 ^ 31 \<and> length el \<le> max_len))
    \<and> (\<forall>el. r = Some el \<longrightarrow> queue (out_pipe st x) = el @ queue (out_pipe st' x))"
proof -
  obtain q where q: "q = queue (out_pipe st x)" by blast
  obtain r where r: "r = map_option (\<lambda>m. take m q) (asn1_extent max_len q)" by blast
  from from_pair.read_asn1_eq [where malloc = malloc and malloca = malloc and fuel = fuel and max_len = max_len, OF assms, folded q, folded r] obtain st' where
    st': "BIO_read_asn1 fuel malloc (Some (methods_biop malloc)) (Some y) max_len st = Some (r, st')"
    "paired st' x y" "\<forall>m. asn1_extent max_len q = Some m \<longrightarrow> queue (out_pipe st' x) = drop m q" unfolding BIO_read_asn1_pair by blast
  have "r = Some el \<longleftrightarrow> (\<exists>tag c rest. el = der_element tag c \<and> q = el @ rest
          \<and> unat tag mod 2 ^ 29 < 31 \<and> length c < 2 ^ 31 \<and> length el \<le> max_len)" for el
    unfolding r by (rule extent_prefix)
  moreover have "q = el @ queue (out_pipe st' x)" if "r = Some el" for el
    using that st'(3) by (auto simp: r)
  ultimately show ?thesis using st'(1,2) unfolding q by blast
qed

lemma bio_asn1_exact_witness:
  "\<exists>st st'. queue (out_pipe st 4) = [4, 1, 7, 9] \<and>
    BIO_read_asn1 9 (\<lambda>_. Some (\<lambda>_. 0)) (Some (methods_biop (\<lambda>_. Some (\<lambda>_. 0)))) (Some 5) 100 st = Some (Some [4, 1, 7], st')
    \<and> queue (out_pipe st' 4) = [9]"
proof -
  from BIO_new_bio_pair_ok [of "\<lambda>_. Some (\<lambda>_. 0)" 4 5 4 0 "\<lambda>_. None"] obtain st0 where st0: "paired st0 4 5"
    "out_pipe st0 4 = \<lparr>queue = [], capacity = 4, shut = False, wanted = 0\<rparr>" by auto
  obtain st where st0': "paired st 4 5"
    "out_pipe st 4 = (if [4, 1, 7, 9 :: byte] = [] then out_pipe st0 4 else snd (pipe_write [4, 1, 7, 9] (out_pipe st0 4)))"
    by (rule BIO_write_pair [OF st0(1), of "[4, 1, 7, 9]" "\<lambda>_. Some (\<lambda>_. 0)"]) (simp, blast)
  then have st: "paired st 4 5" "queue (out_pipe st 4) = [4, 1, 7, 9]" by (simp_all add: st0(2) pipe_write_def)
  have "\<not> asn1_indefinite [4, 1, 7, 9]" by (simp add: asn1_indefinite_def)
  from bio_asn1_exact [where malloc = "\<lambda>_. Some (\<lambda>_. 0)" and fuel = 9 and max_len = 100, OF st(1), unfolded st(2)] this
  obtain r st' where r: "BIO_read_asn1 9 (\<lambda>_. Some (\<lambda>_. 0)) (Some (methods_biop (\<lambda>_. Some (\<lambda>_. 0)))) (Some 5) 100 st = Some (r, st')"
    "\<forall>el. r = Some el \<longleftrightarrow> (\<exists>tag c rest. el = der_element tag c \<and> [4, 1, 7, 9] = el @ rest
          \<and> unat tag mod 2 ^ 29 < 31 \<and> length c < 2 ^ 31 \<and> length el \<le> 100)"
    "\<forall>el. r = Some el \<longrightarrow> [4, 1, 7, 9] = el @ queue (out_pipe st' 4)" by auto
  have "der_element 4 [7] = [4, 1, 7]" by code_simp
  then have "r = Some [4, 1, 7]" using r(2) [rule_format, of "[4, 1, 7]"] by (auto intro!: exI [of _ "4 :: 32 word"] exI [of _ "[7]"])
  then show ?thesis using r(1,3) st(2) by auto
qed

text \<open>
  C4. EVP_tls_cbc_digest_record, which hashes a fixed number of blocks and selects by masks where the
  data, the 0x80 byte, the zeros and the bit length go, returns HMAC (RFC 2104) of the header and the
  data before the MAC, for every hash function, every record below 2^20 bytes and every padding
  length.
\<close>

theorem tls_digest_is_hmac:
  assumes "tls_md_params md = Some (md_size, shift, ls)"
    and "n < 2 ^ 20" and "n \<le> length payload" and "md_size \<le> dm" and "dm \<le> n" and "n \<le> dm + 256"
    and "length header = 13" and "length key \<le> 2 ^ shift" and "\<And>st. md_size \<le> length (final_raw st)"
  shows "EVP_tls_cbc_digest_record md h0 transform final_raw digest header payload dm n key =
    Some (hmac md_size (2 ^ shift) ls h0 transform final_raw digest key (header @ take (dm - md_size) payload))"
  by (rule digest_record_eq [OF assms])

lemma tls_digest_is_hmac_witness:
  "EVP_tls_cbc_digest_record NID_sha1 0 (\<lambda>h b. foldl (\<lambda>h x. h * 33 + unat x) h b) (\<lambda>h. be_bytes 20 h) (\<lambda>m. Some (rev m)) (replicate 13 5)
      (replicate 40 7 @ [1, 1]) 40 42 [1, 2, 3] =
    Some (hmac 20 64 8 0 (\<lambda>h b. foldl (\<lambda>h x. h * 33 + unat x) h b) (\<lambda>h. be_bytes 20 h) (\<lambda>m. Some (rev m)) [1, 2, 3] (replicate 13 5 @ replicate 20 7))"
proof -
  have "tls_md_params NID_sha1 = Some (20, 6, 8)" by (simp add: tls_md_params_def)
  from tls_digest_is_hmac [OF this, of 42 "replicate 40 7 @ [1, 1]" 40 "replicate 13 5" "[1, 2, 3]" "\<lambda>h. be_bytes 20 h" 0
      "\<lambda>h b. foldl (\<lambda>h x. h * 33 + unat x) h b" "\<lambda>m. Some (rev m)"]
  show ?thesis by simp
qed

text \<open>
  C5. A CBC record that carries data, its MAC and any well-formed padding is taken apart correctly:
  EVP_tls_cbc_remove_padding accepts the padding and finds the length, EVP_tls_cbc_copy_mac returns
  the MAC at that position and EVP_tls_cbc_digest_record returns the HMAC of header and data, so the
  comparison of the two authenticates exactly what was sent.
\<close>

theorem tls_record_opened:
  assumes "tls_md_params md = Some (md_size, shift, ls)" and "length mac = md_size" and "length payload + 400 < 2 ^ 20"
    and "length header = 13" and "length key \<le> 2 ^ shift" and "\<And>st. md_size \<le> length (final_raw st)"
  shows "case payload @ mac @ replicate (unat p + 1) p of body \<Rightarrow>
      EVP_tls_cbc_remove_padding body (length body) block_size md_size = Some (- 1, length (payload @ mac))
    \<and> EVP_tls_cbc_copy_mac md_size body (length (payload @ mac)) (length body) = Some mac
    \<and> EVP_tls_cbc_digest_record md h0 transform final_raw digest header body (length (payload @ mac)) (length body) key =
      Some (hmac md_size (2 ^ shift) ls h0 transform final_raw digest key (header @ payload))"
proof -
  obtain body where body: "body = payload @ mac @ replicate (unat p + 1) p" by blast
  have md: "0 < md_size" "md_size \<le> 64" using assms(1) by (auto simp: tls_md_params_def split: tls_md.splits)
  have last: "last body = p" by (simp add: body)
  have p: "unat p < 256" by (rule unat_byte_lt)
  have len1: "length body = length (payload @ mac) + (unat p + 1)" by (simp add: body)
  have "length (payload @ mac) = length payload + md_size" using assms(2) by simp
  then have len: "length body = length (payload @ mac) + (unat p + 1)" "length body < 2 ^ 20" using assms(3) md(2) p len1 by linarith+
  have big: "length body < 2 ^ 63" using len(2) by simp
  have "cbc_padding_ok body md_size" unfolding cbc_padding_ok_def last
    using assms(2) by (intro conjI exI [of _ "payload @ mac"]) (simp_all add: body)
  then have "EVP_tls_cbc_remove_padding body (length body) block_size md_size = Some (- 1, length (payload @ mac))"
    using remove_padding_eq [OF big, of block_size md_size] assms(2) by (simp add: last len(1))
  moreover have "EVP_tls_cbc_copy_mac md_size body (length (payload @ mac)) (length body) = Some mac"
    using copy_mac_eq [OF big, of "length (payload @ mac)" md_size body] md p assms(2) len(1) by (simp add: body)
  moreover have "EVP_tls_cbc_digest_record md h0 transform final_raw digest header body (length (payload @ mac)) (length body) key =
      Some (hmac md_size (2 ^ shift) ls h0 transform final_raw digest key (header @ payload))"
    using digest_record_eq [where dm = "length (payload @ mac)" and ?h0.0 = h0 and transform = transform and digest = digest and final_raw = final_raw, OF assms(1) len(2) order_refl _ _ _ assms(4,5,6)] assms(2) len(1) p
    by (simp add: body)
  ultimately show ?thesis by (simp add: body)
qed

lemma tls_record_opened_witness:
  "\<exists>body. body = [5, 6, 7] @ replicate 20 9 @ [1, 1]
    \<and> EVP_tls_cbc_copy_mac 20 body 23 25 = Some (replicate 20 9)"
proof -
  have "tls_md_params NID_sha1 = Some (20, 6, 8)" by (simp add: tls_md_params_def)
  from tls_record_opened [OF this, of "replicate 20 9" "[5, 6, 7]" "replicate 13 5" "[1, 2, 3]" "\<lambda>h. be_bytes 20 h" 1 16 0
      "\<lambda>h b. foldl (\<lambda>h x. h * 33 + unat x) h b" "\<lambda>m. Some (rev m)"]
  show ?thesis by simp
qed

text \<open>
  C6. CBC in one memory: n bytes encrypted from i to p and decrypted from p to q come back at q, and
  nothing else is written by the decryption, for every placement that the assertions allow (out at or
  before in, or after its end, counted in whole blocks), n any number, whichever of the two branches
  of CRYPTO_cbc128_decrypt runs. Both end with the same ivec.
\<close>

theorem cbc_round_trip_in_memory:
  assumes "block_cipher block" and "block_cipher unblock" and "\<And>b. length b = 16 \<Longrightarrow> unblock (block b) = b" and "length ivec = 16"
    and "i + n \<le> length mem" and "p + up16 n \<le> length mem" and "p \<le> i \<or> i + n \<le> p"
    and "q + n \<le> length mem" and "q \<le> p \<or> p + up16 n \<le> q"
    and "CRYPTO_cbc128_encrypt block i p n ivec mem = (mem1, ivec1)"
  shows "CRYPTO_cbc128_decrypt unblock p q n ivec mem1 = (mem_write mem1 q (mem_bytes mem i n), ivec1)"
proof -
  let ?E = "cbc_enc block ivec (mem_bytes mem i n)"
  have x: "length (mem_bytes mem i n) = n" using assms(5) by (rule length_mem_bytes)
  then have E: "length ?E = up16 n" using length_cbc_enc [OF assms(1,4), of "mem_bytes mem i n"] by simp
  have m: "mem1 = mem_write mem p ?E" "ivec1 = last_block ivec ?E"
    using CRYPTO_cbc128_encrypt_exact [OF assms(1,4,5,6,7)] assms(10) by simp_all
  then have l: "length mem1 = length mem" using E assms(6) by simp
  have c: "mem_bytes mem1 p (up16 n) = ?E" unfolding m(1) using assms(6) E by (simp add: mem_bytes_written)
  have "may_decrypt p q n mem1" using assms(6,8,9) by (simp add: may_decrypt_def l)
  from CRYPTO_cbc128_decrypt_exact [OF assms(2,4) this]
  have "CRYPTO_cbc128_decrypt unblock p q n ivec mem1 = (mem_write mem1 q (take n (cbc_dec unblock ivec ?E)), last_block ivec ?E)"
    by (simp only: decrypted_def c)
  moreover have "take n (cbc_dec unblock ivec ?E) = mem_bytes mem i n"
    using cbc_dec_enc [OF assms(1,3), where iv = ivec and xs = "mem_bytes mem i n"] assms(4) x by simp
  ultimately show ?thesis by (simp add: m(2))
qed

lemma cbc_round_trip_in_memory_witness:
  "CRYPTO_cbc128_decrypt rev 0 0 20 (replicate 16 5) (fst (CRYPTO_cbc128_encrypt rev 0 0 20 (replicate 16 5) (replicate 32 7))) =
    (mem_write (fst (CRYPTO_cbc128_encrypt rev 0 0 20 (replicate 16 5) (replicate 32 7))) 0 (replicate 20 7),
     snd (CRYPTO_cbc128_encrypt rev 0 0 20 (replicate 16 5) (replicate 32 7)))"
proof -
  have "mem_bytes (replicate 32 7) 0 20 = (replicate 20 7 :: byte list)" by (simp add: mem_bytes_def)
  moreover have "up16 20 = 32" by (simp add: up16_def)
  ultimately show ?thesis
    using cbc_round_trip_in_memory [of rev rev "replicate 16 5" 0 20 "replicate 32 7" 0 0, OF _ _ _ _ _ _ _ _ _ surjective_pairing]
    by (simp add: block_cipher_def)
qed

text \<open>
  C7. The tag of CRYPTO_poly1305_init, CRYPTO_poly1305_update on any pieces (empty and unaligned ones
  too) and CRYPTO_poly1305_finish, computed in five 26-bit limbs with delayed carries, is the Poly1305
  of RFC 8439: the message in 16-byte blocks, each with a bit above it, evaluated at the clamped key
  modulo 2^130 - 5, plus the second half of the key modulo 2^128. No product or sum wraps. The one
  condition is on the final accumulator: below 2^33 its low 26 bits must be at least 5. The witness is
  the test vector of the RFC.
\<close>

theorem poly1305_tag_exact:
  assumes "length key = 32" and "length (pbuf st) = 16"
    and "a = poly1305_acc (le_value (poly1305_clamp key)) 0 (concat pieces)" and "5 \<le> a mod 2 ^ 26 \<or> 2 ^ 33 \<le> a"
  shows "fst (CRYPTO_poly1305_finish (foldl CRYPTO_poly1305_update (CRYPTO_poly1305_init st key) pieces)) = poly1305_mac key (concat pieces)"
  using poly1305_tag_ok [OF assms] by (simp only: poly1305_tag_def)

lemma poly1305_tag_exact_witness:
  "fst (CRYPTO_poly1305_finish (foldl CRYPTO_poly1305_update
      (CRYPTO_poly1305_init \<lparr>pr0 = 1, pr1 = 2, pr2 = 3, pr3 = 4, pr4 = 5, ps1 = 6, ps2 = 7, ps3 = 8, ps4 = 9, ph0 = 10, ph1 = 11,
         ph2 = 12, ph3 = 13, ph4 = 14, pbuf = replicate 16 15, pbuf_used = 16, pkey = []\<rparr>
        [133, 214, 190, 120, 87, 85, 109, 51, 127, 68, 82, 254, 66, 213, 6, 168, 1, 3, 128, 138, 251, 13, 178, 253, 74, 191, 246, 175, 65, 73, 245, 27])
      [map of_char ''Cryptographic '', [], map of_char ''Forum Research Group''])) =
    [168, 6, 29, 193, 48, 81, 54, 198, 194, 43, 139, 175, 12, 1, 39, 169]"
  (is "fst (CRYPTO_poly1305_finish (foldl CRYPTO_poly1305_update (CRYPTO_poly1305_init ?st ?key) ?pieces)) = _")
proof -
  define key where "key = ?key"
  have m: "concat ?pieces = [67, 114, 121, 112, 116, 111, 103, 114, 97, 112, 104, 105, 99, 32, 70, 111] @ [114, 117, 109, 32, 82, 101, 115, 101, 97, 114, 99, 104, 32, 71, 114, 111] @ [117, 112]"
    by simp
  have c: "poly1305_clamp key = [133, 214, 190, 8, 84, 85, 109, 3, 124, 68, 82, 14, 64, 213, 6, 8]" unfolding key_def by code_simp
  have a: "poly1305_acc (le_value (poly1305_clamp key)) 0 (concat ?pieces) = 868244031557762678448005180662195487655"
    unfolding m c by (simp add: poly1305_acc.simps le_value_Cons poly1305_prime_def)
  have "fst (CRYPTO_poly1305_finish (foldl CRYPTO_poly1305_update (CRYPTO_poly1305_init ?st key) ?pieces)) = poly1305_mac key (concat ?pieces)"
    by (rule poly1305_tag_exact [OF _ _ a [symmetric]]) (simp_all add: key_def)
  also have "poly1305_mac key (concat ?pieces) = [168, 6, 29, 193, 48, 81, 54, 198, 194, 43, 139, 175, 12, 1, 39, 169]"
    unfolding poly1305_mac_def a by (simp add: key_def le_value_Cons sixteen_bytes be_bytes_4)
  finally show ?thesis unfolding key_def .
qed

text \<open>
  C8. Without that condition the tag can be wrong: the last carry in CRYPTO_poly1305_finish is added
  to h0 and not carried on, so that h0 may reach 2^26, and f0 combines it by OR with an odd h1. For
  this key and message of one block the code returns a tag that differs from that of RFC 8439,
  whatever the storage held before.
\<close>

theorem poly1305_wrong_tag:
  "fst (CRYPTO_poly1305_finish (CRYPTO_poly1305_update (CRYPTO_poly1305_init st (replicate 16 7 @ replicate 16 0))
      [234, 135, 90, 3, 233, 73, 247, 197, 195, 63, 227, 210, 60, 84, 12, 6])) =
    [2, 0, 0, 4, 0, 0, 0, 0, 0, 0, 0, 0, 0, 0, 0, 0]
  \<and> poly1305_mac (replicate 16 7 @ replicate 16 0) [234, 135, 90, 3, 233, 73, 247, 197, 195, 63, 227, 210, 60, 84, 12, 6] =
    [2, 0, 0, 8, 0, 0, 0, 0, 0, 0, 0, 0, 0, 0, 0, 0]"
  using edge_tag [of st] edge_mac by (simp only: poly1305_tag_def foldl.simps edge_key_def edge_message_def simp_thms)

text \<open>
  C9. EVP_AEAD_CTX_open with ChaCha20-Poly1305 accepts exactly the inputs that end in the first k
  bytes of their own tag (with a nonce of 12 bytes, a length below the limit and room for the
  plaintext), and then writes the decryption; in every other case it returns 0, no byte of
  unauthenticated plaintext stays in the output, which is all zeros, and nothing outside is touched.
\<close>

theorem aead_opens_exactly:
  assumes "EVP_AEAD_CTX_init ctx0 EVP_aead_chacha20_poly1305 key k0 = Some (True, ctx)" and "length (ctx_opaque (ctx_state ctx0)) = 580"
    and "inp + n \<le> length mem" and "out + max_out \<le> length mem"
    and "k = (if k0 = 0 then 16 else k0)" and "calc_tag key nonce ad (mem_bytes mem inp (n - k)) [] = Some t"
  shows "EVP_AEAD_CTX_open ctx mem out max_out nonce inp n ad =
    (if check_alias inp n out max_out \<and> k \<le> n \<and> n - k \<le> max_out \<and> length nonce = 12 \<and> n - k < 2 ^ 32 * 64 - 64
        \<and> mem_bytes mem (inp + (n - k)) k = take k t
     then Some (Some (n - k), mem_write mem out (map (\<lambda>i. mem ! (inp + i) XOR chacha_core (chacha_input key nonce (1 + of_nat (i div 64))) ! (i mod 64)) [0..<n - k]))
     else Some (None, mem_write mem out (replicate max_out 0)))"
proof -
  have r: "aead ctx = Some EVP_aead_chacha20_poly1305" "aead_ready (ctx_state ctx)" "c20_key (ctx_state ctx) = key" "ctx_tag_len (ctx_state ctx) = k"
    using init_ready [OF assms(1) disjI1 [OF refl] assms(2)] unfolding assms(5) by blast+
  have t: "chacha20_poly1305_tag key nonce ad (mem_bytes mem inp (n - k)) = t" using assms(6) by (simp add: calc_tag_eq)
  have x: "inp + (n - k) \<le> length mem" using assms(3) by simp
  show ?thesis
    using c20.open_exact [OF r(1,2) assms(3,4), of nonce ad] unfolding r(3,4) Let_def t chacha_xor_core [OF x] chacha_limit_def mem_zero_def by (simp only: conj_assoc)
qed

lemma aead_opens_exactly_witness:
  "EVP_AEAD_CTX_open example_ctx (replicate 40 1) 0 40 (replicate 11 3) 0 36 [9] = Some (None, mem_write (replicate 40 1) 0 (replicate 40 0))"
  using aead_opens_exactly [OF example_init example_zero, of 0 36 "replicate 40 1" 0 40 16 "replicate 11 3" "[9]"]
  by (simp add: calc_tag_eq)

text \<open>
  C10. For ChaCha20-Poly1305 and XChaCha20-Poly1305 with any tag length: what EVP_AEAD_CTX_seal wrote,
  in place or not, is opened by EVP_AEAD_CTX_open from wherever it was moved to, in place or not, to
  the original plaintext. No assertion fails on the way.
\<close>

theorem aead_opens_what_it_sealed:
  assumes "a = EVP_aead_chacha20_poly1305 \<or> a = EVP_aead_xchacha20_poly1305"
    and "EVP_AEAD_CTX_init ctx0 a key k0 = Some (True, ctx)" and "length (ctx_opaque (ctx_state ctx0)) = 580"
    and "n < 2 ^ 64" and "inp + n \<le> length mem" and "out + max_out \<le> length mem"
    and "EVP_AEAD_CTX_seal ctx mem out max_out nonce inp n ad = Some (Some k, mem')"
    and "p + k \<le> length mem2" and "mem_bytes mem2 p k = mem_bytes mem' out k"
    and "q + max_out2 \<le> length mem2" and "n \<le> max_out2" and "check_alias p k q max_out2"
  shows "EVP_AEAD_CTX_open ctx mem2 q max_out2 nonce p k ad = Some (Some n, mem_write mem2 q (mem_bytes mem inp n))"
  by (rule chacha_seal_open [OF assms(2,1,3-)])

lemma aead_opens_what_it_sealed_witness:
  "\<exists>mem'. EVP_AEAD_CTX_seal example_ctx (replicate 40 1) 0 40 (replicate 12 3) 0 20 [9] = Some (Some 36, mem')
    \<and> EVP_AEAD_CTX_open example_ctx mem' 0 40 (replicate 12 3) 0 36 [9] = Some (Some 20, mem_write mem' 0 (mem_bytes (replicate 40 1) 0 20))"
proof -
  let ?m = "replicate 40 (1 :: byte)"
  obtain mem' where m: "EVP_AEAD_CTX_seal example_ctx ?m 0 40 (replicate 12 3) 0 20 [9] = Some (Some 36, mem')" and len: "length mem' = 40"
  proof (rule that)
    show "EVP_AEAD_CTX_seal example_ctx ?m 0 40 (replicate 12 3) 0 20 [9] = Some (Some 36, mem_write ?m 0 (chacha_xor (replicate 32 7) (replicate 12 3) 1 0 (mem_bytes ?m 0 20)
        @ take 16 (chacha20_poly1305_tag (replicate 32 7) (replicate 12 3) [9] (chacha_xor (replicate 32 7) (replicate 12 3) 1 0 (mem_bytes ?m 0 20)))))"
      by (subst c20.seal_exact) (simp_all add: example_ready check_alias_def chacha_limit_def Let_def)
  qed (simp add: length_mem_bytes)
  have "EVP_AEAD_CTX_open example_ctx mem' 0 40 (replicate 12 3) 0 36 [9] = Some (Some 20, mem_write mem' 0 (mem_bytes ?m 0 20))"
    by (rule aead_opens_what_it_sealed [OF disjI1 [OF refl] example_init example_zero _ _ _ m]) (simp_all add: len check_alias_def)
  then show ?thesis using m by blast
qed

text \<open>
  C11. EVP_AEAD_CTX_seal_scatter with extra input, which is encrypted byte by byte from the middle of
  a block, writes the encryption of input and extra input as one message: put together, ciphertext,
  extra ciphertext and tag are opened by EVP_AEAD_CTX_open to the input followed by the extra input.
\<close>

theorem aead_extra_input_is_appended:
  assumes "EVP_AEAD_CTX_init ctx0 EVP_aead_chacha20_poly1305 key k0 = Some (True, ctx)" and "length (ctx_opaque (ctx_state ctx0)) = 580"
    and "inp + n \<le> length mem" and "out + n \<le> length mem" and "out_tag + max_tag \<le> length mem"
    and "EVP_AEAD_CTX_seal_scatter ctx mem out out_tag max_tag nonce inp n extra ad = Some (Some k, mem')"
    and "n + length extra < 2 ^ 32 * 64 - 64"
    and "p + (n + k) \<le> length mem2" and "mem_bytes mem2 p (n + k) = mem_bytes mem' out n @ mem_bytes mem' out_tag k"
    and "q + max_out2 \<le> length mem2" and "n + length extra \<le> max_out2" and "check_alias p (n + k) q max_out2"
  shows "EVP_AEAD_CTX_open ctx mem2 q max_out2 nonce p (n + k) ad = Some (Some (n + length extra), mem_write mem2 q (mem_bytes mem inp n @ extra))"
  by (rule scatter_open [OF assms])

lemma aead_extra_input_is_appended_witness:
  "\<exists>mem'. EVP_AEAD_CTX_seal_scatter example_ctx (replicate 40 1) 0 20 20 (replicate 12 3) 0 20 [5, 6] [9] = Some (Some 18, mem')
    \<and> EVP_AEAD_CTX_open example_ctx mem' 0 38 (replicate 12 3) 0 38 [9] = Some (Some 22, mem_write mem' 0 (mem_bytes (replicate 40 1) 0 20 @ [5, 6]))"
proof -
  obtain mem' where m: "EVP_AEAD_CTX_seal_scatter example_ctx (replicate 40 1) 0 20 20 (replicate 12 3) 0 20 [5, 6] [9] = Some (Some 18, mem')"
    and len: "length mem' = 40"
    using example_scatter by (rule that) (simp add: length_mem_bytes)
  have "EVP_AEAD_CTX_open example_ctx mem' 0 38 (replicate 12 3) 0 (20 + 18) [9] = Some (Some (20 + length [5 :: byte, 6]), mem_write mem' 0 (mem_bytes (replicate 40 1) 0 20 @ [5, 6]))"
    by (rule aead_extra_input_is_appended [OF example_init example_zero _ _ _ m])
      (use len mem_bytes_add [of mem' 0 20 18] in \<open>simp_all add: check_alias_def\<close>)
  then show ?thesis using m by auto
qed

text \<open>
  C12. calc_tag, which feeds Poly1305 in up to seven pieces, returns the Poly1305 tag, with the first
  32 bytes of ChaCha20 block 0 as the key, of the one string of RFC 8439, section 2.8: additional data
  and ciphertext (with the extra ciphertext appended), each padded with zeros to 16 bytes, and their
  lengths in 8 bytes each. The tag does not depend on what the storage of the Poly1305 state held.
\<close>

theorem aead_tag_input:
  assumes "length (pbuf st) = 16"
  shows "calc_tag key nonce ad c e = Some (fst (CRYPTO_poly1305_finish (CRYPTO_poly1305_update
      (CRYPTO_poly1305_init st (take 32 (chacha_core (chacha_input key nonce 0))))
      (ad @ replicate ((16 - length ad mod 16) mod 16) 0 @ c @ e @ replicate ((16 - length (c @ e) mod 16) mod 16) 0
       @ rev (be_bytes 8 (length ad)) @ rev (be_bytes 8 (length (c @ e)))))))"
proof -
  have data: "ad @ pad16 ad @ c @ e @ pad16 (c @ e) @ le_bytes8 (length ad) @ le_bytes8 (length (c @ e)) = aead_data ad (c @ e)"
    by (simp add: aead_data_def)
  show ?thesis
    using poly1305_tag_whole [OF assms, of "take 32 (chacha_block key nonce 0)" "[aead_data ad (c @ e)]"]
    unfolding pad16_eq le_bytes8_eq data calc_tag_eq chacha20_poly1305_tag_def poly1305_tag_def chacha_block_def by simp
qed

lemma aead_tag_input_witness:
  "calc_tag (replicate 32 1) (replicate 12 2) [3] [4, 5] [6] = Some (fst (CRYPTO_poly1305_finish (CRYPTO_poly1305_update
      (CRYPTO_poly1305_init poly1305_storage (take 32 (chacha_core (chacha_input (replicate 32 1) (replicate 12 2) 0))))
      ([3] @ replicate ((16 - length [3 :: byte] mod 16) mod 16) 0 @ [4, 5] @ [6] @ replicate ((16 - length ([4, 5] @ [6 :: byte]) mod 16) mod 16) 0
       @ rev (be_bytes 8 (length [3 :: byte])) @ rev (be_bytes 8 (length ([4, 5] @ [6 :: byte])))))))"
  by (rule aead_tag_input) (simp add: poly1305_storage_def)

text \<open>
  C13. CRYPTO_chacha_20, in place or between regions that do not overlap, XORs byte i of the input
  with byte i mod 64 of the ChaCha20 block number counter + i / 64, the block number modulo 2^32;
  nothing else in memory changes and the assertion on aliasing does not fail.
\<close>

theorem chacha20_keystream:
  assumes "check_alias inp n out n" and "out + n \<le> length mem" and "inp + n \<le> length mem"
  shows "CRYPTO_chacha_20 mem out inp n key nonce counter =
    Some (mem_write mem out (map (\<lambda>i. mem ! (inp + i) XOR chacha_core (chacha_input key nonce (counter + of_nat (i div 64))) ! (i mod 64)) [0..<n]))"
  using CRYPTO_chacha_20_eq [OF assms] unfolding chacha_xor_core [OF assms(3)] .

lemma chacha20_keystream_witness:
  "CRYPTO_chacha_20 (replicate 200 5) 0 0 100 (replicate 32 1) (replicate 12 2) (- 1) =
    Some (mem_write (replicate 200 5) 0 (map (\<lambda>i. replicate 200 5 ! (0 + i) XOR
      chacha_core (chacha_input (replicate 32 1) (replicate 12 2) (- 1 + of_nat (i div 64))) ! (i mod 64)) [0..<100]))"
  by (rule chacha20_keystream) (simp_all add: check_alias_def)

text \<open>
  C14. The block function is the one of RFC 8439, for every key, nonce and counter: the state made by
  CRYPTO_chacha_20 is the four constants, the key, the counter and the nonce as little-endian words,
  and chacha_core is ten double rounds of the quarter round on the columns and then the diagonals of
  the matrix, the addition of the state, and little-endian output.
\<close>

theorem chacha20_block_rfc:
  assumes "length key = 32" and "length nonce = 12"
  shows "chacha_core (chacha_input key nonce counter) = rfc_block (rfc_state key nonce counter)"
  using assms by (rule chacha_block_rfc)

lemma chacha20_block_rfc_witness:
  "chacha_core (chacha_input (replicate 32 7) (replicate 12 8) 9) = rfc_block (rfc_state (replicate 32 7) (replicate 12 8) 9)"
  by (rule chacha20_block_rfc) simp_all

text \<open>
  C15. CRYPTO_hchacha20, which loads and stores its words by memcpy and leaves out the final addition,
  equals the words 0 to 3 and 12 to 15 of the ChaCha20 block with the same key and input, less the
  input words.
\<close>

theorem hchacha20_from_keystream:
  assumes "length key = 32" and "length nonce = 12"
  shows "CRYPTO_hchacha20 key (U32TO8_LE counter @ nonce) =
    (let w = load_words 16 (chacha_core (chacha_input key nonce counter)); v = chacha_input key nonce counter
     in store_words (map (\<lambda>i. w ! i - v ! i) [0, 1, 2, 3, 12, 13, 14, 15]))"
  using hchacha_of_block [OF assms, of counter] by (simp only: chacha_block_def)

lemma hchacha20_from_keystream_witness:
  "CRYPTO_hchacha20 (replicate 32 7) (U32TO8_LE 9 @ replicate 12 8) =
    (let w = load_words 16 (chacha_core (chacha_input (replicate 32 7) (replicate 12 8) 9)); v = chacha_input (replicate 32 7) (replicate 12 8) 9
     in store_words (map (\<lambda>i. w ! i - v ! i) [0, 1, 2, 3, 12, 13, 14, 15]))"
  by (rule hchacha20_from_keystream) simp_all

text \<open>
  C16. The length limit of chacha20_poly1305_seal_scatter does not count the extra input. With an
  input of 2^38 - 65 bytes, the longest that is accepted, the block counter wraps to 0 behind the
  first byte of extra input: 33 zeros are sealed with success, and the last 32 bytes of their
  ciphertext are the one-time key of Poly1305.
\<close>

theorem aead_extra_input_meets_poly1305_key:
  assumes "EVP_AEAD_CTX_init ctx0 EVP_aead_chacha20_poly1305 key k0 = Some (True, ctx)" and "length (ctx_opaque (ctx_state ctx0)) = 580"
    and "n = 2 ^ 32 * 64 - 65" and "length nonce = 12" and "n + 49 \<le> out_tag" and "out_tag + 49 \<le> length mem"
  shows "\<exists>k mem'. EVP_AEAD_CTX_seal_scatter ctx mem 0 out_tag 49 nonce 0 n (replicate 33 0) ad = Some (Some k, mem')
    \<and> CRYPTO_chacha_20 (replicate 32 0) 0 0 32 key nonce 0 = Some (mem_bytes mem' (out_tag + 1) 32)"
proof -
  note r = init_ready [OF assms(1) disjI1 [OF refl] assms(2)]
  let ?k = "ctx_tag_len (ctx_state ctx)"
  have k: "?k \<le> 16" using r by (simp add: aead_ready_def)
  have sup: "seal_scatter_supports_extra_in EVP_aead_chacha20_poly1305" by (simp add: EVP_aead_chacha20_poly1305_def)
  define c where "c = chacha_xor key nonce 1 0 (mem_bytes mem 0 n)"
  define e where "e = chacha_xor key nonce 1 n (replicate 33 0)"
  have lim: "n < chacha_limit" using assms(3) by (simp add: chacha_limit_def)
  have "\<exists>mem'. EVP_AEAD_CTX_seal_scatter ctx mem 0 out_tag 49 nonce 0 n (replicate 33 0) ad = Some (Some (33 + ?k), mem')"
    using c20.seal_scatter_exact [of ctx 0 n mem 0 out_tag 49 "replicate 33 0" c nonce e ad] r sup assms(4-6) lim k
    by (simp add: c_def e_def check_alias_def buffers_alias_def)
  then obtain mem' where m: "EVP_AEAD_CTX_seal_scatter ctx mem 0 out_tag 49 nonce 0 n (replicate 33 0) ad = Some (Some (33 + ?k), mem')" ..
  have fit: "0 + n \<le> length mem" "out_tag + 49 \<le> length mem" "length (replicate 33 (0 :: byte)) + 16 < 2 ^ 64" using assms(5,6) by simp_all
  have w: "mem_bytes mem' out_tag (33 + ?k) = e @ take ?k (chacha20_poly1305_tag key nonce ad (c @ e))"
    using scatter_result [OF assms(1,2) fit(1) fit(1) fit(2,3) m c_def e_def] by blast
  have zeros: "replicate 33 (0 :: byte) = [0] @ replicate 32 0" by (simp add: numeral_eq_Suc)
  have "e = chacha_xor key nonce 1 n [0] @ take 32 (chacha_block key nonce 0)"
    unfolding e_def zeros chacha_xor_append using stream_meets_key [OF assms(3), of 32 key nonce] by simp
  then have "take 32 (drop 1 (mem_bytes mem' out_tag (33 + ?k))) = take 32 (chacha_block key nonce 0)" unfolding w by simp
  moreover have "take 32 (drop 1 (mem_bytes mem' out_tag (33 + ?k))) = mem_bytes mem' (out_tag + 1) 32"
    by (simp add: mem_bytes_def drop_take add.commute)
  ultimately show ?thesis using m chacha_of_zeros [of 32 key nonce 0] by auto
qed

lemma aead_extra_input_meets_poly1305_key_witness:
  "\<exists>k mem'. EVP_AEAD_CTX_seal_scatter example_ctx (replicate (2 ^ 32 * 64 + 100) 1) 0 (2 ^ 32 * 64) 49 (replicate 12 3) 0 (2 ^ 32 * 64 - 65) (replicate 33 0) []
      = Some (Some k, mem')
    \<and> CRYPTO_chacha_20 (replicate 32 0) 0 0 32 (replicate 32 7) (replicate 12 3) 0 = Some (mem_bytes mem' (2 ^ 32 * 64 + 1) 32)"
  by (rule aead_extra_input_meets_poly1305_key [OF example_init example_zero refl]) simp_all

text \<open>
  C17. Data encrypted by CRYPTO_ctr128_encrypt in any pieces, with ivec, ecount_buf and *num carried
  over from call to call, is the data XOR the cipher applied to the big-endian counter, which starts
  at ivec and grows by one every 16 bytes, wrapping at 2^128. Applied once more it decrypts; the
  initial contents of ecount_buf do not matter.
\<close>

theorem ctr_keystream_in_any_pieces:
  assumes "block_cipher block" and "length ivec = 16" and "length ecount_buf = 16"
  shows "concat (ctr_calls block bss 0 (ivec, ecount_buf)) =
    map (\<lambda>i. concat bss ! i XOR block (be_bytes 16 (be_value ivec + i div 16)) ! (i mod 16)) [0..<length (concat bss)]"
  using ctr_calls_keystream [OF assms(1) ctr_at_start [OF assms(2,3)], of bss]
  by (simp add: ctr_xor_def ctr_keystream_def)

lemma ctr_keystream_in_any_pieces_witness:
  "concat (ctr_calls rev [[1, 2, 3], [], [4]] 0 (replicate 15 255 @ [254], replicate 16 0)) =
    map (\<lambda>i. concat [[1, 2, 3], [], [4]] ! i XOR rev (be_bytes 16 (be_value (replicate 15 255 @ [254]) + i div 16)) ! (i mod 16))
      [0..<length (concat [[1, 2, 3], [], [4 :: byte]])]"
  by (rule ctr_keystream_in_any_pieces) (simp_all add: block_cipher_def)

text \<open>
  C18. CRYPTO_ctr128_encrypt_ctr32, which hands whole runs of blocks to a function that only knows a
  32-bit counter, cuts a run where that counter overflows and carries into the upper 96 bits itself,
  equals CRYPTO_ctr128_encrypt at every position of a stream: same output, *num and ivec, and both
  leave a state from which either function can go on.
\<close>

theorem ctr32_is_ctr:
  assumes "block_cipher block" and "ctr32_function block func" and "ctr_at block v p (ivec, ecount_buf)"
  shows "\<exists>out n iv e1 e2. CRYPTO_ctr128_encrypt_ctr32 func bs (p mod 16) (ivec, ecount_buf) = (out, n, iv, e1)
    \<and> CRYPTO_ctr128_encrypt block bs (p mod 16) (ivec, ecount_buf) = (out, n, iv, e2)
    \<and> ctr_at block v (p + length bs) (iv, e1) \<and> ctr_at block v (p + length bs) (iv, e2)"
proof -
  obtain o1 n1 iv1 e1 where a: "CRYPTO_ctr128_encrypt_ctr32 func bs (p mod 16) (ivec, ecount_buf) = (o1, n1, iv1, e1)" by (rule prod_cases4)
  obtain o2 n2 iv2 e2 where b: "CRYPTO_ctr128_encrypt block bs (p mod 16) (ivec, ecount_buf) = (o2, n2, iv2, e2)" by (rule prod_cases4)
  note a' = CRYPTO_ctr32_keystream [OF assms a] and b' = CRYPTO_ctr128_keystream [OF assms(1,3) b]
  then have "iv1 = iv2" unfolding ctr_at_def prod.case by blast
  then show ?thesis using a b a' b' by auto
qed

lemma ctr32_is_ctr_witness:
  "\<exists>out n iv e1 e2. CRYPTO_ctr128_encrypt_ctr32
      (\<lambda>bs ivec. map (\<lambda>i. bs ! i XOR rev (take 12 ivec @ be_bytes 4 (be_value (drop 12 ivec) + i div 16)) ! (i mod 16)) [0..<length bs])
      (replicate 40 7) 0 (replicate 16 255, replicate 16 0) = (out, n, iv, e1)
    \<and> CRYPTO_ctr128_encrypt rev (replicate 40 7) 0 (replicate 16 255, replicate 16 0) = (out, n, iv, e2)"
proof -
  have "block_cipher rev" by (simp add: block_cipher_def)
  moreover have "ctr32_function rev (\<lambda>bs ivec. map (\<lambda>i. bs ! i XOR rev (take 12 ivec @ be_bytes 4 (be_value (drop 12 ivec) + i div 16)) ! (i mod 16)) [0..<length bs])"
    by (simp add: ctr32_function_def)
  moreover have "ctr_at rev (be_value (replicate 16 255)) 0 (replicate 16 255, replicate 16 0)" by (rule ctr_at_start) simp_all
  ultimately show ?thesis using ctr32_is_ctr [of rev _ _ 0 "replicate 16 255" "replicate 16 0" "replicate 40 7"] by fastforce
qed

text \<open>
  C19. Any run of lh_insert and lh_delete on a new hash table behaves as on a finite map keyed by what
  the comparison function identifies: every answer is the value the map held, an insertion that fails
  for lack of memory changes nothing and can only happen for a new key, resizes are not visible, and
  lh_retrieve afterwards finds exactly what the map holds.
\<close>

theorem lhash_runs_as_map:
  assumes "lh_new malloc h c = Some lh" and "\<forall>x y. c x y = 0 \<longleftrightarrow> key x = key y" and "\<forall>x y. key x = key y \<longrightarrow> h x = h y"
    and "length ops < 2 ^ 64"
  shows "\<exists>rs lh' m. table_run (lh_insert malloc) (lh_delete malloc) ops lh = (rs, lh') \<and> map_replay key ops rs Map.empty m
    \<and> (\<forall>x. lh_retrieve lh' x = m (key x))"
proof -
  note new = lh_new_ok [OF assms(1-3)]
  then have "wf_lhash key lh" "num_items lh + length ops \<le> 2 ^ 64 - 1" using assms(4) by simp_all
  from lhash_table.run_get [OF this, of malloc] show ?thesis using new by simp
qed

lemma lhash_runs_as_map_witness:
  "\<exists>lh rs lh' m. lh_new (\<lambda>_. Some (\<lambda>_. 0)) (\<lambda>x. of_nat (fst x)) (\<lambda>x y. int (fst x) - int (fst y)) = Some lh
    \<and> table_run (lh_insert (\<lambda>_. Some (\<lambda>_. 0))) (lh_delete (\<lambda>_. Some (\<lambda>_. 0)))
        [Insert_item (3 :: nat, True), Insert_item (19, True), Insert_item (3, False), Delete_item (19, False)] lh = (rs, lh')
    \<and> lh_retrieve lh' (3, True) = m (3 :: nat) \<and> map_replay fst
        [Insert_item (3, True), Insert_item (19, True), Insert_item (3, False), Delete_item (19, False)] rs Map.empty m"
proof -
  obtain lh where lh: "lh_new (\<lambda>_. Some (\<lambda>_. 0)) (\<lambda>x. of_nat (fst x)) (\<lambda>x y. int (fst x) - int (fst y)) = (Some lh :: (nat \<times> bool) LHASH option)"
    by (simp add: lh_new_def OPENSSL_malloc_def)
  from lhash_runs_as_map [OF lh, of fst "[Insert_item (3, True), Insert_item (19, True), Insert_item (3, False), Delete_item (19, False)]"]
  obtain rs lh' m where "table_run (lh_insert (\<lambda>_. Some (\<lambda>_. 0))) (lh_delete (\<lambda>_. Some (\<lambda>_. 0)))
      [Insert_item (3, True), Insert_item (19, True), Insert_item (3, False), Delete_item (19, False)] lh = (rs, lh')"
    "map_replay fst [Insert_item (3, True), Insert_item (19, True), Insert_item (3, False), Delete_item (19, False)] rs Map.empty m"
    "\<forall>x. lh_retrieve lh' x = m (fst x)" by auto
  with lh show ?thesis by (intro exI conjI) (assumption | simp)+
qed

text \<open>
  C20. Any row of elements (tag and contents, each at most 0xfffffffe bytes long) written with
  CBB_add_asn1, CBB_add_bytes and CBB_flush into a growable CBB is finished successfully when the
  initial capacity is below 2^64 - 8, the total is at most 2^63 - 4 bytes and malloc answers every
  request of at least eight bytes, and CBS_get_any_asn1 reads the same row back with nothing left
  over. The allocator may refuse requests of fewer than eight bytes, so the theorem also shows that
  OPENSSL_malloc is never called with a size whose request wraps.
\<close>

theorem elements_round_trip:
  assumes "\<forall>(c, tag) \<in> set xs. length c \<le> 0xfffffffe" and "cap < 2 ^ 64 - 8" and "\<And>m. 8 \<le> m \<Longrightarrow> malloc m \<noteq> None"
    and "length (concat (map (\<lambda>(c, tag). der_element tag c) xs)) \<le> 2 ^ 63 - 4"
  shows "\<exists>out. cbb_build malloc cap (add_all (\<lambda>(c, tag). add_element tag (CBB_add_bytes c)) xs 0) = Some out
    \<and> dec_n (parsed CBS_get_any_asn1) (length xs) out = Some (xs, [])"
proof -
  have w: "\<forall>x \<in> set xs. case x of (c, tag) \<Rightarrow> length c \<le> 0xfffffffe" using assms(1) by auto
  have b: "cbb_build malloc cap (add_all (\<lambda>(c, tag). add_element tag (CBB_add_bytes c)) xs 0)
      = Some (concat (map (\<lambda>(c, tag). der_element tag c) xs))"
    using w_element.add_all_writes [OF w] assms(2-4) by (rule cbb_build_answers)
  show ?thesis unfolding b using w_element.dec_n_concat [OF w, of "[]"] by simp
qed

lemma elements_round_trip_witness:
  "\<exists>out. cbb_build (\<lambda>m. if 8 \<le> m then Some (\<lambda>_. 0) else None) 1 (add_all (\<lambda>(c, tag). add_element tag (CBB_add_bytes c))
       [([1, 2, 3], CBS_ASN1_OCTETSTRING), ([], CBS_ASN1_INTEGER)] 0) = Some out
    \<and> dec_n (parsed CBS_get_any_asn1) (Suc (Suc 0)) out = Some ([([1, 2, 3], CBS_ASN1_OCTETSTRING), ([], CBS_ASN1_INTEGER)], [])"
proof -
  have l: "length (concat (map (\<lambda>(c, tag). der_element tag c)
      [([1, 2, 3], CBS_ASN1_OCTETSTRING), ([], CBS_ASN1_INTEGER)])) \<le> 2 ^ 63 - 4"
    by code_simp
  show ?thesis
    using elements_round_trip [OF _ _ _ l, of 1 "\<lambda>m. if 8 \<le> m then Some (\<lambda>_. 0) else None"] by (simp del: dec_n.simps add_all.simps)
qed

text \<open>
  C21. Reference counts with C11 atomics: when as many threads as there are references each drop one,
  under every interleaving of their loads and compare-and-exchange steps (spurious failures included)
  no thread aborts, at most one is told that the count reached zero, and when all have returned
  exactly one was.
\<close>

theorem refcount_release_once:
  assumes "(c11_step op)\<^sup>*\<^sup>* (of_nat (card T), \<lambda>i. if i \<in> T then Start else Returned False) (n, pc)"
    and "finite T" and "\<forall>i \<in> T. op i = Dec" and "card T < 2 ^ 32 - 1"
  shows "(\<forall>i \<in> T. pc i \<noteq> Aborted) \<and> card {i \<in> T. pc i = Returned True} \<le> 1
    \<and> (T \<noteq> {} \<and> (\<forall>i \<in> T. \<not> running (pc i)) \<longrightarrow> n = 0 \<and> card {i \<in> T. pc i = Returned True} = 1)"
  using assms by (rule release_once)

lemma refcount_release_once_witness:
  "\<exists>pc. (c11_step (\<lambda>_. Dec))\<^sup>*\<^sup>* (1, \<lambda>i. if i = 0 then Start else Returned False) (0, pc) \<and> card {i \<in> {0}. pc i = Returned True} = 1"
proof -
  obtain p0 p1 p2 where p: "p0 = (\<lambda>i :: nat. if i = 0 then Start else Returned False)" "p1 = p0(0 := Loop 1)" "p2 = p1(0 := Returned True)" by blast
  have "c11_step (\<lambda>_. Dec) (1, p0) (1, p1)" unfolding p(2) by (rule load) (simp add: p(1))
  moreover have "c11_step (\<lambda>_. Dec) (1, p1) (1 - 1, p1(0 := Returned (1 - 1 = (0 :: 32 word))))"
    by (rule dec_exchanged) (simp_all add: p(2) CRYPTO_REFCOUNT_MAX_def)
  ultimately have r: "(c11_step (\<lambda>_. Dec))\<^sup>*\<^sup>* (1, p0) (0, p2)" by (simp add: p(3))
  have "(c11_step (\<lambda>_. Dec))\<^sup>*\<^sup>* (of_nat (card {0 :: nat}), \<lambda>i. if i \<in> {0} then Start else Returned False) (0, p2)"
    using r by (simp add: p(1))
  from refcount_release_once [OF this] r show ?thesis by (auto simp: p)
qed

text \<open>
  C22. sk_find finds the earliest element that matches (pointer equality without a comparison
  function, a comparison result of 0 with one) and answers 0 exactly when there is none, by linear
  search on a stack whose sorted flag is clear and by binary search on one whose flag is set; no
  assertion of the binary search fails. The flag, when set, must be true of the elements
  (sorted_stack), as sk_sort leaves it; sk_set can break that, see stack_set_makes_search_miss. The
  comparison function must be consistent (comparison: reflexive answers of 0, antisymmetric in sign
  and transitive).
\<close>

theorem stack_search_exact:
  assumes "wf_stack s" and "sorted_stack call s" and "\<And>c. comp s = Some c \<Longrightarrow> comparison (call c)"
  shows "\<exists>r. sk_find call (Some s) p = Some r \<and>
    (case r of None \<Rightarrow> \<forall>e \<in> set (elems s). \<not> matches call s p e
     | Some i \<Rightarrow> i < num s \<and> matches call s p (elems s ! i) \<and> (\<forall>j < i. \<not> matches call s p (elems s ! j)))"
  using assms by (rule sk_find_ok)

lemma stack_search_exact_witness:
  "\<exists>(s :: (byte list, unit) stack) r. elems s = [Some [1], Some [2], Some [2], Some [3 :: byte]] \<and> sorted_flag s
    \<and> sk_find (\<lambda>c a b. compare_set_of_element (the a) (the b)) (Some s) (Some [2]) = Some r"
proof -
  obtain s :: "(byte list, unit) stack" where s: "s = \<lparr>num = 4, data = [Some [1], Some [2], Some [2], Some [3], None], sorted_flag = True,
      num_alloc = 5, comp = Some ()\<rparr>" by blast
  have e: "elems s = [Some [1], Some [2], Some [2], Some [3]]" by (simp add: s elems_def)
  have cmp: "comparison (\<lambda>a b. compare_set_of_element (the a) (the b))"
    using set_of_order.antisym set_of_order.trans by unfold_locales blast+
  have "wf_stack s" by (simp add: s wf_stack_def)
  moreover have "sorted_stack (\<lambda>c a b. compare_set_of_element (the a) (the b)) s"
    unfolding sorted_stack_def e by (simp add: s compare_set_of_element_le)
  ultimately obtain r where "sk_find (\<lambda>c a b. compare_set_of_element (the a) (the b)) (Some s) (Some [2]) = Some r"
    using stack_search_exact [of s "\<lambda>c a b. compare_set_of_element (the a) (the b)" "Some [2]"] cmp by blast
  with e show ?thesis by (intro exI [of _ s] exI [of _ r]) (simp add: s)
qed

text \<open>
  C23. CBB_flush implements the abstract writer: when it succeeds all the children below the CBB are
  closed, each length prefix (fixed-width or DER) holding exactly the length of its contents, the
  buffer holds exactly those bytes and nothing else changed; when it fails the buffer is poisoned; and
  it does succeed whenever every child fits its prefix and the buffer can hold the result.
\<close>

theorem CBB_flush_refines: "writes d (CBB_flush d) []"
  by (rule writes_flush)

text \<open>
  C24. CBS_get_asn1_uint64 returns v exactly on inputs that start with the INTEGER element holding the
  shortest two's complement encoding of v; negative, over-long and out-of-range integers are refused.
\<close>

theorem uint64_reader_exact:
  "CBS_get_asn1_uint64 s = (Some v, r) \<longleftrightarrow> s = der_element CBS_ASN1_INTEGER (der_int (int (unat v))) @ r"
  by (rule CBS_get_asn1_uint64_iff)

text \<open>
  C25. cbs_get_utf8 decodes v exactly on inputs that start with the one shortest UTF-8 encoding of v,
  where v is at most 0x10ffff, no surrogate (0xd800 to 0xdfff) and no noncharacter (0xfdd0 to 0xfdef,
  and the last two code points of every plane): over-long forms, surrogates, noncharacters, larger
  values, stray continuation bytes and truncated sequences are refused.
\<close>

theorem utf8_reader_exact:
  "cbs_get_utf8 s = (Some v, r) \<longleftrightarrow> unat v \<le> 0x10ffff \<and> \<not> (0xd800 \<le> unat v \<and> unat v \<le> 0xdfff)
    \<and> \<not> (0xfdd0 \<le> unat v \<and> unat v \<le> 0xfdef) \<and> unat v mod 0x10000 < 0xfffe \<and> s = utf8 (unat v) @ r"
proof -
  have "unat v < 128 \<Longrightarrow> is_valid_code_point v" by (simp add: is_valid_code_point_iff)
  then have "cbs_get_utf8 s = (Some v, r) \<longleftrightarrow> is_valid_code_point v \<and> s = utf8 (unat v) @ r"
    using utf8_sound [of s v r] utf8_complete [of v r] by blast
  then show ?thesis by (simp add: is_valid_code_point_iff)
qed

text \<open>
  C26. Once an operation on an open CBB has failed, the error flag of the shared buffer stays set
  whatever run of operations follows, at whatever depths: every later add, flush or flush of a SET OF
  fails on every CBB of the tree, and CBB_finish fails. The failing operation may be any that sets the
  flag (sets_error): CBB_flush, CBB_add_bytes, CBB_add_space, CBB_reserve, the adders of fixed-width
  integers, of length-prefixed children, of ASN.1 elements, integers, octet strings and booleans; a
  failed CBB_did_write, an OID text that does not parse, and a failed sort of a SET OF do not set it.
  CBB_did_write and CBB_discard_child do not look at the flag, and may succeed later.
\<close>

theorem error_is_latched:
  assumes "is_open d s" and "sets_error op" and "\<not> fst (run_op op d s)"
  shows "poisoned (run_ops ((op, d) # ops) s)
    \<and> (adds op' \<longrightarrow> \<not> fst (run_op op' d' (run_ops ((op, d) # ops) s)))
    \<and> fst (CBB_finish has_out d' (run_ops ((op, d) # ops) s)) = None"
proof -
  have "poisoned (snd (run_op op d s))" using assms by (rule failure_sets_error)
  then have p: "poisoned (run_ops ((op, d) # ops) s)" using latch.P_run_ops [of "snd (run_op op d s)" ops] by auto
  show ?thesis using p poisoned_refuses [OF p] poisoned_finish [OF p] by (simp del: run_ops.simps)
qed

lemma error_is_latched_witness:
  "\<exists>s :: CBB. fst (CBB_finish True 0 (run_ops [(Op_u16 7, 0), (Op_discard_child, 0), (Op_did_write 1, 0)] s)) = None"
proof -
  obtain s :: CBB where s: "s = \<lparr>base = Some \<lparr>base_buf = [0], base_len = 0, base_cap = 1, base_can_resize = False,
      base_error = False, base_alloc = (\<lambda>_. None)\<rparr>, children = []\<rparr>" by blast
  have "is_open 0 s" by (simp add: s is_open_def)
  moreover have "\<not> fst (run_op (Op_u16 7) 0 s)" unfolding s by code_simp
  ultimately show ?thesis
    using error_is_latched [of 0 s "Op_u16 7" "[(Op_discard_child, 0), (Op_did_write 1, 0)]" Op_flush 0 True] by auto
qed

text \<open>
  C27. A CBB over a caller-supplied array p accepts an element exactly when its whole encoding fits in
  the array, and then produces exactly that encoding. Whatever operations are run on such a CBB, at
  whatever depths, with whatever results, every byte of the memory behind the array (rest, of any
  length) keeps its value.
\<close>

theorem fixed_buffer_bound:
  assumes "length c \<le> 0xfffffffe" and "length p < 2 ^ 64" and "malloc 40 \<noteq> None"
    and "\<forall>(op, d) \<in> set ops. op_size op < 2 ^ 64"
  shows "cbb_build_fixed malloc p (add_element tag (CBB_add_bytes c) 0) =
      (if length (der_element tag c) \<le> length p then Some (der_element tag c) else None)
    \<and> (\<exists>s b a. CBB_init_fixed malloc (p @ rest) (length p) = (True, s) \<and> base (run_ops ops s) = Some b
      \<and> base_buf b = a @ rest \<and> length a = length p)"
  using w_element.build_fixed [of "(c, tag)" p malloc] fixed_run_within [of p malloc ops rest, OF assms(2-4)] assms(1-3) by simp

lemma fixed_buffer_bound_witness:
  "cbb_build_fixed (\<lambda>_. Some (\<lambda>_. 0)) [0, 0, 0] (add_element CBS_ASN1_OCTETSTRING (CBB_add_bytes [5, 6]) 0) = None
    \<and> (\<exists>s b a. CBB_init_fixed (\<lambda>_. Some (\<lambda>_. 0)) ([0, 0, 0] @ [9]) 3 = (True, s)
      \<and> base (run_ops [(Op_asn1 CBS_ASN1_OCTETSTRING, 0), (Op_u8 5, 1), (Op_space 2, 1), (Op_flush, 0)] s) = Some b
      \<and> base_buf b = a @ [9] \<and> length a = 3)"
proof -
  have "\<not> length (der_element CBS_ASN1_OCTETSTRING [5, 6]) \<le> length [0 :: byte, 0, 0]" by code_simp
  then show ?thesis
    using fixed_buffer_bound [of "[5, 6]" "[0, 0, 0]" "\<lambda>_. Some (\<lambda>_. 0)"
        "[(Op_asn1 CBS_ASN1_OCTETSTRING, 0), (Op_u8 5, 1), (Op_space 2, 1), (Op_flush, 0)]" CBS_ASN1_OCTETSTRING "[9]"]
    by (simp add: numeral_3_eq_3 del: run_ops.simps)
qed

text \<open>
  C28. CBB_flush_asn1_set_of, when it succeeds, has split the contents of the CBB into DER elements
  and left exactly the same elements in the lexicographic order that DER prescribes for SET OF.
\<close>

theorem set_of_sorted:
  assumes "CBB_flush_asn1_set_of malloc d s = (True, s')" and "writer_state d s b"
  shows "\<exists>cs els b'. flushed d s b = Some cs \<and> drop (CBB_start d s) cs = concat els
    \<and> (\<forall>e \<in> set els. is_der_element e) \<and> s' = after_write d s b'
    \<and> holds b (take (CBB_start d s) cs @ concat (sort els)) b'"
  using assms by (rule flush_set_of_ok) blast

lemma set_of_sorted_witness:
  "\<exists>s s' els b b'. CBB_flush_asn1_set_of (\<lambda>_. Some (\<lambda>_. 0)) 0 s = (True, s') \<and> s' = after_write 0 s b'
    \<and> buffer_contents b = [2, 1, 7, 2, 1, 5] \<and> base s = Some b \<and> concat els = [2, 1, 7, 2, 1, 5] \<and> holds b (concat (sort els)) b'"
proof -
  obtain b :: cbb_buffer where b: "b = \<lparr>base_buf = [2, 1, 7, 2, 1, 5], base_len = 6, base_cap = 6, base_can_resize = True,
      base_error = False, base_alloc = (\<lambda>_. Some (\<lambda>_. 0))\<rparr>" by blast
  obtain s where s: "s = \<lparr>base = Some b, children = []\<rparr>" by blast
  have "fst (CBB_flush_asn1_set_of (\<lambda>_. Some (\<lambda>_. 0)) 0 s)" unfolding s b by code_simp
  then obtain s' where s': "CBB_flush_asn1_set_of (\<lambda>_. Some (\<lambda>_. 0)) 0 s = (True, s')"
    by (cases "CBB_flush_asn1_set_of (\<lambda>_. Some (\<lambda>_. 0)) 0 s") auto
  have w: "writer_state 0 s b" by (simp add: s b writer_state_def wf_buffer_def)
  obtain cs els b' where r: "flushed 0 s b = Some cs" "drop (CBB_start 0 s) cs = concat els" "s' = after_write 0 s b'"
    "holds b (take (CBB_start 0 s) cs @ concat (sort els)) b'"
    using set_of_sorted [OF s' w] by blast
  have cs: "CBB_start 0 s = 0" by (simp add: s CBB_start_def)
  have e: "cs = [2, 1, 7, 2, 1, 5]" using r(1) by (simp add: s b flushed_def CBB_start_def buffer_contents_def)
  have h: "holds b (concat (sort els)) b'" "concat els = [2, 1, 7, 2, 1, 5]" using r(2,4) cs e by simp_all
  have "base s = Some b" "buffer_contents b = [2, 1, 7, 2, 1, 5]" by (simp_all add: s b buffer_contents_def)
  with s' r(3) h show ?thesis by blast
qed

text \<open>
  C29. Whatever dotted-decimal text CBB_add_asn1_oid_from_text accepts, CBS_asn1_oid_to_text turns the
  DER contents it wrote back into exactly that text (NUL-terminated).
\<close>

theorem oid_text_round_trip:
  assumes "cap < 2 ^ 64" and "cbb_build malloc cap (CBB_add_asn1_oid_from_text txt (length txt) 0) = Some out"
    and "length txt < 2 ^ 63" and "\<And>m. malloc2 m \<noteq> None"
  shows "CBS_asn1_oid_to_text malloc2 out = Some (txt @ [0])"
proof -
  from assms(2) obtain s s' where "CBB_add_asn1_oid_from_text txt (length txt) 0 s = (True, s')"
    by (auto simp: cbb_build_def cbb_run_def split: prod.splits bool.splits)
  then obtain as where as: "valid_oid as" "txt = dotted as" using oid_from_text_sound by fastforce
  have "out = oid_der as" using writes_oid_from_text [OF as] assms(1,2) by (rule cbb_build_sound)
  then show ?thesis using oid_to_text_complete [OF as(1) assms(4)] assms(3) as(2) by simp
qed

lemma oid_text_round_trip_witness:
  "\<exists>out. CBS_asn1_oid_to_text (\<lambda>_. Some (\<lambda>_. 0)) out = Some ([0x31, 0x2e, 0x32, 0x2e, 0x38, 0x34, 0x30] @ [0])"
proof -
  have "cbb_build (\<lambda>_. Some (\<lambda>_. 0)) 1
      (CBB_add_asn1_oid_from_text [0x31, 0x2e, 0x32, 0x2e, 0x38, 0x34, 0x30] (length [0x31, 0x2e, 0x32, 0x2e, 0x38, 0x34, 0x30 :: byte]) 0) \<noteq> None"
    by code_simp
  then obtain out where "cbb_build (\<lambda>_. Some (\<lambda>_. 0)) 1
      (CBB_add_asn1_oid_from_text [0x31, 0x2e, 0x32, 0x2e, 0x38, 0x34, 0x30] (length [0x31, 0x2e, 0x32, 0x2e, 0x38, 0x34, 0x30 :: byte]) 0) = Some out"
    by blast
  from oid_text_round_trip [OF _ this, of "\<lambda>_. Some (\<lambda>_. 0)"] show ?thesis by auto
qed

text \<open>
  C30. Whenever CBS_asn1_ber_to_der converts (returns freshly allocated storage), its output is a row
  of definite-length elements with canonical headers in which no string is constructed, at every
  nesting depth.
\<close>

theorem ber_conversion_is_der:
  assumes "CBS_asn1_ber_to_der malloc s = (Some (out, Some st), r)" and "length s < 2 ^ 64"
  shows "der_items out"
  using assms by (rule ber_to_der_converted)

lemma ber_conversion_is_der_witness:
  "\<exists>out st r. CBS_asn1_ber_to_der (\<lambda>_. Some (\<lambda>_. 0)) [0x24, 0x80, 0x04, 0x01, 0x61, 0x04, 0x01, 0x62, 0, 0] = (Some (out, Some st), r)
    \<and> der_items out"
proof -
  have "case CBS_asn1_ber_to_der (\<lambda>_. Some (\<lambda>_. 0)) [0x24, 0x80, 0x04, 0x01, 0x61, 0x04, 0x01, 0x62, 0, 0] of
      (Some (out, Some st), r) \<Rightarrow> True | _ \<Rightarrow> False" by code_simp
  then obtain out st r where "CBS_asn1_ber_to_der (\<lambda>_. Some (\<lambda>_. 0)) [0x24, 0x80, 0x04, 0x01, 0x61, 0x04, 0x01, 0x62, 0, 0]
      = (Some (out, Some st), r)"
    by (auto split: prod.splits option.splits)
  with ber_conversion_is_der [OF this] show ?thesis by auto
qed

text \<open>
  C31. The recursion of cbs_convert_ber ends on every input: a number of steps above the length of the
  input is always enough, any two such bounds give the same result, and the input that is left is no
  longer than before.
\<close>

theorem ber_conversion_terminates:
  assumes "length cbs < f" and "length cbs < g"
  shows "cbs_convert_ber f cbs out st eoc depth s = cbs_convert_ber g cbs out st eoc depth s
    \<and> length (fst (snd (cbs_convert_ber f cbs out st eoc depth s))) \<le> length cbs"
  using assms by (rule convert_fuel_step)

lemma ber_conversion_terminates_witness:
  "cbs_convert_ber 3 [5, 0] 0 0 False 0 CBB_zero = cbs_convert_ber 9 [5, 0] 0 0 False 0 CBB_zero"
  using ber_conversion_terminates [of "[5, 0]" 3 9 0 0 False 0 CBB_zero] by simp

text \<open>
  C32. cbs_find_ber forgets an indefinite length found in a constructed element when a later sibling
  constructed element is plain DER, so CBS_asn1_ber_to_der hands this non-DER input back unconverted,
  although it holds an indefinite-length element.
\<close>

theorem ber_detection_misses_nested_indefinite:
  "CBS_asn1_ber_to_der malloc [0x30, 8, 0x30, 4, 0x30, 0x80, 0, 0, 0x30, 0]
    = (Some ([0x30, 8, 0x30, 4, 0x30, 0x80, 0, 0, 0x30, 0], None), [])
   \<and> cbs_find_ber [0x30, 4, 0x30, 0x80, 0, 0] 0 = Some True
   \<and> cbs_find_ber [0x30, 4, 0x30, 0x80, 0, 0, 0x30, 0] 0 = Some False"
  using ber_missed_input ber_missed_inner by simp

text \<open>
  C33. Data fed to the base64 encoder in any pieces (EVP_EncodeUpdate, EVP_EncodeFinal) and its output
  fed to the decoder cut at any other points (EVP_DecodeUpdate, EVP_DecodeFinal) comes back unchanged.
\<close>

theorem base64_stream_round_trip:
  assumes "\<forall>p \<in> set ps. length p \<le> 2 ^ 30" and "\<forall>q \<in> set qs. length q \<le> 2 ^ 29"
    and "concat qs = encode_stream (EVP_EncodeInit c1) ps"
  shows "decode_stream (EVP_DecodeInit c2) qs = Some (concat ps)"
  using assms by (rule stream_round_trip)

lemma base64_stream_round_trip_witness:
  "decode_stream (EVP_DecodeInit EVP_CTX_zero) [[0x41], [0x51, 0x49, 0x44, 0x0a]] = Some (concat [[1], [2, 3]])"
proof (rule base64_stream_round_trip)
  show "\<forall>p \<in> set [[1], [2, 3]]. length p \<le> 2 ^ 30" "\<forall>q \<in> set [[0x41], [0x51, 0x49, 0x44, 0x0a]]. length q \<le> 2 ^ 29"
    by simp_all
  show "concat [[0x41], [0x51, 0x49, 0x44, 0x0a]] = encode_stream (EVP_EncodeInit EVP_CTX_zero) [[1], [2, 3]]" by code_simp
qed

text \<open>
  C34. The C11 implementation of the reference counts refines the one that holds a lock: in every
  reachable state, the step at which an operation returns changes the counter and answers exactly as
  the locked CRYPTO_refcount_inc or CRYPTO_refcount_dec_and_test_zero would at that moment.
\<close>

theorem refcount_c11_refines_lock:
  assumes "(c11_step op)\<^sup>*\<^sup>* (c, \<lambda>_. Start) (n, pc)" and "c11_step op (n, pc) (n', pc')"
    and "running (pc i)" and "pc' i = Returned r"
  shows "case op i of Inc \<Rightarrow> n' = CRYPTO_refcount_inc n
    | Dec \<Rightarrow> CRYPTO_refcount_dec_and_test_zero n = Some (r, n')"
  using saturation_seen_run [OF assms(1)] by (intro c11_step_locked [OF assms(2) _ assms(3,4)]) (simp add: saturation_seen_def)

lemma refcount_c11_refines_lock_witness:
  "CRYPTO_refcount_dec_and_test_zero 1 = Some (True, 0)"
proof -
  obtain p1 where p1: "p1 = (\<lambda>_ :: nat. Start)(0 := Loop (1 :: 32 word))" by blast
  have a: "(c11_step (\<lambda>_. Dec))\<^sup>*\<^sup>* (1, \<lambda>_. Start) (1, p1)" unfolding p1 by (rule r_into_rtranclp) (rule load, simp)
  have b: "c11_step (\<lambda>_. Dec) (1, p1) (1 - 1, p1(0 := Returned (1 - 1 = (0 :: 32 word))))"
    by (rule dec_exchanged) (simp_all add: p1 CRYPTO_REFCOUNT_MAX_def)
  from refcount_c11_refines_lock [OF a b, of 0 True] show ?thesis by (simp add: p1)
qed

text \<open>
  C35. sk_deep_copy is all or nothing: when it fails, at any element or for lack of memory, every copy
  made so far has been released; when it succeeds, the new stack owns exactly the copies made, with
  NULL elements where the original has them.
\<close>

theorem stack_deep_copy_no_leak:
  assumes "wf_stack s" and "copies copy_func free_func live" and "sk_deep_copy malloc uninit copy_func free_func (Some s) st = (r, st')"
  shows "case r of None \<Rightarrow> live st' = live st
    | Some s' \<Rightarrow> wf_stack s' \<and> comp s' = comp s \<and> num s' = num s \<and> live st' = live st + present (elems s')
        \<and> (\<forall>j < num s. elems s' ! j = None \<longleftrightarrow> elems s ! j = None)"
  using assms by (rule sk_deep_copy_ok)

lemma stack_deep_copy_no_leak_witness:
  "\<exists>(s :: (nat, unit) stack) r st'. elems s = [Some 1, None, Some 9] \<and>
    sk_deep_copy (\<lambda>_. Some (\<lambda>_. 0)) (\<lambda>_. None) (\<lambda>p st. if p = 9 then (None, st) else (Some (p + 10), add_mset (p + 10) st)) (\<lambda>q st. st - {#q#})
      (Some s) {#} = (r, st') \<and> (r = None \<longrightarrow> st' = {#})"
proof -
  obtain s :: "(nat, unit) stack" where s: "s = \<lparr>num = 3, data = [Some 1, None, Some 9, None], sorted_flag = False, num_alloc = 4, comp = None\<rparr>" by blast
  obtain r st' where r: "sk_deep_copy (\<lambda>_. Some (\<lambda>_. 0)) (\<lambda>_. None)
      (\<lambda>p st. if p = 9 then (None, st) else (Some (p + 10), add_mset (p + 10) st)) (\<lambda>q st. st - {#q#}) (Some s) {#} = (r, st')" by fastforce
  have "wf_stack s" by (simp add: s wf_stack_def)
  moreover have "copies (\<lambda>p st. if p = 9 then (None, st) else (Some (p + 10), add_mset (p + 10) st)) (\<lambda>q st. st - {#q#}) (\<lambda>st. st)"
    by (simp add: copies_def)
  ultimately have "case r of None \<Rightarrow> st' = {#} | Some s' \<Rightarrow> True"
    using stack_deep_copy_no_leak [OF _ _ r, of "\<lambda>st. st"] by (auto split: option.splits)
  with r show ?thesis by (intro exI [of _ s] exI [of _ r] exI [of _ st']) (auto simp: s elems_def split: option.splits)
qed

text \<open>
  C36. sk_set leaves the sorted flag as it was: after it replaces an element of a sorted stack,
  sk_find can report that an element which is there is not (sk_insert, which also changes the order,
  does clear the flag).
\<close>

theorem stack_set_makes_search_miss:
  "\<exists>s s' :: (byte list, unit) stack. wf_stack s \<and> sorted_stack (\<lambda>c a b. compare_set_of_element (the a) (the b)) s
    \<and> sk_set (Some s) 0 (Some [9]) = (Some [9], Some s') \<and> Some [9] \<in> set (elems s')
    \<and> sk_find (\<lambda>c a b. compare_set_of_element (the a) (the b)) (Some s') (Some [9]) = Some None"
proof -
  obtain s :: "(byte list, unit) stack" where s: "s = \<lparr>num = 3, data = [Some [1], Some [2], Some [3], None], sorted_flag = True,
      num_alloc = 4, comp = Some ()\<rparr>" by blast
  obtain s' where s': "s' = s\<lparr>data := [Some [9], Some [2], Some [3], None]\<rparr>" by blast
  have "wf_stack s" by (simp add: s wf_stack_def)
  moreover have "sorted_stack (\<lambda>c a b. compare_set_of_element (the a) (the b)) s"
    by (simp add: s sorted_stack_def elems_def compare_set_of_element_le)
  moreover have "sk_set (Some s) 0 (Some [9]) = (Some [9], Some s')" by (simp add: sk_set_def s s')
  moreover have "Some [9] \<in> set (elems s')" by (simp add: s s' elems_def)
  moreover have "sk_find (\<lambda>c a b. compare_set_of_element (the a) (the b)) (Some s') (Some [9]) = Some None"
    unfolding s s' by code_simp
  ultimately show ?thesis by blast
qed

text \<open>
  C37. bio_read_all only takes -1 for an error: after a read that fails with -2 it subtracts 2 from
  the fill level, so the next data overwrites the header that was already read, and BIO_read_asn1
  reports success with an element whose first two bytes are lost.
\<close>

theorem bio_asn1_error_taken_for_progress:
  assumes "0 < length bs" and "length bs \<le> 2048" and "4098 \<le> max_len" and "max_len < 2 ^ 64" and "malloc (malloc_request 4098) \<noteq> None"
  shows "read_asn1 (Suc (Suc (Suc n))) malloc scripted_read max_len
      [(2, [0x30, 0x80]), (- 2, []), (int (length bs), bs), (0, [])] = Some (Some bs, [])"
proof -
  obtain s where s: "s = [(- 2, []), (int (length bs), bs), (0, [])]" by blast
  have "bio_read_full_loop (Suc (Suc 0)) scripted_read True 2 [] ((2, [0x30, 0x80]) # s) = Some (True, False, [0x30, 0x80], s)"
    by (simp add: INT_MAX_def)
  then have "bio_read_full scripted_read 2 ((2, [0x30, 0x80]) # s) = Some (True, False, [0x30, 0x80], s)"
    unfolding bio_read_full_def numeral_2_eq_2 [symmetric] .
  then have "read_asn1 (Suc (Suc (Suc n))) malloc scripted_read max_len ((2, [0x30, 0x80]) # s) =
      bio_read_all (Suc (Suc (Suc n))) malloc scripted_read [0x30, 0x80] max_len s" by (simp add: read_asn1_def)
  then show ?thesis using bio_read_all_minus_two [of "[0x30, 0x80]" bs max_len malloc n] assms by (simp add: s)
qed

lemma bio_asn1_error_taken_for_progress_witness:
  "read_asn1 3 (\<lambda>_. Some (\<lambda>_. 0)) scripted_read 5000 [(2, [0x30, 0x80]), (- 2, []), (3, [5, 0, 0]), (0, [])] = Some (Some [5, 0, 0], [])"
  using bio_asn1_error_taken_for_progress [of "[5, 0, 0]" 5000 "\<lambda>_. Some (\<lambda>_. 0)" 0] by (simp add: numeral_3_eq_3)

text \<open>
  C38. The compare-and-exchange loops are obstruction-free: from every state, whatever value it
  expects, a thread in CRYPTO_refcount_inc or CRYPTO_refcount_dec_and_test_zero that is left alone
  takes at most two steps that change anything, has returned or aborted after the second, and always
  has such a step to take until then. (own_step is a step of this thread that changes the state. A
  spurious failure of the weak exchange changes nothing; the C standard lets it happen any number of
  times, and it is not counted.)
\<close>

theorem refcount_thread_stops:
  assumes "(own_step op i ^^ k) (c, pc) (c', pc')"
  shows "k \<le> 2 \<and> (k = 2 \<longrightarrow> \<not> running (pc' i)) \<and> (running (pc' i) \<longrightarrow> (\<exists>s''. own_step op i (c', pc') s''))"
proof -
  have "(own_step op i ^^ Suc k) (c, pc) s''" if "own_step op i (c', pc') s''" for s'' using assms that by auto
  then have "running (pc' i) \<Longrightarrow> Suc k \<le> 2" using own_step_possible [of pc' i op c'] own_steps_bounded [where op = op and i = i and k = "Suc k" and s = "(c, pc)"] by blast
  then show ?thesis using own_steps_bounded [OF assms] own_step_possible [of pc' i op c'] by auto
qed

lemma refcount_thread_stops_witness:
  "(own_step (\<lambda>_. Dec) 3 ^^ 1) (2, \<lambda>_. Start) (2, (\<lambda>_. Start)(3 := Loop 2))
    \<and> (\<exists>s''. own_step (\<lambda>_. Dec) 3 (2, (\<lambda>_. Start)(3 := Loop 2)) s'')"
proof -
  have "own_step (\<lambda>_. Dec) 3 (2, \<lambda>_. Start) (2, (\<lambda>_. Start)(3 := Loop 2))"
    using c11_step.load [of "\<lambda>_. Start" 3 "\<lambda>_. Dec" 2] by (auto simp: own_step_def dest: fun_cong [of _ _ 3])
  then have s: "(own_step (\<lambda>_. Dec) 3 ^^ 1) (2, \<lambda>_. Start) (2, (\<lambda>_. Start)(3 := Loop 2))" by (simp only: relpowp_1)
  then show ?thesis using refcount_thread_stops [OF s] by simp
qed

text \<open>
  C39. The branch-free EVP_tls_cbc_remove_padding decides exactly whether the record ends in a padding
  as TLS defines it (n + 1 equal bytes of value n, after at least mac_size bytes), and treats every
  other record as having no padding at all, so that bad padding is not told from a bad MAC; a record
  too short for MAC and length byte is refused.
\<close>

theorem tls_padding_exact:
  assumes "length bs < 2 ^ 63"
  shows "EVP_tls_cbc_remove_padding bs (length bs) block_size mac_size =
    (if mac_size + 1 > length bs then None
     else if cbc_padding_ok bs mac_size then Some (- 1, length bs - (unat (last bs) + 1))
     else Some (0, length bs))"
  by (rule remove_padding_eq [OF assms])

lemma tls_padding_exact_witness:
  "EVP_tls_cbc_remove_padding [9, 8, 7, 2, 2, 2] (length [9, 8, 7, 2, 2, 2 :: byte]) 16 2 = Some (- 1, 3)"
proof -
  have "cbc_padding_ok [9, 8, 7, 2, 2, 2] 2" unfolding cbc_padding_ok_def by (intro conjI exI [of _ "[9, 8, 7]"]) (simp_all add: numeral_3_eq_3)
  with tls_padding_exact [of "[9, 8, 7, 2, 2, 2]" 16 2] show ?thesis by (simp add: numeral_3_eq_3)
qed

text \<open>
  C40. CTR, OFB and CFB keep their state well-formed: after any call *num is below 16, which the next
  call asserts, ivec and ecount_buf are 16 bytes, and the output is as long as the input.
\<close>

theorem stream_modes_keep_state:
  assumes "block_cipher block" and "length ivec = 16" and "length ecount_buf = 16" and "n < 16"
  shows "(case CRYPTO_ctr128_encrypt block bs n (ivec, ecount_buf) of (out, n', ivec', ecount_buf') \<Rightarrow>
      length out = length bs \<and> n' < 16 \<and> length ivec' = 16 \<and> length ecount_buf' = 16)
    \<and> (case CRYPTO_ofb128_encrypt block bs n ivec of (out, n', ivec') \<Rightarrow> length out = length bs \<and> n' < 16 \<and> length ivec' = 16)
    \<and> (case CRYPTO_cfb128_encrypt block enc bs n ivec of (out, n', ivec') \<Rightarrow> length out = length bs \<and> n' < 16 \<and> length ivec' = 16)"
proof -
  have "case CRYPTO_ctr128_encrypt block bs n (ivec, ecount_buf) of (out, n', ivec', ecount_buf') \<Rightarrow>
      length out = length bs \<and> n' < 16 \<and> length ivec' = 16 \<and> length ecount_buf' = 16"
  proof -
    obtain out n' ivec' e' where call: "CRYPTO_ctr128_encrypt block bs n (ivec, ecount_buf) = (out, n', ivec', e')" by (rule prod_cases4)
    have s: "case (ivec, ecount_buf) of (ivec, ecount_buf) \<Rightarrow> block_cipher block \<and> length ivec = 16 \<and> length ecount_buf = 16"
      using assms by simp
    from ctr.machine_inv [OF s assms(4) call [unfolded CRYPTO_ctr128_machine [OF assms]]] call show ?thesis by simp
  qed
  moreover have "case CRYPTO_ofb128_encrypt block bs n ivec of (out, n', ivec') \<Rightarrow> length out = length bs \<and> n' < 16 \<and> length ivec' = 16"
  proof -
    obtain out n' ivec' where call: "CRYPTO_ofb128_encrypt block bs n ivec = (out, n', ivec')" by (rule prod_cases3)
    have s: "block_cipher block \<and> length ivec = 16" using assms by simp
    from ofb.machine_inv [OF s assms(4) call [unfolded CRYPTO_ofb128_machine [OF assms(1,2,4)]]] call show ?thesis by simp
  qed
  moreover have "case CRYPTO_cfb128_encrypt block enc bs n ivec of (out, n', ivec') \<Rightarrow> length out = length bs \<and> n' < 16 \<and> length ivec' = 16"
  proof -
    obtain out n' ivec' where call: "CRYPTO_cfb128_encrypt block enc bs n ivec = (out, n', ivec')" by (rule prod_cases3)
    have s: "block_cipher block \<and> length ivec = 16" using assms by simp
    note loops = cfb_enc.loops_machine [OF s assms(4), of bs] cfb_dec.loops_machine [OF s assms(4), of bs]
    have "length out = length bs \<and> n' < 16 \<and> length ivec' = 16"
    proof (cases enc)
      case True
      from cfb_enc.machine_inv [OF s assms(4) call [unfolded CRYPTO_cfb128_encrypt_def if_P [OF True] loops(1)]] show ?thesis by simp
    next
      case False
      from cfb_dec.machine_inv [OF s assms(4) call [unfolded CRYPTO_cfb128_encrypt_def if_not_P [OF False] loops(2)]] show ?thesis by simp
    qed
    then show ?thesis using call by simp
  qed
  ultimately show ?thesis by blast
qed

lemma stream_modes_keep_state_witness:
  "(case CRYPTO_ctr128_encrypt rev [1, 2, 3] 15 (replicate 16 1, replicate 16 0) of (out, n', ivec', ecount_buf') \<Rightarrow>
      length out = length [1, 2, 3 :: byte] \<and> n' < 16 \<and> length ivec' = 16 \<and> length ecount_buf' = 16)
    \<and> (case CRYPTO_ofb128_encrypt rev [1, 2, 3] 15 (replicate 16 1) of (out, n', ivec') \<Rightarrow> length out = length [1, 2, 3 :: byte] \<and> n' < 16 \<and> length ivec' = 16)
    \<and> (case CRYPTO_cfb128_encrypt rev True [1, 2, 3] 15 (replicate 16 1) of (out, n', ivec') \<Rightarrow> length out = length [1, 2, 3 :: byte] \<and> n' < 16 \<and> length ivec' = 16)"
  by (rule stream_modes_keep_state) (simp_all add: block_cipher_def)

end
